(* ===== verification/Prelude.thy ===== *)
theory Prelude
  imports Main "HOL-Library.Word" "HOL-Library.Monad_Syntax"
begin

unbundle bit_operations_syntax

text \<open>
  Shared vocabulary of the development: bytes, the arithmetic of \<^verbatim>\<open>size_t\<close> and
  \<^verbatim>\<open>ssize_t\<close>, and the memory areas that the C code reads with \<^verbatim>\<open>*p\<close>, writes with
  \<^verbatim>\<open>*p = c\<close> and copies with \<^verbatim>\<open>memcpy\<close>/\<^verbatim>\<open>memmove\<close>.

  A memory area is the list of its bytes and a pointer into it is an offset. Every access
  checks its bounds: \<open>None\<close> is an access outside of the area (undefined behaviour in C), a
  failed \<^verbatim>\<open>BUG_ON\<close> (the process aborts) or a loop that does not end. A theorem that concludes
  \<open>f x = Some y\<close> therefore also says that \<open>f\<close> stays inside its memory and returns.
\<close>

section \<open>Bytes and machine sizes\<close>

type_synonym byte = "8 word"
type_synonym bytes = "byte list"
type_synonym u16 = "16 word"
type_synonym u32 = "32 word"
type_synonym u64 = "64 word"

named_theorems sz_simps \<open>size_t arithmetic without wrap-around\<close>
named_theorems mem_simps \<open>reads and writes of memory areas\<close>

text \<open>\<^verbatim>\<open>size_t\<close> is a \<open>nat\<close> below \<open>2 ^ 64\<close> with the wrap-around written out.\<close>

definition sz_add :: "nat \<Rightarrow> nat \<Rightarrow> nat" where
  "sz_add a b = (a + b) mod 18446744073709551616"

definition sz_sub :: "nat \<Rightarrow> nat \<Rightarrow> nat" where
  "sz_sub a b = (a + 18446744073709551616 - b) mod 18446744073709551616"

text \<open>The conversions to \<^verbatim>\<open>ssize_t\<close> and back, and the truncation to \<^verbatim>\<open>int\<close>.\<close>

definition ssz :: "nat \<Rightarrow> int" where
  "ssz a = (if a < 9223372036854775808 then int a else int a - 18446744073709551616)"

definition usz :: "int \<Rightarrow> nat" where
  "usz i = nat (i mod 18446744073709551616)"

definition to_int32 :: "int \<Rightarrow> int" where
  "to_int32 i = (i + 2147483648) mod 4294967296 - 2147483648"

lemma sz_add_small [sz_simps]: "a + b < 18446744073709551616 \<Longrightarrow> sz_add a b = a + b"
  by (simp add: sz_add_def)

lemma sz_sub_small [sz_simps]:
  assumes "b \<le> a" and "a < 18446744073709551616"
  shows "sz_sub a b = a - b"
proof -
  from assms(1) have "a + 18446744073709551616 - b = (a - b) + 18446744073709551616" by linarith
  then have "sz_sub a b = (a - b) mod 18446744073709551616"
    by (simp only: sz_sub_def mod_add_self2)
  also have "\<dots> = a - b" using assms(2) by (intro mod_less) linarith
  finally show ?thesis .
qed

lemma sz_sub_wrap: "a < b \<Longrightarrow> b < 18446744073709551616 \<Longrightarrow>
    sz_sub a b = a + 18446744073709551616 - b"
  by (simp add: sz_sub_def)

text \<open>An intermediate result may wrap as long as the final one does not.\<close>

lemma sz_add_sub [sz_simps]:
  assumes "b \<le> a + c" and "a + c < 18446744073709551616" and "b < 18446744073709551616"
  shows "sz_add (sz_sub a b) c = a + c - b"
proof -
  have "sz_add (sz_sub a b) c = (a + 18446744073709551616 - b + c) mod 18446744073709551616"
    by (simp only: sz_add_def sz_sub_def mod_add_left_eq)
  also have "a + 18446744073709551616 - b + c = (a + c - b) + 18446744073709551616"
    using assms by linarith
  also have "\<dots> mod 18446744073709551616 = a + c - b"
    using assms(2) by (simp only: mod_add_self2) (intro mod_less, linarith)
  finally show ?thesis .
qed

lemma ssz_small [sz_simps]: "a < 9223372036854775808 \<Longrightarrow> ssz a = int a"
  by (simp add: ssz_def)

lemma ssz_large: "9223372036854775808 \<le> a \<Longrightarrow> ssz a = int a - 18446744073709551616"
  by (simp add: ssz_def)

lemma usz_small [sz_simps]: "0 \<le> i \<Longrightarrow> i < 18446744073709551616 \<Longrightarrow> usz i = nat i"
  by (simp add: usz_def)

lemma usz_diff: 
  assumes "b < 18446744073709551616"
  shows "usz (int a - int b) = sz_sub a b"
proof -
  have "int (a + 18446744073709551616 - b) = int a - int b + 18446744073709551616"
    using assms by (simp add: of_nat_diff)
  then have "int (sz_sub a b) = (int a - int b) mod 18446744073709551616"
    by (simp only: sz_sub_def zmod_int of_nat_numeral mod_add_self2)
  then show ?thesis unfolding usz_def by linarith
qed

lemma to_int32_small [sz_simps]:
  "-2147483648 \<le> i \<Longrightarrow> i < 2147483648 \<Longrightarrow> to_int32 i = i"
  by (simp add: to_int32_def)

section \<open>Memory areas\<close>

text \<open>\<open>blit\<close> overwrites part of an area; the checked accesses are \<open>ld\<close> (one byte), \<open>rd\<close>
  (a block), \<open>st\<close> (one byte) and \<open>wr\<close> (a block).\<close>

definition blit :: "'a list \<Rightarrow> nat \<Rightarrow> 'a list \<Rightarrow> 'a list" where
  "blit m ofs xs = take ofs m @ xs @ drop (ofs + length xs) m"

definition ld :: "'a list \<Rightarrow> nat \<Rightarrow> 'a option" where
  "ld m p = (if p < length m then Some (m ! p) else None)"

definition rd :: "'a list \<Rightarrow> nat \<Rightarrow> nat \<Rightarrow> 'a list option" where
  "rd m p n = (if p + n \<le> length m then Some (take n (drop p m)) else None)"

definition st :: "'a list \<Rightarrow> nat \<Rightarrow> 'a \<Rightarrow> 'a list option" where
  "st m p c = (if p < length m then Some (m[p := c]) else None)"

definition wr :: "'a list \<Rightarrow> nat \<Rightarrow> 'a list \<Rightarrow> 'a list option" where
  "wr m p xs = (if p + length xs \<le> length m then Some (blit m p xs) else None)"

lemma ld_Some [mem_simps]: "p < length m \<Longrightarrow> ld m p = Some (m ! p)"
  by (simp add: ld_def)

lemma rd_Some [mem_simps]: "p + n \<le> length m \<Longrightarrow> rd m p n = Some (take n (drop p m))"
  by (simp add: rd_def)

lemma st_Some [mem_simps]: "p < length m \<Longrightarrow> st m p c = Some (m[p := c])"
  by (simp add: st_def)

lemma wr_Some [mem_simps]: "p + length xs \<le> length m \<Longrightarrow> wr m p xs = Some (blit m p xs)"
  by (simp add: wr_def)

lemma length_blit [simp]: "ofs + length xs \<le> length m \<Longrightarrow> length (blit m ofs xs) = length m"
  by (simp add: blit_def)

lemma nth_blit:
  assumes "ofs + length xs \<le> length m" and "i < length m"
  shows "blit m ofs xs ! i = (if ofs \<le> i \<and> i < ofs + length xs then xs ! (i - ofs) else m ! i)"
  using assms by (auto simp: blit_def nth_append)

lemma blit_Nil [simp]: "blit m ofs [] = m"
  by (simp add: blit_def)

lemma blit_adjacent:
  "ofs + length xs + length ys \<le> length m \<Longrightarrow>
   blit (blit m ofs xs) (ofs + length xs) ys = blit m ofs (xs @ ys)"
  by (rule nth_equalityI) (auto simp: nth_blit nth_append)

lemma blit_single: "p < length m \<Longrightarrow> blit m p [c] = m[p := c]"
  by (simp add: blit_def upd_conv_take_nth_drop)

lemma st_blit:
  assumes "p + length xs < length m"
  shows "st (blit m p xs) (p + length xs) c = Some (blit m p (xs @ [c]))"
proof -
  have "(blit m p xs)[p + length xs := c] = blit m p (xs @ [c])"
    using assms by (intro nth_equalityI) (auto simp: nth_blit nth_list_update nth_append)
  then show ?thesis using assms by (simp add: st_def)
qed

lemma st_eq_wr: "st m p c = wr m p [c]"
  by (auto simp: st_def wr_def blit_single)

lemma rd_length: "rd m p n = Some xs \<Longrightarrow> length xs = n"
  by (auto simp: rd_def split: if_splits)

lemma nth_take_drop: "i < n \<Longrightarrow> p + n \<le> length m \<Longrightarrow> take n (drop p m) ! i = m ! (p + i)"
  by simp

section \<open>Indices that wrap once\<close>

lemma mod_wrap_once:
  "(i::nat) < 2 * n \<Longrightarrow> i mod n = (if i < n then i else i - n)"
  by (simp add: le_mod_geq)

lemma mod_wrap_hi: "n \<le> (i::nat) \<Longrightarrow> i < 2 * n \<Longrightarrow> i mod n = i - n"
  by (simp add: le_mod_geq)

section \<open>Numbers and their bytes\<close>

lemma unat_byte_ucast: "unat (ucast (w::'a::len word) :: byte) = unat w mod 256"
  by (simp add: unsigned_ucast_eq take_bit_eq_mod)

lemma unat_byte_of_nat: "unat (word_of_nat n :: byte) = n mod 256"
  by (simp add: unsigned_of_nat take_bit_eq_mod)

lemma or_not_mask_eq: "(x :: 'a::len word) OR NOT (mask k) = take_bit k x + NOT (mask k)"
proof -
  have "x OR NOT (mask k) = take_bit k x OR NOT (mask k)"
    by (rule bit_eqI) (auto simp: bit_or_iff bit_not_iff bit_mask_iff bit_take_bit_iff)
  also have "\<dots> = take_bit k x + NOT (mask k)"
    by (intro disjunctive_add [symmetric])
       (auto simp: bit_not_iff bit_mask_iff bit_take_bit_iff)
  finally show ?thesis .
qed

lemma byte_or_128: "ucast (w::'a::len word) OR (128::byte) = word_of_nat (128 + unat w mod 128)"
proof -
  have "(128::byte) = NOT (mask 7)" by (simp add: mask_eq_exp_minus_1)
  then have "ucast w OR (128::byte) = take_bit 7 (ucast w) + 128" by (simp only: or_not_mask_eq)
  also have "take_bit 7 (ucast w :: byte) = word_of_nat (unat w mod 128)"
    by (simp add: word_unat_eq_iff take_bit_eq_mod unat_mod unat_byte_ucast unat_byte_of_nat mod_mod_cancel)
  finally show ?thesis by (simp add: add.commute)
qed

lemma byte_or_240: "ucast (w::'a::len word) OR (240::byte) = word_of_nat (240 + unat w mod 16)"
proof -
  have "(240::byte) = NOT (mask 4)" by (simp add: mask_eq_exp_minus_1)
  then have "ucast w OR (240::byte) = take_bit 4 (ucast w) + 240" by (simp only: or_not_mask_eq)
  also have "take_bit 4 (ucast w :: byte) = word_of_nat (unat w mod 16)"
    by (simp add: word_unat_eq_iff take_bit_eq_mod unat_mod unat_byte_ucast unat_byte_of_nat mod_mod_cancel)
  finally show ?thesis by (simp add: add.commute)
qed

lemma unat_drop_bit: "unat (drop_bit k (w::'a::len word)) = unat w div 2 ^ k"
  by (simp only: unat_drop_bit_eq) (simp only: drop_bit_eq_div)

lemma u64_step7: "128 \<le> (w::u64) \<Longrightarrow> unat (drop_bit 7 (w - 128)) = (unat w - 128) div 128"
  by (simp only: unat_drop_bit unat_sub) simp

lemma u64_step4: "240 \<le> (w::u64) \<Longrightarrow> unat (drop_bit 4 (w - 240)) = (unat w - 240) div 16"
  by (simp only: unat_drop_bit unat_sub) simp

lemma u64_less: "unat (w::u64) < 18446744073709551616" using unsigned_less [of w] by simp

lemma byte_less: "unat (w::byte) < 256" using unsigned_less [of w] by simp

lemma take_Suc_update: "take (Suc p) xs = take (Suc p) (ys[p := c]) \<Longrightarrow> take p xs = take p ys"
  by (drule arg_cong [of _ _ "take p"]) (simp add: min_absorb1)

lemma ucast_byte_u64: "ucast (word_of_nat n :: byte) = (word_of_nat n :: u64)" if "n < 256"
  using that by (simp add: word_unat_eq_iff unsigned_ucast_eq unsigned_of_nat take_bit_eq_mod)

text \<open>The bytes between two pointers, seen as a list.\<close>

lemma window_Cons:
  assumes "take (e - p) (drop p m) = c # cs"
  shows "p < e" and "ld m p = Some c" and "take (e - Suc p) (drop (Suc p) m) = cs"
proof -
  obtain k where k: "e - p = Suc k" using assms by (cases "e - p") auto
  obtain ds where ds: "drop p m = c # ds" "take k ds = cs"
    using assms k by (cases "drop p m") auto
  have p: "p < length m" using ds(1) by (metis drop_eq_Nil2 list.distinct(1) not_less)
  then have "m ! p = c \<and> drop (Suc p) m = ds" using ds(1) Cons_nth_drop_Suc [of p m] by simp
  then show "p < e" and "ld m p = Some c" and "take (e - Suc p) (drop (Suc p) m) = cs"
    using k ds p by (auto simp: ld_def diff_Suc)
qed

lemma window_Nil: "take (e - p) (drop p m) = [] \<Longrightarrow> e \<le> length m \<Longrightarrow> e \<le> p"
  by auto

text \<open>Reading: the loop of \<^verbatim>\<open>b_peek_varint\<close> on the bytes that follow the first one.\<close>

lemma byte_and_128: "(c::byte) AND 128 = 0 \<longleftrightarrow> c < 128"
proof -
  have "c AND 128 = 0 \<longleftrightarrow> \<not> bit c 7"
    using and_exp_eq_0_iff_not_bit [of c 7] by simp
  also have "bit c 7 \<longleftrightarrow> odd (unat c div 128)"
  proof -
    have "bit (unat c) 7 \<longleftrightarrow> bit c 7" by (simp add: bit_unsigned_iff)
    then show ?thesis by (simp add: bit_iff_odd [of "unat c"])
  qed
  also have "unat c div 128 = (if unat c < 128 then 0 else 1)"
    using byte_less [of c] by (simp add: div_nat_eqI)
  finally show ?thesis by (simp add: word_less_nat_alt)
qed

text \<open>A C string literal as bytes.\<close>

definition cstr :: "string \<Rightarrow> bytes" where
  "cstr s = map of_char s"

lemma length_cstr [simp]: "length (cstr s) = length s"
  by (simp add: cstr_def)

text \<open>A list that continues with \<open>ys\<close> from a position.\<close>

lemma drop_nthD:
  assumes "drop k xs = ys @ rest" and "i < length ys"
  shows "k + i < length xs" and "xs ! (k + i) = ys ! i"
proof -
  have "i < length (drop k xs)" using assms by simp
  then show "k + i < length xs" by simp
  then show "xs ! (k + i) = ys ! i" using assms by (metis less_imp_le nth_append nth_drop add_leD1)
qed

lemma drop_bound: "drop k xs = ys @ rest \<Longrightarrow> ys \<noteq> [] \<Longrightarrow> k + length ys \<le> length xs"
  by (metis drop_nthD(1) length_drop length_append Nat.add_diff_assoc diff_add_inverse le_add1
        length_greater_0_conv less_or_eq_imp_le add_0_right le_add_diff_inverse2 nat_le_linear add_le_mono1 add.commute order_less_imp_le trans_le_add1)

end
