(* ===== verification/Ring.thy ===== *)
theory Ring
  imports Prelude
begin

text \<open>
  Circular areas: what a reader sees of an area of \<open>n\<close> bytes when offsets are taken modulo \<open>n\<close>.
  \<open>ring_read\<close> is the specification of every wrapping read of the code and \<open>ring_write\<close> of every
  wrapping write; the code performs them as one or two block copies, which the lemmas of this
  theory relate to the specification.
\<close>

named_theorems ring_simps \<open>reading back what was written into a circular area\<close>

definition ring_read :: "'a list \<Rightarrow> nat \<Rightarrow> nat \<Rightarrow> 'a list" where
  "ring_read m p k = map (\<lambda>i. m ! ((p + i) mod length m)) [0..<k]"

definition ring_write :: "'a list \<Rightarrow> nat \<Rightarrow> 'a list \<Rightarrow> 'a list" where
  "ring_write m p xs =
     (let h = min (length xs) (length m - p) in blit (blit m p (take h xs)) 0 (drop h xs))"

lemma length_ring_read [simp]: "length (ring_read m p k) = k"
  by (simp add: ring_read_def)

lemma nth_ring_read [simp]: "i < k \<Longrightarrow> ring_read m p k ! i = m ! ((p + i) mod length m)"
  by (simp add: ring_read_def)

lemma ring_read_0 [simp]: "ring_read m p 0 = []"
  by (simp add: ring_read_def)

lemma ring_read_Suc: "ring_read m p (Suc k) = m ! (p mod length m) # ring_read m (Suc p) k"
  by (rule nth_equalityI) (auto simp: nth_Cons split: nat.splits)

lemma ring_read_append: "ring_read m p (j + k) = ring_read m p j @ ring_read m (p + j) k"
  by (rule nth_equalityI) (auto simp: nth_append add.assoc)

lemma ring_read_mod [simp]: "ring_read m (p mod length m) k = ring_read m p k"
  by (rule nth_equalityI) (auto simp: mod_simps)

lemma ring_read_add_length: "ring_read m (p + length m) k = ring_read m p k"
  by (rule nth_equalityI) (auto simp: mod_simps, metis add.assoc add.commute mod_add_self1)

lemma take_ring_read [simp]: "take j (ring_read m p k) = ring_read m p (min j k)"
  by (rule nth_equalityI) auto

lemma drop_ring_read [simp]: "drop j (ring_read m p k) = ring_read m (p + j) (k - j)"
  by (rule nth_equalityI) (auto simp: add.assoc)

text \<open>A read that does not wrap is one block, a read that wraps once is two.\<close>

lemma ring_read_contig: "p + k \<le> length m \<Longrightarrow> ring_read m p k = take k (drop p m)"
  by (rule nth_equalityI) auto

lemma ring_read_split:
  assumes "p < length m" and "length m - p \<le> k" and "k \<le> length m"
  shows "ring_read m p k = drop p m @ take (k - (length m - p)) m"
proof (rule nth_equalityI)
  show "length (ring_read m p k) = length (drop p m @ take (k - (length m - p)) m)"
    using assms by simp
next
  fix i assume "i < length (ring_read m p k)"
  with assms show "ring_read m p k ! i = (drop p m @ take (k - (length m - p)) m) ! i"
    by (auto simp: nth_append mod_wrap_hi add.commute)
qed

lemma length_ring_write [simp]:
  "p \<le> length m \<Longrightarrow> length xs \<le> length m \<Longrightarrow> length (ring_write m p xs) = length m"
  by (simp add: ring_write_def Let_def)

lemma ring_write_contig: "p + length xs \<le> length m \<Longrightarrow> ring_write m p xs = blit m p xs"
  by (simp add: ring_write_def Let_def min_absorb1)

lemma ring_write_split:
  "p \<le> length m \<Longrightarrow> length m \<le> p + length xs \<Longrightarrow>
   ring_write m p xs = blit (blit m p (take (length m - p) xs)) 0 (drop (length m - p) xs)"
  by (simp add: ring_write_def Let_def min_absorb2)

lemma ring_write_Nil [simp]: "ring_write m p [] = m"
  by (simp add: ring_write_def)

text \<open>What is stored at distance \<open>j\<close> after the position of a write.\<close>

lemma nth_ring_write:
  assumes p: "p < length m" and xs: "length xs \<le> length m" and j: "j < length m"
  shows "ring_write m p xs ! ((p + j) mod length m) =
    (if j < length xs then xs ! j else m ! ((p + j) mod length m))"
proof (cases "p + length xs \<le> length m")
  case True
  show ?thesis
  proof (cases "p + j < length m")
    case True
    with \<open>p + length xs \<le> length m\<close> show ?thesis
      by (auto simp: ring_write_contig nth_blit)
  next
    case False
    with p j have "(p + j) mod length m = p + j - length m" by (simp add: mod_wrap_hi)
    with True False p j show ?thesis by (auto simp: ring_write_contig nth_blit)
  qed
next
  case False
  then have w: "ring_write m p xs =
      blit (blit m p (take (length m - p) xs)) 0 (drop (length m - p) xs)"
    using p by (simp add: ring_write_split)
  show ?thesis
  proof (cases "p + j < length m")
    case True
    with False w p xs show ?thesis by (auto simp: nth_blit)
  next
    case j': False
    with p j have "(p + j) mod length m = p + j - length m" by (simp add: mod_wrap_hi)
    with False j' w p xs j show ?thesis by (auto simp: nth_blit)
  qed
qed

text \<open>The main law: writing at distance \<open>k\<close> of the head appends to what is read from the
  head, as long as the block fits.\<close>

lemma ring_read_write [ring_simps]:
  assumes p: "p < length m" and fits: "k + length xs \<le> length m"
  shows "ring_read (ring_write m ((p + k) mod length m) xs) p (k + length xs) =
    ring_read m p k @ xs"
proof (rule nth_equalityI)
  let ?n = "length m" let ?q = "(p + k) mod length m"
  have n: "0 < ?n" and q: "?q < ?n" using p by (auto intro: mod_less_divisor)
  have len: "length (ring_write m ?q xs) = ?n" using q fits by simp
  show "length (ring_read (ring_write m ?q xs) p (k + length xs)) = length (ring_read m p k @ xs)"
    by simp
  fix i assume "i < length (ring_read (ring_write m ?q xs) p (k + length xs))"
  then have i: "i < k + length xs" by simp
  show "ring_read (ring_write m ?q xs) p (k + length xs) ! i = (ring_read m p k @ xs) ! i"
  proof (cases "i < k")
    case True
    define j where "j = ?n - k + i"
    have j: "j < ?n" and "\<not> j < length xs" using True fits by (auto simp: j_def)
    have "(?q + j) mod ?n = (p + k + j) mod ?n" by (simp add: mod_simps)
    also have "p + k + j = p + i + ?n" using fits True by (simp add: j_def)
    finally have "(?q + j) mod ?n = (p + i) mod ?n" by simp
    with nth_ring_write [OF q _ j, of xs] \<open>\<not> j < length xs\<close> fits True i len
    show ?thesis by (simp add: nth_append)
  next
    case False
    define j where "j = i - k"
    have j: "j < length xs" "j < ?n" using False i fits by (auto simp: j_def)
    have "(?q + j) mod ?n = (p + (k + j)) mod ?n" by (simp add: mod_simps add.assoc)
    then have "(?q + j) mod ?n = (p + i) mod ?n" using False by (simp add: j_def)
    with nth_ring_write [OF q _ j(2), of xs] j False i len fits
    show ?thesis by (simp add: nth_append j_def)
  qed
qed

lemma ring_read_write_same [ring_simps]:
  assumes "p < length m" and "length xs \<le> length m"
  shows "ring_read (ring_write m p xs) p (length xs) = xs"
  using ring_read_write [of p m 0 xs] assms by simp

text \<open>Bytes out of the written range keep their value.\<close>

lemma ring_read_write_frame:
  assumes p: "p < length m" and "d < length m" and "d + k \<le> length m"
    and "length xs \<le> d" and w: "w = (p + d) mod length m"
  shows "ring_read (ring_write m p xs) w k = ring_read m w k"
proof (rule nth_equalityI)
  let ?n = "length m"
  show "length (ring_read (ring_write m p xs) w k) = length (ring_read m w k)" by simp
  fix i assume "i < length (ring_read (ring_write m p xs) w k)"
  then have i: "i < k" by simp
  have "(w + i) mod ?n = (p + (d + i)) mod ?n" by (simp add: w mod_simps add.assoc)
  moreover have "d + i < ?n" "\<not> d + i < length xs" using i assms by auto
  ultimately show "ring_read (ring_write m p xs) w k ! i = ring_read m w k ! i"
    using nth_ring_write [OF p, of xs "d + i"] assms i by (simp add: add.assoc)
qed

lemma list_update_ring_write:
  "p < length m \<Longrightarrow> m[p := c] = ring_write m p [c]"
  by (simp add: ring_write_contig blit_single)

section \<open>Two block copies\<close>

text \<open>The shape of the code's wrapping copies: a first block up to the end of the area, then the
  rest from its beginning.\<close>

lemma two_copies_write:
  assumes p: "p < length m" and "len \<le> length m" and "len \<le> length blk"
    and half: "half = min len (length m - p)"
  shows "do {
        src \<leftarrow> rd blk 0 half;
        ar \<leftarrow> wr m p src;
        if half < len then do { src \<leftarrow> rd blk half (len - half); wr ar 0 src } else Some ar
      } = Some (ring_write m p (take len blk))"
proof (cases "p + len \<le> length m")
  case True
  with assms show ?thesis
    by (simp add: min_absorb1 min_absorb2 mem_simps ring_write_contig)
next
  case False
  then have "half = length m - p" using half p by auto
  with False assms show ?thesis
    by (simp add: min_absorb1 min_absorb2 mem_simps ring_write_split drop_take)
qed

lemma two_copies_read:
  assumes p: "p < length m" and "len \<le> length m" and half: "half = min len (length m - p)"
  shows "do {
        x \<leftarrow> rd m p half;
        y \<leftarrow> (if half < len then rd m 0 (len - half) else Some []);
        Some (x @ y)
      } = Some (ring_read m p len)"
proof (cases "p + len \<le> length m")
  case True
  with assms show ?thesis by (simp add: min_absorb1 mem_simps ring_read_contig)
next
  case False
  then have "half = length m - p" using half p by auto
  with False assms show ?thesis
    by (simp add: mem_simps ring_read_split)
qed

section \<open>Wrapped positions\<close>

text \<open>Two lists of the same length are equal when they agree at all wrapped positions.\<close>

lemma ring_eqI:
  assumes "length m = length m'" and p: "p < length m"
    and eq: "\<And>j. j < length m \<Longrightarrow> m ! ((p + j) mod length m) = m' ! ((p + j) mod length m)"
  shows "m = m'"
proof (rule nth_equalityI)
  show "length m = length m'" by fact
  fix i assume i: "i < length m"
  define j where "j = (if p \<le> i then i - p else i + length m - p)"
  have "j < length m" using i p by (auto simp: j_def)
  moreover have "(p + j) mod length m = i" using i p by (auto simp: j_def)
  ultimately show "m ! i = m' ! i" using eq [of j] by simp
qed

text \<open>The distance of a position from another origin, \<open>k\<close> further.\<close>

definition ring_back :: "nat \<Rightarrow> nat \<Rightarrow> nat \<Rightarrow> nat" where
  "ring_back n k j = (if k \<le> j then j - k else j + n - k)"

lemma ring_back:
  assumes "j < n" and "k \<le> n" and q: "q = (p + k) mod n"
  shows "ring_back n k j < n" and "(q + ring_back n k j) mod n = (p + j) mod n"
proof -
  show "ring_back n k j < n" using assms by (auto simp: ring_back_def)
  have "(q + ring_back n k j) mod n = (p + (k + ring_back n k j)) mod n"
    by (simp add: q mod_simps add.assoc)
  also have "\<dots> = (p + j) mod n"
    using assms by (simp add: ring_back_def flip: add.assoc)
  finally show "(q + ring_back n k j) mod n = (p + j) mod n" .
qed

lemma ring_write_append:
  assumes p: "p < length m" and len: "length xs + length ys \<le> length m"
  shows "ring_write (ring_write m p xs) ((p + length xs) mod length m) ys =
    ring_write m p (xs @ ys)"
proof -
  let ?n = "length m" let ?m1 = "ring_write m p xs"
  let ?q = "(p + length xs) mod length m"
  have n: "0 < ?n" using p by linarith
  have q: "?q < ?n" using n by simp
  have l1: "length ?m1 = ?n" using p len by simp
  show ?thesis
  proof (rule ring_eqI [of _ _ p])
    show "length (ring_write ?m1 ?q ys) = length (ring_write m p (xs @ ys))"
      using l1 q p len by simp
    show "p < length (ring_write ?m1 ?q ys)" using l1 q p len by simp
    fix j assume "j < length (ring_write ?m1 ?q ys)"
    then have j: "j < ?n" using l1 q len by simp
    define i where "i = ring_back ?n (length xs) j"
    have i: "i < ?n" and pj: "(?q + i) mod ?n = (p + j) mod ?n"
      using ring_back [OF j, of "length xs" ?q p] len by (simp_all add: i_def)
    have "ring_write ?m1 ?q ys ! ((p + j) mod ?n) =
        (if i < length ys then ys ! i else ?m1 ! ((p + j) mod ?n))"
      using nth_ring_write [of ?q ?m1 ys i] l1 q i pj len by simp
    also have "?m1 ! ((p + j) mod ?n) =
        (if j < length xs then xs ! j else m ! ((p + j) mod ?n))"
      using nth_ring_write [OF p _ j, of xs] len by simp
    also have "(if i < length ys then ys ! i
        else if j < length xs then xs ! j else m ! ((p + j) mod ?n)) =
        ring_write m p (xs @ ys) ! ((p + j) mod ?n)"
      using nth_ring_write [OF p _ j, of "xs @ ys"] len j
      by (auto simp: i_def ring_back_def nth_append)
    finally show "ring_write ?m1 ?q ys ! ((p + j) mod length (ring_write ?m1 ?q ys)) =
        ring_write m p (xs @ ys) ! ((p + j) mod length (ring_write ?m1 ?q ys))"
      using l1 q len by simp
  qed
qed

lemma ring_write_commute:
  assumes p: "p < length m" and len: "length xs + length ys \<le> length m"
    and q: "q = (p + length xs) mod length m"
  shows "ring_write (ring_write m q ys) p xs = ring_write (ring_write m p xs) q ys"
proof -
  let ?n = "length m"
  have n: "0 < ?n" using p by linarith
  have q': "q < ?n" using n q by simp
  have lq: "length (ring_write m q ys) = ?n" and lp: "length (ring_write m p xs) = ?n"
    using p q' len by simp_all
  show ?thesis
  proof (rule ring_eqI [of _ _ p])
    show "length (ring_write (ring_write m q ys) p xs) = length (ring_write (ring_write m p xs) q ys)"
      using lq lp p q' len by simp
    show "p < length (ring_write (ring_write m q ys) p xs)" using lq p len by simp
    fix j assume "j < length (ring_write (ring_write m q ys) p xs)"
    then have j: "j < ?n" using lq p len by simp
    define i where "i = ring_back ?n (length xs) j"
    have i: "i < ?n" and pj: "(q + i) mod ?n = (p + j) mod ?n"
      using ring_back [OF j _ q] len by (simp_all add: i_def)
    have "ring_write (ring_write m q ys) p xs ! ((p + j) mod ?n) =
        (if j < length xs then xs ! j else ring_write m q ys ! ((p + j) mod ?n))"
      using nth_ring_write [of p "ring_write m q ys" xs j] lq p j len by simp
    moreover have "ring_write m q ys ! ((p + j) mod ?n) =
        (if i < length ys then ys ! i else m ! ((p + j) mod ?n))"
      using nth_ring_write [OF q' _ i, of ys] pj len by simp
    moreover have "ring_write (ring_write m p xs) q ys ! ((p + j) mod ?n) =
        (if i < length ys then ys ! i else ring_write m p xs ! ((p + j) mod ?n))"
      using nth_ring_write [of q "ring_write m p xs" ys i] lp q' i pj len by simp
    moreover have "ring_write m p xs ! ((p + j) mod ?n) =
        (if j < length xs then xs ! j else m ! ((p + j) mod ?n))"
      using nth_ring_write [OF p _ j, of xs] len by simp
    moreover have "\<not> (i < length ys \<and> j < length xs)" using len j by (auto simp: i_def ring_back_def)
    ultimately show "ring_write (ring_write m q ys) p xs !
          ((p + j) mod length (ring_write (ring_write m q ys) p xs)) =
        ring_write (ring_write m p xs) q ys !
          ((p + j) mod length (ring_write (ring_write m q ys) p xs))"
      using lq p len by auto
  qed
qed

text \<open>Copying a wrapping block out to a linear area.\<close>

lemma two_copies_out:
  assumes "p < length m \<or> len = 0 \<and> p \<le> length m" and "len \<le> length m"
    and b1: "b1 = min len (length m - p)" and b2: "b2 = len - b1"
    and q2: "b2 \<noteq> 0 \<Longrightarrow> q2 = q + b1" and "q2 \<le> length s" and "q + len \<le> length s"
  shows "rd m p b1 \<bind> (\<lambda>x. wr s q x \<bind> (\<lambda>s. rd m 0 b2 \<bind> (\<lambda>y. wr s q2 y \<bind> k))) =
    k (blit s q (ring_read m p len))"
proof (cases "b2 = 0")
  case True
  then have "b1 = len" using b1 b2 by simp
  moreover have "p + len \<le> length m" using assms True by auto
  ultimately show ?thesis
    using True assms by (simp add: mem_simps ring_read_contig)
next
  case False
  then have w: "p < length m" "b1 = length m - p" "b1 < len" using assms by auto
  have lx: "length (drop p m) = b1" using w by simp
  have "blit (blit s q (drop p m)) (q + b1) (take b2 m) = blit s q (drop p m @ take b2 m)"
    using blit_adjacent [of q "drop p m" "take b2 m" s] lx assms(2,7) b2 w
    by (simp add: min_absorb2)
  with False w assms show ?thesis
    by (simp add: mem_simps ring_read_split min_absorb2)
qed

lemma ring_write_Cons:
  assumes "p < length m" and "Suc (length xs) \<le> length m"
  shows "ring_write (m[p := c]) ((p + 1) mod length m) xs = ring_write m p (c # xs)"
  using ring_write_append [of p m "[c]" xs] assms by (simp add: list_update_ring_write)

end
