(* ===== verification/Interfaces.thy ===== *)
theory Interfaces
  imports Prelude
begin

text \<open>
  The contracts that several components promise, as locales. \<open>byte_queue\<close> is what the rest of the
  program relies on in a buffer: bytes go in at one end and come out at the other in order.
  \<open>prefix_codec\<close> is what it relies on in the variable-length encodings: a decoder that is given the
  encoding of a value followed by anything returns the value and stops right after it.
  The components interpret these locales on their own operations and get the lemmas below.
\<close>

section \<open>Queues of bytes\<close>

text \<open>A client of a queue: a sequence of writes of a block and reads of some amount. A run returns
  the bytes that were accepted, the bytes that were read and the final queue.\<close>

datatype 'a queue_op = Put "'a list" | Get nat

fun queue_run :: "('q \<Rightarrow> 'a list \<Rightarrow> (nat \<times> 'q) option) \<Rightarrow> ('q \<Rightarrow> nat \<Rightarrow> ('a list \<times> 'q) option) \<Rightarrow>
    ('q \<Rightarrow> nat) \<Rightarrow> 'a queue_op list \<Rightarrow> 'q \<Rightarrow> ('a list \<times> 'a list \<times> 'q) option" where
  "queue_run put get len [] q = Some ([], [], q)"
| "queue_run put get len (Put xs # ops) q = do {
     (k, q) \<leftarrow> put q xs;
     (acc, out, q) \<leftarrow> queue_run put get len ops q;
     Some (take k xs @ acc, out, q)
   }"
| "queue_run put get len (Get n # ops) q = do {
     (ys, q) \<leftarrow> get q (min n (len q));
     (acc, out, q) \<leftarrow> queue_run put get len ops q;
     Some (acc, ys @ out, q)
   }"

locale byte_queue =
  fixes inv :: "'q \<Rightarrow> bool" and content :: "'q \<Rightarrow> 'a list" and capacity :: "'q \<Rightarrow> nat"
    and put :: "'q \<Rightarrow> 'a list \<Rightarrow> (nat \<times> 'q) option"
    and get :: "'q \<Rightarrow> nat \<Rightarrow> ('a list \<times> 'q) option"
    and len :: "'q \<Rightarrow> nat"
  assumes len_content: "inv q \<Longrightarrow> len q = length (content q)"
    and bounded: "inv q \<Longrightarrow> length (content q) \<le> capacity q"
    and put_law: "inv q \<Longrightarrow> \<exists>q'. put q xs = Some (min (length xs) (capacity q - length (content q)), q')
        \<and> inv q' \<and> content q' = content q @ take (capacity q - length (content q)) xs
        \<and> capacity q' = capacity q"
    and get_law: "inv q \<Longrightarrow> n \<le> length (content q) \<Longrightarrow> \<exists>q'. get q n = Some (take n (content q), q')
        \<and> inv q' \<and> content q' = drop n (content q) \<and> capacity q' = capacity q"
begin

text \<open>No byte is lost, duplicated or reordered: what was in the queue followed by what was accepted
  is what was read followed by what is left.\<close>

lemma run_fifo:
  assumes "inv q"
  shows "\<exists>acc out q'. queue_run put get len ops q = Some (acc, out, q') \<and> inv q' \<and>
    content q @ acc = out @ content q' \<and> capacity q' = capacity q"
  using assms
proof (induction ops arbitrary: q)
  case Nil
  then show ?case by simp
next
  case (Cons opn ops)
  show ?case
  proof (cases opn)
    case (Put xs)
    obtain q1 where q1: "put q xs = Some (min (length xs) (capacity q - length (content q)), q1)"
      "inv q1" "content q1 = content q @ take (capacity q - length (content q)) xs"
      "capacity q1 = capacity q"
      using put_law [OF Cons.prems] by blast
    obtain acc out q' where "queue_run put get len ops q1 = Some (acc, out, q')" "inv q'"
      "content q1 @ acc = out @ content q'" "capacity q' = capacity q1"
      using Cons.IH [OF q1(2)] by blast
    moreover have "take (min (length xs) k) xs = take k xs" for k by (simp add: min_def)
    ultimately show ?thesis using q1 Put by simp
  next
    case (Get n)
    let ?n = "min n (len q)"
    have le: "?n \<le> length (content q)" using len_content [OF Cons.prems] by simp
    obtain q1 where q1: "get q ?n = Some (take ?n (content q), q1)" "inv q1"
      "content q1 = drop ?n (content q)" "capacity q1 = capacity q"
      using get_law [OF Cons.prems le] by blast
    obtain acc out q' where q': "queue_run put get len ops q1 = Some (acc, out, q')" "inv q'"
      "content q1 @ acc = out @ content q'" "capacity q' = capacity q1"
      using Cons.IH [OF q1(2)] by blast
    have "content q @ acc = (take ?n (content q) @ out) @ content q'"
      using q'(3) q1(3) by (metis append.assoc append_take_drop_id)
    with q1 q' Get show ?thesis by simp
  qed
qed

text \<open>The occupancy never exceeds the capacity, whatever the client does.\<close>

lemma run_bounded:
  assumes "inv q" and "queue_run put get len ops q = Some (acc, out, q')"
  shows "length (content q) + length acc \<le> capacity q + length out"
proof -
  have "inv q'" and eq: "content q @ acc = out @ content q'" and "capacity q' = capacity q"
    using run_fifo [OF assms(1), of ops] assms(2) by auto
  then have "length (content q') \<le> capacity q" using bounded by metis
  then show ?thesis using arg_cong [OF eq, of length] by simp
qed

end

section \<open>Self-delimiting encodings\<close>

text \<open>Decoding a sequence of values from a stream of bytes.\<close>

fun decode_many :: "('b list \<Rightarrow> ('v \<times> 'b list) option) \<Rightarrow> nat \<Rightarrow> 'b list \<Rightarrow> ('v list \<times> 'b list) option" where
  "decode_many dec 0 bs = Some ([], bs)"
| "decode_many dec (Suc n) bs = do {
     (v, bs) \<leftarrow> dec bs;
     (vs, bs) \<leftarrow> decode_many dec n bs;
     Some (v # vs, bs)
   }"

locale prefix_codec =
  fixes valid :: "'v \<Rightarrow> bool" and enc :: "'v \<Rightarrow> 'b list"
    and dec :: "'b list \<Rightarrow> ('v \<times> 'b list) option"
  assumes dec_enc: "valid v \<Longrightarrow> dec (enc v @ rest) = Some (v, rest)"
begin

text \<open>The encodings form a prefix code, so a stream has at most one reading.\<close>

lemma enc_unique:
  assumes "valid v" and "valid w" and "enc v @ r = enc w @ s"
  shows "v = w \<and> r = s"
proof -
  have "Some (v, r) = dec (enc v @ r)" by (rule dec_enc [OF assms(1), symmetric])
  also have "\<dots> = dec (enc w @ s)" by (rule arg_cong [OF assms(3)])
  also have "\<dots> = Some (w, s)" by (rule dec_enc [OF assms(2)])
  finally show ?thesis by simp
qed

lemma enc_inj: "inj_on enc (Collect valid)"
proof (rule inj_onI)
  fix v w assume "v \<in> Collect valid" and "w \<in> Collect valid" and "enc v = enc w"
  then show "v = w" using enc_unique [of v w "[]" "[]"] by simp
qed

lemma decode_many_enc:
  "\<forall>v \<in> set vs. valid v \<Longrightarrow>
   decode_many dec (length vs) (concat (map enc vs) @ rest) = Some (vs, rest)"
  by (induction vs) (simp_all add: dec_enc)

end

end
