(* ===== verification/Buf.thy ===== *)
theory Buf
  imports Ring Interfaces
begin

text \<open>
  Circular buffers: \<^verbatim>\<open>include/haproxy/buf-t.h\<close> and the inline operations of
  \<^verbatim>\<open>include/haproxy/buf.h\<close>. A buffer is a storage area of \<open>buf_size\<close> bytes, the amount
  \<open>buf_data\<close> of bytes present and the offset \<open>buf_head\<close> of the oldest one; data wrap from the end
  of the area to its beginning. Pointers into the area are offsets from \<^verbatim>\<open>b_orig\<close>.

  A function whose C name starts with two underscores has the prefix \<open>raw_\<close> here.
  \<^verbatim>\<open>BUG_ON_HOT\<close> checks are compiled out unless \<^verbatim>\<open>DEBUG_STRICT\<close> is 2 or more (its default is 1),
  so they are not part of the model; the theorems have them among their hypotheses, through the
  invariant \<open>b_wf\<close>. \<^verbatim>\<open>BUG_ON\<close> checks are part of the model and make it return \<open>None\<close>.
\<close>

section \<open>The structure and its states\<close>

record buffer =
  buf_size :: nat
  buf_area :: bytes
  buf_data :: nat
  buf_head :: nat

definition BUF_NULL :: buffer where
  "BUF_NULL = \<lparr>buf_size = 0, buf_area = [], buf_data = 0, buf_head = 0\<rparr>"

section \<open>Offsets and pointers\<close>

definition b_is_null :: "buffer \<Rightarrow> bool" where
  "b_is_null b = (buf_size b = 0)"

definition b_orig :: "buffer \<Rightarrow> nat" where
  "b_orig b = 0"

definition b_size :: "buffer \<Rightarrow> nat" where
  "b_size b = buf_size b"

definition b_wrap :: "buffer \<Rightarrow> nat" where
  "b_wrap b = b_orig b + buf_size b"

definition b_data :: "buffer \<Rightarrow> nat" where
  "b_data b = buf_data b"

definition b_room :: "buffer \<Rightarrow> nat" where
  "b_room b = sz_sub (buf_size b) (b_data b)"

definition b_full :: "buffer \<Rightarrow> bool" where
  "b_full b = (b_room b = 0)"

definition b_add_ofs :: "buffer \<Rightarrow> nat \<Rightarrow> nat \<Rightarrow> nat" where
  "b_add_ofs b ofs count =
     (let ofs = sz_add ofs count in if ofs \<ge> buf_size b then sz_sub ofs (buf_size b) else ofs)"

definition b_rel_ofs :: "buffer \<Rightarrow> nat \<Rightarrow> nat" where
  "b_rel_ofs b ofs =
     (let ofs = (if ofs < buf_head b then sz_add ofs (buf_size b) else ofs)
      in sz_sub ofs (buf_head b))"

definition raw_b_stop_ofs :: "buffer \<Rightarrow> nat" where
  "raw_b_stop_ofs b = sz_add (buf_head b) (buf_data b)"

definition raw_b_stop :: "buffer \<Rightarrow> nat" where
  "raw_b_stop b = b_orig b + raw_b_stop_ofs b"

definition b_stop_ofs :: "buffer \<Rightarrow> nat" where
  "b_stop_ofs b =
     (let stop = raw_b_stop_ofs b in if stop > buf_size b then sz_sub stop (buf_size b) else stop)"

definition b_stop :: "buffer \<Rightarrow> nat" where
  "b_stop b = b_orig b + b_stop_ofs b"

definition raw_b_peek_ofs :: "buffer \<Rightarrow> nat \<Rightarrow> nat" where
  "raw_b_peek_ofs b ofs = sz_add (buf_head b) ofs"

definition raw_b_peek :: "buffer \<Rightarrow> nat \<Rightarrow> nat" where
  "raw_b_peek b ofs = b_orig b + raw_b_peek_ofs b ofs"

text \<open>The compiler may skip the wrapping test for a constant zero offset
  (\<^verbatim>\<open>__builtin_constant_p\<close>); the test is always made here, with the same result on a
  well-formed buffer, whose head is below its size.\<close>

definition b_peek_ofs :: "buffer \<Rightarrow> nat \<Rightarrow> nat" where
  "b_peek_ofs b ofs =
     (let ret = raw_b_peek_ofs b ofs
      in if ret \<ge> buf_size b then sz_sub ret (buf_size b) else ret)"

definition b_peek :: "buffer \<Rightarrow> nat \<Rightarrow> nat" where
  "b_peek b ofs = b_orig b + b_peek_ofs b ofs"

definition raw_b_head_ofs :: "buffer \<Rightarrow> nat" where
  "raw_b_head_ofs b = buf_head b"

definition raw_b_head :: "buffer \<Rightarrow> nat" where
  "raw_b_head b = b_orig b + raw_b_head_ofs b"

definition b_head_ofs :: "buffer \<Rightarrow> nat" where
  "b_head_ofs b = raw_b_head_ofs b"

definition b_head :: "buffer \<Rightarrow> nat" where
  "b_head b = raw_b_head b"

definition raw_b_tail_ofs :: "buffer \<Rightarrow> nat" where
  "raw_b_tail_ofs b = raw_b_peek_ofs b (b_data b)"

definition raw_b_tail :: "buffer \<Rightarrow> nat" where
  "raw_b_tail b = raw_b_peek b (b_data b)"

definition b_tail_ofs :: "buffer \<Rightarrow> nat" where
  "b_tail_ofs b = b_peek_ofs b (b_data b)"

definition b_tail :: "buffer \<Rightarrow> nat" where
  "b_tail b = b_peek b (b_data b)"

definition b_next_ofs :: "buffer \<Rightarrow> nat \<Rightarrow> nat" where
  "b_next_ofs b ofs = (let ofs = sz_add ofs 1 in if ofs = buf_size b then 0 else ofs)"

definition b_next :: "buffer \<Rightarrow> nat \<Rightarrow> nat" where
  "b_next b p = (let p = p + 1 in if p = b_wrap b then b_orig b else p)"

definition b_dist :: "buffer \<Rightarrow> nat \<Rightarrow> nat \<Rightarrow> nat" where
  "b_dist b from to =
     (let dist = int to - int from
      in usz (dist + (if dist < 0 then int (b_size b) else 0)))"

definition b_almost_full :: "buffer \<Rightarrow> bool" where
  "b_almost_full b = (b_data b \<ge> b_size b * 3 mod 18446744073709551616 div 4)"

definition b_space_wraps :: "buffer \<Rightarrow> bool" where
  "b_space_wraps b =
     (if ssz (raw_b_head_ofs b) \<le> 0 then False
      else if raw_b_tail_ofs b \<ge> b_size b then False
      else True)"

definition b_contig_data :: "buffer \<Rightarrow> nat \<Rightarrow> nat" where
  "b_contig_data b start =
     (let dat = sz_sub (b_wrap b) (b_peek b start);
          limit = sz_sub (b_data b) start
      in if dat > limit then limit else dat)"

definition b_contig_space :: "buffer \<Rightarrow> nat" where
  "b_contig_space b =
     (let right = b_head_ofs b;
          left = sz_add right (b_data b);
          left = sz_sub (b_size b) left
      in if ssz left \<le> 0 then sz_add left right else left)"

section \<open>Operations that change the state\<close>

definition b_reset :: "buffer \<Rightarrow> buffer" where
  "b_reset b = b\<lparr>buf_head := 0, buf_data := 0\<rparr>"

definition b_make :: "bytes \<Rightarrow> nat \<Rightarrow> nat \<Rightarrow> nat \<Rightarrow> buffer" where
  "b_make ar siz hea dat = \<lparr>buf_size = siz, buf_area = ar, buf_data = dat, buf_head = hea\<rparr>"

definition b_sub :: "buffer \<Rightarrow> nat \<Rightarrow> buffer" where
  "b_sub b count = b\<lparr>buf_data := sz_sub (buf_data b) count\<rparr>"

definition b_add :: "buffer \<Rightarrow> nat \<Rightarrow> buffer" where
  "b_add b count = b\<lparr>buf_data := sz_add (buf_data b) count\<rparr>"

definition b_set_data :: "buffer \<Rightarrow> nat \<Rightarrow> buffer" where
  "b_set_data b len = b\<lparr>buf_data := len\<rparr>"

definition b_del :: "buffer \<Rightarrow> nat \<Rightarrow> buffer" where
  "b_del b del =
     (let hea = sz_add (buf_head b) del;
          hea = (if hea \<ge> buf_size b then sz_sub hea (buf_size b) else hea)
      in b\<lparr>buf_data := sz_sub (buf_data b) del, buf_head := hea\<rparr>)"

definition b_realign_if_empty :: "buffer \<Rightarrow> buffer" where
  "b_realign_if_empty b = (if b_data b = 0 then b\<lparr>buf_head := 0\<rparr> else b)"

definition b_putchr :: "buffer \<Rightarrow> byte \<Rightarrow> buffer option" where
  "b_putchr b c =
     (if b_full b then Some b
      else do {
        ar \<leftarrow> st (buf_area b) (b_tail b) c;
        Some (b\<lparr>buf_area := ar, buf_data := sz_add (buf_data b) 1\<rparr>)
      })"

text \<open>\<^verbatim>\<open>__b_putblk\<close> and \<^verbatim>\<open>b_putblk\<close>: the block is the list of the \<^verbatim>\<open>len\<close> bytes at
  \<^verbatim>\<open>blk\<close>.\<close>

definition raw_b_putblk :: "buffer \<Rightarrow> bytes \<Rightarrow> nat \<Rightarrow> buffer option" where
  "raw_b_putblk b blk len =
     (let half = b_contig_space b in
      if sz_add (b_data b) len > b_size b then None
      else do {
        let half = (if half > len then len else half);
        src \<leftarrow> rd blk 0 half;
        ar \<leftarrow> wr (buf_area b) (b_tail b) src;
        ar \<leftarrow> (if len > half then do {
                 src \<leftarrow> rd blk half (sz_sub len half);
                 wr ar (b_peek b (sz_add (b_data b) half)) src
               } else Some ar);
        Some (b\<lparr>buf_area := ar, buf_data := sz_add (buf_data b) len\<rparr>)
      })"

definition b_putblk :: "buffer \<Rightarrow> bytes \<Rightarrow> nat \<Rightarrow> (nat \<times> buffer) option" where
  "b_putblk b blk len =
     (let len = (if len > b_room b then b_room b else len) in
      do {
        b \<leftarrow> (if len \<noteq> 0 then raw_b_putblk b blk len else Some b);
        Some (len, b)
      })"

text \<open>\<^verbatim>\<open>b_getblk_nc\<close> returns the number of blocks and, for each, its position and length.\<close>

definition b_getblk_nc :: "buffer \<Rightarrow> nat \<Rightarrow> nat \<Rightarrow> (nat \<times> nat) list" where
  "b_getblk_nc b ofs mx =
     (if mx = 0 then []
      else let blk1 = b_peek b ofs; l1 = sz_sub (b_wrap b) blk1 in
        if l1 < mx then [(blk1, l1), (b_orig b, sz_sub mx l1)] else [(blk1, mx)])"

section \<open>The invariant and the contents\<close>

text \<open>Storage sizes stay below \<open>2 ^ 62\<close>, so that the sums of offsets the code computes do not
  overflow. A buffer of size zero is one that is not allocated.\<close>

definition b_wf :: "buffer \<Rightarrow> bool" where
  "b_wf b \<longleftrightarrow> length (buf_area b) = buf_size b \<and> buf_data b \<le> buf_size b \<and>
     (buf_head b < buf_size b \<or> buf_size b = 0 \<and> buf_head b = 0) \<and>
     buf_size b < 4611686018427387904"

text \<open>The bytes present in a buffer, oldest first.\<close>

definition b_list :: "buffer \<Rightarrow> bytes" where
  "b_list b = ring_read (buf_area b) (buf_head b) (buf_data b)"

lemmas b_ofs_defs = b_orig_def b_size_def b_wrap_def b_data_def raw_b_peek_ofs_def raw_b_peek_def
  b_peek_def raw_b_head_ofs_def raw_b_head_def b_head_ofs_def b_head_def
  raw_b_tail_ofs_def raw_b_tail_def b_tail_ofs_def b_tail_def

named_theorems b_simps \<open>the value of buffer queries on well-formed buffers\<close>

lemma b_wfD:
  assumes "b_wf b"
  shows "length (buf_area b) = buf_size b" and "buf_data b \<le> buf_size b"
    and "buf_size b < 4611686018427387904" and "buf_head b \<le> buf_size b"
    and "0 < buf_size b \<Longrightarrow> buf_head b < buf_size b"
  using assms by (auto simp: b_wf_def)

lemma length_b_list [simp]: "length (b_list b) = buf_data b"
  by (simp add: b_list_def)

lemma b_room_eq [b_simps]: "b_wf b \<Longrightarrow> b_room b = buf_size b - buf_data b"
  by (auto simp: b_room_def b_data_def b_wf_def sz_simps)

lemma b_peek_ofs_eq [b_simps]:
  assumes "b_wf b" and "0 < buf_size b" and "ofs \<le> buf_size b"
  shows "b_peek_ofs b ofs = (buf_head b + ofs) mod buf_size b"
proof -
  have "buf_head b + ofs < 18446744073709551616" and "buf_head b + ofs < 2 * buf_size b"
    using assms b_wfD [OF assms(1)] by auto
  then show ?thesis
    by (simp add: b_peek_ofs_def raw_b_peek_ofs_def Let_def sz_simps mod_wrap_once)
qed

lemma b_peek_eq [b_simps]:
  "b_wf b \<Longrightarrow> 0 < buf_size b \<Longrightarrow> ofs \<le> buf_size b \<Longrightarrow>
   b_peek b ofs = (buf_head b + ofs) mod buf_size b"
  by (simp add: b_peek_def b_orig_def b_peek_ofs_eq)

lemma b_tail_eq [b_simps]:
  "b_wf b \<Longrightarrow> 0 < buf_size b \<Longrightarrow> b_tail b = (buf_head b + buf_data b) mod buf_size b"
  by (simp add: b_tail_def b_data_def b_peek_eq b_wfD)

lemma b_tail_ofs_eq [b_simps]:
  "b_wf b \<Longrightarrow> 0 < buf_size b \<Longrightarrow> b_tail_ofs b = (buf_head b + buf_data b) mod buf_size b"
  by (simp add: b_tail_ofs_def b_data_def b_peek_ofs_eq b_wfD)

lemma raw_b_tail_ofs_eq [b_simps]: "b_wf b \<Longrightarrow> raw_b_tail_ofs b = buf_head b + buf_data b"
  by (frule b_wfD(2), frule b_wfD(3), frule b_wfD(4))
     (simp add: raw_b_tail_ofs_def raw_b_peek_ofs_def b_data_def sz_simps)

lemma b_next_eq [b_simps]:
  "b_wf b \<Longrightarrow> p < buf_size b \<Longrightarrow> b_next b p = (p + 1) mod buf_size b"
  by (auto simp: b_next_def b_wrap_def b_orig_def Let_def)

text \<open>The free space that can be filled at once: up to the end of the area when the data do not
  wrap, up to the head when they do, and from the beginning of the area to the head when the data
  end exactly at the end of the area.\<close>

lemma b_contig_space_eq [b_simps]:
  assumes "b_wf b"
  shows "b_contig_space b =
    (if buf_head b + buf_data b < buf_size b then buf_size b - (buf_head b + buf_data b)
     else buf_size b - buf_data b)"
proof -
  note wf = b_wfD [OF assms]
  have sum: "sz_add (buf_head b) (buf_data b) = buf_head b + buf_data b"
    using wf by (simp add: sz_simps)
  show ?thesis
  proof (cases "buf_head b + buf_data b \<le> buf_size b")
    case True
    with wf sum show ?thesis
      by (auto simp: b_contig_space_def b_ofs_defs Let_def sz_simps)
  next
    case False
    define left where "left = buf_size b + 18446744073709551616 - (buf_head b + buf_data b)"
    have left: "sz_sub (buf_size b) (buf_head b + buf_data b) = left"
      unfolding left_def by (rule sz_sub_wrap) (use False wf in linarith)+
    have "ssz left \<le> 0"
      using False wf by (subst ssz_large) (auto simp: left_def)
    moreover have "sz_add left (buf_head b) = buf_size b - buf_data b"
    proof -
      have "left + buf_head b = (buf_size b - buf_data b) + 18446744073709551616"
        using False wf by (simp add: left_def)
      then have "sz_add left (buf_head b) = (buf_size b - buf_data b) mod 18446744073709551616"
        by (simp only: sz_add_def mod_add_self2)
      then show ?thesis using wf by simp
    qed
    ultimately show ?thesis
      using False sum left by (simp add: b_contig_space_def b_ofs_defs Let_def)
  qed
qed

lemma b_contig_data_eq [b_simps]:
  assumes wf: "b_wf b" and "0 < buf_size b" and "start \<le> buf_data b"
  shows "b_contig_data b start =
    min (buf_size b - (buf_head b + start) mod buf_size b) (buf_data b - start)"
proof -
  note d = b_wfD [OF wf]
  have le: "(buf_head b + start) mod buf_size b \<le> buf_size b"
    using assms by (simp add: less_imp_le)
  show ?thesis
    using assms d le unfolding b_contig_data_def Let_def b_data_def b_wrap_def b_orig_def
    by (simp add: b_peek_eq sz_simps)
qed

section \<open>The operations as a queue of bytes\<close>

text \<open>\<^verbatim>\<open>__b_putblk\<close> writes the block at the tail, in one or two copies.\<close>

lemma raw_b_putblk_eq:
  assumes wf: "b_wf b" and len: "0 < len" "len \<le> length blk"
    and fits: "buf_data b + len \<le> buf_size b"
  shows "raw_b_putblk b blk len =
    Some (b\<lparr>buf_area := ring_write (buf_area b) ((buf_head b + buf_data b) mod buf_size b)
                         (take len blk),
            buf_data := buf_data b + len\<rparr>)"
proof -
  note d = b_wfD [OF wf]
  let ?n = "buf_size b" let ?t = "(buf_head b + buf_data b) mod buf_size b"
  have n: "0 < ?n" and h: "buf_head b < ?n" using len fits d by auto
  have t: "?t < ?n" using n by simp
  have sz: "sz_add (buf_data b) len = buf_data b + len" using fits d by (simp add: sz_simps)
  have t_eq: "?t = (if buf_head b + buf_data b < ?n then buf_head b + buf_data b
                    else buf_head b + buf_data b - ?n)"
    using h d by (intro mod_wrap_once) linarith
  define half where "half = (if b_contig_space b > len then len else b_contig_space b)"
  have half: "half = min len (?n - ?t)"
  proof (cases "buf_head b + buf_data b < ?n")
    case True
    with t_eq wf show ?thesis by (auto simp: half_def b_contig_space_eq)
  next
    case False
    with t_eq wf fits h show ?thesis by (auto simp: half_def b_contig_space_eq)
  qed
  have lens: "length (buf_area b) = ?n" "len \<le> ?n" using d fits by auto
  have half_le: "half \<le> len" using half by simp
  have second: "b_peek b (sz_add (b_data b) half) = 0 \<and> sz_sub len half = len - half"
    if "half < len"
  proof -
    from that half have hf: "?t + half = ?n" using t by (simp only: min_def split: if_splits) arith
    have "b_peek b (sz_add (b_data b) half) = (buf_head b + (buf_data b + half)) mod ?n"
      using wf n fits that d by (simp add: b_data_def sz_simps b_peek_eq)
    also have "\<dots> = (?t + half) mod ?n" by (simp add: mod_simps add.assoc)
    finally show ?thesis using hf that fits d by (simp add: sz_simps)
  qed
  have "raw_b_putblk b blk len = do {
        src \<leftarrow> rd blk 0 half;
        ar \<leftarrow> wr (buf_area b) ?t src;
        ar \<leftarrow> (if half < len then do { src \<leftarrow> rd blk half (len - half); wr ar 0 src }
              else Some ar);
        Some (b\<lparr>buf_area := ar, buf_data := buf_data b + len\<rparr>)
      }"
    using fits sz wf n second unfolding raw_b_putblk_def Let_def half_def [symmetric]
    by (cases "half < len") (simp_all add: b_data_def b_size_def b_tail_eq)
  also have "\<dots> = do {
        src \<leftarrow> rd blk 0 half;
        ar \<leftarrow> wr (buf_area b) ?t src;
        if half < len then do { src \<leftarrow> rd blk half (len - half); wr ar 0 src } else Some ar
      } \<bind> (\<lambda>ar. Some (b\<lparr>buf_area := ar, buf_data := buf_data b + len\<rparr>))"
    by simp
  also have "\<dots> = Some (b\<lparr>buf_area := ring_write (buf_area b) ?t (take len blk),
                           buf_data := buf_data b + len\<rparr>)"
    using t lens len half by (subst two_copies_write) auto
  finally show ?thesis .
qed

lemma raw_b_putblk_correct:
  assumes wf: "b_wf b" and len: "0 < len" "len \<le> length blk"
    and fits: "buf_data b + len \<le> buf_size b"
  obtains b' where "raw_b_putblk b blk len = Some b'" and "b_wf b'"
    and "b_list b' = b_list b @ take len blk" and "buf_size b' = buf_size b"
    and "buf_head b' = buf_head b" and "buf_data b' = buf_data b + len"
proof -
  note d = b_wfD [OF wf]
  let ?n = "buf_size b" let ?t = "(buf_head b + buf_data b) mod buf_size b"
  define b' where "b' = b\<lparr>buf_area := ring_write (buf_area b) ?t (take len blk),
            buf_data := buf_data b + len\<rparr>"
  have n: "0 < ?n" "buf_head b < ?n" using len fits d by auto
  have t: "?t < ?n" using n by simp
  have "b_wf b'" using wf fits len d t n by (auto simp: b_wf_def b'_def min_absorb2)
  moreover have "b_list b' = b_list b @ take len blk"
    using ring_read_write [of "buf_head b" "buf_area b" "buf_data b" "take len blk"] n d fits len
    by (simp add: b_list_def b'_def min_absorb2)
  moreover have "raw_b_putblk b blk len = Some b'"
    unfolding b'_def by (rule raw_b_putblk_eq [OF assms])
  ultimately show thesis by (intro that [of b']) (simp_all add: b'_def)
qed

text \<open>\<^verbatim>\<open>b_putblk\<close> appends as much of the block as there is room for.\<close>

lemma b_putblk_correct:
  assumes wf: "b_wf b" and len: "len \<le> length blk"
  defines "k \<equiv> min len (buf_size b - buf_data b)"
  obtains b' where "b_putblk b blk len = Some (k, b')" and "b_wf b'"
    and "b_list b' = b_list b @ take k blk" and "buf_size b' = buf_size b"
    and "buf_head b' = buf_head b" and "buf_data b' = buf_data b + k"
proof -
  note d = b_wfD [OF wf]
  have k: "(if len > b_room b then b_room b else len) = k"
    using wf by (auto simp: k_def b_room_eq)
  show thesis
  proof (cases "k = 0")
    case True
    with wf k show thesis by (intro that [of b]) (auto simp: b_putblk_def Let_def)
  next
    case False
    have "0 < k" and "k \<le> length blk" and "buf_data b + k \<le> buf_size b"
      using False len d by (auto simp: k_def)
    then obtain b' where "raw_b_putblk b blk k = Some b'" and "b_wf b'"
      and "b_list b' = b_list b @ take k blk" and "buf_size b' = buf_size b"
      and "buf_head b' = buf_head b" and "buf_data b' = buf_data b + k"
      by (rule raw_b_putblk_correct [OF wf])
    with k False show thesis by (intro that [of b']) (auto simp: b_putblk_def Let_def)
  qed
qed

lemma b_del_correct:
  assumes wf: "b_wf b" and del: "del \<le> buf_data b"
  shows "b_wf (b_del b del)" and "b_list (b_del b del) = drop del (b_list b)"
    and "buf_size (b_del b del) = buf_size b" and "buf_data (b_del b del) = buf_data b - del"
proof -
  note d = b_wfD [OF wf]
  let ?n = "buf_size b"
  define h where "h = buf_head (b_del b del)"
  have h: "h = (if buf_head b + del < ?n then buf_head b + del else buf_head b + del - ?n)"
    using d del by (simp add: h_def b_del_def Let_def sz_simps)
  have dat: "buf_data (b_del b del) = buf_data b - del"
    and siz: "buf_size (b_del b del) = ?n" and ar: "buf_area (b_del b del) = buf_area b"
    using d del by (auto simp: b_del_def Let_def sz_simps)
  show "buf_data (b_del b del) = buf_data b - del" and "buf_size (b_del b del) = ?n"
    by (fact dat, fact siz)
  have hb: "h < ?n \<or> ?n = 0 \<and> h = 0" using h d del by (cases "?n = 0") auto
  then show "b_wf (b_del b del)"
    using d del dat siz ar by (auto simp: b_wf_def h_def)
  have "h = (buf_head b + del) mod ?n"
  proof (cases "?n = 0")
    case True
    with h d del show ?thesis by simp
  next
    case False
    with d del have "buf_head b + del < 2 * ?n" by simp
    with h show ?thesis by (simp add: mod_wrap_once)
  qed
  then show "b_list (b_del b del) = drop del (b_list b)"
    using d ar dat ring_read_mod [of "buf_area b" "buf_head b + del" "buf_data b - del"]
    by (simp add: b_list_def flip: h_def)
qed

lemma b_putchr_correct:
  assumes wf: "b_wf b"
  obtains b' where "b_putchr b c = Some b'" and "b_wf b'"
    and "b_list b' = (if buf_data b < buf_size b then b_list b @ [c] else b_list b)"
    and "buf_size b' = buf_size b"
proof (cases "buf_data b < buf_size b")
  case False
  with wf b_wfD [OF wf] show thesis
    by (intro that [of b]) (auto simp: b_putchr_def b_full_def b_room_eq)
next
  case True
  note d = b_wfD [OF wf]
  have n: "0 < buf_size b" and t: "b_tail b < buf_size b" using True wf by (auto simp: b_tail_eq)
  let ?b' = "b\<lparr>buf_area := ring_write (buf_area b) (b_tail b) [c], buf_data := buf_data b + 1\<rparr>"
  have "b_putchr b c = Some ?b'"
    using True wf d t by (simp add: b_putchr_def b_full_def b_room_eq mem_simps sz_simps
        list_update_ring_write)
  moreover have "b_wf ?b'" using wf d True t by (auto simp: b_wf_def)
  moreover have "b_list ?b' = b_list b @ [c]"
    using ring_read_write [of "buf_head b" "buf_area b" "buf_data b" "[c]"] n d True wf
    by (simp add: b_list_def b_tail_eq)
  ultimately show thesis using True by (intro that [of ?b']) auto
qed

lemma b_reset_correct: "b_wf b \<Longrightarrow> b_wf (b_reset b) \<and> b_list (b_reset b) = []"
  by (auto simp: b_wf_def b_reset_def b_list_def)

lemma b_realign_if_empty_correct:
  "b_wf b \<Longrightarrow> b_wf (b_realign_if_empty b) \<and> b_list (b_realign_if_empty b) = b_list b"
  by (auto simp: b_wf_def b_realign_if_empty_def b_list_def b_data_def)

lemma b_sub_correct:
  "b_wf b \<Longrightarrow> count \<le> buf_data b \<Longrightarrow>
   b_wf (b_sub b count) \<and> b_list (b_sub b count) = take (buf_data b - count) (b_list b)"
  by (frule b_wfD(2), frule b_wfD(3))
     (simp add: b_wf_def b_sub_def b_list_def sz_simps min_absorb1)

text \<open>The two blocks of \<^verbatim>\<open>b_getblk_nc\<close> hold, in order, the bytes asked for.\<close>

lemma b_getblk_nc_correct:
  assumes wf: "b_wf b" and max: "ofs + mx \<le> buf_data b"
  shows "concat (map (\<lambda>(p, l). take l (drop p (buf_area b))) (b_getblk_nc b ofs mx)) =
      take mx (drop ofs (b_list b)) \<and>
    (\<forall>(p, l) \<in> set (b_getblk_nc b ofs mx). p + l \<le> buf_size b \<and> 0 < l)"
proof (cases "mx = 0")
  case True
  then show ?thesis by (simp add: b_getblk_nc_def)
next
  case False
  note d = b_wfD [OF wf]
  let ?n = "buf_size b"
  define p where "p = (buf_head b + ofs) mod buf_size b"
  have n: "0 < ?n" and p: "p < ?n" using False max d by (auto simp: p_def)
  have blocks: "ring_read (buf_area b) q mx =
      (if ?n - q < mx then drop q (buf_area b) @ take (mx - (?n - q)) (buf_area b)
       else take mx (drop q (buf_area b)))" if "q < ?n" for q
    using that d max by (auto simp: ring_read_contig ring_read_split)
  have "b_peek b ofs = p" using wf n max d by (simp add: b_peek_eq p_def)
  moreover have "sz_sub (b_wrap b) p = ?n - p"
    using p d by (simp add: b_wrap_def b_orig_def sz_simps)
  moreover have "take mx (drop ofs (b_list b)) = ring_read (buf_area b) p mx"
    using max d ring_read_mod [of "buf_area b" "buf_head b + ofs" mx]
    by (simp add: b_list_def min_absorb1 p_def)
  moreover have "mx \<le> ?n" using max d by simp
  ultimately show ?thesis
    using False p d(1,3) blocks by (auto simp: b_getblk_nc_def Let_def b_orig_def sz_simps)
qed

section \<open>Chunks\<close>

text \<open>A chunk is a buffer whose data start at the beginning of the area.\<close>

lemma chunk_list: "buf_head b = 0 \<Longrightarrow> b_wf b \<Longrightarrow> b_list b = take (buf_data b) (buf_area b)"
  using b_wfD [of b]
  by (intro nth_equalityI) (auto simp: b_list_def ring_read_def)

lemma chunk_append:
  assumes "b_wf b" and "buf_head b = 0" and "buf_data b + length xs \<le> buf_size b"
  shows "b_wf (b\<lparr>buf_area := blit (buf_area b) (buf_data b) xs, buf_data := buf_data b + length xs\<rparr>)"
    and "b_list (b\<lparr>buf_area := blit (buf_area b) (buf_data b) xs, buf_data := buf_data b + length xs\<rparr>) = b_list b @ xs"
proof -
  let ?b = "b\<lparr>buf_area := blit (buf_area b) (buf_data b) xs, buf_data := buf_data b + length xs\<rparr>"
  show wf: "b_wf ?b" using assms by (auto simp: b_wf_def)
  have "b_list ?b = take (buf_data b + length xs) (blit (buf_area b) (buf_data b) xs)"
    using chunk_list [OF _ wf] assms(2) by simp
  also have "\<dots> = take (buf_data b) (buf_area b) @ xs"
    using assms b_wfD(1) [OF assms(1)] by (simp add: blit_def)
  finally show "b_list ?b = b_list b @ xs" using chunk_list [OF assms(2,1)] by simp
qed

end
