(* ===== verification/BufOps.thy ===== *)
theory BufOps
  imports Buf
begin

unbundle bit_operations_syntax

text \<open>
  The heavier buffer operations of \<^verbatim>\<open>src/buf.c\<close>: block reads and writes at an offset, delimited
  reads, realignment, transfers between buffers, moves inside a buffer, replacement and insertion of
  blocks. Source blocks are lists of bytes; \<open>str\<close> and \<open>swap\<close> arguments are the memory areas that
  the function writes to.
\<close>

section \<open>Blocks at an absolute offset\<close>

definition b_getblk_ofs :: "buffer \<Rightarrow> nat \<Rightarrow> nat \<Rightarrow> (nat \<times> bytes) option" where
  "b_getblk_ofs b len offset =
     (let offset = (if offset \<ge> buf_size b then sz_sub offset (buf_size b) else offset) in
      if offset \<ge> buf_size b then None
      else do {
        let firstblock = sz_sub (buf_size b) offset;
        let firstblock = (if firstblock \<ge> len then len else firstblock);
        blk1 \<leftarrow> rd (buf_area b) (b_orig b + offset) firstblock;
        blk2 \<leftarrow> (if len > firstblock then rd (buf_area b) (b_orig b) (sz_sub len firstblock)
                else Some []);
        Some (len, blk1 @ blk2)
      })"

definition b_getblk :: "buffer \<Rightarrow> nat \<Rightarrow> nat \<Rightarrow> (nat \<times> bytes) option" where
  "b_getblk b len offset =
     (if buf_data b > buf_size b \<or> offset > buf_data b \<or> sz_add offset len > buf_data b then None
      else if sz_add len offset > b_data b then Some (0, [])
      else let firstblock = sz_sub (b_wrap b) (b_head b) in
        if firstblock > offset then
          if firstblock \<ge> sz_add len offset then do {
            blk \<leftarrow> rd (buf_area b) (b_head b + offset) len;
            Some (len, blk)
          } else do {
            blk1 \<leftarrow> rd (buf_area b) (b_head b + offset) (sz_sub firstblock offset);
            blk2 \<leftarrow> rd (buf_area b) (b_orig b) (sz_add (sz_sub len firstblock) offset);
            Some (len, blk1 @ blk2)
          }
        else do {
          blk \<leftarrow> rd (buf_area b) (b_orig b + offset - firstblock) len;
          Some (len, blk)
        })"

definition b_putblk_ofs :: "buffer \<Rightarrow> bytes \<Rightarrow> nat \<Rightarrow> nat \<Rightarrow> (nat \<times> buffer) option" where
  "b_putblk_ofs b blk len offset =
     (let offset = (if offset \<ge> buf_size b then sz_sub offset (buf_size b) else offset) in
      if offset \<ge> buf_size b then None
      else do {
        let firstblock = sz_sub (buf_size b) offset;
        let firstblock = (if firstblock \<ge> len then len else firstblock);
        src \<leftarrow> rd blk 0 firstblock;
        ar \<leftarrow> wr (buf_area b) (b_orig b + offset) src;
        ar \<leftarrow> (if len > firstblock then do {
                 src \<leftarrow> rd blk firstblock (sz_sub len firstblock);
                 wr ar (b_orig b) src
               } else Some ar);
        Some (len, b\<lparr>buf_area := ar\<rparr>)
      })"

section \<open>Delimited reads\<close>

text \<open>The loops of \<^verbatim>\<open>b_getdelim\<close> and \<^verbatim>\<open>b_getline\<close> write to \<open>str\<close> at \<open>i\<close>, which is also
  the number of bytes read. They return the area, the position reached, what is left of \<open>max\<close> and
  whether a delimiter was found.\<close>

fun delim_map_of :: "bytes \<Rightarrow> bytes \<Rightarrow> bytes" where
  "delim_map_of m [] = m"
| "delim_map_of m (b # delim) =
     (if b = 0 then m
      else delim_map_of
        (m[unat (drop_bit 3 b) := m ! unat (drop_bit 3 b) OR push_bit (unat (b AND 7)) 1]) delim)"

definition delim_test :: "bytes \<Rightarrow> byte \<Rightarrow> bool" where
  "delim_test m b = (m ! unat (drop_bit 3 b) AND push_bit (unat (b AND 7)) 1 \<noteq> 0)"

fun getdelim_loop :: "buffer \<Rightarrow> bytes \<Rightarrow> byte \<Rightarrow> bool \<Rightarrow> bytes \<Rightarrow> nat \<Rightarrow> nat \<Rightarrow> nat \<Rightarrow>
    (bytes \<times> nat \<times> nat \<times> bool) option" where
  "getdelim_loop b dmap escape escaped str i p 0 = Some (str, i, 0, False)"
| "getdelim_loop b dmap escape escaped str i p (Suc mx) = do {
     c \<leftarrow> ld (buf_area b) p;
     str \<leftarrow> st str i c;
     if escape \<noteq> 0 \<and> (escaped \<or> c = escape)
     then getdelim_loop b dmap escape (\<not> escaped) str (i + 1) (b_next b p) mx
     else if delim_test dmap c then Some (str, i + 1, mx, True)
     else getdelim_loop b dmap escape escaped str (i + 1) (b_next b p) mx
   }"

definition b_getdelim ::
    "buffer \<Rightarrow> nat \<Rightarrow> nat \<Rightarrow> bytes \<Rightarrow> nat \<Rightarrow> bytes \<Rightarrow> byte \<Rightarrow> (nat \<times> bytes) option" where
  "b_getdelim b offset count str len delim escape =
     (let p = b_peek b offset in
      if count = 0 \<or> sz_add offset count > b_data b
      then if len \<noteq> 0 then do { str \<leftarrow> st str 0 0; Some (0, str) } else Some (0, str)
      else do {
        let mx = (if len > count then count else len);
        str \<leftarrow> (if len > count then st str (mx - 1) 0 else Some str);
        let dmap = delim_map_of (replicate 32 0) delim;
        (str, i, mx, found) \<leftarrow> getdelim_loop b dmap escape False str 0 p mx;
        let ret = (if i > 0 \<and> \<not> found then 0 else i);
        str \<leftarrow> (if mx \<noteq> 0 then st str i 0 else Some str);
        Some (ret, str)
      })"

fun getline_loop :: "buffer \<Rightarrow> bytes \<Rightarrow> nat \<Rightarrow> nat \<Rightarrow> nat \<Rightarrow> (bytes \<times> nat \<times> nat) option" where
  "getline_loop b str i p 0 = Some (str, i, 0)"
| "getline_loop b str i p (Suc mx) = do {
     c \<leftarrow> ld (buf_area b) p;
     str \<leftarrow> st str i c;
     if c = 10 then Some (str, i + 1, mx)
     else getline_loop b str (i + 1) (b_next b p) mx
   }"

definition b_getline ::
    "buffer \<Rightarrow> nat \<Rightarrow> nat \<Rightarrow> bytes \<Rightarrow> nat \<Rightarrow> (nat \<times> bytes) option" where
  "b_getline b offset count str len =
     (let p = b_peek b offset in
      if count = 0 \<or> sz_add offset count > b_data b
      then if len \<noteq> 0 then do { str \<leftarrow> st str 0 0; Some (0, str) } else Some (0, str)
      else do {
        let mx = (if len > count then count else len);
        str \<leftarrow> (if len > count then st str (mx - 1) 0 else Some str);
        (str, i, mx) \<leftarrow> getline_loop b str 0 p mx;
        ret \<leftarrow> (if i > 0 then do { c \<leftarrow> ld str (i - 1); Some (if c \<noteq> 10 then 0 else i) }
               else Some i);
        str \<leftarrow> (if mx \<noteq> 0 then st str i 0 else Some str);
        Some (ret, str)
      })"

section \<open>Realignment\<close>

definition b_slow_realign :: "buffer \<Rightarrow> bytes \<Rightarrow> nat \<Rightarrow> buffer option" where
  "b_slow_realign b swap output =
     (let wraps = output > sz_sub (b_size b) (b_head_ofs b);
          block2 = (if wraps then b_peek_ofs b output else 0);
          block1 = (if wraps then sz_sub output block2 else output)
      in do {
        x \<leftarrow> rd (buf_area b) (b_head b) block1;
        swap \<leftarrow> wr swap (sz_sub (b_size b) output) x;
        x \<leftarrow> rd (buf_area b) (b_orig b) block2;
        swap \<leftarrow> wr swap (sz_sub (b_size b) block2) x;
        let input = sz_sub (b_data b) output;
        let block2 = (if input > b_tail_ofs b then b_tail_ofs b else 0);
        let block1 = (if input > b_tail_ofs b then sz_sub input block2 else input);
        x \<leftarrow> rd (buf_area b) (b_peek b output) block1;
        swap \<leftarrow> wr swap 0 x;
        x \<leftarrow> rd (buf_area b) (b_orig b) block2;
        swap \<leftarrow> wr swap block1 x;
        x \<leftarrow> rd swap 0 (sz_sub (b_data b) output);
        ar \<leftarrow> wr (buf_area b) (b_orig b) x;
        x \<leftarrow> rd swap (sz_sub (b_size b) output) output;
        ar \<leftarrow> wr ar (b_wrap b - output) x;
        Some (b\<lparr>buf_area := ar, buf_head := (if output \<noteq> 0 then sz_sub (b_size b) output else 0)\<rparr>)
      })"

definition b_slow_realign_ofs :: "buffer \<Rightarrow> bytes \<Rightarrow> nat \<Rightarrow> buffer option" where
  "b_slow_realign_ofs b swap ofs =
     (let wraps = raw_b_tail_ofs b \<ge> b_size b;
          block2 = (if wraps then b_tail_ofs b else 0);
          block1 = (if wraps then sz_sub (b_data b) block2 else b_data b)
      in do {
        x \<leftarrow> rd (buf_area b) (b_head b) block1;
        swap \<leftarrow> wr swap 0 x;
        x \<leftarrow> rd (buf_area b) (b_orig b) block2;
        swap \<leftarrow> wr swap block1 x;
        let room = sz_sub (b_size b) ofs;
        let block1 = (if b_data b > room then room else b_data b);
        let block2 = (if b_data b > room then sz_sub (b_data b) block1 else 0);
        x \<leftarrow> rd swap 0 block1;
        ar \<leftarrow> wr (buf_area b) (b_orig b + ofs) x;
        x \<leftarrow> rd swap block1 block2;
        ar \<leftarrow> wr ar (b_orig b) x;
        Some (b\<lparr>buf_area := ar, buf_head := ofs\<rparr>)
      })"

section \<open>Transfers\<close>

definition b_ncat :: "buffer \<Rightarrow> buffer \<Rightarrow> nat \<Rightarrow> (nat \<times> buffer) option" where
  "b_ncat dst src count =
     (if count = 0 then Some (0, dst)
      else let ret = b_data src in
        if ret = 0 then Some (ret, dst)
        else do {
          let ret = (if ret > count then count else ret);
          let block1 = b_contig_data src 0;
          let block1 = (if block1 > ret then ret else block1);
          let block2 = sz_sub ret block1;
          dst \<leftarrow> (if block1 \<noteq> 0 then do {
                   x \<leftarrow> rd (buf_area src) (b_head src) block1;
                   raw_b_putblk dst x block1
                 } else Some dst);
          dst \<leftarrow> (if block2 \<noteq> 0 then do {
                   x \<leftarrow> rd (buf_area src) (b_peek src block1) block2;
                   raw_b_putblk dst x block2
                 } else Some dst);
          Some (ret, dst)
        })"

definition b_xfer :: "buffer \<Rightarrow> buffer \<Rightarrow> nat \<Rightarrow> (nat \<times> buffer \<times> buffer) option" where
  "b_xfer dst src count =
     (if count = 0 then Some (0, dst, src)
      else let ret = b_data src in
        if ret = 0 then Some (ret, dst, src)
        else if \<not> ret > count \<and> b_data dst = 0 then Some (ret, src, dst)
        else do {
          let ret = (if ret > count then count else ret);
          let block1 = b_contig_data src 0;
          let block1 = (if block1 > ret then ret else block1);
          let block2 = sz_sub ret block1;
          dst \<leftarrow> (if block1 \<noteq> 0 then do {
                   x \<leftarrow> rd (buf_area src) (b_head src) block1;
                   raw_b_putblk dst x block1
                 } else Some dst);
          dst \<leftarrow> (if block2 \<noteq> 0 then do {
                   x \<leftarrow> rd (buf_area src) (b_peek src block1) block2;
                   raw_b_putblk dst x block2
                 } else Some dst);
          Some (ret, dst, b_del src ret)
        })"

definition b_force_xfer :: "buffer \<Rightarrow> buffer \<Rightarrow> nat \<Rightarrow> (nat \<times> buffer \<times> buffer) option" where
  "b_force_xfer dst src count = do {
     (ret, dst) \<leftarrow> b_ncat dst src count;
     Some (ret, dst, b_del src ret)
   }"

section \<open>Moves, replacement and insertion\<close>

text \<open>The two loops of \<^verbatim>\<open>b_move\<close>. A loop that makes no progress does not return.\<close>

partial_function (option) move_left_loop ::
    "nat \<Rightarrow> bytes \<Rightarrow> nat \<Rightarrow> nat \<Rightarrow> nat \<Rightarrow> bytes option" where
  "move_left_loop siz ar dst src len =
     (if len = 0 then Some ar
      else do {
        cnt \<leftarrow> Some (min (min len (sz_sub siz src)) (sz_sub siz dst));
        x \<leftarrow> rd ar src cnt;
        ar \<leftarrow> wr ar dst x;
        move_left_loop siz ar
          (if sz_add dst cnt \<ge> siz then sz_sub (sz_add dst cnt) siz else sz_add dst cnt)
          (if sz_add src cnt \<ge> siz then sz_sub (sz_add src cnt) siz else sz_add src cnt)
          (sz_sub len cnt)
      })"

partial_function (option) move_right_loop ::
    "nat \<Rightarrow> bytes \<Rightarrow> nat \<Rightarrow> nat \<Rightarrow> nat \<Rightarrow> bytes option" where
  "move_right_loop siz ar dst src len =
     (if len = 0 then Some ar
      else do {
        src_end \<leftarrow> Some (if sz_add src len > siz then sz_sub (sz_add src len) siz
                        else sz_add src len);
        dst_end \<leftarrow> Some (if sz_add dst len > siz then sz_sub (sz_add dst len) siz
                        else sz_add dst len);
        cnt \<leftarrow> Some (min (min len dst_end) src_end);
        x \<leftarrow> rd ar (src_end - cnt) cnt;
        ar \<leftarrow> wr ar (dst_end - cnt) x;
        move_right_loop siz ar dst src (sz_sub len cnt)
      })"

definition b_move :: "buffer \<Rightarrow> nat \<Rightarrow> nat \<Rightarrow> int \<Rightarrow> buffer option" where
  "b_move b src len shift =
     (let siz = b_size b;
          dst = usz (int src + int siz + shift)
      in if len > siz then None
         else let dst = (if dst \<ge> siz then sz_sub dst siz else dst) in
           if shift < 0 then
             if - shift \<ge> int siz then None
             else do {
               ar \<leftarrow> move_left_loop siz (buf_area b) dst src len;
               Some (b\<lparr>buf_area := ar\<rparr>)
             }
           else if shift > 0 then
             if shift \<ge> int siz then None
             else do {
               ar \<leftarrow> move_right_loop siz (buf_area b) dst src len;
               Some (b\<lparr>buf_area := ar\<rparr>)
             }
           else Some b)"

definition b_rep_blk :: "buffer \<Rightarrow> nat \<Rightarrow> nat \<Rightarrow> bytes \<Rightarrow> nat \<Rightarrow> (int \<times> buffer) option" where
  "b_rep_blk b pos epos blk len =
     (if pos \<ge> b_orig b + buf_size b then None
      else let delta = to_int32 (int len - (int epos - int pos)) in
        if int (raw_b_tail b) + delta > int (b_wrap b) then Some (0, b)
        else if b_data b \<noteq> 0 \<and> int (b_tail b) + delta > int (b_head b) \<and> b_head b \<ge> b_tail b
        then Some (0, b)
        else if b_tail b < epos \<or> int epos + delta < 0 then None
        else do {
          x \<leftarrow> rd (buf_area b) epos (b_tail b - epos);
          ar \<leftarrow> wr (buf_area b) (nat (int epos + delta)) x;
          ar \<leftarrow> (if len \<noteq> 0 then do { x \<leftarrow> rd blk 0 len; wr ar pos x } else Some ar);
          let b = b_add (b\<lparr>buf_area := ar\<rparr>) (usz delta);
          Some (delta, b_realign_if_empty b)
        })"

definition b_insert_blk :: "buffer \<Rightarrow> nat \<Rightarrow> bytes \<Rightarrow> nat \<Rightarrow> (int \<times> buffer) option" where
  "b_insert_blk b off blk len =
     (if len = 0 \<or> len > b_room b then Some (0, b)
      else let pos = b_peek_ofs b off in
        if pos = b_tail_ofs b then do {
          b \<leftarrow> raw_b_putblk b blk len;
          Some (to_int32 (int len), b)
        } else do {
          let delta = sz_sub (b_data b) off;
          b \<leftarrow> b_move b pos delta (ssz len);
          b \<leftarrow> raw_b_putblk (b_sub b delta) blk len;
          Some (to_int32 (int len), b_add b delta)
        })"

section \<open>Block reads and writes\<close>

lemma b_getblk_ofs_eq:
  assumes wf: "b_wf b" and "offset < 2 * buf_size b" and "len \<le> buf_size b"
  shows "b_getblk_ofs b len offset = Some (len, ring_read (buf_area b) offset len)"
proof -
  note d = b_wfD [OF wf]
  let ?n = "buf_size b"
  define p where "p = (if offset \<ge> ?n then sz_sub offset ?n else offset)"
  have p: "p = offset mod ?n" using assms d by (simp add: p_def sz_simps mod_wrap_once)
  then have pn: "p < ?n" using assms by (simp add: mod_less_divisor)
  have fb: "sz_sub ?n p = ?n - p" using pn d by (simp add: sz_simps)
  have rest: "sz_sub len k = len - k" if "k \<le> len" for k
    using that assms d by (simp add: sz_simps)
  define half where "half = (if sz_sub ?n p \<ge> len then len else sz_sub ?n p)"
  have half: "half = min len (length (buf_area b) - p)" using fb d by (auto simp: half_def)
  have half_le: "half \<le> len" using half by simp
  have "b_getblk_ofs b len offset = do {
        x \<leftarrow> rd (buf_area b) p half;
        y \<leftarrow> (if half < len then rd (buf_area b) 0 (len - half) else Some []);
        Some (x @ y)
      } \<bind> (\<lambda>x. Some (len, x))"
    using pn rest [OF half_le]
    unfolding b_getblk_ofs_def Let_def p_def [symmetric] half_def [symmetric]
    by (cases "half < len") (simp_all add: b_orig_def)
  also have "\<dots> = Some (len, ring_read (buf_area b) p len)"
    using pn assms d half by (subst two_copies_read) auto
  finally show ?thesis using p d ring_read_mod [of "buf_area b" offset len] by simp
qed

lemma b_getblk_eq:
  assumes wf: "b_wf b" and "offset + len \<le> buf_data b"
  shows "b_getblk b len offset = Some (len, take len (drop offset (b_list b)))"
proof (cases "buf_size b = 0")
  case True
  with assms b_wfD [OF wf] show ?thesis
    by (simp add: b_getblk_def sz_simps b_data_def b_ofs_defs mem_simps b_list_def)
next
  case False
  note d = b_wfD [OF wf]
  let ?n = "buf_size b" let ?h = "buf_head b"
  have h: "?h < ?n" using False d by simp
  have rest: "take len (drop offset (b_list b)) = ring_read (buf_area b) (?h + offset) len"
    using assms by (simp add: b_list_def min_absorb1)
  have "ring_read (buf_area b) (?h + offset) len =
      (if offset < ?n - ?h then
         if len + offset \<le> ?n - ?h then take len (drop (?h + offset) (buf_area b))
         else drop (?h + offset) (buf_area b) @ take (len + offset - (?n - ?h)) (buf_area b)
       else take len (drop (offset - (?n - ?h)) (buf_area b)))"
  proof (cases "offset < ?n - ?h")
    case True
    with assms d h show ?thesis
      by (auto simp: ring_read_contig ring_read_split ac_simps)
  next
    case False
    define q where "q = offset - (?n - ?h)"
    have q: "?h + offset = q + length (buf_area b)" "q + len \<le> ?n"
      using False assms d h by (auto simp: q_def)
    have "ring_read (buf_area b) (?h + offset) len = ring_read (buf_area b) q len"
      by (simp only: q(1) ring_read_add_length)
    also have "\<dots> = take len (drop q (buf_area b))" using q(2) d by (simp add: ring_read_contig)
    finally show ?thesis using False by (simp add: q_def)
  qed
  moreover have "rd (buf_area b) (?h + offset) (?n - ?h - offset) =
      Some (drop (?h + offset) (buf_area b))" if "offset < ?n - ?h"
    using that d by (simp add: mem_simps)
  ultimately show ?thesis
    using assms d h False rest
    by (auto simp: b_getblk_def Let_def b_ofs_defs sz_simps mem_simps)
qed

lemma b_putblk_ofs_eq:
  assumes wf: "b_wf b" and "offset < 2 * buf_size b" and "len \<le> buf_size b"
    and "len \<le> length blk"
  shows "b_putblk_ofs b blk len offset =
    Some (len, b\<lparr>buf_area := ring_write (buf_area b) (offset mod buf_size b) (take len blk)\<rparr>)"
proof -
  note d = b_wfD [OF wf]
  let ?n = "buf_size b"
  define p where "p = (if offset \<ge> ?n then sz_sub offset ?n else offset)"
  have p: "p = offset mod ?n" using assms d by (simp add: p_def sz_simps mod_wrap_once)
  then have pn: "p < ?n" using assms by (simp add: mod_less_divisor)
  have fb: "sz_sub ?n p = ?n - p" using pn d by (simp add: sz_simps)
  have rest: "sz_sub len k = len - k" if "k \<le> len" for k
    using that assms d by (simp add: sz_simps)
  define half where "half = (if sz_sub ?n p \<ge> len then len else sz_sub ?n p)"
  have half: "half = min len (length (buf_area b) - p)" using fb d by (auto simp: half_def)
  have half_le: "half \<le> len" using half by simp
  have "b_putblk_ofs b blk len offset = do {
        src \<leftarrow> rd blk 0 half;
        ar \<leftarrow> wr (buf_area b) p src;
        if half < len then do { src \<leftarrow> rd blk half (len - half); wr ar 0 src } else Some ar
      } \<bind> (\<lambda>ar. Some (len, b\<lparr>buf_area := ar\<rparr>))"
    using pn rest [OF half_le]
    unfolding b_putblk_ofs_def Let_def p_def [symmetric] half_def [symmetric]
    by (cases "half < len") (simp_all add: b_orig_def)
  also have "\<dots> = Some (len, b\<lparr>buf_area := ring_write (buf_area b) p (take len blk)\<rparr>)"
    using pn assms d half by (subst two_copies_write) auto
  finally show ?thesis using p by simp
qed

section \<open>Transfers\<close>

text \<open>The two appends shared by \<^verbatim>\<open>b_ncat\<close> and \<^verbatim>\<open>b_xfer\<close>.\<close>

lemma two_puts:
  assumes wfd: "b_wf dst" and wfs: "b_wf src" and ret: "0 < ret" "ret \<le> buf_data src"
    and room: "buf_data dst + ret \<le> buf_size dst"
    and block1: "block1 = min (b_contig_data src 0) ret"
  obtains dst' where "do {
        dst \<leftarrow> (if block1 \<noteq> 0 then do {
                 x \<leftarrow> rd (buf_area src) (b_head src) block1;
                 raw_b_putblk dst x block1
               } else Some dst);
        (if ret - block1 \<noteq> 0 then do {
                 x \<leftarrow> rd (buf_area src) (b_peek src block1) (ret - block1);
                 raw_b_putblk dst x (ret - block1)
               } else Some dst)
      } = Some dst'" and "b_wf dst'"
    and "b_list dst' = b_list dst @ take ret (b_list src)"
    and "buf_size dst' = buf_size dst" and "buf_head dst' = buf_head dst"
    and "buf_data dst' = buf_data dst + ret"
proof -
  note d = b_wfD [OF wfs]
  let ?n = "buf_size src" let ?h = "buf_head src" let ?a = "buf_area src"
  have n: "0 < ?n" and h: "?h < ?n" using ret d by auto
  have contig: "b_contig_data src 0 = min (?n - ?h) (buf_data src)"
    using wfs n h by (simp add: b_contig_data_eq)
  have b1: "block1 = min (?n - ?h) ret" using contig ret by (simp add: block1)
  have b1_pos: "0 < block1" and b1_le: "block1 \<le> ret" using b1 h ret by auto
  have r1: "rd ?a (b_head src) block1 = Some (ring_read ?a ?h block1)"
    using b1 d h by (simp add: b_ofs_defs mem_simps ring_read_contig)
  have lens: "block1 \<le> length (ring_read ?a ?h block1)" "buf_data dst + block1 \<le> buf_size dst"
    using room b1_le by auto
  obtain d1 where d1: "raw_b_putblk dst (ring_read ?a ?h block1) block1 = Some d1" "b_wf d1"
      "b_list d1 = b_list dst @ take block1 (ring_read ?a ?h block1)"
      "buf_size d1 = buf_size dst" "buf_head d1 = buf_head dst"
      "buf_data d1 = buf_data dst + block1"
    by (rule raw_b_putblk_correct [OF wfd b1_pos lens])
  show thesis
  proof (cases "block1 = ret")
    case True
    have "b_list d1 = b_list dst @ take ret (b_list src)"
      using d1(3) True ret by (simp add: b_list_def min_absorb1)
    with True r1 d1 b1_pos show thesis by (intro that [of d1]) auto
  next
    case False
    with b1_le have b2: "0 < ret - block1" by simp
    have hb: "?h + block1 = ?n" using False b1 h by (auto simp: min_def split: if_splits)
    have pk: "b_peek src block1 = 0" using wfs n b1 hb by (simp add: b_peek_eq)
    have r2: "rd ?a (b_peek src block1) (ret - block1) =
        Some (ring_read ?a (?h + block1) (ret - block1))"
      using pk hb d ret ring_read_add_length [of ?a 0 "ret - block1"]
      by (simp add: mem_simps ring_read_contig)
    have lens2: "ret - block1 \<le> length (ring_read ?a (?h + block1) (ret - block1))"
      "buf_data d1 + (ret - block1) \<le> buf_size d1"
      using room b1_le d1 by auto
    obtain d2 where d2: "raw_b_putblk d1 (ring_read ?a (?h + block1) (ret - block1)) (ret - block1)
        = Some d2" "b_wf d2"
      "b_list d2 = b_list d1 @ take (ret - block1) (ring_read ?a (?h + block1) (ret - block1))"
      "buf_size d2 = buf_size d1" "buf_head d2 = buf_head d1"
      "buf_data d2 = buf_data d1 + (ret - block1)"
      by (rule raw_b_putblk_correct [OF d1(2) b2 lens2])
    have "b_list d2 = b_list dst @ take ret (b_list src)"
      using d2(3) d1(3) b1_le ret ring_read_append [of ?a ?h block1 "ret - block1"]
      by (simp add: b_list_def min_absorb1)
    with r1 r2 d1 d2 b1_pos b2 b1_le show thesis by (intro that [of d2]) auto
  qed
qed

lemma b_ncat_correct:
  assumes wfd: "b_wf dst" and wfs: "b_wf src"
    and room: "buf_data dst + min count (buf_data src) \<le> buf_size dst"
  obtains dst' where "b_ncat dst src count = Some (min count (buf_data src), dst')" and "b_wf dst'"
    and "b_list dst' = b_list dst @ take count (b_list src)"
    and "buf_size dst' = buf_size dst"
proof (cases "count = 0 \<or> buf_data src = 0")
  case True
  with wfd show thesis
    by (intro that [of dst]) (auto simp: b_ncat_def b_data_def b_list_def Let_def)
next
  case False
  note d = b_wfD [OF wfs]
  define ret where "ret = min count (buf_data src)"
  define block1 where "block1 = min (b_contig_data src 0) ret"
  have ret: "0 < ret" "ret \<le> buf_data src" using False by (auto simp: ret_def)
  have ret_eq: "(if b_data src > count then count else b_data src) = ret"
    by (auto simp: ret_def b_data_def)
  have b1_eq: "(if b_contig_data src 0 > ret then ret else b_contig_data src 0) = block1"
    by (auto simp: block1_def)
  have sub: "sz_sub ret block1 = ret - block1" using ret d by (simp add: block1_def sz_simps)
  have rm: "buf_data dst + ret \<le> buf_size dst" using room by (simp add: ret_def)
  obtain dst' where dst': "do {
        dst \<leftarrow> (if block1 \<noteq> 0 then do {
                 x \<leftarrow> rd (buf_area src) (b_head src) block1;
                 raw_b_putblk dst x block1
               } else Some dst);
        (if ret - block1 \<noteq> 0 then do {
                 x \<leftarrow> rd (buf_area src) (b_peek src block1) (ret - block1);
                 raw_b_putblk dst x (ret - block1)
               } else Some dst)
      } = Some dst'" "b_wf dst'" "b_list dst' = b_list dst @ take ret (b_list src)"
    "buf_size dst' = buf_size dst" "buf_head dst' = buf_head dst"
    "buf_data dst' = buf_data dst + ret"
    by (rule two_puts [OF wfd wfs ret rm block1_def])
  have "b_ncat dst src count = Some (ret, dst')"
    using False dst'(1) unfolding b_ncat_def Let_def ret_eq b1_eq sub
    by (auto simp: b_data_def bind_eq_Some_conv)
  moreover have "take ret (b_list src) = take count (b_list src)"
    by (simp add: ret_def b_list_def min.assoc)
  ultimately show thesis using dst' by (intro that [of dst']) (auto simp: ret_def)
qed

text \<open>\<^verbatim>\<open>b_xfer\<close> moves the oldest bytes of \<open>src\<close> to the end of \<open>dst\<close>; when it can, it swaps
  the two buffers, so that the sizes may be exchanged.\<close>

lemma b_xfer_correct:
  assumes wfd: "b_wf dst" and wfs: "b_wf src"
    and room: "buf_data dst + min count (buf_data src) \<le> buf_size dst"
  obtains dst' src' where "b_xfer dst src count = Some (min count (buf_data src), dst', src')"
    and "b_wf dst'" and "b_wf src'"
    and "b_list dst' = b_list dst @ take count (b_list src)"
    and "b_list src' = drop count (b_list src)"
proof -
  note d = b_wfD [OF wfs]
  consider "count = 0 \<or> buf_data src = 0"
    | "0 < buf_data src" "buf_data src \<le> count" "buf_data dst = 0"
    | "0 < count" "0 < buf_data src" "\<not> (buf_data src \<le> count \<and> buf_data dst = 0)"
    by fastforce
  then show thesis
  proof cases
    case 1
    with wfd wfs show thesis
      by (intro that [of dst src]) (auto simp: b_xfer_def b_data_def b_list_def Let_def)
  next
    case 2
    with wfd wfs show thesis
      by (intro that [of src dst]) (auto simp: b_xfer_def b_data_def b_list_def Let_def)
  next
    case 3
    define ret where "ret = min count (buf_data src)"
    define block1 where "block1 = min (b_contig_data src 0) ret"
    have ret: "0 < ret" "ret \<le> buf_data src" using 3 by (auto simp: ret_def)
    have ret_eq: "(if b_data src > count then count else b_data src) = ret"
      by (auto simp: ret_def b_data_def)
    have b1_eq: "(if b_contig_data src 0 > ret then ret else b_contig_data src 0) = block1"
      by (auto simp: block1_def)
    have sub: "sz_sub ret block1 = ret - block1" using ret d by (simp add: block1_def sz_simps)
    have rm: "buf_data dst + ret \<le> buf_size dst" using room by (simp add: ret_def)
    obtain dst' where dst': "do {
        dst \<leftarrow> (if block1 \<noteq> 0 then do {
                 x \<leftarrow> rd (buf_area src) (b_head src) block1;
                 raw_b_putblk dst x block1
               } else Some dst);
        (if ret - block1 \<noteq> 0 then do {
                 x \<leftarrow> rd (buf_area src) (b_peek src block1) (ret - block1);
                 raw_b_putblk dst x (ret - block1)
               } else Some dst)
      } = Some dst'" "b_wf dst'" "b_list dst' = b_list dst @ take ret (b_list src)"
      "buf_size dst' = buf_size dst" "buf_head dst' = buf_head dst"
      "buf_data dst' = buf_data dst + ret"
      by (rule two_puts [OF wfd wfs ret rm block1_def])
    have "b_xfer dst src count = Some (ret, dst', b_del src ret)"
      using 3 dst'(1) unfolding b_xfer_def Let_def ret_eq b1_eq sub
      by (auto simp: b_data_def bind_eq_Some_conv)
    moreover have "take ret (b_list src) = take count (b_list src)"
      by (simp add: ret_def b_list_def min.assoc)
    moreover have "drop ret (b_list src) = drop count (b_list src)"
      by (cases "count \<le> buf_data src") (auto simp: ret_def b_list_def)
    ultimately show thesis
      using dst' b_del_correct [OF wfs ret(2)]
      by (intro that [of dst' "b_del src ret"]) (auto simp: ret_def)
  qed
qed

lemma b_force_xfer_correct:
  assumes wfd: "b_wf dst" and wfs: "b_wf src"
    and room: "buf_data dst + min count (buf_data src) \<le> buf_size dst"
  obtains dst' src' where "b_force_xfer dst src count = Some (min count (buf_data src), dst', src')"
    and "b_wf dst'" and "b_wf src'"
    and "b_list dst' = b_list dst @ take count (b_list src)"
    and "b_list src' = drop count (b_list src)"
proof -
  obtain dst' where d: "b_ncat dst src count = Some (min count (buf_data src), dst')" "b_wf dst'"
    "b_list dst' = b_list dst @ take count (b_list src)" "buf_size dst' = buf_size dst"
    by (rule b_ncat_correct [OF assms])
  have "drop (min count (buf_data src)) (b_list src) = drop count (b_list src)"
    by (cases "count \<le> buf_data src") (auto simp: b_list_def)
  with d b_del_correct [OF wfs, of "min count (buf_data src)"] show thesis
    by (intro that [of dst' "b_del src (min count (buf_data src))"])
       (auto simp: b_force_xfer_def)
qed

section \<open>Moves inside a buffer\<close>

text \<open>Moving \<open>len\<close> bytes by less than \<open>siz - len\<close> positions to the left: the loop copies
  from left to right and never overwrites a byte that is still to be copied.\<close>

lemma move_left_loop_eq:
  assumes "length ar = siz" and "siz < 4611686018427387904" and "src < siz" and "dst < siz"
    and "src = (dst + k) mod siz" and "0 < k" and "k + len \<le> siz"
  shows "move_left_loop siz ar dst src len = Some (ring_write ar dst (ring_read ar src len))"
  using assms
proof (induction len arbitrary: ar src dst rule: less_induct)
  case (less len)
  note prems = less.prems
  show ?case
  proof (cases "len = 0")
    case True
    then show ?thesis by (simp add: move_left_loop.simps)
  next
    case False
    define cnt where "cnt = min (min len (siz - src)) (siz - dst)"
    have cnt: "0 < cnt" "cnt \<le> len" "src + cnt \<le> siz" "dst + cnt \<le> siz"
      using False prems(3,4) by (auto simp: cnt_def)
    have cnt_eq: "min (min len (sz_sub siz src)) (sz_sub siz dst) = cnt"
      using prems by (simp add: cnt_def sz_simps)
    have wrap: "(if sz_add p cnt \<ge> siz then sz_sub (sz_add p cnt) siz else sz_add p cnt) =
        (p + cnt) mod siz" if "p + cnt \<le> siz" "0 < siz" for p
      using that prems(2) by (cases "p + cnt = siz") (simp_all add: sz_simps)
    have siz: "0 < siz" using prems by simp
    define ar' where "ar' = ring_write ar dst (ring_read ar src cnt)"
    have len_ar': "length ar' = siz" using prems cnt by (simp add: ar'_def)
    have rd: "rd ar src cnt = Some (ring_read ar src cnt)"
      using prems cnt by (simp add: mem_simps ring_read_contig)
    have wr: "wr ar dst (ring_read ar src cnt) = Some ar'"
      using prems cnt by (simp add: mem_simps ar'_def ring_write_contig)
    have sub: "sz_sub len cnt = len - cnt" using prems cnt by (simp add: sz_simps)
    have unfold: "move_left_loop siz ar dst src len =
        move_left_loop siz ar' ((dst + cnt) mod siz) ((src + cnt) mod siz) (len - cnt)"
      by (subst move_left_loop.simps)
         (simp only: False if_False cnt_eq bind.bind_lunit rd wr
            wrap [OF cnt(4) siz] wrap [OF cnt(3) siz] sub)
    have src': "(src + cnt) mod siz = ((dst + cnt) mod siz + k) mod siz"
      using prems(5) by (simp add: mod_simps ac_simps)
    have "move_left_loop siz ar' ((dst + cnt) mod siz) ((src + cnt) mod siz) (len - cnt) =
        Some (ring_write ar' ((dst + cnt) mod siz) (ring_read ar' ((src + cnt) mod siz) (len - cnt)))"
      using cnt len_ar' prems siz src' by (intro less.IH) auto
    moreover have "ring_read ar' ((src + cnt) mod siz) (len - cnt) =
        ring_read ar (src + cnt) (len - cnt)"
    proof (cases "cnt = len")
      case False
      have "ring_read ar' ((src + cnt) mod siz) (len - cnt) =
          ring_read ar ((src + cnt) mod siz) (len - cnt)"
        unfolding ar'_def
      proof (rule ring_read_write_frame [where d = "k + cnt"])
        show "(src + cnt) mod siz = (dst + (k + cnt)) mod length ar"
          using prems(1,5) by (simp add: mod_simps ac_simps)
      qed (use False prems cnt in auto)
      then show ?thesis using prems(1) ring_read_mod [of ar "src + cnt" "len - cnt"] by simp
    qed simp
    moreover have "ring_write ar' ((dst + cnt) mod siz) (ring_read ar (src + cnt) (len - cnt)) =
        ring_write ar dst (ring_read ar src len)"
      using ring_write_append [of dst ar "ring_read ar src cnt" "ring_read ar (src + cnt) (len - cnt)"]
        ring_read_append [of ar src cnt "len - cnt"] prems cnt
      by (simp add: ar'_def)
    ultimately show ?thesis using unfold by simp
  qed
qed

text \<open>Moving to the right copies from right to left. The destination may have passed the end of the
  area without having been wrapped.\<close>

lemma move_right_loop_eq:
  assumes "length ar = siz" and "siz < 4611686018427387904" and "src < siz"
    and "dst = src + k" and "0 < k" and "k + len \<le> siz"
  shows "move_right_loop siz ar dst src len =
    Some (ring_write ar (dst mod siz) (ring_read ar src len))"
  using assms
proof (induction len arbitrary: ar rule: less_induct)
  case (less len)
  note prems = less.prems
  show ?case
  proof (cases "len = 0")
    case True
    then show ?thesis by (simp add: move_right_loop.simps)
  next
    case False
    have siz: "0 < siz" using prems by simp
    define se where "se = (if src + len > siz then src + len - siz else src + len)"
    define de where "de = (if dst + len > siz then dst + len - siz else dst + len)"
    define cnt where "cnt = min (min len de) se"
    have se: "(if sz_add src len > siz then sz_sub (sz_add src len) siz else sz_add src len) = se"
      and de: "(if sz_add dst len > siz then sz_sub (sz_add dst len) siz else sz_add dst len) = de"
      using prems by (auto simp: se_def de_def sz_simps)
    have bounds: "0 < cnt" "cnt \<le> len" "cnt \<le> se" "se \<le> siz" "cnt \<le> de" "de \<le> siz"
      using False prems by (auto simp: se_def de_def cnt_def)
    have spos: "se - cnt = (src + (len - cnt)) mod siz"
    proof (cases "src + len > siz")
      case True
      with bounds have "src + (len - cnt) = (se - cnt) + siz" by (simp add: se_def)
      moreover have "se - cnt < siz" using bounds by linarith
      ultimately show ?thesis by simp
    next
      case False
      with bounds show ?thesis by (simp add: se_def)
    qed
    have dpos: "de - cnt = (dst + (len - cnt)) mod siz"
    proof (cases "dst + len > siz")
      case True
      with bounds have "dst + (len - cnt) = (de - cnt) + siz" by (simp add: de_def)
      moreover have "de - cnt < siz" using bounds by linarith
      ultimately show ?thesis by simp
    next
      case False
      with bounds show ?thesis by (simp add: de_def)
    qed
    let ?x = "ring_read ar (src + (len - cnt)) cnt"
    define ar' where "ar' = ring_write ar (de - cnt) ?x"
    have de_less: "de - cnt < siz" using bounds by linarith
    have len_ar': "length ar' = siz" using prems bounds by (simp add: ar'_def)
    have rd: "rd ar (se - cnt) cnt = Some ?x"
      using prems(1) bounds spos ring_read_mod [of ar "src + (len - cnt)" cnt]
        ring_read_contig [of "se - cnt" cnt ar] by (simp add: mem_simps)
    have wr: "wr ar (de - cnt) ?x = Some ar'"
      using prems bounds by (simp add: mem_simps ar'_def ring_write_contig)
    have sub: "sz_sub len cnt = len - cnt" using prems bounds by (simp add: sz_simps)
    have "move_right_loop siz ar dst src len = move_right_loop siz ar' dst src (len - cnt)"
      by (subst move_right_loop.simps)
         (simp only: False if_False se de cnt_def [symmetric] bind.bind_lunit rd wr sub)
    also have "\<dots> = Some (ring_write ar' (dst mod siz) (ring_read ar' src (len - cnt)))"
      using bounds len_ar' prems by (intro less.IH) auto
    also have "ring_read ar' src (len - cnt) = ring_read ar src (len - cnt)"
      unfolding ar'_def
    proof (rule ring_read_write_frame [where d = "siz - k - (len - cnt)"])
      have "de - cnt + (siz - k - (len - cnt)) = (dst + (len - cnt)) mod siz + (siz - k - (len - cnt))"
        using dpos by simp
      then have "(de - cnt + (siz - k - (len - cnt))) mod siz =
          (dst + (len - cnt) + (siz - k - (len - cnt))) mod siz"
        by (simp add: mod_simps)
      also have "dst + (len - cnt) + (siz - k - (len - cnt)) = src + siz"
        using prems bounds by linarith
      finally show "src = (de - cnt + (siz - k - (len - cnt))) mod length ar"
        using prems by simp
    qed (use prems bounds de_less in auto)
    also have "ring_write ar' (dst mod siz) (ring_read ar src (len - cnt)) =
        ring_write ar (dst mod siz) (ring_read ar src len)"
    proof -
      have dm: "dst mod siz < siz" using siz by simp
      have pos: "de - cnt = (dst mod siz + length (ring_read ar src (len - cnt))) mod length ar"
        using dpos prems(1) by (simp add: mod_simps)
      have "ring_write ar' (dst mod siz) (ring_read ar src (len - cnt)) =
          ring_write (ring_write ar (dst mod siz) (ring_read ar src (len - cnt))) (de - cnt) ?x"
        unfolding ar'_def using dm prems bounds by (intro ring_write_commute pos) auto
      also have "\<dots> = ring_write ar (dst mod siz) (ring_read ar src (len - cnt) @ ?x)"
        using ring_write_append [of "dst mod siz" ar "ring_read ar src (len - cnt)" ?x] dm prems
          bounds pos by simp
      finally show ?thesis using ring_read_append [of ar src "len - cnt" cnt] bounds by simp
    qed
    finally show ?thesis .
  qed
qed

text \<open>\<^verbatim>\<open>b_move\<close> behaves as one wrapping copy whenever the moved block and its shift fit in the
  buffer together.\<close>

lemma b_move_left_eq:
  assumes wf: "b_wf b" and "src < buf_size b" and "0 < k" and fits: "k + len \<le> buf_size b"
    and k: "k < buf_size b"
  shows "b_move b src len (- int k) = Some (b\<lparr>buf_area :=
    ring_write (buf_area b) ((src + buf_size b - k) mod buf_size b)
      (ring_read (buf_area b) src len)\<rparr>)"
proof -
  note d = b_wfD [OF wf]
  let ?n = "buf_size b"
  have dst: "usz (int src + int ?n + - int k) = src + ?n - k"
    using assms d by (simp add: usz_def)
  have dm: "(if src + ?n - k \<ge> ?n then sz_sub (src + ?n - k) ?n else src + ?n - k) =
      (src + ?n - k) mod ?n"
    using assms d by (subst mod_wrap_once) (auto simp: sz_simps)
  have "src = ((src + ?n - k) mod ?n + k) mod ?n"
    using assms by (simp add: mod_simps)
  then have "move_left_loop ?n (buf_area b) ((src + ?n - k) mod ?n) src len =
      Some (ring_write (buf_area b) ((src + ?n - k) mod ?n) (ring_read (buf_area b) src len))"
    using assms d by (intro move_left_loop_eq) auto
  then show ?thesis
    using assms(3-5) unfolding b_move_def b_size_def Let_def dst dm by simp
qed

lemma b_move_right_eq:
  assumes wf: "b_wf b" and "src < buf_size b" and "0 < k" and fits: "k + len \<le> buf_size b"
    and k: "k < buf_size b"
  shows "b_move b src len (int k) = Some (b\<lparr>buf_area :=
    ring_write (buf_area b) ((src + k) mod buf_size b) (ring_read (buf_area b) src len)\<rparr>)"
proof -
  note d = b_wfD [OF wf]
  let ?n = "buf_size b"
  have dst: "usz (int src + int ?n + int k) = src + ?n + k"
    using assms d by (simp add: usz_def nat_add_distrib)
  have dm: "(if src + ?n + k \<ge> ?n then sz_sub (src + ?n + k) ?n else src + ?n + k) = src + k"
    using assms d by (auto simp: sz_simps)
  have "move_right_loop ?n (buf_area b) (src + k) src len =
      Some (ring_write (buf_area b) ((src + k) mod ?n) (ring_read (buf_area b) src len))"
    using assms d by (intro move_right_loop_eq) auto
  then show ?thesis
    using assms d dst dm by (simp add: b_move_def b_size_def Let_def)
qed

text \<open>\<^verbatim>\<open>b_insert_blk\<close> inserts a block anywhere in the data, wrapping included.\<close>

lemma b_insert_blk_correct:
  assumes wf: "b_wf b" and off: "off \<le> buf_data b" and len: "0 < len" "len \<le> length blk"
    and fits: "buf_data b + len \<le> buf_size b"
  obtains b' where "b_insert_blk b off blk len = Some (to_int32 (int len), b')" and "b_wf b'"
    and "b_list b' = take off (b_list b) @ take len blk @ drop off (b_list b)"
    and "buf_size b' = buf_size b" and "buf_head b' = buf_head b"
proof -
  note d = b_wfD [OF wf]
  let ?n = "buf_size b" let ?h = "buf_head b" let ?a = "buf_area b" let ?k = "buf_data b"
  have n: "0 < ?n" and h: "?h < ?n" using len fits d by auto
  have guard: "\<not> (len = 0 \<or> len > b_room b)" using len fits wf by (simp add: b_room_eq)
  have pos: "b_peek_ofs b off = (?h + off) mod ?n" and tail: "b_tail_ofs b = (?h + ?k) mod ?n"
    using wf n off d by (simp_all add: b_peek_ofs_eq b_tail_ofs_eq)
  show thesis
  proof (cases "(?h + off) mod ?n = (?h + ?k) mod ?n")
    case True
    have "off = ?k"
    proof (rule ccontr)
      assume "off \<noteq> ?k"
      with off have "off < ?k" by simp
      moreover have "?k < ?n" using fits len by simp
      ultimately show False
        using True h by (auto simp: mod_wrap_once split: if_splits)
    qed
    moreover obtain b' where "raw_b_putblk b blk len = Some b'" "b_wf b'"
      "b_list b' = b_list b @ take len blk" "buf_size b' = buf_size b" "buf_head b' = buf_head b"
      "buf_data b' = buf_data b + len"
      by (rule raw_b_putblk_correct [OF wf len fits])
    ultimately show thesis
      using guard True pos tail by (intro that [of b']) (auto simp: b_insert_blk_def Let_def)
  next
    case False
    define delta where "delta = ?k - off"
    let ?p = "(?h + off) mod ?n" let ?q = "(?h + off + len) mod ?n"
    have delta: "sz_sub (b_data b) off = delta"
      using off d by (simp add: b_data_def delta_def sz_simps)
    have off_less: "off < ?k" using False off by (cases "off = ?k") auto
    have p: "?p < ?n" using n by simp
    have moved: "ring_read ?a ?p delta = drop off (b_list b)"
      using d ring_read_mod [of ?a "?h + off" delta]
      by (simp add: b_list_def delta_def)
    define b1 where "b1 = b\<lparr>buf_area := ring_write ?a ?q (drop off (b_list b))\<rparr>"
    have q: "(?p + len) mod ?n = ?q" by (simp add: mod_simps)
    have "b_move b ?p delta (int len) = Some b1"
      using b_move_right_eq [OF wf p, of len delta] len fits off off_less q moved
      by (simp add: b1_def delta_def)
    moreover have "ssz len = int len" using fits d by (simp add: sz_simps)
    ultimately have mv: "b_move b ?p delta (ssz len) = Some b1" by simp
    have ld: "length (drop off (b_list b)) = delta" by (simp add: delta_def)
    have wf1: "b_wf b1"
      using wf d ld n off unfolding b_wf_def b1_def by (auto simp: delta_def)
    define b2 where "b2 = b_sub b1 delta"
    have b2: "b_wf b2" "buf_data b2 = off" "buf_size b2 = ?n" "buf_head b2 = ?h"
      "buf_area b2 = ring_write ?a ?q (drop off (b_list b))"
      using b_sub_correct [OF wf1, of delta] off d
      by (auto simp: b2_def b1_def delta_def b_sub_def sz_simps)
    have fits2: "buf_data b2 + len \<le> buf_size b2" using b2 fits off by simp
    have put: "raw_b_putblk b2 blk len = Some (b2\<lparr>buf_area :=
        ring_write (buf_area b2) ?p (take len blk), buf_data := off + len\<rparr>)"
      using raw_b_putblk_eq [OF b2(1) len fits2] b2 by simp
    define a3 where "a3 = ring_write (ring_write ?a ?q (drop off (b_list b))) ?p (take len blk)"
    have a3: "a3 = ring_write ?a ?p (take len blk @ drop off (b_list b))"
    proof -
      have "a3 = ring_write (ring_write ?a ?p (take len blk)) ?q (drop off (b_list b))"
        unfolding a3_def using p d len fits off q ld
        by (intro ring_write_commute) (auto simp: delta_def min_absorb2)
      also have "\<dots> = ring_write ?a ?p (take len blk @ drop off (b_list b))"
        using ring_write_append [of ?p ?a "take len blk" "drop off (b_list b)"] p d len fits off q ld
        by (simp add: delta_def min_absorb2)
      finally show ?thesis .
    qed
    define b3 where "b3 = b_add (b2\<lparr>buf_area := a3, buf_data := off + len\<rparr>) delta"
    have b3: "buf_data b3 = ?k + len" "buf_size b3 = ?n" "buf_head b3 = ?h" "buf_area b3 = a3"
      using b2 off fits d by (auto simp: b3_def b_add_def delta_def sz_simps)
    have la3: "length a3 = ?n" using a3 p d len fits off ld by (simp add: delta_def min_absorb2)
    have "b_wf b3" using b3 la3 d h fits by (auto simp: b_wf_def)
    moreover have "b_list b3 = take off (b_list b) @ take len blk @ drop off (b_list b)"
    proof -
      have "b_list b3 = ring_read (ring_write ?a ((?h + off) mod length ?a)
          (take len blk @ drop off (b_list b))) ?h
          (off + length (take len blk @ drop off (b_list b)))"
        using b3 a3 d len off by (simp add: b_list_def min_absorb2 add.commute)
      also have "\<dots> = ring_read ?a ?h off @ take len blk @ drop off (b_list b)"
        using h d len fits off by (intro ring_read_write) (auto simp: min_absorb2)
      finally show ?thesis using off by (simp add: b_list_def min_absorb1)
    qed
    moreover have "b_insert_blk b off blk len = Some (to_int32 (int len), b3)"
      using guard pos tail False delta mv put b2(5)
      by (simp add: b_insert_blk_def Let_def b3_def a3_def flip: b2_def)
    ultimately show thesis using b3 by (intro that [of b3]) auto
  qed
qed

section \<open>Realignment\<close>

lemma b_slow_realign_ofs_correct:
  assumes wf: "b_wf b" and ofs: "ofs < buf_size b" and swap: "buf_size b \<le> length swap"
  obtains b' where "b_slow_realign_ofs b swap ofs = Some b'" and "b_wf b'"
    and "b_list b' = b_list b" and "buf_head b' = ofs" and "buf_size b' = buf_size b"
proof -
  note d = b_wfD [OF wf]
  let ?n = "buf_size b" let ?h = "buf_head b" let ?a = "buf_area b" let ?k = "buf_data b"
  have n: "0 < ?n" and h: "?h < ?n" using ofs d by auto
  have tail: "b_tail_ofs b = (if ?h + ?k < ?n then ?h + ?k else ?h + ?k - ?n)"
    using wf n h d by (simp add: b_tail_ofs_eq mod_wrap_once)
  define b2 where "b2 = (if raw_b_tail_ofs b \<ge> b_size b then b_tail_ofs b else 0)"
  define b1 where "b1 = (if raw_b_tail_ofs b \<ge> b_size b then sz_sub (b_data b) b2 else b_data b)"
  have b1: "b1 = min ?k (length ?a - ?h)" and b2: "b2 = ?k - b1"
    using wf tail d h
    by (auto simp: b1_def b2_def raw_b_tail_ofs_eq b_data_def b_size_def sz_simps)
  define c1 where "c1 = (if b_data b > sz_sub (b_size b) ofs then sz_sub (b_size b) ofs else b_data b)"
  define c2 where "c2 = (if b_data b > sz_sub (b_size b) ofs then sz_sub (b_data b) c1 else 0)"
  have c1: "c1 = min ?k (length ?a - ofs)" and c2: "c2 = ?k - c1"
    using ofs d by (auto simp: c1_def c2_def b_data_def b_size_def sz_simps)
  let ?s = "blit swap 0 (b_list b)"
  have ls: "length ?s = length swap" using swap d by simp
  have take_s: "take ?k ?s = b_list b" by (simp add: blit_def)
  have "b_slow_realign_ofs b swap ofs =
      rd ?a ?h b1 \<bind> (\<lambda>x. wr swap 0 x \<bind> (\<lambda>s. rd ?a 0 b2 \<bind> (\<lambda>y. wr s b1 y \<bind> (\<lambda>swap.
        rd swap 0 c1 \<bind> (\<lambda>x. wr ?a ofs x \<bind> (\<lambda>ar. rd swap c1 c2 \<bind> (\<lambda>x. wr ar 0 x \<bind>
          (\<lambda>ar. Some (b\<lparr>buf_area := ar, buf_head := ofs\<rparr>)))))))))"
    unfolding b_slow_realign_ofs_def Let_def b2_def [symmetric] b1_def [symmetric]
      c1_def [symmetric] c2_def [symmetric]
    by (simp add: b_ofs_defs)
  also have "\<dots> = rd ?s 0 c1 \<bind> (\<lambda>x. wr ?a ofs x \<bind> (\<lambda>ar. rd ?s c1 c2 \<bind> (\<lambda>x. wr ar 0 x \<bind>
          (\<lambda>ar. Some (b\<lparr>buf_area := ar, buf_head := ofs\<rparr>)))))"
    using h b1 b2 d swap unfolding b_list_def by (intro two_copies_out) auto
  also have "\<dots> = do {
        src \<leftarrow> rd ?s 0 c1;
        ar \<leftarrow> wr ?a ofs src;
        if c1 < ?k then do { src \<leftarrow> rd ?s c1 (?k - c1); wr ar 0 src } else Some ar
      } \<bind> (\<lambda>ar. Some (b\<lparr>buf_area := ar, buf_head := ofs\<rparr>))"
  proof (cases "c1 < ?k")
    case True
    then show ?thesis by (simp add: c2)
  next
    case False
    then have "c2 = 0" and "c1 = ?k" using c1 c2 by auto
    then show ?thesis using d ls swap by (simp add: mem_simps)
  qed
  also have "\<dots> = Some (b\<lparr>buf_area := ring_write ?a ofs (take ?k ?s), buf_head := ofs\<rparr>)"
    using ofs d ls swap c1 by (subst two_copies_write) auto
  finally have res: "b_slow_realign_ofs b swap ofs =
      Some (b\<lparr>buf_area := ring_write ?a ofs (b_list b), buf_head := ofs\<rparr>)"
    using take_s by simp
  let ?b' = "b\<lparr>buf_area := ring_write ?a ofs (b_list b), buf_head := ofs\<rparr>"
  have "b_wf ?b'" using wf ofs d by (auto simp: b_wf_def)
  moreover have "b_list ?b' = b_list b"
    using ring_read_write_same [of ofs ?a "b_list b"] ofs d by (simp add: b_list_def)
  ultimately show thesis using res by (intro that [of ?b']) auto
qed

lemma b_slow_realign_correct:
  assumes wf: "b_wf b" and out: "output \<le> buf_data b" and swap: "buf_size b \<le> length swap"
  obtains b' where "b_slow_realign b swap output = Some b'" and "b_wf b'"
    and "b_list b' = b_list b" and "buf_size b' = buf_size b"
    and "take (buf_data b - output) (buf_area b') = drop output (b_list b)"
    and "buf_head b' = (if output = 0 then 0 else buf_size b - output)"
proof (cases "buf_size b = 0")
  case True
  with wf out b_wfD [OF wf] show thesis
    by (intro that [of b])
       (auto simp: b_slow_realign_def Let_def b_ofs_defs b_peek_ofs_def sz_simps mem_simps b_list_def)
next
  case False
  note d = b_wfD [OF wf]
  let ?n = "buf_size b" let ?h = "buf_head b" let ?a = "buf_area b" let ?k = "buf_data b"
  have n: "0 < ?n" and h: "?h < ?n" using False d by auto
  have room: "sz_sub (b_size b) (b_head_ofs b) = ?n - ?h"
    using h d by (simp add: b_ofs_defs sz_simps)
  have peek: "b_peek_ofs b output = (?h + output) mod ?n" "b_peek b output = (?h + output) mod ?n"
    using wf n out d by (simp_all add: b_peek_ofs_eq b_peek_eq)
  have tail: "b_tail_ofs b = (if ?h + ?k < ?n then ?h + ?k else ?h + ?k - ?n)"
    using wf n h d by (simp add: b_tail_ofs_eq mod_wrap_once)
  have inp: "sz_sub (b_data b) output = ?k - output" and so: "sz_sub (b_size b) output = ?n - output"
    using out d by (simp_all add: b_data_def b_size_def sz_simps)
  define b2 where "b2 = (if output > ?n - ?h then b_peek_ofs b output else 0)"
  define b1 where "b1 = (if output > ?n - ?h then sz_sub output b2 else output)"
  have b1: "b1 = min output (length ?a - ?h)" and b2: "b2 = output - b1"
  proof -
    have "b_peek_ofs b output = ?h + output - ?n" if "output > ?n - ?h"
      using that h out d peek by (simp add: mod_wrap_hi)
    then show "b1 = min output (length ?a - ?h)" and "b2 = output - b1"
      using h out d by (auto simp: b1_def b2_def sz_simps)
  qed
  have sb2: "sz_sub (b_size b) b2 = ?n - b2" using b2 out d by (simp add: b_size_def sz_simps)
  define p where "p = (?h + output) mod ?n"
  have p: "p < ?n" using n by (simp add: p_def)
  have pv: "p = (if ?h + output < ?n then ?h + output else ?h + output - ?n)"
    using h out d unfolding p_def by (intro mod_wrap_once) linarith
  define c2 where "c2 = (if ?k - output > b_tail_ofs b then b_tail_ofs b else 0)"
  define c1 where "c1 = (if ?k - output > b_tail_ofs b then sz_sub (?k - output) c2 else ?k - output)"
  have c1: "c1 = min (?k - output) (length ?a - p)" and c2: "c2 = ?k - output - c1"
    using out d tail pv h by (auto simp: c1_def c2_def sz_simps)
  let ?x = "ring_read ?a ?h output" let ?y = "ring_read ?a p (?k - output)"
  have y: "?y = drop output (b_list b)"
    using d ring_read_mod [of ?a "?h + output" "?k - output"] by (simp add: b_list_def p_def)
  have x: "?x = take output (b_list b)" using out by (simp add: b_list_def min_absorb1)
  define s where "s = blit (blit swap (?n - output) ?x) 0 ?y"
  have ls: "length s = length swap" using swap out d by (simp add: s_def)
  have s_in: "take (?k - output) s = ?y" by (simp add: s_def blit_def)
  have s_out: "take output (drop (?n - output) s) = ?x"
  proof (rule nth_equalityI)
    show "length (take output (drop (?n - output) s)) = length ?x" using ls swap out d by simp
    fix i assume "i < length (take output (drop (?n - output) s))"
    then have i: "i < output" by simp
    have "\<not> ?n - output + i < ?k - output" "?n - output + i - (?n - output) = i"
      "?n - output + i < ?n - output + output" "?n - output + i < length swap"
      using i out d swap by linarith+
    then show "take output (drop (?n - output) s) ! i = ?x ! i"
      using i out d swap ls unfolding s_def
      by (subst nth_take_drop) (auto simp: nth_blit simp del: Nat.add_diff_assoc2)
  qed
  define fin where "fin = (\<lambda>swap. rd swap 0 (?k - output) \<bind> (\<lambda>x. wr ?a 0 x \<bind> (\<lambda>ar.
          rd swap (?n - output) output \<bind> (\<lambda>x. wr ar (?n - output) x \<bind>
          (\<lambda>ar. Some (b\<lparr>buf_area := ar,
             buf_head := (if output \<noteq> 0 then ?n - output else 0)\<rparr>))))))"
  define mid where "mid = (\<lambda>s. rd ?a p c1 \<bind> (\<lambda>x. wr s 0 x \<bind> (\<lambda>s. rd ?a 0 c2 \<bind>
        (\<lambda>y. wr s c1 y \<bind> fin))))"
  have lx: "length (blit swap (?n - output) ?x) = length swap" using swap out d by simp
  have "b_slow_realign b swap output = rd ?a ?h b1 \<bind> (\<lambda>x. wr swap (?n - output) x \<bind>
      (\<lambda>s. rd ?a 0 b2 \<bind> (\<lambda>y. wr s (?n - b2) y \<bind> mid)))"
    unfolding b_slow_realign_def Let_def room inp so peek(2)
      b2_def [symmetric] b1_def [symmetric] c2_def [symmetric] c1_def [symmetric] sb2
    by (simp add: b_ofs_defs p_def mid_def fin_def)
  also have "\<dots> = mid (blit swap (?n - output) ?x)"
    using h out d swap b2 b1 by (intro two_copies_out [OF _ _ b1 b2]) auto
  also have "\<dots> = fin s"
    unfolding mid_def s_def
    using p out d swap lx c1 by (intro two_copies_out [OF _ _ c1 c2]) auto
  also have "\<dots> = Some (b\<lparr>buf_area := blit (blit ?a 0 ?y) (?n - output) ?x,
      buf_head := (if output \<noteq> 0 then ?n - output else 0)\<rparr>)"
    using s_in s_out ls swap out d by (simp add: mem_simps fin_def)
  finally have res: "b_slow_realign b swap output =
      Some (b\<lparr>buf_area := blit (blit ?a 0 ?y) (?n - output) ?x,
      buf_head := (if output \<noteq> 0 then ?n - output else 0)\<rparr>)" .
  let ?ar = "blit (blit ?a 0 ?y) (?n - output) ?x"
  let ?b' = "b\<lparr>buf_area := ?ar, buf_head := (if output \<noteq> 0 then ?n - output else 0)\<rparr>"
  have la: "length ?ar = ?n" using d out by simp
  have "b_wf ?b'" using la d out n by (auto simp: b_wf_def)
  moreover have front: "take (?k - output) ?ar = ?y"
  proof (rule nth_equalityI)
    show "length (take (?k - output) ?ar) = length ?y" using la out d by simp
    fix i assume "i < length (take (?k - output) ?ar)"
    then have "i < ?k - output" and "\<not> ?n - output \<le> i" using out d la by auto
    then show "take (?k - output) ?ar ! i = ?y ! i" using out d by (auto simp: nth_blit)
  qed
  moreover have rear: "drop (?n - output) ?ar = ?x"
    using out d by (simp add: blit_def)
  moreover have "b_list ?b' = b_list b"
  proof (cases "output = 0")
    case True
    then have "b_list ?b' = take ?k ?ar" using la d by (simp add: b_list_def ring_read_contig)
    with front y True show ?thesis by simp
  next
    case o: False
    have "b_list ?b' = drop (?n - output) ?ar @ take (?k - output) ?ar"
      using o la d out n unfolding b_list_def by (simp, subst ring_read_split) auto
    with front rear x y show ?thesis by (metis append_take_drop_id)
  qed
  ultimately show thesis using res y by (intro that [of ?b']) auto
qed

section \<open>Delimited reads\<close>

text \<open>What a delimited read extracts: the bytes up to and including the first delimiter that is not
  escaped, and whether there is one. The state says that the previous byte was the escape.\<close>

fun dscan :: "byte \<Rightarrow> (byte \<Rightarrow> bool) \<Rightarrow> bool \<Rightarrow> bytes \<Rightarrow> bytes \<times> bool" where
  "dscan e P esc [] = ([], False)"
| "dscan e P esc (c # cs) =
     (if e \<noteq> 0 \<and> (esc \<or> c = e) then apfst (Cons c) (dscan e P (\<not> esc) cs)
      else if P c then ([c], True)
      else apfst (Cons c) (dscan e P esc cs))"

lemma dscan_length: "dscan e P esc xs = (pre, found) \<Longrightarrow> length pre \<le> length xs"
  by (induction xs arbitrary: esc pre found)
     (auto simp: apfst_def map_prod_def split: if_splits prod.splits)

lemma dscan_prefix: "dscan e P esc xs = (pre, found) \<Longrightarrow> pre = take (length pre) xs"
  by (induction xs arbitrary: esc pre found)
     (auto simp: apfst_def map_prod_def split: if_splits prod.splits)

lemma dscan_not_found: "dscan e P esc xs = (pre, False) \<Longrightarrow> pre = xs"
  by (induction xs arbitrary: esc pre)
     (auto simp: apfst_def map_prod_def split: if_splits prod.splits)

lemma dscan_found_nonempty: "dscan e P esc xs = (pre, True) \<Longrightarrow> pre \<noteq> [] \<and> P (last pre)"
  by (induction xs arbitrary: esc pre)
     (auto simp: apfst_def map_prod_def split: if_splits prod.splits)

text \<open>Without an escape character this is the text up to the first delimiter.\<close>

lemma dscan_noescape:
  "dscan 0 P esc xs =
     (takeWhile (\<lambda>c. \<not> P c) xs @ take 1 (dropWhile (\<lambda>c. \<not> P c) xs), \<exists>c \<in> set xs. P c)"
  by (induction xs) auto

lemma dscan_cong:
  "(\<And>c. c \<in> set xs \<Longrightarrow> P c = Q c) \<Longrightarrow> dscan e P esc xs = dscan e Q esc xs"
  by (induction xs arbitrary: esc) auto

lemma blit_Cons: "i + Suc (length xs) \<le> length str \<Longrightarrow> blit (str[i := c]) (Suc i) xs = blit str i (c # xs)"
  using blit_adjacent [of i "[c]" xs str] by (simp add: blit_single)

lemma ring_read_next:
  assumes "b_wf b" and "p < buf_size b"
  shows "ring_read (buf_area b) p (Suc k) =
    buf_area b ! p # ring_read (buf_area b) (b_next b p) k"
  using assms b_wfD [OF assms(1)] ring_read_mod [of "buf_area b" "Suc p" k]
  by (simp add: ring_read_Suc b_next_eq)

lemma b_next_less: "b_wf b \<Longrightarrow> p < buf_size b \<Longrightarrow> b_next b p < buf_size b"
  by (simp add: b_next_eq)

lemma getdelim_loop_eq:
  assumes "b_wf b" and "p < buf_size b" and "i + mx \<le> length str"
    and "dscan e (delim_test dm) esc (ring_read (buf_area b) p mx) = (pre, found)"
  shows "getdelim_loop b dm e esc str i p mx =
    Some (blit str i pre, i + length pre, mx - length pre, found)"
  using assms
proof (induction mx arbitrary: str i p esc pre)
  case 0
  then show ?case by simp
next
  case (Suc mx)
  note d = b_wfD [OF Suc.prems(1)]
  let ?c = "buf_area b ! p"
  let ?xs = "ring_read (buf_area b) (b_next b p) mx"
  have ld: "ld (buf_area b) p = Some ?c" and st: "st str i ?c = Some (str[i := ?c])"
    using Suc.prems d by (simp_all add: mem_simps)
  have split: "dscan e (delim_test dm) esc (?c # ?xs) = (pre, found)"
    using Suc.prems(4) ring_read_next [OF Suc.prems(1,2)] by simp
  have rec: "getdelim_loop b dm e esc' (str[i := ?c]) (i + 1) (b_next b p) mx =
      Some (blit str i (?c # pre'), i + length (?c # pre'), Suc mx - length (?c # pre'), found)"
    if "dscan e (delim_test dm) esc' ?xs = (pre', found)" for esc' pre'
    using Suc.IH [OF Suc.prems(1) b_next_less [OF Suc.prems(1,2)] _ that, of "i + 1" "str[i := ?c]"]
      Suc.prems(3) dscan_length [OF that] by (simp add: blit_Cons)
  show ?case
    using split rec ld st Suc.prems(3)
    by (auto simp: apfst_def map_prod_def blit_single split: if_splits prod.splits)
qed

lemma getline_loop_eq_getdelim:
  assumes "\<And>c. delim_test dm c \<longleftrightarrow> c = 10"
  shows "getline_loop b str i p mx =
    map_option (\<lambda>(str, i, mx, found). (str, i, mx)) (getdelim_loop b dm 0 esc str i p mx)"
proof (induction mx arbitrary: str i p)
  case 0
  then show ?case by simp
next
  case (Suc mx)
  then show ?case
    by (auto simp: assms option.map_comp comp_def split: option.splits
        simp del: bind_eq_Some_conv)
       (cases "ld (buf_area b) p"; auto simp: assms st_def Suc.IH)
qed

text \<open>The byte map has one bit per byte value.\<close>

lemma unat_shift_3: "unat (drop_bit 3 (x::byte)) = unat x div 8"
  by (simp only: unat_drop_bit_eq) (simp add: drop_bit_eq_div)

lemma unat_low_3: "unat ((x::byte) AND 7) = unat x mod 8"
proof -
  have "x AND 7 = take_bit 3 x" by (simp add: take_bit_eq_mask mask_eq_exp_minus_1)
  then show ?thesis by (simp add: unat_mod take_bit_eq_mod)
qed

lemma byte_div_mod_eq: "(b::byte) = c \<longleftrightarrow>
    unat (drop_bit 3 b) = unat (drop_bit 3 c) \<and> unat (b AND 7) = unat (c AND 7)"
  unfolding unat_shift_3 unat_low_3 by (metis div_mult_mod_eq word_unat_eq_iff)

lemma unat_and_7: "unat (b AND 7 :: byte) < 8"
  by (simp add: unat_low_3)

lemma unat_drop_bit_3: "unat (drop_bit 3 b :: byte) < 32"
proof -
  have "unat b < 256" using unsigned_less [of b] by simp
  then show ?thesis unfolding unat_shift_3 by (simp add: less_mult_imp_div_less)
qed

lemma delim_test_bit: "delim_test m b \<longleftrightarrow> bit (m ! unat (drop_bit 3 b)) (unat (b AND 7))"
  by (simp add: delim_test_def push_bit_eq_mult and_exp_eq_0_iff_not_bit)

lemma delim_test_set:
  assumes "length m = 32"
  shows "delim_test (m[unat (drop_bit 3 c) := m ! unat (drop_bit 3 c) OR
      push_bit (unat (c AND 7)) 1]) b \<longleftrightarrow> delim_test m b \<or> b = c"
  unfolding delim_test_bit byte_div_mod_eq [of b c]
  using assms unat_drop_bit_3 [of c] unat_and_7 [of b] unat_and_7 [of c]
  by (auto simp: nth_list_update bit_or_iff bit_push_bit_iff bit_1_iff simp del: push_bit_of_1)

lemma delim_map_of_test:
  "length m = 32 \<Longrightarrow>
   delim_test (delim_map_of m delim) b \<longleftrightarrow> delim_test m b \<or> b \<in> set (takeWhile (\<lambda>c. c \<noteq> 0) delim)"
  by (induction m delim rule: delim_map_of.induct) (auto simp: delim_test_set simp del: push_bit_of_1)

lemma delim_map_of_zero:
  "delim_test (delim_map_of (replicate 32 0) delim) b \<longleftrightarrow> b \<in> set (takeWhile (\<lambda>c. c \<noteq> 0) delim)"
  using delim_map_of_test [of "replicate 32 0"] unat_drop_bit_3 [of b]
  by (simp add: delim_test_def)

text \<open>A delimited read copies the text up to the delimiter and returns its length, or 0 when there
  is no delimiter among the bytes looked at.\<close>

lemma b_getdelim_correct:
  assumes wf: "b_wf b" and count: "0 < count" "offset + count \<le> buf_data b"
    and len: "len \<le> length str"
    and scan: "dscan escape (\<lambda>c. c \<in> set (takeWhile (\<lambda>c. c \<noteq> 0) delim)) False
        (take (min len count) (drop offset (b_list b))) = (pre, found)"
  obtains str' where "b_getdelim b offset count str len delim escape =
      Some (if found then length pre else 0, str')"
    and "length str' = length str" and "take (length pre) str' = pre"
    and "length pre < min len count \<Longrightarrow> str' ! length pre = 0"
proof -
  note d = b_wfD [OF wf]
  let ?mx = "min len count"
  define dm where "dm = delim_map_of (replicate 32 0) delim"
  define str0 where "str0 = (if len > count then str[count - 1 := 0] else str)"
  have n: "0 < buf_size b" using count d by linarith
  have l0: "length str0 = length str" by (simp add: str0_def)
  have xs: "take ?mx (drop offset (b_list b)) = ring_read (buf_area b) (b_peek b offset) ?mx"
  proof -
    have "take ?mx (drop offset (b_list b)) = ring_read (buf_area b) (buf_head b + offset) ?mx"
      using count by (simp add: b_list_def min_absorb1 min_absorb2)
    then show ?thesis
      using wf n count d ring_read_mod [of "buf_area b" "buf_head b + offset" ?mx]
      by (simp add: b_peek_eq)
  qed
  have scan': "dscan escape (delim_test dm) False (ring_read (buf_area b) (b_peek b offset) ?mx) =
      (pre, found)"
    using scan unfolding xs by (simp add: dm_def delim_map_of_zero cong: dscan_cong)
  have pre: "length pre \<le> ?mx" using dscan_length [OF scan'] by simp
  have p: "b_peek b offset < buf_size b" using wf n count d by (simp add: b_peek_eq)
  have loop: "getdelim_loop b dm escape False str0 0 (b_peek b offset) ?mx =
      Some (blit str0 0 pre, length pre, ?mx - length pre, found)"
    using getdelim_loop_eq [OF wf p _ scan', of 0 str0] len l0 by simp
  define str' where "str' = (if length pre < ?mx then (blit str0 0 pre)[length pre := 0]
      else blit str0 0 pre)"
  have lb: "length (blit str0 0 pre) = length str" using l0 pre len by simp
  have m: "(if len > count then count else len) = ?mx" by auto
  have s0: "(if len > count then st str (?mx - 1) 0 else Some str) = Some str0"
    using count len by (auto simp: str0_def mem_simps min_def)
  have "sz_add offset count = offset + count" using count d by (simp add: sz_simps)
  then have "b_getdelim b offset count str len delim escape =
      Some (if found then length pre else 0, str')"
    using count pre len lb m loop s0 scan'
    unfolding b_getdelim_def Let_def m dm_def [symmetric]
    by (cases found) (auto simp: b_data_def str'_def mem_simps dest: dscan_found_nonempty)
  moreover have "length str' = length str" by (simp add: str'_def lb)
  moreover have "take (length pre) str' = pre" by (simp add: str'_def blit_def)
  moreover have "str' ! length pre = 0" if "length pre < ?mx"
    using that lb len by (simp add: str'_def)
  ultimately show thesis by (rule that)
qed

text \<open>\<^verbatim>\<open>b_getline\<close> is the delimited read for a newline without escapes.\<close>

lemma newline_map: "delim_test (delim_map_of (replicate 32 0) [10]) c \<longleftrightarrow> c = 10"
  using delim_map_of_zero [of "[10]" c] by (simp del: delim_map_of.simps)

lemma b_getline_eq:
  assumes wf: "b_wf b" and len: "len \<le> length str"
    and ofs: "offset + count < 18446744073709551616"
  shows "b_getline b offset count str len = b_getdelim b offset count str len [10] 0"
proof (cases "count = 0 \<or> sz_add offset count > b_data b")
  case True
  then show ?thesis by (simp add: b_getline_def b_getdelim_def Let_def)
next
  case False
  note d = b_wfD [OF wf]
  let ?mx = "min len count"
  define dm where "dm = delim_map_of (replicate 32 0) [10]"
  define str0 where "str0 = (if len > count then str[count - 1 := 0] else str)"
  have m: "(if len > count then count else len) = ?mx" by auto
  have s0: "(if len > count then st str (?mx - 1) 0 else Some str) = Some str0"
    using False len by (auto simp: str0_def mem_simps min_def)
  show ?thesis
  proof (cases "?mx = 0")
    case True
    then show ?thesis
      using False m s0 unfolding b_getline_def b_getdelim_def Let_def m by simp
  next
    case mx: False
    have n: "0 < buf_size b" and le: "offset \<le> buf_size b"
      using False ofs d by (auto simp: b_data_def sz_simps)
    have p: "b_peek b offset < buf_size b" using wf n le by (simp add: b_peek_eq)
    obtain pre found where scan: "dscan 0 (delim_test dm) False
        (ring_read (buf_area b) (b_peek b offset) ?mx) = (pre, found)" by fastforce
    have pre: "length pre \<le> ?mx" using dscan_length [OF scan] by simp
    have loop: "getdelim_loop b dm 0 False str0 0 (b_peek b offset) ?mx =
        Some (blit str0 0 pre, length pre, ?mx - length pre, found)"
      using getdelim_loop_eq [OF wf p _ scan, of 0 str0] len by (simp add: str0_def)
    have last: "blit str0 0 pre ! (length pre - 1) = 10 \<longleftrightarrow> found" if "pre \<noteq> []"
    proof -
      have "blit str0 0 pre ! (length pre - 1) = last pre"
        using that by (simp add: blit_def nth_append last_conv_nth)
      moreover have "last pre \<noteq> 10" if "\<not> found"
      proof -
        from scan that have "pre = ring_read (buf_area b) (b_peek b offset) ?mx"
          by (intro dscan_not_found) simp
        then have "\<not> (\<exists>c \<in> set pre. delim_test dm c)"
          using scan that unfolding dscan_noescape by blast
        then have "\<not> (\<exists>c \<in> set pre. c = 10)" unfolding dm_def newline_map .
        then show ?thesis using \<open>pre \<noteq> []\<close> last_in_set by blast
      qed
      ultimately show ?thesis
        using dscan_found_nonempty [of 0 "delim_test dm" False _ pre] scan
        by (cases found) (simp_all add: dm_def newline_map del: delim_map_of.simps)
    qed
    have loop': "getline_loop b str0 0 (b_peek b offset) ?mx =
        Some (blit str0 0 pre, length pre, ?mx - length pre)"
      using getline_loop_eq_getdelim [of dm b str0 0 "b_peek b offset" ?mx False] loop
      by (simp add: dm_def newline_map del: delim_map_of.simps)
    have "length pre - 1 < length (blit str0 0 pre)" if "pre \<noteq> []"
      using that pre len by (cases pre) (simp_all add: str0_def)
    then have "ld (blit str0 0 pre) (length pre - 1) = Some (blit str0 0 pre ! (length pre - 1))"
      if "pre \<noteq> []" using that by (simp add: mem_simps)
    then show ?thesis
      using False s0 loop loop' last
      unfolding b_getline_def b_getdelim_def Let_def m dm_def [symmetric]
      by (cases "pre = []") simp_all
  qed
qed

section \<open>Replacing a block\<close>

text \<open>On data that end before the end of the area, \<^verbatim>\<open>b_rep_blk\<close> replaces a part of the content
  when the result still fits without wrapping, and otherwise changes nothing.\<close>

lemma b_rep_blk_no_space:
  assumes wf: "b_wf b" and nowrap: "buf_head b + buf_data b < buf_size b"
    and siz: "buf_size b < 2147483648" "len < 2147483648"
    and pos: "buf_head b \<le> pos" "pos \<le> epos" "epos \<le> buf_head b + buf_data b"
    and big: "buf_head b + buf_data b + len > buf_size b + (epos - pos)"
  shows "b_rep_blk b pos epos blk len = Some (0, b)"
proof -
  note d = b_wfD [OF wf]
  have "to_int32 (int len - (int epos - int pos)) = int len - (int epos - int pos)"
    using siz pos nowrap by (intro to_int32_small) auto
  moreover have "raw_b_tail b = buf_head b + buf_data b"
    using d by (simp add: b_ofs_defs sz_simps)
  moreover have "int (buf_head b + buf_data b) + (int len - (int epos - int pos)) > int (buf_size b)"
    using big pos by linarith
  ultimately show ?thesis
    using pos nowrap by (simp add: b_rep_blk_def Let_def b_wrap_def b_orig_def)
qed

lemma b_rep_blk_correct:
  assumes wf: "b_wf b" and nowrap: "buf_head b + buf_data b < buf_size b"
    and siz: "buf_size b < 2147483648" "len < 2147483648" "len \<le> length blk"
    and pos: "buf_head b \<le> pos" "pos \<le> epos" "epos \<le> buf_head b + buf_data b"
    and fits: "buf_head b + buf_data b + len \<le> buf_size b + (epos - pos)"
  obtains b' where "b_rep_blk b pos epos blk len = Some (int len - (int epos - int pos), b')"
    and "b_wf b'" and "buf_size b' = buf_size b"
    and "b_list b' = take (pos - buf_head b) (b_list b) @ take len blk @
        drop (epos - buf_head b) (b_list b)"
proof -
  note d = b_wfD [OF wf]
  let ?n = "buf_size b" let ?h = "buf_head b" let ?k = "buf_data b" let ?a = "buf_area b"
  let ?t = "?h + ?k"
  define delta where "delta = int len - (int epos - int pos)"
  have delta: "to_int32 (int len - (int epos - int pos)) = delta"
    using siz pos nowrap unfolding delta_def by (intro to_int32_small) auto
  have tails: "raw_b_tail b = ?t" "b_tail b = ?t" "b_head b = ?h" "b_wrap b = ?n"
    using wf d nowrap by (simp_all add: b_ofs_defs sz_simps b_peek_ofs_eq)
  have to: "nat (int epos + delta) = pos + len" using pos by (simp add: delta_def)
  define mid where "mid = take (?t - epos) (drop epos ?a)"
  define ar where "ar = blit (blit ?a (pos + len) mid) pos (take len blk)"
  have lm: "length mid = ?t - epos" using d nowrap by (simp add: mid_def)
  have fit: "pos + len + length mid \<le> ?n" using fits pos lm by linarith
  have la: "length ar = ?n" using fit d siz by (simp add: ar_def)
  have second: "(if len \<noteq> 0 then rd blk 0 len \<bind> wr (blit ?a (pos + len) mid) pos
      else Some (blit ?a (pos + len) mid)) = Some ar"
    using fit d siz by (auto simp: ar_def mem_simps)
  define b1 where "b1 = b\<lparr>buf_area := ar, buf_data := ?k + len - (epos - pos)\<rparr>"
  have add: "b_add (b\<lparr>buf_area := ar\<rparr>) (usz delta) = b1"
  proof -
    have "usz delta = sz_sub len (epos - pos)"
      using siz pos nowrap usz_diff [of "epos - pos" len] by (simp add: delta_def of_nat_diff)
    moreover have "sz_add ?k (sz_sub len (epos - pos)) = ?k + len - (epos - pos)"
      using sz_add_sub [of "epos - pos" len ?k] pos nowrap siz
      by (simp add: sz_add_def add.commute)
    ultimately show ?thesis by (simp add: b_add_def b1_def)
  qed
  have guards: "\<not> int epos + delta < 0" "\<not> int (?h + ?k) + delta > int ?n"
    using pos fits by (simp_all add: delta_def)
  have "b_rep_blk b pos epos blk len = Some (delta, b_realign_if_empty b1)"
    using guards pos nowrap tails d fit lm second add to
    by (auto simp: b_rep_blk_def Let_def delta b_orig_def b_data_def mem_simps simp flip: mid_def)
  moreover have wf1: "b_wf b1" using la d pos fits nowrap by (auto simp: b_wf_def b1_def)
  moreover have "b_list b1 = take (pos - ?h) (b_list b) @ take len blk @ drop (epos - ?h) (b_list b)"
  proof -
    have ac: "ar = take pos ?a @ take len blk @ mid @ drop (pos + len + length mid) ?a"
      using fit d siz pos nowrap by (simp add: ar_def blit_def min_absorb1 min_absorb2)
    have k1: "?k + len - (epos - pos) = (pos - ?h) + len + length mid" using pos lm by linarith
    have "b_list b1 = take (?k + len - (epos - pos)) (drop ?h ar)"
      using la pos fits nowrap d by (simp add: b_list_def b1_def ring_read_contig)
    also have "\<dots> = drop ?h (take pos ?a) @ take len blk @ mid"
      unfolding k1 ac using pos d nowrap siz by (simp add: min_absorb1 min_absorb2)
    also have "drop ?h (take pos ?a) = take (pos - ?h) (b_list b)"
      using pos nowrap d by (simp add: b_list_def ring_read_contig drop_take min_absorb1)
    also have "mid = drop (epos - ?h) (b_list b)"
      using pos nowrap d by (simp add: b_list_def ring_read_contig mid_def drop_take add.commute)
    finally show ?thesis .
  qed
  moreover have "buf_size (b_realign_if_empty b1) = ?n"
    by (simp add: b_realign_if_empty_def b1_def)
  ultimately show thesis
    using b_realign_if_empty_correct [OF wf1] by (intro that [of "b_realign_if_empty b1"]) (simp_all add: delta_def)
qed

section \<open>Buffers are byte queues\<close>

text \<open>A reader takes a block with \<^verbatim>\<open>b_getblk\<close> at the head and removes it with \<^verbatim>\<open>b_del\<close>.\<close>

abbreviation b_get_del :: "buffer \<Rightarrow> nat \<Rightarrow> (bytes \<times> buffer) option" where
  "b_get_del b n \<equiv> b_getblk b n 0 \<bind> (\<lambda>(_, xs). Some (xs, b_del b n))"

abbreviation b_put_all :: "buffer \<Rightarrow> bytes \<Rightarrow> (nat \<times> buffer) option" where
  "b_put_all b xs \<equiv> b_putblk b xs (length xs)"

interpretation bq: byte_queue b_wf b_list buf_size b_put_all b_get_del b_data
proof unfold_locales
  fix b :: buffer and xs :: bytes and n
  assume wf: "b_wf b"
  show "b_data b = length (b_list b)" by (simp add: b_data_def)
  show "length (b_list b) \<le> buf_size b" using b_wfD [OF wf] by simp
  obtain b' where "b_put_all b xs = Some (min (length xs) (buf_size b - buf_data b), b')"
    and "b_wf b'" and "b_list b' = b_list b @ take (min (length xs) (buf_size b - buf_data b)) xs"
    and "buf_size b' = buf_size b"
    by (rule b_putblk_correct [OF wf order_refl])
  moreover have "take (min (length xs) k) xs = take k xs" for k by (simp add: min_def)
  ultimately show "\<exists>b'. b_put_all b xs = Some (min (length xs) (buf_size b - length (b_list b)), b') \<and>
      b_wf b' \<and> b_list b' = b_list b @ take (buf_size b - length (b_list b)) xs \<and>
      buf_size b' = buf_size b"
    by (intro exI [of _ b']) (simp del: take_all_iff)
  assume "n \<le> length (b_list b)"
  then show "\<exists>b'. b_get_del b n = Some (take n (b_list b), b') \<and> b_wf b' \<and>
      b_list b' = drop n (b_list b) \<and> buf_size b' = buf_size b"
    using b_getblk_eq [OF wf, of 0 n] b_del_correct [OF wf, of n] by simp
qed

section \<open>Properties\<close>

text \<open>C4. A buffer is a FIFO of bytes: in any sequence of \<^verbatim>\<open>b_putblk\<close> (which takes what fits) and of
  reads with \<^verbatim>\<open>b_getblk\<close> followed by \<^verbatim>\<open>b_del\<close>, every operation stays inside the area and returns, the
  buffer stays well formed, and what was there followed by what was accepted is what was read followed
  by what is left, in order, across any wrapping.\<close>

theorem buffer_fifo:
  assumes "b_wf b"
  shows "\<exists>acc out b'. queue_run b_put_all b_get_del b_data ops b = Some (acc, out, b') \<and> b_wf b' \<and>
    b_list b @ acc = out @ b_list b' \<and> buf_size b' = buf_size b"
  using assms by (rule bq.run_fifo)

theorem buffer_fifo_witness:
  "\<exists>acc out b'. queue_run b_put_all b_get_del b_data [Put [1, 2, 3], Get 2, Put [4, 5, 6]]
      (b_make [0, 0, 0, 0] 4 3 0) = Some (acc, out, b') \<and> b_wf b' \<and>
    b_list (b_make [0, 0, 0, 0] 4 3 0) @ acc = out @ b_list b' \<and>
    buf_size b' = buf_size (b_make [0, 0, 0, 0] 4 3 0)"
  by (rule buffer_fifo) (simp add: b_wf_def b_make_def)

text \<open>\<^verbatim>\<open>b_putblk\<close> returns how much of the block there was room for and appends exactly that; it
  neither moves the head nor touches what was stored before.\<close>

theorem b_putblk_appends:
  assumes "b_wf b" and "len \<le> length blk"
  shows "\<exists>b'. b_putblk b blk len = Some (min len (b_room b), b') \<and> b_wf b' \<and>
    b_list b' = b_list b @ take (min len (b_room b)) blk \<and> buf_head b' = buf_head b \<and>
    buf_size b' = buf_size b"
  using b_putblk_correct [OF assms] assms by (metis b_room_eq)

theorem b_putblk_appends_witness:
  "\<exists>b'. b_putblk (b_make [1, 2, 3, 4] 4 3 2) [5, 6, 7] 3 = Some (min 3 (b_room (b_make [1, 2, 3, 4] 4 3 2)), b') \<and>
    b_wf b' \<and> b_list b' = b_list (b_make [1, 2, 3, 4] 4 3 2) @ take (min 3 (b_room (b_make [1, 2, 3, 4] 4 3 2))) [5, 6, 7] \<and>
    buf_head b' = buf_head (b_make [1, 2, 3, 4] 4 3 2) \<and> buf_size b' = buf_size (b_make [1, 2, 3, 4] 4 3 2)"
  by (rule b_putblk_appends) (simp_all add: b_wf_def b_make_def)

text \<open>C5. \<^verbatim>\<open>b_xfer\<close> moves the first \<open>count\<close> bytes of the source, or all it has, to the end of the
  destination, whether it copies them or exchanges the two areas; \<^verbatim>\<open>b_force_xfer\<close>, which always copies,
  has the same effect on the contents.\<close>

theorem b_xfer_moves:
  assumes "b_wf dst" and "b_wf src" and "buf_data dst + min count (buf_data src) \<le> buf_size dst"
  shows "\<exists>dst' src'. b_xfer dst src count = Some (min count (buf_data src), dst', src') \<and>
    b_wf dst' \<and> b_wf src' \<and> b_list dst' = b_list dst @ take count (b_list src) \<and>
    b_list src' = drop count (b_list src) \<and>
    (\<exists>dst'' src''. b_force_xfer dst src count = Some (min count (buf_data src), dst'', src'') \<and>
      b_list dst'' = b_list dst' \<and> b_list src'' = b_list src')"
proof -
  obtain dst' src' where x: "b_xfer dst src count = Some (min count (buf_data src), dst', src')"
    "b_wf dst'" "b_wf src'" "b_list dst' = b_list dst @ take count (b_list src)"
    "b_list src' = drop count (b_list src)"
    by (rule b_xfer_correct [OF assms])
  obtain dst'' src'' where "b_force_xfer dst src count = Some (min count (buf_data src), dst'', src'')"
    "b_wf dst''" "b_wf src''" "b_list dst'' = b_list dst @ take count (b_list src)"
    "b_list src'' = drop count (b_list src)"
    by (rule b_force_xfer_correct [OF assms])
  with x show ?thesis by simp
qed

theorem b_xfer_moves_witness:
  "\<exists>dst' src'. b_xfer (b_make [1, 2, 3] 3 0 1) (b_make [4, 5, 6] 3 2 2) 2 =
      Some (min 2 (buf_data (b_make [4, 5, 6] 3 2 2)), dst', src') \<and> b_wf dst' \<and> b_wf src' \<and>
    b_list dst' = b_list (b_make [1, 2, 3] 3 0 1) @ take 2 (b_list (b_make [4, 5, 6] 3 2 2)) \<and>
    b_list src' = drop 2 (b_list (b_make [4, 5, 6] 3 2 2)) \<and>
    (\<exists>dst'' src''. b_force_xfer (b_make [1, 2, 3] 3 0 1) (b_make [4, 5, 6] 3 2 2) 2 =
        Some (min 2 (buf_data (b_make [4, 5, 6] 3 2 2)), dst'', src'') \<and>
      b_list dst'' = b_list dst' \<and> b_list src'' = b_list src')"
  by (rule b_xfer_moves) (simp_all add: b_wf_def b_make_def)

text \<open>C6. \<^verbatim>\<open>b_insert_blk\<close> inserts the block at the offset, on data that wrap or not, and returns its length
  as an \<^verbatim>\<open>int\<close>: the length itself below 2147483648, and what the conversion makes of it above. It refuses with
  0, and changes nothing, what does not fit.\<close>

theorem b_insert_blk_inserts:
  assumes "b_wf b" and "off \<le> buf_data b" and "0 < len" and "len \<le> length blk"
  shows "(buf_data b + len \<le> buf_size b \<longrightarrow> (\<exists>b'. b_insert_blk b off blk len = Some (to_int32 (int len), b') \<and> b_wf b' \<and>
      b_list b' = take off (b_list b) @ take len blk @ drop off (b_list b))) \<and>
    (buf_size b < buf_data b + len \<longrightarrow> b_insert_blk b off blk len = Some (0, b))"
proof (intro conjI impI)
  assume "buf_data b + len \<le> buf_size b"
  then show "\<exists>b'. b_insert_blk b off blk len = Some (to_int32 (int len), b') \<and> b_wf b' \<and>
      b_list b' = take off (b_list b) @ take len blk @ drop off (b_list b)"
    using b_insert_blk_correct [OF assms] by metis
next
  assume "buf_size b < buf_data b + len"
  then have "len > b_room b" using assms b_wfD [OF assms(1)] by (simp add: b_room_eq)
  then show "b_insert_blk b off blk len = Some (0, b)" by (simp add: b_insert_blk_def)
qed

theorem b_insert_blk_inserts_witness:
  "\<exists>b'. b_insert_blk (b_make [1, 2, 3, 4, 5] 5 3 3) 1 [8, 9] 2 = Some (2, b') \<and> b_wf b' \<and>
    b_list b' = [4, 8, 9, 5, 1]"
  using b_insert_blk_inserts [of "b_make [1, 2, 3, 4, 5] 5 3 3" 1 2 "[8, 9]"]
  by (simp add: b_wf_def b_make_def b_list_def ring_read_def upt_rec to_int32_def)

text \<open>C7. \<^verbatim>\<open>b_slow_realign\<close> keeps the content, puts the bytes after \<open>output\<close> at the beginning of
  the area in one block and the \<open>output\<close> first ones at its end.\<close>

theorem b_slow_realign_keeps:
  assumes "b_wf b" and "output \<le> buf_data b" and "buf_size b \<le> length swap"
  shows "\<exists>b'. b_slow_realign b swap output = Some b' \<and> b_wf b' \<and> b_list b' = b_list b \<and>
    take (buf_data b - output) (buf_area b') = drop output (b_list b) \<and>
    buf_head b' = (if output = 0 then 0 else buf_size b - output)"
  using b_slow_realign_correct [OF assms] by metis

theorem b_slow_realign_keeps_witness:
  "\<exists>b'. b_slow_realign (b_make [1, 2, 3, 4] 4 3 3) [0, 0, 0, 0] 1 = Some b' \<and> b_wf b' \<and>
    b_list b' = b_list (b_make [1, 2, 3, 4] 4 3 3) \<and>
    take (buf_data (b_make [1, 2, 3, 4] 4 3 3) - 1) (buf_area b') = drop 1 (b_list (b_make [1, 2, 3, 4] 4 3 3)) \<and>
    buf_head b' = (if (1::nat) = 0 then 0 else buf_size (b_make [1, 2, 3, 4] 4 3 3) - 1)"
  by (rule b_slow_realign_keeps) (simp_all add: b_wf_def b_make_def)

text \<open>C8. \<^verbatim>\<open>b_getdelim\<close> copies the bytes up to and including the first delimiter that is not escaped
  and returns their number; when there is none among the \<open>min len count\<close> bytes it looks at it returns
  0. \<^verbatim>\<open>b_getline\<close> is the same function for the newline without an escape character.\<close>

theorem b_getdelim_reads:
  assumes "b_wf b" and "0 < count" and "offset + count \<le> buf_data b" and "len \<le> length str"
  shows "\<exists>pre found str'. dscan escape (\<lambda>c. c \<in> set (takeWhile (\<lambda>c. c \<noteq> 0) delim)) False
      (take (min len count) (drop offset (b_list b))) = (pre, found) \<and>
    b_getdelim b offset count str len delim escape = Some (if found then length pre else 0, str') \<and>
    length str' = length str \<and> take (length pre) str' = pre \<and>
    b_getline b offset count str len = b_getdelim b offset count str len [10] 0"
proof -
  obtain pre found where scan: "dscan escape (\<lambda>c. c \<in> set (takeWhile (\<lambda>c. c \<noteq> 0) delim)) False
      (take (min len count) (drop offset (b_list b))) = (pre, found)" by fastforce
  obtain str' where "b_getdelim b offset count str len delim escape =
      Some (if found then length pre else 0, str')" "length str' = length str" "take (length pre) str' = pre"
    by (rule b_getdelim_correct [OF assms scan])
  moreover have "b_getline b offset count str len = b_getdelim b offset count str len [10] 0"
    using assms b_wfD [OF assms(1)] by (intro b_getline_eq) auto
  ultimately show ?thesis using scan by auto
qed

theorem b_getdelim_reads_witness:
  "\<exists>pre found str'. dscan 92 (\<lambda>c. c \<in> set (takeWhile (\<lambda>c. c \<noteq> 0) [59, 0])) False
      (take (min 4 4) (drop 0 (b_list (b_make [59, 65, 92, 59] 4 1 4)))) = (pre, found) \<and>
    b_getdelim (b_make [59, 65, 92, 59] 4 1 4) 0 4 [1, 1, 1, 1] 4 [59, 0] 92 =
      Some (if found then length pre else 0, str') \<and>
    length str' = length [1::byte, 1, 1, 1] \<and> take (length pre) str' = pre \<and>
    b_getline (b_make [59, 65, 92, 59] 4 1 4) 0 4 [1, 1, 1, 1] 4 =
      b_getdelim (b_make [59, 65, 92, 59] 4 1 4) 0 4 [1, 1, 1, 1] 4 [10] 0"
  by (rule b_getdelim_reads) (simp_all add: b_wf_def b_make_def)

text \<open>C9. On data that end before the end of the area, \<^verbatim>\<open>b_rep_blk\<close> replaces the bytes between \<open>pos\<close>
  and \<open>end\<close> by the block and returns the change of length when the result fits, and returns 0 without
  any change when it does not.\<close>

theorem b_rep_blk_replaces:
  assumes "b_wf b" and "buf_head b + buf_data b < buf_size b" and "buf_size b < 2147483648"
    and "len < 2147483648" and "len \<le> length blk"
    and "buf_head b \<le> pos" and "pos \<le> epos" and "epos \<le> buf_head b + buf_data b"
  shows "if buf_head b + buf_data b + len \<le> buf_size b + (epos - pos)
    then \<exists>b'. b_rep_blk b pos epos blk len = Some (int len - (int epos - int pos), b') \<and> b_wf b' \<and>
      b_list b' = take (pos - buf_head b) (b_list b) @ take len blk @ drop (epos - buf_head b) (b_list b)
    else b_rep_blk b pos epos blk len = Some (0, b)"
  using b_rep_blk_correct [OF assms] b_rep_blk_no_space [OF assms(1-4,6-8)]
  by (metis not_le_imp_less)

theorem b_rep_blk_replaces_witness:
  "\<exists>b'. b_rep_blk (b_make [0, 1, 2, 3, 0, 0] 6 1 3) 2 3 [7, 8] 2 = Some (1, b') \<and> b_wf b' \<and>
    b_list b' = [1, 7, 8, 3]"
  using b_rep_blk_replaces [of "b_make [0, 1, 2, 3, 0, 0] 6 1 3" 2 "[7, 8]" 2 3]
  by (simp add: b_wf_def b_make_def b_list_def ring_read_def upt_rec to_int32_def)

text \<open>When the data end exactly at the end of the area, \<^verbatim>\<open>b_tail\<close> wraps to its beginning and
  \<^verbatim>\<open>b_rep_blk\<close> asks \<^verbatim>\<open>memmove\<close> for a negative amount of bytes: shortening a block of a full, aligned
  buffer is undefined.\<close>

theorem b_rep_blk_full_undefined:
  "b_wf (b_make [1, 2, 3, 4] 4 0 4) \<and> b_rep_blk (b_make [1, 2, 3, 4] 4 0 4) 0 2 [9] 1 = None"
  by (simp add: b_wf_def b_make_def b_rep_blk_def b_ofs_defs b_peek_ofs_def sz_simps Let_def)

end
