(* ===== verification/BufRing.thy ===== *)
theory BufRing
  imports BufOps
begin

text \<open>
  Buffer rings: the \<^verbatim>\<open>br_*\<close> functions of \<^verbatim>\<open>include/haproxy/buf.h\<close>. A ring is an array of buffers
  whose element 0 is the root: its \<open>size\<close> is the number of elements, its \<open>head\<close> the index of the oldest
  buffer and its \<open>data\<close> the index of the newest one. The \<open>area\<close> of the root is a constant that only
  debugging code looks at. A function that returns a pointer to a buffer of the ring returns its index
  here, and \<open>None\<close> for \<^verbatim>\<open>NULL\<close>.
\<close>

definition br_init :: "buffer list \<Rightarrow> nat \<Rightarrow> buffer list option" where
  "br_init r siz =
     (if siz < 2 then None
      else do {
        r \<leftarrow> st r 0 ((r ! 0)\<lparr>buf_size := siz, buf_head := 1, buf_data := 1\<rparr>);
        st r 1 BUF_NULL
      })"

definition br_size :: "buffer list \<Rightarrow> nat" where
  "br_size r = buf_size (r ! 0) mod 4294967296"

definition br_full :: "buffer list \<Rightarrow> bool" where
  "br_full r \<longleftrightarrow>
     sz_add (buf_data (r ! 0)) 1 = buf_head (r ! 0) \<or>
     sz_add (buf_data (r ! 0)) 1 = sz_add (sz_sub (buf_head (r ! 0)) 1) (buf_size (r ! 0))"

definition br_count :: "buffer list \<Rightarrow> nat" where
  "br_count r =
     (if buf_data (r ! 0) \<ge> buf_head (r ! 0)
      then sz_add (sz_sub (buf_data (r ! 0)) (buf_head (r ! 0))) 1
      else sz_sub (sz_add (buf_data (r ! 0)) (buf_size (r ! 0))) (buf_head (r ! 0))) mod 4294967296"

definition br_single :: "buffer list \<Rightarrow> bool" where
  "br_single r \<longleftrightarrow> buf_data (r ! 0) = buf_head (r ! 0)"

definition br_head_idx :: "buffer list \<Rightarrow> nat" where
  "br_head_idx r = buf_head (r ! 0) mod 4294967296"

definition br_tail_idx :: "buffer list \<Rightarrow> nat" where
  "br_tail_idx r = buf_data (r ! 0) mod 4294967296"

definition br_head :: "buffer list \<Rightarrow> nat" where
  "br_head r = br_head_idx r"

definition br_tail :: "buffer list \<Rightarrow> nat" where
  "br_tail r = br_tail_idx r"

definition br_data :: "buffer list \<Rightarrow> nat option" where
  "br_data r = do { b \<leftarrow> ld r (br_head_idx r); Some (b_data b mod 4294967296) }"

definition br_has_room :: "buffer list \<Rightarrow> nat option" where
  "br_has_room r =
     (if \<not> br_full r then Some 1
      else do { b \<leftarrow> ld r (br_tail_idx r); Some (b_room b mod 4294967296) })"

definition br_tail_add :: "buffer list \<Rightarrow> (nat option \<times> buffer list) option" where
  "br_tail_add r = do {
     b \<leftarrow> ld r (br_tail r);
     if b_size b = 0 then Some (None, r)
     else if br_full r then Some (None, r)
     else do {
       let dat = sz_add (buf_data (r ! 0)) 1;
       let dat = (if dat \<ge> buf_size (r ! 0) then 1 else dat);
       r \<leftarrow> st r 0 ((r ! 0)\<lparr>buf_data := dat\<rparr>);
       let b = br_tail r;
       r \<leftarrow> st r b BUF_NULL;
       Some (Some b, r)
     }
   }"

definition br_next_head :: "buffer list \<Rightarrow> buffer list option" where
  "br_next_head r =
     (if buf_head (r ! 0) \<noteq> buf_data (r ! 0) then do {
        let hea = sz_add (buf_head (r ! 0)) 1;
        let hea = (if hea \<ge> buf_size (r ! 0) then 1 else hea);
        st r 0 ((r ! 0)\<lparr>buf_head := hea\<rparr>)
      } else Some r)"

definition br_head_pick :: "buffer list \<Rightarrow> (nat \<times> buffer list) option" where
  "br_head_pick r = do {
     let b = br_head r;
     r \<leftarrow> br_next_head r;
     Some (b, r)
   }"

definition br_del_head :: "buffer list \<Rightarrow> (nat \<times> buffer list) option" where
  "br_del_head r = do {
     r \<leftarrow> br_next_head r;
     Some (br_head r, r)
   }"

section \<open>A ring as a sequence of buffers\<close>

definition br_wf :: "buffer list \<Rightarrow> bool" where
  "br_wf r \<longleftrightarrow> buf_size (r ! 0) = length r \<and> 2 \<le> length r \<and> length r < 4294967296 \<and>
     0 < buf_head (r ! 0) \<and> buf_head (r ! 0) < length r \<and>
     0 < buf_data (r ! 0) \<and> buf_data (r ! 0) < length r"

definition br_list :: "buffer list \<Rightarrow> buffer list" where
  "br_list r = ring_read (tl r) (buf_head (r ! 0) - 1) (br_count r)"

lemma br_wfD:
  assumes "br_wf r"
  shows "buf_size (r ! 0) = length r" "2 \<le> length r" "length r < 4294967296"
    "0 < buf_head (r ! 0)" "buf_head (r ! 0) < length r" "0 < buf_data (r ! 0)" "buf_data (r ! 0) < length r"
    and "0 < length r" "r \<noteq> []"
  using assms by (auto simp: br_wf_def)

lemma br_count_eq:
  assumes "br_wf r"
  shows "br_count r = (if buf_head (r ! 0) \<le> buf_data (r ! 0) then buf_data (r ! 0) - buf_head (r ! 0) + 1
    else buf_data (r ! 0) + length r - buf_head (r ! 0))"
  using br_wfD [OF assms] by (auto simp: br_count_def sz_simps)

lemma br_count_bounds: "br_wf r \<Longrightarrow> 0 < br_count r \<and> br_count r < length r"
  using br_wfD [of r] by (auto simp: br_count_eq)

lemma br_full_eq:
  assumes "br_wf r"
  shows "br_full r \<longleftrightarrow> br_count r = length r - 1"
  using br_wfD [OF assms] by (auto simp: br_count_eq [OF assms] br_full_def sz_simps)

lemma br_single_eq: "br_wf r \<Longrightarrow> br_single r \<longleftrightarrow> br_count r = 1"
  using br_wfD [of r] by (auto simp: br_count_eq br_single_def)

lemma length_br_list [simp]: "length (br_list r) = br_count r"
  by (simp add: br_list_def)

lemma br_tail_pos:
  assumes "br_wf r"
  shows "(buf_head (r ! 0) - 1 + (br_count r - 1)) mod (length r - 1) = buf_data (r ! 0) - 1"
  using br_wfD [OF assms] by (auto simp: br_count_eq [OF assms] mod_wrap_hi)

lemma br_list_ends:
  assumes "br_wf r"
  shows "hd (br_list r) = r ! br_head r" and "last (br_list r) = r ! br_tail r"
proof -
  note d = br_wfD [OF assms] and c = br_count_bounds [OF assms]
  have ne: "br_list r \<noteq> []" using c length_br_list [of r] by (metis less_numeral_extra(3) list.size(3))
  have cell: "tl r ! (i - 1) = r ! i" if "0 < i" "i < length r" for i
    using that by (simp add: nth_tl)
  show "hd (br_list r) = r ! br_head r"
    using ne c d cell [of "buf_head (r ! 0)"]
    by (simp add: hd_conv_nth br_list_def br_head_def br_head_idx_def)
  show "last (br_list r) = r ! br_tail r"
    using ne c d cell [of "buf_data (r ! 0)"] br_tail_pos [OF assms]
    by (simp add: last_conv_nth br_list_def br_tail_def br_tail_idx_def)
qed

lemma br_next_head_correct:
  assumes wf: "br_wf r"
  obtains r' where "br_next_head r = Some r'" and "br_wf r'"
    and "br_list r' = (if br_count r = 1 then br_list r else tl (br_list r))"
proof (cases "buf_head (r ! 0) = buf_data (r ! 0)")
  case True
  then show thesis
    using wf br_wfD [OF wf] by (intro that [of r]) (simp_all add: br_next_head_def br_count_eq)
next
  case False
  note d = br_wfD [OF wf] and c = br_count_bounds [OF wf]
  define h where "h = (if buf_head (r ! 0) + 1 \<ge> length r then 1 else buf_head (r ! 0) + 1)"
  define r' where "r' = r[0 := (r ! 0)\<lparr>buf_head := h\<rparr>]"
  have r'0: "r' ! 0 = (r ! 0)\<lparr>buf_head := h\<rparr>" "length r' = length r" "tl r' = tl r"
    using d by (simp_all add: r'_def) (metis hd_Cons_tl list.sel(3) list_update_code(2) list_update_nonempty)
  have hb: "0 < h" "h < length r" using d by (auto simp: h_def)
  have nx: "br_next_head r = Some r'"
    using False d by (simp add: br_next_head_def h_def r'_def sz_simps mem_simps)
  have wf': "br_wf r'" using d r'0 hb by (simp add: br_wf_def)
  have cnt: "br_count r' = br_count r - 1"
    using br_count_eq [OF wf'] br_count_eq [OF wf] r'0 d False by (auto simp: h_def)
  have pos: "ring_read (tl r) (h - 1) k = ring_read (tl r) (buf_head (r ! 0)) k" for k
  proof (cases "buf_head (r ! 0) + 1 \<ge> length r")
    case True
    then have "buf_head (r ! 0) = 0 + length (tl r)" using d by simp
    then have "ring_read (tl r) (buf_head (r ! 0)) k = ring_read (tl r) 0 k"
      by (simp only: ring_read_add_length)
    then show ?thesis using True by (simp add: h_def)
  qed (simp add: h_def)
  have "br_list r' = tl (br_list r)"
  proof -
    have "tl (br_list r) = drop 1 (br_list r)" by (simp add: drop_Suc)
    also have "\<dots> = ring_read (tl r) (buf_head (r ! 0)) (br_count r - 1)"
      using d(4) by (simp add: br_list_def)
    finally show ?thesis using pos r'0 cnt by (simp add: br_list_def)
  qed
  moreover have "br_count r \<noteq> 1" using br_single_eq [OF wf] False by (auto simp: br_single_def)
  ultimately show thesis using nx wf' by (intro that [of r']) simp_all
qed

lemma br_tail_add_correct:
  assumes wf: "br_wf r" and siz: "buf_size (last (br_list r)) \<noteq> 0" and room: "br_count r < length r - 1"
  obtains r' where "br_tail_add r = Some (Some (br_tail r'), r')" and "br_wf r'"
    and "br_list r' = br_list r @ [BUF_NULL]" and "length r' = length r"
proof -
  note d = br_wfD [OF wf] and c = br_count_bounds [OF wf]
  define t where "t = (if buf_data (r ! 0) + 1 \<ge> length r then 1 else buf_data (r ! 0) + 1)"
  define r1 where "r1 = r[0 := (r ! 0)\<lparr>buf_data := t\<rparr>]"
  define r' where "r' = r1[t := BUF_NULL]"
  have tb: "0 < t" "t < length r" using d by (auto simp: t_def)
  have r1: "length r1 = length r" "r1 ! 0 = (r ! 0)\<lparr>buf_data := t\<rparr>" "br_tail r1 = t"
    using d tb by (simp_all add: r1_def br_tail_def br_tail_idx_def)
  have r': "length r' = length r" "r' ! 0 = (r ! 0)\<lparr>buf_data := t\<rparr>" "br_tail r' = t"
    using r1 tb by (simp_all add: r'_def br_tail_def br_tail_idx_def)
  have tl': "tl r' = (tl r)[t - 1 := BUF_NULL]"
  proof -
    obtain a as where "r = a # as" using d(9) by (cases r) auto
    then show ?thesis using tb by (simp add: r'_def r1_def list_update.simps split: nat.splits)
  qed
  have "ld r (br_tail r) = Some (last (br_list r))"
    using d br_list_ends(2) [OF wf] by (simp add: br_tail_def br_tail_idx_def mem_simps)
  moreover have "(if sz_add (buf_data (r ! 0)) 1 \<ge> buf_size (r ! 0) then 1
      else sz_add (buf_data (r ! 0)) 1) = t" using d by (simp add: t_def sz_simps)
  moreover have "st r 0 ((r ! 0)\<lparr>buf_data := t\<rparr>) = Some r1" "st r1 t BUF_NULL = Some r'"
    using d r1 tb by (simp_all add: mem_simps r1_def r'_def)
  ultimately have add: "br_tail_add r = Some (Some (br_tail r'), r')"
    using siz room br_full_eq [OF wf] r1(3) r'(3) by (auto simp: br_tail_add_def b_size_def Let_def split: if_splits)
  have wf': "br_wf r'" using d r' tb by (simp add: br_wf_def)
  have cnt: "br_count r' = br_count r + 1"
    using br_count_eq [OF wf'] br_count_eq [OF wf] r' d room by (auto simp: t_def)
  have pos: "t - 1 = (buf_head (r ! 0) - 1 + br_count r) mod length (tl r)"
  proof -
    have "(buf_head (r ! 0) - 1 + br_count r) mod (length r - 1) =
        ((buf_head (r ! 0) - 1 + (br_count r - 1)) + 1) mod (length r - 1)" using c by simp
    also have "\<dots> = (buf_data (r ! 0) - 1 + 1) mod (length r - 1)"
      using br_tail_pos [OF wf] by (metis mod_add_left_eq)
    also have "\<dots> = t - 1"
    proof (cases "buf_data (r ! 0) + 1 \<ge> length r")
      case True
      then have e: "buf_data (r ! 0) - 1 + 1 = length r - 1" using d by linarith
      show ?thesis unfolding e using True by (simp add: t_def)
    qed (use d in \<open>auto simp: t_def\<close>)
    finally show ?thesis by simp
  qed
  have "br_list r' = br_list r @ [BUF_NULL]"
    using ring_read_write [of "buf_head (r ! 0) - 1" "tl r" "br_count r" "[BUF_NULL]"] d room tb pos
    by (simp add: br_list_def cnt r' tl' list_update_ring_write)
  then show thesis using add wf' r' by (intro that [of r']) simp_all
qed

section \<open>Properties\<close>

text \<open>C12. A ring is a queue of buffers. \<^verbatim>\<open>br_tail_add\<close> refuses (\<^verbatim>\<open>NULL\<close>, no change) when the newest
  buffer has no storage or all cells are used; otherwise it appends a \<^verbatim>\<open>BUF_NULL\<close> and returns it.
  \<^verbatim>\<open>br_head_pick\<close> returns the oldest buffer and \<^verbatim>\<open>br_del_head\<close> the one that follows it; both remove the
  oldest buffer, but never the last one left.\<close>

theorem br_queue:
  assumes "br_wf r"
  shows "(if buf_size (last (br_list r)) = 0 \<or> br_count r = length r - 1
      then br_tail_add r = Some (None, r)
      else \<exists>r'. br_tail_add r = Some (Some (br_tail r'), r') \<and> br_wf r' \<and>
        br_list r' = br_list r @ [BUF_NULL]) \<and>
    (\<exists>r'. br_head_pick r = Some (br_head r, r') \<and> br_del_head r = Some (br_head r', r') \<and> br_wf r' \<and>
      br_list r' = (if br_count r = 1 then br_list r else tl (br_list r)))"
proof
  note d = br_wfD [OF assms] and c = br_count_bounds [OF assms]
  have ldt: "ld r (br_tail r) = Some (last (br_list r))"
    using d br_list_ends(2) [OF assms] by (simp add: br_tail_def br_tail_idx_def mem_simps)
  show "if buf_size (last (br_list r)) = 0 \<or> br_count r = length r - 1
      then br_tail_add r = Some (None, r)
      else \<exists>r'. br_tail_add r = Some (Some (br_tail r'), r') \<and> br_wf r' \<and>
        br_list r' = br_list r @ [BUF_NULL]"
  proof (cases "buf_size (last (br_list r)) = 0 \<or> br_count r = length r - 1")
    case True
    then show ?thesis using ldt br_full_eq [OF assms] by (auto simp: br_tail_add_def b_size_def)
  next
    case False
    then have "br_count r < length r - 1" using c by linarith
    then obtain r' where "br_tail_add r = Some (Some (br_tail r'), r')" "br_wf r'"
      "br_list r' = br_list r @ [BUF_NULL]"
      using br_tail_add_correct [OF assms] False by metis
    with False show ?thesis by auto
  qed
  obtain r' where "br_next_head r = Some r'" and "br_wf r'"
    and "br_list r' = (if br_count r = 1 then br_list r else tl (br_list r))"
    by (rule br_next_head_correct [OF assms])
  then show "\<exists>r'. br_head_pick r = Some (br_head r, r') \<and> br_del_head r = Some (br_head r', r') \<and> br_wf r' \<and>
      br_list r' = (if br_count r = 1 then br_list r else tl (br_list r))"
    by (simp add: br_head_pick_def br_del_head_def)
qed

theorem br_queue_witness:
  "\<exists>r'. br_tail_add [b_make [] 3 2 2, BUF_NULL, b_make [0] 1 0 0] = Some (Some (br_tail r'), r') \<and> br_wf r' \<and>
     br_list r' = [b_make [0] 1 0 0, BUF_NULL]"
  using br_queue [of "[b_make [] 3 2 2, BUF_NULL, b_make [0] 1 0 0]"]
  by (simp add: br_wf_def b_make_def br_list_def br_count_def sz_simps ring_read_def)

text \<open>\<^verbatim>\<open>br_init\<close> leaves one empty buffer in the ring, \<^verbatim>\<open>br_count\<close> is the number of buffers of the
  ring, \<^verbatim>\<open>br_full\<close> tells that every cell but the root is used, and the pointers returned by
  \<^verbatim>\<open>br_head\<close> and \<^verbatim>\<open>br_tail\<close> are those of the oldest and of the newest buffer.\<close>

theorem br_init_and_views:
  assumes "2 \<le> length r" and "length r < 4294967296"
  shows "(\<exists>r'. br_init r (length r) = Some r' \<and> br_wf r' \<and> br_list r' = [BUF_NULL]) \<and>
    (br_wf r \<longrightarrow> br_count r = length (br_list r) \<and> br_size r = length r \<and>
      (br_full r \<longleftrightarrow> length (br_list r) = br_size r - 1) \<and> (br_single r \<longleftrightarrow> length (br_list r) = 1) \<and>
      hd (br_list r) = r ! br_head r \<and> last (br_list r) = r ! br_tail r)"
proof (intro conjI impI)
  define r1 where "r1 = r[0 := (r ! 0)\<lparr>buf_size := length r, buf_head := 1, buf_data := 1\<rparr>, 1 := BUF_NULL]"
  have r1: "length r1 = length r" "r1 ! 0 = (r ! 0)\<lparr>buf_size := length r, buf_head := 1, buf_data := 1\<rparr>"
    "tl r1 ! 0 = BUF_NULL"
  proof -
    have "r \<noteq> []" "1 < length r" using assms by auto
    then show "length r1 = length r"
      "r1 ! 0 = (r ! 0)\<lparr>buf_size := length r, buf_head := 1, buf_data := 1\<rparr>" "tl r1 ! 0 = BUF_NULL"
      by (simp_all add: r1_def nth_tl)
  qed
  have "br_init r (length r) = Some r1"
    using assms by (cases r) (auto simp: br_init_def mem_simps r1_def)
  moreover have wf: "br_wf r1" using r1 assms by (simp add: br_wf_def)
  moreover have "br_list r1 = [BUF_NULL]"
    using br_count_eq [OF wf] r1 assms by (simp add: br_list_def ring_read_def)
  ultimately show "\<exists>r'. br_init r (length r) = Some r' \<and> br_wf r' \<and> br_list r' = [BUF_NULL]" by blast
next
  assume wf: "br_wf r"
  note d = br_wfD [OF wf]
  show "br_count r = length (br_list r)" and siz: "br_size r = length r" using d by (simp_all add: br_size_def)
  show "br_full r \<longleftrightarrow> length (br_list r) = br_size r - 1" using br_full_eq [OF wf] siz by simp
  show "br_single r \<longleftrightarrow> length (br_list r) = 1" using br_single_eq [OF wf] by simp
  show "hd (br_list r) = r ! br_head r" and "last (br_list r) = r ! br_tail r"
    by (rule br_list_ends [OF wf])+
qed

theorem br_init_and_views_witness:
  "\<exists>r'. br_init [BUF_NULL, BUF_NULL, BUF_NULL] 3 = Some r' \<and> br_wf r' \<and> br_list r' = [BUF_NULL]"
  using br_init_and_views [of "[BUF_NULL, BUF_NULL, BUF_NULL]"] by (simp add: numeral_3_eq_3)

end
