(* ===== verification/BufList.thy ===== *)
theory BufList
  imports BufOps
begin

text \<open>
  Buffer lists: \<^verbatim>\<open>struct bl_elem\<close> of \<^verbatim>\<open>include/haproxy/buf-t.h\<close> and the \<^verbatim>\<open>bl_*\<close> functions of
  \<^verbatim>\<open>include/haproxy/buf.h\<close> and \<^verbatim>\<open>src/buf.c\<close>. An array of cells holds, linked by their indexes, one
  list of free cells and one list of cells per user. Cell 0 is the head: its \<open>next\<close> is the first free
  cell, its buffer's \<open>size\<close> the number of cells, its \<open>data\<close> the number of cells in use and its \<open>head\<close>
  the number of users. The value \<open>~0\<close> ends a list; in a free cell that was never used, 0 stands for
  the next cell of the array.
\<close>

record bl_elem =
  bl_buf :: buffer
  bl_next :: nat
  bl_flags :: nat

definition BL_END :: nat where
  "BL_END = 4294967295"

definition bl_users :: "bl_elem list \<Rightarrow> nat" where
  "bl_users h = buf_head (bl_buf (h ! 0)) mod 4294967296"

definition bl_size :: "bl_elem list \<Rightarrow> nat" where
  "bl_size h = sz_sub (buf_size (bl_buf (h ! 0))) 1 mod 4294967296"

definition bl_used :: "bl_elem list \<Rightarrow> nat" where
  "bl_used h = buf_data (bl_buf (h ! 0)) mod 4294967296"

definition bl_avail :: "bl_elem list \<Rightarrow> nat" where
  "bl_avail h = (bl_size h + 4294967296 - bl_used h) mod 4294967296"

text \<open>Updates of the head and of a link.\<close>

definition bl_head_upd :: "(buffer \<Rightarrow> buffer) \<Rightarrow> bl_elem list \<Rightarrow> bl_elem list" where
  "bl_head_upd f h = h[0 := (h ! 0)\<lparr>bl_buf := f (bl_buf (h ! 0))\<rparr>]"

definition bl_set_next :: "bl_elem list \<Rightarrow> nat \<Rightarrow> nat \<Rightarrow> bl_elem list option" where
  "bl_set_next h i n = (if i < length h then Some (h[i := (h ! i)\<lparr>bl_next := n\<rparr>]) else None)"

definition bl_init :: "bl_elem list \<Rightarrow> nat \<Rightarrow> bl_elem list option" where
  "bl_init h nbelem =
     (if nbelem > length h \<or> nbelem = 0 then None
      else do {
        h \<leftarrow> wr h 0 (replicate nbelem \<lparr>bl_buf = BUF_NULL, bl_next = 0, bl_flags = 0\<rparr>);
        h \<leftarrow> Some (bl_head_upd (\<lambda>b. b\<lparr>buf_size := nbelem\<rparr>) h);
        bl_set_next h 0 1
      })"

definition bl_put :: "bl_elem list \<Rightarrow> nat \<Rightarrow> (nat \<times> bl_elem list) option" where
  "bl_put h idx = do {
     c \<leftarrow> ld h idx;
     let n = bl_next c;
     let h1 = (if n = BL_END then bl_head_upd (\<lambda>b. b\<lparr>buf_head := sz_sub (buf_head b) 1\<rparr>) h else h);
     let n1 = (if n = BL_END then 0 else n);
     h2 \<leftarrow> bl_set_next h1 idx (if bl_next (h1 ! 0) \<noteq> 0 then bl_next (h1 ! 0) else BL_END);
     h3 \<leftarrow> bl_set_next h2 0 idx;
     Some (n1, bl_head_upd (\<lambda>b. b\<lparr>buf_data := sz_sub (buf_data b) 1\<rparr>) h3)
   }"

definition bl_get :: "bl_elem list \<Rightarrow> nat \<Rightarrow> (nat \<times> bl_elem list) option" where
  "bl_get h idx = do {
     c0 \<leftarrow> ld h 0;
     let e = bl_next c0;
     c \<leftarrow> ld h e;
     let n = bl_next c;
     if n = 0 \<and> e = 0 then Some (e, h)
     else do {
       let n = (if n = 0 \<and> (e + 1) mod 4294967296 \<noteq> buf_size (bl_buf c0) then (e + 1) mod 4294967296 else n);
       h1 \<leftarrow> bl_set_next h 0 (if n = BL_END then 0 else n);
       h2 \<leftarrow> Some (bl_head_upd (\<lambda>b. b\<lparr>buf_data := sz_add (buf_data b) 1\<rparr>) h1);
       h3 \<leftarrow> (if idx \<noteq> 0 then bl_set_next h2 idx e
             else Some (bl_head_upd (\<lambda>b. b\<lparr>buf_head := sz_add (buf_head b) 1\<rparr>) h2));
       h4 \<leftarrow> bl_set_next h3 e BL_END;
       Some (e, h4)
     }
   }"

text \<open>The abstract state: the free cells in order and the cells of every user, in order.
  \<open>bl_seg\<close> says that the cells of a list are linked, \<open>lim\<close> being the number of cells when never used
  cells are allowed and 0 otherwise.\<close>

fun bl_seg :: "bl_elem list \<Rightarrow> nat \<Rightarrow> nat list \<Rightarrow> bool" where
  "bl_seg h lim [] = True"
| "bl_seg h lim [e] = (bl_next (h ! e) = BL_END \<or> bl_next (h ! e) = 0 \<and> e + 1 = lim)"
| "bl_seg h lim (e # f # es) =
     ((bl_next (h ! e) = f \<or> bl_next (h ! e) = 0 \<and> f = e + 1 \<and> lim \<noteq> 0) \<and> bl_seg h lim (f # es))"

definition bl_inv :: "bl_elem list \<Rightarrow> nat list \<Rightarrow> nat list list \<Rightarrow> bool" where
  "bl_inv h free users \<longleftrightarrow>
     length h = buf_size (bl_buf (h ! 0)) \<and> 2 \<le> length h \<and> length h < 4294967295 \<and>
     distinct (free @ concat users) \<and> set (free @ concat users) = {1..<length h} \<and>
     (\<forall>u \<in> set users. u \<noteq> [] \<and> bl_seg h 0 u) \<and> bl_seg h (length h) free \<and>
     bl_next (h ! 0) = (if free = [] then 0 else hd free) \<and>
     buf_data (bl_buf (h ! 0)) = length (concat users) \<and> buf_head (bl_buf (h ! 0)) = length users"

lemma BL_END_nonzero [simp]: "BL_END \<noteq> 0" "0 \<noteq> BL_END"
  by (simp_all add: BL_END_def)

lemma bl_upd_commute [simp]:
  "(c::bl_elem)\<lparr>bl_next := n, bl_buf := b\<rparr> = c\<lparr>bl_buf := b, bl_next := n\<rparr>"
  "(b::buffer)\<lparr>buf_head := x, buf_data := y\<rparr> = b\<lparr>buf_data := y, buf_head := x\<rparr>"
  by simp_all

lemma bl_seg_update:
  "i \<notin> set es \<Longrightarrow> bl_seg (h[i := c]) lim es = bl_seg h lim es"
  by (induction h lim es rule: bl_seg.induct) (auto simp: nth_list_update)

lemma bl_seg_no_lim: "bl_seg h 0 (es @ [e]) \<Longrightarrow> bl_next (h ! e) = BL_END"
  by (induction es rule: induct_list012) auto

lemma bl_seg_snoc:
  assumes "bl_seg h 0 (es @ [e])" and "f \<notin> set (es @ [e])" and "e \<notin> set es" and "e < length h"
    and "f < length h"
  shows "bl_seg (h[e := (h ! e)\<lparr>bl_next := f\<rparr>, f := c\<lparr>bl_next := BL_END\<rparr>]) 0 (es @ [e, f])"
  using assms by (induction es rule: induct_list012) (auto simp: nth_list_update)

lemma bl_seg_tl: "bl_seg h lim (e # es) \<Longrightarrow> bl_seg h lim es"
  by (cases es) auto

lemma bl_invD:
  assumes "bl_inv h free users"
  shows "length h = buf_size (bl_buf (h ! 0))" and "2 \<le> length h" and "length h < 4294967295"
    and "distinct (free @ concat users)" and "set (free @ concat users) = {1..<length h}"
    and "\<And>u. u \<in> set users \<Longrightarrow> u \<noteq> [] \<and> bl_seg h 0 u" and "bl_seg h (length h) free"
    and "bl_next (h ! 0) = (if free = [] then 0 else hd free)"
    and "buf_data (bl_buf (h ! 0)) = length (concat users)"
    and "buf_head (bl_buf (h ! 0)) = length users"
  using assms by (auto simp: bl_inv_def)

lemma bl_invI:
  assumes "length h' = length h" and "2 \<le> length h" and "length h < 4294967295" and "h' ! 0 = z"
    and "buf_size (bl_buf z) = length h" and "buf_data (bl_buf z) = length (concat users)"
    and "buf_head (bl_buf z) = length users" and "bl_next z = (if free = [] then 0 else hd free)"
    and "distinct (free @ concat users)" and "set (free @ concat users) = {1..<length h}"
    and "bl_seg h' (length h) free" and "\<And>u. u \<in> set users \<Longrightarrow> u \<noteq> [] \<and> bl_seg h' 0 u"
  shows "bl_inv h' free users"
  unfolding bl_inv_def using assms by simp

lemma bl_inv_cell:
  assumes "bl_inv h free users" and "e \<in> set (free @ concat users)"
  shows "0 < e" and "e < length h" and "e \<noteq> BL_END"
  using bl_invD(3,5) [OF assms(1)] assms(2) by (auto simp: BL_END_def)

lemma bl_inv_counts:
  assumes "bl_inv h free users"
  shows "length free + length (concat users) = length h - 1" and "length users \<le> length (concat users)"
proof -
  have "card (set (free @ concat users)) = length (free @ concat users)"
    using bl_invD(4) [OF assms] by (rule distinct_card)
  then show "length free + length (concat users) = length h - 1"
    unfolding bl_invD(5) [OF assms] by simp
  have "length us \<le> length (concat us)" if "\<forall>u \<in> set us. u \<noteq> []" for us :: "nat list list"
    using that by (induction us) (auto simp: Suc_le_eq neq_Nil_conv)
  then show "length users \<le> length (concat users)" using bl_invD(6) [OF assms] by blast
qed

text \<open>The free cell that follows the first one.\<close>

lemma bl_seg_next:
  assumes inv: "bl_inv h (e # fs) users"
  shows "(if bl_next (h ! e) = 0 \<and> (e + 1) mod 4294967296 \<noteq> length h then (e + 1) mod 4294967296
      else bl_next (h ! e)) \<in> (if fs = [] then {0, BL_END} else {hd fs})"
proof (cases fs)
  case Nil
  with bl_invD(7) [OF inv] bl_inv_cell [OF inv, of e] bl_invD(3) [OF inv] show ?thesis by auto
next
  case (Cons f fs')
  with bl_invD(3,7) [OF inv] bl_inv_cell [OF inv, of e] bl_inv_cell [OF inv, of f] show ?thesis by auto
qed

definition bl_took :: "bl_elem list \<Rightarrow> nat \<Rightarrow> nat list \<Rightarrow> bl_elem list" where
  "bl_took h e fs = h[0 := (h ! 0)\<lparr>bl_buf := (bl_buf (h ! 0))\<lparr>buf_data := buf_data (bl_buf (h ! 0)) + 1\<rparr>,
       bl_next := (if fs = [] then 0 else hd fs)\<rparr>]"

lemma bl_get_steps:
  assumes inv: "bl_inv h (e # fs) users"
  shows "bl_get h idx = do {
      h3 \<leftarrow> (if idx \<noteq> 0 then bl_set_next (bl_took h e fs) idx e
            else Some (bl_head_upd (\<lambda>b. b\<lparr>buf_head := sz_add (buf_head b) 1\<rparr>) (bl_took h e fs)));
      h4 \<leftarrow> bl_set_next h3 e BL_END;
      Some (e, h4)
    }"
proof -
  note d = bl_invD [OF inv] and c = bl_inv_cell [OF inv, of e]
  define n where "n = (if bl_next (h ! e) = 0 \<and> (e + 1) mod 4294967296 \<noteq> buf_size (bl_buf (h ! 0))
      then (e + 1) mod 4294967296 else bl_next (h ! e))"
  have n: "(if n = BL_END then 0 else n) = (if fs = [] then 0 else hd fs)"
  proof (cases "fs = []")
    case False
    then have "n = hd fs" using bl_seg_next [OF inv] by (simp add: n_def d(1))
    moreover have "hd fs \<noteq> BL_END" using bl_inv_cell(3) [OF inv, of "hd fs"] False by simp
    ultimately show ?thesis using False by simp
  qed (use bl_seg_next [OF inv] d(1) in \<open>auto simp: n_def\<close>)
  have "length (concat users) < length h"
    using bl_inv_counts [OF inv] d(2) by linarith
  then have add: "sz_add (buf_data (bl_buf (h ! 0))) 1 = buf_data (bl_buf (h ! 0)) + 1"
    using d by (simp add: sz_simps)
  have h: "0 < length h" "h \<noteq> []" "bl_next (h ! 0) = e" using d(2,8) by auto
  have took: "bl_set_next h 0 (if n = BL_END then 0 else n) =
      Some (h[0 := (h ! 0)\<lparr>bl_next := (if fs = [] then 0 else hd fs)\<rparr>])"
    "bl_head_upd (\<lambda>b. b\<lparr>buf_data := sz_add (buf_data b) 1\<rparr>)
      (h[0 := (h ! 0)\<lparr>bl_next := (if fs = [] then 0 else hd fs)\<rparr>]) = bl_took h e fs"
    unfolding n using h add by (simp_all add: bl_set_next_def bl_head_upd_def bl_took_def)
  have ld: "ld h 0 = Some (h ! 0)" "ld h e = Some (h ! e)" using h c by (simp_all add: mem_simps)
  have "e \<noteq> 0" using c by simp
  then show ?thesis
    unfolding bl_get_def Let_def
    by (simp only: ld h(3) Option.bind.simps simp_thms if_False n_def [symmetric] took)
qed

text \<open>Every operation keeps the lists apart and linked, and does to them what it promises.\<close>

lemma bl_get_empty: "bl_inv h [] users \<Longrightarrow> bl_get h idx = Some (0, h)"
  by (frule bl_invD(2), frule bl_invD(8))
     (cases "h = []", simp_all add: bl_get_def mem_simps)

lemma bl_get_new:
  assumes inv: "bl_inv h (e # fs) users"
  shows "\<exists>h'. bl_get h 0 = Some (e, h') \<and> bl_inv h' fs (users @ [[e]])"
proof -
  note d = bl_invD [OF inv] and c = bl_inv_cell [OF inv, of e]
  define z where "z = (h ! 0)\<lparr>bl_buf := (bl_buf (h ! 0))\<lparr>buf_data := buf_data (bl_buf (h ! 0)) + 1,
      buf_head := buf_head (bl_buf (h ! 0)) + 1\<rparr>, bl_next := (if fs = [] then 0 else hd fs)\<rparr>"
  define h' where "h' = h[0 := z, e := (h ! e)\<lparr>bl_next := BL_END\<rparr>]"
  have "length users < length h" using bl_inv_counts [OF inv] d(2) by linarith
  then have add: "sz_add (buf_head (bl_buf (h ! 0))) 1 = buf_head (bl_buf (h ! 0)) + 1"
    using d by (simp add: sz_simps)
  have h: "0 < length h" using d(2) by linarith
  have "bl_get h 0 = Some (e, h')"
    using h c add
    by (simp add: bl_get_steps [OF inv] bl_head_upd_def bl_took_def bl_set_next_def h'_def z_def)
  moreover have "bl_inv h' fs (users @ [[e]])"
  proof (rule bl_invI [OF _ d(2,3)])
    show "h' ! 0 = z" "length h' = length h" using h c by (simp_all add: h'_def)
    show "buf_size (bl_buf z) = length h" "bl_next z = (if fs = [] then 0 else hd fs)"
      "buf_data (bl_buf z) = length (concat (users @ [[e]]))" "buf_head (bl_buf z) = length (users @ [[e]])"
      using d by (simp_all add: z_def)
    show "distinct (fs @ concat (users @ [[e]]))" "set (fs @ concat (users @ [[e]])) = {1..<length h}"
      using d(4,5) by auto
    have "0 \<notin> set fs" "e \<notin> set fs" using d(4,5) by auto
    then show "bl_seg h' (length h) fs"
      using bl_seg_tl [OF d(7)] by (simp add: bl_seg_update h'_def)
    show "u \<noteq> [] \<and> bl_seg h' 0 u" if "u \<in> set (users @ [[e]])" for u
    proof (cases "u = [e]")
      case True
      then show ?thesis using c by (simp add: h'_def)
    next
      case False
      then have u: "u \<in> set users" using that by simp
      then have "0 \<notin> set u" "e \<notin> set u" using d(4,5) by auto
      then show ?thesis using d(6) [OF u] by (simp add: bl_seg_update h'_def)
    qed
  qed
  ultimately show ?thesis by blast
qed

lemma bl_get_append:
  assumes inv: "bl_inv h (e # fs) (us @ (u @ [i]) # vs)"
  shows "\<exists>h'. bl_get h i = Some (e, h') \<and> bl_inv h' fs (us @ (u @ [i, e]) # vs)"
proof -
  note d = bl_invD [OF inv]
  have "e \<in> set ((e # fs) @ concat (us @ (u @ [i]) # vs))" "i \<in> set ((e # fs) @ concat (us @ (u @ [i]) # vs))"
    by simp_all
  note c = bl_inv_cell [OF inv this(1)] and ci = bl_inv_cell [OF inv this(2)]
  define z where "z = (h ! 0)\<lparr>bl_buf := (bl_buf (h ! 0))\<lparr>buf_data := buf_data (bl_buf (h ! 0)) + 1\<rparr>,
      bl_next := (if fs = [] then 0 else hd fs)\<rparr>"
  define h1 where "h1 = h[0 := z]"
  define h' where "h' = h1[i := (h ! i)\<lparr>bl_next := e\<rparr>, e := (h ! e)\<lparr>bl_next := BL_END\<rparr>]"
  have h: "0 < length h" using d(2) by linarith
  have ie: "i \<noteq> e" "0 < i" "i < length h" using d(4) ci by auto
  have h1i: "h1 ! i = h ! i" using ie by (simp add: h1_def)
  have "bl_get h i = Some (e, h')"
    using h c ie by (simp add: bl_get_steps [OF inv] bl_took_def bl_set_next_def h'_def h1_def z_def)
  moreover have "bl_inv h' fs (us @ (u @ [i, e]) # vs)"
  proof (rule bl_invI [OF _ d(2,3)])
    show "h' ! 0 = z" "length h' = length h" using h c ie by (simp_all add: h'_def h1_def)
    show "buf_size (bl_buf z) = length h" "bl_next z = (if fs = [] then 0 else hd fs)"
      "buf_data (bl_buf z) = length (concat (us @ (u @ [i, e]) # vs))"
      "buf_head (bl_buf z) = length (us @ (u @ [i, e]) # vs)"
      using d by (simp_all add: z_def)
    show "distinct (fs @ concat (us @ (u @ [i, e]) # vs))" using d(4) by auto
    have "set (fs @ concat (us @ (u @ [i, e]) # vs)) = set ((e # fs) @ concat (us @ (u @ [i]) # vs))"
      by auto
    then show "set (fs @ concat (us @ (u @ [i, e]) # vs)) = {1..<length h}" unfolding d(5) .
    have "0 \<notin> set fs" "e \<notin> set fs" "i \<notin> set fs" using d(4,5) by auto
    then show "bl_seg h' (length h) fs"
      using bl_seg_tl [OF d(7)] by (simp add: bl_seg_update h'_def h1_def)
    show "w \<noteq> [] \<and> bl_seg h' 0 w" if "w \<in> set (us @ (u @ [i, e]) # vs)" for w
    proof (cases "w = u @ [i, e]")
      case True
      have "0 \<notin> set ((e # fs) @ concat (us @ (u @ [i]) # vs))" unfolding d(5) by simp
      then have "0 \<notin> set (u @ [i])" by simp
      then have "bl_seg h1 0 (u @ [i])" using d(6) [of "u @ [i]"] by (simp add: bl_seg_update h1_def)
      moreover have "e \<notin> set (u @ [i])" "i \<notin> set u" using d(4) by auto
      ultimately have "bl_seg h' 0 (u @ [i, e])"
        using bl_seg_snoc [of h1 u i e "h ! e"] c ie h1i by (simp add: h'_def h1_def)
      then show ?thesis using True by simp
    next
      case False
      then have w: "w \<in> set us \<union> set vs" using that by simp
      then have "0 \<notin> set w" "e \<notin> set w" "i \<notin> set w" using d(4,5) by auto
      then show ?thesis using d(6) [of w] w by (simp add: bl_seg_update h'_def h1_def)
    qed
  qed
  ultimately show ?thesis by blast
qed

lemma bl_put_correct:
  assumes inv: "bl_inv h free (us @ (i # u) # vs)"
  shows "\<exists>h'. bl_put h i = Some (if u = [] then 0 else hd u, h') \<and>
    bl_inv h' (i # free) (us @ (if u = [] then [] else [u]) @ vs)"
proof -
  note d = bl_invD [OF inv] and c = bl_inv_cell [OF inv, of i]
  let ?us = "us @ (if u = [] then [] else [u]) @ vs"
  have h: "0 < length h" using d(2) by linarith
  have i: "0 < i" "i < length h" using c by simp_all
  have seg: "bl_seg h 0 (i # u)" using d(6) by simp
  have nx: "bl_next (h ! i) = (if u = [] then BL_END else hd u)" using seg by (cases u) auto
  have hd: "hd u \<noteq> BL_END" if "u \<noteq> []" using bl_inv_cell(3) [OF inv, of "hd u"] that by simp
  have first: "(if bl_next (h ! 0) \<noteq> 0 then bl_next (h ! 0) else BL_END) = (if free = [] then BL_END else hd free)"
    using d(8) bl_inv_cell(1) [OF inv, of "hd free"] by auto
  define z where "z = (h ! 0)\<lparr>bl_buf := (bl_buf (h ! 0))\<lparr>buf_data := buf_data (bl_buf (h ! 0)) - 1,
      buf_head := buf_head (bl_buf (h ! 0)) - (if u = [] then 1 else 0)\<rparr>, bl_next := i\<rparr>"
  define h' where "h' = h[0 := z, i := (h ! i)\<lparr>bl_next := (if free = [] then BL_END else hd free)\<rparr>]"
  have small: "buf_data (bl_buf (h ! 0)) < 4294967295" "buf_head (bl_buf (h ! 0)) < 4294967295"
    using bl_inv_counts [OF inv] d by linarith+
  have sub: "sz_sub (buf_data (bl_buf (h ! 0))) 1 = buf_data (bl_buf (h ! 0)) - 1"
    "sz_sub (buf_head (bl_buf (h ! 0))) 1 = buf_head (bl_buf (h ! 0)) - 1"
    using d(9,10) small by (simp_all add: sz_simps)
  have "ld h i = Some (h ! i)" "i \<noteq> 0" using i by (simp_all add: mem_simps)
  then have "bl_put h i = Some (if u = [] then 0 else hd u, h')"
    unfolding h'_def z_def first [symmetric] using h i nx hd sub
    by (cases "u = []") (simp_all add: bl_put_def Let_def bl_head_upd_def bl_set_next_def list_update_swap)
  moreover have "bl_inv h' (i # free) ?us"
  proof (rule bl_invI [OF _ d(2,3)])
    show "h' ! 0 = z" "length h' = length h" using h i by (simp_all add: h'_def)
    show "buf_size (bl_buf z) = length h" "bl_next z = (if i # free = [] then 0 else hd (i # free))"
      "buf_data (bl_buf z) = length (concat ?us)" "buf_head (bl_buf z) = length ?us"
      using d by (simp_all add: z_def)
    show "distinct ((i # free) @ concat ?us)" using d(4) by auto
    show "set ((i # free) @ concat ?us) = {1..<length h}" using d(5) by auto
    have "0 \<notin> set free" "i \<notin> set free" using d(4,5) by auto
    then have "bl_seg h' (length h) free" using d(7) by (simp add: bl_seg_update h'_def)
    then show "bl_seg h' (length h) (i # free)" using i by (cases free) (simp_all add: h'_def)
    show "w \<noteq> [] \<and> bl_seg h' 0 w" if "w \<in> set ?us" for w
    proof (cases "w = u \<and> u \<noteq> []")
      case True
      have "0 \<notin> set u" "i \<notin> set u" using d(4,5) by auto
      then show ?thesis using bl_seg_tl [OF seg] True by (simp add: bl_seg_update h'_def)
    next
      case False
      then have w: "w \<in> set us \<union> set vs" using that by (auto split: if_splits)
      then have "0 \<notin> set w" "i \<notin> set w" using d(4,5) by auto
      then show ?thesis using d(6) [of w] w by (simp add: bl_seg_update h'_def)
    qed
  qed
  ultimately show ?thesis by blast
qed

lemma bl_seg_fresh:
  assumes "\<forall>j \<in> {k..<n}. bl_next (h ! j) = 0" and "k < n"
  shows "bl_seg h n [k..<n]"
  using assms
proof (induction "n - k" arbitrary: k)
  case (Suc m)
  show ?case
  proof (cases "k + 1 = n")
    case True
    then show ?thesis using Suc.prems by (simp add: upt_conv_Cons)
  next
    case False
    then have "k + 1 < n" using Suc.prems by simp
    moreover have "bl_seg h n [k + 1..<n]" using Suc.hyps(1) [of "k + 1"] Suc.hyps(2) Suc.prems \<open>k + 1 < n\<close> by simp
    ultimately show ?thesis using Suc.prems by (simp add: upt_conv_Cons)
  qed
qed simp

lemma bl_init_correct:
  assumes "2 \<le> length h" and "length h < 4294967295"
  shows "\<exists>h'. bl_init h (length h) = Some h' \<and> bl_inv h' [1..<length h] []"
proof -
  let ?n = "length h" let ?e = "\<lparr>bl_buf = BUF_NULL, bl_next = 0, bl_flags = 0\<rparr>"
  let ?h = "(replicate ?n ?e)[0 := \<lparr>bl_buf = BUF_NULL\<lparr>buf_size := ?n\<rparr>, bl_next = 1, bl_flags = 0\<rparr>]"
  have "blit h 0 (replicate ?n ?e) = replicate ?n ?e" by (simp add: blit_def)
  then have "bl_init h ?n = Some ?h"
    using assms by (auto simp: bl_init_def wr_Some bl_head_upd_def bl_set_next_def)
  moreover have "bl_inv ?h [1..<?n] []"
  proof -
    have "bl_seg ?h ?n [1..<?n]" using assms by (intro bl_seg_fresh) auto
    moreover have "?h ! 0 = \<lparr>bl_buf = BUF_NULL\<lparr>buf_size := ?n\<rparr>, bl_next = 1, bl_flags = 0\<rparr>"
      using assms by (cases h) simp_all
    ultimately show ?thesis
      using assms by (intro bl_invI [of ?h ?h]) (auto simp: BUF_NULL_def)
  qed
  ultimately show ?thesis by blast
qed

section \<open>Runs of the allocator\<close>

text \<open>What the users of an array may do: take a cell for a new list, append a cell to a list by
  naming its last one, and give back the first cell of a list.\<close>

inductive bl_run :: "bl_elem list \<Rightarrow> nat list list \<Rightarrow> bool" where
  run_init: "2 \<le> length h \<Longrightarrow> length h < 4294967295 \<Longrightarrow> bl_init h (length h) = Some h' \<Longrightarrow> bl_run h' []"
| run_new: "bl_run h us \<Longrightarrow> bl_get h 0 = Some (e, h') \<Longrightarrow> e \<noteq> 0 \<Longrightarrow> bl_run h' (us @ [[e]])"
| run_append: "bl_run h (us @ (u @ [i]) # vs) \<Longrightarrow> bl_get h i = Some (e, h') \<Longrightarrow> e \<noteq> 0 \<Longrightarrow>
    bl_run h' (us @ (u @ [i, e]) # vs)"
| run_put: "bl_run h (us @ (i # u) # vs) \<Longrightarrow> bl_put h i = Some (n, h') \<Longrightarrow>
    bl_run h' (us @ (if n = 0 then [] else [u]) @ vs)"

lemma bl_run_inv: "bl_run h users \<Longrightarrow> \<exists>free. bl_inv h free users"
proof (induction rule: bl_run.induct)
  case (run_init h h')
  then show ?case using bl_init_correct [of h] by auto
next
  case (run_new h us e h')
  then obtain free where inv: "bl_inv h free us" by blast
  show ?case
  proof (cases free)
    case Nil
    then show ?thesis using bl_get_empty [of h us 0] inv run_new by simp
  next
    case (Cons f fs)
    then show ?thesis using bl_get_new [of h f fs us] inv run_new by auto
  qed
next
  case (run_append h us u i vs e h')
  then obtain free where inv: "bl_inv h free (us @ (u @ [i]) # vs)" by blast
  show ?case
  proof (cases free)
    case Nil
    then show ?thesis using bl_get_empty [of h "us @ (u @ [i]) # vs" i] inv run_append by simp
  next
    case (Cons f fs)
    then show ?thesis using bl_get_append [of h f fs us u i vs] inv run_append by auto
  qed
next
  case (run_put h us i u vs n h')
  then obtain free where inv: "bl_inv h free (us @ (i # u) # vs)" by blast
  have "hd u \<noteq> 0" if "u \<noteq> []" using bl_inv_cell(1) [OF inv, of "hd u"] that by simp
  then show ?case using bl_put_correct [OF inv] run_put by auto
qed

lemma bl_counters:
  assumes inv: "bl_inv h free users"
  shows "bl_avail h = length free" and "bl_used h = length (concat users)" and "bl_users h = length users"
    and "bl_size h = length h - 1"
proof -
  note d = bl_invD [OF inv] and cnt = bl_inv_counts [OF inv]
  show used: "bl_used h = length (concat users)" and "bl_users h = length users"
    using d cnt by (simp_all add: bl_used_def bl_users_def)
  show siz: "bl_size h = length h - 1" using d by (simp add: bl_size_def sz_simps)
  have "length h - 1 + 4294967296 - length (concat users) = length free + 4294967296"
    using cnt by linarith
  then show "bl_avail h = length free" using cnt d(3) unfolding bl_avail_def siz used by simp
qed

section \<open>Properties\<close>

text \<open>The cells that \<open>n\<close> calls of \<^verbatim>\<open>bl_get\<close> for new lists return.\<close>

fun bl_take :: "nat \<Rightarrow> bl_elem list \<Rightarrow> (nat list \<times> bl_elem list) option" where
  "bl_take 0 h = Some ([], h)"
| "bl_take (Suc n) h = do {
     (e, h) \<leftarrow> bl_get h 0;
     (es, h) \<leftarrow> bl_take n h;
     Some (e # es, h) }"

lemma bl_take_free: "bl_inv h free users \<Longrightarrow> \<exists>h'. bl_take (length free) h = Some (free, h')"
proof (induction free arbitrary: h users)
  case (Cons e fs)
  obtain h1 where "bl_get h 0 = Some (e, h1)" "bl_inv h1 fs (users @ [[e]])" using bl_get_new [OF Cons.prems] by blast
  then show ?case using Cons.IH [of h1 "users @ [[e]]"] by auto
qed simp

text \<open>C10. In every run of \<^verbatim>\<open>bl_init\<close>, \<^verbatim>\<open>bl_get\<close> and \<^verbatim>\<open>bl_put\<close>, no cell belongs to two users or twice to
  one, cell 0 is never handed out, and the counters \<^verbatim>\<open>bl_used\<close>, \<^verbatim>\<open>bl_users\<close> and \<^verbatim>\<open>bl_avail\<close> are exact. No cell
  is lost: as many further calls of \<^verbatim>\<open>bl_get\<close> as \<^verbatim>\<open>bl_avail\<close> announces all succeed, and they return exactly the
  cells that no user has.\<close>

theorem bl_run_safe:
  assumes "bl_run h users"
  shows "distinct (concat users) \<and> set (concat users) \<subseteq> {1..<length h} \<and>
    bl_used h = length (concat users) \<and> bl_users h = length users \<and>
    bl_avail h = bl_size h - length (concat users) \<and>
    (\<exists>es h'. bl_take (bl_avail h) h = Some (es, h') \<and> distinct es \<and> set es = {1..<length h} - set (concat users))"
proof -
  obtain free where inv: "bl_inv h free users" using bl_run_inv [OF assms] by blast
  have f: "set free = {1..<length h} - set (concat users)" "distinct free"
    using bl_invD(4,5) [OF inv] by auto
  have "set (concat users) \<subseteq> set (free @ concat users)" by auto
  then show ?thesis
    using bl_invD(4) [OF inv] bl_counters [OF inv] bl_inv_counts [OF inv] bl_take_free [OF inv] f
    unfolding bl_invD(5) [OF inv] by auto
qed

text \<open>C11. \<^verbatim>\<open>bl_get\<close> fails exactly when no cell is available; otherwise it returns a cell nobody has,
  for a new list (index 0) as for the one it is asked to extend, and one cell fewer is available.\<close>

theorem bl_get_progress:
  assumes "bl_run h users" and "idx = 0 \<or> (\<exists>u \<in> set users. u \<noteq> [] \<and> idx = last u)"
  shows "if bl_avail h = 0 then bl_get h idx = Some (0, h)
    else \<exists>e h'. bl_get h idx = Some (e, h') \<and> e \<noteq> 0 \<and> e \<notin> set (concat users) \<and>
      bl_avail h' = bl_avail h - 1"
proof -
  obtain free where inv: "bl_inv h free users" using bl_run_inv [OF assms(1)] by blast
  show ?thesis
  proof (cases free)
    case Nil
    then show ?thesis using bl_get_empty inv bl_counters(1) [OF inv] by simp
  next
    case (Cons e fs)
    have e: "e \<noteq> 0" "e \<notin> set (concat users)"
      using Cons bl_inv_cell(1) [OF inv, of e] bl_invD(4) [OF inv] by auto
    have "\<exists>h' us. bl_get h idx = Some (e, h') \<and> bl_inv h' fs us"
    proof (cases "idx = 0")
      case True
      then show ?thesis using bl_get_new [of h e fs users] inv Cons by blast
    next
      case False
      then obtain u where "u \<in> set users" "u \<noteq> []" "idx = last u" using assms(2) by blast
      then obtain us vs where "users = us @ (butlast u @ [idx]) # vs"
        by (metis append_butlast_last_id split_list)
      then show ?thesis using bl_get_append [of h e fs us "butlast u" idx vs] inv Cons by blast
    qed
    then show ?thesis using e Cons bl_counters(1) [OF inv] bl_counters(1) by auto
  qed
qed

text \<open>\<^verbatim>\<open>bl_put\<close> of the first cell of a list returns the next one, or 0 when the list is finished,
  and makes one more cell available.\<close>

theorem bl_put_releases:
  assumes "bl_run h (us @ (i # u) # vs)"
  shows "\<exists>h'. bl_put h i = Some (if u = [] then 0 else hd u, h') \<and>
    bl_run h' (us @ (if u = [] then [] else [u]) @ vs) \<and> bl_avail h' = bl_avail h + 1"
proof -
  obtain free where inv: "bl_inv h free (us @ (i # u) # vs)" using bl_run_inv [OF assms] by blast
  obtain h' where h': "bl_put h i = Some (if u = [] then 0 else hd u, h')"
    "bl_inv h' (i # free) (us @ (if u = [] then [] else [u]) @ vs)"
    using bl_put_correct [OF inv] by blast
  have "hd u \<noteq> 0" if "u \<noteq> []" using bl_inv_cell(1) [OF inv, of "hd u"] that by simp
  then have "(if u = [] then 0 else hd u) = 0 \<longleftrightarrow> u = []" by simp
  then have "bl_run h' (us @ (if u = [] then [] else [u]) @ vs)"
    using run_put [OF assms h'(1)] by simp
  then show ?thesis using h' bl_counters(1) [OF inv] bl_counters(1) [OF h'(2)] by simp
qed

text \<open>A small array for the examples: three cells, after one allocation.\<close>

definition bl_example :: "bl_elem list" where
  "bl_example = [\<lparr>bl_buf = BUF_NULL\<lparr>buf_size := 3, buf_data := 1, buf_head := 1\<rparr>, bl_next = 2, bl_flags = 0\<rparr>,
     \<lparr>bl_buf = BUF_NULL, bl_next = BL_END, bl_flags = 0\<rparr>,
     \<lparr>bl_buf = BUF_NULL, bl_next = 0, bl_flags = 0\<rparr>]"

lemma bl_example_run: "bl_run bl_example [[1]]"
proof -
  let ?z = "\<lparr>bl_buf = BUF_NULL, bl_next = 0, bl_flags = 0\<rparr>"
  let ?h = "[\<lparr>bl_buf = BUF_NULL\<lparr>buf_size := 3\<rparr>, bl_next = 1, bl_flags = 0\<rparr>, ?z, ?z]"
  have "bl_init [?z, ?z, ?z] 3 = Some ?h"
    by (simp add: bl_init_def wr_def blit_def bl_head_upd_def bl_set_next_def numeral_3_eq_3)
  then have "bl_run ?h []" using run_init [of "[?z, ?z, ?z]" ?h] by (simp add: numeral_3_eq_3)
  moreover have "bl_get ?h 0 = Some (1, bl_example)"
    by (simp add: bl_get_def ld_def bl_set_next_def bl_head_upd_def BL_END_def bl_example_def
        BUF_NULL_def sz_add_def)
  ultimately show ?thesis using run_new [of ?h "[]" 1 bl_example] by simp
qed

theorem bl_run_safe_witness:
  "distinct (concat [[1::nat]]) \<and> set (concat [[1::nat]]) \<subseteq> {1..<length bl_example} \<and>
    bl_used bl_example = length (concat [[1::nat]]) \<and> bl_users bl_example = length [[1::nat]] \<and>
    bl_avail bl_example = bl_size bl_example - length (concat [[1::nat]]) \<and>
    (\<exists>es h'. bl_take (bl_avail bl_example) bl_example = Some (es, h') \<and> distinct es \<and>
      set es = {1..<length bl_example} - set (concat [[1::nat]]))"
  by (rule bl_run_safe [OF bl_example_run])

theorem bl_get_progress_witness:
  "if bl_avail bl_example = 0 then bl_get bl_example 1 = Some (0, bl_example)
   else \<exists>e h'. bl_get bl_example 1 = Some (e, h') \<and> e \<noteq> 0 \<and> e \<notin> set (concat [[1::nat]]) \<and>
     bl_avail h' = bl_avail bl_example - 1"
  by (rule bl_get_progress [OF bl_example_run]) simp

theorem bl_put_releases_witness:
  "\<exists>h'. bl_put bl_example 1 = Some (0, h') \<and> bl_run h' [] \<and> bl_avail h' = bl_avail bl_example + 1"
  using bl_put_releases [of bl_example "[]" 1 "[]" "[]"] bl_example_run by simp

end
