(* ===== verification/Varint.thy ===== *)
theory Varint
  imports BufOps
begin

text \<open>
  Variable-length integers: \<^verbatim>\<open>__varint_bytes\<close>, \<^verbatim>\<open>encode_varint\<close> and \<^verbatim>\<open>decode_varint\<close> of
  \<^verbatim>\<open>include/haproxy/intops.h\<close>, \<^verbatim>\<open>b_peek_varint\<close> of \<^verbatim>\<open>include/haproxy/buf.h\<close>, and
  \<^verbatim>\<open>__b_put_varint\<close>, \<^verbatim>\<open>b_put_varint\<close> and \<^verbatim>\<open>b_get_varint\<close> of \<^verbatim>\<open>src/buf.c\<close>.

  Values below 240 take one byte. Otherwise the first byte holds the four low bits and each
  following byte seven more, with its top bit set on all but the last one; every step also subtracts
  the bits it sets, so that no value has two encodings. A shift of a 64-bit value by 64 or more is
  undefined in C and makes the model return \<open>None\<close>.
\<close>

section \<open>Encoding and decoding in memory\<close>

definition raw_varint_bytes :: "u64 \<Rightarrow> nat" where
  "raw_varint_bytes v =
     (if v \<le> 0xef then 1
      else if v \<le> 0x8ef then 2
      else if v \<le> 0x408ef then 3
      else if v \<le> 0x20408ef then 4
      else if v \<le> 0x1020408ef then 5
      else if v \<le> 0x81020408ef then 6
      else if v \<le> 0x4081020408ef then 7
      else if v \<le> 0x204081020408ef then 8
      else if v \<le> 0x10204081020408ef then 9
      else 10)"

text \<open>The loop of \<^verbatim>\<open>encode_varint\<close> returns \<open>True\<close> and the last value, or \<open>False\<close> when it reaches
  \<open>end\<close>; the memory it wrote is part of the result in both cases.\<close>

lemma varint_measure: "128 \<le> (i::u64) \<Longrightarrow> unat (drop_bit 7 (i - 128)) < unat i"
  by (simp add: u64_step7 word_le_nat_alt)

function encode_varint_loop :: "u64 \<Rightarrow> bytes \<Rightarrow> nat \<Rightarrow> nat \<Rightarrow> (bool \<times> u64 \<times> bytes \<times> nat) option" where
  "encode_varint_loop i m p e =
     (if i \<ge> 128 then
        if p \<ge> e then Some (False, i, m, p)
        else do {
          m \<leftarrow> st m p (ucast i OR 128);
          encode_varint_loop (drop_bit 7 (i - 128)) m (p + 1) e
        }
      else Some (True, i, m, p))"
  by pat_completeness auto
termination
  by (relation "measure (\<lambda>(i, m, p, e). unat i)") (auto intro: varint_measure)

definition encode_varint :: "u64 \<Rightarrow> bytes \<Rightarrow> nat \<Rightarrow> nat \<Rightarrow> (int \<times> bytes \<times> nat) option" where
  "encode_varint i m buf e =
     (if buf \<ge> e then Some (-1, m, buf)
      else if i < 240 then do {
        m \<leftarrow> st m buf (ucast i);
        Some (1, m, buf + 1)
      } else do {
        m \<leftarrow> st m buf (ucast i OR 240);
        (go, i, m, p) \<leftarrow> encode_varint_loop (drop_bit 4 (i - 240)) m (buf + 1) e;
        if \<not> go then Some (-1, m, buf)
        else if p \<ge> e then Some (-1, m, buf)
        else do {
          m \<leftarrow> st m p (ucast i);
          Some (int (p + 1) - int buf, m, p + 1)
        }
      })"

text \<open>\<open>decode_varint\<close> returns the result, the new \<^verbatim>\<open>*buf\<close> and the new \<^verbatim>\<open>*i\<close>.\<close>

function decode_varint_loop :: "bytes \<Rightarrow> nat \<Rightarrow> nat \<Rightarrow> nat \<Rightarrow> u64 \<Rightarrow> (bool \<times> nat \<times> u64) option" where
  "decode_varint_loop m p e r i =
     (if p \<ge> e then Some (False, p, i)
      else do {
        c \<leftarrow> ld m p;
        if r \<ge> 64 then None
        else if c \<ge> 128 then decode_varint_loop m (p + 1) e (r + 7) (i + push_bit r (ucast c))
        else Some (True, p + 1, i + push_bit r (ucast c))
      })"
  by pat_completeness auto
termination
  by (relation "measure (\<lambda>(m, p, e, r, i). e - p)") auto

definition decode_varint :: "bytes \<Rightarrow> nat \<Rightarrow> nat \<Rightarrow> u64 \<Rightarrow> (int \<times> nat \<times> u64) option" where
  "decode_varint m buf e i =
     (if buf \<ge> e then Some (-1, buf, i)
      else do {
        c \<leftarrow> ld m buf;
        let i = ucast c;
        if i < 240 then Some (1, buf + 1, i)
        else do {
          (ok, p, i) \<leftarrow> decode_varint_loop m (buf + 1) e 4 i;
          if ok then Some (int p - int buf, p, i) else Some (-1, buf, i)
        }
      })"

text \<open>\<^verbatim>\<open>varint_bytes\<close> of \<^verbatim>\<open>src/tools.c\<close> counts the bytes with the steps of the encoder.\<close>

function varint_bytes_loop :: "u64 \<Rightarrow> nat \<Rightarrow> nat" where
  "varint_bytes_loop v len =
     (let len = len + 1 in
      if v < 128 then len else varint_bytes_loop (drop_bit 7 (v - 128)) len)"
  by pat_completeness auto
termination
  by (relation "measure (\<lambda>(v, len). unat v)") (auto intro: varint_measure)

definition varint_bytes :: "u64 \<Rightarrow> nat" where
  "varint_bytes v = (if v \<ge> 240 then varint_bytes_loop (drop_bit 4 (v - 240)) 1 else 1)"

section \<open>Encoding and decoding in a buffer\<close>

definition b_tail_next :: "buffer \<Rightarrow> nat \<Rightarrow> nat" where
  "b_tail_next b tail = (if tail + 1 = b_wrap b then tail + 1 - b_size b else tail + 1)"

function raw_b_put_varint_loop :: "buffer \<Rightarrow> bytes \<Rightarrow> nat \<Rightarrow> nat \<Rightarrow> u64 \<Rightarrow> (bytes \<times> nat \<times> nat \<times> u64) option" where
  "raw_b_put_varint_loop b ar tail dat v =
     (let tail = b_tail_next b tail; dat = sz_add dat 1 in
      if v < 0x80 then Some (ar, tail, dat, v)
      else do {
        ar \<leftarrow> st ar tail (ucast v OR 0x80);
        raw_b_put_varint_loop b ar tail dat (drop_bit 7 (v - 0x80))
      })"
  by pat_completeness auto
termination
  by (relation "measure (\<lambda>(b, ar, tail, dat, v). unat v)") (auto intro: varint_measure)

definition raw_b_put_varint :: "buffer \<Rightarrow> u64 \<Rightarrow> buffer option" where
  "raw_b_put_varint b v = do {
     let dat = buf_data b;
     let tail = b_tail b;
     (ar, tail, dat, v) \<leftarrow>
       (if v \<ge> 0xF0 then do {
          ar \<leftarrow> st (buf_area b) tail (ucast v OR 0xF0);
          raw_b_put_varint_loop b ar tail dat (drop_bit 4 (v - 0xF0))
        } else Some (buf_area b, tail, dat, v));
     ar \<leftarrow> st ar tail (ucast v);
     Some (b\<lparr>buf_area := ar, buf_data := sz_add dat 1\<rparr>)
   }"

function b_put_varint_loop :: "buffer \<Rightarrow> bytes \<Rightarrow> nat \<Rightarrow> nat \<Rightarrow> u64 \<Rightarrow> (bytes \<times> nat \<times> nat \<times> u64) option" where
  "b_put_varint_loop b ar tail dat v =
     (let tail = b_tail_next b tail; dat = sz_add dat 1 in
      if dat = b_size b \<or> v < 0x80 then Some (ar, tail, dat, v)
      else do {
        ar \<leftarrow> st ar tail (ucast v OR 0x80);
        b_put_varint_loop b ar tail dat (drop_bit 7 (v - 0x80))
      })"
  by pat_completeness auto
termination
  by (relation "measure (\<lambda>(b, ar, tail, dat, v). unat v)") (auto intro: varint_measure)

definition b_put_varint :: "buffer \<Rightarrow> u64 \<Rightarrow> (nat \<times> buffer) option" where
  "b_put_varint b v = do {
     let dat = buf_data b;
     let tail = b_tail b;
     (ar, tail, dat, v) \<leftarrow>
       (if dat \<noteq> b_size b \<and> v \<ge> 0xF0 then do {
          ar \<leftarrow> st (buf_area b) tail (ucast v OR 0xF0);
          b_put_varint_loop b ar tail dat (drop_bit 4 (v - 0xF0))
        } else Some (buf_area b, tail, dat, v));
     if dat = b_size b then Some (0, b\<lparr>buf_area := ar\<rparr>)
     else do {
       ar \<leftarrow> st ar tail (ucast v);
       let dat = sz_add dat 1;
       Some (sz_sub dat (buf_data b), b\<lparr>buf_area := ar, buf_data := dat\<rparr>)
     }
   }"

text \<open>The loop of \<^verbatim>\<open>b_peek_varint\<close> runs on what is left of \<open>data\<close>.\<close>

fun b_peek_varint_loop :: "buffer \<Rightarrow> nat \<Rightarrow> nat \<Rightarrow> nat \<Rightarrow> u64 \<Rightarrow> (nat \<times> nat \<times> nat \<times> u64) option" where
  "b_peek_varint_loop b hea 0 bits v = None"
| "b_peek_varint_loop b hea (Suc dat) bits v =
     (let hea = b_tail_next b hea in
      if dat = 0 then Some (hea, 0, bits, v)
      else do {
        c \<leftarrow> ld (buf_area b) hea;
        if c AND 0x80 = 0 then Some (hea, dat, bits, v)
        else if bits \<ge> 64 then None
        else b_peek_varint_loop b hea dat (bits + 7) (v + push_bit bits (ucast c))
      })"

definition b_peek_varint :: "buffer \<Rightarrow> nat \<Rightarrow> u64 \<Rightarrow> (nat \<times> u64) option" where
  "b_peek_varint b ofs vptr = do {
     let hea = b_peek b ofs;
     let dat = sz_sub (b_data b) ofs;
     if dat = 0 then Some (0, vptr)
     else do {
       c \<leftarrow> ld (buf_area b) hea;
       (hea, dat, bits, v) \<leftarrow>
         (if c \<ge> 0xF0 then b_peek_varint_loop b hea dat 4 (ucast c) else Some (hea, dat, 0, 0));
       if dat = 0 then Some (0, vptr)
       else do {
         c \<leftarrow> ld (buf_area b) hea;
         if bits \<ge> 64 then None
         else Some (sz_sub (sz_sub (buf_data b) ofs) (sz_sub dat 1), v + push_bit bits (ucast c))
       }
     }
   }"

definition b_get_varint :: "buffer \<Rightarrow> u64 \<Rightarrow> (nat \<times> buffer \<times> u64) option" where
  "b_get_varint b vptr = do {
     (siz, v) \<leftarrow> b_peek_varint b 0 vptr;
     Some (siz, b_del b siz, v)
   }"

section \<open>The encoding as a list of bytes\<close>

function vi_tail :: "nat \<Rightarrow> bytes" where
  "vi_tail n = (if n < 128 then [word_of_nat n]
     else word_of_nat (128 + n mod 128) # vi_tail ((n - 128) div 128))"
  by pat_completeness auto
termination
  by (relation "measure id") auto

definition vi_bytes :: "nat \<Rightarrow> bytes" where
  "vi_bytes n = (if n < 240 then [word_of_nat n]
     else word_of_nat (240 + n mod 16) # vi_tail ((n - 240) div 16))"

fun vi_untail :: "bytes \<Rightarrow> (nat \<times> bytes) option" where
  "vi_untail [] = None"
| "vi_untail (c # cs) = (if c < 128 then Some (unat c, cs)
     else do { (v, cs) \<leftarrow> vi_untail cs; Some (unat c + 128 * v, cs) })"

declare vi_tail.simps [simp del] encode_varint_loop.simps [simp del]
  decode_varint_loop.simps [simp del] raw_b_put_varint_loop.simps [simp del]
  b_put_varint_loop.simps [simp del] varint_bytes_loop.simps [simp del]

lemma vi_tail_small: "n < 128 \<Longrightarrow> vi_tail n = [word_of_nat n]"
  by (subst vi_tail.simps) simp

lemma vi_tail_large: "128 \<le> n \<Longrightarrow>
    vi_tail n = word_of_nat (128 + n mod 128) # vi_tail ((n - 128) div 128)"
  by (subst vi_tail.simps) simp

lemma vi_tail_not_Nil [simp]: "vi_tail n \<noteq> []"
  by (subst vi_tail.simps) simp

text \<open>The subtractions make the encoding a bijection: a sequence of bytes that ends with a byte below
  128 is the encoding of exactly one number.\<close>

lemma vi_untail_tail: "vi_untail (vi_tail n @ rest) = Some (n, rest)"
proof (induction n rule: vi_tail.induct)
  case (1 n)
  show ?case
  proof (cases "n < 128")
    case True
    then show ?thesis by (simp add: vi_tail_small word_less_nat_alt unat_byte_of_nat)
  next
    case False
    have "n - 128 = 128 * ((n - 128) div 128) + (n - 128) mod 128" by simp
    moreover have "(n - 128) mod 128 = n mod 128" using False by (simp add: le_mod_geq)
    ultimately have "128 + n mod 128 + 128 * ((n - 128) div 128) = n" using False by linarith
    moreover have "unat (word_of_nat (128 + n mod 128) :: byte) = 128 + n mod 128"
      by (simp only: unat_byte_of_nat) simp
    ultimately show ?thesis
      using False 1 by (simp add: vi_tail_large word_less_nat_alt del: of_nat_add)
  qed
qed

lemma vi_untail_Some: "vi_untail xs = Some (v, rest) \<Longrightarrow> xs = vi_tail v @ rest"
proof (induction xs arbitrary: v)
  case Nil
  then show ?case by simp
next
  case (Cons c cs)
  show ?case
  proof (cases "c < 128")
    case True
    with Cons.prems show ?thesis by (auto simp: vi_tail_small word_less_nat_alt)
  next
    case False
    with Cons.prems obtain v' where v': "vi_untail cs = Some (v', rest)" "v = unat c + 128 * v'"
      by (auto split: bind_splits)
    have c: "128 \<le> unat c" "unat c < 256" using False byte_less by (auto simp: word_less_nat_alt)
    have "(v - 128) div 128 = v'" and "v mod 128 = unat c - 128"
      using c v'(2) by (auto simp: le_mod_geq)
    then show ?thesis using Cons.IH [OF v'(1)] c v' by (simp add: vi_tail_large)
  qed
qed

lemma vi_untail_None: "vi_untail xs = None \<longleftrightarrow> (\<forall>c \<in> set xs. 128 \<le> c)"
proof (induction xs)
  case (Cons c cs)
  then show ?case by (cases "vi_untail cs") (auto simp: not_less)
qed simp

section \<open>The length of an encoding\<close>

fun vi_limit :: "nat \<Rightarrow> nat" where
  "vi_limit 0 = 128"
| "vi_limit (Suc k) = 128 * vi_limit k + 128"

lemma vi_tail_length: "length (vi_tail n) \<le> Suc k \<longleftrightarrow> n < vi_limit k"
proof (induction k arbitrary: n)
  case 0
  show ?case
  proof (cases "n < 128")
    case False
    then show ?thesis using vi_tail_large [of n] by simp
  qed (simp add: vi_tail_small)
next
  case (Suc k)
  show ?case
  proof (cases "n < 128")
    case True
    then show ?thesis by (simp add: vi_tail_small)
  next
    case False
    have "(n - 128) div 128 < vi_limit k \<longleftrightarrow> n - 128 < vi_limit k * 128"
      by (rule div_less_iff_less_mult) simp
    moreover have "length (vi_tail n) = Suc (length (vi_tail ((n - 128) div 128)))"
      using vi_tail_large [of n] False by simp
    ultimately show ?thesis using False Suc.IH [of "(n - 128) div 128"] by auto
  qed
qed

lemma vi_bytes_length: "length (vi_bytes n) \<le> Suc (Suc k) \<longleftrightarrow> n < 240 + 16 * vi_limit k"
proof (cases "n < 240")
  case True
  then show ?thesis by (simp add: vi_bytes_def)
next
  case False
  have "(n - 240) div 16 < vi_limit k \<longleftrightarrow> n - 240 < vi_limit k * 16"
    by (rule div_less_iff_less_mult) simp
  with False vi_tail_length [of "(n - 240) div 16" k] show ?thesis by (auto simp: vi_bytes_def)
qed

lemma vi_limit_numeral:
  "vi_limit 1 = 128 * vi_limit 0 + 128" "vi_limit 2 = 128 * vi_limit 1 + 128"
  "vi_limit 3 = 128 * vi_limit 2 + 128" "vi_limit 4 = 128 * vi_limit 3 + 128"
  "vi_limit 5 = 128 * vi_limit 4 + 128" "vi_limit 6 = 128 * vi_limit 5 + 128"
  "vi_limit 7 = 128 * vi_limit 6 + 128" "vi_limit 8 = 128 * vi_limit 7 + 128"
  using vi_limit.simps(2) [of 0] vi_limit.simps(2) [of 1] vi_limit.simps(2) [of 2]
    vi_limit.simps(2) [of 3] vi_limit.simps(2) [of 4] vi_limit.simps(2) [of 5]
    vi_limit.simps(2) [of 6] vi_limit.simps(2) [of 7]
  by (simp_all del: vi_limit.simps add: numeral_2_eq_2 [symmetric])

lemma raw_varint_bytes_eq: "raw_varint_bytes v = length (vi_bytes (unat v))"
proof -
  let ?l = "length (vi_bytes (unat v))"
  note len = vi_bytes_length [of "unat v"]
  have l0: "?l \<le> 1 \<longleftrightarrow> unat v < 0xf0" and pos: "0 < ?l" by (simp_all add: vi_bytes_def)
  have l: "?l \<le> 2 \<longleftrightarrow> unat v < 0x8f0" "?l \<le> 3 \<longleftrightarrow> unat v < 0x408f0" "?l \<le> 4 \<longleftrightarrow> unat v < 0x20408f0"
    "?l \<le> 5 \<longleftrightarrow> unat v < 0x1020408f0" "?l \<le> 6 \<longleftrightarrow> unat v < 0x81020408f0"
    "?l \<le> 7 \<longleftrightarrow> unat v < 0x4081020408f0" "?l \<le> 8 \<longleftrightarrow> unat v < 0x204081020408f0"
    "?l \<le> 9 \<longleftrightarrow> unat v < 0x10204081020408f0"
    using len [of 0] len [of 1] len [of 2] len [of 3] len [of 4] len [of 5] len [of 6] len [of 7]
    by (simp_all add: vi_limit_numeral numeral_2_eq_2 [symmetric])
  have "?l \<le> 10" using len [of 8] u64_less [of v] by (simp add: vi_limit_numeral)
  then have sel: "(if ?l \<le> 1 then 1 else if ?l \<le> 2 then 2 else if ?l \<le> 3 then 3 else if ?l \<le> 4 then 4
      else if ?l \<le> 5 then 5 else if ?l \<le> 6 then 6 else if ?l \<le> 7 then 7 else if ?l \<le> 8 then 8
      else if ?l \<le> 9 then 9 else 10) = ?l"
    using pos by (simp only: split: if_split) linarith
  have v_le:
    "v \<le> 0xef \<longleftrightarrow> unat v < 0xf0" "v \<le> 0x8ef \<longleftrightarrow> unat v < 0x8f0" "v \<le> 0x408ef \<longleftrightarrow> unat v < 0x408f0"
    "v \<le> 0x20408ef \<longleftrightarrow> unat v < 0x20408f0" "v \<le> 0x1020408ef \<longleftrightarrow> unat v < 0x1020408f0"
    "v \<le> 0x81020408ef \<longleftrightarrow> unat v < 0x81020408f0" "v \<le> 0x4081020408ef \<longleftrightarrow> unat v < 0x4081020408f0"
    "v \<le> 0x204081020408ef \<longleftrightarrow> unat v < 0x204081020408f0"
    "v \<le> 0x10204081020408ef \<longleftrightarrow> unat v < 0x10204081020408f0"
    by (auto simp: word_le_nat_alt)
  show ?thesis unfolding raw_varint_bytes_def v_le by (rule sel [unfolded l0 l])
qed

section \<open>The code writes and reads this encoding\<close>

lemma word_of_nat_128: "128 \<le> (i::u64) \<Longrightarrow>
    vi_tail (unat i) = (ucast i OR 128) # vi_tail (unat (drop_bit 7 (i - 128)))"
  by (simp only: byte_or_128 u64_step7) (simp add: vi_tail_large word_le_nat_alt)

lemma vi_tail_last: "(i::u64) < 128 \<Longrightarrow> vi_tail (unat i) = [ucast i]"
  by (simp add: vi_tail_small word_less_nat_alt)

lemma vi_bytes_small: "(i::u64) < 240 \<Longrightarrow> vi_bytes (unat i) = [ucast i]"
  by (simp add: vi_bytes_def word_less_nat_alt)

lemma vi_bytes_large: "240 \<le> (i::u64) \<Longrightarrow>
    vi_bytes (unat i) = (ucast i OR 240) # vi_tail (unat (drop_bit 4 (i - 240)))"
  by (simp only: byte_or_240 u64_step4) (simp add: vi_bytes_def word_le_nat_alt)

lemma encode_varint_loop_fits:
  "p + length (vi_tail (unat i)) \<le> e \<Longrightarrow> e \<le> length m \<Longrightarrow>
   \<exists>i' ys. encode_varint_loop i m p e = Some (True, i', blit m p ys, p + length ys) \<and>
     vi_tail (unat i) = ys @ [ucast i']"
proof (induction i m p e rule: encode_varint_loop.induct)
  case (1 i m p e)
  show ?case
  proof (cases "128 \<le> i")
    case False
    then show ?thesis
      by (intro exI [of _ i] exI [of _ "[]"]) (simp add: encode_varint_loop.simps vi_tail_last)
  next
    case True
    let ?c = "ucast i OR 128 :: byte" and ?i = "drop_bit 7 (i - 128)"
    note split = word_of_nat_128 [OF True]
    have p: "p < e" "p + 1 + length (vi_tail (unat ?i)) \<le> e" using 1 split by simp_all
    have "encode_varint_loop i m p e = encode_varint_loop ?i (m[p := ?c]) (p + 1) e"
      using True p 1 by (subst encode_varint_loop.simps) (simp add: mem_simps)
    moreover obtain i' ys where "encode_varint_loop ?i (m[p := ?c]) (p + 1) e =
        Some (True, i', blit (m[p := ?c]) (p + 1) ys, p + 1 + length ys)"
      and "vi_tail (unat ?i) = ys @ [ucast i']"
      using 1 True p by (auto simp: mem_simps)
    ultimately show ?thesis
      using split p 1 by (intro exI [of _ i'] exI [of _ "?c # ys"]) (simp add: blit_Cons)
  qed
qed

lemma encode_varint_loop_full:
  "p \<le> e \<Longrightarrow> e < p + length (vi_tail (unat i)) \<Longrightarrow> e \<le> length m \<Longrightarrow>
   \<exists>go i' m' p'. encode_varint_loop i m p e = Some (go, i', m', p') \<and> (go \<longrightarrow> e \<le> p') \<and>
     length m' = length m \<and> take p m' = take p m \<and> drop e m' = drop e m"
proof (induction i m p e rule: encode_varint_loop.induct)
  case (1 i m p e)
  show ?case
  proof (cases "128 \<le> i \<and> p < e")
    case False
    have "encode_varint_loop i m p e = Some (\<not> 128 \<le> i, i, m, p)"
      using False by (subst encode_varint_loop.simps) auto
    moreover have "e \<le> p" if "\<not> 128 \<le> i" using that 1 by (simp add: vi_tail_last)
    ultimately show ?thesis by simp
  next
    case True
    let ?c = "ucast i OR 128 :: byte" and ?i = "drop_bit 7 (i - 128)"
    have "e < p + 1 + length (vi_tail (unat ?i))" using 1 True word_of_nat_128 [of i] by simp
    then have "\<exists>go i' m' p'. encode_varint_loop ?i (m[p := ?c]) (p + 1) e = Some (go, i', m', p') \<and>
      (go \<longrightarrow> e \<le> p') \<and> length m' = length m \<and> take (p + 1) m' = take (p + 1) (m[p := ?c]) \<and>
      drop e m' = drop e m"
      using 1 True by (simp add: mem_simps)
    then obtain go i' m' p' where
      "encode_varint_loop ?i (m[p := ?c]) (p + 1) e = Some (go, i', m', p')"
      "go \<longrightarrow> e \<le> p'" "length m' = length m" "take (p + 1) m' = take (p + 1) (m[p := ?c])"
      "drop e m' = drop e m"
      by blast
    moreover from this have "take p m' = take p m"
      by - (rule take_Suc_update, simp)
    moreover have "encode_varint_loop i m p e = encode_varint_loop ?i (m[p := ?c]) (p + 1) e"
      using True 1 by (subst encode_varint_loop.simps) (simp add: mem_simps)
    ultimately show ?thesis by simp
  qed
qed

lemma encode_varint_fits:
  assumes fit: "buf + length (vi_bytes (unat i)) \<le> e" "e \<le> length m"
  shows "encode_varint i m buf e = Some (int (length (vi_bytes (unat i))),
    blit m buf (vi_bytes (unat i)), buf + length (vi_bytes (unat i)))"
proof (cases "i < 240")
  case True
  with assms show ?thesis by (simp add: encode_varint_def vi_bytes_small mem_simps blit_single)
next
  case False
  let ?c = "ucast i OR 240 :: byte" and ?i = "drop_bit 4 (i - 240)"
  have eq: "vi_bytes (unat i) = ?c # vi_tail (unat ?i)"
    using False by (intro vi_bytes_large) simp
  obtain i' ys where loop: "encode_varint_loop ?i (m[buf := ?c]) (buf + 1) e =
      Some (True, i', blit (m[buf := ?c]) (buf + 1) ys, buf + 1 + length ys)"
    and ys: "vi_tail (unat ?i) = ys @ [ucast i']"
    using encode_varint_loop_fits [of "buf + 1" ?i e "m[buf := ?c]"] fit eq by auto
  let ?m = "blit (m[buf := ?c]) (Suc buf) ys"
  have lm: "length ?m = length m" using fit eq ys by simp
  have "?m[Suc (buf + length ys) := ucast i'] = blit m buf (vi_bytes (unat i))"
    using fit eq ys lm blit_adjacent [of "Suc buf" ys "[ucast i']" "m[buf := ?c]"]
      blit_Cons [of buf "ys @ [ucast i']" m ?c]
    by (simp add: blit_single)
  then show ?thesis
    using False fit eq ys loop lm by (simp add: encode_varint_def mem_simps)
qed

lemma encode_varint_full:
  assumes full: "e < buf + length (vi_bytes (unat i))" "e \<le> length m"
  shows "\<exists>m'. encode_varint i m buf e = Some (-1, m', buf) \<and> length m' = length m \<and>
    take buf m' = take buf m \<and> drop e m' = drop e m"
proof (cases "buf < e \<and> 240 \<le> i")
  case False
  then show ?thesis using full by (auto simp: encode_varint_def vi_bytes_small not_le)
next
  case True
  let ?c = "ucast i OR 240 :: byte" and ?i = "drop_bit 4 (i - 240)"
  have eq: "vi_bytes (unat i) = ?c # vi_tail (unat ?i)" using True by (intro vi_bytes_large) simp
  obtain go i' m' p' where "encode_varint_loop ?i (m[buf := ?c]) (buf + 1) e = Some (go, i', m', p')"
    "go \<longrightarrow> e \<le> p'" "length m' = length m" "take (buf + 1) m' = take (buf + 1) (m[buf := ?c])"
    "drop e m' = drop e m"
  proof -
    have "\<exists>go i' m' p'. encode_varint_loop ?i (m[buf := ?c]) (buf + 1) e = Some (go, i', m', p') \<and>
      (go \<longrightarrow> e \<le> p') \<and> length m' = length m \<and>
      take (buf + 1) m' = take (buf + 1) (m[buf := ?c]) \<and> drop e m' = drop e m"
      using encode_varint_loop_full [of "buf + 1" e ?i "m[buf := ?c]"] full True eq by simp
    then show thesis using that by blast
  qed
  moreover from this have "take buf m' = take buf m"
    by - (rule take_Suc_update, simp)
  ultimately show ?thesis
    using True full by (cases go) (simp_all add: encode_varint_def mem_simps not_less)
qed

lemma shifted_sum:
  assumes "128 \<le> n"
  shows "i + push_bit r (word_of_nat (128 + n mod 128)) +
      word_of_nat (2 ^ (r + 7) * ((n - 128) div 128)) = (i + word_of_nat (2 ^ r * n) :: u64)"
proof -
  have "n - 128 = 128 * ((n - 128) div 128) + (n - 128) mod 128" by simp
  moreover have "(n - 128) mod 128 = n mod 128" using assms by (simp add: le_mod_geq)
  ultimately have "128 + n mod 128 + 128 * ((n - 128) div 128) = n" using assms by linarith
  moreover have "2 ^ (r + 7) * k = 2 ^ r * (128 * k)" for k :: nat by (simp add: power_add)
  ultimately have eq: "2 ^ r * (128 + n mod 128) + 2 ^ (r + 7) * ((n - 128) div 128) = 2 ^ r * n"
    by (metis add_mult_distrib2)
  have "push_bit r (word_of_nat k :: u64) = word_of_nat (2 ^ r * k)" for k
    by (simp add: push_bit_eq_mult mult.commute)
  then show ?thesis by (simp only: eq [symmetric] of_nat_add [of "2 ^ r * (128 + n mod 128)"] add.assoc)
qed

lemma decode_varint_loop_tail:
  "take (e - p) (drop p m) = vi_tail n @ rest \<Longrightarrow> r + 7 * length (vi_tail n) < 71 \<Longrightarrow>
   decode_varint_loop m p e r i =
     Some (True, p + length (vi_tail n), i + word_of_nat (2 ^ r * n))"
proof (induction n arbitrary: p r i rule: vi_tail.induct)
  case (1 n)
  show ?case
  proof (cases "n < 128")
    case True
    then have "take (e - p) (drop p m) = word_of_nat n # rest" using 1 by (simp add: vi_tail_small)
    note w = window_Cons [OF this]
    have "\<not> (128 :: byte) \<le> word_of_nat n"
      using True by (simp add: word_le_nat_alt unat_byte_of_nat)
    then show ?thesis
      using True w 1 ucast_byte_u64 [of n]
      by (subst decode_varint_loop.simps) (simp add: vi_tail_small push_bit_eq_mult mult.commute)
  next
    case False
    let ?c = "word_of_nat (128 + n mod 128) :: byte"
    have vt: "vi_tail n = ?c # vi_tail ((n - 128) div 128)" using False by (simp add: vi_tail_large)
    then have "take (e - p) (drop p m) = ?c # (vi_tail ((n - 128) div 128) @ rest)" using 1 by simp
    note w = window_Cons [OF this]
    have c: "128 \<le> ?c" by (simp only: word_le_nat_alt unat_byte_of_nat) simp
    have "decode_varint_loop m p e r i =
        decode_varint_loop m (Suc p) e (r + 7) (i + push_bit r (word_of_nat (128 + n mod 128)))"
      using w c 1 vt ucast_byte_u64 [of "128 + n mod 128"]
      by (subst decode_varint_loop.simps) (simp del: of_nat_add)
    also have "\<dots> = Some (True, Suc p + length (vi_tail ((n - 128) div 128)),
        i + push_bit r (word_of_nat (128 + n mod 128)) + word_of_nat (2 ^ (r + 7) * ((n - 128) div 128)))"
      using 1 w False vt by simp
    finally show ?thesis using False vt by (simp only: shifted_sum) simp
  qed
qed

lemma decode_varint_loop_short:
  "\<forall>c \<in> set (take (e - p) (drop p m)). 128 \<le> c \<Longrightarrow> e \<le> length m \<Longrightarrow>
   r + 7 * (e - p) < 71 \<Longrightarrow> \<exists>p' i'. decode_varint_loop m p e r i = Some (False, p', i')"
proof (induction "e - p" arbitrary: p r i)
  case 0
  then show ?case by (subst decode_varint_loop.simps) simp
next
  case (Suc k)
  then have "p < e" by linarith
  with Suc.prems have "take (e - p) (drop p m) \<noteq> []" by simp
  then obtain c cs where cs: "take (e - p) (drop p m) = c # cs" by (cases "take (e - p) (drop p m)") auto
  note w = window_Cons [OF cs]
  have "128 \<le> c" and "r < 64" using Suc.prems cs \<open>p < e\<close> by simp_all
  then have "decode_varint_loop m p e r i = decode_varint_loop m (Suc p) e (r + 7) (i + push_bit r (ucast c))"
    using w Suc.prems by (subst decode_varint_loop.simps) simp
  then show ?case using Suc.hyps(1) [of "Suc p" "r + 7"] Suc.hyps(2) Suc.prems cs w by simp
qed

text \<open>Every encoding of a 64-bit value fits the shifts of the decoder.\<close>

lemma vi_tail_length_u64: "length (vi_tail ((unat (v::u64) - 240) div 16)) \<le> 9"
proof -
  have "(unat v - 240) div 16 < vi_limit 8" using u64_less [of v] by (simp add: vi_limit_numeral)
  then show ?thesis using vi_tail_length [of _ 8] by simp
qed

lemma decode_varint_bytes:
  assumes win: "take (e - buf) (drop buf m) = vi_bytes (unat v) @ rest"
  shows "decode_varint m buf e i =
    Some (int (length (vi_bytes (unat v))), buf + length (vi_bytes (unat v)), v)"
proof (cases "unat v < 240")
  case True
  then have "take (e - buf) (drop buf m) = word_of_nat (unat v) # rest" using win by (simp add: vi_bytes_def)
  note w = window_Cons [OF this]
  have "ucast (word_of_nat (unat v) :: byte) = v" using True ucast_byte_u64 [of "unat v"] by simp
  with w True show ?thesis by (simp add: decode_varint_def vi_bytes_def word_less_nat_alt)
next
  case False
  let ?c = "word_of_nat (240 + unat v mod 16) :: byte" let ?n = "(unat v - 240) div 16"
  have vb: "vi_bytes (unat v) = ?c # vi_tail ?n" using False by (simp add: vi_bytes_def)
  then have "take (e - buf) (drop buf m) = ?c # (vi_tail ?n @ rest)" using win by simp
  note w = window_Cons [OF this]
  have c: "ucast ?c = (word_of_nat (240 + unat v mod 16) :: u64)" by (rule ucast_byte_u64) simp
  have "unat v - 240 = 16 * ?n + (unat v - 240) mod 16" by simp
  moreover have "(unat v - 240) mod 16 = unat v mod 16"
    using False mod_mult_self2 [of "unat v - 240" 16 15] by simp
  ultimately have "240 + unat v mod 16 + 16 * ?n = unat v" using False by linarith
  then have val: "(word_of_nat (240 + unat v mod 16) :: u64) + word_of_nat (2 ^ 4 * ?n) = v"
    by (simp only: of_nat_add [symmetric]) simp
  have "\<not> (word_of_nat (240 + unat v mod 16) :: u64) < 240"
    by (simp only: word_less_nat_alt unsigned_of_nat) (simp add: take_bit_eq_mod)
  then show ?thesis
    using w vb c val decode_varint_loop_tail [OF w(3), of 4] vi_tail_length_u64 [of v]
    by (simp add: decode_varint_def Let_def del: of_nat_add)
qed

section \<open>Varints in buffers\<close>

lemma b_tail_next_eq: "b_wf b \<Longrightarrow> p < buf_size b \<Longrightarrow> b_tail_next b p = (p + 1) mod buf_size b"
  by (auto simp: b_tail_next_def b_wrap_def b_orig_def b_size_def)

text \<open>With enough room both loops write all but the last byte and stop on it.\<close>

lemma b_put_varint_loop_fits:
  assumes "b_wf b" and "length ar = buf_size b" and "tail < buf_size b"
    and "dat + length (vi_tail (unat v)) < buf_size b"
  shows "\<exists>ys v'. b_put_varint_loop b ar tail dat v =
      Some (ring_write ar ((tail + 1) mod buf_size b) ys, (tail + 1 + length ys) mod buf_size b,
        dat + 1 + length ys, v') \<and> vi_tail (unat v) = ys @ [ucast v']"
  using assms
proof (induction b ar tail dat v rule: b_put_varint_loop.induct)
  case (1 b ar tail dat v)
  note d = b_wfD [OF 1(2)]
  let ?n = "buf_size b" let ?t = "(tail + 1) mod ?n"
  have t: "?t < ?n" using 1 by simp
  have nx: "b_tail_next b tail = ?t" using 1 by (simp add: b_tail_next_eq)
  have "0 < length (vi_tail (unat v))" by simp
  then have "dat + 1 < ?n" using 1(5) by linarith
  then have dat: "sz_add dat 1 = dat + 1" "dat + 1 \<noteq> b_size b"
    using d by (simp_all add: sz_simps b_size_def)
  show ?case
  proof (cases "v < 128")
    case True
    then show ?thesis
      using nx dat by (intro exI [of _ "[]"] exI [of _ v], subst b_put_varint_loop.simps)
        (simp add: vi_tail_last)
  next
    case False
    let ?c = "ucast v OR 128 :: byte" and ?v = "drop_bit 7 (v - 128)"
    have vt: "vi_tail (unat v) = ?c # vi_tail (unat ?v)"
      using False by (intro word_of_nat_128) simp
    have "b_put_varint_loop b ar tail dat v = b_put_varint_loop b (ar[?t := ?c]) ?t (dat + 1) ?v"
      using False dat nx t 1 by (subst b_put_varint_loop.simps) (simp add: mem_simps Let_def)
    moreover have "\<exists>ys v'. b_put_varint_loop b (ar[?t := ?c]) ?t (dat + 1) ?v =
        Some (ring_write (ar[?t := ?c]) ((?t + 1) mod ?n) ys, (?t + 1 + length ys) mod ?n,
          dat + 1 + 1 + length ys, v') \<and> vi_tail (unat ?v) = ys @ [ucast v']"
      using 1 False dat nx t vt by (intro 1(1)) (simp_all add: mem_simps)
    ultimately obtain ys v' where loop: "b_put_varint_loop b ar tail dat v =
        Some (ring_write (ar[?t := ?c]) ((?t + 1) mod ?n) ys, (?t + 1 + length ys) mod ?n,
          dat + 1 + 1 + length ys, v')" and ys: "vi_tail (unat ?v) = ys @ [ucast v']"
      by auto
    have "ring_write (ar[?t := ?c]) ((?t + 1) mod ?n) ys = ring_write ar ?t (?c # ys)"
      using ring_write_Cons [of ?t ar ys ?c] t 1 vt ys by simp
    moreover have "(?t + 1 + length ys) mod ?n = (tail + 1 + length (?c # ys)) mod ?n"
      using mod_add_left_eq [of "tail + 1" ?n "1 + length ys"] by (simp add: add.assoc)
    ultimately show ?thesis
      using loop ys vt by (intro exI [of _ "?c # ys"] exI [of _ v']) simp
  qed
qed

lemma raw_b_put_varint_loop_eq:
  assumes "b_wf b" and "dat + length (vi_tail (unat v)) < buf_size b"
  shows "raw_b_put_varint_loop b ar tail dat v = b_put_varint_loop b ar tail dat v"
  using assms
proof (induction b ar tail dat v rule: raw_b_put_varint_loop.induct)
  case (1 b ar tail dat v)
  have "0 < length (vi_tail (unat v))" by simp
  then have "dat + 1 < buf_size b" using 1(3) by linarith
  then have dat: "sz_add dat 1 = dat + 1" "dat + 1 \<noteq> b_size b"
    using b_wfD [OF 1(2)] by (simp_all add: sz_simps b_size_def)
  show ?case
  proof (cases "v < 128")
    case True
    then show ?thesis
      using dat by (subst raw_b_put_varint_loop.simps, subst b_put_varint_loop.simps) simp
  next
    case False
    then have "vi_tail (unat v) = (ucast v OR 128) # vi_tail (unat (drop_bit 7 (v - 128)))"
      by (intro word_of_nat_128) simp
    then have "raw_b_put_varint_loop b x (b_tail_next b tail) (dat + 1) (drop_bit 7 (v - 128)) =
        b_put_varint_loop b x (b_tail_next b tail) (dat + 1) (drop_bit 7 (v - 128))"
      if "st ar (b_tail_next b tail) (ucast v OR 128) = Some x" for x
      using 1 False that dat by simp
    then show ?thesis
      using False dat
      by (subst raw_b_put_varint_loop.simps, subst b_put_varint_loop.simps)
         (cases "st ar (b_tail_next b tail) (ucast v OR 128)"; simp)
  qed
qed

lemma b_put_varint_loop_full:
  assumes "b_wf b" and "length ar = buf_size b" and "tail < buf_size b" and "dat < buf_size b"
    and "buf_size b \<le> dat + length (vi_tail (unat v))"
  shows "\<exists>ys t v'. b_put_varint_loop b ar tail dat v =
      Some (ring_write ar ((tail + 1) mod buf_size b) ys, t, buf_size b, v') \<and>
      dat + 1 + length ys = buf_size b"
  using assms
proof (induction b ar tail dat v rule: b_put_varint_loop.induct)
  case (1 b ar tail dat v)
  note d = b_wfD [OF 1(2)]
  let ?n = "buf_size b" let ?t = "(tail + 1) mod ?n"
  have t: "?t < ?n" using 1 by simp
  have nx: "b_tail_next b tail = ?t" using 1 by (simp add: b_tail_next_eq)
  have dat: "sz_add dat 1 = dat + 1" using 1 d by (simp add: sz_simps)
  show ?case
  proof (cases "dat + 1 = ?n")
    case True
    then show ?thesis
      using nx dat by (intro exI [of _ "[]"] exI [of _ ?t] exI [of _ v], subst b_put_varint_loop.simps)
        (simp add: b_size_def)
  next
    case False
    have v: "\<not> v < 128" using 1 False by (auto simp: vi_tail_last)
    let ?c = "ucast v OR 128 :: byte" and ?v = "drop_bit 7 (v - 128)"
    have vt: "vi_tail (unat v) = ?c # vi_tail (unat ?v)"
      using v by (intro word_of_nat_128) simp
    have "b_put_varint_loop b ar tail dat v = b_put_varint_loop b (ar[?t := ?c]) ?t (dat + 1) ?v"
      using False v dat nx t 1 by (subst b_put_varint_loop.simps) (simp add: mem_simps b_size_def Let_def)
    moreover have "\<exists>ys t' v'. b_put_varint_loop b (ar[?t := ?c]) ?t (dat + 1) ?v =
        Some (ring_write (ar[?t := ?c]) ((?t + 1) mod ?n) ys, t', ?n, v') \<and>
        dat + 1 + 1 + length ys = ?n"
      using 1 False v dat nx t vt by (intro 1(1)) (simp_all add: mem_simps b_size_def)
    ultimately obtain ys t' v' where loop: "b_put_varint_loop b ar tail dat v =
        Some (ring_write (ar[?t := ?c]) ((?t + 1) mod ?n) ys, t', ?n, v')"
      and ys: "dat + 1 + 1 + length ys = ?n"
      by auto
    have "ring_write (ar[?t := ?c]) ((?t + 1) mod ?n) ys = ring_write ar ?t (?c # ys)"
      using ring_write_Cons [of ?t ar ys ?c] t 1 ys by simp
    then show ?thesis
      using loop ys by (intro exI [of _ "?c # ys"] exI [of _ t'] exI [of _ v']) simp
  qed
qed


text \<open>\<^verbatim>\<open>b_put_varint\<close> appends the whole encoding or leaves the content as it was.\<close>

lemma b_put_varint_eq:
  assumes wf: "b_wf b" and fits: "buf_data b + length (vi_bytes (unat v)) \<le> buf_size b"
  shows "b_put_varint b v = Some (length (vi_bytes (unat v)),
      b\<lparr>buf_area := ring_write (buf_area b) (b_tail b) (vi_bytes (unat v)),
        buf_data := buf_data b + length (vi_bytes (unat v))\<rparr>)"
    and "raw_b_put_varint b v = Some (
      b\<lparr>buf_area := ring_write (buf_area b) (b_tail b) (vi_bytes (unat v)),
        buf_data := buf_data b + length (vi_bytes (unat v))\<rparr>)"
proof -
  note d = b_wfD [OF wf]
  let ?n = "buf_size b" let ?t = "b_tail b" let ?a = "buf_area b" let ?k = "buf_data b"
  have "vi_bytes (unat v) \<noteq> []" by (simp add: vi_bytes_def)
  then have pos: "0 < length (vi_bytes (unat v))" by simp
  then have n: "0 < ?n" "?k < ?n" using fits by linarith+
  have t: "?t < ?n" using wf n by (simp add: b_tail_eq)
  have "b_put_varint b v = Some (length (vi_bytes (unat v)),
      b\<lparr>buf_area := ring_write ?a ?t (vi_bytes (unat v)), buf_data := ?k + length (vi_bytes (unat v))\<rparr>) \<and>
    raw_b_put_varint b v = Some (
      b\<lparr>buf_area := ring_write ?a ?t (vi_bytes (unat v)), buf_data := ?k + length (vi_bytes (unat v))\<rparr>)"
  proof (cases "v < 240")
    case True
    then have "\<not> 240 \<le> v" by simp
    with True show ?thesis
      using n d t by (simp add: b_put_varint_def raw_b_put_varint_def vi_bytes_small b_size_def
          mem_simps sz_simps list_update_ring_write Let_def)
  next
    case False
    let ?c = "ucast v OR 240 :: byte" and ?v = "drop_bit 4 (v - 240)"
    have vb: "vi_bytes (unat v) = ?c # vi_tail (unat ?v)" using False by (intro vi_bytes_large) simp
    have fit: "?k + length (vi_tail (unat ?v)) < ?n" using fits vb by simp
    obtain ys v' where loop: "b_put_varint_loop b (?a[?t := ?c]) ?t ?k ?v =
        Some (ring_write (?a[?t := ?c]) ((?t + 1) mod ?n) ys, (?t + 1 + length ys) mod ?n,
          ?k + 1 + length ys, v')" and ys: "vi_tail (unat ?v) = ys @ [ucast v']"
      using b_put_varint_loop_fits [OF wf _ t fit, of "?a[?t := ?c]"] d by auto
    have loop': "raw_b_put_varint_loop b (?a[?t := ?c]) ?t ?k ?v = b_put_varint_loop b (?a[?t := ?c]) ?t ?k ?v"
      by (rule raw_b_put_varint_loop_eq [OF wf fit])
    define q where "q = Suc (?t + length ys) mod ?n"
    have q: "q < ?n" using n by (simp add: q_def)
    have w1: "ring_write (?a[?t := ?c]) ((?t + 1) mod ?n) ys = ring_write ?a ?t (?c # ys)"
      using ring_write_Cons [of ?t ?a ys ?c] t d fit ys by simp
    have l1: "length (ring_write ?a ?t (?c # ys)) = ?n" using t d fit ys by simp
    have w2: "(ring_write ?a ?t (?c # ys))[q := ucast v'] = ring_write ?a ?t (vi_bytes (unat v))"
      using ring_write_append [of ?t ?a "?c # ys" "[ucast v']"] t d fit ys vb q l1
      by (simp add: list_update_ring_write q_def)
    have st: "st (ring_write ?a ?t (?c # ys)) q (ucast v') = Some (ring_write ?a ?t (vi_bytes (unat v)))"
      using q l1 w2 by (simp add: mem_simps)
    have neq: "?k + 1 + length ys \<noteq> ?n" "sz_add (?k + 1 + length ys) 1 = ?k + length (vi_bytes (unat v))"
      using fit ys vb d by (simp_all add: sz_simps)
    have sub: "sz_sub (?k + length (vi_bytes (unat v))) ?k = length (vi_bytes (unat v))"
      using fits d by (simp add: sz_simps)
    show ?thesis
      using False n d t loop loop' w1 st neq sub
      by (simp add: b_put_varint_def raw_b_put_varint_def b_size_def mem_simps not_less Let_def
          flip: q_def)
  qed
  then show "b_put_varint b v = Some (length (vi_bytes (unat v)),
      b\<lparr>buf_area := ring_write (buf_area b) (b_tail b) (vi_bytes (unat v)),
        buf_data := buf_data b + length (vi_bytes (unat v))\<rparr>)"
    and "raw_b_put_varint b v = Some (
      b\<lparr>buf_area := ring_write (buf_area b) (b_tail b) (vi_bytes (unat v)),
        buf_data := buf_data b + length (vi_bytes (unat v))\<rparr>)" by simp_all
qed

lemma b_put_varint_correct:
  assumes wf: "b_wf b" and fits: "buf_data b + length (vi_bytes (unat v)) \<le> buf_size b"
  obtains b' where "b_put_varint b v = Some (length (vi_bytes (unat v)), b')" and "b_wf b'"
    and "b_list b' = b_list b @ vi_bytes (unat v)" and "buf_size b' = buf_size b"
    and "raw_b_put_varint b v = Some b'"
proof -
  note d = b_wfD [OF wf]
  let ?xs = "vi_bytes (unat v)"
  let ?b = "b\<lparr>buf_area := ring_write (buf_area b) (b_tail b) ?xs, buf_data := buf_data b + length ?xs\<rparr>"
  have "?xs \<noteq> []" by (simp add: vi_bytes_def)
  then have "0 < length ?xs" by simp
  then have n: "0 < buf_size b" "buf_head b < buf_size b" using fits d by linarith+
  have "b_wf ?b" using d n fits wf by (auto simp: b_wf_def b_tail_eq)
  moreover have "b_list ?b = b_list b @ ?xs"
    using ring_read_write [of "buf_head b" "buf_area b" "buf_data b" ?xs] n d fits wf
    by (simp add: b_list_def b_tail_eq)
  ultimately show thesis using b_put_varint_eq [OF assms] by (intro that [of ?b]) simp_all
qed

lemma b_put_varint_no_room:
  assumes wf: "b_wf b" and full: "buf_size b < buf_data b + length (vi_bytes (unat v))"
  obtains b' where "b_put_varint b v = Some (0, b')" and "b_wf b'" and "b_list b' = b_list b"
    and "buf_size b' = buf_size b"
proof (cases "buf_data b = buf_size b")
  case True
  then show thesis using wf by (intro that [of b]) (simp_all add: b_put_varint_def b_size_def)
next
  case False
  note d = b_wfD [OF wf]
  let ?n = "buf_size b" let ?t = "b_tail b" let ?a = "buf_area b" let ?k = "buf_data b"
  have n: "0 < ?n" "?k < ?n" "buf_head b < ?n" using False d by auto
  have t: "?t < ?n" using wf n by (simp add: b_tail_eq)
  have v: "\<not> v < 240" using full False d by (auto simp: vi_bytes_small)
  let ?c = "ucast v OR 240 :: byte" and ?v = "drop_bit 4 (v - 240)"
  have vb: "vi_bytes (unat v) = ?c # vi_tail (unat ?v)" using v by (intro vi_bytes_large) simp
  then have full': "?n \<le> ?k + length (vi_tail (unat ?v))" using full by simp
  obtain ys t' v' where loop: "b_put_varint_loop b (?a[?t := ?c]) ?t ?k ?v =
      Some (ring_write (?a[?t := ?c]) ((?t + 1) mod ?n) ys, t', ?n, v')"
    and ys: "?k + 1 + length ys = ?n"
    using b_put_varint_loop_full [OF wf _ t n(2) full', of "?a[?t := ?c]"] d by auto
  have w1: "ring_write (?a[?t := ?c]) ((?t + 1) mod ?n) ys = ring_write ?a ?t (?c # ys)"
    using ring_write_Cons [of ?t ?a ys ?c] t d ys by simp
  let ?b = "b\<lparr>buf_area := ring_write ?a ?t (?c # ys)\<rparr>"
  have "b_put_varint b v = Some (0, ?b)"
    using v n d t loop w1 by (simp add: b_put_varint_def b_size_def mem_simps not_less Let_def)
  moreover have "b_wf ?b" using d n t ys by (auto simp: b_wf_def)
  moreover have "b_list ?b = b_list b"
  proof (cases "?k = 0")
    case False
    have "(?t + (?n - ?k)) mod ?n = (buf_head b + (?k + (?n - ?k))) mod ?n"
      using wf n by (simp only: b_tail_eq mod_add_left_eq add.assoc)
    also have "\<dots> = buf_head b" using n by simp
    finally have "buf_head b = (?t + (?n - ?k)) mod ?n" by (rule sym)
    then show ?thesis
      using ring_read_write_frame [of ?t ?a "?n - ?k" ?k "?c # ys" "buf_head b"] t d n ys False
      by (simp add: b_list_def)
  qed (simp add: b_list_def)
  ultimately show thesis by (intro that [of ?b]) simp_all
qed

lemma b_peek_varint_loop_tail:
  assumes "b_wf b" and "hea < buf_size b"
    and "ring_read (buf_area b) ((hea + 1) mod buf_size b) (dat - 1) = vi_tail n @ rest"
    and "r + 7 * length (vi_tail n) < 71" and "0 < dat"
  shows "\<exists>hea' r' c v. b_peek_varint_loop b hea dat r i = Some (hea', length rest + 1, r', v) \<and>
     ld (buf_area b) hea' = Some c \<and> r' < 64 \<and>
     v + push_bit r' (ucast c) = i + word_of_nat (2 ^ r * n)"
  using assms
proof (induction n arbitrary: hea dat r i rule: vi_tail.induct)
  case (1 n)
  let ?n = "buf_size b" let ?h = "(hea + 1) mod ?n"
  obtain k where k: "dat = Suc k" using 1 by (cases dat) auto
  have h: "?h < ?n" "b_tail_next b hea = ?h" using 1 by (simp_all add: b_tail_next_eq)
  have "length (vi_tail n) \<noteq> 0" by simp
  then obtain j where j: "k = Suc j"
    using 1(4) k by (cases k) (auto simp: )
  have cells: "buf_area b ! ?h # ring_read (buf_area b) (b_next b ?h) j = vi_tail n @ rest"
    using 1(4) k j ring_read_next [OF 1(2) h(1)] by simp
  have ldc: "ld (buf_area b) ?h = Some (buf_area b ! ?h)"
    using h b_wfD [OF 1(2)] by (simp add: mem_simps)
  show ?case
  proof (cases "n < 128")
    case True
    then have c: "buf_area b ! ?h = word_of_nat n" and rest: "rest = ring_read (buf_area b) (b_next b ?h) j"
      using cells by (auto simp: vi_tail_small)
    have "b_peek_varint_loop b hea dat r i = Some (?h, length rest + 1, r, i)"
      using k j h ldc c rest True by (simp add: byte_and_128 word_less_nat_alt unat_byte_of_nat)
    moreover have "i + push_bit r (ucast (word_of_nat n :: byte)) = i + word_of_nat (2 ^ r * n)"
      using True ucast_byte_u64 [of n] by (simp add: push_bit_eq_mult mult.commute)
    ultimately show ?thesis
      using ldc c 1(5) True by (intro exI [of _ ?h] exI [of _ r] exI [of _ "word_of_nat n"] exI [of _ i])
        (simp add: vi_tail_small)
  next
    case False
    let ?c = "word_of_nat (128 + n mod 128) :: byte" let ?m = "(n - 128) div 128"
    have vt: "vi_tail n = ?c # vi_tail ?m" using False by (simp add: vi_tail_large)
    have c: "buf_area b ! ?h = ?c" and more: "ring_read (buf_area b) (b_next b ?h) j = vi_tail ?m @ rest"
      using cells vt by simp_all
    have nx: "b_next b ?h = (?h + 1) mod ?n" using 1 h by (simp add: b_next_eq)
    have big: "\<not> ?c < 128" by (simp only: word_less_nat_alt unat_byte_of_nat) simp
    have "b_peek_varint_loop b hea dat r i =
        b_peek_varint_loop b ?h k (r + 7) (i + push_bit r (word_of_nat (128 + n mod 128)))"
      using k j h ldc c big 1(5) vt ucast_byte_u64 [of "128 + n mod 128"]
      by (simp add: byte_and_128 del: of_nat_add)
    moreover have "\<exists>hea' r' c v. b_peek_varint_loop b ?h k (r + 7) (i + push_bit r (word_of_nat (128 + n mod 128))) =
        Some (hea', length rest + 1, r', v) \<and>
     ld (buf_area b) hea' = Some c \<and> r' < 64 \<and>
     v + push_bit r' (ucast c) = i + push_bit r (word_of_nat (128 + n mod 128)) + word_of_nat (2 ^ (r + 7) * ?m)"
      using 1(1) [OF _ 1(2) h(1), of k "r + 7"] False more nx j 1(5) vt by simp
    ultimately show ?thesis using False by (simp only: shifted_sum)
  qed
qed

lemma vi_split_large:
  "240 \<le> unat v \<Longrightarrow> (word_of_nat (240 + unat v mod 16) :: u64) + word_of_nat (2 ^ 4 * ((unat v - 240) div 16)) = v"
proof -
  assume v: "240 \<le> unat v"
  let ?n = "(unat v - 240) div 16"
  have "unat v - 240 = 16 * ?n + (unat v - 240) mod 16" by simp
  moreover have "(unat v - 240) mod 16 = unat v mod 16"
    using v mod_mult_self2 [of "unat v - 240" 16 15] by simp
  ultimately have "240 + unat v mod 16 + 16 * ?n = unat v" using v by linarith
  then show ?thesis by (simp only: of_nat_add [symmetric]) simp
qed

lemma b_peek_varint_correct:
  assumes wf: "b_wf b" and ofs: "ofs \<le> buf_data b"
    and bytes: "drop ofs (b_list b) = vi_bytes (unat v) @ rest"
  shows "b_peek_varint b ofs i = Some (length (vi_bytes (unat v)), v)"
proof -
  note d = b_wfD [OF wf]
  let ?n = "buf_size b" let ?a = "buf_area b" let ?k = "buf_data b - ofs"
  define h where "h = b_peek b ofs"
  have "vi_bytes (unat v) \<noteq> []" by (simp add: vi_bytes_def)
  then have lk: "?k = length (vi_bytes (unat v)) + length rest" "0 < length (vi_bytes (unat v))"
    using arg_cong [OF bytes, of length] by simp_all
  then have n: "0 < ?n" "ofs \<le> ?n" using d ofs by linarith+
  have h: "h < ?n" "h = (buf_head b + ofs) mod ?n" using wf n by (simp_all add: h_def b_peek_eq)
  have rr: "ring_read ?a h ?k = vi_bytes (unat v) @ rest"
    using bytes d ring_read_mod [of ?a "buf_head b + ofs" ?k] by (simp add: b_list_def h(2))
  obtain k where k: "?k = Suc k" using lk by (metis add_is_0 not0_implies_Suc not_gr_zero)
  have cells: "?a ! h # ring_read ?a ((h + 1) mod ?n) k = vi_bytes (unat v) @ rest"
    using rr k ring_read_next [OF wf h(1)] wf h by (simp add: b_next_eq)
  have ldh: "ld ?a h = Some (?a ! h)" using h d by (simp add: mem_simps)
  have dat: "sz_sub (b_data b) ofs = ?k" "sz_sub (buf_data b) ofs = ?k"
    using ofs d by (simp_all add: b_data_def sz_simps)
  have siz: "sz_sub ?k (sz_sub (length rest + 1) 1) = length (vi_bytes (unat v))"
    using lk d ofs by (simp add: sz_simps)
  show ?thesis
  proof (cases "unat v < 240")
    case True
    then have c: "?a ! h = word_of_nat (unat v)" and l1: "length rest + 1 = ?k"
      using cells lk by (auto simp: vi_bytes_def)
    have "\<not> (240 :: byte) \<le> word_of_nat (unat v)"
      using True by (simp only: word_le_nat_alt unat_byte_of_nat) simp
    moreover have "ucast (word_of_nat (unat v) :: byte) = v" using True ucast_byte_u64 [of "unat v"] by simp
    ultimately show ?thesis
      using c ldh k dat siz l1 unfolding b_peek_varint_def Let_def h_def [symmetric] by simp
  next
    case False
    let ?c = "word_of_nat (240 + unat v mod 16) :: byte" let ?m = "(unat v - 240) div 16"
    have vb: "vi_bytes (unat v) = ?c # vi_tail ?m" using False by (simp add: vi_bytes_def)
    then have c: "?a ! h = ?c" and more: "ring_read ?a ((h + 1) mod ?n) k = vi_tail ?m @ rest"
      using cells by simp_all
    have big: "240 \<le> ?c" by (simp only: word_le_nat_alt unat_byte_of_nat) simp
    obtain h' r' c' v' where loop: "b_peek_varint_loop b h ?k 4 (ucast ?c) = Some (h', length rest + 1, r', v')"
      and "ld ?a h' = Some c'" and "r' < 64"
      and "v' + push_bit r' (ucast c') = ucast ?c + word_of_nat (2 ^ 4 * ?m)"
      using b_peek_varint_loop_tail [OF wf h(1), of ?k ?m rest 4 "ucast ?c"] more k vi_tail_length_u64 [of v]
      by auto
    moreover have "ucast ?c + word_of_nat (2 ^ 4 * ?m) = v"
      using vi_split_large [of v] False ucast_byte_u64 [of "240 + unat v mod 16"] by simp
    ultimately show ?thesis
      using c ldh k dat siz big unfolding b_peek_varint_def Let_def h_def [symmetric]
      by (simp del: of_nat_add)
  qed
qed

text \<open>A value is written at the tail and read back from the head.\<close>

lemma b_get_varint_correct:
  assumes wf: "b_wf b" and bytes: "b_list b = vi_bytes (unat v) @ rest"
  obtains b' where "b_get_varint b i = Some (length (vi_bytes (unat v)), b', v)" and "b_wf b'"
    and "b_list b' = rest"
proof -
  have "length (vi_bytes (unat v)) \<le> buf_data b" using arg_cong [OF bytes, of length] by simp
  note del = b_del_correct [OF wf this]
  have "b_peek_varint b 0 i = Some (length (vi_bytes (unat v)), v)"
    using b_peek_varint_correct [OF wf, of 0 v rest i] bytes by simp
  with del bytes show thesis
    by (intro that [of "b_del b (length (vi_bytes (unat v)))"]) (simp_all add: b_get_varint_def)
qed

text \<open>When the value is not complete, nothing is read.\<close>

lemma b_peek_varint_loop_short:
  assumes "b_wf b" and "hea < buf_size b" and "0 < dat"
    and "\<forall>c \<in> set (ring_read (buf_area b) ((hea + 1) mod buf_size b) (dat - 1)). 128 \<le> c"
    and "r + 7 * dat < 78"
  shows "\<exists>h' r' v. b_peek_varint_loop b hea dat r i = Some (h', 0, r', v)"
  using assms
proof (induction dat arbitrary: hea r i)
  case (Suc k)
  let ?n = "buf_size b" let ?h = "(hea + 1) mod ?n"
  have h: "?h < ?n" "b_tail_next b hea = ?h" using Suc.prems by (simp_all add: b_tail_next_eq)
  show ?case
  proof (cases k)
    case (Suc j)
    have cells: "ring_read (buf_area b) ?h k = buf_area b ! ?h # ring_read (buf_area b) ((?h + 1) mod ?n) j"
      using ring_read_next [OF Suc.prems(1) h(1), of j] Suc Suc.prems(1) h(1) by (simp add: b_next_eq)
    have "\<not> buf_area b ! ?h < 128" using Suc.prems(4) cells by (simp add: not_less)
    moreover have "ld (buf_area b) ?h = Some (buf_area b ! ?h)"
      using h b_wfD [OF Suc.prems(1)] by (simp add: mem_simps)
    ultimately have "b_peek_varint_loop b hea (Suc k) r i =
        b_peek_varint_loop b ?h k (r + 7) (i + push_bit r (ucast (buf_area b ! ?h)))"
      using h Suc Suc.prems(5) by (simp add: byte_and_128 Let_def)
    then show ?thesis
      using Suc.IH [OF Suc.prems(1) h(1), of "r + 7"] Suc.prems cells Suc by simp
  qed (use h in simp)
qed simp

lemma b_get_varint_incomplete:
  assumes wf: "b_wf b" and bytes: "vi_bytes (unat (v::u64)) = b_list b @ c # cs"
  shows "b_get_varint b i = Some (0, b_del b 0, i)"
proof (cases "buf_data b = 0")
  case True
  then show ?thesis by (simp add: b_get_varint_def b_peek_varint_def b_data_def sz_simps)
next
  case False
  note d = b_wfD [OF wf]
  let ?n = "buf_size b" let ?a = "buf_area b"
  obtain k where k: "buf_data b = Suc k" using False by (cases "buf_data b") auto
  have n: "0 < ?n" "buf_head b < ?n" using k d by auto
  have h: "b_peek b 0 = buf_head b" using wf n by (simp add: b_peek_eq)
  have cells: "b_list b = ?a ! buf_head b # ring_read ?a ((buf_head b + 1) mod ?n) k"
    using k ring_read_next [OF wf n(2)] wf n by (simp add: b_list_def b_next_eq)
  have "length (vi_bytes (unat v)) \<noteq> 1" using bytes cells by simp
  then have v: "\<not> unat v < 240" by (auto simp: vi_bytes_def)
  let ?m = "(unat v - 240) div 16"
  have vb: "vi_bytes (unat v) = word_of_nat (240 + unat v mod 16) # vi_tail ?m"
    using v by (simp add: vi_bytes_def)
  have first: "?a ! buf_head b = word_of_nat (240 + unat v mod 16)"
    and tail: "vi_tail ?m = ring_read ?a ((buf_head b + 1) mod ?n) k @ c # cs"
    using bytes cells vb by simp_all
  have big: "(240 :: byte) \<le> word_of_nat (240 + unat v mod 16)"
    by (simp only: word_le_nat_alt unat_byte_of_nat) simp
  have all: "\<forall>x \<in> set (ring_read ?a ((buf_head b + 1) mod ?n) k). 128 \<le> x"
  proof -
    have "vi_untail (ring_read ?a ((buf_head b + 1) mod ?n) k) = None"
    proof (rule ccontr)
      assume "\<not> ?thesis"
      then obtain w rs where "vi_untail (ring_read ?a ((buf_head b + 1) mod ?n) k) = Some (w, rs)" by auto
      then have "ring_read ?a ((buf_head b + 1) mod ?n) k = vi_tail w @ rs" by (rule vi_untail_Some)
      then have "vi_tail ?m @ [] = vi_tail w @ (rs @ c # cs)" using tail by simp
      then have "Some (?m, []) = Some (w, rs @ c # cs)" by (metis vi_untail_tail)
      then show False by simp
    qed
    then show ?thesis by (simp add: vi_untail_None)
  qed
  have "buf_data b \<le> 9" using arg_cong [OF tail, of length] vi_tail_length_u64 [of v] k by simp
  then have "\<exists>h' r' v'. b_peek_varint_loop b (buf_head b) (buf_data b) 4 (ucast (?a ! buf_head b)) =
      Some (h', 0, r', v')"
    using all k by (intro b_peek_varint_loop_short [OF wf n(2)]) simp_all
  then obtain h' r' v' where
    "b_peek_varint_loop b (buf_head b) (buf_data b) 4 (ucast (?a ! buf_head b)) = Some (h', 0, r', v')"
    by blast
  moreover have "ld ?a (buf_head b) = Some (?a ! buf_head b)" using n d by (simp add: mem_simps)
  ultimately have "b_peek_varint b 0 i = Some (0, i)"
    using k h first big d by (simp add: b_peek_varint_def b_data_def sz_simps Let_def
        del: of_nat_add b_peek_varint_loop.simps)
  then show ?thesis by (simp add: b_get_varint_def)
qed

section \<open>Both size functions\<close>

lemma varint_bytes_loop_eq: "varint_bytes_loop v len = len + length (vi_tail (unat v))"
proof (induction v len rule: varint_bytes_loop.induct)
  case (1 v len)
  show ?case
  proof (cases "v < 128")
    case True
    then show ?thesis by (subst varint_bytes_loop.simps) (simp add: vi_tail_last)
  next
    case False
    then have "vi_tail (unat v) = (ucast v OR 128) # vi_tail (unat (drop_bit 7 (v - 128)))"
      by (intro word_of_nat_128) simp
    with 1 False show ?thesis by (subst varint_bytes_loop.simps) simp
  qed
qed

lemma varint_bytes_eq: "varint_bytes v = length (vi_bytes (unat v))"
proof (cases "v < 240")
  case True
  then have "\<not> 240 \<le> v" by simp
  with True show ?thesis by (simp add: varint_bytes_def vi_bytes_small)
next
  case False
  then have "vi_bytes (unat v) = (ucast v OR 240) # vi_tail (unat (drop_bit 4 (v - 240)))"
    by (intro vi_bytes_large) simp
  with False show ?thesis by (simp add: varint_bytes_def varint_bytes_loop_eq not_less)
qed

section \<open>What the decoder accepts\<close>

lemma decode_varint_loop_True:
  "decode_varint_loop m p e r i = Some (True, p', i') \<Longrightarrow>
   \<exists>n rest. take (e - p) (drop p m) = vi_tail n @ rest \<and> p' = p + length (vi_tail n) \<and>
     i' = i + word_of_nat (2 ^ r * n)"
proof (induction m p e r i rule: decode_varint_loop.induct)
  case (1 m p e r i)
  have p: "p < e" and "p < length m" and r: "r < 64"
    using 1(2) by (auto simp: decode_varint_loop.simps [of m p] ld_def split: if_splits)
  then have ldc: "ld m p = Some (m ! p)" by (simp add: mem_simps)
  define xs where "xs = take (e - Suc p) (drop (Suc p) m)"
  have win: "take (e - p) (drop p m) = m ! p # xs"
    using p \<open>p < length m\<close> by (simp add: xs_def Cons_nth_drop_Suc [symmetric] take_Cons' )
  have c: "unat (m ! p) < 256" by (rule byte_less)
  show ?case
  proof (cases "128 \<le> m ! p")
    case True
    have rec: "decode_varint_loop m (p + 1) e (r + 7) (i + push_bit r (ucast (m ! p))) = Some (True, p', i')"
      using 1(2) True p ldc r by (simp add: decode_varint_loop.simps [of m p])
    obtain n rest where n: "xs = vi_tail n @ rest" "p' = p + 1 + length (vi_tail n)"
      "i' = i + push_bit r (ucast (m ! p)) + word_of_nat (2 ^ (r + 7) * n)"
      using 1(1) [OF _ ldc _ True rec] p r by (auto simp: xs_def)
    let ?n = "unat (m ! p) + 128 * n"
    have ge: "128 \<le> unat (m ! p)" using True by (simp add: word_le_nat_alt)
    have parts: "(?n - 128) div 128 = n" "128 + ?n mod 128 = unat (m ! p)"
      using ge c by (auto simp: le_mod_geq)
    have vt: "vi_tail ?n = m ! p # vi_tail n"
      using ge parts vi_tail_large [of ?n] by simp
    have "word_of_nat (unat (m ! p)) = (ucast (m ! p) :: u64)" by simp
    then have "i + word_of_nat (2 ^ r * ?n) = i'"
      using shifted_sum [of ?n i r] ge unfolding n(3) parts by simp
    then show ?thesis using win n vt by (intro exI [of _ ?n] exI [of _ rest]) simp
  next
    case False
    have "p' = p + 1" "i' = i + push_bit r (ucast (m ! p))"
      using 1(2) False p ldc r by (simp_all add: decode_varint_loop.simps [of m p])
    moreover have "vi_tail (unat (m ! p)) = [m ! p]"
      using False by (simp add: vi_tail_small word_le_nat_alt)
    moreover have "push_bit r (ucast (m ! p)) = (word_of_nat (2 ^ r * unat (m ! p)) :: u64)"
      by (simp add: push_bit_eq_mult mult.commute)
    ultimately show ?thesis
      using win by (intro exI [of _ "unat (m ! p)"] exI [of _ xs]) simp
  qed
qed

lemma vi_bytes_Cons:
  assumes "240 \<le> (c::byte)"
  shows "vi_bytes (unat c + 16 * n) = c # vi_tail n"
proof -
  have c: "240 \<le> unat c" "unat c < 256" using assms byte_less by (auto simp: word_le_nat_alt)
  then have "unat c mod 16 = (unat c - 240) mod 16" using mod_mult_self2 [of "unat c - 240" 16 15] by simp
  then have "240 + (unat c + 16 * n) mod 16 = unat c" using c by simp
  moreover have "(unat c + 16 * n - 240) div 16 = n"
  proof -
    have "unat c + 16 * n - 240 = (unat c - 240) + 16 * n" using c by simp
    then show ?thesis using c by simp
  qed
  ultimately show ?thesis using c unfolding vi_bytes_def by simp
qed

lemma decode_varint_accepts:
  assumes dec: "decode_varint m buf e i = Some (r, p, v)" and r: "0 < r" "r \<le> 9"
  shows "take (e - buf) (drop buf m) = vi_bytes (unat v) @ drop (p - buf) (take (e - buf) (drop buf m)) \<and>
    int (length (vi_bytes (unat v))) = r \<and> int p = int buf + r"
proof -
  have b: "buf < e" "buf < length m"
    using dec r by (auto simp: decode_varint_def ld_def split: if_splits)
  then have ldc: "ld m buf = Some (m ! buf)" by (simp add: mem_simps)
  define c xs where "c = m ! buf" and "xs = take (e - Suc buf) (drop (Suc buf) m)"
  have win: "take (e - buf) (drop buf m) = c # xs"
    using b by (simp add: c_def xs_def Cons_nth_drop_Suc [symmetric] take_Cons')
  have uc: "unat (ucast c :: u64) = unat c" using byte_less [of c] by (simp add: unsigned_ucast_eq take_bit_eq_mod)
  show ?thesis
  proof (cases "(ucast c :: u64) < 240")
    case True
    then have "p = buf + 1" "v = ucast c" "r = 1" using dec b ldc by (auto simp: decode_varint_def c_def)
    moreover have "vi_bytes (unat c) = [c]" using True uc by (simp add: vi_bytes_def word_less_nat_alt)
    ultimately show ?thesis using win uc by simp
  next
    case False
    then obtain p' i' where loop: "decode_varint_loop m (buf + 1) e 4 (ucast c) = Some (True, p', i')"
      and res: "p = p'" "v = i'" "r = int p' - int buf"
      using dec r b ldc by (auto simp: decode_varint_def c_def split: bind_splits if_splits prod.splits)
    obtain n rest where n: "xs = vi_tail n @ rest" "p' = buf + 1 + length (vi_tail n)"
      "i' = ucast c + word_of_nat (2 ^ 4 * n)"
      using decode_varint_loop_True [OF loop] by (auto simp: xs_def)
    have "length (vi_tail n) \<le> Suc 7" using n(2) res r by simp
    then have "n < vi_limit 7" by (simp only: vi_tail_length)
    then have small: "unat c + 16 * n < 18446744073709551616"
      using byte_less [of c] by (simp add: vi_limit_numeral)
    have v: "unat v = unat c + 16 * n"
    proof -
      have "v = word_of_nat (unat c + 16 * n)" using res n(3) by simp
      then show ?thesis using small by (simp only: unsigned_of_nat) (simp add: take_bit_eq_mod)
    qed
    have "240 \<le> c" using False uc by (simp add: word_less_nat_alt word_le_nat_alt)
    then have "vi_bytes (unat v) = c # vi_tail n" unfolding v by (rule vi_bytes_Cons)
    then show ?thesis using win n res r by simp
  qed
qed

section \<open>Varints are a prefix code\<close>

definition varint_enc :: "u64 \<Rightarrow> bytes" where
  "varint_enc v = (case encode_varint v (replicate 10 0) 0 10 of
     Some (_, m, p) \<Rightarrow> take p m | None \<Rightarrow> [])"

definition varint_dec :: "bytes \<Rightarrow> (u64 \<times> bytes) option" where
  "varint_dec bs = (case decode_varint bs 0 (length bs) 0 of
     Some (r, p, v) \<Rightarrow> if r < 0 then None else Some (v, drop p bs) | None \<Rightarrow> None)"

lemma vi_bytes_le_10: "length (vi_bytes (unat (v::u64))) \<le> 10"
  using vi_tail_length_u64 [of v] by (simp add: vi_bytes_def)

lemma varint_enc_eq: "varint_enc v = vi_bytes (unat v)"
  using encode_varint_fits [of 0 v 10 "replicate 10 0"] vi_bytes_le_10 [of v]
  by (simp add: varint_enc_def blit_def)

interpretation vc: prefix_codec "\<lambda>v. True" varint_enc varint_dec
proof unfold_locales
  fix v :: u64 and rest :: bytes
  show "varint_dec (varint_enc v @ rest) = Some (v, rest)"
    using decode_varint_bytes [of "length (vi_bytes (unat v) @ rest)" 0 "vi_bytes (unat v) @ rest" v rest 0]
    by (simp add: varint_dec_def varint_enc_eq)
qed

section \<open>Properties\<close>

text \<open>C21. \<^verbatim>\<open>encode_varint\<close> and \<^verbatim>\<open>decode_varint\<close> are inverse: when the room announced by
  \<^verbatim>\<open>__varint_bytes\<close> is there, the encoder returns exactly this size, leaves the memory around it
  alone, and the decoder run on its output returns the value and stops at the same place.\<close>

theorem varint_roundtrip:
  assumes "buf + raw_varint_bytes v \<le> e" and "e \<le> length m"
  shows "\<exists>m' p. encode_varint v m buf e = Some (int (raw_varint_bytes v), m', p) \<and>
    p = buf + raw_varint_bytes v \<and> length m' = length m \<and>
    take buf m' = take buf m \<and> drop p m' = drop p m \<and>
    decode_varint m' buf e i = Some (int (raw_varint_bytes v), p, v)"
proof -
  let ?xs = "vi_bytes (unat v)" let ?m = "blit m buf ?xs" let ?p = "buf + length ?xs"
  have len: "raw_varint_bytes v = length ?xs" by (rule raw_varint_bytes_eq)
  have fit: "?p \<le> e" "e \<le> length m" using assms len by simp_all
  have "drop buf ?m = ?xs @ drop ?p m" using fit by (simp add: blit_def)
  then have "take (e - buf) (drop buf ?m) = ?xs @ take (e - ?p) (drop ?p m)" using fit by simp
  note dec = decode_varint_bytes [OF this, of i]
  moreover have "take buf ?m = take buf m" and "drop ?p ?m = drop ?p m"
    using fit by (simp_all add: blit_def)
  ultimately show ?thesis
    using encode_varint_fits [of buf v e m] fit len by (intro exI [of _ ?m] exI [of _ ?p]) simp
qed

theorem varint_roundtrip_witness:
  "\<exists>m' p. encode_varint 300000 [1, 2, 3, 4, 5] 1 5 = Some (int (raw_varint_bytes 300000), m', p) \<and>
    p = 1 + raw_varint_bytes 300000 \<and> length m' = length [1::byte, 2, 3, 4, 5] \<and>
    take 1 m' = take 1 [1, 2, 3, 4, 5] \<and> drop p m' = drop p [1, 2, 3, 4, 5] \<and>
    decode_varint m' 1 5 0 = Some (int (raw_varint_bytes 300000), p, 300000)"
  by (rule varint_roundtrip) (simp_all add: raw_varint_bytes_def)

text \<open>Without enough room \<^verbatim>\<open>encode_varint\<close> returns -1, does not move the pointer, and writes
  nothing outside of the room it was given.\<close>

theorem encode_varint_no_room:
  assumes "e < buf + raw_varint_bytes v" and "e \<le> length m"
  shows "\<exists>m'. encode_varint v m buf e = Some (-1, m', buf) \<and> length m' = length m \<and>
    take buf m' = take buf m \<and> drop e m' = drop e m"
  using encode_varint_full assms by (simp add: raw_varint_bytes_eq)

theorem encode_varint_no_room_witness:
  "\<exists>m'. encode_varint 300000 [1, 2, 3, 4] 1 3 = Some (-1, m', 1) \<and> length m' = length [1::byte, 2, 3, 4] \<and>
    take 1 m' = take 1 [1, 2, 3, 4] \<and> drop 3 m' = drop 3 [1, 2, 3, 4]"
  by (rule encode_varint_no_room) (simp_all add: raw_varint_bytes_def)

text \<open>Ten bytes can carry more than 64 bits, and what exceeds them is lost: two inputs of ten bytes, one value.\<close>

lemma varint_ten_bytes_collide:
  "decode_varint (0xF0 # replicate 8 0x80 @ [0x00]) 0 10 0 = decode_varint (0xF0 # replicate 8 0x80 @ [0x10]) 0 10 0"
  by code_simp

text \<open>C22. Encodings of at most nine bytes are canonical: when \<^verbatim>\<open>decode_varint\<close> accepts up to nine bytes, encoding
  the value it returns gives these very bytes back. This does not extend to ten bytes, see the lemma
  above.\<close>

theorem varint_canonical:
  assumes "decode_varint m buf e i = Some (r, p, v)" and "0 < r" and "r \<le> 9"
  shows "varint_enc v = take (p - buf) (drop buf m) \<and> int (raw_varint_bytes v) = r"
proof -
  note acc = decode_varint_accepts [OF assms]
  have "buf < e" using assms by (auto simp: decode_varint_def split: if_splits)
  have len: "length (vi_bytes (unat v)) = p - buf" using acc by linarith
  have "vi_bytes (unat v) = take (p - buf) (take (e - buf) (drop buf m))"
    using acc len by (metis append_eq_conv_conj)
  moreover have "p - buf \<le> e - buf"
  proof -
    have "length (vi_bytes (unat v)) \<le> length (take (e - buf) (drop buf m))"
      by (metis conjunct1 [OF acc] length_append le_add1)
    then show ?thesis using len by simp
  qed
  ultimately show ?thesis
    using acc by (simp add: varint_enc_eq raw_varint_bytes_eq min_absorb1)
qed

theorem varint_canonical_witness:
  "varint_enc 2288 = take (3 - 0) (drop 0 [240, 128, 0, 7]) \<and> int (raw_varint_bytes 2288) = 3"
  by (rule varint_canonical [of _ _ 4 0])
     (simp_all add: decode_varint_def decode_varint_loop.simps mem_simps push_bit_eq_mult)

text \<open>\<^verbatim>\<open>__varint_bytes\<close>, meant for constants, and the loop of \<^verbatim>\<open>varint_bytes\<close> agree on all
  64-bit values, and are between 1 and 10.\<close>

theorem varint_bytes_agree:
  "varint_bytes v = raw_varint_bytes v \<and> 1 \<le> raw_varint_bytes v \<and> raw_varint_bytes v \<le> 10"
  using vi_bytes_le_10 [of v] by (auto simp: varint_bytes_eq raw_varint_bytes_eq vi_bytes_def Suc_le_eq)

text \<open>C23. \<^verbatim>\<open>b_put_varint\<close> into a circular buffer with enough room, wrapping or not, returns the size
  of the encoding, appends exactly this amount to the content, and \<^verbatim>\<open>b_peek_varint\<close> at the old end of
  the data then returns the value. \<^verbatim>\<open>__b_put_varint\<close> does the same.\<close>

theorem b_varint_roundtrip:
  assumes "b_wf b" and "buf_data b + raw_varint_bytes v \<le> buf_size b"
  shows "\<exists>b'. b_put_varint b v = Some (raw_varint_bytes v, b') \<and> raw_b_put_varint b v = Some b' \<and>
    b_wf b' \<and> take (buf_data b) (b_list b') = b_list b \<and>
    buf_data b' = buf_data b + raw_varint_bytes v \<and>
    b_peek_varint b' (buf_data b) i = Some (raw_varint_bytes v, v)"
proof -
  have len: "raw_varint_bytes v = length (vi_bytes (unat v))" by (rule raw_varint_bytes_eq)
  obtain b' where b': "b_put_varint b v = Some (raw_varint_bytes v, b')" "b_wf b'"
    "b_list b' = b_list b @ vi_bytes (unat v)" "raw_b_put_varint b v = Some b'"
    using b_put_varint_correct [OF assms [unfolded len]] len by metis
  have dat: "buf_data b' = buf_data b + raw_varint_bytes v"
    using arg_cong [OF b'(3), of length] len by simp
  moreover have "b_peek_varint b' (buf_data b) i = Some (raw_varint_bytes v, v)"
    using b_peek_varint_correct [OF b'(2), of "buf_data b" v "[]"] b'(3) dat len by simp
  ultimately show ?thesis using b' by simp
qed

theorem b_varint_roundtrip_witness:
  "\<exists>b'. b_put_varint (b_make [1, 2, 3, 4] 4 3 1) 300 = Some (raw_varint_bytes 300, b') \<and>
    raw_b_put_varint (b_make [1, 2, 3, 4] 4 3 1) 300 = Some b' \<and>
    b_wf b' \<and> take (buf_data (b_make [1, 2, 3, 4] 4 3 1)) (b_list b') = b_list (b_make [1, 2, 3, 4] 4 3 1) \<and>
    buf_data b' = buf_data (b_make [1, 2, 3, 4] 4 3 1) + raw_varint_bytes 300 \<and>
    b_peek_varint b' (buf_data (b_make [1, 2, 3, 4] 4 3 1)) 0 = Some (raw_varint_bytes 300, 300)"
  by (rule b_varint_roundtrip) (simp_all add: b_wf_def b_make_def raw_varint_bytes_def)

text \<open>Without enough room \<^verbatim>\<open>b_put_varint\<close> returns 0 and the content of the buffer is unchanged;
  \<^verbatim>\<open>b_get_varint\<close> on a value of which some bytes are still missing returns 0, does not touch
  \<^verbatim>\<open>*vptr\<close> and removes nothing.\<close>

theorem b_varint_no_partial:
  assumes "b_wf b"
  shows "(buf_size b < buf_data b + raw_varint_bytes v \<longrightarrow>
      (\<exists>b'. b_put_varint b v = Some (0, b') \<and> b_wf b' \<and> b_list b' = b_list b)) \<and>
    (varint_enc v = b_list b @ c # cs \<longrightarrow>
      (\<exists>b'. b_get_varint b i = Some (0, b', i) \<and> b_wf b' \<and> b_list b' = b_list b))"
proof (intro conjI impI)
  assume "buf_size b < buf_data b + raw_varint_bytes v"
  then show "\<exists>b'. b_put_varint b v = Some (0, b') \<and> b_wf b' \<and> b_list b' = b_list b"
    using b_put_varint_no_room [OF assms, of v] by (metis raw_varint_bytes_eq)
next
  assume "varint_enc v = b_list b @ c # cs"
  then show "\<exists>b'. b_get_varint b i = Some (0, b', i) \<and> b_wf b' \<and> b_list b' = b_list b"
    using b_get_varint_incomplete [OF assms, of v c cs i] b_del_correct [OF assms, of 0]
    by (simp add: varint_enc_eq)
qed

theorem b_varint_no_partial_witness:
  "\<exists>b'. b_put_varint (b_make [1, 2, 3] 3 2 2) 300 = Some (0, b') \<and> b_wf b' \<and>
    b_list b' = b_list (b_make [1, 2, 3] 3 2 2)"
  using b_varint_no_partial [of "b_make [1, 2, 3] 3 2 2" 300]
  by (simp add: b_wf_def b_make_def raw_varint_bytes_def)

text \<open>A stream of values written one after the other is read back as the same values, whatever
  follows it.\<close>

theorem varint_stream:
  "decode_many varint_dec (length vs) (concat (map varint_enc vs) @ rest) = Some (vs, rest)"
  by (rule vc.decode_many_enc) simp

text \<open>\<^verbatim>\<open>decode_varint\<close> shifts by 67 bits when ten continuation bytes follow each other, which C
  leaves undefined; nine are harmless.\<close>

theorem decode_varint_long_undefined:
  "decode_varint [255, 255, 255, 255, 255, 255, 255, 255, 255, 255, 0] 0 11 0 = None \<and>
   decode_varint [255, 255, 255, 255, 255, 255, 255, 255, 255, 0] 0 10 0 \<noteq> None"
  by code_simp

end
