(* ===== verification/QuicEnc.thy ===== *)
theory QuicEnc
  imports BufOps
begin

text \<open>
  QUIC variable-length integers (\<^verbatim>\<open>include/haproxy/quic_enc.h\<close>): the two top bits of the first byte
  are the base-2 logarithm of the length, the other bits are the value in network order. Negative
  widths, which \<^verbatim>\<open>b_quic_enc_int\<close> rejects with a \<^verbatim>\<open>BUG_ON\<close>, are not representable here.
\<close>

definition QUIC_VARINT_1_BYTE_MAX :: u64 where
  "QUIC_VARINT_1_BYTE_MAX = push_bit 6 1 - 1"

definition QUIC_VARINT_2_BYTE_MAX :: u64 where
  "QUIC_VARINT_2_BYTE_MAX = push_bit 14 1 - 1"

definition QUIC_VARINT_4_BYTE_MAX :: u64 where
  "QUIC_VARINT_4_BYTE_MAX = push_bit 30 1 - 1"

definition QUIC_VARINT_8_BYTE_MAX :: u64 where
  "QUIC_VARINT_8_BYTE_MAX = push_bit 62 1 - 1"

definition quic_log2 :: "nat \<Rightarrow> int" where
  "quic_log2 val = (if val = 8 then 3 else if val = 4 then 2 else if val = 2 then 1
     else if val = 1 then 0 else -1)"

definition quic_int_getsize :: "u64 \<Rightarrow> nat" where
  "quic_int_getsize val =
     (if val \<le> QUIC_VARINT_1_BYTE_MAX then 1
      else if QUIC_VARINT_1_BYTE_MAX + 1 \<le> val \<and> val \<le> QUIC_VARINT_2_BYTE_MAX then 2
      else if QUIC_VARINT_2_BYTE_MAX + 1 \<le> val \<and> val \<le> QUIC_VARINT_4_BYTE_MAX then 4
      else if QUIC_VARINT_4_BYTE_MAX + 1 \<le> val \<and> val \<le> QUIC_VARINT_8_BYTE_MAX then 8
      else 0)"

definition quic_max_int :: "nat \<Rightarrow> u64" where
  "quic_max_int sz = (if sz = 1 then QUIC_VARINT_1_BYTE_MAX else if sz = 2 then QUIC_VARINT_2_BYTE_MAX
     else if sz = 4 then QUIC_VARINT_4_BYTE_MAX else if sz = 8 then QUIC_VARINT_8_BYTE_MAX else -1)"

section \<open>In memory\<close>

text \<open>\<^verbatim>\<open>while (--len)\<close>: the loop runs \<open>len - 1\<close> times.\<close>

fun quic_dec_loop :: "bytes \<Rightarrow> nat \<Rightarrow> nat \<Rightarrow> u64 \<Rightarrow> (nat \<times> u64) option" where
  "quic_dec_loop m p 0 val = Some (p, val)"
| "quic_dec_loop m p (Suc k) val = do {
     c \<leftarrow> ld m p;
     quic_dec_loop m (p + 1) k (push_bit 8 val OR ucast c)
   }"

definition quic_dec_int :: "u64 \<Rightarrow> bytes \<Rightarrow> nat \<Rightarrow> nat \<Rightarrow> (int \<times> nat \<times> u64) option" where
  "quic_dec_int val m buf e =
     (if buf \<ge> e then Some (0, buf, val)
      else do {
        c \<leftarrow> ld m buf;
        let len = 2 ^ unat (drop_bit 6 c);
        if buf + len > e then Some (0, buf, val)
        else do {
          (p, v) \<leftarrow> quic_dec_loop m (buf + 1) (len - 1) (ucast (c AND 0x3f));
          Some (1, p, v)
        }
      })"

fun quic_enc_loop :: "u64 \<Rightarrow> bytes \<Rightarrow> nat \<Rightarrow> nat \<Rightarrow> nat \<Rightarrow> (bytes \<times> nat) option" where
  "quic_enc_loop val m p shift 0 = Some (m, p)"
| "quic_enc_loop val m p shift (Suc len) = do {
     m \<leftarrow> st m p (ucast (drop_bit shift val));
     quic_enc_loop val m (p + 1) ((shift + 4294967296 - 8) mod 4294967296) len
   }"

definition quic_size_bits :: "nat \<Rightarrow> byte" where
  "quic_size_bits len = word_of_int (quic_log2 len * 64)"

definition quic_enc_int :: "bytes \<Rightarrow> nat \<Rightarrow> nat \<Rightarrow> u64 \<Rightarrow> (int \<times> bytes \<times> nat) option" where
  "quic_enc_int m buf e val =
     (let len = quic_int_getsize val in
      if len = 0 \<or> usz (int e - int buf) < len then Some (0, m, buf)
      else do {
        let shift = (len - 1) * 8;
        (m, p) \<leftarrow> quic_enc_loop val m buf shift len;
        c \<leftarrow> ld m buf;
        m \<leftarrow> st m buf (c OR quic_size_bits len);
        Some (1, m, p)
      })"

section \<open>In a buffer\<close>

fun b_quic_dec_loop :: "buffer \<Rightarrow> nat \<Rightarrow> nat \<Rightarrow> u64 \<Rightarrow> u64 option" where
  "b_quic_dec_loop b p 0 val = Some val"
| "b_quic_dec_loop b p (Suc k) val = do {
     c \<leftarrow> ld (buf_area b) p;
     b_quic_dec_loop b (if p + 1 = b_wrap b then p + 1 - b_size b else p + 1) k
       (push_bit 8 val OR ucast c)
   }"

text \<open>The result, \<^verbatim>\<open>*val\<close>, the buffer and, when \<^verbatim>\<open>retlen\<close> is not null, \<^verbatim>\<open>*retlen\<close>.\<close>

definition b_quic_dec_int :: "u64 \<Rightarrow> buffer \<Rightarrow> nat option \<Rightarrow> (nat \<times> u64 \<times> buffer \<times> nat option) option" where
  "b_quic_dec_int val b retlen =
     (let pos = b_head b; dat = b_data b in
      if dat = 0 then Some (0, val, b, retlen)
      else do {
        c \<leftarrow> ld (buf_area b) pos;
        let len = 2 ^ unat (drop_bit 6 c);
        if dat < len then Some (0, val, b, retlen)
        else do {
          v \<leftarrow> b_quic_dec_loop b (if pos + 1 = b_wrap b then pos + 1 - b_size b else pos + 1) (len - 1)
                 (ucast (c AND 0x3f));
          Some (1, v, b_del b len, map_option (\<lambda>r. sz_add r len) retlen)
        }
      })"

definition atleast2 :: "nat \<Rightarrow> nat" where
  "atleast2 a = a AND (a - 1)"

fun b_quic_enc_loop :: "buffer \<Rightarrow> u64 \<Rightarrow> nat \<Rightarrow> bytes \<Rightarrow> nat \<Rightarrow> nat \<Rightarrow> bytes option" where
  "b_quic_enc_loop b val len ar pos 0 = Some ar"
| "b_quic_enc_loop b val len ar pos (Suc width) = do {
     ar \<leftarrow> st ar pos (if width \<ge> len then 0 else ucast (drop_bit (width * 8) val));
     b_quic_enc_loop b val len ar (if pos + 1 = b_wrap b then b_orig b else pos + 1) width
   }"

definition b_quic_enc_int :: "buffer \<Rightarrow> u64 \<Rightarrow> nat \<Rightarrow> (nat \<times> buffer) option" where
  "b_quic_enc_int b val width =
     (if width \<noteq> 0 \<and> (width > 8 \<or> atleast2 width \<noteq> 0) then None
      else let len = quic_int_getsize val in
        if len = 0 then Some (0, b)
        else if b_room b < len \<or> (width \<noteq> 0 \<and> width < len) then Some (0, b)
        else do {
          let width = (if width = 0 then len else width);
          ar \<leftarrow> b_quic_enc_loop b val len (buf_area b) (b_tail b) width;
          c \<leftarrow> ld ar (b_tail b);
          ar \<leftarrow> st ar (b_tail b) (c OR quic_size_bits width);
          Some (1, b_add (b\<lparr>buf_area := ar\<rparr>) width)
        })"

definition quic_incint_size_diff :: "u64 \<Rightarrow> nat" where
  "quic_incint_size_diff val = (if val = QUIC_VARINT_1_BYTE_MAX then 1
     else if val = QUIC_VARINT_2_BYTE_MAX then 2 else if val = QUIC_VARINT_4_BYTE_MAX then 4 else 0)"

definition quic_decint_size_diff :: "u64 \<Rightarrow> nat" where
  "quic_decint_size_diff val = (if val = QUIC_VARINT_1_BYTE_MAX + 1 then 1
     else if val = QUIC_VARINT_2_BYTE_MAX + 1 then 2 else if val = QUIC_VARINT_4_BYTE_MAX + 1 then 4 else 0)"

section \<open>Big-endian numbers\<close>

fun be :: "nat \<Rightarrow> nat \<Rightarrow> bytes" where
  "be 0 n = []"
| "be (Suc k) n = word_of_nat (n div 256 ^ k) # be k n"

lemma length_be [simp]: "length (be k n) = k"
  by (induction k) auto

lemmas quic_consts = QUIC_VARINT_1_BYTE_MAX_def QUIC_VARINT_2_BYTE_MAX_def QUIC_VARINT_4_BYTE_MAX_def
  QUIC_VARINT_8_BYTE_MAX_def

lemma quic_int_getsize_cases:
  "(quic_int_getsize val = 1 \<and> unat val < 64) \<or>
   (quic_int_getsize val = 2 \<and> 64 \<le> unat val \<and> unat val < 16384) \<or>
   (quic_int_getsize val = 4 \<and> 16384 \<le> unat val \<and> unat val < 1073741824) \<or>
   (quic_int_getsize val = 8 \<and> 1073741824 \<le> unat val \<and> unat val < 4611686018427387904) \<or>
   (quic_int_getsize val = 0 \<and> 4611686018427387904 \<le> unat val)"
  unfolding quic_int_getsize_def quic_consts word_le_nat_alt by simp

definition of_be :: "bytes \<Rightarrow> nat" where
  "of_be xs = foldl (\<lambda>a b. a * 256 + unat b) 0 xs"

lemma foldl_be: "foldl (\<lambda>a b. a * 256 + unat b) v xs = v * 256 ^ length xs + of_be xs"
proof (induction xs arbitrary: v)
  case (Cons x xs)
  have "of_be (x # xs) = unat x * 256 ^ length xs + of_be xs"
    using Cons [of "unat x"] by (simp add: of_be_def)
  then show ?case using Cons [of "v * 256 + unat x"] by (simp add: algebra_simps)
qed (simp add: of_be_def)

lemma of_be_Cons: "of_be (x # xs) = unat x * 256 ^ length xs + of_be xs"
  using foldl_be [of "unat x" xs] by (simp add: of_be_def)

lemma of_be_Nil [simp]: "of_be [] = 0"
  by (simp add: of_be_def)

lemma of_be_be: "of_be (be k n) = n mod 256 ^ k"
proof (induction k)
  case (Suc k)
  have "n mod 256 ^ Suc k = n mod (256 ^ k * 256)" by (simp add: mult.commute)
  also have "\<dots> = (n div 256 ^ k mod 256) * 256 ^ k + n mod 256 ^ k"
    by (simp add: mod_mult2_eq)
  finally show ?case using Suc by (simp add: of_be_Cons unat_byte_of_nat)
qed simp

lemma of_be_less: "of_be xs < 256 ^ length xs"
proof (induction xs)
  case (Cons x xs)
  have "unat x * 256 ^ length xs + of_be xs < (unat x + 1) * 256 ^ length xs" using Cons by simp
  also have "\<dots> \<le> 256 * 256 ^ length xs" using byte_less [of x] by (intro mult_right_mono) auto
  finally show ?case by (simp add: of_be_Cons)
qed simp

section \<open>The loops\<close>

lemma shift_or_byte: "push_bit 8 (v::u64) OR ucast (c::byte) = v * 256 + ucast c"
proof -
  have "push_bit 8 v OR ucast c = push_bit 8 v + ucast c"
    by (rule disjunctive_add [symmetric]) (auto simp: bit_push_bit_iff bit_ucast_iff dest: bit_imp_le_length)
  then show ?thesis by (simp add: push_bit_eq_mult)
qed

lemma byte_shift_eq: "ucast (drop_bit (k * 8) (v::u64)) = (word_of_nat (unat v div 256 ^ k) :: byte)"
proof -
  have "(2::nat) ^ (k * 8) = 256 ^ k" by (simp add: power_mult mult.commute [of k])
  then have "unat (drop_bit (k * 8) v) = unat v div 256 ^ k" by (simp only: unat_drop_bit)
  then show ?thesis by (metis of_nat_unat)
qed

lemma quic_enc_loop_eq:
  "p + k \<le> length m \<Longrightarrow> k \<le> 8 \<Longrightarrow> shift = (k - 1) * 8 \<or> k = 0 \<Longrightarrow>
   quic_enc_loop val m p shift k = Some (blit m p (be k (unat val)), p + k)"
proof (induction k arbitrary: m p shift)
  case (Suc k)
  have "ucast (drop_bit shift val) = (word_of_nat (unat val div 256 ^ k) :: byte)"
    using Suc.prems byte_shift_eq [of k val] by simp
  moreover have "(shift + 4294967296 - 8) mod 4294967296 = (k - 1) * 8 \<or> k = 0"
  proof (cases k)
    case (Suc j)
    then have "shift + 4294967296 - 8 = j * 8 + 4294967296" using Suc.prems by simp
    then show ?thesis using Suc Suc.prems by (simp only: mod_add_self2) simp
  qed simp
  ultimately show ?case using Suc.prems Suc.IH by (simp add: mem_simps blit_Cons)
qed simp

lemma quic_dec_loop_eq:
  "take (length xs) (drop p m) = xs \<Longrightarrow>
   quic_dec_loop m p (length xs) v = Some (p + length xs, v * 256 ^ length xs + word_of_nat (of_be xs))"
proof (induction xs arbitrary: p v)
  case (Cons x xs)
  have "p < length m" using Cons.prems by (cases "p < length m") auto
  then have "ld m p = Some x" "take (length xs) (drop (Suc p) m) = xs"
    using Cons.prems by (auto simp: Cons_nth_drop_Suc [symmetric] mem_simps)
  then show ?case
    using Cons.IH [of "Suc p" "v * 256 + ucast x"]
    by (simp add: shift_or_byte of_be_Cons algebra_simps)
qed simp

lemma b_quic_dec_loop_eq:
  assumes "b_wf b" and "p < buf_size b"
  shows "b_quic_dec_loop b p k v = Some (v * 256 ^ k + word_of_nat (of_be (ring_read (buf_area b) p k)))"
  using assms
proof (induction k arbitrary: p v)
  case (Suc k)
  note d = b_wfD [OF Suc.prems(1)]
  have nx: "(if p + 1 = b_wrap b then p + 1 - b_size b else p + 1) = b_next b p"
    by (simp add: b_next_def b_wrap_def b_orig_def b_size_def Let_def)
  have "b_next b p < buf_size b" using Suc.prems by (rule b_next_less)
  then show ?case
    using Suc.IH [of "b_next b p" "v * 256 + ucast (buf_area b ! p)"] Suc.prems d
      ring_read_next [OF Suc.prems, of k]
    unfolding b_quic_dec_loop.simps nx
    by (simp add: mem_simps shift_or_byte of_be_Cons algebra_simps)
qed simp

lemma b_quic_enc_loop_eq:
  assumes "b_wf b" and "pos < buf_size b" and "length ar = buf_size b" and "k \<le> buf_size b"
    and "unat val < 256 ^ len" and "k \<le> 8"
  shows "b_quic_enc_loop b val len ar pos k = Some (ring_write ar pos (be k (unat val)))"
  using assms
proof (induction k arbitrary: ar pos)
  case (Suc k)
  let ?c = "word_of_nat (unat val div 256 ^ k) :: byte"
  have nx: "(if pos + 1 = b_wrap b then b_orig b else pos + 1) = b_next b pos"
    by (simp add: b_next_def Let_def)
  have c: "(if k \<ge> len then 0 else ucast (drop_bit (k * 8) val)) = ?c"
  proof (cases "len \<le> k")
    case True
    then have "(256::nat) ^ len \<le> 256 ^ k" by (intro power_increasing) auto
    then have "unat val < 256 ^ k" using Suc.prems by linarith
    then show ?thesis using True by simp
  next
    case False
    then show ?thesis using byte_shift_eq [of k val] by simp
  qed
  have step: "st ar pos ?c = Some (ar[pos := ?c])" using Suc.prems by (simp add: mem_simps)
  have "b_quic_enc_loop b val len ar pos (Suc k) =
      b_quic_enc_loop b val len (ar[pos := ?c]) (b_next b pos) k"
    unfolding b_quic_enc_loop.simps nx c step by simp
  also have "\<dots> = Some (ring_write (ar[pos := ?c]) (b_next b pos) (be k (unat val)))"
    using Suc.prems b_next_less [OF Suc.prems(1,2)] by (intro Suc.IH) simp_all
  finally show ?case
    using Suc.prems ring_write_Cons [of pos ar "be k (unat val)" ?c] by (simp add: b_next_eq)
qed simp

lemma ring_write_hd:
  assumes "p < length m" and "Suc (length xs) \<le> length m"
  shows "(ring_write m p (x # xs))[p := y] = ring_write m p (y # xs)"
proof -
  let ?m = "m[p := x]" let ?q = "(p + 1) mod length m"
  have "ring_write m p (y # xs) = ring_write (m[p := y]) ?q xs"
    using ring_write_Cons [of p m xs y] assms by simp
  have l: "length (ring_write m p (x # xs)) = length m" using assms by simp
  show ?thesis
  proof (rule ring_eqI [of _ _ p])
    fix j assume "j < length ((ring_write m p (x # xs))[p := y])"
    then have j: "j < length m" using l by simp
    have "(p + j) mod length m = p \<longleftrightarrow> j = 0"
    proof
      assume "(p + j) mod length m = p"
      then show "j = 0" using j assms(1) by (cases "p + j < length m") (auto simp: mod_wrap_hi)
    qed (use assms in simp)
    then show "(ring_write m p (x # xs))[p := y] ! ((p + j) mod length ((ring_write m p (x # xs))[p := y])) =
        ring_write m p (y # xs) ! ((p + j) mod length ((ring_write m p (x # xs))[p := y]))"
      using nth_ring_write [of p m "x # xs" j] nth_ring_write [of p m "y # xs" j] assms j l
      by (cases "j = 0") (auto simp: nth_list_update)
  qed (use assms l in simp_all)
qed

section \<open>The first byte\<close>

lemma low6_or_size: 
  assumes "x < 64" and "l < 4"
  shows "word_of_nat x OR (word_of_int (int l * 64) :: byte) = word_of_nat (64 * l + x)"
proof -
  have "word_of_int (int l * 64) = (push_bit 6 (word_of_nat l) :: byte)"
    by (simp add: push_bit_eq_mult)
  moreover have "word_of_nat x OR push_bit 6 (word_of_nat l) = (word_of_nat x :: byte) + push_bit 6 (word_of_nat l)"
  proof (rule disjunctive_add [symmetric])
    fix n
    have "take_bit 6 (word_of_nat x) = (word_of_nat x :: byte)"
      using assms by (intro word_unat_eq_iff [THEN iffD2])
        (simp only: unsigned_take_bit_eq unat_byte_of_nat, simp add: take_bit_eq_mod)
    then have "bit (word_of_nat x :: byte) n \<Longrightarrow> n < 6" by (metis bit_take_bit_iff)
    then show "\<not> bit (word_of_nat x :: byte) n \<or> \<not> bit (push_bit 6 (word_of_nat l) :: byte) n"
      by (auto simp: bit_push_bit_iff)
  qed
  ultimately show ?thesis by (simp add: push_bit_eq_mult algebra_simps)
qed

lemma first_byte_fields:
  assumes "x < 64" and "l < 4"
  shows "unat (drop_bit 6 (word_of_nat (64 * l + x) :: byte)) = l"
    and "ucast ((word_of_nat (64 * l + x) :: byte) AND 0x3f) = (word_of_nat x :: u64)"
proof -
  let ?c = "word_of_nat (64 * l + x) :: byte"
  have c: "unat ?c = 64 * l + x" using assms by (simp only: unat_byte_of_nat) simp
  show "unat (drop_bit 6 ?c) = l" unfolding unat_drop_bit c using assms by simp
  have "?c AND 0x3f = take_bit 6 ?c" by (simp only: take_bit_eq_mask mask_eq_exp_minus_1) simp
  then have "unat (?c AND 0x3f) = (64 * l + x) mod 64"
    by (simp only: unsigned_take_bit_eq c) (simp add: take_bit_eq_mod)
  then have "unat (?c AND 0x3f) = x" using assms by simp
  then show "ucast (?c AND 0x3f) = (word_of_nat x :: u64)" by (metis of_nat_unat)
qed

lemma quic_log2_cases:
  "k \<in> {1, 2, 4, 8} \<Longrightarrow> \<exists>l < 4. quic_log2 k = int l \<and> k = 2 ^ l"
proof -
  assume "k \<in> {1, 2, 4, 8}"
  then consider "k = 1" | "k = 2" | "k = 4" | "k = 8" by blast
  then show ?thesis
  proof cases
    case 1 then show ?thesis by (intro exI [of _ 0]) (simp add: quic_log2_def)
  next
    case 2 then show ?thesis by (intro exI [of _ 1]) (simp add: quic_log2_def)
  next
    case 3 then show ?thesis by (intro exI [of _ 2]) (simp add: quic_log2_def)
  next
    case 4 then show ?thesis by (intro exI [of _ 3]) (simp add: quic_log2_def)
  qed
qed

text \<open>The encoding of \<open>n\<close> on \<open>k\<close> bytes.\<close>

definition qi_bytes :: "nat \<Rightarrow> nat \<Rightarrow> bytes" where
  "qi_bytes k n = word_of_nat (64 * nat (quic_log2 k) + n div 256 ^ (k - 1)) # be (k - 1) n"

lemma qi_room:
  assumes "k \<in> {1, 2, 4, 8}" and "4 * n < 256 ^ k"
  shows "n div 256 ^ (k - 1) < (64::nat)"
proof -
  have "(256::nat) ^ k = 256 * 256 ^ (k - 1)" using assms(1) by (cases k) auto
  then have "n < 64 * 256 ^ (k - 1)" using assms(2) by simp
  then show ?thesis by (simp add: less_mult_imp_div_less)
qed

lemma qi_bytes_eq:
  assumes k: "k \<in> {1, 2, 4, 8}" and n: "4 * n < 256 ^ k"
  shows "be k n = word_of_nat (n div 256 ^ (k - 1)) # be (k - 1) n"
    and "word_of_nat (n div 256 ^ (k - 1)) OR quic_size_bits k = hd (qi_bytes k n)"
proof -
  show "be k n = word_of_nat (n div 256 ^ (k - 1)) # be (k - 1) n" using k by (cases k) auto
  obtain l where l: "l < 4" "quic_log2 k = int l" using quic_log2_cases [OF k] by blast
  then show "word_of_nat (n div 256 ^ (k - 1)) OR quic_size_bits k = hd (qi_bytes k n)"
    using low6_or_size [OF qi_room [OF k n] l(1)] by (simp add: quic_size_bits_def qi_bytes_def del: of_nat_add)
qed

lemma length_qi_bytes: "0 < k \<Longrightarrow> length (qi_bytes k n) = k"
  by (simp add: qi_bytes_def)

text \<open>What is read from a first byte and from all the bytes.\<close>

lemma qi_value:
  assumes k: "k \<in> {1, 2, 4, 8}" and n: "4 * n < 256 ^ k"
  shows "2 ^ unat (drop_bit 6 (hd (qi_bytes k n))) = k"
    and "ucast (hd (qi_bytes k n) AND 0x3f) * 256 ^ (k - 1) + word_of_nat (of_be (tl (qi_bytes k n))) =
      (word_of_nat n :: u64)"
proof -
  obtain l where l: "l < 4" "quic_log2 k = int l" "k = 2 ^ l" using quic_log2_cases [OF k] by blast
  let ?x = "n div 256 ^ (k - 1)"
  have hd: "hd (qi_bytes k n) = word_of_nat (64 * l + ?x)" using l by (simp add: qi_bytes_def)
  note f = first_byte_fields [OF qi_room [OF k n] l(1)]
  show "2 ^ unat (drop_bit 6 (hd (qi_bytes k n))) = k" unfolding hd f using l(3) by simp
  have "tl (qi_bytes k n) = be (k - 1) n" by (simp add: qi_bytes_def)
  then have "ucast (hd (qi_bytes k n) AND 0x3f) * 256 ^ (k - 1) + word_of_nat (of_be (tl (qi_bytes k n))) =
      (word_of_nat (?x * 256 ^ (k - 1) + n mod 256 ^ (k - 1)) :: u64)"
    unfolding hd f by (simp add: of_be_be)
  then show "ucast (hd (qi_bytes k n) AND 0x3f) * 256 ^ (k - 1) + word_of_nat (of_be (tl (qi_bytes k n))) =
      (word_of_nat n :: u64)" by (simp only: div_mult_mod_eq)
qed

lemma getsize_fits:
  assumes "quic_int_getsize val \<noteq> 0"
  shows "quic_int_getsize val \<in> {1, 2, 4, 8}" and "4 * unat val < 256 ^ quic_int_getsize val"
  using quic_int_getsize_cases [of val] assms by auto

section \<open>The functions in memory\<close>

lemma quic_enc_int_eq:
  assumes k: "quic_int_getsize val = k" "k \<noteq> 0" and fit: "buf + k \<le> e" "e \<le> length m"
    and e: "e < 18446744073709551616"
  shows "quic_enc_int m buf e val = Some (1, blit m buf (qi_bytes k (unat val)), buf + k)"
proof -
  have k4: "k \<in> {1, 2, 4, 8}" "4 * unat val < 256 ^ k" using getsize_fits [of val] k by auto
  let ?x = "word_of_nat (unat val div 256 ^ (k - 1)) :: byte" let ?ys = "be (k - 1) (unat val)"
  let ?m = "blit m buf (?x # ?ys)"
  have k8: "k \<le> 8" "Suc (k - 1) = k" using k4 by auto
  have usz: "\<not> usz (int e - int buf) < k" using fit e by (simp add: usz_diff sz_sub_small)
  have loop: "quic_enc_loop val m buf ((k - 1) * 8) k = Some (?m, buf + k)"
    using quic_enc_loop_eq [of buf k m "(k - 1) * 8" val] fit k8 qi_bytes_eq(1) [OF k4] by simp
  have lm: "length ?m = length m" "?m ! buf = ?x" using fit k8 by (simp_all add: nth_blit)
  have upd: "?m[buf := hd (qi_bytes k (unat val))] = blit m buf (qi_bytes k (unat val))"
    using fit k8 by (simp add: blit_def list_update_append qi_bytes_def)
  have "ld ?m buf = Some ?x" "st ?m buf (hd (qi_bytes k (unat val))) = Some (blit m buf (qi_bytes k (unat val)))"
    using lm upd fit k8 by (simp_all add: mem_simps)
  then show ?thesis
    using k usz loop qi_bytes_eq(2) [OF k4] by (simp add: quic_enc_int_def Let_def)
qed

lemma quic_dec_int_eq:
  assumes c: "buf < e" "e \<le> length m"
  defines "len \<equiv> 2 ^ unat (drop_bit 6 (m ! buf))"
  shows "quic_dec_int v m buf e = Some (if buf + len > e then (0, buf, v)
    else (1, buf + len, ucast (m ! buf AND 0x3f) * 256 ^ (len - 1) +
      word_of_nat (of_be (take (len - 1) (drop (Suc buf) m)))))"
proof -
  have ldc: "ld m buf = Some (m ! buf)" using c by (simp add: mem_simps)
  have len: "0 < len" by (simp add: len_def)
  show ?thesis
  proof (cases "buf + len > e")
    case True
    then show ?thesis using c ldc by (simp add: quic_dec_int_def Let_def flip: len_def)
  next
    case False
    let ?xs = "take (len - 1) (drop (Suc buf) m)"
    have l: "length ?xs = len - 1" using False c len by simp
    then have "quic_dec_loop m (Suc buf) (len - 1) (ucast (m ! buf AND 0x3f)) =
        Some (Suc buf + (len - 1), ucast (m ! buf AND 0x3f) * 256 ^ (len - 1) + word_of_nat (of_be ?xs))"
      using quic_dec_loop_eq [of ?xs "Suc buf" m "ucast (m ! buf AND 0x3f)"] by (simp only: l)
    then show ?thesis using False c ldc len by (simp add: quic_dec_int_def Let_def flip: len_def)
  qed
qed

lemma quic_dec_int_qi:
  assumes k: "k \<in> {1, 2, 4, 8}" "4 * unat val < 256 ^ k"
    and win: "take (e - buf) (drop buf m) = qi_bytes k (unat val) @ rest" and e: "e \<le> length m"
  shows "quic_dec_int v m buf e = Some (1, buf + k, val)"
proof -
  have lq: "length (qi_bytes k (unat val)) = k" using k by (intro length_qi_bytes) auto
  have be: "buf < e" "buf + k \<le> e" using arg_cong [OF win, of length] lq e k by auto
  have q: "take k (drop buf m) = qi_bytes k (unat val)"
  proof -
    have "take k (take (e - buf) (drop buf m)) = qi_bytes k (unat val)" unfolding win using lq by simp
    then show ?thesis using be by (simp add: min_absorb1)
  qed
  have "m ! buf = hd (qi_bytes k (unat val))"
    using q be e k by (metis add_leE hd_drop_conv_nth hd_take insertE less_le_trans singletonD zero_less_numeral zero_less_one)
  moreover have "take (k - 1) (drop (Suc buf) m) = tl (qi_bytes k (unat val))"
    unfolding q [symmetric] by (simp add: tl_take drop_Suc tl_drop)
  ultimately show ?thesis
    using quic_dec_int_eq [OF be(1) e, of v] qi_value [OF k] be(2) by simp
qed

section \<open>The functions on buffers\<close>

lemma b_quic_dec_int_eq:
  assumes wf: "b_wf b" and dat: "0 < buf_data b"
  shows "\<exists>r p v'. quic_dec_int v (b_list b) 0 (buf_data b) = Some (r, p, v') \<and>
    b_quic_dec_int v b ret = (if r = 0 then Some (0, v, b, ret)
      else Some (1, v', b_del b p, map_option (\<lambda>r. sz_add r p) ret)) \<and> (r = 0 \<or> r = 1) \<and> p \<le> buf_data b"
proof -
  note d = b_wfD [OF wf]
  have n: "0 < buf_size b" "buf_head b < buf_size b" using dat d by linarith+
  let ?c = "buf_area b ! buf_head b"
  define len :: nat where "len = 2 ^ unat (drop_bit 6 ?c)"
  have len: "0 < len" by (simp add: len_def)
  have c0: "b_list b ! 0 = ?c" using n d dat by (simp add: b_list_def)
  have hd: "b_head b = buf_head b" by (simp add: b_ofs_defs)
  have ldc: "ld (buf_area b) (buf_head b) = Some ?c" using n d by (simp add: mem_simps)
  have nx: "(if buf_head b + 1 = b_wrap b then buf_head b + 1 - b_size b else buf_head b + 1) =
      b_next b (buf_head b)"
    by (simp add: b_next_def b_wrap_def b_orig_def b_size_def Let_def)
  have dec: "quic_dec_int v (b_list b) 0 (buf_data b) = Some (if len > buf_data b then (0, 0, v)
    else (1, len, ucast (?c AND 0x3f) * 256 ^ (len - 1) +
      word_of_nat (of_be (take (len - 1) (drop (Suc 0) (b_list b))))))"
    using quic_dec_int_eq [OF dat, of "b_list b" v] c0 by (simp add: len_def)
  show ?thesis
  proof (cases "len > buf_data b")
    case True
    then have "b_quic_dec_int v b ret = Some (0, v, b, ret)"
      using dat ldc by (simp add: b_quic_dec_int_def Let_def hd b_data_def flip: len_def)
    then show ?thesis using dec True by simp
  next
    case False
    have "take (len - 1) (drop (Suc 0) (b_list b)) = ring_read (buf_area b) (b_next b (buf_head b)) (len - 1)"
      using False wf n d ring_read_mod [of "buf_area b" "Suc (buf_head b)"]
      by (simp add: b_list_def b_next_eq min_absorb1)
    then have "b_quic_dec_loop b (b_next b (buf_head b)) (len - 1) (ucast (?c AND 0x3f)) =
        Some (ucast (?c AND 0x3f) * 256 ^ (len - 1) +
          word_of_nat (of_be (take (len - 1) (drop (Suc 0) (b_list b)))))"
      using b_quic_dec_loop_eq [OF wf b_next_less [OF wf n(2)]] by simp
    then have "b_quic_dec_int v b ret = Some (1, ucast (?c AND 0x3f) * 256 ^ (len - 1) +
          word_of_nat (of_be (take (len - 1) (drop (Suc 0) (b_list b)))), b_del b len,
          map_option (\<lambda>r. sz_add r len) ret)"
      using dat ldc False unfolding b_quic_dec_int_def Let_def hd nx
      by (simp add: b_data_def flip: len_def)
    then show ?thesis using dec False by simp
  qed
qed

lemma b_quic_enc_int_eq:
  assumes wf: "b_wf b" and siz: "quic_int_getsize val \<noteq> 0"
    and width: "width \<in> {0, 1, 2, 4, 8}" "width = 0 \<or> quic_int_getsize val \<le> width"
  defines "k \<equiv> (if width = 0 then quic_int_getsize val else width)"
  assumes fits: "buf_data b + k \<le> buf_size b"
  obtains b' where "b_quic_enc_int b val width = Some (1, b')" and "b_wf b'"
    and "b_list b' = b_list b @ qi_bytes k (unat val)" and "k \<in> {1, 2, 4, 8}" and "4 * unat val < 256 ^ k"
proof -
  note d = b_wfD [OF wf] and g = getsize_fits [OF siz]
  have k: "k \<in> {1, 2, 4, 8}" using g width siz by (auto simp: k_def)
  have le: "quic_int_getsize val \<le> k" using width by (auto simp: k_def)
  then have "(256::nat) ^ quic_int_getsize val \<le> 256 ^ k" by (intro power_increasing) auto
  then have k4: "4 * unat val < 256 ^ k" using g by linarith
  have kb: "0 < k" "k \<le> 8" "Suc (k - 1) = k" using k by auto
  let ?n = "buf_size b" let ?t = "b_tail b" let ?a = "buf_area b"
  have n: "0 < ?n" "buf_head b < ?n" using fits kb d by linarith+
  have t: "?t < ?n" "?t = (buf_head b + buf_data b) mod ?n" using wf n by (simp_all add: b_tail_eq)
  let ?x = "word_of_nat (unat val div 256 ^ (k - 1)) :: byte" let ?ys = "be (k - 1) (unat val)"
  have small: "unat val < 256 ^ quic_int_getsize val" using g by linarith
  have loop: "b_quic_enc_loop b val (quic_int_getsize val) ?a ?t k = Some (ring_write ?a ?t (?x # ?ys))"
    using b_quic_enc_loop_eq [OF wf t(1) d(1) _ small, of k] fits kb qi_bytes_eq(1) [OF k k4] by simp
  let ?ar = "ring_write ?a ?t (?x # ?ys)"
  have la: "length ?ar = ?n" "?ar ! ?t = ?x"
    using t d fits kb nth_ring_write [of ?t ?a "?x # ?ys" 0] by simp_all
  define y where "y = hd (qi_bytes k (unat val))"
  have q: "qi_bytes k (unat val) = y # ?ys" by (simp add: qi_bytes_def y_def)
  have upd: "?ar[?t := y] = ring_write ?a ?t (qi_bytes k (unat val))"
    unfolding q using ring_write_hd [of ?t ?a ?ys ?x] t d fits kb by simp
  let ?b = "b\<lparr>buf_area := ring_write ?a ?t (qi_bytes k (unat val)), buf_data := buf_data b + k\<rparr>"
  have guard: "\<not> (width \<noteq> 0 \<and> (width > 8 \<or> atleast2 width \<noteq> 0))"
    using width(1) by (auto simp: atleast2_def)
  have room: "\<not> (b_room b < quic_int_getsize val \<or> (width \<noteq> 0 \<and> width < quic_int_getsize val))"
    using wf fits le width by (auto simp: b_room_eq)
  have ops: "ld ?ar ?t = Some ?x"
    "st ?ar ?t y = Some (ring_write ?a ?t (qi_bytes k (unat val)))"
    "sz_add (buf_data b) k = buf_data b + k"
    using la t upd fits d by (simp_all add: mem_simps sz_simps)
  have "b_quic_enc_int b val width = Some (1, ?b)"
    using guard room siz loop ops qi_bytes_eq(2) [OF k k4, folded y_def]
    unfolding b_quic_enc_int_def Let_def k_def [symmetric] by (simp add: b_add_def)
  moreover have "b_wf ?b" using d n t fits length_qi_bytes [OF kb(1)] by (auto simp: b_wf_def)
  moreover have "b_list ?b = b_list b @ qi_bytes k (unat val)"
    using ring_read_write [of "buf_head b" ?a "buf_data b" "qi_bytes k (unat val)"] n d fits t
      length_qi_bytes [OF kb(1), of "unat val"]
    by (simp add: b_list_def)
  ultimately show thesis using k k4 by (intro that [of ?b]) simp_all
qed

section \<open>QUIC integers are a prefix code\<close>

definition quic_enc :: "u64 \<Rightarrow> bytes" where
  "quic_enc v = (case quic_enc_int (replicate 8 0) 0 8 v of Some (_, m, p) \<Rightarrow> take p m | None \<Rightarrow> [])"

definition quic_dec :: "bytes \<Rightarrow> (u64 \<times> bytes) option" where
  "quic_dec bs = (case quic_dec_int 0 bs 0 (length bs) of
     Some (r, p, v) \<Rightarrow> if r = 0 then None else Some (v, drop p bs) | None \<Rightarrow> None)"

lemma quic_enc_eq:
  assumes "quic_int_getsize v \<noteq> 0"
  shows "quic_enc v = qi_bytes (quic_int_getsize v) (unat v)"
proof -
  have k: "quic_int_getsize v \<le> 8" "0 < quic_int_getsize v" using getsize_fits(1) [OF assms] by auto
  then show ?thesis
    using quic_enc_int_eq [OF refl assms, of 0 8 "replicate 8 0"] length_qi_bytes [OF k(2), of "unat v"]
    by (simp add: quic_enc_def blit_def)
qed

interpretation qc: prefix_codec "\<lambda>v. quic_int_getsize v \<noteq> 0" quic_enc quic_dec
proof unfold_locales
  fix v :: u64 and rest :: bytes
  assume v: "quic_int_getsize v \<noteq> 0"
  note g = getsize_fits [OF v]
  have "length (qi_bytes (quic_int_getsize v) (unat v)) = quic_int_getsize v"
    using v by (simp add: length_qi_bytes)
  then show "quic_dec (quic_enc v @ rest) = Some (v, rest)"
    using quic_dec_int_qi [OF g, of "length (quic_enc v @ rest)" 0 "quic_enc v @ rest" rest 0] quic_enc_eq [OF v]
    by (simp add: quic_dec_def)
qed

section \<open>Properties\<close>

text \<open>C24. \<^verbatim>\<open>quic_enc_int\<close> followed by \<^verbatim>\<open>quic_dec_int\<close> returns every value below \<open>2 ^ 62\<close>, using the
  number of bytes given by \<^verbatim>\<open>quic_int_getsize\<close>, which is the smallest width whose \<^verbatim>\<open>quic_max_int\<close> is
  large enough; larger values are refused without any write.\<close>

theorem quic_int_roundtrip:
  assumes "buf + 8 \<le> e" and "e \<le> length m" and "e < 18446744073709551616"
  shows "if unat val < 2 ^ 62
    then \<exists>m'. quic_enc_int m buf e val = Some (1, m', buf + quic_int_getsize val) \<and>
      quic_dec_int v m' buf e = Some (1, buf + quic_int_getsize val, val) \<and>
      take buf m' = take buf m \<and> drop (buf + quic_int_getsize val) m' = drop (buf + quic_int_getsize val) m \<and>
      val \<le> quic_max_int (quic_int_getsize val) \<and>
      (\<forall>sz \<in> {1, 2, 4, 8}. val \<le> quic_max_int sz \<longrightarrow> quic_int_getsize val \<le> sz)
    else quic_enc_int m buf e val = Some (0, m, buf)"
proof (cases "unat val < 2 ^ 62")
  case True
  let ?k = "quic_int_getsize val" let ?q = "qi_bytes ?k (unat val)" let ?m = "blit m buf ?q"
  have k0: "?k \<noteq> 0" using quic_int_getsize_cases [of val] True by auto
  note g = getsize_fits [OF k0]
  have k8: "?k \<le> 8" "length ?q = ?k" using g k0 by (auto simp: length_qi_bytes)
  have enc: "quic_enc_int m buf e val = Some (1, ?m, buf + ?k)"
    using quic_enc_int_eq [OF refl k0, of buf e m] assms k8 by simp
  have "drop buf ?m = ?q @ drop (buf + ?k) m" using assms k8 by (simp add: blit_def)
  then have "take (e - buf) (drop buf ?m) = ?q @ take (e - buf - ?k) (drop (buf + ?k) m)"
    using assms k8 by simp
  then have dec: "quic_dec_int v ?m buf e = Some (1, buf + ?k, val)"
    using quic_dec_int_qi [OF g] assms k8 by simp
  have "take buf ?m = take buf m" "drop (buf + ?k) ?m = drop (buf + ?k) m"
    using assms k8 by (simp_all add: blit_def)
  moreover have "val \<le> quic_max_int ?k \<and> (\<forall>sz \<in> {1, 2, 4, 8}. val \<le> quic_max_int sz \<longrightarrow> ?k \<le> sz)"
    using quic_int_getsize_cases [of val] True
    by (auto simp: quic_max_int_def quic_consts word_le_nat_alt)
  ultimately show ?thesis using True enc dec by auto
next
  case False
  then have "quic_int_getsize val = 0" using quic_int_getsize_cases [of val] by auto
  then show ?thesis using False by (simp add: quic_enc_int_def)
qed

theorem quic_int_roundtrip_witness:
  "\<exists>m'. quic_enc_int (replicate 9 7) 1 9 15293 = Some (1, m', 1 + quic_int_getsize 15293) \<and>
    quic_dec_int 0 m' 1 9 = Some (1, 1 + quic_int_getsize 15293, 15293)"
  using quic_int_roundtrip [of 1 9 "replicate 9 7" 15293 0] by auto

text \<open>\<^verbatim>\<open>b_quic_dec_int\<close> on a circular buffer reads what \<^verbatim>\<open>quic_dec_int\<close> reads on the bytes of
  the buffer laid out in one block, removes exactly the bytes of the integer and adds their number to
  \<^verbatim>\<open>*retlen\<close>; when the integer is not complete it changes nothing.\<close>

theorem b_quic_dec_int_refines:
  assumes "b_wf b" and "0 < buf_data b"
  shows "\<exists>r p v'. quic_dec_int v (b_list b) 0 (buf_data b) = Some (r, p, v') \<and>
    (if r = 0 then b_quic_dec_int v b ret = Some (0, v, b, ret)
     else \<exists>b'. b_quic_dec_int v b ret = Some (1, v', b', map_option (\<lambda>x. sz_add x p) ret) \<and> b_wf b' \<and>
       b_list b' = drop p (b_list b))"
proof -
  obtain r p v' where "quic_dec_int v (b_list b) 0 (buf_data b) = Some (r, p, v')"
    "b_quic_dec_int v b ret = (if r = 0 then Some (0, v, b, ret)
      else Some (1, v', b_del b p, map_option (\<lambda>r. sz_add r p) ret))" "p \<le> buf_data b"
    using b_quic_dec_int_eq [OF assms, of v ret] by auto
  then show ?thesis using b_del_correct [OF assms(1), of p] by auto
qed

theorem b_quic_dec_int_refines_witness:
  "\<exists>r p v'. quic_dec_int 0 (b_list (b_make [5, 1, 64] 3 2 2)) 0 2 = Some (r, p, v') \<and>
    (if r = 0 then b_quic_dec_int 0 (b_make [5, 1, 64] 3 2 2) None = Some (0, 0, b_make [5, 1, 64] 3 2 2, None)
     else \<exists>b'. b_quic_dec_int 0 (b_make [5, 1, 64] 3 2 2) None = Some (1, v', b', map_option (\<lambda>x. sz_add x p) None) \<and>
       b_wf b' \<and> b_list b' = drop p (b_list (b_make [5, 1, 64] 3 2 2)))"
  using b_quic_dec_int_refines [of "b_make [5, 1, 64] 3 2 2" 0 None] by (simp add: b_wf_def b_make_def)

text \<open>When there is room for the width that is used, \<^verbatim>\<open>b_quic_enc_int\<close> appends an integer of this
  width that \<^verbatim>\<open>b_quic_dec_int\<close> decodes to the same value.\<close>

theorem b_quic_int_roundtrip:
  assumes "b_wf b" and "buf_data b = 0" and "unat val < 2 ^ 62" and "width \<in> {0, 1, 2, 4, 8}"
    and "width = 0 \<or> quic_int_getsize val \<le> width"
    and "(if width = 0 then quic_int_getsize val else width) \<le> buf_size b"
  shows "\<exists>b' b''. b_quic_enc_int b val width = Some (1, b') \<and> b_wf b' \<and>
    buf_data b' = (if width = 0 then quic_int_getsize val else width) \<and>
    b_quic_dec_int v b' None = Some (1, val, b'', None) \<and> b_wf b'' \<and> b_list b'' = []"
proof -
  define k where "k = (if width = 0 then quic_int_getsize val else width)"
  have k0: "quic_int_getsize val \<noteq> 0" using quic_int_getsize_cases [of val] assms(3) by auto
  have fits: "buf_data b + (if width = 0 then quic_int_getsize val else width) \<le> buf_size b"
    using assms by simp
  obtain b' where b': "b_quic_enc_int b val width = Some (1, b')" "b_wf b'"
    "b_list b' = b_list b @ qi_bytes k (unat val)" "k \<in> {1, 2, 4, 8}" "4 * unat val < 256 ^ k"
    unfolding k_def by (rule b_quic_enc_int_eq [OF assms(1) k0 assms(4,5) fits])
  have kp: "0 < k" using b'(4) by auto
  have l: "b_list b' = qi_bytes k (unat val)" using b'(3) assms(2) by (simp add: b_list_def)
  then have dat: "buf_data b' = k" using length_qi_bytes [OF kp] by (metis length_b_list)
  have "length (qi_bytes k (unat val)) = k" by (rule length_qi_bytes [OF kp])
  then have "quic_dec_int v (b_list b') 0 (buf_data b') = Some (1, 0 + k, val)"
    using quic_dec_int_qi [OF b'(4,5), of "buf_data b'" 0 "b_list b'" "[]" v] l dat by simp
  moreover have "0 < buf_data b'" using dat kp by simp
  ultimately have "b_quic_dec_int v b' None = Some (1, val, b_del b' k, None)"
    using b_quic_dec_int_eq [OF b'(2), of v None] by auto
  moreover have "b_wf (b_del b' k)" "b_list (b_del b' k) = []"
    using b_del_correct [OF b'(2), of k] dat l length_qi_bytes [OF kp] by simp_all
  ultimately show ?thesis unfolding k_def [symmetric] using b'(1,2) dat by blast
qed

theorem b_quic_int_roundtrip_witness:
  "\<exists>b' b''. b_quic_enc_int (b_make [0, 0, 0, 0] 4 3 0) 37 2 = Some (1, b') \<and> b_wf b' \<and>
    buf_data b' = 2 \<and> b_quic_dec_int 0 b' None = Some (1, 37, b'', None) \<and> b_wf b'' \<and> b_list b'' = []"
  using b_quic_int_roundtrip [of "b_make [0, 0, 0, 0] 4 3 0" 37 2 0]
  by (simp add: b_wf_def b_make_def quic_int_getsize_def quic_consts)

text \<open>\<^verbatim>\<open>b_quic_enc_int\<close> checks the room for the length of the value and not for the width that it
  writes: with a larger width and a nearly full buffer it overwrites the oldest data and leaves more
  data than the buffer can hold.\<close>

theorem b_quic_enc_int_overflow:
  "b_wf (b_make [1, 2, 3, 4] 4 0 3) \<and>
   b_quic_enc_int (b_make [1, 2, 3, 4] 4 0 3) 5 2 = Some (1, b_make [5, 2, 3, 64] 4 0 5)"
proof -
  let ?b = "b_make [1, 2, 3, 4] 4 0 3"
  have wf: "b_wf ?b" by (simp add: b_wf_def b_make_def)
  have "quic_int_getsize 5 = 1" by (simp add: quic_int_getsize_def quic_consts)
  moreover have "b_room ?b = 1" "b_tail ?b = 3" "b_wrap ?b = 4" "b_orig ?b = 0"
    using wf by (simp_all add: b_room_eq b_tail_eq b_make_def b_wrap_def b_orig_def)
  moreover have "b_quic_enc_loop ?b 5 1 [1, 2, 3, 4] 3 (Suc (Suc 0)) = Some [5, 2, 3, 0]"
    using calculation by (simp add: st_def)
  moreover have "sz_add 3 2 = 5" by (simp add: sz_add_def)
  ultimately show ?thesis
    using wf by (simp add: b_quic_enc_int_def atleast2_def Let_def ld_def st_def
        quic_size_bits_def quic_log2_def b_add_def b_make_def flip: numeral_2_eq_2)
qed

text \<open>A stream of QUIC integers is decoded as the values it was made of.\<close>

theorem quic_stream:
  assumes "\<forall>v \<in> set vs. unat v < 2 ^ 62"
  shows "decode_many quic_dec (length vs) (concat (map quic_enc vs) @ rest) = Some (vs, rest)"
proof (rule qc.decode_many_enc)
  show "\<forall>v \<in> set vs. quic_int_getsize v \<noteq> 0"
  proof
    fix v assume "v \<in> set vs"
    then have "unat v < 2 ^ 62" using assms by blast
    then show "quic_int_getsize v \<noteq> 0" using quic_int_getsize_cases [of v] by auto
  qed
qed

theorem quic_stream_witness:
  "decode_many quic_dec (length [1::u64, 70000]) (concat (map quic_enc [1, 70000]) @ [9]) = Some ([1, 70000], [9])"
  by (rule quic_stream) simp

end
