(* ===== verification/Ist.thy ===== *)
theory Ist
  imports Interfaces "HOL-Library.Sublist"
begin

unbundle bit_operations_syntax

text \<open>
  Indirect strings: \<^verbatim>\<open>include/import/ist.h\<close>. An \<open>ist\<close> is a pointer and a length, without storage
  of its own. The bytes live in the memory object that is the first argument of the operations
  that read them; a pointer is an offset into that object or NULL (\<open>None\<close>). Operations that copy
  take a source object and a destination object, which are different pieces of memory, as in all
  the uses of these functions; the destination is returned updated.

  The pointer arithmetic of the C loops (\<^verbatim>\<open>*l.ptr++\<close>) is kept, one recursive call per iteration.
\<close>

section \<open>Case conversion tables\<close>

definition ist_lc :: bytes where
  "ist_lc = [
    0, 1, 2, 3, 4, 5, 6, 7, 8, 9, 10, 11, 12, 13, 14, 15,
    16, 17, 18, 19, 20, 21, 22, 23, 24, 25, 26, 27, 28, 29, 30, 31,
    32, 33, 34, 35, 36, 37, 38, 39, 40, 41, 42, 43, 44, 45, 46, 47,
    48, 49, 50, 51, 52, 53, 54, 55, 56, 57, 58, 59, 60, 61, 62, 63,
    64, 97, 98, 99, 100, 101, 102, 103, 104, 105, 106, 107, 108, 109, 110, 111,
    112, 113, 114, 115, 116, 117, 118, 119, 120, 121, 122, 91, 92, 93, 94, 95,
    96, 97, 98, 99, 100, 101, 102, 103, 104, 105, 106, 107, 108, 109, 110, 111,
    112, 113, 114, 115, 116, 117, 118, 119, 120, 121, 122, 123, 124, 125, 126, 127,
    128, 129, 130, 131, 132, 133, 134, 135, 136, 137, 138, 139, 140, 141, 142, 143,
    144, 145, 146, 147, 148, 149, 150, 151, 152, 153, 154, 155, 156, 157, 158, 159,
    160, 161, 162, 163, 164, 165, 166, 167, 168, 169, 170, 171, 172, 173, 174, 175,
    176, 177, 178, 179, 180, 181, 182, 183, 184, 185, 186, 187, 188, 189, 190, 191,
    192, 193, 194, 195, 196, 197, 198, 199, 200, 201, 202, 203, 204, 205, 206, 207,
    208, 209, 210, 211, 212, 213, 214, 215, 216, 217, 218, 219, 220, 221, 222, 223,
    224, 225, 226, 227, 228, 229, 230, 231, 232, 233, 234, 235, 236, 237, 238, 239,
    240, 241, 242, 243, 244, 245, 246, 247, 248, 249, 250, 251, 252, 253, 254, 255]"

definition ist_uc :: bytes where
  "ist_uc = [
    0, 1, 2, 3, 4, 5, 6, 7, 8, 9, 10, 11, 12, 13, 14, 15,
    16, 17, 18, 19, 20, 21, 22, 23, 24, 25, 26, 27, 28, 29, 30, 31,
    32, 33, 34, 35, 36, 37, 38, 39, 40, 41, 42, 43, 44, 45, 46, 47,
    48, 49, 50, 51, 52, 53, 54, 55, 56, 57, 58, 59, 60, 61, 62, 63,
    64, 65, 66, 67, 68, 69, 70, 71, 72, 73, 74, 75, 76, 77, 78, 79,
    80, 81, 82, 83, 84, 85, 86, 87, 88, 89, 90, 91, 92, 93, 94, 95,
    96, 65, 66, 67, 68, 69, 70, 71, 72, 73, 74, 75, 76, 77, 78, 79,
    80, 81, 82, 83, 84, 85, 86, 87, 88, 89, 90, 123, 124, 125, 126, 127,
    128, 129, 130, 131, 132, 133, 134, 135, 136, 137, 138, 139, 140, 141, 142, 143,
    144, 145, 146, 147, 148, 149, 150, 151, 152, 153, 154, 155, 156, 157, 158, 159,
    160, 161, 162, 163, 164, 165, 166, 167, 168, 169, 170, 171, 172, 173, 174, 175,
    176, 177, 178, 179, 180, 181, 182, 183, 184, 185, 186, 187, 188, 189, 190, 191,
    192, 193, 194, 195, 196, 197, 198, 199, 200, 201, 202, 203, 204, 205, 206, 207,
    208, 209, 210, 211, 212, 213, 214, 215, 216, 217, 218, 219, 220, 221, 222, 223,
    224, 225, 226, 227, 228, 229, 230, 231, 232, 233, 234, 235, 236, 237, 238, 239,
    240, 241, 242, 243, 244, 245, 246, 247, 248, 249, 250, 251, 252, 253, 254, 255]"

section \<open>Pointers and strings\<close>

type_synonym ptr = "nat option"

definition padd :: "ptr \<Rightarrow> nat \<Rightarrow> ptr" where
  "padd p k = map_option (\<lambda>q. q + k) p"

definition ldp :: "bytes \<Rightarrow> ptr \<Rightarrow> byte option" where
  "ldp m p = Option.bind p (ld m)"

definition stp :: "bytes \<Rightarrow> ptr \<Rightarrow> byte \<Rightarrow> bytes option" where
  "stp m p c = Option.bind p (\<lambda>q. st m q c)"

record ist =
  ist_ptr :: ptr
  ist_len :: nat

definition IST_NULL :: ist where
  "IST_NULL = \<lparr>ist_ptr = None, ist_len = 0\<rparr>"

definition ist2 :: "ptr \<Rightarrow> nat \<Rightarrow> ist" where
  "ist2 p n = \<lparr>ist_ptr = p, ist_len = n\<rparr>"

text \<open>The macro \<^verbatim>\<open>ist(str)\<close>: the length of a zero-terminated string, counted by hand.\<close>

function ist_strlen :: "bytes \<Rightarrow> nat \<Rightarrow> nat \<Rightarrow> nat option" where
  "ist_strlen m p l = do {
     c \<leftarrow> ld m (p + l);
     if c \<noteq> 0 then ist_strlen m p (l + 1) else Some l
   }"
  by pat_completeness auto
termination
  by (relation "measure (\<lambda>(m, p, l). length m - (p + l))") (auto simp: ld_def split: if_splits)

declare ist_strlen.simps [simp del]

definition ist_make :: "bytes \<Rightarrow> ptr \<Rightarrow> ist option" where
  "ist_make m x = (case x of None \<Rightarrow> Some (ist2 None 0)
     | Some p \<Rightarrow> map_option (ist2 (Some p)) (ist_strlen m p 0))"

definition isttest :: "ist \<Rightarrow> bool" where
  "isttest s = (ist_ptr s \<noteq> None)"

definition ist0 :: "bytes \<Rightarrow> ist \<Rightarrow> (ptr \<times> bytes) option" where
  "ist0 m s = do { m \<leftarrow> stp m (padd (ist_ptr s) (ist_len s)) 0; Some (ist_ptr s, m) }"

definition istptr :: "ist \<Rightarrow> ptr" where
  "istptr s = ist_ptr s"

definition istlen :: "ist \<Rightarrow> nat" where
  "istlen s = ist_len s"

definition istend :: "ist \<Rightarrow> ptr" where
  "istend s = padd (ist_ptr s) (ist_len s)"

definition istnext :: "ist \<Rightarrow> ist" where
  "istnext s = (if ist_len s \<noteq> 0 then ist2 (padd (ist_ptr s) 1) (ist_len s - 1) else s)"

definition istshift :: "bytes \<Rightarrow> ist \<Rightarrow> (byte \<times> ist) option" where
  "istshift m s = (if ist_len s \<noteq> 0 then do { c \<leftarrow> ldp m (ist_ptr s); Some (c, istnext s) }
     else Some (0, s))"

section \<open>Shortening\<close>

definition isttrim :: "ist \<Rightarrow> nat \<Rightarrow> ist" where
  "isttrim s n = (if ist_len s > n then s\<lparr>ist_len := n\<rparr> else s)"

definition istclear :: "ist \<Rightarrow> nat \<times> ist" where
  "istclear s = (ist_len s, s\<lparr>ist_len := 0\<rparr>)"

definition istzero :: "bytes \<Rightarrow> ist \<Rightarrow> nat \<Rightarrow> (ist \<times> bytes) option" where
  "istzero m s n =
     (if n = 0 then Some (s\<lparr>ist_len := 0\<rparr>, m)
      else do {
        let ret = (if ist_len s > n - 1 then s\<lparr>ist_len := n - 1\<rparr> else s);
        m \<leftarrow> stp m (padd (ist_ptr ret) (ist_len ret)) 0;
        Some (ret, m)
      })"

definition strip_last :: "bytes \<Rightarrow> byte \<Rightarrow> ist \<Rightarrow> ist option" where
  "strip_last m c s =
     (if ist_len s \<noteq> 0 then do {
        d \<leftarrow> ldp m (padd (ist_ptr s) (ist_len s - 1));
        Some (if d = c then s\<lparr>ist_len := ist_len s - 1\<rparr> else s)
      } else Some s)"

definition iststrip :: "bytes \<Rightarrow> ist \<Rightarrow> ist option" where
  "iststrip m s = do { ret \<leftarrow> strip_last m 10 s; strip_last m 13 ret }"

section \<open>Comparisons\<close>

text \<open>The loop of \<^verbatim>\<open>istdiff\<close>. \<^verbatim>\<open>-r.len\<close> is a \<^verbatim>\<open>size_t\<close> that is truncated to \<^verbatim>\<open>int\<close>.\<close>

fun istdiff_loop :: "bytes \<Rightarrow> bytes \<Rightarrow> ptr \<Rightarrow> nat \<Rightarrow> ptr \<Rightarrow> nat \<Rightarrow> int option" where
  "istdiff_loop ml mr lp 0 rp rn = Some (to_int32 (- int rn))"
| "istdiff_loop ml mr lp (Suc ln) rp 0 = Some 1"
| "istdiff_loop ml mr lp (Suc ln) rp (Suc rn) = do {
     a \<leftarrow> ldp ml lp;
     b \<leftarrow> ldp mr rp;
     if a = b then istdiff_loop ml mr (padd lp 1) ln (padd rp 1) rn
     else Some (int (unat a) - int (unat b))
   }"

definition istdiff :: "bytes \<Rightarrow> bytes \<Rightarrow> ist \<Rightarrow> ist \<Rightarrow> int option" where
  "istdiff ml mr l r = istdiff_loop ml mr (ist_ptr l) (ist_len l) (ist_ptr r) (ist_len r)"

text \<open>The loop that \<^verbatim>\<open>istmatch\<close> and \<^verbatim>\<open>isteq\<close> share, and its variant that ignores the case.\<close>

fun istcmp_loop :: "(byte \<Rightarrow> byte \<Rightarrow> bool) \<Rightarrow> bytes \<Rightarrow> bytes \<Rightarrow> ptr \<Rightarrow> ptr \<Rightarrow> nat \<Rightarrow> bool option" where
  "istcmp_loop same ml mr lp rp 0 = Some True"
| "istcmp_loop same ml mr lp rp (Suc n) = do {
     a \<leftarrow> ldp ml lp;
     b \<leftarrow> ldp mr rp;
     if \<not> same a b then Some False else istcmp_loop same ml mr (padd lp 1) (padd rp 1) n
   }"

definition same_lc :: "byte \<Rightarrow> byte \<Rightarrow> bool" where
  "same_lc a b = (\<not> (a \<noteq> b \<and> ist_lc ! unat a \<noteq> ist_lc ! unat b))"

definition istmatch :: "bytes \<Rightarrow> bytes \<Rightarrow> ist \<Rightarrow> ist \<Rightarrow> bool option" where
  "istmatch ml mr l r =
     (if ist_len l < ist_len r then Some False
      else istcmp_loop (=) ml mr (ist_ptr l) (ist_ptr r) (ist_len r))"

definition istmatchi :: "bytes \<Rightarrow> bytes \<Rightarrow> ist \<Rightarrow> ist \<Rightarrow> bool option" where
  "istmatchi ml mr l r =
     (if ist_len l < ist_len r then Some False
      else istcmp_loop same_lc ml mr (ist_ptr l) (ist_ptr r) (ist_len r))"

definition istnmatch :: "bytes \<Rightarrow> bytes \<Rightarrow> ist \<Rightarrow> ist \<Rightarrow> nat \<Rightarrow> bool option" where
  "istnmatch ml mr l r count =
     (let l = (if ist_len l > count then l\<lparr>ist_len := count\<rparr> else l);
          r = (if ist_len r > count then r\<lparr>ist_len := count\<rparr> else r)
      in istmatch ml mr l r)"

definition isteq :: "bytes \<Rightarrow> bytes \<Rightarrow> ist \<Rightarrow> ist \<Rightarrow> bool option" where
  "isteq ml mr l r =
     (if ist_len l \<noteq> ist_len r then Some False
      else istcmp_loop (=) ml mr (ist_ptr l) (ist_ptr r) (ist_len l))"

definition isteqi :: "bytes \<Rightarrow> bytes \<Rightarrow> ist \<Rightarrow> ist \<Rightarrow> bool option" where
  "isteqi ml mr l r =
     (if ist_len l \<noteq> ist_len r then Some False
      else istcmp_loop same_lc ml mr (ist_ptr l) (ist_ptr r) (ist_len l))"

definition istneq :: "bytes \<Rightarrow> bytes \<Rightarrow> ist \<Rightarrow> ist \<Rightarrow> nat \<Rightarrow> bool option" where
  "istneq ml mr l r count =
     (let l = (if ist_len l > count then l\<lparr>ist_len := count\<rparr> else l);
          r = (if ist_len r > count then r\<lparr>ist_len := count\<rparr> else r)
      in isteq ml mr l r)"

section \<open>Copies\<close>

text \<open>The byte loop of all the copies: \<^verbatim>\<open>dst[ofs] = conv(src[ofs])\<close> while \<open>ofs\<close> is below \<open>n\<close>.\<close>

function ist_copy_loop :: "(byte \<Rightarrow> byte) \<Rightarrow> bytes \<Rightarrow> ptr \<Rightarrow> nat \<Rightarrow> ptr \<Rightarrow> bytes \<Rightarrow> nat \<Rightarrow>
    (nat \<times> bytes) option" where
  "ist_copy_loop conv sm s n d dm ofs =
     (if ofs < n then do {
        c \<leftarrow> ldp sm (padd s ofs);
        dm \<leftarrow> stp dm (padd d ofs) (conv c);
        ist_copy_loop conv sm s n d dm (ofs + 1)
      } else Some (ofs, dm))"
  by pat_completeness auto
termination by (relation "measure (\<lambda>(conv, sm, s, n, d, dm, ofs). n - ofs)") auto

declare ist_copy_loop.simps [simp del]

definition istpad :: "bytes \<Rightarrow> bytes \<Rightarrow> ptr \<Rightarrow> ist \<Rightarrow> (ist \<times> bytes) option" where
  "istpad sm dm buf s = do {
     (n, dm) \<leftarrow> ist_copy_loop id sm (ist_ptr s) (ist_len s) buf dm 0;
     dm \<leftarrow> stp dm (padd buf n) 0;
     Some (ist2 buf n, dm)
   }"

definition raw_istappend :: "bytes \<Rightarrow> ist \<Rightarrow> byte \<Rightarrow> (ist \<times> bytes) option" where
  "raw_istappend dm dst c = do {
     dm \<leftarrow> stp dm (padd (ist_ptr dst) (ist_len dst)) c;
     Some (dst\<lparr>ist_len := sz_add (ist_len dst) 1\<rparr>, dm)
   }"

definition istcpy :: "bytes \<Rightarrow> bytes \<Rightarrow> ist \<Rightarrow> ist \<Rightarrow> nat \<Rightarrow> (int \<times> ist \<times> bytes) option" where
  "istcpy sm dm dst s count = do {
     let count = (if count > ist_len s then ist_len s else count);
     (n, dm) \<leftarrow> ist_copy_loop id sm (ist_ptr s) count (ist_ptr dst) dm 0;
     Some (if n = ist_len s then ssz (ist_len s) else -1, dst\<lparr>ist_len := n\<rparr>, dm)
   }"

definition istscpy :: "bytes \<Rightarrow> bytes \<Rightarrow> ist \<Rightarrow> ist \<Rightarrow> nat \<Rightarrow> (int \<times> ist \<times> bytes) option" where
  "istscpy sm dm dst s count =
     (if count = 0 then Some (-1, dst\<lparr>ist_len := 0\<rparr>, dm)
      else do {
        let count = (if count > ist_len s then sz_add (ist_len s) 1 else count);
        (n, dm) \<leftarrow> ist_copy_loop id sm (ist_ptr s) (sz_sub count 1) (ist_ptr dst) dm 0;
        dm \<leftarrow> stp dm (padd (ist_ptr dst) n) 0;
        Some (if n = ist_len s then ssz (ist_len s) else -1, dst\<lparr>ist_len := n\<rparr>, dm)
      })"

text \<open>The loop of \<^verbatim>\<open>istcat\<close> and \<^verbatim>\<open>istscat\<close>: \<open>i\<close> is \<^verbatim>\<open>s - src.ptr\<close>.\<close>

function istcat_loop :: "bytes \<Rightarrow> ist \<Rightarrow> nat \<Rightarrow> bytes \<Rightarrow> ist \<Rightarrow> nat \<Rightarrow> (nat \<times> ist \<times> bytes) option" where
  "istcat_loop sm s count dm dst i =
     (if ist_len dst < count \<and> i \<noteq> ist_len s then do {
        c \<leftarrow> ldp sm (padd (ist_ptr s) i);
        dm \<leftarrow> stp dm (padd (ist_ptr dst) (ist_len dst)) c;
        istcat_loop sm s count dm (dst\<lparr>ist_len := ist_len dst + 1\<rparr>) (i + 1)
      } else Some (i, dst, dm))"
  by pat_completeness auto
termination
  by (relation "measure (\<lambda>(sm, s, count, dm, dst, i). count - ist_len dst)") auto

declare istcat_loop.simps [simp del]

definition istcat :: "bytes \<Rightarrow> bytes \<Rightarrow> ist \<Rightarrow> ist \<Rightarrow> nat \<Rightarrow> (int \<times> ist \<times> bytes) option" where
  "istcat sm dm dst s count = do {
     (i, dst, dm) \<leftarrow> istcat_loop sm s count dm dst 0;
     Some (if i = ist_len s then ssz (ist_len dst) else -1, dst, dm)
   }"

definition istscat :: "bytes \<Rightarrow> bytes \<Rightarrow> ist \<Rightarrow> ist \<Rightarrow> nat \<Rightarrow> (int \<times> ist \<times> bytes) option" where
  "istscat sm dm dst s count =
     (if count = 0 then Some (-1, dst, dm)
      else do {
        (i, dst, dm) \<leftarrow> istcat_loop sm s (count - 1) dm dst 0;
        dm \<leftarrow> stp dm (padd (ist_ptr dst) (ist_len dst)) 0;
        Some (if i = ist_len s then ssz (ist_len dst) else -1, dst, dm)
      })"

definition ist2bin :: "bytes \<Rightarrow> bytes \<Rightarrow> ptr \<Rightarrow> ist \<Rightarrow> (ist \<times> bytes) option" where
  "ist2bin sm dm dst s = do {
     (ofs, dm) \<leftarrow> ist_copy_loop id sm (ist_ptr s) (ist_len s) dst dm 0;
     Some (ist2 dst ofs, dm)
   }"

definition ist2str :: "bytes \<Rightarrow> bytes \<Rightarrow> ptr \<Rightarrow> ist \<Rightarrow> (ist \<times> bytes) option" where
  "ist2str sm dm dst s = do {
     (ofs, dm) \<leftarrow> ist_copy_loop id sm (ist_ptr s) (ist_len s) dst dm 0;
     dm \<leftarrow> stp dm (padd dst ofs) 0;
     Some (ist2 dst ofs, dm)
   }"

definition ist2bin_lc :: "bytes \<Rightarrow> bytes \<Rightarrow> ptr \<Rightarrow> ist \<Rightarrow> (ist \<times> bytes) option" where
  "ist2bin_lc sm dm dst s = do {
     (ofs, dm) \<leftarrow> ist_copy_loop (\<lambda>c. ist_lc ! unat c) sm (ist_ptr s) (ist_len s) dst dm 0;
     Some (ist2 dst ofs, dm)
   }"

definition ist2str_lc :: "bytes \<Rightarrow> bytes \<Rightarrow> ptr \<Rightarrow> ist \<Rightarrow> (ist \<times> bytes) option" where
  "ist2str_lc sm dm dst s = do {
     (ofs, dm) \<leftarrow> ist_copy_loop (\<lambda>c. ist_lc ! unat c) sm (ist_ptr s) (ist_len s) dst dm 0;
     dm \<leftarrow> stp dm (padd dst ofs) 0;
     Some (ist2 dst ofs, dm)
   }"

definition ist2bin_uc :: "bytes \<Rightarrow> bytes \<Rightarrow> ptr \<Rightarrow> ist \<Rightarrow> (ist \<times> bytes) option" where
  "ist2bin_uc sm dm dst s = do {
     (ofs, dm) \<leftarrow> ist_copy_loop (\<lambda>c. ist_uc ! unat c) sm (ist_ptr s) (ist_len s) dst dm 0;
     Some (ist2 dst ofs, dm)
   }"

definition ist2str_uc :: "bytes \<Rightarrow> bytes \<Rightarrow> ptr \<Rightarrow> ist \<Rightarrow> (ist \<times> bytes) option" where
  "ist2str_uc sm dm dst s = do {
     (ofs, dm) \<leftarrow> ist_copy_loop (\<lambda>c. ist_uc ! unat c) sm (ist_ptr s) (ist_len s) dst dm 0;
     dm \<leftarrow> stp dm (padd dst ofs) 0;
     Some (ist2 dst ofs, dm)
   }"

section \<open>Searches\<close>

text \<open>\<^verbatim>\<open>istchr\<close>: \<open>n\<close> is the distance to the end of the string.\<close>

fun istchr_loop :: "bytes \<Rightarrow> byte \<Rightarrow> ptr \<Rightarrow> nat \<Rightarrow> ptr option" where
  "istchr_loop m chr p 0 = Some None"
| "istchr_loop m chr p (Suc n) = do {
     c \<leftarrow> ldp m p;
     if c \<noteq> chr then istchr_loop m chr (padd p 1) n else Some p
   }"

definition istchr :: "bytes \<Rightarrow> ist \<Rightarrow> byte \<Rightarrow> ptr option" where
  "istchr m s chr = istchr_loop m chr (ist_ptr s) (ist_len s)"

text \<open>A little-endian 64-bit load.\<close>

fun of_le :: "bytes \<Rightarrow> int" where
  "of_le [] = 0"
| "of_le (b # bs) = uint b + 256 * of_le bs"

definition ld64 :: "bytes \<Rightarrow> nat \<Rightarrow> u64 option" where
  "ld64 m p = map_option (\<lambda>bs. word_of_int (of_le bs)) (rd m p 8)"

text \<open>The two loops that \<^verbatim>\<open>ist_find_ctl\<close> and \<^verbatim>\<open>ist_find_range\<close> share: the scan by words, which
  ends before the first word with a candidate or past \<open>stop\<close>, and the scan by bytes.\<close>

function word_scan :: "(u64 \<Rightarrow> bool) \<Rightarrow> bytes \<Rightarrow> nat \<Rightarrow> int \<Rightarrow> nat option" where
  "word_scan clean m cur stop =
     (if int cur > stop then Some cur
      else do {
        v \<leftarrow> ld64 m cur;
        if clean v then word_scan clean m (cur + 8) stop else Some cur
      })"
  by pat_completeness auto
termination
  by (relation "measure (\<lambda>(clean, m, cur, stop). nat (stop + 1 - int cur))") auto

declare word_scan.simps [simp del]

function byte_scan :: "(byte \<Rightarrow> bool) \<Rightarrow> bytes \<Rightarrow> nat \<Rightarrow> int \<Rightarrow> ptr option" where
  "byte_scan hit m cur stop =
     (if int cur < stop then do {
        c \<leftarrow> ld m cur;
        if hit c then Some (Some cur) else byte_scan hit m (cur + 1) stop
      } else Some None)"
  by pat_completeness auto
termination
  by (relation "measure (\<lambda>(hit, m, cur, stop). nat (stop - int cur))") auto

declare byte_scan.simps [simp del]

text \<open>\<open>REP c\<close> is \<^verbatim>\<open>(~0UL / 255) * c\<close>: the byte \<open>c\<close> in every byte of a word.\<close>

definition REP :: "nat \<Rightarrow> u64" where
  "REP c = (NOT 0 div 255) * word_of_nat c"

definition ist_scan :: "(u64 \<Rightarrow> bool) \<Rightarrow> (byte \<Rightarrow> bool) \<Rightarrow> bytes \<Rightarrow> ist \<Rightarrow> ptr option" where
  "ist_scan clean hit m s =
     (case ist_ptr s of
        None \<Rightarrow> if ist_len s = 0 then Some None else None
      | Some p \<Rightarrow> do {
          let stop = int p - 8 + int (ist_len s);
          cur \<leftarrow> word_scan clean m p stop;
          byte_scan hit m cur (stop + 8)
        })"

definition ist_find_ctl :: "bytes \<Rightarrow> ist \<Rightarrow> ptr option" where
  "ist_find_ctl m s =
     ist_scan (\<lambda>v. let l1 = NOT v AND REP 128; l2 = v - REP 32 in l1 AND l2 = 0)
       (\<lambda>c. c < 32) m s"

definition ist_find_range :: "bytes \<Rightarrow> ist \<Rightarrow> byte \<Rightarrow> byte \<Rightarrow> ptr option" where
  "ist_find_range m s lo hi =
     (let hi = hi + 1
      in ist_scan (\<lambda>v. let l1 = NOT v AND REP 128; l2 = v + REP (unat lo) - REP (unat hi)
                       in l1 AND l2 = 0)
           (\<lambda>c. c - lo < hi - lo) m s)"

text \<open>The loop of \<^verbatim>\<open>istfind\<close> and \<^verbatim>\<open>istskip\<close>.\<close>

fun istfind_loop :: "(byte \<Rightarrow> bool) \<Rightarrow> bytes \<Rightarrow> ptr \<Rightarrow> nat \<Rightarrow> ist option" where
  "istfind_loop hit m p 0 = Some (ist2 p 0)"
| "istfind_loop hit m p (Suc n) = do {
     c \<leftarrow> ldp m p;
     if hit c then Some (ist2 p (n + 1)) else istfind_loop hit m (padd p 1) n
   }"

definition istfind :: "bytes \<Rightarrow> ist \<Rightarrow> byte \<Rightarrow> ist option" where
  "istfind m s chr = istfind_loop (\<lambda>c. c = chr) m (ist_ptr s) (ist_len s)"

definition istskip :: "bytes \<Rightarrow> ist \<Rightarrow> byte \<Rightarrow> ist option" where
  "istskip m s chr = istfind_loop (\<lambda>c. c \<noteq> chr) m (ist_ptr s) (ist_len s)"

text \<open>\<^verbatim>\<open>istist\<close>: \<open>istist_tail\<close> is the inner loop, which compares what follows the first character
  of the pattern; the outer loop restarts after every candidate that fails. It is entered with a
  pattern that is not empty, for which the test \<open>ist_len ret' = 0\<close> adds nothing to the one of
  the code; it makes the loop a total function.\<close>

fun istist_tail :: "bytes \<Rightarrow> bytes \<Rightarrow> ptr \<Rightarrow> ptr \<Rightarrow> nat \<Rightarrow> nat \<Rightarrow> bool option" where
  "istist_tail m mp rp pp pos 0 = Some True"
| "istist_tail m mp rp pp pos (Suc n) = do {
     let pos = pos + 1;
     a \<leftarrow> ldp m (padd rp (pos - 1));
     b \<leftarrow> ldp mp (padd pp pos);
     if a \<noteq> b then Some False else istist_tail m mp rp pp pos n
   }"

lemma istfind_loop_len: "istfind_loop hit m p n = Some r \<Longrightarrow> ist_len r \<le> n"
  by (induction hit m p n rule: istfind_loop.induct)
     (auto simp: ist2_def bind_eq_Some_conv le_SucI split: if_splits)

function istist_loop :: "bytes \<Rightarrow> bytes \<Rightarrow> ist \<Rightarrow> ist \<Rightarrow> ist option" where
  "istist_loop m mp pat ret = do {
     c \<leftarrow> ldp mp (ist_ptr pat);
     ret' \<leftarrow> istfind m ret c;
     if ist_len ret' < ist_len pat \<or> ist_len ret' = 0 then Some IST_NULL
     else do {
       let ret' = istnext ret';
       same \<leftarrow> istist_tail m mp (ist_ptr ret') (ist_ptr pat) 0 (ist_len pat - 1);
       if same then Some (ist2 (map_option (\<lambda>q. q - 1) (ist_ptr ret')) (ist_len ret' + 1))
       else istist_loop m mp pat ret'
     }
   }"
  by pat_completeness auto
termination
  by (relation "measure (\<lambda>(m, mp, pat, ret). ist_len ret)")
     (auto simp: istfind_def istnext_def ist2_def dest!: istfind_loop_len)

declare istist_loop.simps [simp del]

definition istist :: "bytes \<Rightarrow> bytes \<Rightarrow> ist \<Rightarrow> ist \<Rightarrow> ist option" where
  "istist m mp s pat = (if ist_len pat = 0 then Some s else istist_loop m mp pat s)"

section \<open>Cutting\<close>

text \<open>\<^verbatim>\<open>iststop\<close>: \<open>len\<close> is the counter before the test increments it.\<close>

function iststop_loop :: "bytes \<Rightarrow> ist \<Rightarrow> byte \<Rightarrow> nat \<Rightarrow> nat option" where
  "iststop_loop m s chr len =
     (if len < ist_len s then do {
        c \<leftarrow> ldp m (padd (ist_ptr s) len);
        if c \<noteq> chr then iststop_loop m s chr (len + 1) else Some (len + 1)
      } else Some (len + 1))"
  by pat_completeness auto
termination by (relation "measure (\<lambda>(m, s, chr, len). ist_len s - len)") auto

declare iststop_loop.simps [simp del]

definition iststop :: "bytes \<Rightarrow> ist \<Rightarrow> byte \<Rightarrow> ist option" where
  "iststop m s chr = do { len \<leftarrow> iststop_loop m s chr 0; Some (ist2 (ist_ptr s) (len - 1)) }"

definition istadv :: "ist \<Rightarrow> nat \<Rightarrow> ist" where
  "istadv s nb = (if ist_len s < nb then ist2 (padd (ist_ptr s) (ist_len s)) 0
     else ist2 (padd (ist_ptr s) nb) (ist_len s - nb))"

definition istsplit :: "bytes \<Rightarrow> ist \<Rightarrow> byte \<Rightarrow> (ist \<times> ist) option" where
  "istsplit m s delim = do {
     result \<leftarrow> iststop m s delim;
     Some (result, istadv s (sz_add (ist_len result) 1))
   }"

definition istissame :: "ist \<Rightarrow> ist \<Rightarrow> bool" where
  "istissame a b = (ist_ptr a = ist_ptr b \<and> ist_len a = ist_len b)"

section \<open>Allocation\<close>

text \<open>The memory that \<^verbatim>\<open>malloc\<close> returns, if any, is an argument; the string starts at its
  beginning.\<close>

definition istalloc :: "bytes option \<Rightarrow> ist" where
  "istalloc area = ist2 (map_option (\<lambda>_. 0) area) 0"

definition istfree :: "ist \<Rightarrow> ist" where
  "istfree s = IST_NULL"

definition istdup :: "(nat \<Rightarrow> bytes option) \<Rightarrow> bytes \<Rightarrow> ist \<Rightarrow> (ist \<times> bytes option) option" where
  "istdup malloc sm s =
     (let area = malloc (sz_add (ist_len s) 1); dst = istalloc area
      in case area of
        None \<Rightarrow> Some (dst, None)
      | Some dm \<Rightarrow> do {
          (_, dst, dm) \<leftarrow> istcpy sm dm dst s (ist_len s);
          dm \<leftarrow> stp dm (padd (ist_ptr dst) (ist_len dst)) 0;
          Some (dst, Some dm)
        })"

section \<open>What the tables hold\<close>

definition ascii_lc :: "byte \<Rightarrow> byte" where
  "ascii_lc c = (if 65 \<le> c \<and> c \<le> 90 then c + 32 else c)"

definition ascii_uc :: "byte \<Rightarrow> byte" where
  "ascii_uc c = (if 97 \<le> c \<and> c \<le> 122 then c - 32 else c)"

lemma ist_lc_table: "ist_lc = map (\<lambda>i. ascii_lc (word_of_nat i)) [0..<256]"
  by code_simp

lemma ist_uc_table: "ist_uc = map (\<lambda>i. ascii_uc (word_of_nat i)) [0..<256]"
  by code_simp

lemma ist_lc_nth: "ist_lc ! unat c = ascii_lc c"
  using byte_less [of c] by (simp add: ist_lc_table)

lemma ist_uc_nth: "ist_uc ! unat c = ascii_uc c"
  using byte_less [of c] by (simp add: ist_uc_table)

section \<open>The string that an ist designates\<close>

fun ist_ok :: "bytes \<Rightarrow> ptr \<Rightarrow> nat \<Rightarrow> bool" where
  "ist_ok m None n = (n = 0)"
| "ist_ok m (Some p) n = (p + n \<le> length m)"

fun ist_at :: "bytes \<Rightarrow> ptr \<Rightarrow> nat \<Rightarrow> bytes" where
  "ist_at m None n = []"
| "ist_at m (Some p) n = take n (drop p m)"

abbreviation ist_wf :: "bytes \<Rightarrow> ist \<Rightarrow> bool" where
  "ist_wf m s \<equiv> ist_ok m (ist_ptr s) (ist_len s)"

abbreviation ist_str :: "bytes \<Rightarrow> ist \<Rightarrow> bytes" where
  "ist_str m s \<equiv> ist_at m (ist_ptr s) (ist_len s)"

lemma ist2_sel [simp]: "ist_ptr (ist2 p n) = p" "ist_len (ist2 p n) = n"
  by (simp_all add: ist2_def)

lemma padd_simps [simp]: "padd None k = None" "padd (Some p) k = Some (p + k)"
  by (simp_all add: padd_def)

lemma ldp_simps [simp]: "ldp m None = None" "ldp m (Some p) = ld m p"
  by (simp_all add: ldp_def)

lemma stp_simps [simp]: "stp m None c = None" "stp m (Some p) c = st m p c"
  by (simp_all add: stp_def)

lemma length_ist_at [simp]: "ist_ok m p n \<Longrightarrow> length (ist_at m p n) = n"
  by (cases p) auto

lemma ist_at_0 [simp]: "ist_at m p 0 = []"
  by (cases p) auto

lemma ist_ok_0 [simp]: "ist_ok m None 0" "p \<le> length m \<Longrightarrow> ist_ok m (Some p) 0"
  by auto

text \<open>One step of a loop over a string.\<close>

lemma ist_step:
  assumes "ist_ok m p (Suc n)"
  shows "ldp m p = Some (ist_at m p (Suc n) ! 0)"
    and "ist_at m p (Suc n) = (ist_at m p (Suc n) ! 0) # ist_at m (padd p 1) n"
    and "ist_ok m (padd p 1) n"
  using assms by (cases p; simp add: ld_def take_Suc_conv_app_nth Cons_nth_drop_Suc [symmetric])+

lemma ist_stepE:
  assumes "ist_ok m p (Suc n)"
  obtains c where "ldp m p = Some c" "ist_at m p (Suc n) = c # ist_at m (padd p 1) n"
    "ist_ok m (padd p 1) n"
  using ist_step [OF assms] by blast

lemma istcmp_loop_eq:
  "\<lbrakk> ist_ok ml lp n; ist_ok mr rp n \<rbrakk> \<Longrightarrow>
   istcmp_loop same ml mr lp rp n = Some (list_all2 same (ist_at ml lp n) (ist_at mr rp n))"
proof (induction same ml mr lp rp n rule: istcmp_loop.induct)
  case (2 same ml mr lp rp n)
  from 2(2) obtain a where a: "ldp ml lp = Some a" "ist_at ml lp (Suc n) = a # ist_at ml (padd lp 1) n"
    "ist_ok ml (padd lp 1) n" by (rule ist_stepE)
  from 2(3) obtain b where b: "ldp mr rp = Some b" "ist_at mr rp (Suc n) = b # ist_at mr (padd rp 1) n"
    "ist_ok mr (padd rp 1) n" by (rule ist_stepE)
  show ?case using a b 2(1) [OF a(1) b(1) _ a(3) b(3)] by simp
qed simp

lemma same_lc_iff: "same_lc a b \<longleftrightarrow> ascii_lc a = ascii_lc b"
  by (auto simp: same_lc_def ist_lc_nth)

lemma ist_at_take: "ist_at m p (min k n) = take k (ist_at m p n)"
  by (cases p) (auto simp: min.commute)

lemma ist_ok_le: "ist_ok m p n \<Longrightarrow> k \<le> n \<Longrightarrow> ist_ok m p k"
  by (cases p) auto

lemma ist_at_le: "k \<le> n \<Longrightarrow> ist_at m p k = take k (ist_at m p n)"
  by (cases p) auto

lemma istmatch_gen:
  assumes "ist_wf ml l" and "ist_wf mr r" and "ist_len r \<le> ist_len l"
  shows "istcmp_loop same ml mr (ist_ptr l) (ist_ptr r) (ist_len r)
    = Some (list_all2 same (take (ist_len r) (ist_str ml l)) (ist_str mr r))"
  using istcmp_loop_eq [OF ist_ok_le [OF assms(1,3)] assms(2), of same]
  by (simp add: ist_at_le [OF assms(3)])

lemma istmatch_eq:
  assumes "ist_wf ml l" and "ist_wf mr r"
  shows "istmatch ml mr l r = Some (prefix (ist_str mr r) (ist_str ml l))"
proof (cases "ist_len l < ist_len r")
  case True
  then show ?thesis using assms by (auto simp: istmatch_def dest: prefix_length_le)
next
  case False
  then have "istmatch ml mr l r = Some (take (ist_len r) (ist_str ml l) = ist_str mr r)"
    using istmatch_gen [OF assms] by (simp add: istmatch_def list.rel_eq)
  also have "take (ist_len r) (ist_str ml l) = ist_str mr r \<longleftrightarrow> prefix (ist_str mr r) (ist_str ml l)"
    using assms by (metis append_eq_conv_conj length_ist_at prefix_def take_is_prefix)
  finally show ?thesis .
qed

lemma map_take_eq_iff: "list_all2 (\<lambda>a b. f a = f b) xs ys \<longleftrightarrow> map f xs = map f ys"
  by (auto simp: list_all2_conv_all_nth list_eq_iff_nth_eq)

lemma istmatchi_eq:
  assumes "ist_wf ml l" and "ist_wf mr r"
  shows "istmatchi ml mr l r = Some (prefix (map ascii_lc (ist_str mr r)) (map ascii_lc (ist_str ml l)))"
proof (cases "ist_len l < ist_len r")
  case True
  then show ?thesis using assms by (auto simp: istmatchi_def dest!: prefix_length_le)
next
  case False
  then have "istmatchi ml mr l r = Some (take (ist_len r) (map ascii_lc (ist_str ml l)) = map ascii_lc (ist_str mr r))"
    using istmatch_gen [OF assms, of same_lc]
    by (simp add: istmatchi_def same_lc_iff [abs_def] map_take_eq_iff take_map)
  also have "take (ist_len r) (map ascii_lc (ist_str ml l)) = map ascii_lc (ist_str mr r) \<longleftrightarrow>
      prefix (map ascii_lc (ist_str mr r)) (map ascii_lc (ist_str ml l))"
    using assms by (metis append_eq_conv_conj length_ist_at length_map prefix_def take_is_prefix)
  finally show ?thesis .
qed

lemma isteq_eq:
  assumes "ist_wf ml l" and "ist_wf mr r"
  shows "isteq ml mr l r = Some (ist_str ml l = ist_str mr r)"
proof (cases "ist_len l = ist_len r")
  case True
  then show ?thesis using assms istcmp_loop_eq [of ml "ist_ptr l" "ist_len l" mr "ist_ptr r" "(=)"]
    by (simp add: isteq_def list.rel_eq)
next
  case False
  then have "ist_str ml l \<noteq> ist_str mr r" using assms length_ist_at by metis
  with False show ?thesis by (simp add: isteq_def)
qed

lemma isteqi_eq:
  assumes "ist_wf ml l" and "ist_wf mr r"
  shows "isteqi ml mr l r = Some (map ascii_lc (ist_str ml l) = map ascii_lc (ist_str mr r))"
proof (cases "ist_len l = ist_len r")
  case True
  then show ?thesis using assms istcmp_loop_eq [of ml "ist_ptr l" "ist_len l" mr "ist_ptr r" same_lc]
    by (simp add: isteqi_def same_lc_iff [abs_def] map_take_eq_iff)
next
  case False
  then have "map ascii_lc (ist_str ml l) \<noteq> map ascii_lc (ist_str mr r)"
    using assms length_ist_at length_map by metis
  with False show ?thesis by (simp add: isteqi_def)
qed

lemma ist_cut:
  assumes "ist_wf m s"
  shows "ist_wf m (if ist_len s > k then s\<lparr>ist_len := k\<rparr> else s)"
    and "ist_str m (if ist_len s > k then s\<lparr>ist_len := k\<rparr> else s) = take k (ist_str m s)"
  using assms by (auto intro: ist_ok_le simp: ist_at_le [of k "ist_len s"])

lemma istnmatch_eq:
  "\<lbrakk> ist_wf ml l; ist_wf mr r \<rbrakk> \<Longrightarrow>
   istnmatch ml mr l r k = Some (prefix (take k (ist_str mr r)) (take k (ist_str ml l)))"
  by (simp only: istnmatch_def Let_def istmatch_eq ist_cut)

lemma istneq_eq:
  "\<lbrakk> ist_wf ml l; ist_wf mr r \<rbrakk> \<Longrightarrow>
   istneq ml mr l r k = Some (take k (ist_str ml l) = take k (ist_str mr r))"
  by (simp only: istneq_def Let_def isteq_eq ist_cut)


lemma istdiff_loop_sign:
  "\<lbrakk> ist_ok ml lp ln; ist_ok mr rp rn; rn < 2147483648 \<rbrakk> \<Longrightarrow>
   \<exists>d. istdiff_loop ml mr lp ln rp rn = Some d \<and>
     (d < 0 \<longleftrightarrow> ord_class.lexordp (ist_at ml lp ln) (ist_at mr rp rn)) \<and>
     (d = 0 \<longleftrightarrow> ist_at ml lp ln = ist_at mr rp rn)"
proof (induction ml mr lp ln rp rn rule: istdiff_loop.induct)
  case (1 ml mr lp rp rn)
  moreover have "length (ist_at mr rp rn) = rn" using 1(2) by simp
  ultimately show ?case by (cases "ist_at mr rp rn") (auto simp: to_int32_small)
next
  case (2 ml mr lp ln rp)
  then have "ist_at ml lp (Suc ln) \<noteq> []" using ist_step(2) [OF 2(1)] by (metis list.distinct(1))
  then show ?case by simp
next
  case (3 ml mr lp ln rp rn)
  from 3(2) obtain a where a: "ldp ml lp = Some a" "ist_at ml lp (Suc ln) = a # ist_at ml (padd lp 1) ln"
    "ist_ok ml (padd lp 1) ln" by (rule ist_stepE)
  from 3(3) obtain b where b: "ldp mr rp = Some b" "ist_at mr rp (Suc rn) = b # ist_at mr (padd rp 1) rn"
    "ist_ok mr (padd rp 1) rn" by (rule ist_stepE)
  show ?case
  proof (cases "a = b")
    case True
    then show ?thesis using 3(1) [OF a(1) b(1) True a(3) b(3)] 3(4) a(1,2) b(1,2) by simp
  next
    case False
    then have "uint a \<noteq> uint b" by (simp add: word_uint_eq_iff)
    then show ?thesis using False a(1,2) b(1,2) by (auto simp: word_less_def)
  qed
qed

section \<open>Copies\<close>

lemma ist_copy_loop_eq:
  assumes "ist_ok sm s n" and "q + n \<le> length dm" and "ofs \<le> n"
  shows "ist_copy_loop conv sm s n (Some q) (blit dm q (map conv (ist_at sm s ofs))) ofs
    = Some (n, blit dm q (map conv (ist_at sm s n)))"
  using assms(3)
proof (induction "n - ofs" arbitrary: ofs)
  case 0
  then show ?case by (subst ist_copy_loop.simps) simp
next
  case (Suc k)
  then have lt: "ofs < n" by simp
  have "ist_ok sm s ofs" using ist_ok_le [OF assms(1)] lt by simp
  then have len: "length (map conv (ist_at sm s ofs)) = ofs" by simp
  obtain c where c: "ldp sm (padd s ofs) = Some c" "ist_at sm s (Suc ofs) = ist_at sm s ofs @ [c]"
    using assms(1) lt by (cases s) (auto simp: ld_def take_Suc_conv_app_nth)
  have "st (blit dm q (map conv (ist_at sm s ofs))) (q + ofs) (conv c) =
      Some (blit dm q (map conv (ist_at sm s (Suc ofs))))"
    using st_blit [of q "map conv (ist_at sm s ofs)" dm "conv c"] len lt assms(2) c(2) by simp
  moreover have "ist_copy_loop conv sm s n (Some q) (blit dm q (map conv (ist_at sm s (Suc ofs)))) (Suc ofs)
      = Some (n, blit dm q (map conv (ist_at sm s n)))"
    using Suc(1) [of "Suc ofs"] Suc(2) lt by simp
  ultimately show ?case using c(1) lt by (subst ist_copy_loop.simps) simp
qed

lemma ist_copy:
  assumes "ist_ok sm s n" and "q + n \<le> length dm"
  shows "ist_copy_loop conv sm s n (Some q) dm 0 = Some (n, blit dm q (map conv (ist_at sm s n)))"
  using ist_copy_loop_eq [OF assms, of 0 conv] by simp

lemma ist2bin_eq:
  assumes "ist_wf sm s" and "q + ist_len s \<le> length dm"
  shows "ist2bin sm dm (Some q) s = Some (ist2 (Some q) (ist_len s), blit dm q (ist_str sm s))"
    and "ist2bin_lc sm dm (Some q) s = Some (ist2 (Some q) (ist_len s), blit dm q (map ascii_lc (ist_str sm s)))"
    and "ist2bin_uc sm dm (Some q) s = Some (ist2 (Some q) (ist_len s), blit dm q (map ascii_uc (ist_str sm s)))"
  using ist_copy [OF assms] by (simp_all add: ist2bin_def ist2bin_lc_def ist2bin_uc_def ist_lc_nth ist_uc_nth)

lemma ist_copy_zero:
  assumes "ist_ok sm s n" and "q + n < length dm"
  shows "do { (n, dm) \<leftarrow> ist_copy_loop conv sm s n (Some q) dm 0; dm \<leftarrow> stp dm (padd (Some q) n) 0; h n dm }
    = h n (blit dm q (map conv (ist_at sm s n) @ [0]))"
  using ist_copy [of sm s n q dm conv] assms st_blit [of q "map conv (ist_at sm s n)" dm 0] by simp

lemma ist2str_eq:
  assumes "ist_wf sm s" and "q + ist_len s < length dm"
  shows "ist2str sm dm (Some q) s = Some (ist2 (Some q) (ist_len s), blit dm q (ist_str sm s @ [0]))"
    and "ist2str_lc sm dm (Some q) s = Some (ist2 (Some q) (ist_len s), blit dm q (map ascii_lc (ist_str sm s) @ [0]))"
    and "ist2str_uc sm dm (Some q) s = Some (ist2 (Some q) (ist_len s), blit dm q (map ascii_uc (ist_str sm s) @ [0]))"
    and "istpad sm dm (Some q) s = Some (ist2 (Some q) (ist_len s), blit dm q (ist_str sm s @ [0]))"
  using ist_copy_zero [OF assms, of id "\<lambda>n dm. Some (ist2 (Some q) n, dm)"]
    ist_copy_zero [OF assms, of ascii_lc "\<lambda>n dm. Some (ist2 (Some q) n, dm)"]
    ist_copy_zero [OF assms, of ascii_uc "\<lambda>n dm. Some (ist2 (Some q) n, dm)"]
  by (simp_all add: ist2str_def ist2str_lc_def ist2str_uc_def istpad_def ist_lc_nth ist_uc_nth)

lemma istcpy_eq:
  assumes "ist_wf sm s" and "ist_ptr dst = Some q" and "q + min count (ist_len s) \<le> length dm"
    and "ist_len s < 9223372036854775808"
  shows "istcpy sm dm dst s count =
    Some (if ist_len s \<le> count then int (ist_len s) else -1, dst\<lparr>ist_len := min count (ist_len s)\<rparr>,
      blit dm q (take count (ist_str sm s)))"
proof -
  let ?n = "if count > ist_len s then ist_len s else count"
  have n: "?n = min count (ist_len s)" by simp
  have "ist_ok sm (ist_ptr s) ?n" using ist_ok_le [OF assms(1)] by simp
  from ist_copy [OF this, of q dm id] show ?thesis
    using assms unfolding istcpy_def n by (auto simp: ist_at_take ssz_small)
qed

lemma istscpy_eq:
  assumes "ist_wf sm s" and "ist_ptr dst = Some q" and "q + min (count - 1) (ist_len s) < length dm"
    and "ist_len s < 9223372036854775808" and "0 < count" and "count < 18446744073709551616"
  shows "istscpy sm dm dst s count =
    Some (if ist_len s < count then int (ist_len s) else -1,
      dst\<lparr>ist_len := min (count - 1) (ist_len s)\<rparr>, blit dm q (take (count - 1) (ist_str sm s) @ [0]))"
proof -
  have n: "sz_sub (if count > ist_len s then sz_add (ist_len s) 1 else count) 1 = min (count - 1) (ist_len s)"
    using assms(4-6) by (auto simp: sz_add_small sz_sub_small)
  have ok: "ist_ok sm (ist_ptr s) (min (count - 1) (ist_len s))" using ist_ok_le [OF assms(1)] by simp
  have eq: "min (count - 1) (ist_len s) = ist_len s \<longleftrightarrow> ist_len s < count" using assms(5) by linarith
  show ?thesis
    using ist_copy_zero [OF ok assms(3), of id "\<lambda>n dm. Some (if n = ist_len s then ssz (ist_len s) else -1, dst\<lparr>ist_len := n\<rparr>, dm)"]
    unfolding istscpy_def Let_def n using assms(2,4,5) eq by (simp add: ist_at_take ssz_small del: min_less_iff_disj)
qed


lemma istcat_loop_eq:
  assumes "ist_wf sm s" and "ist_ptr dst = Some q" and "q + ist_len dst + min (count - ist_len dst) (ist_len s) \<le> length dm"
    and "i \<le> min (count - ist_len dst) (ist_len s)"
  shows "istcat_loop sm s count (blit dm (q + ist_len dst) (ist_at sm (ist_ptr s) i)) (dst\<lparr>ist_len := ist_len dst + i\<rparr>) i
    = Some (min (count - ist_len dst) (ist_len s), dst\<lparr>ist_len := ist_len dst + min (count - ist_len dst) (ist_len s)\<rparr>,
        blit dm (q + ist_len dst) (take (count - ist_len dst) (ist_str sm s)))"
    (is "_ = Some (?n, _, _)")
  using assms(4)
proof (induction "?n - i" arbitrary: i)
  case 0
  then have i: "i = ?n" by simp
  have "\<not> (ist_len dst + ?n < count \<and> ?n \<noteq> ist_len s)" by linarith
  then show ?case unfolding i by (subst istcat_loop.simps) (auto simp: ist_at_take)
next
  case (Suc k)
  have lt: "i < ?n" using Suc(2) by (metis zero_less_Suc zero_less_diff)
  have "ist_ok sm (ist_ptr s) i" using ist_ok_le [OF assms(1)] lt by simp
  then have len: "length (ist_at sm (ist_ptr s) i) = i" by simp
  obtain c where c: "ldp sm (padd (ist_ptr s) i) = Some c" "ist_at sm (ist_ptr s) (Suc i) = ist_at sm (ist_ptr s) i @ [c]"
    using assms(1) lt by (cases "ist_ptr s") (auto simp: ld_def take_Suc_conv_app_nth)
  have "st (blit dm (q + ist_len dst) (ist_at sm (ist_ptr s) i)) (q + ist_len dst + i) c =
      Some (blit dm (q + ist_len dst) (ist_at sm (ist_ptr s) (Suc i)))"
    using st_blit [of "q + ist_len dst" "ist_at sm (ist_ptr s) i" dm c] len lt assms(3) c(2) by simp
  moreover have "k = ?n - Suc i" and "ist_len dst + i < count" using Suc(2) lt by linarith+
  ultimately show ?case using Suc(1) [of "Suc i"] lt c(1) assms(2)
    by (subst istcat_loop.simps) (simp add: add.assoc)
qed

lemma istcat_loop_0:
  assumes "ist_wf sm s" and "ist_ptr dst = Some q" and "q + ist_len dst + min (count - ist_len dst) (ist_len s) \<le> length dm"
  shows "istcat_loop sm s count dm dst 0
    = Some (min (count - ist_len dst) (ist_len s), dst\<lparr>ist_len := ist_len dst + min (count - ist_len dst) (ist_len s)\<rparr>,
        blit dm (q + ist_len dst) (take (count - ist_len dst) (ist_str sm s)))"
  using istcat_loop_eq [OF assms, of 0] by simp

lemma istcat_eq:
  assumes "ist_wf sm s" and "ist_ptr dst = Some q"
    and "q + ist_len dst + min (count - ist_len dst) (ist_len s) \<le> length dm"
    and "ist_len dst + ist_len s < 9223372036854775808"
  shows "istcat sm dm dst s count =
    Some (if ist_len s \<le> count - ist_len dst then int (ist_len dst + ist_len s) else -1,
      dst\<lparr>ist_len := ist_len dst + min (count - ist_len dst) (ist_len s)\<rparr>,
      blit dm (q + ist_len dst) (take (count - ist_len dst) (ist_str sm s)))"
  using istcat_loop_0 [OF assms(1-3)] assms(4) by (auto simp: istcat_def ssz_small min_def)

lemma istscat_eq:
  assumes "ist_wf sm s" and "ist_ptr dst = Some q"
    and "q + ist_len dst + min (count - 1 - ist_len dst) (ist_len s) < length dm"
    and "ist_len dst + ist_len s < 9223372036854775808" and "0 < count"
  shows "istscat sm dm dst s count =
    Some (if ist_len s \<le> count - 1 - ist_len dst then int (ist_len dst + ist_len s) else -1,
      dst\<lparr>ist_len := ist_len dst + min (count - 1 - ist_len dst) (ist_len s)\<rparr>,
      blit dm (q + ist_len dst) (take (count - 1 - ist_len dst) (ist_str sm s) @ [0]))"
proof -
  let ?n = "min (count - 1 - ist_len dst) (ist_len s)"
  let ?xs = "take (count - 1 - ist_len dst) (ist_str sm s)"
  have "length ?xs = ?n" using assms(1) by simp
  then have "st (blit dm (q + ist_len dst) ?xs) (q + (ist_len dst + ?n)) 0 = Some (blit dm (q + ist_len dst) (?xs @ [0]))"
    using st_blit [of "q + ist_len dst" ?xs dm 0] assms(3) by (simp add: add.assoc)
  moreover note istcat_loop_0 [OF assms(1,2) less_imp_le [OF assms(3)]]
  moreover have "?n = ist_len s \<longleftrightarrow> ist_len s \<le> count - 1 - ist_len dst" by linarith
  ultimately show ?thesis using assms(2,4,5)
    by (simp add: istscat_def ssz_small min_absorb2)
qed

section \<open>Searches\<close>

definition find_idx :: "('a \<Rightarrow> bool) \<Rightarrow> 'a list \<Rightarrow> nat option" where
  "find_idx P xs = (if \<exists>x\<in>set xs. P x then Some (length (takeWhile (\<lambda>x. \<not> P x) xs)) else None)"

lemma find_idx_simps [simp]:
  "find_idx P [] = None"
  "find_idx P (x # xs) = (if P x then Some 0 else map_option Suc (find_idx P xs))"
  by (auto simp: find_idx_def)

lemma find_idx_append: "\<forall>x\<in>set xs. \<not> P x \<Longrightarrow>
    find_idx P (xs @ ys) = map_option (\<lambda>i. length xs + i) (find_idx P ys)"
  by (induction xs) (cases "find_idx P ys"; simp)+

lemma istchr_loop_eq:
  "ist_ok m p n \<Longrightarrow> istchr_loop m chr p n =
     Some (Option.bind (find_idx (\<lambda>c. c = chr) (ist_at m p n)) (padd p))"
proof (induction m chr p n rule: istchr_loop.induct)
  case (2 m chr p n)
  from 2(2) obtain a where a: "ldp m p = Some a" "ist_at m p (Suc n) = a # ist_at m (padd p 1) n"
    "ist_ok m (padd p 1) n" by (rule ist_stepE)
  then obtain q where q: "p = Some q" by (cases p) auto
  show ?case
  proof (cases "a = chr")
    case True
    then show ?thesis using a q by simp
  next
    case False
    then show ?thesis using 2(1) [OF a(1) _ a(3)] a(1,2) q
      by (cases "find_idx (\<lambda>c. c = chr) (ist_at m (padd p 1) n)") auto
  qed
qed simp

lemma istfind_loop_eq:
  "ist_ok m p n \<Longrightarrow> istfind_loop hit m p n =
     Some (let k = length (takeWhile (\<lambda>c. \<not> hit c) (ist_at m p n)) in ist2 (padd p k) (n - k))"
proof (induction hit m p n rule: istfind_loop.induct)
  case (1 hit m p)
  then show ?case by (cases p) simp_all
next
  case (2 hit m p n)
  from 2(2) obtain a where a: "ldp m p = Some a" "ist_at m p (Suc n) = a # ist_at m (padd p 1) n"
    "ist_ok m (padd p 1) n" by (rule ist_stepE)
  then obtain q where q: "p = Some q" by (cases p) auto
  show ?case using 2(1) [OF a(1) _ a(3)] a(1,2) q by (simp add: Let_def)
qed


lemma istist_tail_eq:
  "\<lbrakk> ist_ok m rp (pos + n); ist_ok mp pp (Suc (pos + n)) \<rbrakk> \<Longrightarrow>
   istist_tail m mp rp pp pos n =
     Some (drop pos (ist_at m rp (pos + n)) = drop (Suc pos) (ist_at mp pp (Suc (pos + n))))"
proof (induction m mp rp pp pos n rule: istist_tail.induct)
  case (1 m mp rp pp pos)
  then show ?case by simp
next
  case (2 m mp rp pp pos n)
  have oka: "pos < length (ist_at m rp (pos + Suc n))" using 2(2) by simp
  have okb: "Suc pos < length (ist_at mp pp (Suc (pos + Suc n)))" using length_ist_at [OF 2(3)] by simp
  obtain a where a: "ldp m (padd rp pos) = Some a"
    "drop pos (ist_at m rp (pos + Suc n)) = a # drop (Suc pos) (ist_at m rp (pos + Suc n))"
    using 2(2) Cons_nth_drop_Suc [OF oka] by (cases rp) (auto simp: ld_def)
  obtain b where b: "ldp mp (padd pp (Suc pos)) = Some b"
    "drop (Suc pos) (ist_at mp pp (Suc (pos + Suc n))) = b # drop (Suc (Suc pos)) (ist_at mp pp (Suc (pos + Suc n)))"
    using 2(3) Cons_nth_drop_Suc [OF okb] by (cases pp) (auto simp: ld_def)
  show ?case
  proof (cases "a = b")
    case True
    then show ?thesis using 2(1) [of "Suc pos" a b] 2(2,3) a b by simp
  next
    case False
    then show ?thesis using a b by simp
  qed
qed

text \<open>The first position of a pattern in a string.\<close>

fun find_sub :: "'a list \<Rightarrow> 'a list \<Rightarrow> nat option" where
  "find_sub pat [] = (if pat = [] then Some 0 else None)"
| "find_sub pat (x # xs) = (if prefix pat (x # xs) then Some 0 else map_option Suc (find_sub pat xs))"

lemma find_sub_short: "length xs < length pat \<Longrightarrow> find_sub pat xs = None"
  by (induction xs) (auto dest: prefix_length_le)

lemma find_sub_skip: "find_sub (c # pat) xs =
    map_option (\<lambda>i. length (takeWhile (\<lambda>x. x \<noteq> c) xs) + i) (find_sub (c # pat) (dropWhile (\<lambda>x. x \<noteq> c) xs))"
proof (induction xs)
  case (Cons a xs)
  then show ?case by (cases "find_sub (c # pat) (dropWhile (\<lambda>x. x \<noteq> c) xs)") auto
qed simp

lemma ist_at_drop: "ist_ok m p n \<Longrightarrow> k \<le> n \<Longrightarrow> ist_at m (padd p k) (n - k) = drop k (ist_at m p n) \<and> ist_ok m (padd p k) (n - k)"
  by (cases p) (auto simp: drop_take add.commute)

lemma istfind_eq:
  assumes "ist_wf m s"
  shows "\<exists>r. istfind_loop hit m (ist_ptr s) (ist_len s) = Some r \<and> ist_wf m r \<and>
    ist_ptr r = padd (ist_ptr s) (length (takeWhile (\<lambda>c. \<not> hit c) (ist_str m s))) \<and>
    ist_str m r = dropWhile (\<lambda>c. \<not> hit c) (ist_str m s)"
proof -
  let ?k = "length (takeWhile (\<lambda>c. \<not> hit c) (ist_str m s))"
  have k: "?k \<le> ist_len s" using length_takeWhile_le [of _ "ist_str m s"] assms by simp
  show ?thesis using istfind_loop_eq [OF assms, of hit] ist_at_drop [OF assms k]
    by (simp add: Let_def dropWhile_eq_drop)
qed

lemma istist_loop_eq:
  assumes "ist_wf mp pat" and "ist_len pat \<noteq> 0"
  shows "ist_wf m s \<Longrightarrow> istist_loop m mp pat s =
    Some (case find_sub (ist_str mp pat) (ist_str m s) of None \<Rightarrow> IST_NULL
       | Some i \<Rightarrow> ist2 (padd (ist_ptr s) i) (ist_len s - i))"
proof (induction "ist_len s" arbitrary: s rule: less_induct)
  case less
  obtain n where n: "ist_len pat = Suc n" using assms(2) by (cases "ist_len pat") auto
  obtain c where c: "ldp mp (ist_ptr pat) = Some c" "ist_str mp pat = c # ist_at mp (padd (ist_ptr pat) 1) n"
    using ist_stepE [of mp "ist_ptr pat" n] assms(1) n by metis
  let ?k = "length (takeWhile (\<lambda>x. x \<noteq> c) (ist_str m s))"
  obtain r where r: "istfind m s c = Some r" "ist_wf m r" "ist_ptr r = padd (ist_ptr s) ?k"
    "ist_str m r = dropWhile (\<lambda>x. x \<noteq> c) (ist_str m s)"
    using istfind_eq [OF less(2), of "\<lambda>x. x = c"] by (auto simp: istfind_def)
  have len_s: "ist_len s = ?k + ist_len r"
  proof -
    have "length (ist_str m s) = ?k + length (ist_str m r)"
      unfolding r(4) by (metis length_append takeWhile_dropWhile_id)
    then show ?thesis using less(2) r(2) by simp
  qed
  have skip: "find_sub (ist_str mp pat) (ist_str m s) =
      map_option (\<lambda>i. ?k + i) (find_sub (ist_str mp pat) (ist_str m r))"
    unfolding c(2) r(4) by (rule find_sub_skip)
  show ?case
  proof (cases "ist_len r < ist_len pat")
    case True
    then have "find_sub (ist_str mp pat) (ist_str m r) = None"
      using find_sub_short [of "ist_str m r" "ist_str mp pat"] r(2) assms(1) by simp
    then show ?thesis using c(1) r(1) True skip by (subst istist_loop.simps) simp
  next
    case False
    then obtain j where j: "ist_len r = Suc j" "n \<le> j" using n by (cases "ist_len r") auto
    let ?r = "istnext r"
    have nx: "ist_ptr ?r = padd (ist_ptr r) 1" "ist_len ?r = j" using j by (simp_all add: istnext_def)
    obtain d where d: "ist_str m r = d # ist_str m ?r" "ist_wf m ?r"
      using ist_stepE [of m "ist_ptr r" j] r(2) j(1) nx by metis
    have "d = c" using d(1) r(4) hd_dropWhile [of "\<lambda>x. x \<noteq> c" "ist_str m s"] by (metis list.distinct(1) list.sel(1))
    have tail: "istist_tail m mp (ist_ptr ?r) (ist_ptr pat) 0 (ist_len pat - 1)
        = Some (take n (ist_str m ?r) = ist_at mp (padd (ist_ptr pat) 1) n)"
      using istist_tail_eq [of m "ist_ptr ?r" 0 n mp "ist_ptr pat"] ist_ok_le [OF d(2), of n] j(2) nx(2) assms(1) n c(2)
      by (simp add: ist_at_le [of n j])
    have pre: "prefix (ist_str mp pat) (ist_str m r) \<longleftrightarrow> take n (ist_str m ?r) = ist_at mp (padd (ist_ptr pat) 1) n"
    proof -
      have "length (ist_at mp (padd (ist_ptr pat) 1) n) = n"
        using ist_step(3) [of mp "ist_ptr pat" n] assms(1) n by simp
      then show ?thesis unfolding c(2) d(1) \<open>d = c\<close>
        by (simp add: prefix_def) (metis append_eq_conv_conj append_take_drop_id)
    qed
    obtain q where q: "ist_ptr s = Some q" using less(2) len_s j(1) by (cases "ist_ptr s") auto
    show ?thesis
    proof (cases "prefix (ist_str mp pat) (ist_str m r)")
      case True
      then have "find_sub (ist_str mp pat) (ist_str m r) = Some 0" by (simp add: d(1))
      then show ?thesis using c(1) r(1,3) False j True pre tail skip nx len_s q
        by (subst istist_loop.simps) (simp add: Let_def)
    next
      case F: False
      then have "find_sub (ist_str mp pat) (ist_str m r) = map_option Suc (find_sub (ist_str mp pat) (ist_str m ?r))"
        by (simp add: d(1))
      moreover have "istist_loop m mp pat s = istist_loop m mp pat ?r"
        using c(1) r(1) False j F pre tail by (subst istist_loop.simps) (simp add: Let_def)
      moreover have "ist_len ?r < ist_len s" using nx len_s j by simp
      ultimately show ?thesis using less(1) [OF _ d(2)] skip nx len_s j(1) r(3) q
        by (cases "find_sub (ist_str mp pat) (ist_str m ?r)") (simp_all add: option.map_comp comp_def)
    qed
  qed
qed


section \<open>Scans by words\<close>

fun rep :: "nat \<Rightarrow> int" where
  "rep 0 = 0"
| "rep (Suc n) = 1 + 256 * rep n"

lemma bit_byte_Suc:
  assumes "0 \<le> x" and "x < 256"
  shows "bit (x + 256 * y) (8 * Suc i + 7) \<longleftrightarrow> bit (y :: int) (8 * i + 7)"
proof -
  have "drop_bit 8 (x + 256 * y) = y" using assms by (simp add: drop_bit_eq_div)
  then have "bit y (8 * i + 7) \<longleftrightarrow> bit (x + 256 * y) (8 + (8 * i + 7))"
    by (metis bit_drop_bit_eq comp_apply)
  also have "8 + (8 * i + 7) = 8 * Suc i + 7" by simp
  finally show ?thesis by simp
qed

lemma bit_byte_0:
  assumes "0 \<le> x" and "x < 128"
  shows "bit (x + 128 * y) 7 \<longleftrightarrow> odd (y :: int)"
proof -
  have "(x + 128 * y) div 2 ^ 7 = y" using assms by simp
  then show ?thesis by (simp only: bit_iff_odd)
qed

text \<open>Subtracting \<open>k\<close> from all the bytes at once sets the high bit of the first byte below \<open>k\<close>,
  where it was clear, because no borrow comes from the bytes before it.\<close>

lemma borrow_bit:
  "\<exists>b\<in>set bs. unat b < k \<Longrightarrow> k \<le> 128 \<Longrightarrow>
   \<exists>i < length bs. bit (of_le bs - int k * rep (length bs)) (8 * i + 7) \<and> \<not> bit (of_le bs) (8 * i + 7)"
proof (induction bs)
  case (Cons b bs)
  define d where "d = of_le bs - int k * rep (length bs)"
  have d: "of_le (b # bs) - int k * rep (length (b # bs)) = (uint b - int k) + 256 * d"
    by (simp add: d_def algebra_simps)
  have u: "uint b = int (unat b)" by simp
  have b: "0 \<le> uint b" "uint b < 256" using byte_less [of b] unfolding u by linarith+
  have k: "int k \<le> 128" using Cons(3) by simp
  show ?case
  proof (cases "unat b < k")
    case True
    then have lt: "uint b < int k" unfolding u by linarith
    have "0 \<le> uint b - int k + 128" and "uint b - int k + 128 < 128" using lt b k by linarith+
    then have "bit ((uint b - int k + 128) + 128 * (2 * d - 1)) 7" by (simp only: bit_byte_0) simp
    then have "bit (uint b - int k + 256 * d) 7" by (simp add: algebra_simps)
    moreover have "\<not> bit (uint b + 128 * (2 * of_le bs)) 7" using lt b k by (subst bit_byte_0) auto
    then have "\<not> bit (of_le (b # bs)) 7" by simp
    ultimately show ?thesis unfolding d by (intro exI [of _ 0]) simp
  next
    case False
    then have ge: "int k \<le> uint b" unfolding u by linarith
    have "\<exists>b\<in>set bs. unat b < k" using Cons(2) False by auto
    then obtain i where i: "i < length bs" "bit d (8 * i + 7)" "\<not> bit (of_le bs) (8 * i + 7)"
      using Cons(1) [OF _ Cons(3)] unfolding d_def by blast
    have "bit ((uint b - int k) + 256 * d) (8 * Suc i + 7)"
      using bit_byte_Suc [of "uint b - int k" d i] i(2) ge b by simp
    moreover have "\<not> bit (uint b + 256 * of_le bs) (8 * Suc i + 7)"
      using bit_byte_Suc [of "uint b" "of_le bs" i] i(3) b by simp
    ultimately show ?thesis unfolding d using i(1) by (intro exI [of _ "Suc i"]) simp
  qed
qed simp

lemma bit_rep_128: "i < n \<Longrightarrow> bit (128 * rep n) (8 * i + 7)"
proof (induction n arbitrary: i)
  case (Suc n)
  have e: "128 * rep (Suc n) = 128 + 256 * (128 * rep n)" by simp
  show ?case
  proof (cases i)
    case 0
    then show ?thesis unfolding e using bit_byte_0 [of 0 "1 + 256 * rep n"] by simp
  next
    case (Suc j)
    then show ?thesis unfolding e using bit_byte_Suc [of 128 "128 * rep n" j] Suc.IH [of j] Suc.prems by simp
  qed
qed simp

lemma REP_eq: "REP c = word_of_int (int c * rep 8)"
proof -
  have "(NOT 0 :: u64) div 255 = 72340172838076673" by simp
  then show ?thesis by (simp add: REP_def eval_nat_numeral)
qed

lemma word_clean:
  assumes "length bs = 8" and "k \<le> 128" and "v = (word_of_int (of_le bs) :: u64)"
    and "(NOT v AND REP 128) AND (v - REP k) = 0"
  shows "\<forall>b\<in>set bs. \<not> unat b < k"
proof (rule ccontr)
  assume "\<not> ?thesis"
  then obtain i where i: "i < 8" "bit (of_le bs - int k * rep 8) (8 * i + 7)" "\<not> bit (of_le bs) (8 * i + 7)"
    using borrow_bit [of bs k] assms(1,2) by auto
  have lt: "8 * i + 7 < 64" using i(1) by simp
  have "v - REP k = word_of_int (of_le bs - int k * rep 8)" by (simp add: assms(3) REP_eq)
  then have "bit (v - REP k) (8 * i + 7)" using i(2) lt by (simp only: bit_word_of_int_iff) simp
  moreover have "\<not> bit v (8 * i + 7)" using i(3) lt by (simp add: assms(3) bit_word_of_int_iff)
  moreover have "bit (REP 128) (8 * i + 7)"
    using bit_rep_128 [OF i(1)] lt unfolding REP_eq by (simp only: bit_word_of_int_iff) simp
  ultimately have "bit ((NOT v AND REP 128) AND (v - REP k)) (8 * i + 7)"
    using lt by (simp add: bit_and_iff bit_not_iff)
  then show False using assms(4) by simp
qed

lemma byte_scan_eq:
  assumes "c + n \<le> length m"
  shows "byte_scan hit m c (int (c + n)) =
    Some (map_option (\<lambda>i. c + i) (find_idx hit (take n (drop c m))))"
  using assms
proof (induction n arbitrary: c)
  case 0
  then show ?case by (subst byte_scan.simps) simp
next
  case (Suc n)
  have "take (Suc n) (drop c m) = m ! c # take n (drop (Suc c) m)"
    using Suc(2) Cons_nth_drop_Suc [of c m] by (metis Suc_le_lessD add_Suc_right le_add1 order_less_le_trans take_Suc_Cons less_Suc_eq_le add_leD1 Suc_leI not_less_eq_eq nat_less_le)
  then show ?case using Suc(1) [of "Suc c"] Suc(2)
    by (subst byte_scan.simps) (auto simp: ld_def option.map_comp comp_def)
qed

lemma word_scan_eq:
  assumes clean: "\<And>bs. length bs = 8 \<Longrightarrow> clean (word_of_int (of_le bs)) \<Longrightarrow> \<forall>b\<in>set bs. \<not> hit b"
  shows "c + n \<le> length m \<Longrightarrow> \<exists>j \<le> n. word_scan clean m c (int c - 8 + int n) = Some (c + j) \<and>
    (\<forall>b\<in>set (take j (drop c m)). \<not> hit b)"
proof (induction n arbitrary: c rule: less_induct)
  case (less n)
  show ?case
  proof (cases "n < 8")
    case True
    then show ?thesis by (subst word_scan.simps) (intro exI [of _ 0], simp)
  next
    case False
    let ?bs = "take 8 (drop c m)"
    have v: "ld64 m c = Some (word_of_int (of_le ?bs))" "length ?bs = 8"
      using less(2) False by (simp_all add: ld64_def rd_def)
    show ?thesis
    proof (cases "clean (word_of_int (of_le ?bs))")
      case True
      have "n - 8 < n" "c + 8 + (n - 8) \<le> length m" using False less(2) by simp_all
      from less(1) [OF this] obtain j where j: "j \<le> n - 8"
        "word_scan clean m (c + 8) (int (c + 8) - 8 + int (n - 8)) = Some (c + 8 + j)"
        "\<forall>b\<in>set (take j (drop (c + 8) m)). \<not> hit b" by blast
      have "int (c + 8) - 8 + int (n - 8) = int c - 8 + int n" using False by simp
      then have "word_scan clean m (c + 8) (int c - 8 + int n) = Some (c + (8 + j))"
        using j(2) by (simp only: add.assoc)
      then have "word_scan clean m c (int c - 8 + int n) = Some (c + (8 + j))"
        using False v(1) True by (subst word_scan.simps) simp
      moreover have "take (8 + j) (drop c m) = ?bs @ take j (drop (c + 8) m)"
        by (simp only: take_add drop_drop add.commute [of c 8])
      ultimately show ?thesis using clean [OF v(2) True] j(1,3) False
        by (intro exI [of _ "8 + j"]) auto
    next
      case F: False
      then show ?thesis using v(1) False by (subst word_scan.simps) (intro exI [of _ 0], simp)
    qed
  qed
qed

lemma ist_scan_eq:
  assumes clean: "\<And>bs. length bs = 8 \<Longrightarrow> clean (word_of_int (of_le bs)) \<Longrightarrow> \<forall>b\<in>set bs. \<not> hit b"
    and "ist_wf m s"
  shows "ist_scan clean hit m s = Some (Option.bind (find_idx hit (ist_str m s)) (padd (ist_ptr s)))"
proof (cases "ist_ptr s")
  case None
  then show ?thesis using assms(2) by (simp add: ist_scan_def)
next
  case (Some p)
  let ?n = "ist_len s"
  have le: "p + ?n \<le> length m" using assms(2) Some by simp
  obtain j where j: "j \<le> ?n" "word_scan clean m p (int p - 8 + int ?n) = Some (p + j)"
    "\<forall>b\<in>set (take j (drop p m)). \<not> hit b"
    using word_scan_eq [of clean hit p ?n m] clean le by blast
  have "byte_scan hit m (p + j) (int (p + j + (?n - j))) =
      Some (map_option (\<lambda>i. p + j + i) (find_idx hit (take (?n - j) (drop (p + j) m))))"
    using le j(1) by (intro byte_scan_eq) simp
  moreover have "int (p + j + (?n - j)) = int p - 8 + int ?n + 8" using j(1) by simp
  moreover have "take ?n (drop p m) = take j (drop p m) @ take (?n - j) (drop (p + j) m)"
    using j(1) take_add [of j "?n - j" "drop p m"] by (simp add: add.commute)
  moreover have "length (take j (drop p m)) = j" using le j(1) by simp
  ultimately show ?thesis using j(2,3) Some
    by (cases "find_idx hit (take (?n - j) (drop (p + j) m))") (simp_all add: ist_scan_def find_idx_append)
qed

lemma ist_find_ctl_eq:
  "ist_wf m s \<Longrightarrow> ist_find_ctl m s =
     Some (Option.bind (find_idx (\<lambda>c. c < 32) (ist_str m s)) (padd (ist_ptr s)))"
  unfolding ist_find_ctl_def
  by (rule ist_scan_eq) (auto simp: Let_def word_less_nat_alt dest!: word_clean [where k = 32, OF _ _ refl, simplified])

lemma ist_find_range_eq:
  assumes "ist_wf m s" and "hi < 128"
  shows "ist_find_range m s 0 hi =
     Some (Option.bind (find_idx (\<lambda>c. c \<le> hi) (ist_str m s)) (padd (ist_ptr s)))"
proof -
  have k: "unat (hi + 1) = unat hi + 1" "unat hi + 1 \<le> 128"
    using assms(2) by (auto simp: word_less_nat_alt unat_word_ariths)
  have hit: "(\<lambda>c. c - 0 < hi + 1 - 0) = (\<lambda>c. c \<le> hi)"
    using k(1) by (auto simp: word_less_nat_alt word_le_nat_alt)
  show ?thesis unfolding ist_find_range_def Let_def hit
  proof (rule ist_scan_eq [OF _ assms(1)])
    fix bs :: bytes assume "length bs = 8"
      "(NOT (word_of_int (of_le bs)) AND REP 128) AND
         (word_of_int (of_le bs) + REP (unat (0::byte)) - REP (unat (hi + 1))) = 0"
    moreover have "REP (unat (0::byte)) = 0" by (simp add: REP_def)
    ultimately have "\<forall>b\<in>set bs. \<not> unat b < unat hi + 1"
      using word_clean [of bs "unat hi + 1" "word_of_int (of_le bs)"] k by (simp only: add_0_right) simp
    then show "\<forall>b\<in>set bs. \<not> b \<le> hi" by (auto simp: word_le_nat_alt not_le)
  qed
qed


lemma iststop_loop_eq:
  assumes "ist_wf m s" and "k \<le> ist_len s" and "\<forall>c\<in>set (take k (ist_str m s)). c \<noteq> chr"
  shows "iststop_loop m s chr k = Some (Suc (length (takeWhile (\<lambda>c. c \<noteq> chr) (ist_str m s))))"
  using assms(2,3)
proof (induction "ist_len s - k" arbitrary: k)
  case 0
  then have "k = ist_len s" by simp
  then have "takeWhile (\<lambda>c. c \<noteq> chr) (ist_str m s) = ist_str m s"
    using 0(3) assms(1) by (subst takeWhile_eq_all_conv) simp
  then have "length (takeWhile (\<lambda>c. c \<noteq> chr) (ist_str m s)) = ist_len s"
    using assms(1) by (simp only: length_ist_at)
  with \<open>k = ist_len s\<close> show ?case by (subst iststop_loop.simps) simp
next
  case (Suc n)
  then have lt: "k < length (ist_str m s)" using assms(1) by simp
  have c: "ldp m (padd (ist_ptr s) k) = Some (ist_str m s ! k)"
    using lt assms(1) by (cases "ist_ptr s") (auto simp: ld_def)
  show ?case
  proof (cases "ist_str m s ! k = chr")
    case True
    have "takeWhile (\<lambda>c. c \<noteq> chr) (ist_str m s) = take k (ist_str m s)"
      using lt True Suc(4) by (intro takeWhile_eq_take_P_nth) (auto simp: in_set_conv_nth)
    then show ?thesis using c True lt assms(1) by (subst iststop_loop.simps) simp
  next
    case False
    have "\<forall>c\<in>set (take (Suc k) (ist_str m s)). c \<noteq> chr"
      using Suc(4) False lt by (auto simp: take_Suc_conv_app_nth)
    then have "iststop_loop m s chr (Suc k) = Some (Suc (length (takeWhile (\<lambda>c. c \<noteq> chr) (ist_str m s))))"
      using Suc(1) [of "Suc k"] Suc(2) lt assms(1) by simp
    then show ?thesis using c False lt assms(1) by (subst iststop_loop.simps) simp
  qed
qed

lemma iststop_eq:
  assumes "ist_wf m s"
  shows "iststop m s chr = Some (ist2 (ist_ptr s) (length (takeWhile (\<lambda>c. c \<noteq> chr) (ist_str m s))))"
  using iststop_loop_eq [OF assms, of 0 chr] by (simp add: iststop_def)

lemma istadv_eq:
  assumes "ist_wf m s"
  shows "ist_wf m (istadv s k) \<and> ist_str m (istadv s k) = drop k (ist_str m s)"
proof (cases "ist_len s < k")
  case True
  then show ?thesis using ist_at_drop [OF assms order_refl] assms by (simp add: istadv_def)
next
  case False
  then show ?thesis using ist_at_drop [OF assms, of k] by (simp add: istadv_def)
qed

lemma istsplit_eq:
  assumes "ist_wf m s" and "ist_len s < 18446744073709551615"
  shows "\<exists>a r. istsplit m s delim = Some (a, r) \<and> ist_wf m a \<and> ist_wf m r \<and>
    ist_str m a = takeWhile (\<lambda>c. c \<noteq> delim) (ist_str m s) \<and>
    ist_str m r = drop 1 (dropWhile (\<lambda>c. c \<noteq> delim) (ist_str m s))"
proof -
  let ?k = "length (takeWhile (\<lambda>c. c \<noteq> delim) (ist_str m s))"
  have k: "?k \<le> ist_len s" using length_takeWhile_le [of _ "ist_str m s"] assms(1) by simp
  then have "sz_add ?k 1 = ?k + 1" using assms(2) by (intro sz_add_small) simp
  moreover have "ist_at m (ist_ptr s) ?k = takeWhile (\<lambda>c. c \<noteq> delim) (ist_str m s)"
    using k by (simp add: ist_at_le [OF k] takeWhile_eq_take [symmetric])
  moreover have "drop (?k + 1) (ist_str m s) = drop 1 (dropWhile (\<lambda>c. c \<noteq> delim) (ist_str m s))"
    by (simp add: dropWhile_eq_drop drop_drop)
  ultimately show ?thesis
    using iststop_eq [OF assms(1), of delim] ist_ok_le [OF assms(1) k] istadv_eq [OF assms(1), of "?k + 1"]
    by (simp add: istsplit_def)
qed

lemma strip_last_eq:
  assumes "ist_wf m s"
  shows "\<exists>r. strip_last m c s = Some r \<and> ist_wf m r \<and> ist_ptr r = ist_ptr s \<and>
    ist_str m r = (if ist_str m s \<noteq> [] \<and> last (ist_str m s) = c then butlast (ist_str m s) else ist_str m s)"
proof (cases "ist_len s")
  case 0
  then show ?thesis using assms by (simp add: strip_last_def)
next
  case (Suc n)
  then obtain p where p: "ist_ptr s = Some p" using assms by (cases "ist_ptr s") auto
  have "last (ist_str m s) = m ! (p + n)" and "ld m (p + n) = Some (m ! (p + n))"
    using Suc p assms by (simp_all add: take_Suc_conv_app_nth ld_def)
  moreover have "butlast (ist_str m s) = ist_at m (ist_ptr s) n"
    using Suc p assms by (simp add: butlast_take)
  moreover have "ist_str m s \<noteq> []" using Suc p assms by auto
  ultimately show ?thesis using Suc p assms by (auto simp: strip_last_def)
qed

lemma ist_strlen_eq:
  assumes "p + k + length xs < length m" and "take (length xs) (drop (p + k) m) = xs" and "0 \<notin> set xs"
    and "m ! (p + k + length xs) = 0"
  shows "ist_strlen m p k = Some (k + length xs)"
  using assms
proof (induction xs arbitrary: k)
  case Nil
  then show ?case by (subst ist_strlen.simps) (simp add: ld_def)
next
  case (Cons x xs)
  have "drop (p + k) m = m ! (p + k) # drop (Suc (p + k)) m" using Cons.prems(1) by (simp add: Cons_nth_drop_Suc)
  then have "m ! (p + k) = x" "take (length xs) (drop (p + Suc k) m) = xs" using Cons.prems(2) by simp_all
  then show ?case using Cons.IH [of "Suc k"] Cons.prems
    by (subst ist_strlen.simps) (simp add: ld_def)
qed

lemma ist_comparisons_laws:
  assumes "ist_ok ml (ist_ptr l) (ist_len l)" and "ist_ok mr (ist_ptr r) (ist_len r)" and "ist_len r < 2147483648"
  shows "isteq ml mr l r = Some (ist_str ml l = ist_str mr r)"
    and "istmatch ml mr l r = Some (prefix (ist_str mr r) (ist_str ml l))"
    and "istneq ml mr l r k = Some (take k (ist_str ml l) = take k (ist_str mr r))"
    and "istnmatch ml mr l r k = Some (prefix (take k (ist_str mr r)) (take k (ist_str ml l)))"
    and "isteqi ml mr l r = Some (map ascii_lc (ist_str ml l) = map ascii_lc (ist_str mr r))"
    and "istmatchi ml mr l r = Some (prefix (map ascii_lc (ist_str mr r)) (map ascii_lc (ist_str ml l)))"
    and "\<exists>d. istdiff ml mr l r = Some d \<and> (d < 0 \<longleftrightarrow> ord_class.lexordp (ist_str ml l) (ist_str mr r)) \<and>
           (d = 0 \<longleftrightarrow> ist_str ml l = ist_str mr r)"
  using isteq_eq [OF assms(1,2)] istmatch_eq [OF assms(1,2)] istneq_eq [OF assms(1,2)]
    istnmatch_eq [OF assms(1,2)] isteqi_eq [OF assms(1,2)] istmatchi_eq [OF assms(1,2)]
    istdiff_loop_sign [OF assms] by (simp_all only: istdiff_def)

lemma ist_scan_words_laws:
  assumes "ist_ok m (ist_ptr s) (ist_len s)"
  shows "ist_find_ctl m s = Some (Option.bind (find_idx (\<lambda>c. c < 32) (ist_str m s)) (padd (ist_ptr s)))"
    and "hi < 128 \<Longrightarrow> ist_find_range m s 0 hi =
           Some (Option.bind (find_idx (\<lambda>c. c \<le> hi) (ist_str m s)) (padd (ist_ptr s)))"
    and "istchr m s chr = Some (Option.bind (find_idx (\<lambda>c. c = chr) (ist_str m s)) (padd (ist_ptr s)))"
  using ist_find_ctl_eq [OF assms] ist_find_range_eq [OF assms] istchr_loop_eq [OF assms, of chr]
  by (simp_all only: istchr_def)

lemma ist_bounded_copies_laws:
  assumes "ist_ok sm (ist_ptr s) (ist_len s)" and "ist_ptr dst = Some q" and "ist_len dst < count" and "q + count \<le> length dm"
    and "ist_len dst + ist_len s < 9223372036854775808" and "count < 18446744073709551616"
  shows "istcpy sm dm dst s count = Some (if ist_len s \<le> count then int (ist_len s) else -1,
          dst\<lparr>ist_len := min count (ist_len s)\<rparr>, blit dm q (take count (ist_str sm s)))"
    and "istscpy sm dm dst s count = Some (if ist_len s < count then int (ist_len s) else -1,
          dst\<lparr>ist_len := min (count - 1) (ist_len s)\<rparr>, blit dm q (take (count - 1) (ist_str sm s) @ [0]))"
    and "istcat sm dm dst s count =
          Some (if ist_len s \<le> count - ist_len dst then int (ist_len dst + ist_len s) else -1,
            dst\<lparr>ist_len := ist_len dst + min (count - ist_len dst) (ist_len s)\<rparr>,
            blit dm (q + ist_len dst) (take (count - ist_len dst) (ist_str sm s)))"
    and "istscat sm dm dst s count =
          Some (if ist_len s \<le> count - 1 - ist_len dst then int (ist_len dst + ist_len s) else -1,
            dst\<lparr>ist_len := ist_len dst + min (count - 1 - ist_len dst) (ist_len s)\<rparr>,
            blit dm (q + ist_len dst) (take (count - 1 - ist_len dst) (ist_str sm s) @ [0]))"
proof -
  have "q + min count (ist_len s) \<le> length dm" "q + min (count - 1) (ist_len s) < length dm"
    "q + ist_len dst + min (count - ist_len dst) (ist_len s) \<le> length dm"
    "q + ist_len dst + min (count - 1 - ist_len dst) (ist_len s) < length dm"
    "ist_len s < 9223372036854775808" "0 < count"
    using assms(3-5) by linarith+
  then show "istcpy sm dm dst s count = Some (if ist_len s \<le> count then int (ist_len s) else -1,
          dst\<lparr>ist_len := min count (ist_len s)\<rparr>, blit dm q (take count (ist_str sm s)))"
    and "istscpy sm dm dst s count = Some (if ist_len s < count then int (ist_len s) else -1,
          dst\<lparr>ist_len := min (count - 1) (ist_len s)\<rparr>, blit dm q (take (count - 1) (ist_str sm s) @ [0]))"
    and "istcat sm dm dst s count =
          Some (if ist_len s \<le> count - ist_len dst then int (ist_len dst + ist_len s) else -1,
            dst\<lparr>ist_len := ist_len dst + min (count - ist_len dst) (ist_len s)\<rparr>,
            blit dm (q + ist_len dst) (take (count - ist_len dst) (ist_str sm s)))"
    and "istscat sm dm dst s count =
          Some (if ist_len s \<le> count - 1 - ist_len dst then int (ist_len dst + ist_len s) else -1,
            dst\<lparr>ist_len := ist_len dst + min (count - 1 - ist_len dst) (ist_len s)\<rparr>,
            blit dm (q + ist_len dst) (take (count - 1 - ist_len dst) (ist_str sm s) @ [0]))"
    using istcpy_eq [OF assms(1,2)] istscpy_eq [OF assms(1,2)] istcat_eq [OF assms(1,2)] istscat_eq [OF assms(1,2)]
      assms(5,6) by blast+
qed

lemma istsplit_joins_laws:
  assumes "ist_ok m (ist_ptr s) (ist_len s)" and "ist_len s < 18446744073709551615"
  shows "\<exists>a r. istsplit m s delim = Some (a, r) \<and> ist_ok m (ist_ptr r) (ist_len r) \<and> delim \<notin> set (ist_str m a) \<and>
      ist_str m s = (if delim \<in> set (ist_str m s) then ist_str m a @ [delim] @ ist_str m r
                     else ist_str m a)"
    and "ist_str m s = xs @ cstr [CHR 0x0D, CHR 0x0A] \<Longrightarrow> map_option (ist_str m) (iststrip m s) = Some xs"
proof -
  obtain a r where ar: "istsplit m s delim = Some (a, r)" "ist_ok m (ist_ptr r) (ist_len r)"
    "ist_str m a = takeWhile (\<lambda>c. c \<noteq> delim) (ist_str m s)"
    "ist_str m r = drop 1 (dropWhile (\<lambda>c. c \<noteq> delim) (ist_str m s))"
    using istsplit_eq [OF assms, of delim] by blast
  have "dropWhile (\<lambda>c. c \<noteq> delim) (ist_str m s) = delim # ist_str m r" if "delim \<in> set (ist_str m s)"
  proof -
    have "dropWhile (\<lambda>c. c \<noteq> delim) (ist_str m s) \<noteq> []" using that by (auto simp: dropWhile_eq_Nil_conv)
    then show ?thesis using hd_dropWhile [of "\<lambda>c. c \<noteq> delim" "ist_str m s"] unfolding ar(4)
      by (cases "dropWhile (\<lambda>c. c \<noteq> delim) (ist_str m s)") auto
  qed
  then have "ist_str m s = (if delim \<in> set (ist_str m s) then ist_str m a @ [delim] @ ist_str m r else ist_str m a)"
    unfolding ar(3) using takeWhile_dropWhile_id [of "\<lambda>c. c \<noteq> delim" "ist_str m s"]
    by (smt (verit) append_Cons append_Nil takeWhile_eq_all_conv)
  moreover have "delim \<notin> set (ist_str m a)" unfolding ar(3) by (auto dest: set_takeWhileD)
  ultimately show "\<exists>a r. istsplit m s delim = Some (a, r) \<and> ist_ok m (ist_ptr r) (ist_len r) \<and> delim \<notin> set (ist_str m a) \<and>
      ist_str m s = (if delim \<in> set (ist_str m s) then ist_str m a @ [delim] @ ist_str m r
                     else ist_str m a)" using ar(1,2) by blast
  show "map_option (ist_str m) (iststrip m s) = Some xs" if strip: "ist_str m s = xs @ cstr [CHR 0x0D, CHR 0x0A]"
  proof -
    obtain u where u: "strip_last m 10 s = Some u" "ist_wf m u" "ist_str m u = xs @ [13]"
      using strip_last_eq [OF assms(1), of 10] unfolding strip by (auto simp: cstr_def butlast_append)
    obtain v where "strip_last m 13 u = Some v" "ist_str m v = xs"
      using strip_last_eq [OF u(2), of 13] u(3) by auto
    then show ?thesis using u(1) by (simp add: iststrip_def)
  qed
qed

section \<open>Properties\<close>

text \<open>C25. The comparisons of two strings compute what their names say on the designated bytes:
  equality, prefix, both up to a maximal length, both ignoring the case of ASCII letters; and the
  sign of \<^verbatim>\<open>istdiff\<close> is the lexicographic order of the unsigned bytes, for a second string shorter
  than \<open>2 ^ 31\<close> (its length is truncated to \<^verbatim>\<open>int\<close>).\<close>

theorem ist_comparisons:
  assumes "ist_ok ml (ist_ptr l) (ist_len l)" and "ist_ok mr (ist_ptr r) (ist_len r)" and "ist_len r < 2147483648"
  shows "isteq ml mr l r = Some (ist_str ml l = ist_str mr r) \<and>
    istmatch ml mr l r = Some (prefix (ist_str mr r) (ist_str ml l)) \<and>
    istneq ml mr l r k = Some (take k (ist_str ml l) = take k (ist_str mr r)) \<and>
    istnmatch ml mr l r k = Some (prefix (take k (ist_str mr r)) (take k (ist_str ml l))) \<and>
    isteqi ml mr l r = Some (map ascii_lc (ist_str ml l) = map ascii_lc (ist_str mr r)) \<and>
    istmatchi ml mr l r = Some (prefix (map ascii_lc (ist_str mr r)) (map ascii_lc (ist_str ml l))) \<and>
    (\<exists>d. istdiff ml mr l r = Some d \<and> (d < 0 \<longleftrightarrow> ord_class.lexordp (ist_str ml l) (ist_str mr r)) \<and>
           (d = 0 \<longleftrightarrow> ist_str ml l = ist_str mr r))"
  using ist_comparisons_laws [OF assms] by blast

theorem ist_comparisons_witness:
  "istmatchi (cstr ''Content-Length'') (cstr ''CONTENT'') (ist2 (Some 0) 14) (ist2 (Some 0) 7) = Some True"
  using ist_comparisons [of "cstr ''Content-Length''" "ist2 (Some 0) 14" "cstr ''CONTENT''" "ist2 (Some 0) 7"]
  by (simp add: cstr_def ascii_lc_def)

text \<open>C26. The scans by 64-bit words, \<^verbatim>\<open>ist_find_ctl\<close> and \<^verbatim>\<open>ist_find_range\<close> with a zero lower bound
  and an ASCII upper bound, find exactly what the bytewise search finds: the first byte of the
  string in the range, or NULL; they never read outside of the string.\<close>

theorem ist_scan_words:
  assumes "ist_ok m (ist_ptr s) (ist_len s)"
  shows "ist_find_ctl m s = Some (Option.bind (find_idx (\<lambda>c. c < 32) (ist_str m s)) (padd (ist_ptr s))) \<and>
    (hi < 128 \<longrightarrow> ist_find_range m s 0 hi =
           Some (Option.bind (find_idx (\<lambda>c. c \<le> hi) (ist_str m s)) (padd (ist_ptr s)))) \<and>
    istchr m s chr = Some (Option.bind (find_idx (\<lambda>c. c = chr) (ist_str m s)) (padd (ist_ptr s)))"
  using ist_scan_words_laws [OF assms] by blast

theorem ist_scan_words_witness:
  "ist_find_range (cstr ''0123456789#bcdef'') (ist2 (Some 1) 15) 0 35 = Some (Some 10)"
  using ist_scan_words [of "cstr ''0123456789#bcdef''" "ist2 (Some 1) 15" 35]
  by (simp add: cstr_def)

text \<open>With a lower bound that is not zero \<^verbatim>\<open>ist_find_range\<close> is wrong: it adds the lower bound to
  each byte before it subtracts the upper one, which tests the range \<open>0 .. hi - lo\<close> instead of
  \<open>lo .. hi\<close>. Here a string of eight bytes holds a tab and a search for a tab misses it, while the
  same search in a string of seven bytes, which only the loop by bytes sees, finds it.\<close>

theorem ist_find_range_misses:
  "ist_find_range (cstr ''abcd'' @ [9] @ cstr ''efg'') (ist2 (Some 0) 8) 9 9 = Some None \<and>
   ist_find_range (cstr ''abcd'' @ [9] @ cstr ''ef'') (ist2 (Some 0) 7) 9 9 = Some (Some 4)"
  by code_simp

text \<open>\<^verbatim>\<open>istist\<close> returns the tail of the string at the first occurrence of the pattern, and
  IST_NULL if there is none; it always returns and stays inside both strings.\<close>

theorem istist_first:
  assumes "ist_ok m (ist_ptr s) (ist_len s)" and "ist_ok mp (ist_ptr pat) (ist_len pat)" and "ist_len pat \<noteq> 0"
  shows "istist m mp s pat = Some (case find_sub (ist_str mp pat) (ist_str m s) of
      None \<Rightarrow> IST_NULL | Some i \<Rightarrow> ist2 (padd (ist_ptr s) i) (ist_len s - i))"
  using istist_loop_eq [OF assms(2,3,1)] assms(3) by (simp add: istist_def)

theorem istist_first_witness:
  "istist (cstr ''abaabab'') (cstr ''abab'') (ist2 (Some 0) 7) (ist2 (Some 0) 4) = Some (ist2 (Some 3) 4)"
  using istist_first [of "cstr ''abaabab''" "ist2 (Some 0) 7" "cstr ''abab''" "ist2 (Some 0) 4"]
  by (simp add: cstr_def)

text \<open>The bounded copies write at most \<open>count\<close> bytes of the destination, terminating zero
  included for the \<^verbatim>\<open>s\<close> variants, always leave a prefix of the result there, and return -1 exactly
  when the result is truncated.\<close>

theorem ist_bounded_copies:
  assumes "ist_ok sm (ist_ptr s) (ist_len s)" and "ist_ptr dst = Some q" and "ist_len dst < count" and "q + count \<le> length dm"
    and "ist_len dst + ist_len s < 9223372036854775808" and "count < 18446744073709551616"
  shows "istcpy sm dm dst s count = Some (if ist_len s \<le> count then int (ist_len s) else -1,
          dst\<lparr>ist_len := min count (ist_len s)\<rparr>, blit dm q (take count (ist_str sm s))) \<and>
    istscpy sm dm dst s count = Some (if ist_len s < count then int (ist_len s) else -1,
          dst\<lparr>ist_len := min (count - 1) (ist_len s)\<rparr>, blit dm q (take (count - 1) (ist_str sm s) @ [0])) \<and>
    istcat sm dm dst s count =
          Some (if ist_len s \<le> count - ist_len dst then int (ist_len dst + ist_len s) else -1,
            dst\<lparr>ist_len := ist_len dst + min (count - ist_len dst) (ist_len s)\<rparr>,
            blit dm (q + ist_len dst) (take (count - ist_len dst) (ist_str sm s))) \<and>
    istscat sm dm dst s count =
          Some (if ist_len s \<le> count - 1 - ist_len dst then int (ist_len dst + ist_len s) else -1,
            dst\<lparr>ist_len := ist_len dst + min (count - 1 - ist_len dst) (ist_len s)\<rparr>,
            blit dm (q + ist_len dst) (take (count - 1 - ist_len dst) (ist_str sm s) @ [0]))"
  using ist_bounded_copies_laws [OF assms] by blast

theorem ist_bounded_copies_witness:
  "istscpy (cstr ''hello'') [1, 1, 1, 1] (ist2 (Some 0) 0) (ist2 (Some 0) 5) 4
     = Some (-1, ist2 (Some 0) 3, cstr ''hel'' @ [0])"
  using ist_bounded_copies [of "cstr ''hello''" "ist2 (Some 0) 5" "ist2 (Some 0) 0" 0 4 "[1, 1, 1, 1]"]
  by (simp add: cstr_def blit_def ist2_def)

text \<open>\<^verbatim>\<open>istsplit\<close> cuts a string at the first delimiter: the two parts joined by the delimiter
  are the string, and without a delimiter the first part is all of it. \<^verbatim>\<open>iststrip\<close> removes one line
  feed and then one carriage return from the end.\<close>

theorem istsplit_joins:
  assumes "ist_ok m (ist_ptr s) (ist_len s)" and "ist_len s < 18446744073709551615"
  shows "(\<exists>a r. istsplit m s delim = Some (a, r) \<and> ist_ok m (ist_ptr r) (ist_len r) \<and> delim \<notin> set (ist_str m a) \<and>
      ist_str m s = (if delim \<in> set (ist_str m s) then ist_str m a @ [delim] @ ist_str m r
                     else ist_str m a)) \<and>
    (ist_str m s = xs @ cstr [CHR 0x0D, CHR 0x0A] \<longrightarrow> map_option (ist_str m) (iststrip m s) = Some xs)"
  using istsplit_joins_laws [OF assms] by blast

theorem istsplit_joins_witness:
  "\<exists>a r. istsplit (cstr ''k=v'') (ist2 (Some 0) 3) (of_char (CHR ''='')) = Some (a, r) \<and>
     of_char (CHR ''='') \<notin> set (ist_str (cstr ''k=v'') a)"
  using istsplit_joins [of "cstr ''k=v''" "ist2 (Some 0) 3" "of_char (CHR ''='')"]
  by (auto simp: cstr_def)

end
