(* ===== verification/Fcgi.thy ===== *)
theory Fcgi
  imports Buf Ist
begin

unbundle bit_operations_syntax

text \<open>
  FastCGI records: \<^verbatim>\<open>include/haproxy/fcgi.h\<close> and \<^verbatim>\<open>src/fcgi.c\<close>. The encoders write into a chunk, a
  buffer that does not wrap, at \<^verbatim>\<open>area + data\<close>; the decoders read from a buffer that may wrap, except
  \<^verbatim>\<open>fcgi_aligned_decode_param\<close>. A run of stores \<^verbatim>\<open>area[len++] = c\<close> is one checked block write. A
  decoder returns the number of bytes read (0 when some are missing) and the updated descriptor.
\<close>

section \<open>Records\<close>

datatype fcgi_record_type =
  FCGI_BEGIN_REQUEST | FCGI_ABORT_REQUEST | FCGI_END_REQUEST | FCGI_PARAMS | FCGI_STDIN | FCGI_STDOUT
  | FCGI_STDERR | FCGI_DATA | FCGI_GET_VALUES | FCGI_GET_VALUES_RESULT | FCGI_UNKNOWN_TYPE

fun fcgi_rt_val :: "fcgi_record_type \<Rightarrow> int" where
  "fcgi_rt_val FCGI_BEGIN_REQUEST = 1"
| "fcgi_rt_val FCGI_ABORT_REQUEST = 2"
| "fcgi_rt_val FCGI_END_REQUEST = 3"
| "fcgi_rt_val FCGI_PARAMS = 4"
| "fcgi_rt_val FCGI_STDIN = 5"
| "fcgi_rt_val FCGI_STDOUT = 6"
| "fcgi_rt_val FCGI_STDERR = 7"
| "fcgi_rt_val FCGI_DATA = 8"
| "fcgi_rt_val FCGI_GET_VALUES = 9"
| "fcgi_rt_val FCGI_GET_VALUES_RESULT = 10"
| "fcgi_rt_val FCGI_UNKNOWN_TYPE = 11"

datatype fcgi_role = FCGI_RESPONDER | FCGI_AUTHORIZER | FCGI_FILTER

fun fcgi_role_val :: "fcgi_role \<Rightarrow> u32" where
  "fcgi_role_val FCGI_RESPONDER = 1"
| "fcgi_role_val FCGI_AUTHORIZER = 2"
| "fcgi_role_val FCGI_FILTER = 3"

record fcgi_header =
  fh_vsn :: byte
  fh_type :: byte
  fh_id :: u16
  fh_len :: u16
  fh_padding :: byte
  fh_rsv :: byte

record fcgi_param =
  fp_n :: ist
  fp_v :: ist

record fcgi_begin_request =
  fb_role :: fcgi_role
  fb_flags :: byte

record fcgi_end_request =
  fe_status :: u32
  fe_errcode :: byte

definition fcgi_rt_str :: "int \<Rightarrow> string" where
  "fcgi_rt_str type =
     (if type = fcgi_rt_val FCGI_BEGIN_REQUEST then ''BEGIN_REQUEST''
      else if type = fcgi_rt_val FCGI_ABORT_REQUEST then ''ABORT_REQUEST''
      else if type = fcgi_rt_val FCGI_END_REQUEST then ''END_REQUEST''
      else if type = fcgi_rt_val FCGI_PARAMS then ''PARAMS''
      else if type = fcgi_rt_val FCGI_STDIN then ''STDIN''
      else if type = fcgi_rt_val FCGI_STDOUT then ''STDOUT''
      else if type = fcgi_rt_val FCGI_STDERR then ''STDERR''
      else if type = fcgi_rt_val FCGI_DATA then ''DATA''
      else if type = fcgi_rt_val FCGI_GET_VALUES then ''GET_VALUES''
      else if type = fcgi_rt_val FCGI_GET_VALUES_RESULT then ''GET_VALUES_RESULT''
      else if type = fcgi_rt_val FCGI_UNKNOWN_TYPE then ''UNKNOWN_TYPE''
      else ''_UNKNOWN_'')"

section \<open>Headers and fixed payloads\<close>

definition fcgi_encode_record_hdr :: "buffer \<Rightarrow> fcgi_header \<Rightarrow> (int \<times> buffer) option" where
  "fcgi_encode_record_hdr out h =
     (let len = buf_data out in
      if sz_add len 8 \<ge> b_size out then Some (0, out)
      else do {
        ar \<leftarrow> wr (buf_area out) len
          [fh_vsn h, fh_type h,
           ucast (drop_bit 8 (fh_id h) AND 0xff), ucast (fh_id h AND 0xff),
           ucast (drop_bit 8 (fh_len h) AND 0xff), ucast (fh_len h AND 0xff),
           fh_padding h, 0];
        Some (1, out\<lparr>buf_area := ar, buf_data := sz_add len 8\<rparr>)
      })"

text \<open>\<open>b_at b o\<close> is \<^verbatim>\<open>*b_peek(b, o)\<close>.\<close>

definition b_at :: "buffer \<Rightarrow> nat \<Rightarrow> byte option" where
  "b_at b ofs = ld (buf_area b) (b_peek b ofs)"

definition fcgi_decode_record_hdr :: "buffer \<Rightarrow> nat \<Rightarrow> fcgi_header \<Rightarrow> (nat \<times> fcgi_header) option" where
  "fcgi_decode_record_hdr b ofs h =
     (if b_data b < sz_add ofs 8 then Some (0, h)
      else do {
        b0 \<leftarrow> b_at b ofs;
        b1 \<leftarrow> b_at b (sz_add ofs 1);
        b2 \<leftarrow> b_at b (sz_add ofs 2);
        b3 \<leftarrow> b_at b (sz_add ofs 3);
        b4 \<leftarrow> b_at b (sz_add ofs 4);
        b5 \<leftarrow> b_at b (sz_add ofs 5);
        b6 \<leftarrow> b_at b (sz_add ofs 6);
        Some (8, h\<lparr>fh_vsn := b0, fh_type := b1,
          fh_id := push_bit 8 (ucast b2) + ucast b3,
          fh_len := push_bit 8 (ucast b4) + ucast b5,
          fh_padding := b6\<rparr>)
      })"

definition fcgi_encode_begin_request :: "buffer \<Rightarrow> fcgi_begin_request \<Rightarrow> (int \<times> buffer) option" where
  "fcgi_encode_begin_request out r =
     (let len = buf_data out in
      if sz_add len 8 \<ge> b_size out then Some (0, out)
      else do {
        ar \<leftarrow> wr (buf_area out) len
          [ucast (drop_bit 8 (fcgi_role_val (fb_role r)) AND 0xff), ucast (fcgi_role_val (fb_role r) AND 0xff),
           fb_flags r, 0, 0, 0, 0, 0];
        Some (1, out\<lparr>buf_area := ar, buf_data := sz_add len 8\<rparr>)
      })"

definition fcgi_decode_end_request :: "buffer \<Rightarrow> nat \<Rightarrow> fcgi_end_request \<Rightarrow> (nat \<times> fcgi_end_request) option" where
  "fcgi_decode_end_request b ofs rec =
     (if b_data b < sz_add ofs 8 then Some (0, rec)
      else do {
        b0 \<leftarrow> b_at b ofs;
        b1 \<leftarrow> b_at b (sz_add ofs 1);
        b2 \<leftarrow> b_at b (sz_add ofs 2);
        b3 \<leftarrow> b_at b (sz_add ofs 3);
        b4 \<leftarrow> b_at b (sz_add ofs 4);
        Some (8, rec\<lparr>fe_status := push_bit 24 (ucast (b0 AND 0x7f)) + push_bit 16 (ucast b1)
            + push_bit 8 (ucast b2) + ucast b3,
          fe_errcode := b4\<rparr>)
      })"

section \<open>Parameters\<close>

text \<open>The length of a name or of a value, on one byte below 128 and on four bytes otherwise. The
  lengths are 64-bit values whose upper half is lost.\<close>

definition fcgi_len_size :: "nat \<Rightarrow> nat" where
  "fcgi_len_size n = (if n div 128 = 0 then 1 else 4)"

definition fcgi_put_len :: "nat \<Rightarrow> bytes" where
  "fcgi_put_len n =
     (let w = word_of_nat n :: u64 in
      if fcgi_len_size n = 1 then [ucast (w AND 0xff)]
      else [ucast (drop_bit 24 w AND 0xff) OR 0x80, ucast (drop_bit 16 w AND 0xff),
            ucast (drop_bit 8 w AND 0xff), ucast (w AND 0xff)])"

text \<open>\<^verbatim>\<open>isalnum\<close> in the C locale, and the conversion of one byte of a name.\<close>

definition isalnum :: "byte \<Rightarrow> bool" where
  "isalnum c = (48 \<le> c \<and> c \<le> 57 \<or> 65 \<le> c \<and> c \<le> 90 \<or> 97 \<le> c \<and> c \<le> 122)"

definition fcgi_name_char :: "byte \<Rightarrow> byte" where
  "fcgi_name_char c = (if isalnum c then ist_uc ! unat c else 95)"

text \<open>The name and the value are in the memory objects \<open>nm\<close> and \<open>vm\<close>, outside of the chunk.\<close>

definition fcgi_encode_param :: "bytes \<Rightarrow> bytes \<Rightarrow> buffer \<Rightarrow> fcgi_param \<Rightarrow> (int \<times> buffer) option" where
  "fcgi_encode_param nm vm out p =
     (let len = buf_data out;
          nlen = ist_len (fp_n p); vlen = ist_len (fp_v p);
          nbytes = fcgi_len_size nlen; vbytes = fcgi_len_size vlen in
      if sz_add (sz_add (sz_add (sz_add len nbytes) nlen) vbytes) vlen \<ge> b_size out then Some (0, out)
      else do {
        ar \<leftarrow> wr (buf_area out) len (fcgi_put_len nlen);
        let len = sz_add len nbytes;
        ar \<leftarrow> wr ar len (fcgi_put_len vlen);
        let len = sz_add len vbytes;
        (off, ar) \<leftarrow> ist_copy_loop fcgi_name_char nm (ist_ptr (fp_n p)) nlen (Some len) ar 0;
        let len = sz_add len off;
        (len, ar) \<leftarrow>
          (if vlen \<noteq> 0 then do { (_, ar) \<leftarrow> ist2bin vm ar (Some len) (fp_v p); Some (sz_add len vlen, ar) }
           else Some (len, ar));
        Some (1, out\<lparr>buf_area := ar, buf_data := len\<rparr>)
      })"

text \<open>The two decoders read their two lengths with the same code: \<open>get\<close> reads one byte at an offset.
  The result is \<open>Some None\<close> when bytes are missing, otherwise the length, the offset that follows
  and the number of bytes read.\<close>

definition fcgi_get_len :: "(nat \<Rightarrow> byte option) \<Rightarrow> nat \<Rightarrow> nat \<Rightarrow> (nat \<times> nat \<times> nat) option option" where
  "fcgi_get_len get data ofs =
     (if data < sz_add ofs 1 then Some None
      else do {
        b0 \<leftarrow> get ofs;
        let ofs = sz_add ofs 1;
        if drop_bit 7 b0 = 0 then Some (Some (unat b0, ofs, 1))
        else if data < sz_add ofs 3 then Some None
        else do {
          b1 \<leftarrow> get ofs;
          b2 \<leftarrow> get (sz_add ofs 1);
          b3 \<leftarrow> get (sz_add ofs 2);
          Some (Some (unat (b0 AND 0x7f) * 16777216 + unat b1 * 65536 + unat b2 * 256 + unat b3,
            sz_add ofs 3, 4))
        }
      })"

definition fcgi_get_param :: "(nat \<Rightarrow> byte option) \<Rightarrow> (nat \<Rightarrow> nat) \<Rightarrow> nat \<Rightarrow> nat \<Rightarrow> fcgi_param \<Rightarrow>
    (nat \<times> fcgi_param) option" where
  "fcgi_get_param get addr data ofs p = do {
     r \<leftarrow> fcgi_get_len get data ofs;
     case r of None \<Rightarrow> Some (0, p)
     | Some (nlen, ofs, l1) \<Rightarrow> do {
         r \<leftarrow> fcgi_get_len get data ofs;
         case r of None \<Rightarrow> Some (0, p)
         | Some (vlen, ofs, l2) \<Rightarrow>
             if data < sz_add nlen vlen then Some (0, p)
             else Some (sz_add (l1 + l2) (sz_add nlen vlen),
               p\<lparr>fp_n := ist2 (Some (addr ofs)) nlen, fp_v := ist2 (Some (addr (sz_add ofs nlen))) vlen\<rparr>)
       }
   }"

definition fcgi_decode_param :: "buffer \<Rightarrow> nat \<Rightarrow> fcgi_param \<Rightarrow> (nat \<times> fcgi_param) option" where
  "fcgi_decode_param b ofs p = fcgi_get_param (b_at b) (b_peek b) (b_data b) ofs p"

definition fcgi_aligned_decode_param :: "buffer \<Rightarrow> nat \<Rightarrow> fcgi_param \<Rightarrow> (nat \<times> fcgi_param) option" where
  "fcgi_aligned_decode_param b ofs p = fcgi_get_param (ld (buf_area b)) (\<lambda>o'. o') (b_data b) ofs p"

section \<open>Chunks and the bytes of a buffer\<close>

lemma b_at_eq:
  assumes "b_wf b" and "i < buf_data b"
  shows "b_at b i = Some (b_list b ! i)"
proof -
  have s: "0 < buf_size b" "i \<le> buf_size b" using assms b_wfD [OF assms(1)] by auto
  then show ?thesis using assms b_wfD(1) [OF assms(1)]
    by (simp add: b_at_def b_peek_eq ld_def b_list_def ring_read_def)
qed

lemma ucast_and_255: "ucast (w AND 0xff) = (ucast (w :: 'a::len word) :: byte)"
proof -
  have "(0xff :: 'a word) = mask 8" by (simp add: mask_eq_exp_minus_1)
  then have "w AND 0xff = take_bit 8 w" by (simp add: take_bit_eq_mask)
  then show ?thesis by (simp add: word_unat_eq_iff unsigned_ucast_eq unsigned_take_bit_eq)
qed

section \<open>Headers\<close>

text \<open>The eight bytes of a header, as the protocol has them.\<close>

definition fcgi_hdr_bytes :: "fcgi_header \<Rightarrow> bytes" where
  "fcgi_hdr_bytes h = [fh_vsn h, fh_type h, ucast (drop_bit 8 (fh_id h)), ucast (fh_id h),
     ucast (drop_bit 8 (fh_len h)), ucast (fh_len h), fh_padding h, 0]"

lemma u16_bytes: "push_bit 8 (ucast (ucast (drop_bit 8 w) :: byte)) + ucast (ucast w :: byte) = (w :: u16)"
proof -
  have w: "unat w < 65536" using unsigned_less [of w] by simp
  have "w = word_of_nat (unat w)" by simp
  also have "unat w = 256 * (unat w div 256) + unat w mod 256" by simp
  also have "word_of_nat (256 * (unat w div 256) + unat w mod 256) =
      push_bit 8 (word_of_nat (unat w div 256)) + (word_of_nat (unat w mod 256) :: u16)"
    by (simp only: push_bit_eq_mult of_nat_add of_nat_mult of_nat_numeral) simp
  also have "(word_of_nat (unat w div 256) :: u16) = ucast (ucast (drop_bit 8 w) :: byte)"
    using w by (simp add: word_unat_eq_iff unsigned_ucast_eq unat_drop_bit unsigned_of_nat take_bit_eq_mod unat_mod)
  also have "(word_of_nat (unat w mod 256) :: u16) = ucast (ucast w :: byte)"
    by (simp add: word_unat_eq_iff unsigned_ucast_eq unsigned_of_nat take_bit_eq_mod unat_mod)
  finally show ?thesis by simp
qed

lemma fcgi_encode_record_hdr_eq:
  assumes "b_wf out" and "buf_head out = 0"
  shows "fcgi_encode_record_hdr out h = (if buf_data out + 8 < buf_size out then
      Some (1, out\<lparr>buf_area := blit (buf_area out) (buf_data out) (fcgi_hdr_bytes h), buf_data := buf_data out + 8\<rparr>)
    else Some (0, out))"
  using b_wfD [OF assms(1)]
  by (simp add: fcgi_encode_record_hdr_def Let_def b_size_def sz_simps wr_def ucast_and_255 fcgi_hdr_bytes_def)

lemma b_at_drop:
  assumes "b_wf b" and "drop ofs (b_list b) = ys @ rest" and "i < length ys"
  shows "b_at b (ofs + i) = Some (ys ! i)"
  using b_at_eq [OF assms(1)] drop_nthD [OF assms(2,3)] by simp

lemma fcgi_decode_record_hdr_eq:
  assumes "b_wf b" and "drop ofs (b_list b) = fcgi_hdr_bytes h @ rest"
  shows "fcgi_decode_record_hdr b ofs g = Some (8, h\<lparr>fh_rsv := fh_rsv g\<rparr>)"
proof -
  have len: "length (fcgi_hdr_bytes h) = 8" by (simp add: fcgi_hdr_bytes_def)
  have le: "ofs + 8 \<le> buf_data b" using drop_bound [OF assms(2)] len by force
  then have sz: "sz_add ofs k = ofs + k" if "k \<le> 8" for k using that b_wfD [OF assms(1)] by (intro sz_add_small) linarith
  have at: "b_at b (ofs + i) = Some (fcgi_hdr_bytes h ! i)" if "i < 8" for i
    using b_at_drop [OF assms] that len by simp
  have "fcgi_decode_record_hdr b ofs g = Some (8, g\<lparr>fh_vsn := fh_vsn h, fh_type := fh_type h,
      fh_id := fh_id h, fh_len := fh_len h, fh_padding := fh_padding h\<rparr>)"
    using le at [of 0] at [of 1] at [of 2] at [of 3] at [of 4] at [of 5] at [of 6]
    by (simp add: fcgi_decode_record_hdr_def b_data_def sz fcgi_hdr_bytes_def u16_bytes)
  then show ?thesis by simp
qed


section \<open>Parameters\<close>

text \<open>The bytes of a length and of a parameter, as the protocol has them.\<close>

definition fcgi_len_bytes :: "nat \<Rightarrow> bytes" where
  "fcgi_len_bytes n = (if n < 128 then [word_of_nat n]
     else [word_of_nat (128 + n div 16777216), word_of_nat (n div 65536), word_of_nat (n div 256), word_of_nat n])"

lemma fcgi_len_size_less: "fcgi_len_size n = (if n < 128 then 1 else 4)"
  by (auto simp: fcgi_len_size_def)

lemma length_fcgi_put_len: "length (fcgi_put_len n) = fcgi_len_size n"
  by (auto simp: fcgi_put_len_def fcgi_len_size_def Let_def)

lemma fcgi_put_len_eq:
  assumes "n < 2147483648"
  shows "fcgi_put_len n = fcgi_len_bytes n"
proof -
  have u: "unat (word_of_nat n :: u64) = n" using assms by (simp add: unsigned_of_nat take_bit_eq_mod)
  have b: "ucast (drop_bit k (word_of_nat n :: u64)) = (word_of_nat (n div 2 ^ k) :: byte)" for k
    by (simp only: word_unat_eq_iff unat_byte_ucast unat_drop_bit u unat_byte_of_nat)
  have b0: "ucast (word_of_nat n :: u64) = (word_of_nat n :: byte)"
    by (simp only: word_unat_eq_iff unat_byte_ucast u unat_byte_of_nat)
  have "unat (drop_bit 24 (word_of_nat n :: u64)) mod 128 = n div 16777216"
    using assms by (simp add: unat_drop_bit u)
  then have t: "ucast (drop_bit 24 (word_of_nat n :: u64)) OR (128::byte) = word_of_nat (128 + n div 16777216)"
    by (simp only: byte_or_128)
  show ?thesis
    by (simp add: fcgi_put_len_def fcgi_len_bytes_def fcgi_len_size_less Let_def ucast_and_255 t b0) (simp add: b)
qed

lemma byte_top: "drop_bit 7 (b :: byte) = 0 \<longleftrightarrow> unat b < 128"
  by (simp add: word_unat_eq_iff unat_drop_bit div_eq_0_iff)

lemma byte_and_127: "unat (b AND 0x7f :: byte) = unat b mod 128"
proof -
  have "(0x7f :: byte) = mask 7" by (simp add: mask_eq_exp_minus_1)
  then have "b AND 0x7f = take_bit 7 b" by (simp only: take_bit_eq_mask)
  then show ?thesis by (simp add: take_bit_eq_mod unat_mod)
qed

lemma be4_sum:
  assumes "n < 2147483648"
  shows "n div 16777216 * 16777216 + n div 65536 mod 256 * 65536 + n div 256 mod 256 * 256 + n mod 256 = (n::nat)"
proof -
  have "n = 256 * (n div 256) + n mod 256" by simp
  moreover have "n div 256 = 256 * (n div 65536) + n div 256 mod 256"
    using div_mult2_eq [of n 256 256] mult_div_mod_eq [of 256 "n div 256"] by simp
  moreover have "n div 65536 = 256 * (n div 16777216) + n div 65536 mod 256"
    using div_mult2_eq [of n 65536 256] mult_div_mod_eq [of 256 "n div 65536"] by simp
  ultimately show ?thesis by linarith
qed

text \<open>A reader of the list \<open>L\<close>.\<close>

lemma fcgi_get_len_eq:
  assumes get: "\<And>i. i < length L \<Longrightarrow> get i = Some (L ! i)" and L: "ofs < 9223372036854775808"
    and at: "drop ofs L = fcgi_len_bytes n @ rest" and n: "n < 2147483648"
  shows "fcgi_get_len get (length L) ofs = Some (Some (n, ofs + fcgi_len_size n, fcgi_len_size n))"
proof -
  have len: "length (fcgi_len_bytes n) = fcgi_len_size n" by (simp add: fcgi_len_bytes_def fcgi_len_size_less)
  have le: "ofs + fcgi_len_size n \<le> length L" using drop_bound [OF at] len by (simp add: fcgi_len_bytes_def split: if_splits)
  have rd: "get (ofs + i) = Some (fcgi_len_bytes n ! i)" if "i < fcgi_len_size n" for i
    using drop_nthD [OF at, of i] get that len by simp
  have sz: "sz_add ofs k = ofs + k" if "k \<le> 4" for k
    using that L le by (intro sz_add_small) linarith
  show ?thesis
  proof (cases "n < 128")
    case True
    then have b0: "get ofs = Some (word_of_nat n)" using rd [of 0] by (simp add: fcgi_len_bytes_def fcgi_len_size_less)
    have "unat (word_of_nat n :: byte) = n" using True by (simp add: unat_byte_of_nat)
    then show ?thesis using True b0 le by (simp add: fcgi_get_len_def sz fcgi_len_size_less byte_top)
  next
    case False
    have g: "get ofs = Some (word_of_nat (128 + n div 16777216))" "get (Suc ofs) = Some (word_of_nat (n div 65536))"
      "get (ofs + 2) = Some (word_of_nat (n div 256))" "get (ofs + 3) = Some (word_of_nat n)"
      using rd [of 0] rd [of 1] rd [of 2] rd [of 3] False by (simp_all add: fcgi_len_bytes_def fcgi_len_size_less)
    have lt: "n div 16777216 < 128" using n by simp
    have top: "unat (word_of_nat (128 + n div 16777216) :: byte) = 128 + n div 16777216"
      using lt unfolding unat_byte_of_nat by simp
    have "sz_add (Suc ofs) 3 = ofs + 4" "sz_add (Suc ofs) 1 = ofs + 2" "sz_add (Suc ofs) 2 = ofs + 3"
      using L le False by (simp_all add: sz_add_small fcgi_len_size_less)
    then show ?thesis using False g le top lt be4_sum [OF n]
      by (simp add: fcgi_get_len_def sz fcgi_len_size_less byte_top byte_and_127 unat_byte_of_nat)
  qed
qed

definition fcgi_param_bytes :: "bytes \<Rightarrow> bytes \<Rightarrow> bytes" where
  "fcgi_param_bytes n v = fcgi_len_bytes (length n) @ fcgi_len_bytes (length v) @ n @ v"

lemma length_fcgi_len_bytes [simp]: "length (fcgi_len_bytes n) = fcgi_len_size n"
  by (simp add: fcgi_len_bytes_def fcgi_len_size_less)

lemma fcgi_get_param_eq:
  assumes get: "\<And>i. i < length L \<Longrightarrow> get i = Some (L ! i)" and L: "ofs < 4611686018427387904"
    and at: "drop ofs L = fcgi_param_bytes n v @ rest" and n: "length n < 2147483648" and v: "length v < 2147483648"
  shows "fcgi_get_param get addr (length L) ofs p = Some (length (fcgi_param_bytes n v),
    p\<lparr>fp_n := ist2 (Some (addr (ofs + fcgi_len_size (length n) + fcgi_len_size (length v)))) (length n),
      fp_v := ist2 (Some (addr (ofs + fcgi_len_size (length n) + fcgi_len_size (length v) + length n))) (length v)\<rparr>)"
proof -
  let ?l1 = "fcgi_len_size (length n)" and ?l2 = "fcgi_len_size (length v)"
  have "ofs + length (fcgi_param_bytes n v) \<le> length L"
    by (rule drop_bound [OF at]) (simp add: fcgi_param_bytes_def fcgi_len_bytes_def)
  then have le: "ofs + ?l1 + ?l2 + length n + length v \<le> length L" by (simp add: fcgi_param_bytes_def)
  have L1: "ofs < 9223372036854775808" and L2: "ofs + ?l1 < 9223372036854775808"
    using L by (simp_all add: fcgi_len_size_less)
  have r1: "fcgi_get_len get (length L) ofs = Some (Some (length n, ofs + ?l1, ?l1))"
    using at by (intro fcgi_get_len_eq [OF get L1 _ n, of "fcgi_len_bytes (length v) @ n @ v @ rest"]) (simp_all add: fcgi_param_bytes_def)
  have "drop (ofs + ?l1) L = drop ?l1 (drop ofs L)" by (simp add: add.commute)
  then have at2: "drop (ofs + ?l1) L = fcgi_len_bytes (length v) @ n @ v @ rest"
    by (simp add: at fcgi_param_bytes_def)
  have r2: "fcgi_get_len get (length L) (ofs + ?l1) = Some (Some (length v, ofs + ?l1 + ?l2, ?l2))"
    by (rule fcgi_get_len_eq [OF get L2 at2 v])
  have s: "sz_add (length n) (length v) = length n + length v" using n v by (simp add: sz_add_small)
  have t: "sz_add (?l1 + ?l2) (length n + length v) = ?l1 + ?l2 + (length n + length v)"
    "sz_add (ofs + ?l1 + ?l2) (length n) = ofs + ?l1 + ?l2 + length n"
    using n v L by (simp_all add: sz_add_small fcgi_len_size_less)
  show ?thesis using r1 r2 s t le by (simp add: fcgi_get_param_def fcgi_param_bytes_def)
qed

lemma fcgi_encode_param_eq:
  assumes wf: "b_wf out" "buf_head out = 0" and ok: "ist_ok nm (ist_ptr (fp_n p)) (ist_len (fp_n p))"
      "ist_ok vm (ist_ptr (fp_v p)) (ist_len (fp_v p))"
    and n: "ist_len (fp_n p) < 2147483648" "ist_len (fp_v p) < 2147483648"
  shows "fcgi_encode_param nm vm out p =
    (let xs = fcgi_param_bytes (map fcgi_name_char (ist_str nm (fp_n p))) (ist_str vm (fp_v p)) in
     if buf_data out + length xs < buf_size out then
       Some (1, out\<lparr>buf_area := blit (buf_area out) (buf_data out) xs, buf_data := buf_data out + length xs\<rparr>)
     else Some (0, out))"
proof -
  define N where "N = map fcgi_name_char (ist_str nm (fp_n p))"
  define V where "V = ist_str vm (fp_v p)"
  let ?nl = "ist_len (fp_n p)" and ?vl = "ist_len (fp_v p)" and ?m = "buf_area out" and ?d = "buf_data out"
  let ?l1 = "fcgi_len_size ?nl" and ?l2 = "fcgi_len_size ?vl"
  have len: "length N = ?nl" "length V = ?vl" using ok by (simp_all add: N_def V_def)
  have l4: "?l1 \<le> 4" "?l2 \<le> 4" by (simp_all add: fcgi_len_size_less)
  note d = b_wfD [OF wf(1)]
  have sz: "sz_add (?d + ?l1) ?nl = ?d + ?l1 + ?nl" "sz_add (?d + ?l1 + ?nl) ?l2 = ?d + ?l1 + ?nl + ?l2"
    "sz_add (?d + ?l1 + ?nl + ?l2) ?vl = ?d + ?l1 + ?nl + ?l2 + ?vl"
    "sz_add ?d ?l1 = ?d + ?l1" "sz_add (?d + ?l1) ?l2 = ?d + ?l1 + ?l2"
    "sz_add (?d + ?l1 + ?l2) ?nl = ?d + ?l1 + ?l2 + ?nl" "sz_add (?d + ?l1 + ?l2 + ?nl) ?vl = ?d + ?l1 + ?l2 + ?nl + ?vl"
    using d n l4 by (simp_all add: sz_add_small)
  have xs: "fcgi_param_bytes N V = fcgi_len_bytes ?nl @ fcgi_len_bytes ?vl @ N @ V"
    by (simp add: fcgi_param_bytes_def len)
  show ?thesis
  proof (cases "?d + ?l1 + ?nl + ?l2 + ?vl < buf_size out")
    case False
    then show ?thesis unfolding N_def [symmetric] V_def [symmetric]
      by (simp add: fcgi_encode_param_def Let_def sz b_size_def xs len)
  next
    case True
    let ?m1 = "blit ?m ?d (fcgi_len_bytes ?nl)"
    let ?m2 = "blit ?m ?d (fcgi_len_bytes ?nl @ fcgi_len_bytes ?vl)"
    let ?m3 = "blit ?m ?d (fcgi_len_bytes ?nl @ fcgi_len_bytes ?vl @ N)"
    have w1: "wr ?m ?d (fcgi_put_len ?nl) = Some ?m1"
      using True d n by (simp add: fcgi_put_len_eq wr_def)
    have w2: "wr ?m1 (?d + ?l1) (fcgi_put_len ?vl) = Some ?m2"
      using True d n blit_adjacent [of ?d "fcgi_len_bytes ?nl" "fcgi_len_bytes ?vl" ?m] by (simp add: fcgi_put_len_eq wr_def)
    have w3: "ist_copy_loop fcgi_name_char nm (ist_ptr (fp_n p)) ?nl (Some (?d + ?l1 + ?l2)) ?m2 0 = Some (?nl, ?m3)"
      using True d len ist_copy [OF ok(1), of "?d + ?l1 + ?l2" ?m2 fcgi_name_char]
        blit_adjacent [of ?d "fcgi_len_bytes ?nl @ fcgi_len_bytes ?vl" N ?m] by (simp add: N_def add.assoc)
    have w4: "ist2bin vm ?m3 (Some (?d + ?l1 + ?l2 + ?nl)) (fp_v p) =
        Some (ist2 (Some (?d + ?l1 + ?l2 + ?nl)) ?vl, blit ?m ?d (fcgi_param_bytes N V))"
      using True d len ist2bin_eq(1) [OF ok(2), of "?d + ?l1 + ?l2 + ?nl" ?m3]
        blit_adjacent [of ?d "fcgi_len_bytes ?nl @ fcgi_len_bytes ?vl @ N" V ?m] by (simp add: V_def [symmetric] xs add.assoc)
    have V0: "?vl = 0 \<Longrightarrow> fcgi_len_bytes ?nl @ fcgi_len_bytes ?vl @ N = fcgi_param_bytes N V"
      unfolding xs using len by simp
    have tot: "?d + length (fcgi_param_bytes N V) = ?d + ?l1 + ?l2 + ?nl + ?vl" by (simp add: xs len)
    have lt: "?d + ?l1 + ?l2 + ?nl + ?vl < buf_size out" using True by linarith
    show ?thesis
    proof (cases "?vl = 0")
      case Z: True
      show ?thesis unfolding N_def [symmetric] V_def [symmetric] fcgi_encode_param_def Let_def sz b_size_def tot
        using True lt Z w1 w2 w3 V0 [OF Z] by (simp add: sz sz [unfolded Z])
    next
      case False
      show ?thesis unfolding N_def [symmetric] V_def [symmetric] fcgi_encode_param_def Let_def sz b_size_def tot
        using True lt False w1 w2 w3 w4 by (simp add: sz)
    qed
  qed
qed


lemma fcgi_decode_param_eq:
  assumes "b_wf b" and "drop ofs (b_list b) = fcgi_param_bytes n v @ rest"
    and "length n < 2147483648" and "length v < 2147483648"
  shows "fcgi_decode_param b ofs p = Some (length (fcgi_param_bytes n v),
    p\<lparr>fp_n := ist2 (Some (b_peek b (ofs + fcgi_len_size (length n) + fcgi_len_size (length v)))) (length n),
      fp_v := ist2 (Some (b_peek b (ofs + fcgi_len_size (length n) + fcgi_len_size (length v) + length n))) (length v)\<rparr>)"
proof -
  have "ofs \<le> buf_data b" using drop_bound [OF assms(2)] by (simp add: fcgi_param_bytes_def fcgi_len_bytes_def)
  then have "ofs < 4611686018427387904" using b_wfD [OF assms(1)] by linarith
  then show ?thesis
    using fcgi_get_param_eq [of "b_list b" "b_at b" ofs n v rest] b_at_eq [OF assms(1)] assms(2-4)
    by (simp add: fcgi_decode_param_def b_data_def)
qed

text \<open>Where the name and the value of a parameter are in the circular area.\<close>

lemma ring_read_peek:
  assumes "b_wf b" and "drop k (b_list b) = ys @ rest" and "k \<le> buf_data b" and "0 < buf_size b"
  shows "ring_read (buf_area b) (b_peek b k) (length ys) = ys"
proof -
  have "b_peek b k = (buf_head b + k) mod length (buf_area b)"
    using assms b_wfD [OF assms(1)] by (simp add: b_peek_eq)
  then have "ring_read (buf_area b) (b_peek b k) (length ys) = ring_read (buf_area b) (buf_head b + k) (length ys)"
    by simp
  also have "\<dots> = take (length ys) (drop k (b_list b))"
    using arg_cong [OF assms(2), of length] by (simp add: b_list_def min_absorb1)
  finally show ?thesis by (simp add: assms(2))
qed

lemma fcgi_param_located:
  assumes "b_wf b" and "drop ofs (b_list b) = fcgi_param_bytes n v @ rest"
  shows "ring_read (buf_area b) (b_peek b (ofs + fcgi_len_size (length n) + fcgi_len_size (length v))) (length n) = n"
    and "ring_read (buf_area b) (b_peek b (ofs + fcgi_len_size (length n) + fcgi_len_size (length v) + length n)) (length v) = v"
proof -
  let ?k = "ofs + fcgi_len_size (length n) + fcgi_len_size (length v)"
  have "ofs + length (fcgi_param_bytes n v) \<le> length (b_list b)"
    by (rule drop_bound [OF assms(2)]) (simp add: fcgi_param_bytes_def fcgi_len_bytes_def)
  then have le: "?k + length n + length v \<le> buf_data b" by (simp add: fcgi_param_bytes_def)
  then have s: "0 < buf_size b" using b_wfD [OF assms(1)] by (auto simp: fcgi_len_size_less split: if_splits)
  have k: "drop ?k (b_list b) = n @ v @ rest"
    using arg_cong [OF assms(2), of "drop (fcgi_len_size (length n) + fcgi_len_size (length v))"]
    by (simp add: fcgi_param_bytes_def drop_drop add.commute add.left_commute)
  have "drop (?k + length n) (b_list b) = drop (length n) (drop ?k (b_list b))"
    by (simp only: drop_drop add.commute)
  then have "drop (?k + length n) (b_list b) = v @ rest" by (simp add: k)
  then show "ring_read (buf_area b) (b_peek b ?k) (length n) = n"
    and "ring_read (buf_area b) (b_peek b (?k + length n)) (length v) = v"
    using k le s by (auto intro: ring_read_peek [OF assms(1)])
qed

lemma fcgi_aligned_decode_param_eq:
  assumes "buf_data b \<le> length (buf_area b)" and "ofs < 4611686018427387904"
    and "drop ofs (take (buf_data b) (buf_area b)) = fcgi_param_bytes n v @ rest"
    and "length n < 2147483648" and "length v < 2147483648"
  shows "fcgi_aligned_decode_param b ofs p = Some (length (fcgi_param_bytes n v),
    p\<lparr>fp_n := ist2 (Some (ofs + fcgi_len_size (length n) + fcgi_len_size (length v))) (length n),
      fp_v := ist2 (Some (ofs + fcgi_len_size (length n) + fcgi_len_size (length v) + length n)) (length v)\<rparr>)"
  using fcgi_get_param_eq [of "take (buf_data b) (buf_area b)" "ld (buf_area b)" ofs n v rest "\<lambda>o'. o'"] assms
  by (simp add: fcgi_aligned_decode_param_def b_data_def ld_def min_absorb2)

section \<open>Streams of parameters\<close>

text \<open>The encoding of one parameter in a fresh chunk and the decoding of the first parameter of a
  block of bytes, in terms of the code, form a prefix code on the names that need no conversion.\<close>

definition fcgi_param_enc :: "bytes \<times> bytes \<Rightarrow> bytes" where
  "fcgi_param_enc = (\<lambda>(n, v). let k = length n + length v + 9 in
     case fcgi_encode_param n v (b_make (replicate k 0) k 0 0)
            \<lparr>fp_n = ist2 (Some 0) (length n), fp_v = ist2 (Some 0) (length v)\<rparr> of
       Some (_, b) \<Rightarrow> b_list b | None \<Rightarrow> [])"

definition fcgi_param_dec :: "bytes \<Rightarrow> ((bytes \<times> bytes) \<times> bytes) option" where
  "fcgi_param_dec bs = (case fcgi_aligned_decode_param (b_make bs (length bs) 0 (length bs)) 0
            \<lparr>fp_n = IST_NULL, fp_v = IST_NULL\<rparr> of
       Some (l, p) \<Rightarrow> if l = 0 then None
         else Some ((ist_str bs (fp_n p), ist_str bs (fp_v p)), drop l bs) | None \<Rightarrow> None)"

definition fcgi_param_valid :: "bytes \<times> bytes \<Rightarrow> bool" where
  "fcgi_param_valid = (\<lambda>(n, v). length n < 2147483648 \<and> length v < 2147483648 \<and> map fcgi_name_char n = n)"

lemma fcgi_param_enc_eq:
  assumes "length n < 2147483648" and "length v < 2147483648"
  shows "fcgi_param_enc (n, v) = fcgi_param_bytes (map fcgi_name_char n) v"
proof -
  let ?k = "length n + length v + 9"
  let ?b = "b_make (replicate ?k 0) ?k 0 0" and ?p = "\<lparr>fp_n = ist2 (Some 0) (length n), fp_v = ist2 (Some 0) (length v)\<rparr>"
  let ?xs = "fcgi_param_bytes (map fcgi_name_char n) v"
  have wf: "b_wf ?b" "buf_head ?b = 0" using assms by (simp_all add: b_wf_def b_make_def)
  have lx: "length ?xs < ?k" by (simp add: fcgi_param_bytes_def fcgi_len_size_less)
  have "fcgi_encode_param n v ?b ?p =
      Some (1, ?b\<lparr>buf_area := blit (buf_area ?b) (buf_data ?b) ?xs, buf_data := buf_data ?b + length ?xs\<rparr>)"
    using fcgi_encode_param_eq [OF wf, of n ?p v] assms lx by (simp add: Let_def b_make_def)
  moreover have "b_list ?b = []" by (simp add: b_list_def b_make_def ring_read_def)
  moreover have "buf_data ?b + length ?xs \<le> buf_size ?b" using lx by (simp add: b_make_def)
  ultimately show ?thesis using chunk_append(2) [OF wf, of ?xs] by (simp add: fcgi_param_enc_def Let_def)
qed

interpretation fc: prefix_codec fcgi_param_valid fcgi_param_enc fcgi_param_dec
proof unfold_locales
  fix nv :: "bytes \<times> bytes" and rest :: bytes
  assume ok: "fcgi_param_valid nv"
  obtain n v where nv: "nv = (n, v)" by (cases nv)
  have l: "length n < 2147483648" "length v < 2147483648" and c: "map fcgi_name_char n = n"
    using ok by (simp_all add: nv fcgi_param_valid_def)
  let ?bs = "fcgi_param_bytes n v @ rest"
  let ?l = "fcgi_len_size (length n) + fcgi_len_size (length v)"
  have "fcgi_aligned_decode_param (b_make ?bs (length ?bs) 0 (length ?bs)) 0 \<lparr>fp_n = IST_NULL, fp_v = IST_NULL\<rparr> =
      Some (length (fcgi_param_bytes n v), \<lparr>fp_n = ist2 (Some ?l) (length n), fp_v = ist2 (Some (?l + length n)) (length v)\<rparr>)"
    by (subst fcgi_aligned_decode_param_eq [OF _ _ _ l, where rest = rest]) (simp_all add: b_make_def)
  moreover have "take (length n) (drop ?l ?bs) = n" "take (length v) (drop (?l + length n) ?bs) = v"
    by (simp_all add: fcgi_param_bytes_def)
  moreover have "length (fcgi_param_bytes n v) \<noteq> 0" by (simp add: fcgi_param_bytes_def fcgi_len_bytes_def)
  ultimately show "fcgi_param_dec (fcgi_param_enc nv @ rest) = Some (nv, rest)"
    by (simp add: nv fcgi_param_enc_eq [OF l] c fcgi_param_dec_def)
qed

lemma fcgi_name_char_idem: "fcgi_name_char (fcgi_name_char c) = fcgi_name_char c"
  unfolding fcgi_name_char_def ist_uc_nth
  by (auto simp: isalnum_def ascii_uc_def word_less_nat_alt word_le_nat_alt unat_sub)

section \<open>Properties\<close>

text \<open>A record header that \<^verbatim>\<open>fcgi_encode_record_hdr\<close> appends to a chunk is read back by
  \<^verbatim>\<open>fcgi_decode_record_hdr\<close> from any buffer, wrapping or not, that holds its eight bytes at the given
  offset; without room (one byte more than the header is asked for) the chunk is left unchanged.\<close>

theorem fcgi_header_roundtrip:
  assumes "b_wf out" and "buf_head out = 0"
  shows "if buf_data out + 8 < buf_size out then
      \<exists>out' hdr. fcgi_encode_record_hdr out h = Some (1, out') \<and> b_wf out' \<and> b_list out' = b_list out @ hdr \<and>
        length hdr = 8 \<and> (\<forall>b ofs rest g. b_wf b \<and> drop ofs (b_list b) = hdr @ rest \<longrightarrow>
          fcgi_decode_record_hdr b ofs g = Some (8, h\<lparr>fh_rsv := fh_rsv g\<rparr>))
    else fcgi_encode_record_hdr out h = Some (0, out)"
proof (cases "buf_data out + 8 < buf_size out")
  case True
  let ?out = "out\<lparr>buf_area := blit (buf_area out) (buf_data out) (fcgi_hdr_bytes h), buf_data := buf_data out + 8\<rparr>"
  have len: "length (fcgi_hdr_bytes h) = 8" by (simp add: fcgi_hdr_bytes_def)
  then have "b_wf ?out" "b_list ?out = b_list out @ fcgi_hdr_bytes h"
    using chunk_append [OF assms, of "fcgi_hdr_bytes h"] True by simp_all
  moreover have "fcgi_encode_record_hdr out h = Some (1, ?out)" using True fcgi_encode_record_hdr_eq [OF assms] by simp
  ultimately show ?thesis using True len fcgi_decode_record_hdr_eq by auto
next
  case False
  then show ?thesis using fcgi_encode_record_hdr_eq [OF assms] by simp
qed

theorem fcgi_header_roundtrip_witness:
  "\<exists>out' hdr. fcgi_encode_record_hdr (b_make (replicate 16 0) 16 0 0)
       \<lparr>fh_vsn = 1, fh_type = 6, fh_id = 258, fh_len = 1000, fh_padding = 4, fh_rsv = 0\<rparr> = Some (1, out') \<and>
     b_wf out' \<and> b_list out' = b_list (b_make (replicate 16 0) 16 0 0) @ hdr"
  using fcgi_header_roundtrip [of "b_make (replicate 16 0) 16 0 0"
      "\<lparr>fh_vsn = 1, fh_type = 6, fh_id = 258, fh_len = 1000, fh_padding = 4, fh_rsv = 0\<rparr>"]
  by (auto simp: b_make_def b_wf_def)

text \<open>A sequence of parameters, each encoded by \<^verbatim>\<open>fcgi_encode_param\<close>, is read back by
  successive calls of \<^verbatim>\<open>fcgi_aligned_decode_param\<close>: the values unchanged, the names in upper case with
  an underscore for every character that is not alphanumeric, whatever bytes follow.\<close>

theorem fcgi_param_stream:
  assumes "\<forall>(n, v) \<in> set ps. length n < 2 ^ 31 \<and> length v < 2 ^ 31"
  shows "decode_many fcgi_param_dec (length ps) (concat (map fcgi_param_enc ps) @ rest) =
    Some (map (\<lambda>(n, v). (map fcgi_name_char n, v)) ps, rest)"
proof -
  let ?f = "\<lambda>(n, v). (map fcgi_name_char n, v :: bytes)"
  have enc: "map fcgi_param_enc ps = map fcgi_param_enc (map ?f ps)"
    using assms by (auto simp: fcgi_param_enc_eq fcgi_name_char_idem comp_def)
  have "\<forall>nv \<in> set (map ?f ps). fcgi_param_valid nv"
    using assms by (auto simp: fcgi_param_valid_def fcgi_name_char_idem)
  from fc.decode_many_enc [OF this, of rest] show ?thesis unfolding enc by simp
qed

theorem fcgi_param_stream_witness:
  "decode_many fcgi_param_dec (length [(cstr ''a-b'', cstr ''1''), (cstr ''c'', [])])
     (concat (map fcgi_param_enc [(cstr ''a-b'', cstr ''1''), (cstr ''c'', [])]) @ [0]) =
   Some (map (\<lambda>(n, v). (map fcgi_name_char n, v)) [(cstr ''a-b'', cstr ''1''), (cstr ''c'', [])], [0])"
  by (rule fcgi_param_stream) (simp add: cstr_def)

text \<open>C35. \<^verbatim>\<open>fcgi_encode_param\<close> appends a parameter to a chunk when it fits with one byte to spare and
  otherwise changes nothing; \<^verbatim>\<open>fcgi_decode_param\<close> finds it again in any buffer that holds it: the name
  and the value it returns start, in the circular area, at the converted name and at the value.\<close>

theorem fcgi_param_roundtrip:
  assumes "b_wf out" and "buf_head out = 0" and "ist_ok nm (ist_ptr (fp_n p)) (ist_len (fp_n p))"
    and "ist_ok vm (ist_ptr (fp_v p)) (ist_len (fp_v p))"
    and "ist_len (fp_n p) < 2147483648" and "ist_len (fp_v p) < 2147483648"
  shows "\<exists>r out' xs. fcgi_encode_param nm vm out p = Some (r, out') \<and> b_wf out' \<and>
      (r = 0 \<and> out' = out \<and> buf_size out \<le> buf_data out + length xs \<or>
       r = 1 \<and> b_list out' = b_list out @ xs \<and> buf_data out + length xs < buf_size out) \<and>
      (\<forall>b ofs rest q. b_wf b \<and> drop ofs (b_list b) = xs @ rest \<longrightarrow>
        (\<exists>np vp. fcgi_decode_param b ofs q =
            Some (length xs, q\<lparr>fp_n := ist2 (Some np) (ist_len (fp_n p)), fp_v := ist2 (Some vp) (ist_len (fp_v p))\<rparr>) \<and>
          ring_read (buf_area b) np (ist_len (fp_n p)) = map fcgi_name_char (ist_str nm (fp_n p)) \<and>
          ring_read (buf_area b) vp (ist_len (fp_v p)) = ist_str vm (fp_v p)))"
proof -
  let ?n = "map fcgi_name_char (ist_str nm (fp_n p))" and ?v = "ist_str vm (fp_v p)"
  let ?xs = "fcgi_param_bytes ?n ?v"
  note e = fcgi_encode_param_eq [OF assms]
  have l: "length ?n = ist_len (fp_n p)" "length ?v = ist_len (fp_v p)" using assms(3,4) by simp_all
  have dec: "\<exists>np vp. fcgi_decode_param b ofs q =
            Some (length ?xs, q\<lparr>fp_n := ist2 (Some np) (ist_len (fp_n p)), fp_v := ist2 (Some vp) (ist_len (fp_v p))\<rparr>) \<and>
          ring_read (buf_area b) np (ist_len (fp_n p)) = ?n \<and> ring_read (buf_area b) vp (ist_len (fp_v p)) = ?v"
    if "b_wf b" "drop ofs (b_list b) = ?xs @ rest" for b ofs rest q
    using fcgi_decode_param_eq [OF that] fcgi_param_located [OF that] assms(5,6) l by auto
  show ?thesis
  proof (cases "buf_data out + length ?xs < buf_size out")
    case True
    then show ?thesis using e dec chunk_append [OF assms(1,2), of ?xs] by (intro exI conjI) (auto simp: Let_def)
  next
    case False
    then show ?thesis using e dec assms(1) by (intro exI [of _ 0] exI [of _ out] exI [of _ ?xs]) (auto simp: Let_def)
  qed
qed

theorem fcgi_param_roundtrip_witness:
  "\<exists>r out' xs. fcgi_encode_param (cstr ''a-b'') [7] (b_make (replicate 16 0) 16 0 0)
       \<lparr>fp_n = ist2 (Some 0) 3, fp_v = ist2 (Some 0) 1\<rparr> = Some (r, out') \<and>
     (r = 0 \<and> 16 \<le> length xs \<or> r = 1 \<and> b_list out' = xs)"
  using fcgi_param_roundtrip [of "b_make (replicate 16 0) 16 0 0" "cstr ''a-b''"
      "\<lparr>fp_n = ist2 (Some 0) 3, fp_v = ist2 (Some 0) 1\<rparr>" "[7]"]
  by (simp add: b_make_def b_wf_def b_list_def ring_read_def) blast

lemma fcgi_get_len_short:
  assumes "get ofs = Some c" and "unat c < 128" and "ofs < data" and "ofs < 4611686018427387904"
  shows "fcgi_get_len get data ofs = Some (Some (unat c, ofs + 1, 1))"
proof -
  have "unat (drop_bit 7 c) = 0" using assms(2) by (simp add: unat_drop_bit)
  then have "drop_bit 7 c = 0" by (simp only: unat_eq_0)
  then show ?thesis using assms by (simp add: fcgi_get_len_def sz_simps)
qed

lemma fcgi_get_param_short:
  assumes "get ofs = Some c" and "get (ofs + 1) = Some d" and "unat c < 128" and "unat d < 128"
    and "ofs + 2 \<le> data" and "data < 4611686018427387904"
  shows "fcgi_get_param get addr data ofs p = Some (if unat c + unat d \<le> data
      then (2 + unat c + unat d, p\<lparr>fp_n := ist2 (Some (addr (ofs + 2))) (unat c), fp_v := ist2 (Some (addr (ofs + 2 + unat c))) (unat d)\<rparr>)
      else (0, p))"
proof -
  have l: "fcgi_get_len get data ofs = Some (Some (unat c, ofs + 1, 1))"
    "fcgi_get_len get data (ofs + 1) = Some (Some (unat d, ofs + 2, 1))"
    using assms fcgi_get_len_short [of get "ofs + 1" d data] by (simp_all add: fcgi_get_len_short)
  show ?thesis using assms by (simp add: fcgi_get_param_def l [simplified] sz_simps)
qed

text \<open>C36. Both parameter decoders check the sum of the two lengths against all the data of the buffer and not
  against what follows the lengths. For every buffer and offset that hold two lengths of one byte, a parameter
  that extends past the end of the data is accepted as soon as the two lengths together do not exceed the amount
  of data of the buffer: the size returned is larger than what is left from the offset. It is refused
  only when they do exceed it. (The aligned decoder applies to data at the start of the area.)\<close>

theorem fcgi_decode_param_overrun:
  assumes "b_wf b" and "ofs + 2 \<le> buf_data b" and "n = unat (b_list b ! ofs)" and "v = unat (b_list b ! (ofs + 1))"
    and "n < 128" and "v < 128" and "buf_data b < ofs + (2 + n + v)"
  shows "(if n + v \<le> buf_data b
      then fcgi_decode_param b ofs p = Some (2 + n + v,
          p\<lparr>fp_n := ist2 (Some (b_peek b (ofs + 2))) n, fp_v := ist2 (Some (b_peek b (ofs + 2 + n))) v\<rparr>) \<and>
        (buf_head b = 0 \<longrightarrow> fcgi_aligned_decode_param b ofs p = Some (2 + n + v,
          p\<lparr>fp_n := ist2 (Some (ofs + 2)) n, fp_v := ist2 (Some (ofs + 2 + n)) v\<rparr>)) \<and> buf_data b - ofs < 2 + n + v
      else fcgi_decode_param b ofs p = Some (0, p) \<and> (buf_head b = 0 \<longrightarrow> fcgi_aligned_decode_param b ofs p = Some (0, p)))"
proof -
  note d = b_wfD [OF assms(1)]
  have g: "b_at b ofs = Some (b_list b ! ofs)" "b_at b (ofs + 1) = Some (b_list b ! (ofs + 1))"
    using assms(2) by (auto intro!: b_at_eq [OF assms(1)])
  have s: "buf_data b < 4611686018427387904" using d by linarith
  have dec: "fcgi_decode_param b ofs p = Some (if n + v \<le> buf_data b then (2 + n + v,
      p\<lparr>fp_n := ist2 (Some (b_peek b (ofs + 2))) n, fp_v := ist2 (Some (b_peek b (ofs + 2 + n))) v\<rparr>) else (0, p))"
    using fcgi_get_param_short [OF g _ _ assms(2) s] assms(3-6) by (simp add: fcgi_decode_param_def b_data_def)
  have al: "fcgi_aligned_decode_param b ofs p = Some (if n + v \<le> buf_data b then (2 + n + v,
      p\<lparr>fp_n := ist2 (Some (ofs + 2)) n, fp_v := ist2 (Some (ofs + 2 + n)) v\<rparr>) else (0, p))" if "buf_head b = 0"
  proof -
    have "ld (buf_area b) i = Some (b_list b ! i)" if "i < buf_data b" for i
      using that d \<open>buf_head b = 0\<close> by (simp add: ld_def b_list_def ring_read_def)
    then have "ld (buf_area b) ofs = Some (b_list b ! ofs)" "ld (buf_area b) (ofs + 1) = Some (b_list b ! (ofs + 1))"
      using assms(2) by auto
    from fcgi_get_param_short [OF this _ _ assms(2) s] show ?thesis
      using assms(3-6) by (simp add: fcgi_aligned_decode_param_def b_data_def)
  qed
  show ?thesis using dec al assms(2,7) by auto
qed

theorem fcgi_decode_param_overrun_witness:
  "fcgi_aligned_decode_param (b_make [1, 1, 65, 66] 4 0 3) 0 \<lparr>fp_n = IST_NULL, fp_v = IST_NULL\<rparr> =
     Some (4, \<lparr>fp_n = ist2 (Some 2) 1, fp_v = ist2 (Some 3) 1\<rparr>)"
  using fcgi_decode_param_overrun [of "b_make [1, 1, 65, 66] 4 0 3" 0 1 1 "\<lparr>fp_n = IST_NULL, fp_v = IST_NULL\<rparr>"]
  by (simp add: b_make_def b_wf_def b_list_def ring_read_def)

end
