(* ===== verification/HpackTbl.thy ===== *)
theory HpackTbl
  imports Ring Ist
begin

text \<open>
  HPACK header tables: \<^verbatim>\<open>include/haproxy/hpack-tbl-t.h\<close>, \<^verbatim>\<open>include/haproxy/hpack-tbl.h\<close> and
  \<^verbatim>\<open>src/hpack-tbl.c\<close>. The dynamic table is one block of memory: a header of 16 bytes, the array of the
  entry descriptors, 8 bytes each, and the contents of the entries, stored from the end. In the model
  the descriptors are a list of their own and the contents are in \<open>dht_area\<close>, at the addresses that the
  descriptors give, relative to the start of the block; the invariant keeps all the contents above the
  descriptors, so that the two never overlap in memory.

  The fields of 16 and 32 bits are numbers reduced modulo \<open>2 ^ 16\<close> or \<open>2 ^ 32\<close> by \<open>u16\<close>, \<open>u32_add\<close> and
  \<open>u32_sub\<close> where they are stored or computed. The memory that the pool returns for the
  defragmentation is an argument; \<open>None\<close> is a failed allocation. All the tables come from the same pool,
  so that a fresh block has the size of the table that it replaces.
\<close>

section \<open>Tables\<close>

definition hpack_sht_str :: "(string \<times> string) list" where
  "hpack_sht_str = [
    ([], []),
    ('':authority'', []),
    ('':method'', ''GET''),
    ('':method'', ''POST''),
    ('':path'', ''/''),
    ('':path'', ''/index.html''),
    ('':scheme'', ''http''),
    ('':scheme'', ''https''),
    ('':status'', ''200''),
    ('':status'', ''204''),
    ('':status'', ''206''),
    ('':status'', ''304''),
    ('':status'', ''400''),
    ('':status'', ''404''),
    ('':status'', ''500''),
    (''accept-charset'', []),
    (''accept-encoding'', ''gzip, deflate''),
    (''accept-language'', []),
    (''accept-ranges'', []),
    (''accept'', []),
    (''access-control-allow-origin'', []),
    (''age'', []),
    (''allow'', []),
    (''authorization'', []),
    (''cache-control'', []),
    (''content-disposition'', []),
    (''content-encoding'', []),
    (''content-language'', []),
    (''content-length'', []),
    (''content-location'', []),
    (''content-range'', []),
    (''content-type'', []),
    (''cookie'', []),
    (''date'', []),
    (''etag'', []),
    (''expect'', []),
    (''expires'', []),
    (''from'', []),
    (''host'', []),
    (''if-match'', []),
    (''if-modified-since'', []),
    (''if-none-match'', []),
    (''if-range'', []),
    (''if-unmodified-since'', []),
    (''last-modified'', []),
    (''link'', []),
    (''location'', []),
    (''max-forwards'', []),
    (''proxy-authenticate'', []),
    (''proxy-authorization'', []),
    (''range'', []),
    (''referer'', []),
    (''refresh'', []),
    (''retry-after'', []),
    (''server'', []),
    (''set-cookie'', []),
    (''strict-transport-security'', []),
    (''transfer-encoding'', []),
    (''user-agent'', []),
    (''vary'', []),
    (''via'', []),
    (''www-authenticate'', [])]"

definition hpack_sht :: "(bytes \<times> bytes) list" where
  "hpack_sht = map (\<lambda>(n, v). (cstr n, cstr v)) hpack_sht_str"

definition HPACK_SHT_SIZE :: nat where
  "HPACK_SHT_SIZE = 62"

record hpack_dte =
  dte_addr :: nat
  dte_nlen :: nat
  dte_vlen :: nat

record hpack_dht =
  dht_size :: nat
  dht_total :: nat
  dht_front :: nat
  dht_wrap :: nat
  dht_head :: nat
  dht_used :: nat
  dht_dte :: "hpack_dte list"
  dht_area :: bytes

definition u16w :: "nat \<Rightarrow> nat" where
  "u16w x = x mod 65536"

definition u32_add :: "nat \<Rightarrow> nat \<Rightarrow> nat" where
  "u32_add a b = (a + b) mod 4294967296"

definition u32_sub :: "nat \<Rightarrow> nat \<Rightarrow> nat" where
  "u32_sub a b = (a + 4294967296 - b) mod 4294967296"

text \<open>The sizes of \<^verbatim>\<open>struct hpack_dht\<close> and of \<^verbatim>\<open>struct hpack_dte\<close>, and the length of the content of an
  entry.\<close>

definition DHT_HDR :: nat where
  "DHT_HDR = 16"

definition DTE_SIZE :: nat where
  "DTE_SIZE = 8"

definition dte_len :: "hpack_dte \<Rightarrow> nat" where
  "dte_len e = dte_nlen e + dte_vlen e"

text \<open>Access to the array of descriptors, which has room for as many as fit in the block.\<close>

definition get_dte :: "hpack_dht \<Rightarrow> nat \<Rightarrow> hpack_dte option" where
  "get_dte d i = ld (dht_dte d) i"

definition set_dte :: "hpack_dht \<Rightarrow> nat \<Rightarrow> hpack_dte \<Rightarrow> hpack_dht option" where
  "set_dte d i e = map_option (\<lambda>es. d\<lparr>dht_dte := es\<rparr>) (st (dht_dte d) i e)"

section \<open>Queries\<close>

text \<open>\<^verbatim>\<open>hpack_get_dte\<close> returns the slot of the entry instead of its address.\<close>

definition hpack_get_dte :: "hpack_dht \<Rightarrow> nat \<Rightarrow> nat option" where
  "hpack_get_dte d idx =
     (let idx = u16w (idx + 65535) in
      if idx \<ge> dht_used d then None
      else if idx \<le> dht_head d then Some (dht_head d - idx)
      else Some (u16w (dht_head d + dht_wrap d - idx)))"

definition hpack_valid_idx :: "hpack_dht \<Rightarrow> nat \<Rightarrow> bool" where
  "hpack_valid_idx d idx = (idx < dht_used d + HPACK_SHT_SIZE)"

definition hpack_get_name :: "hpack_dht \<Rightarrow> hpack_dte \<Rightarrow> ist" where
  "hpack_get_name d e = ist2 (Some (dte_addr e)) (dte_nlen e)"

definition hpack_get_value :: "hpack_dht \<Rightarrow> hpack_dte \<Rightarrow> ist" where
  "hpack_get_value d e = ist2 (Some (dte_addr e + dte_nlen e)) (dte_vlen e)"

text \<open>\<^verbatim>\<open>hpack_idx_to_name\<close> and \<^verbatim>\<open>hpack_idx_to_value\<close> return a string of the static table, of the block of
  the dynamic table or a constant; here they return the bytes that it designates.\<close>

definition hpack_idx_to_name :: "hpack_dht \<Rightarrow> nat \<Rightarrow> bytes option" where
  "hpack_idx_to_name d idx =
     (if idx < HPACK_SHT_SIZE then map_option fst (ld hpack_sht idx)
      else case hpack_get_dte d (u16w (idx - HPACK_SHT_SIZE + 1)) of
        None \<Rightarrow> Some (cstr ''### ERR ###'')
      | Some slot \<Rightarrow> do {
          e \<leftarrow> get_dte d slot;
          let s = hpack_get_name d e;
          p \<leftarrow> ist_ptr s;
          rd (dht_area d) p (ist_len s)
        })"

definition hpack_idx_to_value :: "hpack_dht \<Rightarrow> nat \<Rightarrow> bytes option" where
  "hpack_idx_to_value d idx =
     (if idx < HPACK_SHT_SIZE then map_option snd (ld hpack_sht idx)
      else case hpack_get_dte d (u16w (idx - HPACK_SHT_SIZE + 1)) of
        None \<Rightarrow> Some (cstr ''### ERR ###'')
      | Some slot \<Rightarrow> do {
          e \<leftarrow> get_dte d slot;
          let s = hpack_get_value d e;
          p \<leftarrow> ist_ptr s;
          rd (dht_area d) p (ist_len s)
        })"

definition hpack_dht_get_tail :: "hpack_dht \<Rightarrow> nat" where
  "hpack_dht_get_tail d =
     u32_sub (u32_add ((if dht_head d + 1 < dht_used d then dht_wrap d else 0) + dht_head d) 1) (dht_used d)"

text \<open>The consistency check of the debugging builds, which aborts when the table is damaged.\<close>

fun check_loop :: "hpack_dht \<Rightarrow> nat \<Rightarrow> nat \<Rightarrow> nat \<Rightarrow> nat option" where
  "check_loop d 0 slot tot = Some tot"
| "check_loop d (Suc used2) slot tot = do {
     e \<leftarrow> get_dte d slot;
     let tot = u32_add tot (dte_len e);
     let slot = slot + 1;
     let slot = (if slot \<ge> dht_wrap d then 0 else slot);
     check_loop d used2 slot tot
   }"

definition hpack_dht_check_consistency :: "hpack_dht \<Rightarrow> unit option" where
  "hpack_dht_check_consistency d =
     (let slot = hpack_dht_get_tail d in
      if dht_used d = 0 then Some ()
      else if dht_front d \<ge> dht_wrap d then None
      else if dht_used d > dht_wrap d then None
      else if dht_head d \<ge> dht_wrap d then None
      else do {
        tot \<leftarrow> check_loop d (dht_used d) slot 0;
        if tot \<noteq> dht_total d then None else Some ()
      })"

section \<open>Initialisation and defragmentation\<close>

definition hpack_dht_init :: "hpack_dht \<Rightarrow> nat \<Rightarrow> hpack_dht" where
  "hpack_dht_init d sz = d\<lparr>dht_size := sz, dht_total := 0, dht_used := 0\<rparr>"

text \<open>A fresh block: its descriptors and contents are undefined; the model takes those of the argument.\<close>

definition hpack_dht_alloc :: "hpack_dht option \<Rightarrow> nat \<Rightarrow> hpack_dht option" where
  "hpack_dht_alloc blk pool_size = map_option (\<lambda>d. hpack_dht_init d pool_size) blk"

function defrag_loop :: "hpack_dht \<Rightarrow> nat \<Rightarrow> nat \<Rightarrow> nat \<Rightarrow> hpack_dht \<Rightarrow> (nat \<times> hpack_dht) option" where
  "defrag_loop d old new addr alt = do {
     e \<leftarrow> get_dte d old;
     let addr = u32_sub addr (dte_len e);
     alt \<leftarrow> set_dte alt new \<lparr>dte_addr = addr, dte_nlen = dte_nlen e, dte_vlen = dte_vlen e\<rparr>;
     xs \<leftarrow> rd (dht_area d) (dte_addr e) (dte_len e);
     ar \<leftarrow> wr (dht_area alt) addr xs;
     let alt = alt\<lparr>dht_area := ar\<rparr>;
     let old = (if old + 1 \<ge> dht_wrap d then 0 else old + 1);
     let new = new + 1;
     if new < dht_used d then defrag_loop d old new addr alt else Some (new, alt)
   }"
  by pat_completeness auto
termination
  by (relation "measure (\<lambda>(d, old, new, addr, alt). dht_used d - new)") auto

declare defrag_loop.simps [simp del]

text \<open>\<open>Some None\<close> is a NULL result. All the tables come from one pool, so that the size of a new block is
  that of the table, which is then overwritten with the new one.\<close>

definition hpack_dht_defrag :: "hpack_dht option \<Rightarrow> hpack_dht \<Rightarrow> hpack_dht option option" where
  "hpack_dht_defrag blk d =
     (case hpack_dht_alloc blk (dht_size d) of
        None \<Rightarrow> Some None
      | Some alt \<Rightarrow> do {
          let alt = alt\<lparr>dht_total := dht_total d, dht_used := dht_used d, dht_wrap := dht_used d\<rparr>;
          (new, alt) \<leftarrow> (if dht_used d \<noteq> 0
             then defrag_loop d (u16w (hpack_dht_get_tail d)) 0 (dht_size alt) alt else Some (0, alt));
          let last = u16w (new + 65535);
          Some (Some (alt\<lparr>dht_front := last, dht_head := last\<rparr>))
        })"

section \<open>Making room\<close>

function make_room_loop :: "hpack_dht \<Rightarrow> nat \<Rightarrow> nat \<Rightarrow> nat \<Rightarrow> (nat \<times> hpack_dht) option" where
  "make_room_loop d needed wrap used = do {
     let tail = u32_sub (u32_add ((if dht_head d + 1 < used then wrap else 0) + dht_head d) 1) used;
     e \<leftarrow> get_dte d tail;
     let d = d\<lparr>dht_total := u32_sub (dht_total d) (dte_len e)\<rparr>;
     let d = (if tail = dht_front d then d\<lparr>dht_front := dht_head d\<rparr> else d);
     let used = used - 1;
     if used \<noteq> 0 \<and> u32_add (u32_add (u32_add (used * 32) (dht_total d)) needed) 32 > dht_size d
     then make_room_loop d needed wrap used
     else Some (used, d)
   }"
  by pat_completeness auto
termination by (relation "measure (\<lambda>(d, needed, wrap, used). used)") auto

declare make_room_loop.simps [simp del]

definition raw_hpack_dht_make_room :: "hpack_dht \<Rightarrow> nat \<Rightarrow> (bool \<times> hpack_dht) option" where
  "raw_hpack_dht_make_room d needed = do {
     (used, d) \<leftarrow> make_room_loop d needed (dht_wrap d) (dht_used d);
     let d = d\<lparr>dht_used := used\<rparr>;
     let d = (if used = 0 then d\<lparr>dht_front := 0, dht_head := 0\<rparr> else d);
     let d = (if dht_head d + 1 \<ge> used then d\<lparr>dht_wrap := u16w (dht_head d + 1)\<rparr> else d);
     Some (u32_add needed 32 \<le> dht_size d, d)
   }"

definition hpack_dht_make_room :: "hpack_dht \<Rightarrow> nat \<Rightarrow> (bool \<times> hpack_dht) option" where
  "hpack_dht_make_room d needed =
     (if u32_add (u32_add (u32_add (dht_used d * 32) (dht_total d)) needed) 32 \<le> dht_size d then Some (True, d)
      else if dht_used d = 0 then Some (False, d)
      else raw_hpack_dht_make_room d needed)"

section \<open>Insertion\<close>

text \<open>The end of \<^verbatim>\<open>hpack_dht_insert\<close>, from the label \<^verbatim>\<open>copy\<close>: the name and the value are the strings \<open>n\<close>
  and \<open>v\<close>.\<close>

definition dht_copy :: "hpack_dht \<Rightarrow> nat \<Rightarrow> nat \<Rightarrow> bytes \<Rightarrow> bytes \<Rightarrow> hpack_dht option" where
  "dht_copy d hea addr n v = do {
     let d = d\<lparr>dht_total := u32_add (dht_total d) (length n + length v)\<rparr>;
     d \<leftarrow> set_dte d hea \<lparr>dte_addr = addr, dte_nlen = u16w (length n), dte_vlen = u16w (length v)\<rparr>;
     ar \<leftarrow> wr (dht_area d) addr n;
     ar \<leftarrow> wr ar (addr + length n) v;
     Some (d\<lparr>dht_area := ar\<rparr>)
   }"

text \<open>The choice of the slot: the new head, wrap, the slots \<^verbatim>\<open>prev\<close> and \<^verbatim>\<open>tail\<close>, and the table, which may
  have been defragmented. \<open>Inl\<close> is the error return.\<close>

definition dht_reindex :: "hpack_dht option \<Rightarrow> hpack_dht \<Rightarrow> (int + (hpack_dht \<times> nat \<times> nat \<times> nat \<times> nat)) option" where
  "dht_reindex blk d = do {
     r \<leftarrow> hpack_dht_defrag blk d;
     case r of None \<Rightarrow> Some (Inl (-1))
     | Some d \<Rightarrow> Some (Inr (d, dht_head d + 1, dht_wrap d + 1, dht_head d, 0))
   }"

definition dht_new_head :: "hpack_dht option \<Rightarrow> hpack_dht \<Rightarrow> (int + (hpack_dht \<times> nat \<times> nat \<times> nat \<times> nat)) option" where
  "dht_new_head blk d = do {
     let prev = dht_head d;
     let wrap = dht_wrap d;
     let tail = hpack_dht_get_tail d;
     let used = dht_used d + 1;
     let hea = dht_head d + 1;
     if hea \<ge> wrap then do {
       f \<leftarrow> get_dte d (dht_front d);
       if DHT_HDR + (wrap + 1) * DTE_SIZE \<le> dte_addr f then Some (Inr (d, hea, wrap + 1, prev, tail))
       else if hea \<ge> used then Some (Inr (d, 0, wrap, prev, tail))
       else dht_reindex blk d
     }
     else if used \<ge> wrap then dht_reindex blk d
     else Some (Inr (d, hea, wrap, prev, tail))
   }"

text \<open>The choice of the place of the contents, and the insertion there.\<close>

definition dht_store :: "hpack_dht option \<Rightarrow> hpack_dht \<Rightarrow> nat \<Rightarrow> nat \<Rightarrow> nat \<Rightarrow> nat \<Rightarrow> nat \<Rightarrow> bytes \<Rightarrow> bytes \<Rightarrow> hpack_dht option" where
  "dht_store blk d used hea wrap prev tail n v = do {
     let len = length n + length v;
     f \<leftarrow> get_dte d (dht_front d);
     t \<leftarrow> get_dte d tail;
     p \<leftarrow> get_dte d prev;
     let (headroom, tailroom) =
       (if prev = dht_front d
        then (u32_sub (dte_addr f) (DHT_HDR + wrap * DTE_SIZE),
              u32_sub (u32_sub (dht_size d) (dte_addr t)) (dte_len t))
        else (0, u32_sub (u32_sub (dte_addr p) (dte_addr t)) (dte_len t)));
     (d, hea, wrap, addr) \<leftarrow>
       (if prev = dht_front d \<and> headroom \<ge> len then
          Some (d\<lparr>dht_front := u16w hea\<rparr>, hea, wrap, u32_sub (dte_addr f) len)
        else if tailroom \<ge> len then
          Some (d, hea, wrap, u32_sub (u32_add (u32_add (dte_addr t) (dte_len t)) tailroom) len)
        else do {
          r \<leftarrow> hpack_dht_defrag blk d;
          d \<leftarrow> r;
          f \<leftarrow> get_dte d (dht_front d);
          Some (d\<lparr>dht_front := u16w (dht_head d + 1)\<rparr>, dht_head d + 1, dht_wrap d + 1, u32_sub (dte_addr f) len)
        });
     dht_copy (d\<lparr>dht_wrap := u16w wrap, dht_head := u16w hea, dht_used := u16w used\<rparr>) hea addr n v
   }"

definition hpack_dht_insert :: "hpack_dht option \<Rightarrow> hpack_dht \<Rightarrow> bytes \<Rightarrow> bytes \<Rightarrow> (int \<times> hpack_dht) option" where
  "hpack_dht_insert blk d n v = do {
     let len = length n + length v;
     (ok, d) \<leftarrow> hpack_dht_make_room d (u32_add len 0);
     if \<not> ok then Some (0, d)
     else if dht_used d = 0 then do {
       let d = d\<lparr>dht_front := 0, dht_head := 0, dht_wrap := 1, dht_used := 1, dht_total := 0\<rparr>;
       d \<leftarrow> dht_copy d 0 (u32_sub (dht_size d) len) n v;
       Some (0, d)
     }
     else do {
       let used = dht_used d + 1;
       r \<leftarrow> dht_new_head blk d;
       case r of Inl e \<Rightarrow> Some (e, d)
       | Inr (d, hea, wrap, prev, tail) \<Rightarrow> do {
           d \<leftarrow> dht_store blk d used hea wrap prev tail n v;
           Some (0, d)
         }
     }
   }"

section \<open>The slots in use\<close>

lemma u16w_small [simp]: "x < 65536 \<Longrightarrow> u16w x = x"
  by (simp add: u16w_def)

lemma u32_sub_small: "b \<le> a \<Longrightarrow> a < 4294967296 \<Longrightarrow> u32_sub a b = a - b"
proof -
  assume le: "b \<le> a" and a: "a < 4294967296"
  then have "a + 4294967296 - b = (a - b) + 4294967296" by linarith
  then have "u32_sub a b = (a - b) mod 4294967296" by (simp only: u32_sub_def mod_add_self2)
  then show ?thesis using a by simp
qed

lemma u32_add_small: "a + b < 4294967296 \<Longrightarrow> u32_add a b = a + b"
  by (simp add: u32_add_def)

lemmas u32_small = u32_add_small u32_sub_small

text \<open>The slots from the newest entry to the oldest one, as \<^verbatim>\<open>hpack_get_dte\<close> numbers them.\<close>

definition slot_at :: "nat \<Rightarrow> nat \<Rightarrow> nat \<Rightarrow> nat" where
  "slot_at h w i = (if i \<le> h then h - i else h + w - i)"

definition slots :: "nat \<Rightarrow> nat \<Rightarrow> nat \<Rightarrow> nat list" where
  "slots h w u = map (slot_at h w) [0..<u]"

definition slot_next :: "nat \<Rightarrow> nat \<Rightarrow> nat" where
  "slot_next w s = (if s + 1 \<ge> w then 0 else s + 1)"

lemma length_slots [simp]: "length (slots h w u) = u"
  by (simp add: slots_def)

lemma slots_0 [simp]: "slots h w 0 = []"
  by (simp add: slots_def)

lemma slots_Suc: "slots h w (Suc u) = slots h w u @ [slot_at h w u]"
  by (simp add: slots_def)

lemma slot_at_less: "h < w \<Longrightarrow> i < w \<Longrightarrow> slot_at h w i < w"
  by (auto simp: slot_at_def)

lemma slots_less: "h < w \<Longrightarrow> u \<le> w \<Longrightarrow> s \<in> set (slots h w u) \<Longrightarrow> s < w"
  by (auto simp: slots_def intro!: slot_at_less)

lemma slot_at_inj: "h < w \<Longrightarrow> i < w \<Longrightarrow> j < w \<Longrightarrow> slot_at h w i = slot_at h w j \<Longrightarrow> i = j"
  by (auto simp: slot_at_def split: if_splits)

lemma distinct_slots: "h < w \<Longrightarrow> u \<le> w \<Longrightarrow> distinct (slots h w u)"
  by (auto simp: slots_def distinct_map intro!: inj_onI dest!: slot_at_inj)

lemma slots_next: "h < w \<Longrightarrow> Suc i < w \<Longrightarrow> slot_next w (slot_at h w (Suc i)) = slot_at h w i"
  by (auto simp: slot_at_def slot_next_def)

text \<open>The slots after an insertion: a new head after the previous one, in a wrapped index or in one that
  is extended, or the first slot when the previous head was in the last one.\<close>

lemma slots_push: "h + 1 < w' \<Longrightarrow> u \<le> h + 1 \<or> w' = w \<Longrightarrow> slots (h + 1) w' (Suc u) = (h + 1) # slots h w u"
  by (auto simp: slots_def slot_at_def upt_conv_Cons map_Suc_upt [symmetric] simp del: upt_Suc map_Suc_upt)

lemma slots_push_0: "u \<le> h + 1 \<Longrightarrow> slots 0 (h + 1) (Suc u) = 0 # slots h (h + 1) u"
  by (auto simp: slots_def slot_at_def upt_conv_Cons map_Suc_upt [symmetric] simp del: upt_Suc map_Suc_upt)

lemma slots_unwrapped: "u \<le> h + 1 \<Longrightarrow> slots h w u = slots h w' u"
  by (auto simp: slots_def slot_at_def)

lemma slots_packed: "slots (u - 1) u u = rev [0..<u]"
  by (intro nth_equalityI) (auto simp: slots_def slot_at_def rev_nth simp del: upt_Suc)

lemma tail_eq:
  assumes "h < w" and "u \<le> w" and "0 < u" and "w < 65536"
  shows "u32_sub (u32_add ((if h + 1 < u then w else 0) + h) 1) u = slot_at h w (u - 1)"
  using assms by (auto simp: u32_small slot_at_def)

section \<open>The layout of the contents\<close>

text \<open>Entries laid out from \<open>hi\<close> downwards without overlap and above \<open>lo\<close>.\<close>

fun laid :: "nat \<Rightarrow> hpack_dte list \<Rightarrow> nat \<Rightarrow> bool" where
  "laid hi [] lo = (lo \<le> hi)"
| "laid hi (e # es) lo = (dte_addr e + dte_len e \<le> hi \<and> laid (dte_addr e) es lo)"

lemma laid_mono: "laid hi es lo \<Longrightarrow> hi \<le> hi' \<Longrightarrow> lo' \<le> lo \<Longrightarrow> laid hi' es lo'"
  by (induction es arbitrary: hi hi') fastforce+

lemma laid_le: "laid hi es lo \<Longrightarrow> lo \<le> hi"
  by (induction es arbitrary: hi) fastforce+

lemma laid_append: "laid hi (xs @ ys) lo \<longleftrightarrow> (\<exists>mid. laid hi xs mid \<and> laid mid ys lo)"
proof (induction xs arbitrary: hi)
  case Nil
  then show ?case using laid_mono by (fastforce intro: exI [of _ hi])
qed auto

lemma laid_bounds: "laid hi es lo \<Longrightarrow> e \<in> set es \<Longrightarrow> lo \<le> dte_addr e \<and> dte_addr e + dte_len e \<le> hi"
  by (induction es arbitrary: hi) (fastforce dest: laid_le)+

definition dte_raw :: "bytes \<Rightarrow> hpack_dte \<Rightarrow> bytes" where
  "dte_raw m e = take (dte_len e) (drop (dte_addr e) m)"

definition dte_hdr :: "bytes \<Rightarrow> hpack_dte \<Rightarrow> bytes \<times> bytes" where
  "dte_hdr m e = (take (dte_nlen e) (dte_raw m e), drop (dte_nlen e) (dte_raw m e))"

text \<open>A write below or above an entry does not change it.\<close>

lemma dte_raw_blit:
  assumes "a + length xs \<le> length m" and "dte_addr e + dte_len e \<le> a \<or> a + length xs \<le> dte_addr e"
    and "dte_addr e + dte_len e \<le> length m"
  shows "dte_raw (blit m a xs) e = dte_raw m e"
  using assms by (intro nth_equalityI) (auto simp: dte_raw_def nth_blit)

lemma dte_raw_blit_same: "a + length xs \<le> length m \<Longrightarrow> dte_addr e = a \<Longrightarrow> dte_len e = length xs \<Longrightarrow>
    dte_raw (blit m a xs) e = xs"
  by (intro nth_equalityI) (auto simp: dte_raw_def nth_blit)


section \<open>The invariant\<close>

definition dht_slots :: "hpack_dht \<Rightarrow> nat list" where
  "dht_slots d = slots (dht_head d) (dht_wrap d) (dht_used d)"

definition dht_entries :: "hpack_dht \<Rightarrow> hpack_dte list" where
  "dht_entries d = map (\<lambda>s. dht_dte d ! s) (dht_slots d)"

text \<open>The headers of the table, newest first.\<close>

definition dht_list :: "hpack_dht \<Rightarrow> (bytes \<times> bytes) list" where
  "dht_list d = map (dte_hdr (dht_area d)) (dht_entries d)"

text \<open>\<open>dht_fits\<close>: a block of less than 64 kB whose descriptors and contents have the sizes that it gives
  them. \<open>dht_geom\<close>: the entries, oldest first, are in two runs. The contents of the second run, if it is
  not empty, are at the end of the block, those of the first run below, the newest entry of the first
  run, which is the front, next to the descriptors.\<close>

definition dht_fits :: "hpack_dht \<Rightarrow> bool" where
  "dht_fits d \<longleftrightarrow> 16 \<le> dht_size d \<and> dht_size d < 65536 \<and> length (dht_area d) = dht_size d \<and>
     length (dht_dte d) = (dht_size d - 16) div 8"

definition dht_geom :: "hpack_dht \<Rightarrow> bool" where
  "dht_geom d \<longleftrightarrow> dht_head d < dht_wrap d \<and> dht_used d \<le> dht_wrap d \<and> 0 < dht_used d \<and>
     (\<exists>ss1 ss2. rev (dht_slots d) = ss1 @ ss2 \<and> ss1 \<noteq> [] \<and> last ss1 = dht_front d \<and>
        laid (dht_size d) (map (\<lambda>s. dht_dte d ! s) (ss2 @ ss1)) (16 + 8 * dht_wrap d))"

definition dht_wf :: "hpack_dht \<Rightarrow> bool" where
  "dht_wf d \<longleftrightarrow> dht_fits d \<and> dht_total d = sum_list (map dte_len (dht_entries d)) \<and>
     dht_used d * 32 + dht_total d \<le> dht_size d \<and> (dht_used d \<noteq> 0 \<longrightarrow> dht_geom d)"

lemma geom_bounds:
  assumes "dht_geom d" and "dht_fits d"
  shows "\<And>s. s \<in> set (dht_slots d) \<Longrightarrow> s < dht_wrap d" and "dht_wrap d \<le> length (dht_dte d)"
    and "dht_wrap d < 65536" and "dht_front d \<in> set (dht_slots d)"
    and "\<And>e. e \<in> set (dht_entries d) \<Longrightarrow> 16 + 8 * dht_wrap d \<le> dte_addr e \<and> dte_addr e + dte_len e \<le> dht_size d"
proof -
  obtain ss1 ss2 where g: "rev (dht_slots d) = ss1 @ ss2" "ss1 \<noteq> []" "last ss1 = dht_front d"
    "laid (dht_size d) (map (\<lambda>s. dht_dte d ! s) (ss2 @ ss1)) (16 + 8 * dht_wrap d)"
    using assms(1) by (auto simp: dht_geom_def)
  show "\<And>s. s \<in> set (dht_slots d) \<Longrightarrow> s < dht_wrap d"
    using assms(1) slots_less by (auto simp: dht_geom_def dht_slots_def)
  have le: "16 + 8 * dht_wrap d \<le> dht_size d" using laid_le [OF g(4)] .
  then show "dht_wrap d \<le> length (dht_dte d)" and "dht_wrap d < 65536" using assms(2) by (auto simp: dht_fits_def)
  have set: "set (dht_slots d) = set ss1 \<union> set ss2" using arg_cong [OF g(1), of set] by simp
  then show "dht_front d \<in> set (dht_slots d)" using g(2,3) last_in_set by fastforce
  show "\<And>e. e \<in> set (dht_entries d) \<Longrightarrow> 16 + 8 * dht_wrap d \<le> dte_addr e \<and> dte_addr e + dte_len e \<le> dht_size d"
    using laid_bounds [OF g(4)] set by (auto simp: dht_entries_def)
qed

lemma length_dht_slots [simp]: "length (dht_slots d) = dht_used d" "length (dht_entries d) = dht_used d"
    "length (dht_list d) = dht_used d"
  by (simp_all add: dht_slots_def dht_entries_def dht_list_def)

section \<open>Defragmentation\<close>

fun pack :: "nat \<Rightarrow> hpack_dte list \<Rightarrow> hpack_dte list" where
  "pack hi [] = []"
| "pack hi (e # es) = e\<lparr>dte_addr := hi - dte_len e\<rparr> # pack (hi - dte_len e) es"

lemma length_pack [simp]: "length (pack hi es) = length es"
  by (induction es arbitrary: hi) auto

lemma pack_len [simp]: "dte_len (e\<lparr>dte_addr := a\<rparr>) = dte_len e"
  by (simp add: dte_len_def)

lemma map_pack_len [simp]: "map dte_len (pack hi es) = map dte_len es"
    "map dte_nlen (pack hi es) = map dte_nlen es"
  by (induction es arbitrary: hi) auto

lemma pack_nth_nlen: "i < length es \<Longrightarrow> dte_nlen (pack hi es ! i) = dte_nlen (es ! i)"
proof (induction es arbitrary: hi i)
  case (Cons e es)
  then show ?case by (cases i) auto
qed simp

lemma laid_pack: "sum_list (map dte_len es) \<le> hi \<Longrightarrow> laid hi (pack hi es) (hi - sum_list (map dte_len es))"
proof (induction es arbitrary: hi)
  case (Cons e es)
  then show ?case using Cons.IH [of "hi - dte_len e"] by simp
qed simp

lemma defrag_loop_eq:
  assumes "dht_size d < 65536" and "length (dht_area d) = dht_size d"
  shows "\<lbrakk> successively (\<lambda>a b. b = slot_next (dht_wrap d) a) ss; ss \<noteq> []; new + length ss = dht_used d;
      \<forall>s \<in> set ss. s < length (dht_dte d) \<and> dte_addr (dht_dte d ! s) + dte_len (dht_dte d ! s) \<le> dht_size d;
      sum_list (map (\<lambda>s. dte_len (dht_dte d ! s)) ss) \<le> addr; addr \<le> length (dht_area alt); addr < 65536;
      dht_used d \<le> length (dht_dte alt) \<rbrakk> \<Longrightarrow>
    \<exists>ar. defrag_loop d (hd ss) new addr alt = Some (dht_used d,
        alt\<lparr>dht_dte := blit (dht_dte alt) new (pack addr (map (\<lambda>s. dht_dte d ! s) ss)), dht_area := ar\<rparr>) \<and>
      length ar = length (dht_area alt) \<and> (\<forall>i. addr \<le> i \<longrightarrow> i < length ar \<longrightarrow> ar ! i = dht_area alt ! i) \<and>
      map (dte_raw ar) (pack addr (map (\<lambda>s. dht_dte d ! s) ss)) = map (\<lambda>s. dte_raw (dht_area d) (dht_dte d ! s)) ss"
proof (induction ss arbitrary: new addr alt)
  case (Cons s ss)
  define e where "e = dht_dte d ! s"
  define a where "a = addr - dte_len e"
  have e: "get_dte d s = Some e" "dte_addr e + dte_len e \<le> dht_size d"
    using Cons.prems(4) by (auto simp: get_dte_def ld_def e_def)
  have le: "dte_len e \<le> addr" "u32_sub addr (dte_len e) = a"
    using Cons.prems(5,7) by (auto simp: e_def a_def u32_small)
  let ?e = "\<lparr>dte_addr = a, dte_nlen = dte_nlen e, dte_vlen = dte_vlen e\<rparr>"
  let ?xs = "dte_raw (dht_area d) e"
  have ee: "?e = e\<lparr>dte_addr := a\<rparr>" by simp
  have rd: "rd (dht_area d) (dte_addr e) (dte_len e) = Some ?xs" using e(2) assms(2) by (simp add: rd_def dte_raw_def)
  have lx: "length ?xs = dte_len e" using e(2) assms(2) by (simp add: dte_raw_def)
  have st: "set_dte alt new ?e = Some (alt\<lparr>dht_dte := (dht_dte alt)[new := ?e]\<rparr>)"
    using Cons.prems(3,8) by (simp add: set_dte_def st_def)
  let ?ar = "blit (dht_area alt) a ?xs"
  have wr: "wr (dht_area alt) a ?xs = Some ?ar" "a + dte_len e = addr" "length ?ar = length (dht_area alt)"
    using le Cons.prems(6) lx by (simp_all add: wr_def a_def)
  let ?alt = "alt\<lparr>dht_dte := (dht_dte alt)[new := ?e], dht_area := ?ar\<rparr>"
  have raw: "dte_raw ?ar (e\<lparr>dte_addr := a\<rparr>) = ?xs" using wr(2) lx Cons.prems(6) by (intro dte_raw_blit_same) auto
  have step: "defrag_loop d s new addr alt = (if new + 1 < dht_used d
      then defrag_loop d (slot_next (dht_wrap d) s) (new + 1) a ?alt else Some (new + 1, ?alt))"
    using e(1) le(2) st rd wr(1) by (subst defrag_loop.simps) (simp add: Let_def slot_next_def)
  have keep: "\<forall>i. addr \<le> i \<longrightarrow> i < length (dht_area alt) \<longrightarrow> ?ar ! i = dht_area alt ! i"
    using wr(2) lx Cons.prems(6) by (auto simp: nth_blit)
  show ?case
  proof (cases ss)
    case Nil
    have "blit (dht_dte alt) new [e\<lparr>dte_addr := a\<rparr>] = (dht_dte alt)[new := ?e]"
      using Cons.prems(3,8) by (simp add: blit_single ee)
    then show ?thesis using Nil step Cons.prems(3) keep raw wr(3)
      by (intro exI [of _ ?ar]) (simp add: e_def [symmetric] a_def [symmetric])
  next
    case (Cons s2 ss2)
    have nx: "slot_next (dht_wrap d) s = hd ss" "new + 1 < dht_used d"
      using Cons.prems(1,3) Cons by auto
    have "\<exists>ar. defrag_loop d (hd ss) (new + 1) a ?alt = Some (dht_used d,
        ?alt\<lparr>dht_dte := blit (dht_dte ?alt) (new + 1) (pack a (map (\<lambda>s. dht_dte d ! s) ss)), dht_area := ar\<rparr>) \<and>
      length ar = length (dht_area ?alt) \<and> (\<forall>i. a \<le> i \<longrightarrow> i < length ar \<longrightarrow> ar ! i = dht_area ?alt ! i) \<and>
      map (dte_raw ar) (pack a (map (\<lambda>s. dht_dte d ! s) ss)) = map (\<lambda>s. dte_raw (dht_area d) (dht_dte d ! s)) ss"
      by (rule Cons.IH) (use Cons Cons.prems le wr(3) in \<open>auto simp: a_def e_def\<close>)
    then obtain ar where ar: "defrag_loop d (hd ss) (new + 1) a ?alt = Some (dht_used d,
        ?alt\<lparr>dht_dte := blit (dht_dte ?alt) (new + 1) (pack a (map (\<lambda>s. dht_dte d ! s) ss)), dht_area := ar\<rparr>)"
      "length ar = length (dht_area alt)" "\<forall>i. a \<le> i \<longrightarrow> i < length ar \<longrightarrow> ar ! i = ?ar ! i"
      "map (dte_raw ar) (pack a (map (\<lambda>s. dht_dte d ! s) ss)) = map (\<lambda>s. dte_raw (dht_area d) (dht_dte d ! s)) ss"
      using wr(3) by auto
    have "dte_raw ar (e\<lparr>dte_addr := a\<rparr>) = dte_raw ?ar (e\<lparr>dte_addr := a\<rparr>)"
      using ar(2,3) wr(2,3) Cons.prems(6) by (intro nth_equalityI) (auto simp: dte_raw_def)
    moreover have "blit ((dht_dte alt)[new := ?e]) (new + 1) (pack a (map (\<lambda>s. dht_dte d ! s) ss)) =
        blit (dht_dte alt) new (?e # pack a (map (\<lambda>s. dht_dte d ! s) ss))"
      using Cons.prems(3,8) by (intro nth_equalityI) (auto simp: nth_blit nth_list_update nth_Cons')
    moreover have "\<forall>i. addr \<le> i \<longrightarrow> i < length ar \<longrightarrow> ar ! i = dht_area alt ! i"
      using ar(2,3) keep wr(2) by auto
    ultimately show ?thesis using step nx ar raw ee
      by (intro exI [of _ ar]) (simp add: e_def [symmetric] a_def [symmetric])
  qed
qed simp


lemma dte_hdr_cong: "dte_nlen e = dte_nlen e' \<Longrightarrow> dte_raw m e = dte_raw m' e' \<Longrightarrow> dte_hdr m e = dte_hdr m' e'"
  by (simp add: dte_hdr_def)

lemma successively_slots:
  assumes "h < w" and "u \<le> w"
  shows "successively (\<lambda>a b. b = slot_next w a) (rev (slots h w u))"
  using assms(2)
proof (induction u)
  case (Suc u)
  then show ?case using slots_next [OF assms(1), of "u - 1"]
    by (cases u) (auto simp: slots_Suc successively_Cons)
qed (simp add: slots_def)

text \<open>A fresh block that has the size of the table.\<close>

definition blk_ok :: "hpack_dht \<Rightarrow> hpack_dht \<Rightarrow> bool" where
  "blk_ok d b \<longleftrightarrow> length (dht_area b) = dht_size d \<and> length (dht_dte b) = (dht_size d - 16) div 8"

text \<open>The defragmented table has the same headers, its entries in the first slots and its contents at
  the end of the block.\<close>

lemma hpack_dht_defrag_eq:
  assumes wf: "dht_wf d" and u: "0 < dht_used d" and b: "blk_ok d b"
  shows "\<exists>d'. hpack_dht_defrag (Some b) d = Some (Some d') \<and> dht_wf d' \<and> dht_list d' = dht_list d \<and>
    dht_size d' = dht_size d \<and> dht_used d' = dht_used d \<and> dht_total d' = dht_total d \<and> dht_wrap d' = dht_used d \<and>
    dht_head d' = dht_used d - 1 \<and> dht_front d' = dht_used d - 1 \<and>
    laid (dht_size d) (map (\<lambda>s. dht_dte d' ! s) [0..<dht_used d]) (dht_size d - dht_total d)"
proof -
  let ?u = "dht_used d" and ?ss = "rev (dht_slots d)" and ?S = "dht_size d"
  have fit: "dht_fits d" and geo: "dht_geom d" and tot: "dht_total d = sum_list (map dte_len (dht_entries d))"
    and room: "?u * 32 + dht_total d \<le> ?S" using wf u by (auto simp: dht_wf_def)
  note gb = geom_bounds [OF geo fit]
  have hw: "dht_head d < dht_wrap d" "?u \<le> dht_wrap d" using geo by (auto simp: dht_geom_def)
  let ?es = "map (\<lambda>s. dht_dte d ! s) ?ss"
  have es: "?es = rev (dht_entries d)" by (simp add: dht_entries_def rev_map)
  have sum: "sum_list (map (\<lambda>s. dte_len (dht_dte d ! s)) ?ss) = dht_total d"
    by (simp add: tot dht_entries_def rev_map [symmetric] comp_def)
  have tl: "u16w (hpack_dht_get_tail d) = hd ?ss"
  proof -
    have "hpack_dht_get_tail d = slot_at (dht_head d) (dht_wrap d) (?u - 1)"
      using tail_eq [OF hw u gb(3)] by (simp add: hpack_dht_get_tail_def)
    moreover have "hd ?ss = slot_at (dht_head d) (dht_wrap d) (?u - 1)"
      using u by (cases ?u) (simp_all add: dht_slots_def slots_Suc)
    moreover have "slot_at (dht_head d) (dht_wrap d) (?u - 1) < 65536"
      using slot_at_less [OF hw(1), of "?u - 1"] hw(2) u gb(3) by linarith
    ultimately show ?thesis by simp
  qed
  define alt where "alt = (hpack_dht_init b ?S)\<lparr>dht_total := dht_total d, dht_used := ?u, dht_wrap := ?u\<rparr>"
  have alt: "dht_area alt = dht_area b" "dht_dte alt = dht_dte b" "dht_size alt = ?S"
    by (simp_all add: alt_def hpack_dht_init_def)
  have ul: "?u \<le> length (dht_dte b)" using room b u hw gb(2) fit by (auto simp: blk_ok_def dht_fits_def)
  have "\<exists>ar. defrag_loop d (hd ?ss) 0 ?S alt = Some (?u, alt\<lparr>dht_dte := blit (dht_dte alt) 0 (pack ?S ?es), dht_area := ar\<rparr>) \<and>
      length ar = length (dht_area alt) \<and> (\<forall>i. ?S \<le> i \<longrightarrow> i < length ar \<longrightarrow> ar ! i = dht_area alt ! i) \<and>
      map (dte_raw ar) (pack ?S ?es) = map (\<lambda>s. dte_raw (dht_area d) (dht_dte d ! s)) ?ss"
  proof (rule defrag_loop_eq)
    show "successively (\<lambda>a b. b = slot_next (dht_wrap d) a) ?ss"
      using successively_slots [OF hw] by (simp add: dht_slots_def)
    show "\<forall>s \<in> set ?ss. s < length (dht_dte d) \<and> dte_addr (dht_dte d ! s) + dte_len (dht_dte d ! s) \<le> ?S"
      using gb(1,2,5) by (fastforce simp: dht_entries_def)
    show "?ss \<noteq> []" using u by (metis length_0_conv length_rev length_dht_slots(1) less_numeral_extra(3))
  qed (use fit b sum room ul alt in \<open>auto simp: dht_fits_def blk_ok_def\<close>)
  then obtain ar where ar: "defrag_loop d (hd ?ss) 0 ?S alt = Some (?u, alt\<lparr>dht_dte := blit (dht_dte alt) 0 (pack ?S ?es), dht_area := ar\<rparr>)"
    "length ar = ?S" "map (dte_raw ar) (pack ?S ?es) = map (\<lambda>s. dte_raw (dht_area d) (dht_dte d ! s)) ?ss"
    using b alt by (auto simp: blk_ok_def)
  define d' where "d' = alt\<lparr>dht_dte := blit (dht_dte alt) 0 (pack ?S ?es), dht_area := ar, dht_front := ?u - 1, dht_head := ?u - 1\<rparr>"
  have small: "?u < 65536" using hw(2) gb(3) by linarith
  have "u16w (?u + 65535) = ?u - 1"
  proof -
    have "?u + 65535 = (?u - 1) + 65536" using u by linarith
    then have "u16w (?u + 65535) = (?u - 1) mod 65536" by (simp only: u16w_def mod_add_self2)
    then show ?thesis using small by simp
  qed
  then have res: "hpack_dht_defrag (Some b) d = Some (Some d')"
    using ar(1) u tl by (simp add: hpack_dht_defrag_def hpack_dht_alloc_def alt_def [symmetric] alt(3) Let_def d'_def)
  have sl: "dht_slots d' = rev [0..<?u]" using slots_packed [of ?u] by (simp add: dht_slots_def d'_def alt_def)
  have nth: "map (\<lambda>s. dht_dte d' ! s) [0..<?u] = pack ?S ?es"
    using ul alt by (intro nth_equalityI) (auto simp: d'_def nth_blit)
  then have en: "dht_entries d' = rev (pack ?S ?es)" unfolding dht_entries_def sl by (simp only: rev_map [symmetric])
  have ld: "laid ?S (pack ?S ?es) (?S - dht_total d)"
    using laid_pack [of ?es ?S] sum room by (simp add: comp_def)
  have hdrs: "map (dte_hdr ar) (pack ?S ?es) = map (dte_hdr (dht_area d)) ?es"
  proof (rule nth_equalityI)
    fix i assume "i < length (map (dte_hdr ar) (pack ?S ?es))"
    then have i: "i < length ?es" by simp
    have "dte_nlen (pack ?S ?es ! i) = dte_nlen (?es ! i)"
      using i by (rule pack_nth_nlen)
    moreover have "dte_raw ar (pack ?S ?es ! i) = dte_raw (dht_area d) (?es ! i)"
      using arg_cong [OF ar(3), of "\<lambda>xs. xs ! i"] i by simp
    ultimately have "dte_hdr ar (pack ?S ?es ! i) = dte_hdr (dht_area d) (?es ! i)" by (rule dte_hdr_cong)
    then show "map (dte_hdr ar) (pack ?S ?es) ! i = map (dte_hdr (dht_area d)) ?es ! i" using i by simp
  qed simp
  have lst: "dht_list d' = dht_list d"
  proof -
    have "dht_list d' = rev (map (dte_hdr ar) (pack ?S ?es))" unfolding dht_list_def en by (simp add: d'_def rev_map)
    also have "\<dots> = dht_list d" unfolding hdrs by (simp add: dht_list_def es rev_map)
    finally show ?thesis .
  qed
  have sel: "dht_size d' = ?S" "dht_used d' = ?u" "dht_total d' = dht_total d" "dht_wrap d' = ?u"
    "dht_head d' = ?u - 1" "dht_front d' = ?u - 1" "dht_area d' = ar"
    by (simp_all add: d'_def alt_def hpack_dht_init_def)
  have "laid ?S (map (\<lambda>s. dht_dte d' ! s) ([] @ [0..<?u])) (16 + 8 * ?u)"
    unfolding append_Nil nth using laid_mono [OF ld order_refl, of "16 + 8 * ?u"] room u by simp
  then have "\<exists>ss1 ss2. rev (dht_slots d') = ss1 @ ss2 \<and> ss1 \<noteq> [] \<and> last ss1 = dht_front d' \<and>
      laid ?S (map (\<lambda>s. dht_dte d' ! s) (ss2 @ ss1)) (16 + 8 * ?u)"
    unfolding sl sel using u by (rule_tac exI [of _ "[0..<?u]"], rule_tac exI [of _ "[]"]) simp
  then have geo': "dht_geom d'" unfolding dht_geom_def sel using u by simp
  have "dht_wf d'" unfolding dht_wf_def
  proof (intro conjI impI)
    show "dht_fits d'" using fit b ar(2) alt ul es by (simp add: dht_fits_def sel blk_ok_def) (simp add: d'_def)
    show "dht_total d' = sum_list (map dte_len (dht_entries d'))"
    proof -
      have "sum_list (map dte_len (dht_entries d')) = sum_list (map dte_len ?es)"
        unfolding en by (simp only: rev_map [symmetric] sum_list_rev map_pack_len)
      also have "\<dots> = sum_list (map dte_len (dht_entries d))" unfolding es by (simp only: rev_map [symmetric] sum_list_rev)
      finally show ?thesis using tot sel by simp
    qed
  qed (use geo' room sel in simp_all)
  then show ?thesis using res lst sel nth ld by simp
qed


section \<open>Evictions\<close>

text \<open>The size of a table as the protocol counts it, and the eviction of the oldest headers until a new
  one fits.\<close>

definition hdr_size :: "(bytes \<times> bytes) list \<Rightarrow> nat" where
  "hdr_size hs = sum_list (map (\<lambda>(n, v). length n + length v + 32) hs)"

function evict :: "nat \<Rightarrow> nat \<Rightarrow> (bytes \<times> bytes) list \<Rightarrow> (bytes \<times> bytes) list" where
  "evict sz needed hs = (if hs = [] \<or> hdr_size hs + needed + 32 \<le> sz then hs else evict sz needed (butlast hs))"
  by pat_completeness auto
termination by (relation "measure (\<lambda>(sz, needed, hs). length hs)") auto

declare evict.simps [simp del]

text \<open>One eviction: the oldest entry is forgotten. When it was the front, the second run becomes the
  first one.\<close>

lemma geom_evict:
  assumes geo: "dht_geom d" and fit: "dht_fits d" and u: "dht_used d = Suc u" "0 < u"
    and t: "t = slot_at (dht_head d) (dht_wrap d) u"
  shows "dht_geom (d\<lparr>dht_front := (if t = dht_front d then dht_head d else dht_front d), dht_used := u\<rparr>)"
    (is "dht_geom ?d")
proof -
  obtain ss1 ss2 where g: "rev (dht_slots d) = ss1 @ ss2" "ss1 \<noteq> []" "last ss1 = dht_front d"
    "laid (dht_size d) (map (\<lambda>s. dht_dte d ! s) (ss2 @ ss1)) (16 + 8 * dht_wrap d)"
    using geo by (auto simp: dht_geom_def)
  have hw: "dht_head d < dht_wrap d" "Suc u \<le> dht_wrap d" using geo u by (auto simp: dht_geom_def)
  have rs: "rev (dht_slots d) = t # rev (dht_slots ?d)" by (simp add: dht_slots_def u t slots_Suc)
  then obtain ss1' where s1: "ss1 = t # ss1'" using g(1,2) by (cases ss1) auto
  have rest: "rev (dht_slots ?d) = ss1' @ ss2" using rs g(1) s1 by simp
  have dist: "distinct (rev (dht_slots d))" using distinct_slots [OF hw] by (simp add: dht_slots_def u)
  have head: "last (rev (dht_slots ?d)) = dht_head d"
    using u(2) by (simp add: dht_slots_def last_rev slots_def slot_at_def hd_map)
  have "\<exists>ss1 ss2. rev (dht_slots ?d) = ss1 @ ss2 \<and> ss1 \<noteq> [] \<and> last ss1 = dht_front ?d \<and>
      laid (dht_size d) (map (\<lambda>s. dht_dte d ! s) (ss2 @ ss1)) (16 + 8 * dht_wrap d)"
  proof (cases "ss1' = []")
    case True
    then have "t = dht_front d" using g(3) s1 by simp
    moreover have "ss2 \<noteq> []" using arg_cong [OF rest, of length] True u(2) by auto
    moreover have "laid (dht_size d) (map (\<lambda>s. dht_dte d ! s) ss2) (16 + 8 * dht_wrap d)"
      using g(4) s1 True laid_mono by (auto simp: laid_append)
    ultimately show ?thesis using rest True head by (rule_tac exI [of _ ss2], rule_tac exI [of _ "[]"]) simp
  next
    case False
    then have "last ss1 \<in> set ss1'" using s1 last_in_set by simp
    then have "t \<noteq> dht_front d" using dist g(3) s1 rs rest by auto
    moreover have "laid (dht_size d) (map (\<lambda>s. dht_dte d ! s) (ss2 @ ss1')) (16 + 8 * dht_wrap d)"
      using g(4) unfolding s1 by (auto simp: laid_append) (metis laid_mono add_leD1 order_refl)
    ultimately show ?thesis using rest False g(3) s1 by (rule_tac exI [of _ ss1'], rule_tac exI [of _ ss2]) simp
  qed
  then show ?thesis using hw u(2) by (simp add: dht_geom_def)
qed


lemma dht_list_evict:
  "dht_slots (d\<lparr>dht_total := t, dht_front := f, dht_used := u\<rparr>) = butlast (dht_slots (d\<lparr>dht_used := Suc u\<rparr>))"
  "dht_entries (d\<lparr>dht_total := t, dht_front := f, dht_used := u\<rparr>) = butlast (dht_entries (d\<lparr>dht_used := Suc u\<rparr>))"
  "dht_list (d\<lparr>dht_total := t, dht_front := f, dht_used := u\<rparr>) = butlast (dht_list (d\<lparr>dht_used := Suc u\<rparr>))"
  by (simp_all add: dht_slots_def dht_entries_def dht_list_def slots_Suc)

lemma length_dte_hdr:
  "dte_addr e + dte_len e \<le> length m \<Longrightarrow> length (fst (dte_hdr m e)) = dte_nlen e \<and> length (snd (dte_hdr m e)) = dte_vlen e"
  by (simp add: dte_hdr_def dte_raw_def dte_len_def)

lemma hdr_size_list:
  assumes "dht_wf d"
  shows "hdr_size (dht_list d) = dht_used d * 32 + dht_total d"
proof -
  have "\<forall>e \<in> set (dht_entries d). length (fst (dte_hdr (dht_area d) e)) + length (snd (dte_hdr (dht_area d) e)) = dte_len e"
  proof
    fix e assume e: "e \<in> set (dht_entries d)"
    then have "dht_used d \<noteq> 0" by (metis length_dht_slots(2) length_0_conv empty_iff empty_set)
    then have "dte_addr e + dte_len e \<le> length (dht_area d)"
      using geom_bounds(5) [OF _ _ e] assms by (auto simp: dht_wf_def dht_fits_def)
    then show "length (fst (dte_hdr (dht_area d) e)) + length (snd (dte_hdr (dht_area d) e)) = dte_len e"
      using length_dte_hdr [of e "dht_area d"] by (simp add: dte_len_def)
  qed
  then have "hdr_size (dht_list d) = sum_list (map (\<lambda>e. dte_len e + 32) (dht_entries d))"
    by (simp add: hdr_size_def dht_list_def case_prod_beta comp_def cong: map_cong)
  also have "\<dots> = sum_list (map dte_len (dht_entries d)) + 32 * length (dht_entries d)"
    by (induction "dht_entries d" rule: list.induct) (simp_all add: sum_list_addf sum_list_triv)
  finally show ?thesis using assms by (simp add: dht_wf_def)
qed

lemma make_room_loop_eq:
  "\<lbrakk> dht_wf (d\<lparr>dht_used := u\<rparr>); 0 < u; needed < 1073741824 \<rbrakk> \<Longrightarrow>
   \<exists>u' f t. make_room_loop d needed (dht_wrap d) u = Some (u', d\<lparr>dht_total := t, dht_front := f\<rparr>) \<and>
     dht_wf (d\<lparr>dht_total := t, dht_front := f, dht_used := u'\<rparr>) \<and>
     (u' = 0 \<or> u' * 32 + t + needed + 32 \<le> dht_size d) \<and>
     dht_list (d\<lparr>dht_total := t, dht_front := f, dht_used := u'\<rparr>) =
       evict (dht_size d) needed (butlast (dht_list (d\<lparr>dht_used := u\<rparr>)))"
proof (induction u arbitrary: d)
  case (Suc u)
  let ?d0 = "d\<lparr>dht_used := Suc u\<rparr>"
  have fit: "dht_fits ?d0" and geo: "dht_geom ?d0" and tot: "dht_total d = sum_list (map dte_len (dht_entries ?d0))"
    and room: "Suc u * 32 + dht_total d \<le> dht_size d" using Suc.prems(1) by (auto simp: dht_wf_def)
  have hw: "dht_head d < dht_wrap d" "Suc u \<le> dht_wrap d" using geo by (auto simp: dht_geom_def)
  note gb = geom_bounds [OF geo fit]
  define t where "t = slot_at (dht_head d) (dht_wrap d) u"
  define e where "e = dht_dte d ! t"
  have tail: "u32_sub (u32_add ((if dht_head d + 1 < Suc u then dht_wrap d else 0) + dht_head d) 1) (Suc u) = t"
    using tail_eq [OF hw] gb(3) by (simp add: t_def)
  have "t < dht_wrap d" unfolding t_def using hw by (intro slot_at_less) auto
  then have ge: "get_dte d t = Some e" using gb(2) by (simp add: get_dte_def ld_def e_def)
  have ents: "dht_entries ?d0 = dht_entries (d\<lparr>dht_used := u\<rparr>) @ [e]"
    by (simp add: dht_entries_def dht_slots_def slots_Suc e_def t_def)
  then have le: "dte_len e \<le> dht_total d" using tot by simp
  have sz: "dht_size d < 65536" using fit by (simp add: dht_fits_def)
  define f where "f = (if t = dht_front d then dht_head d else dht_front d)"
  define tt where "tt = dht_total d - dte_len e"
  let ?d1 = "d\<lparr>dht_total := tt, dht_front := f\<rparr>"
  have sub: "u32_sub (dht_total d) (dte_len e) = tt" using le room sz by (simp add: u32_small tt_def)
  have wf1: "dht_wf (?d1\<lparr>dht_used := u\<rparr>)" unfolding dht_wf_def
  proof (intro conjI impI)
    show "dht_fits (?d1\<lparr>dht_used := u\<rparr>)" using fit by (simp add: dht_fits_def)
    show "dht_total (?d1\<lparr>dht_used := u\<rparr>) = sum_list (map dte_len (dht_entries (?d1\<lparr>dht_used := u\<rparr>)))"
    proof -
      have "dht_entries (?d1\<lparr>dht_used := u\<rparr>) = dht_entries (d\<lparr>dht_used := u\<rparr>)"
        by (simp add: dht_entries_def dht_slots_def)
      then show ?thesis using tot unfolding ents by (simp add: tt_def)
    qed
    show "dht_used (?d1\<lparr>dht_used := u\<rparr>) * 32 + dht_total (?d1\<lparr>dht_used := u\<rparr>) \<le> dht_size (?d1\<lparr>dht_used := u\<rparr>)"
      using room by (simp add: tt_def)
    assume "dht_used (?d1\<lparr>dht_used := u\<rparr>) \<noteq> 0"
    then have "dht_geom (?d0\<lparr>dht_front := (if t = dht_front ?d0 then dht_head ?d0 else dht_front ?d0), dht_used := u\<rparr>)"
      by (intro geom_evict [OF geo fit]) (simp_all add: t_def)
    then have "dht_geom (?d0\<lparr>dht_front := f, dht_used := u\<rparr>)" by (cases "t = dht_front d") (simp_all add: f_def)
    then show "dht_geom (?d1\<lparr>dht_used := u\<rparr>)" by (simp add: dht_geom_def dht_slots_def)
  qed
  have lst1: "dht_list (?d1\<lparr>dht_used := u\<rparr>) = butlast (dht_list ?d0)"
    using dht_list_evict(3) [where d = d and f = f and t = tt and u = u] by simp
  have sum: "hdr_size (dht_list (?d1\<lparr>dht_used := u\<rparr>)) = u * 32 + tt" using hdr_size_list [OF wf1] by simp
  have small: "u32_add (u32_add (u32_add (u * 32) tt) needed) 32 = u * 32 + tt + needed + 32"
  proof -
    have "u * 32 + tt < 65536" using room sz by (simp add: tt_def)
    then show ?thesis using Suc.prems(3) by (simp add: u32_small)
  qed
  have step: "make_room_loop d needed (dht_wrap d) (Suc u) =
      (if u \<noteq> 0 \<and> u * 32 + tt + needed + 32 > dht_size d then make_room_loop ?d1 needed (dht_wrap d) u else Some (u, ?d1))"
    using tail ge sub small by (subst make_room_loop.simps) (simp add: Let_def f_def)
  show ?case
  proof (cases "u \<noteq> 0 \<and> u * 32 + tt + needed + 32 > dht_size d")
    case True
    have "evict (dht_size d) needed (dht_list (?d1\<lparr>dht_used := u\<rparr>)) =
        evict (dht_size d) needed (butlast (dht_list (?d1\<lparr>dht_used := u\<rparr>)))"
      using True sum by (subst evict.simps) (auto simp flip: length_0_conv)
    then show ?thesis using Suc.IH [OF wf1 _ Suc.prems(3)] True step lst1 by simp
  next
    case False
    have len: "length (dht_list (?d1\<lparr>dht_used := u\<rparr>)) = u" by simp
    have "evict (dht_size d) needed (dht_list (?d1\<lparr>dht_used := u\<rparr>)) = dht_list (?d1\<lparr>dht_used := u\<rparr>)"
      using False sum len by (subst evict.simps) (auto simp flip: length_0_conv)
    then show ?thesis using wf1 False step lst1 by (intro exI [of _ u] exI [of _ f] exI [of _ tt]) auto
  qed
qed simp


lemma wf_wrap:
  assumes "dht_wf d" and "dht_used d \<le> dht_head d + 1" and "dht_used d \<noteq> 0"
  shows "dht_wf (d\<lparr>dht_wrap := dht_head d + 1\<rparr>) \<and> dht_list (d\<lparr>dht_wrap := dht_head d + 1\<rparr>) = dht_list d"
proof -
  let ?d = "d\<lparr>dht_wrap := dht_head d + 1\<rparr>"
  have sl: "dht_slots ?d = dht_slots d" using slots_unwrapped [OF assms(2)] by (simp add: dht_slots_def)
  have geo: "dht_geom d" and hw: "dht_head d < dht_wrap d" using assms by (auto simp: dht_wf_def dht_geom_def)
  obtain ss1 ss2 where g: "rev (dht_slots d) = ss1 @ ss2" "ss1 \<noteq> []" "last ss1 = dht_front d"
    "laid (dht_size d) (map (\<lambda>s. dht_dte d ! s) (ss2 @ ss1)) (16 + 8 * dht_wrap d)"
    using geo by (auto simp: dht_geom_def)
  have "laid (dht_size d) (map (\<lambda>s. dht_dte d ! s) (ss2 @ ss1)) (16 + 8 * (dht_head d + 1))"
    using laid_mono [OF g(4) order_refl] hw by simp
  then have "dht_geom ?d" using g sl assms by (auto simp: dht_geom_def)
  then show ?thesis using assms(1) sl by (auto simp: dht_wf_def dht_fits_def dht_entries_def dht_list_def)
qed

lemma wf_empty: "dht_fits d \<Longrightarrow> dht_used d = 0 \<Longrightarrow> dht_total d = 0 \<Longrightarrow> dht_wf d \<and> dht_list d = []"
  by (simp add: dht_wf_def dht_entries_def dht_list_def dht_slots_def)

text \<open>\<^verbatim>\<open>hpack_dht_make_room\<close> evicts exactly what the protocol asks for and tells whether the new header
  fits.\<close>

lemma hpack_dht_make_room_eq:
  assumes wf: "dht_wf d" and n: "needed < 1073741824"
  shows "\<exists>d'. hpack_dht_make_room d needed = Some (needed + 32 \<le> dht_size d, d') \<and> dht_wf d' \<and>
    dht_list d' = evict (dht_size d) needed (dht_list d) \<and> dht_size d' = dht_size d \<and>
    (needed + 32 \<le> dht_size d \<longrightarrow> dht_used d' * 32 + dht_total d' + needed + 32 \<le> dht_size d)"
proof -
  have sz: "dht_size d < 65536" and room: "dht_used d * 32 + dht_total d \<le> dht_size d"
    using wf by (auto simp: dht_wf_def dht_fits_def)
  have small: "u32_add (u32_add (u32_add (dht_used d * 32) (dht_total d)) needed) 32 = dht_used d * 32 + dht_total d + needed + 32"
    "u32_add needed 32 = needed + 32" using sz room n by (simp_all add: u32_small)
  note sum = hdr_size_list [OF wf]
  show ?thesis
  proof (cases "dht_used d * 32 + dht_total d + needed + 32 \<le> dht_size d")
    case True
    then have "evict (dht_size d) needed (dht_list d) = dht_list d" using sum by (subst evict.simps) simp
    then show ?thesis using True wf by (simp add: hpack_dht_make_room_def small)
  next
    case F: False
    show ?thesis
    proof (cases "dht_used d = 0")
      case True
      then have "dht_total d = 0" "dht_list d = []" using wf by (simp_all add: dht_wf_def dht_entries_def dht_slots_def dht_list_def)
      moreover from this have "evict (dht_size d) needed (dht_list d) = dht_list d" by (subst evict.simps) simp
      ultimately show ?thesis using True F wf n by (simp add: hpack_dht_make_room_def u32_small)
    next
      case False
      obtain u' f t where r: "make_room_loop d needed (dht_wrap d) (dht_used d) = Some (u', d\<lparr>dht_total := t, dht_front := f\<rparr>)"
        "dht_wf (d\<lparr>dht_total := t, dht_front := f, dht_used := u'\<rparr>)" "u' = 0 \<or> u' * 32 + t + needed + 32 \<le> dht_size d"
        "dht_list (d\<lparr>dht_total := t, dht_front := f, dht_used := u'\<rparr>) = evict (dht_size d) needed (butlast (dht_list d))"
        using make_room_loop_eq [where d = d and u = "dht_used d" and needed = needed] wf False n by auto
      let ?d = "d\<lparr>dht_total := t, dht_front := f, dht_used := u'\<rparr>"
      have ev: "evict (dht_size d) needed (dht_list d) = evict (dht_size d) needed (butlast (dht_list d))"
        using F sum False by (subst evict.simps) (auto simp flip: length_0_conv)
      have hw: "dht_head d < dht_wrap d" "dht_wrap d < 65536"
        using wf False geom_bounds(3) [of d] by (auto simp: dht_wf_def dht_geom_def)
      show ?thesis
      proof (cases "u' = 0")
        case True
        let ?e = "?d\<lparr>dht_front := 0, dht_head := 0, dht_wrap := 1\<rparr>"
        have t: "t = 0" using r(2) True by (simp add: dht_wf_def dht_entries_def dht_slots_def)
        have "dht_list ?d = []" using True by (simp add: dht_list_def dht_entries_def dht_slots_def)
        moreover have "dht_wf ?e \<and> dht_list ?e = []" using r(2) True t by (intro wf_empty) (auto simp: dht_wf_def dht_fits_def)
        moreover have "hpack_dht_make_room d needed = Some (needed + 32 \<le> dht_size d, ?e)"
          using F False r(1) True by (simp add: hpack_dht_make_room_def raw_hpack_dht_make_room_def small)
        ultimately show ?thesis using r(4) ev True t by (intro exI [of _ ?e]) simp
      next
        case U: False
        have fits: "needed + 32 \<le> dht_size d" using r(3) U by simp
        show ?thesis
        proof (cases "u' \<le> dht_head d + 1")
          case True
          have "hpack_dht_make_room d needed = Some (needed + 32 \<le> dht_size d, ?d\<lparr>dht_wrap := dht_head d + 1\<rparr>)"
            using F False r(1) U True hw by (simp add: hpack_dht_make_room_def raw_hpack_dht_make_room_def small)
          then show ?thesis using wf_wrap [OF r(2)] True U r(3,4) ev fits by (intro exI [of _ "?d\<lparr>dht_wrap := dht_head d + 1\<rparr>"]) simp
        next
          case W: False
          have "hpack_dht_make_room d needed = Some (needed + 32 \<le> dht_size d, ?d)"
            using F False r(1) U W by (simp add: hpack_dht_make_room_def raw_hpack_dht_make_room_def small)
          then show ?thesis using r ev U by (intro exI [of _ ?d]) simp
        qed
      qed
    qed
  qed
qed


section \<open>Insertion\<close>

lemma dht_copy_eq:
  assumes "hea < length (dht_dte d)" and "addr + (length n + length v) \<le> length (dht_area d)"
    and "length (dht_area d) < 65536" and "dht_total d + (length n + length v) < 65536"
  shows "dht_copy d hea addr n v = Some (d\<lparr>dht_total := dht_total d + (length n + length v),
    dht_dte := (dht_dte d)[hea := \<lparr>dte_addr = addr, dte_nlen = length n, dte_vlen = length v\<rparr>],
    dht_area := blit (dht_area d) addr (n @ v)\<rparr>)"
  using assms blit_adjacent [of addr n v "dht_area d"]
  by (simp add: dht_copy_def set_dte_def st_def wr_def u32_small Let_def)

lemma laid_split:
  assumes "laid hi (xs @ e # ys) lo"
  shows "\<And>x. x \<in> set xs \<Longrightarrow> dte_addr e + dte_len e \<le> dte_addr x"
    and "\<And>y. y \<in> set ys \<Longrightarrow> dte_addr y + dte_len y \<le> dte_addr e"
    and "lo \<le> dte_addr e" and "dte_addr e + dte_len e \<le> hi"
proof -
  obtain mid where m: "laid hi xs mid" "dte_addr e + dte_len e \<le> mid" "laid (dte_addr e) ys lo"
    using assms by (auto simp: laid_append)
  show "\<And>x. x \<in> set xs \<Longrightarrow> dte_addr e + dte_len e \<le> dte_addr x" using laid_bounds [OF m(1)] m(2) by fastforce
  show "\<And>y. y \<in> set ys \<Longrightarrow> dte_addr y + dte_len y \<le> dte_addr e" using laid_bounds [OF m(3)] by blast
  show "lo \<le> dte_addr e" using laid_le [OF m(3)] .
  show "dte_addr e + dte_len e \<le> hi" using laid_le [OF m(1)] m(2) by simp
qed

text \<open>A new entry \<open>e\<close> in the slot \<open>hea\<close>, laid out between the others, becomes the newest header.\<close>

lemma dht_place:
  assumes fit: "dht_fits d" and e: "e = \<lparr>dte_addr = addr, dte_nlen = length n, dte_vlen = length v\<rparr>"
    and tot: "dht_total d = sum_list (map dte_len (dht_entries d))"
    and room: "Suc (dht_used d) * 32 + dht_total d + (length n + length v) \<le> dht_size d"
    and sl: "slots hea wrap (Suc (dht_used d)) = hea # dht_slots d" and hw: "hea < wrap" "Suc (dht_used d) \<le> wrap"
    and runs: "rev (hea # dht_slots d) = ss1 @ ss2" "ss1 \<noteq> []" "ss2 @ ss1 = xs @ hea # ys"
    and laid: "laid (dht_size d) (map (\<lambda>s. dht_dte d ! s) xs @ e # map (\<lambda>s. dht_dte d ! s) ys) (16 + 8 * wrap)"
    and d': "d' = d\<lparr>dht_front := last ss1, dht_wrap := wrap, dht_head := hea, dht_used := Suc (dht_used d),
      dht_total := dht_total d + (length n + length v), dht_dte := (dht_dte d)[hea := e],
      dht_area := blit (dht_area d) addr (n @ v)\<rparr>"
  shows "dht_wf d' \<and> dht_list d' = (n, v) # dht_list d"
proof -
  have dist: "distinct (hea # dht_slots d)" using distinct_slots [OF hw] sl by simp
  have set: "set (xs @ hea # ys) = set (hea # dht_slots d)"
    using arg_cong [OF runs(1), of set] arg_cong [OF runs(3), of set] by auto
  have len: "length (xs @ hea # ys) = length (hea # dht_slots d)"
    using arg_cong [OF runs(1), of length] arg_cong [OF runs(3), of length] by simp
  have "distinct (xs @ hea # ys)" using dist set len by (metis card_distinct distinct_card)
  then have nin: "hea \<notin> set xs" "hea \<notin> set ys" by auto
  have wl: "16 + 8 * wrap \<le> dht_size d" using laid_le [OF laid] .
  then have hl: "hea < length (dht_dte d)" using hw(1) fit by (auto simp: dht_fits_def)
  have el: "dte_len e = length n + length v" by (simp add: e dte_len_def)
  have nth: "map (\<lambda>s. (dht_dte d)[hea := e] ! s) zs = map (\<lambda>s. dht_dte d ! s) zs" if "hea \<notin> set zs" for zs
    using that by (intro map_cong refl nth_list_update_neq) auto
  have sel: "dht_size d' = dht_size d" "dht_dte d' = (dht_dte d)[hea := e]" "dht_area d' = blit (dht_area d) addr (n @ v)"
    "dht_front d' = last ss1" "dht_wrap d' = wrap" "dht_head d' = hea" "dht_used d' = Suc (dht_used d)"
    "dht_total d' = dht_total d + (length n + length v)"
    by (simp_all add: d')
  have slots': "dht_slots d' = hea # dht_slots d" by (simp add: dht_slots_def sel sl)
  have ent': "dht_entries d' = e # dht_entries d"
    using hl dist nth [of "dht_slots d"] by (simp add: dht_entries_def slots' sel)
  have laid': "laid (dht_size d') (map (\<lambda>s. dht_dte d' ! s) (ss2 @ ss1)) (16 + 8 * wrap)"
    unfolding runs(3) sel map_append list.map nth [OF nin(1)] nth [OF nin(2)] nth_list_update_eq [OF hl] by (rule laid)
  have geo: "dht_geom d'" unfolding dht_geom_def
    using runs(1,2) laid' hw by (auto simp: slots' sel simp del: rev.simps)
  have ar: "addr + length (n @ v) \<le> length (dht_area d)"
    using laid_split(4) [OF laid] el fit by (simp add: e dht_fits_def)
  have raw: "dte_raw (blit (dht_area d) addr (n @ v)) x = dte_raw (dht_area d) x" if x: "x \<in> set (dht_entries d)" for x
  proof -
    obtain s where s: "s \<in> set (dht_slots d)" "x = dht_dte d ! s" using x by (auto simp: dht_entries_def)
    then have "s \<in> set xs \<or> s \<in> set ys" using set dist by auto
    then have "addr + length (n @ v) \<le> dte_addr x \<or> dte_addr x + dte_len x \<le> addr"
      using laid_split(1,2) [OF laid] s(2) el by (auto simp: e)
    moreover have "dte_addr x + dte_len x \<le> length (dht_area d)"
      using \<open>s \<in> set xs \<or> s \<in> set ys\<close> laid_bounds [OF laid, of x] s(2) fit by (auto simp: dht_fits_def)
    ultimately show ?thesis using ar by (intro dte_raw_blit) auto
  qed
  have "dte_raw (blit (dht_area d) addr (n @ v)) e = n @ v"
    using ar el by (intro dte_raw_blit_same) (simp_all add: e)
  then have hdr: "dte_hdr (dht_area d') e = (n, v)" by (simp add: dte_hdr_def sel e)
  have lst: "dht_list d' = (n, v) # dht_list d"
    using hdr raw by (simp add: dht_list_def ent' dte_hdr_def sel)
  have "dht_wf d'" unfolding dht_wf_def
    using fit geo ent' tot el room ar by (auto simp: dht_fits_def sel)
  then show ?thesis using lst by simp
qed


text \<open>What \<^verbatim>\<open>hpack_dht_insert\<close> knows of the table once the new head is chosen.\<close>

definition head_ok :: "hpack_dht \<Rightarrow> nat \<Rightarrow> nat \<Rightarrow> nat \<Rightarrow> nat \<Rightarrow> bool" where
  "head_ok d hea wrap prev tail \<longleftrightarrow> dht_wf d \<and> 0 < dht_used d \<and> prev = dht_head d \<and>
     tail = slot_at (dht_head d) (dht_wrap d) (dht_used d - 1) \<and>
     slots hea wrap (Suc (dht_used d)) = hea # dht_slots d \<and> hea < wrap \<and> Suc (dht_used d) \<le> wrap \<and>
     (\<exists>ss1 ss2. rev (dht_slots d) = ss1 @ ss2 \<and> ss1 \<noteq> [] \<and> last ss1 = dht_front d \<and>
        laid (dht_size d) (map (\<lambda>s. dht_dte d ! s) (ss2 @ ss1)) (16 + 8 * wrap))"

lemma dht_reindex_eq:
  assumes "dht_wf d" and "0 < dht_used d" and "blk_ok d b" and "dht_used d * 32 + dht_total d + 32 \<le> dht_size d"
  shows "\<exists>d'. dht_reindex (Some b) d = Some (Inr (d', dht_used d, dht_used d + 1, dht_used d - 1, 0)) \<and>
    head_ok d' (dht_used d) (dht_used d + 1) (dht_used d - 1) 0 \<and> dht_list d' = dht_list d \<and>
    dht_size d' = dht_size d \<and> dht_used d' = dht_used d \<and> dht_total d' = dht_total d \<and>
    dht_front d' = dht_used d - 1 \<and>
    laid (dht_size d) (map (\<lambda>s. dht_dte d' ! s) [0..<dht_used d]) (dht_size d - dht_total d)"
proof -
  let ?u = "dht_used d"
  obtain d' where d': "hpack_dht_defrag (Some b) d = Some (Some d')" "dht_wf d'" "dht_list d' = dht_list d"
    "dht_size d' = dht_size d" "dht_used d' = ?u" "dht_total d' = dht_total d" "dht_wrap d' = ?u"
    "dht_head d' = ?u - 1" "dht_front d' = ?u - 1"
    "laid (dht_size d) (map (\<lambda>s. dht_dte d' ! s) [0..<?u]) (dht_size d - dht_total d)"
    using hpack_dht_defrag_eq [OF assms(1-3)] by blast
  have sl: "dht_slots d' = rev [0..<?u]" using d' slots_packed [of ?u] by (simp add: dht_slots_def)
  have sl': "slots ?u (?u + 1) (Suc ?u) = ?u # dht_slots d'"
    using slots_packed [of "Suc ?u"] sl by simp
  have "laid (dht_size d') (map (\<lambda>s. dht_dte d' ! s) ([] @ [0..<?u])) (16 + 8 * (?u + 1))"
    using laid_mono [OF d'(10) order_refl, of "16 + 8 * (?u + 1)"] assms(2,4) d'(4) by simp
  then have "\<exists>ss1 ss2. rev (dht_slots d') = ss1 @ ss2 \<and> ss1 \<noteq> [] \<and> last ss1 = dht_front d' \<and>
      laid (dht_size d') (map (\<lambda>s. dht_dte d' ! s) (ss2 @ ss1)) (16 + 8 * (?u + 1))"
    unfolding sl using assms(2) d'(9) by (rule_tac exI [of _ "[0..<?u]"], rule_tac exI [of _ "[]"]) simp
  then have "head_ok d' ?u (?u + 1) (?u - 1) 0"
    using d' sl' assms(2) by (simp add: head_ok_def slot_at_def)
  then show ?thesis using d' assms(2) by (simp add: dht_reindex_def)
qed

lemma head_okI:
  assumes "dht_wf d" and "0 < dht_used d" and "slots hea wrap (Suc (dht_used d)) = hea # dht_slots d"
    and "hea < wrap" and "Suc (dht_used d) \<le> wrap"
    and "wrap = dht_wrap d \<or> 16 + 8 * wrap \<le> dte_addr (dht_dte d ! dht_front d)"
  shows "head_ok d hea wrap (dht_head d) (slot_at (dht_head d) (dht_wrap d) (dht_used d - 1))"
proof -
  obtain ss1 ss2 where g: "rev (dht_slots d) = ss1 @ ss2" "ss1 \<noteq> []" "last ss1 = dht_front d"
    "laid (dht_size d) (map (\<lambda>s. dht_dte d ! s) (ss2 @ ss1)) (16 + 8 * dht_wrap d)"
    using assms(1,2) by (auto simp: dht_wf_def dht_geom_def)
  obtain ss where ss: "ss1 = ss @ [dht_front d]" using g(2,3) append_butlast_last_id by metis
  have "laid (dht_size d) (map (\<lambda>s. dht_dte d ! s) (ss2 @ ss1)) (16 + 8 * wrap)"
    using g(4) assms(6) unfolding ss by (auto simp: laid_append)
  then show ?thesis using assms g unfolding head_ok_def by blast
qed

lemma dht_new_head_eq:
  assumes wf: "dht_wf d" and u: "0 < dht_used d" and b: "blk_ok d b"
    and room: "dht_used d * 32 + dht_total d + 32 \<le> dht_size d"
  shows "\<exists>d' hea wrap prev tail. dht_new_head (Some b) d = Some (Inr (d', hea, wrap, prev, tail)) \<and>
    head_ok d' hea wrap prev tail \<and> dht_list d' = dht_list d \<and> dht_size d' = dht_size d \<and>
    dht_used d' = dht_used d \<and> dht_total d' = dht_total d"
proof -
  have geo: "dht_geom d" and fit: "dht_fits d" using wf u by (auto simp: dht_wf_def)
  note gb = geom_bounds [OF geo fit]
  have hw: "dht_head d < dht_wrap d" "dht_used d \<le> dht_wrap d" using geo by (auto simp: dht_geom_def)
  let ?h = "dht_head d" and ?w = "dht_wrap d" and ?u = "dht_used d"
  have tl: "hpack_dht_get_tail d = slot_at ?h ?w (?u - 1)"
    using tail_eq [OF hw u gb(3)] by (simp add: hpack_dht_get_tail_def)
  have fr: "get_dte d (dht_front d) = Some (dht_dte d ! dht_front d)"
    using gb(1) [OF gb(4)] gb(2) by (simp add: get_dte_def ld_def)
  have idx: "\<exists>d' hea wrap prev tail. dht_reindex (Some b) d = Some (Inr (d', hea, wrap, prev, tail)) \<and>
    head_ok d' hea wrap prev tail \<and> dht_list d' = dht_list d \<and> dht_size d' = dht_size d \<and>
    dht_used d' = ?u \<and> dht_total d' = dht_total d"
    using dht_reindex_eq [OF wf u b room] by blast
  show ?thesis
  proof (cases "?h + 1 \<ge> ?w")
    case True
    then have w: "?w = ?h + 1" using hw by simp
    consider (grow) "16 + (?w + 1) * 8 \<le> dte_addr (dht_dte d ! dht_front d)"
      | (hole) "\<not> 16 + (?w + 1) * 8 \<le> dte_addr (dht_dte d ! dht_front d)" "?u \<le> ?h"
      | (full) "\<not> 16 + (?w + 1) * 8 \<le> dte_addr (dht_dte d ! dht_front d)" "\<not> ?u \<le> ?h" by linarith
    then show ?thesis
    proof cases
      case grow
      have "slots (?h + 1) (?w + 1) (Suc ?u) = (?h + 1) # dht_slots d"
        using slots_push [of ?h "?w + 1" ?u ?w] hw w by (simp add: dht_slots_def)
      then have "head_ok d (?h + 1) (?w + 1) ?h (slot_at ?h ?w (?u - 1))"
        using wf u hw w grow by (intro head_okI) auto
      moreover have "dht_new_head (Some b) d = Some (Inr (d, ?h + 1, ?w + 1, ?h, slot_at ?h ?w (?u - 1)))"
        using True fr grow tl by (simp add: dht_new_head_def DHT_HDR_def DTE_SIZE_def Let_def)
      ultimately show ?thesis by blast
    next
      case hole
      have "slots 0 ?w (Suc ?u) = 0 # dht_slots d"
        using slots_push_0 [of ?u ?h] hole w by (simp add: dht_slots_def)
      then have "head_ok d 0 ?w ?h (slot_at ?h ?w (?u - 1))"
        using wf u hw w hole by (intro head_okI) auto
      moreover have "dht_new_head (Some b) d = Some (Inr (d, 0, ?w, ?h, slot_at ?h ?w (?u - 1)))"
        using True fr hole tl by (simp add: dht_new_head_def DHT_HDR_def DTE_SIZE_def Let_def)
      ultimately show ?thesis by blast
    next
      case full
      then have "dht_new_head (Some b) d = dht_reindex (Some b) d"
        using True fr by (simp add: dht_new_head_def DHT_HDR_def DTE_SIZE_def Let_def)
      then show ?thesis using idx by simp
    qed
  next
    case False
    show ?thesis
    proof (cases "?u + 1 \<ge> ?w")
      case True
      then have "dht_new_head (Some b) d = dht_reindex (Some b) d"
        using False by (simp add: dht_new_head_def Let_def)
      then show ?thesis using idx by simp
    next
      case F: False
      have "slots (?h + 1) ?w (Suc ?u) = (?h + 1) # dht_slots d"
        using slots_push [of ?h ?w ?u ?w] False by (simp add: dht_slots_def)
      then have "head_ok d (?h + 1) ?w ?h (slot_at ?h ?w (?u - 1))"
        using wf u F False by (intro head_okI) auto
      moreover have "dht_new_head (Some b) d = Some (Inr (d, ?h + 1, ?w, ?h, slot_at ?h ?w (?u - 1)))"
        using False F tl by (simp add: dht_new_head_def Let_def)
      ultimately show ?thesis by blast
    qed
  qed
qed


lemma insert_finish:
  assumes wf: "dht_wf d" and e: "e = \<lparr>dte_addr = addr, dte_nlen = length n, dte_vlen = length v\<rparr>"
    and room: "dht_used d * 32 + dht_total d + (length n + length v) + 32 \<le> dht_size d"
    and sl: "slots hea wrap (Suc (dht_used d)) = hea # dht_slots d" and hw: "hea < wrap" "Suc (dht_used d) \<le> wrap"
    and runs: "rev (hea # dht_slots d) = ss1 @ ss2" "ss1 \<noteq> []" "ss2 @ ss1 = xs @ hea # ys"
    and laid: "laid (dht_size d) (map (\<lambda>s. dht_dte d ! s) xs @ e # map (\<lambda>s. dht_dte d ! s) ys) (16 + 8 * wrap)"
  shows "\<exists>d'. dht_copy (d\<lparr>dht_front := last ss1, dht_wrap := wrap, dht_head := hea, dht_used := Suc (dht_used d)\<rparr>) hea addr n v
      = Some d' \<and> dht_wf d' \<and> dht_list d' = (n, v) # dht_list d \<and> dht_size d' = dht_size d"
proof -
  have fit: "dht_fits d" and tot: "dht_total d = sum_list (map dte_len (dht_entries d))" using wf by (auto simp: dht_wf_def)
  have "16 + 8 * wrap \<le> dht_size d" using laid_le [OF laid] .
  then have hl: "hea < length (dht_dte d)" using hw fit by (auto simp: dht_fits_def)
  have ar: "addr + (length n + length v) \<le> length (dht_area d)"
    using laid_split(4) [OF laid] fit by (simp add: e dte_len_def dht_fits_def)
  let ?d1 = "d\<lparr>dht_front := last ss1, dht_wrap := wrap, dht_head := hea, dht_used := Suc (dht_used d)\<rparr>"
  let ?d' = "d\<lparr>dht_front := last ss1, dht_wrap := wrap, dht_head := hea, dht_used := Suc (dht_used d),
      dht_total := dht_total d + (length n + length v), dht_dte := (dht_dte d)[hea := e],
      dht_area := blit (dht_area d) addr (n @ v)\<rparr>"
  have "dht_copy ?d1 hea addr n v = Some ?d'"
    using dht_copy_eq [of hea ?d1 addr n v] hl ar fit room by (simp add: dht_fits_def e)
  moreover have "dht_wf ?d' \<and> dht_list ?d' = (n, v) # dht_list d"
    using room by (intro dht_place [OF fit e tot _ sl hw runs laid refl]) simp
  ultimately show ?thesis by simp
qed

lemma insert_upfront:
  assumes wf: "dht_wf d" and room: "dht_used d * 32 + dht_total d + (length n + length v) + 32 \<le> dht_size d"
    and sl: "slots hea wrap (Suc (dht_used d)) = hea # dht_slots d" and hw: "hea < wrap" "Suc (dht_used d) \<le> wrap"
    and ss: "rev (dht_slots d) = ss @ [f]" and laid: "laid (dht_size d) (map (\<lambda>s. dht_dte d ! s) (ss @ [f])) (16 + 8 * wrap)"
    and fr: "16 + 8 * wrap + (length n + length v) \<le> dte_addr (dht_dte d ! f)"
  shows "\<exists>d'. dht_copy (d\<lparr>dht_front := hea, dht_wrap := wrap, dht_head := hea, dht_used := Suc (dht_used d)\<rparr>) hea
        (u32_sub (dte_addr (dht_dte d ! f)) (length n + length v)) n v
      = Some d' \<and> dht_wf d' \<and> dht_list d' = (n, v) # dht_list d \<and> dht_size d' = dht_size d"
proof -
  let ?a = "dte_addr (dht_dte d ! f) - (length n + length v)"
  let ?e = "\<lparr>dte_addr = ?a, dte_nlen = length n, dte_vlen = length v\<rparr>"
  have "dte_addr (dht_dte d ! f) \<le> dht_size d" using laid_bounds [OF laid, of "dht_dte d ! f"] by simp
  then have a: "u32_sub (dte_addr (dht_dte d ! f)) (length n + length v) = ?a"
    using fr wf by (intro u32_sub_small) (auto simp: dht_wf_def dht_fits_def)
  have "laid (dht_size d) (map (\<lambda>s. dht_dte d ! s) (ss @ [f]) @ ?e # map (\<lambda>s. dht_dte d ! s) []) (16 + 8 * wrap)"
    using laid fr by (auto simp: laid_append dte_len_def)
  from insert_finish [OF wf refl room sl hw _ _ _ this, of "ss @ [f, hea]" "[]"] ss show ?thesis unfolding a by simp
qed

text \<open>The position of a new entry in the tail room.\<close>

lemma tail_room:
  assumes "laid hi (map (\<lambda>s. dht_dte d ! s) (t # ss)) lo" and "hi < 65536"
    and "len \<le> u32_sub (u32_sub hi (dte_addr (dht_dte d ! t))) (dte_len (dht_dte d ! t))"
  shows "u32_sub (u32_add (u32_add (dte_addr (dht_dte d ! t)) (dte_len (dht_dte d ! t)))
      (u32_sub (u32_sub hi (dte_addr (dht_dte d ! t))) (dte_len (dht_dte d ! t)))) len = hi - len"
    and "len \<le> hi" and "laid (hi - len) (map (\<lambda>s. dht_dte d ! s) (t # ss)) lo"
proof -
  let ?t = "dht_dte d ! t"
  have le: "dte_addr ?t + dte_len ?t \<le> hi" using assms(1) by simp
  then have r: "u32_sub (u32_sub hi (dte_addr ?t)) (dte_len ?t) = hi - dte_addr ?t - dte_len ?t"
    using assms(2) by (simp add: u32_small)
  then have l: "len \<le> hi - dte_addr ?t - dte_len ?t" using assms(3) by simp
  then show "len \<le> hi" and "laid (hi - len) (map (\<lambda>s. dht_dte d ! s) (t # ss)) lo" using assms(1) le by auto
  show "u32_sub (u32_add (u32_add (dte_addr ?t) (dte_len ?t)) (u32_sub (u32_sub hi (dte_addr ?t)) (dte_len ?t))) len = hi - len"
    unfolding r using le l assms(2) by (simp add: u32_small)
qed

lemma store_defrag:
  assumes wf: "dht_wf d" and u: "0 < dht_used d" and b: "blk_ok d b"
    and room: "dht_used d * 32 + dht_total d + (length n + length v) + 32 \<le> dht_size d"
  shows "\<exists>d1 f d'. hpack_dht_defrag (Some b) d = Some (Some d1) \<and> get_dte d1 (dht_front d1) = Some f \<and>
    dht_copy (d1\<lparr>dht_front := u16w (dht_head d1 + 1), dht_wrap := u16w (dht_wrap d1 + 1), dht_head := u16w (dht_head d1 + 1),
        dht_used := u16w (dht_used d + 1)\<rparr>) (dht_head d1 + 1) (u32_sub (dte_addr f) (length n + length v)) n v = Some d' \<and>
    dht_wf d' \<and> dht_list d' = (n, v) # dht_list d \<and> dht_size d' = dht_size d"
proof -
  let ?u = "dht_used d" and ?l = "length n + length v"
  obtain d1 where d1: "hpack_dht_defrag (Some b) d = Some (Some d1)" "dht_wf d1" "dht_list d1 = dht_list d"
    "dht_size d1 = dht_size d" "dht_used d1 = ?u" "dht_total d1 = dht_total d" "dht_wrap d1 = ?u"
    "dht_head d1 = ?u - 1" "dht_front d1 = ?u - 1"
    "laid (dht_size d) (map (\<lambda>s. dht_dte d1 ! s) [0..<?u]) (dht_size d - dht_total d)"
    using hpack_dht_defrag_eq [OF wf u b] by blast
  have fit: "dht_fits d1" and geo: "dht_geom d1" using d1(2,5) u by (auto simp: dht_wf_def)
  note gb = geom_bounds [OF geo fit]
  have small: "?u + 1 < 65536" using room fit d1(4) by (simp add: dht_fits_def)
  have sl: "dht_slots d1 = rev [0..<?u]" using d1 slots_packed [of ?u] by (simp add: dht_slots_def)
  have sl': "slots ?u (?u + 1) (Suc (dht_used d1)) = ?u # dht_slots d1" using slots_packed [of "Suc ?u"] sl d1(5) by simp
  have up: "[0..<?u] = [0..<?u - 1] @ [?u - 1]" using u by (cases ?u) simp_all
  have f: "get_dte d1 (dht_front d1) = Some (dht_dte d1 ! (?u - 1))"
    using gb(1) [OF gb(4)] gb(2) d1(9) by (simp add: get_dte_def ld_def)
  have "dht_size d - dht_total d \<le> dte_addr (dht_dte d1 ! (?u - 1))"
    using laid_bounds [OF d1(10), of "dht_dte d1 ! (?u - 1)"] u by simp
  then have fr: "16 + 8 * (?u + 1) + ?l \<le> dte_addr (dht_dte d1 ! (?u - 1))" using room u by simp
  have ld: "laid (dht_size d1) (map (\<lambda>s. dht_dte d1 ! s) ([0..<?u - 1] @ [?u - 1])) (16 + 8 * (?u + 1))"
    unfolding up [symmetric] using laid_mono [OF d1(10) order_refl, of "16 + 8 * (?u + 1)"] room u d1(4) by simp
  have "\<exists>d'. dht_copy (d1\<lparr>dht_front := ?u, dht_wrap := ?u + 1, dht_head := ?u, dht_used := Suc (dht_used d1)\<rparr>) ?u
        (u32_sub (dte_addr (dht_dte d1 ! (?u - 1))) ?l) n v
      = Some d' \<and> dht_wf d' \<and> dht_list d' = (n, v) # dht_list d1 \<and> dht_size d' = dht_size d1"
    using room d1 sl up by (intro insert_upfront [OF d1(2) _ sl' _ _ _ ld fr]) (simp_all add: rev_swap)
  then show ?thesis using d1 f u small by simp
qed

lemma dht_store_eq:
  assumes ho: "head_ok d hea wrap prev tail" and b: "blk_ok d b"
    and room: "dht_used d * 32 + dht_total d + (length n + length v) + 32 \<le> dht_size d"
  shows "\<exists>d'. dht_store (Some b) d (dht_used d + 1) hea wrap prev tail n v = Some d' \<and> dht_wf d' \<and>
    dht_list d' = (n, v) # dht_list d \<and> dht_size d' = dht_size d"
proof -
  let ?l = "length n + length v" and ?u = "dht_used d" and ?E = "\<lambda>s. dht_dte d ! s"
  obtain ss1 ss2 where h: "dht_wf d" "0 < ?u" "prev = dht_head d" "tail = slot_at (dht_head d) (dht_wrap d) (?u - 1)"
    "slots hea wrap (Suc ?u) = hea # dht_slots d" "hea < wrap" "Suc ?u \<le> wrap"
    "rev (dht_slots d) = ss1 @ ss2" "ss1 \<noteq> []" "last ss1 = dht_front d"
    "laid (dht_size d) (map ?E (ss2 @ ss1)) (16 + 8 * wrap)" using ho by (auto simp: head_ok_def)
  have fit: "dht_fits d" and geo: "dht_geom d" using h(1,2) by (auto simp: dht_wf_def)
  note gb = geom_bounds [OF geo fit]
  have sz: "dht_size d < 65536" using fit by (simp add: dht_fits_def)
  have w: "16 + 8 * wrap \<le> dht_size d" using laid_le [OF h(11)] .
  have hw: "dht_head d < dht_wrap d" "?u \<le> dht_wrap d" using geo by (auto simp: dht_geom_def)
  obtain ss where ss: "ss1 = tail # ss"
  proof -
    have "rev (dht_slots d) = tail # tl (rev (dht_slots d))" using h(2,4) by (cases ?u) (simp_all add: dht_slots_def slots_Suc)
    then show thesis using that h(8,9) by (cases ss1) auto
  qed
  have lst: "last (rev (dht_slots d)) = prev"
    using h(2,3) by (simp add: dht_slots_def last_rev slots_def slot_at_def hd_map)
  have dist: "distinct (ss1 @ ss2)" using distinct_slots [OF hw] h(8) by (metis dht_slots_def distinct_rev)
  have eq: "prev = dht_front d \<longleftrightarrow> ss2 = []"
  proof (cases "ss2 = []")
    case False
    then have "prev \<in> set ss2" using lst h(8) last_in_set by fastforce
    then show ?thesis using False dist h(9,10) last_in_set by fastforce
  qed (use lst h(8,10) in simp)
  have mem: "set (dht_slots d) = set ss1 \<union> set ss2" using arg_cong [OF h(8), of set] by simp
  have get: "get_dte d s = Some (?E s)" if "s \<in> set (dht_slots d)" for s
    using gb(1) [OF that] gb(2) by (simp add: get_dte_def ld_def)
  have pm: "prev \<in> set (dht_slots d)" using lst h(2)
    by (metis last_in_set length_dht_slots(1) length_rev list.size(3) not_less_zero set_rev)
  have gets: "get_dte d (dht_front d) = Some (?E (dht_front d))" "get_dte d tail = Some (?E tail)" "get_dte d prev = Some (?E prev)"
    using get gb(4) pm mem ss by auto
  define hi where "hi = (if ss2 = [] then dht_size d else dte_addr (?E prev))"
  define tr where "tr = u32_sub (u32_sub hi (dte_addr (?E tail))) (dte_len (?E tail))"
  have u16: "u16w wrap = wrap" "u16w hea = hea" "u16w (?u + 1) = Suc ?u" using w sz h(6,7) by simp_all
  consider (front) "ss2 = []" "?l \<le> u32_sub (dte_addr (?E prev)) (16 + 8 * wrap)"
    | (tail) "ss2 \<noteq> [] \<or> \<not> ?l \<le> u32_sub (dte_addr (?E prev)) (16 + 8 * wrap)" "?l \<le> tr"
    | (defrag) "ss2 \<noteq> [] \<or> \<not> ?l \<le> u32_sub (dte_addr (?E prev)) (16 + 8 * wrap)" "\<not> ?l \<le> tr" by blast
  then show ?thesis
  proof cases
    case front
    have "last ss1 = prev" using h(8) front(1) lst by simp
    then have s1: "rev (dht_slots d) = butlast ss1 @ [prev]" "ss1 = butlast ss1 @ [prev]"
      using append_butlast_last_id [OF h(9)] h(8) front(1) by simp_all
    have ld: "laid (dht_size d) (map ?E (butlast ss1 @ [prev])) (16 + 8 * wrap)" using h(11) front(1) unfolding s1(2) [symmetric] by simp
    have pb: "16 + 8 * wrap \<le> dte_addr (?E prev)" "dte_addr (?E prev) \<le> dht_size d"
      using laid_bounds [OF ld, of "?E prev"] by auto
    then have fr: "16 + 8 * wrap + ?l \<le> dte_addr (?E prev)" using front(2) sz by (simp add: u32_small)
    have "dht_store (Some b) d (?u + 1) hea wrap prev tail n v =
        dht_copy (d\<lparr>dht_front := hea, dht_wrap := wrap, dht_head := hea, dht_used := Suc ?u\<rparr>) hea (u32_sub (dte_addr (?E prev)) ?l) n v"
      using front gets eq u16 unfolding dht_store_def Let_def DHT_HDR_def DTE_SIZE_def by (simp add: mult.commute)
    then show ?thesis using insert_upfront [OF h(1) room h(5-7) s1(1) ld fr] by simp
  next
    case tail
    have hi: "laid hi (map ?E (tail # ss)) (16 + 8 * wrap)" "laid (dht_size d) (map ?E ss2) hi"
    proof -
      have "laid hi (map ?E ss1) (16 + 8 * wrap) \<and> laid (dht_size d) (map ?E ss2) hi"
      proof (cases "ss2 = []")
        case False
        then have "ss2 = butlast ss2 @ [prev]" using lst h(8) append_butlast_last_id [OF False] by simp
        then obtain zs where "ss2 = zs @ [prev]" by blast
        then show ?thesis using h(11) by (auto simp: hi_def laid_append)
      qed (use h(11) in \<open>simp add: hi_def\<close>)
      then show "laid hi (map ?E (tail # ss)) (16 + 8 * wrap)" "laid (dht_size d) (map ?E ss2) hi" by (auto simp: ss)
    qed
    have "hi \<le> dht_size d" using laid_le [OF hi(2)] .
    note t = tail_room [OF hi(1) le_less_trans [OF this sz] tail(2) [unfolded tr_def], folded tr_def]
    let ?e = "\<lparr>dte_addr = hi - ?l, dte_nlen = length n, dte_vlen = length v\<rparr>"
    have "laid (dht_size d) (map ?E ss2 @ ?e # map ?E ss1) (16 + 8 * wrap)"
      unfolding laid_append ss using hi(2) t(2,3) by (intro exI [of _ hi]) (simp add: dte_len_def)
    from insert_finish [OF h(1) refl room h(5-7) _ h(9) _ this, of "ss2 @ [hea]"]
    obtain d' where d': "dht_copy (d\<lparr>dht_front := last ss1, dht_wrap := wrap, dht_head := hea, dht_used := Suc ?u\<rparr>) hea (hi - ?l) n v
        = Some d'" "dht_wf d'" "dht_list d' = (n, v) # dht_list d" "dht_size d' = dht_size d" using h(8) by auto
    have "dht_store (Some b) d (?u + 1) hea wrap prev tail n v =
        dht_copy (d\<lparr>dht_wrap := wrap, dht_head := hea, dht_used := Suc ?u\<rparr>) hea (hi - ?l) n v"
      using tail gets eq u16 t(1) unfolding dht_store_def Let_def DHT_HDR_def DTE_SIZE_def
      by (cases "ss2 = []") (simp_all add: mult.commute hi_def tr_def)
    moreover have "d\<lparr>dht_front := last ss1, dht_wrap := wrap, dht_head := hea, dht_used := Suc ?u\<rparr> =
        d\<lparr>dht_wrap := wrap, dht_head := hea, dht_used := Suc ?u\<rparr>" using h(10) by simp
    ultimately show ?thesis using d' by simp
  next
    case defrag
    obtain d1 f d' where r: "hpack_dht_defrag (Some b) d = Some (Some d1)" "get_dte d1 (dht_front d1) = Some f"
      "dht_copy (d1\<lparr>dht_front := u16w (dht_head d1 + 1), dht_wrap := u16w (dht_wrap d1 + 1), dht_head := u16w (dht_head d1 + 1),
        dht_used := u16w (?u + 1)\<rparr>) (dht_head d1 + 1) (u32_sub (dte_addr f) ?l) n v = Some d'"
      "dht_wf d'" "dht_list d' = (n, v) # dht_list d" "dht_size d' = dht_size d"
      using store_defrag [OF h(1,2) b room] by blast
    have "dht_store (Some b) d (?u + 1) hea wrap prev tail n v = Some d'"
      using defrag gets eq r(1-3) unfolding dht_store_def Let_def DHT_HDR_def DTE_SIZE_def
      by (cases "ss2 = []") (simp_all add: hi_def tr_def mult.commute)
    then show ?thesis using r by blast
  qed
qed

text \<open>The table that the protocol specifies: a new header is put in front of the others after the
  oldest ones were evicted; one that is larger than the table empties it.\<close>

definition tbl_add :: "nat \<Rightarrow> (bytes \<times> bytes) list \<Rightarrow> bytes \<times> bytes \<Rightarrow> (bytes \<times> bytes) list" where
  "tbl_add sz hs h =
     (let len = length (fst h) + length (snd h) in
      if len + 32 \<le> sz then h # evict sz len hs else [])"

lemma evict_all: "sz < needed + 32 \<Longrightarrow> evict sz needed hs = []"
  by (induction sz needed hs rule: evict.induct) (subst evict.simps, simp)

lemma insert_empty:
  assumes wf: "dht_wf d" and u: "dht_used d = 0" and room: "length n + length v + 32 \<le> dht_size d"
  shows "\<exists>d'. dht_copy (d\<lparr>dht_front := 0, dht_head := 0, dht_wrap := 1, dht_used := 1, dht_total := 0\<rparr>) 0
      (u32_sub (dht_size d) (length n + length v)) n v = Some d' \<and> dht_wf d' \<and> dht_list d' = [(n, v)] \<and> dht_size d' = dht_size d"
proof -
  let ?l = "length n + length v" and ?a = "dht_size d - (length n + length v)"
  let ?e = "\<lparr>dte_addr = ?a, dte_nlen = length n, dte_vlen = length v\<rparr>"
  let ?d = "d\<lparr>dht_total := 0\<rparr>"
  have fit: "dht_fits ?d" and sz: "dht_size d < 65536" using wf by (auto simp: dht_wf_def dht_fits_def)
  have a: "u32_sub (dht_size d) ?l = ?a" using sz room by (simp add: u32_small)
  have wf0: "dht_wf ?d \<and> dht_list ?d = []" using fit u by (intro wf_empty) simp_all
  have s0: "dht_slots ?d = []" using u by (simp add: dht_slots_def)
  have "\<exists>d'. dht_copy (?d\<lparr>dht_front := last [0], dht_wrap := 1, dht_head := 0, dht_used := Suc (dht_used ?d)\<rparr>) 0 ?a n v
      = Some d' \<and> dht_wf d' \<and> dht_list d' = (n, v) # dht_list ?d \<and> dht_size d' = dht_size ?d"
    by (rule insert_finish [where e = "?e" and ?ss1.0 = "[0]" and ?ss2.0 = "[]" and xs = "[]" and ys = "[]"])
      (use wf0 room u s0 in \<open>simp_all add: slots_def slot_at_def dte_len_def\<close>)
  moreover have "?d\<lparr>dht_front := last [0], dht_wrap := 1, dht_head := 0, dht_used := Suc (dht_used ?d)\<rparr> =
      d\<lparr>dht_front := 0, dht_head := 0, dht_wrap := 1, dht_used := 1, dht_total := 0\<rparr>"
    using u by (intro hpack_dht.equality) simp_all
  ultimately show ?thesis using wf0 unfolding a by simp
qed

lemma blk_ok_cong: "dht_size d = dht_size d' \<Longrightarrow> blk_ok d b = blk_ok d' b"
  by (simp add: blk_ok_def)

lemma hpack_dht_insert_eq:
  assumes wf: "dht_wf d" and b: "blk_ok d b" and len: "length n + length v < 1073741824"
  shows "\<exists>d'. hpack_dht_insert (Some b) d n v = Some (0, d') \<and> dht_wf d' \<and>
    dht_list d' = tbl_add (dht_size d) (dht_list d) (n, v) \<and> dht_size d' = dht_size d"
proof -
  let ?l = "length n + length v"
  obtain d1 where d1: "hpack_dht_make_room d ?l = Some (?l + 32 \<le> dht_size d, d1)" "dht_wf d1"
    "dht_list d1 = evict (dht_size d) ?l (dht_list d)" "dht_size d1 = dht_size d"
    "?l + 32 \<le> dht_size d \<longrightarrow> dht_used d1 * 32 + dht_total d1 + ?l + 32 \<le> dht_size d"
    using hpack_dht_make_room_eq [OF wf len] by blast
  have l: "u32_add ?l 0 = ?l" using len by (simp add: u32_small)
  have lst: "tbl_add (dht_size d) (dht_list d) (n, v) = (if ?l + 32 \<le> dht_size d then (n, v) # dht_list d1 else [])"
    by (simp add: tbl_add_def d1(3) add.commute add.left_commute)
  consider (big) "\<not> ?l + 32 \<le> dht_size d" | (empty) "?l + 32 \<le> dht_size d" "dht_used d1 = 0"
    | (used) "?l + 32 \<le> dht_size d" "0 < dht_used d1" by blast
  then show ?thesis
  proof cases
    case big
    then show ?thesis using d1 l evict_all [of "dht_size d" ?l] by (auto simp: hpack_dht_insert_def Let_def lst)
  next
    case empty
    obtain d' where d': "dht_copy (d1\<lparr>dht_front := 0, dht_head := 0, dht_wrap := 1, dht_used := 1, dht_total := 0\<rparr>) 0
      (u32_sub (dht_size d) ?l) n v = Some d'" "dht_wf d'" "dht_list d' = [(n, v)]" "dht_size d' = dht_size d"
      using insert_empty [OF d1(2) empty(2)] empty d1(4) by auto
    have "dht_list d1 = []" using empty(2) by (metis length_0_conv length_dht_slots(3))
    then show ?thesis using d1(1,4) d' empty l by (simp add: hpack_dht_insert_def Let_def lst)
  next
    case used
    have b1: "blk_ok d1 b" using b blk_ok_cong [OF d1(4)] by simp
    have room: "dht_used d1 * 32 + dht_total d1 + ?l + 32 \<le> dht_size d1" using d1(4,5) used by simp
    obtain d2 hea wrap prev tail where d2: "dht_new_head (Some b) d1 = Some (Inr (d2, hea, wrap, prev, tail))"
      "head_ok d2 hea wrap prev tail" "dht_list d2 = dht_list d1" "dht_size d2 = dht_size d1"
      "dht_used d2 = dht_used d1" "dht_total d2 = dht_total d1"
      using dht_new_head_eq [OF d1(2) used(2) b1] room by auto
    have "blk_ok d2 b" using b1 blk_ok_cong [OF d2(4)] by simp
    then obtain d' where "dht_store (Some b) d2 (dht_used d2 + 1) hea wrap prev tail n v = Some d'" "dht_wf d'"
      "dht_list d' = (n, v) # dht_list d2" "dht_size d' = dht_size d2"
      using dht_store_eq [OF d2(2), of b n v] room d2 by auto
    then show ?thesis using d1(1,4) d2 used l by (simp add: hpack_dht_insert_def Let_def lst)
  qed
qed

section \<open>Lookups\<close>

lemma hpack_get_dte_eq:
  assumes "dht_wf d" and "i < dht_used d"
  shows "hpack_get_dte d (u16w (i + 1)) = Some (dht_slots d ! i)"
proof -
  have g: "dht_geom d" "dht_fits d" using assms by (auto simp: dht_wf_def)
  then have w: "dht_head d < dht_wrap d" "dht_used d \<le> dht_wrap d" "8 * dht_wrap d < 65536"
    using geom_bounds(2) [OF g] by (auto simp: dht_geom_def dht_fits_def)
  have "u16w (u16w (i + 1) + 65535) = i" using w assms(2) by (simp add: u16w_def mod_simps)
  then show ?thesis using w assms(2)
    by (auto simp: hpack_get_dte_def Let_def dht_slots_def slots_def slot_at_def)
qed

lemma hpack_idx_eq:
  assumes wf: "dht_wf d" and i: "i < dht_used d"
  shows "hpack_idx_to_name d (62 + i) = Some (fst (dht_list d ! i))" (is ?N)
    and "hpack_idx_to_value d (62 + i) = Some (snd (dht_list d ! i))" (is ?V)
proof -
  have g: "dht_geom d" "dht_fits d" using assms by (auto simp: dht_wf_def)
  note gb = geom_bounds [OF g]
  let ?s = "dht_slots d ! i"
  let ?e = "dht_dte d ! ?s"
  have s: "?s \<in> set (dht_slots d)" using i by (intro nth_mem) simp
  have ge: "get_dte d ?s = Some ?e" using gb(1) [OF s] gb(2) by (simp add: get_dte_def ld_def)
  have "?e \<in> set (dht_entries d)" using s by (auto simp: dht_entries_def)
  then have e: "dte_addr ?e + dte_len ?e \<le> length (dht_area d)" using gb(5) g(2) by (auto simp: dht_fits_def)
  have l: "dht_list d ! i = dte_hdr (dht_area d) ?e" using i by (simp add: dht_list_def dht_entries_def)
  have gd: "hpack_get_dte d (u16w (62 + i - HPACK_SHT_SIZE + 1)) = Some ?s"
    using hpack_get_dte_eq [OF wf i] by (simp add: HPACK_SHT_SIZE_def)
  show ?N using e unfolding hpack_idx_to_name_def gd
    by (simp add: HPACK_SHT_SIZE_def ge l dte_hdr_def dte_raw_def dte_len_def hpack_get_name_def ist2_def rd_def)
  show ?V using e unfolding hpack_idx_to_value_def gd
    by (simp add: HPACK_SHT_SIZE_def ge l dte_hdr_def dte_raw_def dte_len_def hpack_get_value_def ist2_def rd_def drop_take add.commute)
qed

section \<open>Tables in use\<close>

text \<open>The tables reached from a fresh one by insertions; the headers that were inserted are listed from the
  last one to the first. Every allocation succeeds.\<close>

inductive dht_reach :: "nat \<Rightarrow> (bytes \<times> bytes) list \<Rightarrow> hpack_dht \<Rightarrow> bool" where
  reach_alloc: "dht_fits (hpack_dht_init b sz) \<Longrightarrow> hpack_dht_alloc (Some b) sz = Some d \<Longrightarrow> dht_reach sz [] d"
| reach_insert: "dht_reach sz hs d \<Longrightarrow> blk_ok d b \<Longrightarrow> length n + length v < 1073741824 \<Longrightarrow>
    hpack_dht_insert (Some b) d n v = Some (r, d') \<Longrightarrow> dht_reach sz ((n, v) # hs) d'"

definition tbl_history :: "nat \<Rightarrow> (bytes \<times> bytes) list \<Rightarrow> (bytes \<times> bytes) list" where
  "tbl_history sz hs = foldr (\<lambda>h t. tbl_add sz t h) hs []"

lemma dht_reach_wf:
  "dht_reach sz hs d \<Longrightarrow> dht_wf d \<and> dht_size d = sz \<and> dht_list d = tbl_history sz hs"
proof (induction rule: dht_reach.induct)
  case (reach_alloc b sz d)
  then have "d = hpack_dht_init b sz" by (simp add: hpack_dht_alloc_def)
  then show ?case using wf_empty [OF reach_alloc(1)] by (simp add: hpack_dht_init_def tbl_history_def)
next
  case (reach_insert sz hs d b n v r d')
  then show ?case using hpack_dht_insert_eq [of d b n v] by (auto simp: tbl_history_def)
qed

lemma hpack_idx_error:
  assumes "dht_wf d" and "dht_used d \<le> i" and "i < 65535"
  shows "hpack_idx_to_name d (62 + i) = Some (cstr ''### ERR ###'')"
    and "hpack_idx_to_value d (62 + i) = Some (cstr ''### ERR ###'')"
proof -
  have "u16w (u16w (i + 1) + 65535) = i" using assms(3) by (simp add: u16w_def mod_simps)
  then have "hpack_get_dte d (u16w (62 + i - HPACK_SHT_SIZE + 1)) = None"
    using assms(2) by (simp add: hpack_get_dte_def HPACK_SHT_SIZE_def)
  then show "hpack_idx_to_name d (62 + i) = Some (cstr ''### ERR ###'')"
    and "hpack_idx_to_value d (62 + i) = Some (cstr ''### ERR ###'')"
    by (simp_all add: hpack_idx_to_name_def hpack_idx_to_value_def HPACK_SHT_SIZE_def)
qed

lemma length_hpack_sht: "length hpack_sht = 62"
  by (simp add: hpack_sht_def hpack_sht_str_def)

lemma hpack_idx_static:
  "i < 62 \<Longrightarrow> hpack_idx_to_name d i = Some (fst (hpack_sht ! i)) \<and> hpack_idx_to_value d i = Some (snd (hpack_sht ! i))"
  by (simp add: hpack_idx_to_name_def hpack_idx_to_value_def HPACK_SHT_SIZE_def ld_def length_hpack_sht)

section \<open>Properties\<close>

text \<open>The debugging check accepts the well-formed tables.\<close>

lemma check_loop_eq:
  "\<lbrakk> successively (\<lambda>a b. b = slot_next (dht_wrap d) a) ss; \<forall>s \<in> set ss. s < length (dht_dte d);
     t + sum_list (map (\<lambda>s. dte_len (dht_dte d ! s)) ss) < 65536 \<rbrakk> \<Longrightarrow>
   check_loop d (length ss) (hd ss) t = Some (t + sum_list (map (\<lambda>s. dte_len (dht_dte d ! s)) ss))"
proof (induction ss arbitrary: t)
  case (Cons s ss)
  have g: "get_dte d s = Some (dht_dte d ! s)" using Cons.prems(2) by (simp add: get_dte_def ld_def)
  have t: "u32_add t (dte_len (dht_dte d ! s)) = t + dte_len (dht_dte d ! s)"
    using Cons.prems(3) by (intro u32_add_small) simp
  have "check_loop d (length ss) (slot_next (dht_wrap d) s) (t + dte_len (dht_dte d ! s)) =
      Some (t + dte_len (dht_dte d ! s) + sum_list (map (\<lambda>s. dte_len (dht_dte d ! s)) ss))"
    using Cons.IH [of "t + dte_len (dht_dte d ! s)"] Cons.prems by (cases ss) auto
  then show ?case using g t by (auto simp: Let_def slot_next_def add.assoc split: if_splits)
qed simp

lemma check_consistency_wf:
  assumes wf: "dht_wf d"
  shows "hpack_dht_check_consistency d = Some ()"
proof (cases "dht_used d = 0")
  case False
  then have g: "dht_geom d" "dht_fits d" using wf by (auto simp: dht_wf_def)
  note gb = geom_bounds [OF g]
  have hw: "dht_head d < dht_wrap d" "dht_used d \<le> dht_wrap d" "0 < dht_used d" using g(1) by (auto simp: dht_geom_def)
  let ?ss = "rev (dht_slots d)"
  have sum: "sum_list (map (\<lambda>s. dte_len (dht_dte d ! s)) ?ss) = dht_total d"
    using wf by (simp add: dht_wf_def dht_entries_def rev_map [symmetric] comp_def)
  have "hd ?ss = slot_at (dht_head d) (dht_wrap d) (dht_used d - 1)"
    using hw(3) by (cases "dht_used d") (simp_all add: dht_slots_def slots_Suc)
  then have tl: "hpack_dht_get_tail d = hd ?ss"
    using tail_eq [OF hw(1,2,3) gb(3)] by (simp add: hpack_dht_get_tail_def)
  have "check_loop d (length ?ss) (hd ?ss) 0 = Some (0 + sum_list (map (\<lambda>s. dte_len (dht_dte d ! s)) ?ss))"
  proof (rule check_loop_eq)
    show "successively (\<lambda>a b. b = slot_next (dht_wrap d) a) ?ss"
      using successively_slots [OF hw(1,2)] by (simp add: dht_slots_def)
    show "\<forall>s \<in> set ?ss. s < length (dht_dte d)" using gb(1,2) by fastforce
    show "0 + sum_list (map (\<lambda>s. dte_len (dht_dte d ! s)) ?ss) < 65536"
      unfolding sum using wf by (auto simp: dht_wf_def dht_fits_def)
  qed
  then have "check_loop d (dht_used d) (hd ?ss) 0 = Some (dht_total d)" unfolding sum by simp
  then show ?thesis using hw gb(1) [OF gb(4)] tl by (simp add: hpack_dht_check_consistency_def Let_def)
qed (simp add: hpack_dht_check_consistency_def)

text \<open>A block and an empty table of 64 bytes, for the examples.\<close>

definition ex_blk :: hpack_dht where
  "ex_blk = \<lparr>dht_size = 64, dht_total = 0, dht_front = 0, dht_wrap = 0, dht_head = 0, dht_used = 0,
     dht_dte = replicate 6 \<lparr>dte_addr = 0, dte_nlen = 0, dte_vlen = 0\<rparr>, dht_area = replicate 64 0\<rparr>"

lemma ex_blk_wf: "dht_wf ex_blk" "dht_list ex_blk = []" "blk_ok ex_blk ex_blk" "dht_size ex_blk = 64"
  using wf_empty [of ex_blk] by (simp_all add: ex_blk_def dht_fits_def blk_ok_def)

lemma ex_insert: "\<exists>d. hpack_dht_insert (Some ex_blk) ex_blk [97] [98, 99] = Some (0, d) \<and> dht_wf d \<and> dht_list d = [([97], [98, 99])]"
  using hpack_dht_insert_eq [OF ex_blk_wf(1,3), of "[97]" "[98, 99]"]
  by (auto simp: ex_blk_wf tbl_add_def evict.simps)

text \<open>C2. \<^verbatim>\<open>hpack_dht_insert\<close> implements the table of the protocol: given a well-formed table and memory for a
  temporary block, it returns 0 and leaves a well-formed table of the same size whose headers are the new
  one followed by those that are not evicted, or no header at all when the new one is larger than the
  table; whatever the layout was, that is in every combination of wrapping and defragmentation, no access
  is outside the block.\<close>

theorem hpack_dht_insert_refines:
  assumes "dht_wf d" and "blk_ok d b" and "length n + length v < 1073741824"
  shows "\<exists>d'. hpack_dht_insert (Some b) d n v = Some (0, d') \<and> dht_wf d' \<and> dht_size d' = dht_size d \<and>
    dht_list d' = tbl_add (dht_size d) (dht_list d) (n, v)"
  using hpack_dht_insert_eq [OF assms] by blast

theorem hpack_dht_insert_refines_witness:
  "dht_wf ex_blk \<and> blk_ok ex_blk ex_blk \<and> length ([97] :: bytes) + length ([98, 99] :: bytes) < 1073741824 \<and>
   (\<exists>d'. hpack_dht_insert (Some ex_blk) ex_blk [97] [98, 99] = Some (0, d') \<and> dht_wf d' \<and> dht_size d' = 64 \<and>
     dht_list d' = [([97], [98, 99])])"
  using hpack_dht_insert_refines [OF ex_blk_wf(1,3), of "[97]" "[98, 99]"]
  by (simp add: ex_blk_wf tbl_add_def evict.simps)

text \<open>C3. The invariant of the dynamic table: after any sequence of insertions into a fresh table of less
  than 64 kB, the table is well-formed, holds exactly the headers that the protocol prescribes for that
  history, its size as the protocol counts it (32 bytes of overhead per header) is within the limit, and
  \<^verbatim>\<open>hpack_dht_check_consistency\<close> accepts it.\<close>

theorem hpack_dht_reach_invariant:
  assumes "dht_reach sz hs d"
  shows "dht_wf d \<and> dht_list d = tbl_history sz hs \<and> hdr_size (dht_list d) \<le> sz \<and> hpack_dht_check_consistency d = Some ()"
  using dht_reach_wf [OF assms] hdr_size_list [of d] check_consistency_wf [of d] by (simp add: dht_wf_def)

theorem hpack_dht_reach_invariant_witness:
  "\<exists>d. dht_reach 64 [([97], [98, 99])] d \<and> dht_wf d \<and> dht_list d = tbl_history 64 [([97], [98, 99])] \<and> hdr_size (dht_list d) \<le> 64"
proof -
  have "hpack_dht_alloc (Some ex_blk) 64 = Some ex_blk" "dht_fits (hpack_dht_init ex_blk 64)"
    by (simp_all add: hpack_dht_alloc_def hpack_dht_init_def ex_blk_def dht_fits_def)
  then have "dht_reach 64 [] ex_blk" by (intro reach_alloc)
  moreover obtain d where "hpack_dht_insert (Some ex_blk) ex_blk [97] [98, 99] = Some (0, d)" using ex_insert by blast
  ultimately have "dht_reach 64 [([97], [98, 99])] d" using ex_blk_wf(3) by (intro reach_insert) simp_all
  then show ?thesis using hpack_dht_reach_invariant by blast
qed

text \<open>Lookups in the index space of the protocol: for every valid index, \<^verbatim>\<open>hpack_idx_to_name\<close> and
  \<^verbatim>\<open>hpack_idx_to_value\<close> return the entry of the static table followed by the dynamic one, newest first.
  The other indices up to the width of the index give the error string.\<close>

theorem hpack_idx_lookup:
  assumes "dht_wf d" and "idx < 65597"
  shows "(hpack_idx_to_name d idx, hpack_idx_to_value d idx) =
    (if hpack_valid_idx d idx
     then (Some (fst ((hpack_sht @ dht_list d) ! idx)), Some (snd ((hpack_sht @ dht_list d) ! idx)))
     else (Some (cstr ''### ERR ###''), Some (cstr ''### ERR ###'')))"
proof -
  let ?i = "idx - 62"
  consider (static) "idx < 62" | (dyn) "idx = 62 + ?i" "?i < dht_used d" | (bad) "idx = 62 + ?i" "dht_used d \<le> ?i" "?i < 65535"
    using assms(2) by linarith
  then show ?thesis
  proof cases
    case static
    then show ?thesis using hpack_idx_static [of idx d] by (simp add: hpack_valid_idx_def HPACK_SHT_SIZE_def nth_append length_hpack_sht)
  next
    case dyn
    then have "hpack_valid_idx d idx" by (simp add: hpack_valid_idx_def HPACK_SHT_SIZE_def)
    moreover have "(hpack_sht @ dht_list d) ! idx = dht_list d ! ?i" using dyn(1) by (simp add: nth_append length_hpack_sht)
    ultimately show ?thesis using hpack_idx_eq [OF assms(1) dyn(2)] dyn(1) by simp
  next
    case bad
    then have "\<not> hpack_valid_idx d idx" by (simp add: hpack_valid_idx_def HPACK_SHT_SIZE_def)
    then show ?thesis using hpack_idx_error [OF assms(1) bad(2,3)] bad(1) by simp
  qed
qed

theorem hpack_idx_lookup_witness:
  "\<exists>d. dht_wf d \<and> hpack_idx_to_name d 62 = Some [97] \<and> hpack_idx_to_value d 62 = Some [98, 99] \<and>
     hpack_idx_to_name d 63 = Some (cstr ''### ERR ###'')"
proof -
  obtain d where d: "dht_wf d" "dht_list d = [([97], [98, 99])]" using ex_insert by blast
  then have "dht_used d = 1" using length_dht_slots(3) [of d] by simp
  then show ?thesis using d hpack_idx_lookup [OF d(1), of 62] hpack_idx_lookup [OF d(1), of 63]
    by (intro exI [of _ d]) (simp add: hpack_valid_idx_def HPACK_SHT_SIZE_def nth_append length_hpack_sht)
qed

text \<open>The last defragmentation of \<^verbatim>\<open>hpack_dht_insert\<close> is not protected against a lack of memory: when the
  table has a hole that is large enough for the protocol, but neither the room above the entries nor the
  room below them suits the new header, a failed allocation is dereferenced instead of being reported.\<close>

theorem hpack_dht_insert_null:
  assumes "dht_used d \<noteq> 0" and "dht_size d < 65536"
    and "dht_used d * 32 + dht_total d + (length n + length v) + 32 \<le> dht_size d"
    and "dht_new_head None d = Some (Inr (d, hea, wrap, dht_front d, tail))"
    and "get_dte d (dht_front d) = Some f" and "get_dte d tail = Some t"
    and "u32_sub (dte_addr f) (DHT_HDR + wrap * DTE_SIZE) < length n + length v"
    and "u32_sub (u32_sub (dht_size d) (dte_addr t)) (dte_len t) < length n + length v"
  shows "hpack_dht_insert None d n v = None"
proof -
  have small: "u32_add (length n + length v) 0 = length n + length v"
    "u32_add (u32_add (u32_add (dht_used d * 32) (dht_total d)) (length n + length v)) 32 =
       dht_used d * 32 + dht_total d + (length n + length v) + 32"
    using assms(2,3) by (simp_all add: u32_small)
  have "dht_store None d (dht_used d + 1) hea wrap (dht_front d) tail n v = None"
    using assms(5-8) by (simp add: dht_store_def Let_def hpack_dht_defrag_def hpack_dht_alloc_def)
  then show ?thesis using assms(1,3,4) small by (simp add: hpack_dht_insert_def hpack_dht_make_room_def Let_def)
qed

definition ex_hole :: hpack_dht where
  "ex_hole = \<lparr>dht_size = 160, dht_total = 40, dht_front = 1, dht_wrap = 2, dht_head = 1, dht_used = 1,
     dht_dte = replicate 18 \<lparr>dte_addr = 80, dte_nlen = 40, dte_vlen = 0\<rparr>, dht_area = replicate 160 0\<rparr>"

theorem hpack_dht_insert_null_witness:
  "dht_wf ex_hole \<and> hpack_dht_insert None ex_hole (replicate 50 97) [] = None"
proof
  show "dht_wf ex_hole"
    by (auto simp: ex_hole_def dht_wf_def dht_fits_def dht_geom_def dht_entries_def dht_slots_def slots_def slot_at_def
        dte_len_def intro: exI [of _ "[1]"])
  have g: "get_dte ex_hole 1 = Some \<lparr>dte_addr = 80, dte_nlen = 40, dte_vlen = 0\<rparr>"
    by (simp add: ex_hole_def get_dte_def ld_def)
  show "hpack_dht_insert None ex_hole (replicate 50 97) [] = None"
  proof (rule hpack_dht_insert_null [OF _ _ _ _ _ g])
    show "dht_new_head None ex_hole = Some (Inr (ex_hole, 2, 3, dht_front ex_hole, 1))"
      using g by (simp add: dht_new_head_def Let_def ex_hole_def DHT_HDR_def DTE_SIZE_def hpack_dht_get_tail_def u32_sub_def u32_add_def)
    show "get_dte ex_hole (dht_front ex_hole) = Some \<lparr>dte_addr = 80, dte_nlen = 40, dte_vlen = 0\<rparr>"
      using g by (simp add: ex_hole_def)
  qed (simp_all add: ex_hole_def dte_len_def u32_sub_def DHT_HDR_def DTE_SIZE_def)
qed

end
