(* ===== verification/HpackEnc.thy ===== *)
theory HpackEnc
  imports Buf Ist HpackTbl
begin

text \<open>
  The HPACK encoder: \<^verbatim>\<open>src/hpack-enc.c\<close> and \<^verbatim>\<open>include/haproxy/hpack-enc.h\<close>. It writes into an aligned
  buffer (a chunk, \<^verbatim>\<open>head == 0\<close>) and never uses the dynamic table. A header string is an \<^verbatim>\<open>ist\<close> with the
  memory object that it designates. The variables of type \<^verbatim>\<open>int\<close> are mathematical integers; the
  conversions from and to \<^verbatim>\<open>size_t\<close> are written out.

  The theorems show that the encoding of a string length is decoded back, that the search in the
  compressed table of names agrees with the static table, and that every encoder appends exactly the
  representation that the protocol gives, or leaves the contents as they were.
\<close>

unbundle bit_operations_syntax

section \<open>The tables\<close>

definition hpack_enc_stream :: bytes where
  "hpack_enc_stream = [
    3, 21, 97, 103, 101, 3, 60, 118, 105, 97, 4, 33, 100, 97, 116, 101, 4, 38, 104, 111,
    115, 116, 4, 34, 101, 116, 97, 103, 4, 37, 102, 114, 111, 109, 4, 45, 108, 105, 110, 107,
    4, 59, 118, 97, 114, 121, 5, 4, 58, 112, 97, 116, 104, 5, 22, 97, 108, 108, 111, 119,
    5, 50, 114, 97, 110, 103, 101, 6, 19, 97, 99, 99, 101, 112, 116, 6, 54, 115, 101, 114,
    118, 101, 114, 6, 32, 99, 111, 111, 107, 105, 101, 6, 35, 101, 120, 112, 101, 99, 116, 7,
    51, 114, 101, 102, 101, 114, 101, 114, 7, 36, 101, 120, 112, 105, 114, 101, 115, 7, 2, 58,
    109, 101, 116, 104, 111, 100, 7, 6, 58, 115, 99, 104, 101, 109, 101, 7, 8, 58, 115, 116,
    97, 116, 117, 115, 7, 52, 114, 101, 102, 114, 101, 115, 104, 8, 46, 108, 111, 99, 97, 116,
    105, 111, 110, 8, 39, 105, 102, 45, 109, 97, 116, 99, 104, 8, 42, 105, 102, 45, 114, 97,
    110, 103, 101, 10, 58, 117, 115, 101, 114, 45, 97, 103, 101, 110, 116, 10, 55, 115, 101, 116,
    45, 99, 111, 111, 107, 105, 101, 10, 1, 58, 97, 117, 116, 104, 111, 114, 105, 116, 121, 11,
    53, 114, 101, 116, 114, 121, 45, 97, 102, 116, 101, 114, 12, 31, 99, 111, 110, 116, 101, 110,
    116, 45, 116, 121, 112, 101, 12, 47, 109, 97, 120, 45, 102, 111, 114, 119, 97, 114, 100, 115,
    13, 24, 99, 97, 99, 104, 101, 45, 99, 111, 110, 116, 114, 111, 108, 13, 44, 108, 97, 115,
    116, 45, 109, 111, 100, 105, 102, 105, 101, 100, 13, 18, 97, 99, 99, 101, 112, 116, 45, 114,
    97, 110, 103, 101, 115, 13, 41, 105, 102, 45, 110, 111, 110, 101, 45, 109, 97, 116, 99, 104,
    13, 23, 97, 117, 116, 104, 111, 114, 105, 122, 97, 116, 105, 111, 110, 13, 30, 99, 111, 110,
    116, 101, 110, 116, 45, 114, 97, 110, 103, 101, 14, 28, 99, 111, 110, 116, 101, 110, 116, 45,
    108, 101, 110, 103, 116, 104, 14, 15, 97, 99, 99, 101, 112, 116, 45, 99, 104, 97, 114, 115,
    101, 116, 15, 16, 97, 99, 99, 101, 112, 116, 45, 101, 110, 99, 111, 100, 105, 110, 103, 15,
    17, 97, 99, 99, 101, 112, 116, 45, 108, 97, 110, 103, 117, 97, 103, 101, 16, 26, 99, 111,
    110, 116, 101, 110, 116, 45, 101, 110, 99, 111, 100, 105, 110, 103, 16, 27, 99, 111, 110, 116,
    101, 110, 116, 45, 108, 97, 110, 103, 117, 97, 103, 101, 16, 29, 99, 111, 110, 116, 101, 110,
    116, 45, 108, 111, 99, 97, 116, 105, 111, 110, 16, 61, 119, 119, 119, 45, 97, 117, 116, 104,
    101, 110, 116, 105, 99, 97, 116, 101, 17, 57, 116, 114, 97, 110, 115, 102, 101, 114, 45, 101,
    110, 99, 111, 100, 105, 110, 103, 17, 40, 105, 102, 45, 109, 111, 100, 105, 102, 105, 101, 100,
    45, 115, 105, 110, 99, 101, 18, 48, 112, 114, 111, 120, 121, 45, 97, 117, 116, 104, 101, 110,
    116, 105, 99, 97, 116, 101, 19, 25, 99, 111, 110, 116, 101, 110, 116, 45, 100, 105, 115, 112,
    111, 115, 105, 116, 105, 111, 110, 19, 43, 105, 102, 45, 117, 110, 109, 111, 100, 105, 102, 105,
    101, 100, 45, 115, 105, 110, 99, 101, 19, 49, 112, 114, 111, 120, 121, 45, 97, 117, 116, 104,
    111, 114, 105, 122, 97, 116, 105, 111, 110, 25, 56, 115, 116, 114, 105, 99, 116, 45, 116, 114,
    97, 110, 115, 112, 111, 114, 116, 45, 115, 101, 99, 117, 114, 105, 116, 121, 27, 20, 97, 99,
    99, 101, 115, 115, 45, 99, 111, 110, 116, 114, 111, 108, 45, 97, 108, 108, 111, 119, 45, 111,
    114, 105, 103, 105, 110, 0]"

definition hpack_pos_len :: "int list" where
  "hpack_pos_len = [
    -1, -1, -1, 0, 10, 46, 67, 99, 153, -1, 183, 219, 232, 260, 350, 382,
    416, 488, 526, 546, -1, -1, -1, -1, -1, 609, -1, 636, -1, -1, -1, -1]"

section \<open>Lengths\<close>

definition hpack_len_to_bytes :: "nat \<Rightarrow> nat" where
  "hpack_len_to_bytes len =
     (let slen = ssz len - 127 in
      if slen < 0 then 1
      else if slen < 16384 then (if slen < 128 then 2 else 3)
      else if slen < 2097152 then 4
      else 0)"

text \<open>A write at a position of type \<^verbatim>\<open>int\<close>.\<close>

definition sti :: "bytes \<Rightarrow> int \<Rightarrow> byte \<Rightarrow> bytes option" where
  "sti m i c = (if i < 0 then None else st m (nat i) c)"

function encode_len_loop :: "bytes \<Rightarrow> int \<Rightarrow> int \<Rightarrow> (bytes \<times> int \<times> int) option" where
  "encode_len_loop out pos code =
     (if code \<ge> 128 then do {
        out \<leftarrow> sti out pos (word_of_int code OR 128);
        encode_len_loop out (pos + 1) (code div 128)
      } else Some (out, pos, code))"
  by pat_completeness auto
termination by (relation "measure (\<lambda>(out, pos, code). nat code)") auto

declare encode_len_loop.simps [simp del]

definition hpack_encode_len :: "bytes \<Rightarrow> int \<Rightarrow> int \<Rightarrow> (int \<times> bytes) option" where
  "hpack_encode_len out pos len =
     (let code = len - 127 in
      if code < 0 then do {
        out \<leftarrow> sti out pos (word_of_int len);
        Some (pos + 1, out)
      } else do {
        out \<leftarrow> sti out pos 127;
        (out, pos, code) \<leftarrow> encode_len_loop out (pos + 1) code;
        out \<leftarrow> sti out pos (word_of_int code);
        Some (pos + 1, out)
      })"

text \<open>\<^verbatim>\<open>memcpy\<close> of a string to a position.\<close>

definition ist_put :: "bytes \<Rightarrow> bytes \<Rightarrow> int \<Rightarrow> ist \<Rightarrow> bytes option" where
  "ist_put vm out pos s =
     (if ist_len s = 0 then Some out
      else if pos < 0 then None
      else do {
        p \<leftarrow> ist_ptr s;
        xs \<leftarrow> rd vm p (ist_len s);
        wr out (nat pos) xs
      })"

section \<open>Names of the static table\<close>

definition hpack_encode_short_idx :: "bytes \<Rightarrow> buffer \<Rightarrow> byte \<Rightarrow> ist \<Rightarrow> (int \<times> buffer) option" where
  "hpack_encode_short_idx vm out idx val =
     (if sz_add (sz_add (buf_data out) 2) (ist_len val) > buf_size out then Some (0, out)
      else do {
        ar \<leftarrow> st (buf_area out) (buf_data out) (idx OR 0x40);
        let dat = sz_add (buf_data out) 1;
        ar \<leftarrow> st ar dat (word_of_nat (ist_len val));
        let dat = sz_add dat 1;
        (_, ar) \<leftarrow> ist2bin vm ar (Some dat) val;
        Some (1, out\<lparr>buf_area := ar, buf_data := sz_add dat (ist_len val)\<rparr>)
      })"

definition hpack_encode_long_idx :: "bytes \<Rightarrow> buffer \<Rightarrow> byte \<Rightarrow> ist \<Rightarrow> (int \<times> buffer) option" where
  "hpack_encode_long_idx vm out idx val =
     (let len = to_int32 (int (buf_data out));
          lb = hpack_len_to_bytes (ist_len val) in
      if lb = 0 \<or> sz_add (usz (1 + len + int lb)) (ist_len val) > buf_size out then Some (0, out)
      else do {
        ar \<leftarrow> sti (buf_area out) len (idx OR 0x40);
        let len = len + 1;
        (len, ar) \<leftarrow> hpack_encode_len ar len (to_int32 (int (ist_len val)));
        ar \<leftarrow> ist_put vm ar len val;
        let len = to_int32 (int (sz_add (usz len) (ist_len val)));
        Some (1, out\<lparr>buf_area := ar, buf_data := usz len\<rparr>)
      })"

text \<open>The one-byte code of the usual statuses, zero for the others.\<close>

definition status_code :: "nat \<Rightarrow> byte" where
  "status_code status =
     (if status \<le> 304 then
        if status \<le> 204 then (if status = 204 then 0x89 else if status = 200 then 0x88 else 0)
        else (if status = 304 then 0x8b else if status = 206 then 0x8a else 0)
      else if status \<le> 404 then (if status = 404 then 0x8d else if status = 400 then 0x8c else 0)
      else (if status = 500 then 0x8e else 0))"

definition hpack_encode_int_status :: "buffer \<Rightarrow> nat \<Rightarrow> (int \<times> buffer) option" where
  "hpack_encode_int_status out status =
     (let len = to_int32 (int (buf_data out)) + 1;
          sz = to_int32 (int (buf_size out)) in
      if len > sz then Some (0, out)
      else if status_code status \<noteq> 0 then do {
        ar \<leftarrow> sti (buf_area out) (len - 1) (status_code status);
        Some (1, out\<lparr>buf_area := ar, buf_data := usz len\<rparr>)
      }
      else
        let len = len + 4 in
        if len > sz then Some (0, out)
        else do {
          ar \<leftarrow> sti (buf_area out) (len - 5) 0x48;
          ar \<leftarrow> sti ar (len - 4) 0x03;
          ar \<leftarrow> sti ar (len - 3) (word_of_nat (48 + status div 100));
          ar \<leftarrow> sti ar (len - 2) (word_of_nat (48 + status div 10 mod 10));
          let c = word_of_nat (48 + status mod 10);
          ar \<leftarrow> sti ar (len - 1) c;
          Some (1, out\<lparr>buf_area := ar, buf_data := usz len\<rparr>)
        })"

definition hpack_encode_str_status :: "bytes \<Rightarrow> buffer \<Rightarrow> nat \<Rightarrow> ist \<Rightarrow> (int \<times> buffer) option" where
  "hpack_encode_str_status vm out status str =
     (if status = 200 \<or> status = 304 then
        if buf_data out \<ge> buf_size out then Some (0, out)
        else do {
          ar \<leftarrow> st (buf_area out) (buf_data out) (if status = 304 then 0x8b else 0x88);
          Some (1, out\<lparr>buf_area := ar, buf_data := sz_add (buf_data out) 1\<rparr>)
        }
      else hpack_encode_short_idx vm out 8 str)"

datatype http_meth_t =
    HTTP_METH_OPTIONS | HTTP_METH_GET | HTTP_METH_HEAD | HTTP_METH_POST | HTTP_METH_PUT
  | HTTP_METH_DELETE | HTTP_METH_TRACE | HTTP_METH_CONNECT | HTTP_METH_OTHER

text \<open>The append of one byte that the next three encoders do for an indexed field.\<close>

definition out_byte :: "buffer \<Rightarrow> byte \<Rightarrow> (int \<times> buffer) option" where
  "out_byte out c = do {
     ar \<leftarrow> st (buf_area out) (buf_data out) c;
     Some (1, out\<lparr>buf_area := ar, buf_data := sz_add (buf_data out) 1\<rparr>)
   }"

definition hpack_encode_method :: "bytes \<Rightarrow> buffer \<Rightarrow> http_meth_t \<Rightarrow> ist \<Rightarrow> (int \<times> buffer) option" where
  "hpack_encode_method vm out meth str =
     (if buf_data out < buf_size out \<and> meth = HTTP_METH_GET then out_byte out 0x82
      else if buf_data out < buf_size out \<and> meth = HTTP_METH_POST then out_byte out 0x83
      else hpack_encode_short_idx vm out 2 str)"

text \<open>The comparison with a constant string.\<close>

definition isteq_const :: "bytes \<Rightarrow> ist \<Rightarrow> string \<Rightarrow> bool option" where
  "isteq_const m s lit = isteq m (cstr lit) s (ist2 (Some 0) (length lit))"

definition hpack_encode_scheme :: "bytes \<Rightarrow> buffer \<Rightarrow> ist \<Rightarrow> (int \<times> buffer) option" where
  "hpack_encode_scheme vm out scheme = do {
     https \<leftarrow> (if buf_data out < buf_size out then isteq_const vm scheme ''https'' else Some False);
     if https then out_byte out 0x87
     else do {
       http \<leftarrow> (if buf_data out < buf_size out then isteq_const vm scheme ''http'' else Some False);
       if http then out_byte out 0x86
       else hpack_encode_short_idx vm out 6 scheme
     }
   }"

definition hpack_encode_path :: "bytes \<Rightarrow> buffer \<Rightarrow> ist \<Rightarrow> (int \<times> buffer) option" where
  "hpack_encode_path vm out path = do {
     root \<leftarrow> (if buf_data out < buf_size out then isteq_const vm path ''/'' else Some False);
     if root then out_byte out 0x84
     else do {
       index \<leftarrow> (if buf_data out < buf_size out then isteq_const vm path ''/index.html'' else Some False);
       if index then out_byte out 0x85
       else if ist_len path < 127 then hpack_encode_short_idx vm out 4 path
       else hpack_encode_long_idx vm out 4 path
     }
   }"

section \<open>Any header\<close>

text \<open>The loop of \<^verbatim>\<open>hpack_encode_header\<close> over the names of the same length in the stream: \<open>Some None\<close> when
  the name is not there.\<close>

function enc_search :: "bytes \<Rightarrow> ist \<Rightarrow> nat \<Rightarrow> byte option option" where
  "enc_search nm n pos = do {
     let pos = pos + 1;
     idx \<leftarrow> ld hpack_enc_stream pos;
     let pos = pos + 1 + ist_len n;
     eq \<leftarrow> isteq hpack_enc_stream nm (ist2 (Some (pos - ist_len n)) (ist_len n)) n;
     if eq then Some (Some idx)
     else do {
       c \<leftarrow> ld hpack_enc_stream pos;
       if unat c = ist_len n then enc_search nm n pos else Some None
     }
   }"
  by pat_completeness auto
termination
  by (relation "measure (\<lambda>(nm, n, pos). length hpack_enc_stream - pos)") (auto simp: ld_def split: if_splits)

declare enc_search.simps [simp del]

definition enc_find :: "bytes \<Rightarrow> ist \<Rightarrow> byte option option" where
  "enc_find nm n =
     (if ist_len n \<ge> 32 then Some None
      else do {
        pos \<leftarrow> ld hpack_pos_len (ist_len n);
        if pos \<ge> 0 then enc_search nm n (nat pos) else Some None
      })"

text \<open>The name of a header that is not in the table; the result is \<open>Some None\<close> when it does not fit.\<close>

definition enc_literal :: "bytes \<Rightarrow> bytes \<Rightarrow> int \<Rightarrow> int \<Rightarrow> ist \<Rightarrow> (bytes \<times> int) option option" where
  "enc_literal nm ar len sz n =
     (if ist_len n < 127 \<and> sz_add (usz (len + 2)) (ist_len n) \<le> usz sz then do {
        ar \<leftarrow> sti ar len 0;
        let len = len + 1;
        ar \<leftarrow> sti ar len (word_of_nat (ist_len n));
        let len = len + 1;
        (_, ar) \<leftarrow> ist2bin nm ar (Some (nat len)) n;
        Some (Some (ar, to_int32 (int (sz_add (usz len) (ist_len n)))))
      }
      else if hpack_len_to_bytes (ist_len n) \<noteq> 0 \<and>
              sz_add (usz (len + 1 + int (hpack_len_to_bytes (ist_len n)))) (ist_len n) \<le> usz sz then do {
        ar \<leftarrow> sti ar len 0;
        let len = len + 1;
        (len, ar) \<leftarrow> hpack_encode_len ar len (to_int32 (int (ist_len n)));
        (_, ar) \<leftarrow> ist2bin nm ar (Some (nat len)) n;
        Some (Some (ar, to_int32 (int (sz_add (usz len) (ist_len n)))))
      }
      else Some None)"

definition hpack_encode_header :: "bytes \<Rightarrow> bytes \<Rightarrow> buffer \<Rightarrow> ist \<Rightarrow> ist \<Rightarrow> (int \<times> buffer) option" where
  "hpack_encode_header nm vm out n v =
     (let len = to_int32 (int (buf_data out));
          sz = to_int32 (int (buf_size out)) in
      if len \<ge> sz then Some (0, out)
      else do {
        found \<leftarrow> enc_find nm n;
        r \<leftarrow> (case found of
            Some idx \<Rightarrow> do {
              ar \<leftarrow> sti (buf_area out) len (idx OR 0x40);
              Some (Some (ar, len + 1))
            }
          | None \<Rightarrow> enc_literal nm (buf_area out) len sz n);
        case r of None \<Rightarrow> Some (0, out)
        | Some (ar, len) \<Rightarrow>
            let lb = hpack_len_to_bytes (ist_len v) in
            if lb = 0 \<or> sz_add (usz (len + int lb)) (ist_len v) > usz sz then Some (0, out\<lparr>buf_area := ar\<rparr>)
            else do {
              (len, ar) \<leftarrow> hpack_encode_len ar len (to_int32 (int (ist_len v)));
              ar \<leftarrow> ist_put vm ar len v;
              let len = to_int32 (int (sz_add (usz len) (ist_len v)));
              Some (1, out\<lparr>buf_area := ar, buf_data := usz len\<rparr>)
            }
      })"

section \<open>Lengths\<close>

text \<open>The encoding of an integer after its prefix, seven bits at a time, and of the length of a string.\<close>

fun varint7 :: "nat \<Rightarrow> bytes" where
  "varint7 c = (if c < 128 then [word_of_nat c] else word_of_nat (128 + c mod 128) # varint7 (c div 128))"

declare varint7.simps [simp del]

definition hpack_len_enc :: "nat \<Rightarrow> bytes" where
  "hpack_len_enc n = (if n < 127 then [word_of_nat n] else 127 # varint7 (n - 127))"

lemma word_of_int_or_128: "word_of_int (int c) OR (128 :: byte) = word_of_nat (128 + c mod 128)"
proof -
  have "unat (word_of_nat c :: byte) mod 128 = c mod 128" by (simp add: unat_byte_of_nat mod_mod_cancel)
  then show ?thesis using byte_or_128 [of "word_of_nat c :: byte"] by simp
qed

lemma length_varint7: "c < 2097152 \<Longrightarrow> length (varint7 c) = (if c < 128 then 1 else if c < 16384 then 2 else 3)"
  by (simp add: varint7.simps [of c] varint7.simps [of "c div 128"] varint7.simps [of "c div 16384"] div_mult2_eq [symmetric]
      less_mult_imp_div_less) linarith

lemma length_hpack_len_enc:
  assumes "n < 2097279"
  shows "length (hpack_len_enc n) = hpack_len_to_bytes n"
  using assms length_varint7 [of "n - 127"]
  by (auto simp: hpack_len_enc_def hpack_len_to_bytes_def ssz_small Let_def)

lemma hpack_len_to_bytes_0: "n < 9223372036854775808 \<Longrightarrow> hpack_len_to_bytes n = 0 \<longleftrightarrow> 2097279 \<le> n"
  by (auto simp: hpack_len_to_bytes_def ssz_small Let_def)

lemma sti_int: "p < length m \<Longrightarrow> sti m (int p) c = Some (blit m p [c])"
  by (simp add: sti_def st_def blit_single)

lemma encode_len_loop_eq:
  "p + length (varint7 c) \<le> length out \<Longrightarrow>
   \<exists>out' code. encode_len_loop out (int p) (int c) = Some (out', int (p + length (varint7 c)) - 1, code) \<and>
     out' = blit out p (butlast (varint7 c)) \<and> word_of_int code = last (varint7 c)"
proof (induction c arbitrary: p out rule: varint7.induct)
  case (1 c)
  show ?case
  proof (cases "c < 128")
    case True
    then show ?thesis by (simp add: encode_len_loop.simps varint7.simps)
  next
    case False
    have v: "varint7 c = word_of_nat (128 + c mod 128) # varint7 (c div 128)" using False by (simp add: varint7.simps)
    have ne: "varint7 (c div 128) \<noteq> []" by (subst varint7.simps) simp
    let ?o = "blit out p [word_of_nat (128 + c mod 128)]"
    have s: "sti out (int p) (word_of_int (int c) OR 128) = Some ?o"
      using "1.prems" v unfolding word_of_int_or_128 by (intro sti_int) simp
    have "\<exists>out' code. encode_len_loop ?o (int (p + 1)) (int (c div 128)) =
        Some (out', int (p + 1 + length (varint7 (c div 128))) - 1, code) \<and>
      out' = blit ?o (p + 1) (butlast (varint7 (c div 128))) \<and> word_of_int code = last (varint7 (c div 128))"
      using "1.IH" [OF False, of "p + 1" ?o] "1.prems" v by simp
    then obtain code where r: "encode_len_loop ?o (int (p + 1)) (int (c div 128)) =
        Some (blit ?o (p + 1) (butlast (varint7 (c div 128))), int (p + 1 + length (varint7 (c div 128))) - 1, code)"
      "word_of_int code = last (varint7 (c div 128))" by blast
    have "blit ?o (p + 1) (butlast (varint7 (c div 128))) = blit out p (butlast (varint7 c))"
      using "1.prems" v ne blit_adjacent [of p "[word_of_nat (128 + c mod 128)]" "butlast (varint7 (c div 128))" out] by simp
    moreover have "encode_len_loop out (int p) (int c) = encode_len_loop ?o (int (p + 1)) (int (c div 128))"
      using False s by (subst encode_len_loop.simps) (simp add: zdiv_int add.commute)
    ultimately show ?thesis using r v ne by simp
  qed
qed

lemma hpack_encode_len_eq:
  assumes "p + length (hpack_len_enc n) \<le> length out"
  shows "hpack_encode_len out (int p) (int n) = Some (int (p + length (hpack_len_enc n)), blit out p (hpack_len_enc n))"
proof (cases "n < 127")
  case True
  then show ?thesis using assms by (simp add: hpack_encode_len_def Let_def hpack_len_enc_def sti_int)
next
  case False
  let ?c = "n - 127" and ?o = "blit out p [127]"
  have e: "hpack_len_enc n = 127 # varint7 ?c" using False by (simp add: hpack_len_enc_def)
  have ne: "varint7 ?c \<noteq> []" by (subst varint7.simps) simp
  obtain code where r: "encode_len_loop ?o (int (p + 1)) (int ?c) =
      Some (blit ?o (p + 1) (butlast (varint7 ?c)), int (p + 1 + length (varint7 ?c)) - 1, code)"
    "word_of_int code = last (varint7 ?c)"
    using encode_len_loop_eq [of "p + 1" ?c ?o] assms e by auto
  let ?o2 = "blit out p (127 # butlast (varint7 ?c))"
  have o2: "blit ?o (p + 1) (butlast (varint7 ?c)) = ?o2"
    using assms e ne blit_adjacent [of p "[127]" "butlast (varint7 ?c)" out] by simp
  have q: "int (p + 1 + length (varint7 ?c)) - 1 = int (p + length (varint7 ?c))" by simp
  have fin: "blit ?o2 (p + length (varint7 ?c)) [last (varint7 ?c)] = blit out p (hpack_len_enc n)"
  proof -
    have l: "length (127 # butlast (varint7 ?c)) = length (varint7 ?c)" using ne by simp
    have "(127 # butlast (varint7 ?c)) @ [last (varint7 ?c)] = hpack_len_enc n" using e ne by simp
    then show ?thesis
      using assms e ne blit_adjacent [of p "127 # butlast (varint7 ?c)" "[last (varint7 ?c)]" out] l by simp
  qed
  have lo: "length ?o2 = length out" using assms e ne by simp
  have "sti ?o2 (int (p + length (varint7 ?c))) (word_of_int code) = Some (blit out p (hpack_len_enc n))"
    unfolding r(2) fin [symmetric] using assms e lo by (intro sti_int) simp
  moreover have "int n - 127 = int ?c" using False by simp
  ultimately show ?thesis using False r(1) assms e unfolding o2 q
    by (simp add: hpack_encode_len_def Let_def sti_int add.commute)
qed

section \<open>The names of the static table\<close>

text \<open>The stream is a list of rows, sorted by the length of the names, and a final zero.\<close>

definition enc_names :: "(string \<times> nat) list" where
  "enc_names = [
    (''age'', 21), (''via'', 60), (''date'', 33), (''host'', 38),
    (''etag'', 34), (''from'', 37), (''link'', 45), (''vary'', 59),
    ('':path'', 4), (''allow'', 22), (''range'', 50), (''accept'', 19),
    (''server'', 54), (''cookie'', 32), (''expect'', 35), (''referer'', 51),
    (''expires'', 36), ('':method'', 2), ('':scheme'', 6), ('':status'', 8),
    (''refresh'', 52), (''location'', 46), (''if-match'', 39), (''if-range'', 42),
    (''user-agent'', 58), (''set-cookie'', 55), ('':authority'', 1), (''retry-after'', 53),
    (''content-type'', 31), (''max-forwards'', 47), (''cache-control'', 24), (''last-modified'', 44),
    (''accept-ranges'', 18), (''if-none-match'', 41), (''authorization'', 23), (''content-range'', 30),
    (''content-length'', 28), (''accept-charset'', 15), (''accept-encoding'', 16), (''accept-language'', 17),
    (''content-encoding'', 26), (''content-language'', 27), (''content-location'', 29), (''www-authenticate'', 61),
    (''transfer-encoding'', 57), (''if-modified-since'', 40), (''proxy-authenticate'', 48), (''content-disposition'', 25),
    (''if-unmodified-since'', 43), (''proxy-authorization'', 49), (''strict-transport-security'', 56), (''access-control-allow-origin'', 20)]"

definition enc_row :: "bytes \<times> byte \<Rightarrow> bytes" where
  "enc_row r = word_of_nat (length (fst r)) # snd r # fst r"

definition enc_table :: "(bytes \<times> byte) list" where
  "enc_table = map (\<lambda>(s, i). (cstr s, word_of_nat i)) enc_names"

lemma enc_stream_rows: "hpack_enc_stream = concat (map enc_row enc_table) @ [0]"
  by (simp add: hpack_enc_stream_def enc_table_def enc_names_def enc_row_def cstr_def)

lemma enc_table_sorted: "sorted (map (\<lambda>r. length (fst r)) enc_names)"
  by (simp add: enc_names_def)

text \<open>The first index of a name in the static table, whose entry 0 is not used.\<close>

definition sht_find :: "bytes \<Rightarrow> byte option" where
  "sht_find n = (if n = [] then None else map_option word_of_nat (find_idx (\<lambda>h. fst h = n) hpack_sht))"

lemma enc_names_index: "list_all (\<lambda>(s, i). s \<noteq> [] \<and> i < 62 \<and> find_idx (\<lambda>h. fst h = s) hpack_sht_str = Some i) enc_names"
  by code_simp

lemma enc_names_all: "list_all (\<lambda>h. fst h = [] \<or> list_ex (\<lambda>r. fst r = fst h) enc_names) hpack_sht_str"
  by code_simp

lemma enc_search_rows:
  assumes n: "ist_wf nm n" "ist_len n \<noteq> 0"
  shows "\<lbrakk> hpack_enc_stream = concat (map enc_row T1) @ concat (map enc_row T2) @ [0]; T2 \<noteq> [];
      length (fst (hd T2)) = ist_len n; \<forall>r \<in> set T2. length (fst r) < 128 \<rbrakk> \<Longrightarrow>
    enc_search nm n (length (concat (map enc_row T1))) =
      Some (map_of (takeWhile (\<lambda>r. length (fst r) = ist_len n) T2) (ist_str nm n))"
proof (induction T2 arbitrary: T1)
  case (Cons r T2)
  let ?p = "length (concat (map enc_row T1))" and ?l = "ist_len n"
  obtain m i where r: "r = (m, i)" by (cases r)
  have lm: "length m = ?l" using Cons.prems(3) r by simp
  define rest where "rest = concat (map enc_row T2) @ [0]"
  have d: "hpack_enc_stream = concat (map enc_row T1) @ word_of_nat ?l # i # m @ rest"
    using Cons.prems(1) by (simp add: enc_row_def [of r] rest_def) (simp add: r lm)
  have len: "length hpack_enc_stream = ?p + 2 + ?l + length rest" unfolding d using lm by simp
  have ldi: "ld hpack_enc_stream (Suc ?p) = Some i" by (simp add: ld_def len) (simp add: d nth_append)
  have wf: "ist_wf hpack_enc_stream (ist2 (Some (?p + 2)) ?l)" by (simp add: len)
  have str: "ist_str hpack_enc_stream (ist2 (Some (?p + 2)) ?l) = m" using lm by (simp add: d)
  have eq: "isteq hpack_enc_stream nm (ist2 (Some (?p + 2)) ?l) n = Some (m = ist_str nm n)"
    using isteq_eq [OF wf n(1)] str by simp
  have ne: "rest \<noteq> []" by (simp add: rest_def)
  have ldc: "ld hpack_enc_stream (?p + 2 + ?l) = Some (hd rest)"
    using ne lm by (simp add: ld_def len) (simp add: d nth_append hd_conv_nth)
  have hr: "unat (hd rest) = ?l \<longleftrightarrow> T2 \<noteq> [] \<and> length (fst (hd T2)) = ?l"
    using Cons.prems(4) n(2) by (cases T2) (auto simp: rest_def enc_row_def unat_byte_of_nat)
  have step: "enc_search nm n ?p = (if m = ist_str nm n then Some (Some i)
      else if unat (hd rest) = ?l then enc_search nm n (?p + 2 + ?l) else Some None)"
    using ldi eq ldc by (subst enc_search.simps) (simp add: Let_def)
  show ?case
  proof (cases "T2 \<noteq> [] \<and> length (fst (hd T2)) = ?l")
    case True
    have "enc_search nm n (length (concat (map enc_row (T1 @ [r])))) =
        Some (map_of (takeWhile (\<lambda>r. length (fst r) = ?l) T2) (ist_str nm n))"
      using Cons.IH [of "T1 @ [r]"] Cons.prems True by simp
    moreover have "length (concat (map enc_row (T1 @ [r]))) = ?p + 2 + ?l" by (simp add: r enc_row_def lm)
    ultimately show ?thesis using step hr True r lm by simp
  next
    case False
    then have "takeWhile (\<lambda>r. length (fst r) = ?l) T2 = []" by (cases T2) auto
    then show ?thesis using step hr False r lm by simp
  qed
qed simp

lemma enc_pos: "list_all (\<lambda>n. hpack_pos_len ! n =
    (if list_ex (\<lambda>r. length (fst r) = n) enc_names
     then sum_list (map (\<lambda>r. int (length (fst r)) + 2) (takeWhile (\<lambda>r. length (fst r) < n) enc_names)) else -1)) [0..<32]"
  by code_simp

lemma enc_names_lengths: "list_all (\<lambda>r. 0 < length (fst r) \<and> length (fst r) < 32) enc_names"
  by code_simp

text \<open>The names of one length form a group in a sorted table.\<close>

lemma map_of_group:
  assumes "sorted (map (\<lambda>r. length (fst r)) T)" and "length n = l"
  shows "map_of T n = map_of (takeWhile (\<lambda>r. length (fst r) = l) (dropWhile (\<lambda>r. length (fst r) < l) T)) n"
  using assms(1)
proof (induction T)
  case (Cons r T)
  have ih: "map_of T n = map_of (takeWhile (\<lambda>r. length (fst r) = l) (dropWhile (\<lambda>r. length (fst r) < l) T)) n"
    using Cons by simp
  consider "length (fst r) < l" | "length (fst r) = l" | "l < length (fst r)" by linarith
  then show ?case
  proof cases
    case 1
    then show ?thesis using ih assms(2) by (cases r) auto
  next
    case 2
    have "dropWhile (\<lambda>r. length (fst r) < l) T = T" using Cons.prems 2 by (cases T) auto
    then show ?thesis using 2 ih by (cases r) auto
  next
    case 3
    have "n \<notin> fst ` set (r # T)" using Cons.prems 3 assms(2) by fastforce
    then show ?thesis using 3 by (simp add: map_of_eq_None_iff [symmetric])
  qed
qed simp

lemma cstr_inj: "cstr s = cstr t \<longleftrightarrow> s = t"
proof -
  have "inj (of_char :: char \<Rightarrow> byte)"
  proof (rule injI)
    fix c d :: char
    assume "(of_char c :: byte) = of_char d"
    then have "word_of_nat (of_char c) = (word_of_nat (of_char d) :: byte)" by (simp only: of_nat_of_char)
    then have "(of_char c :: nat) mod 256 = of_char d mod 256" by (metis unat_byte_of_nat)
    then show "c = d" by simp
  qed
  then show ?thesis by (simp add: cstr_def inj_map_eq_map)
qed

lemma enc_table_len: "sorted (map (\<lambda>r. length (fst r)) enc_table)" "\<forall>r \<in> set enc_table. 0 < length (fst r) \<and> length (fst r) < 32"
  using enc_table_sorted enc_names_lengths
  by (auto simp: enc_table_def comp_def case_prod_beta list_all_iff cstr_def)

lemma length_enc_rows: "length (concat (map enc_row T)) = sum_list (map (\<lambda>r. length (fst r) + 2) T)"
  by (induction T) (simp_all add: enc_row_def)

lemma enc_table_simps:
  "takeWhile (\<lambda>r. length (fst r) < l) enc_table = map (\<lambda>(s, i). (cstr s, word_of_nat i)) (takeWhile (\<lambda>r. length (fst r) < l) enc_names)"
  "(\<exists>r \<in> set enc_table. length (fst r) = l) \<longleftrightarrow> list_ex (\<lambda>r. length (fst r) = l) enc_names"
  by (auto simp: enc_table_def takeWhile_map comp_def case_prod_beta list_ex_iff)

lemma map_of_enc_table: "map_of enc_table n = sht_find n"
proof (cases "n \<in> fst ` set enc_table")
  case True
  then obtain s where s: "n = cstr s" "s \<in> fst ` set enc_names" by (force simp: enc_table_def)
  have idx: "find_idx (\<lambda>h. fst h = cstr t) hpack_sht = find_idx (\<lambda>h. fst h = t) hpack_sht_str" for t
  proof -
    have "find_idx (\<lambda>h. fst h = cstr t) (map (\<lambda>(n, v). (cstr n, cstr v)) xs) = find_idx (\<lambda>h. fst h = t) xs" for xs
      by (induction xs) (auto simp: cstr_inj)
    then show ?thesis by (simp add: hpack_sht_def)
  qed
  have "map_of (map (\<lambda>(s, i). (cstr s, word_of_nat i)) xs) (cstr s) = map_option word_of_nat (find_idx (\<lambda>h. fst h = s) hpack_sht_str)"
    if "list_all (\<lambda>(s, i). s \<noteq> [] \<and> i < 62 \<and> find_idx (\<lambda>h. fst h = s) hpack_sht_str = Some i) xs" "s \<in> fst ` set xs" for xs
    using that by (induction xs) (auto simp: cstr_inj)
  from this [OF enc_names_index s(2)] have "map_of enc_table n = map_option word_of_nat (find_idx (\<lambda>h. fst h = s) hpack_sht_str)"
    by (simp add: enc_table_def s(1))
  moreover have "n \<noteq> []" using s enc_names_lengths by (auto simp: list_all_iff cstr_def)
  ultimately show ?thesis by (simp add: sht_find_def s(1) idx)
next
  case False
  have "fst h \<noteq> n" if "h \<in> set hpack_sht" "n \<noteq> []" for h
    using that enc_names_all False by (force simp: hpack_sht_def enc_table_def list_all_iff list_ex_iff cstr_def)
  then have "sht_find n = None" by (auto simp: sht_find_def find_idx_def)
  then show ?thesis using False by (simp add: map_of_eq_None_iff)
qed

lemma enc_find_eq:
  assumes n: "ist_wf nm n"
  shows "enc_find nm n = Some (sht_find (ist_str nm n))"
proof -
  let ?l = "ist_len n" and ?T = enc_table
  let ?T1 = "takeWhile (\<lambda>r. length (fst r) < ?l) ?T" and ?T2 = "dropWhile (\<lambda>r. length (fst r) < ?l) ?T"
  have ln: "length (ist_str nm n) = ?l" using n by simp
  have none: "sht_find (ist_str nm n) = None" if "\<not> (\<exists>r \<in> set ?T. length (fst r) = ?l)"
    unfolding map_of_enc_table [symmetric] map_of_eq_None_iff using that ln by fastforce
  show ?thesis
  proof (cases "?l < 32")
    case False
    then have "sht_find (ist_str nm n) = None" using enc_table_len(2) by (intro none) auto
    then show ?thesis using False by (simp add: enc_find_def)
  next
    case L: True
    have len: "length hpack_pos_len = 32" by (simp add: hpack_pos_len_def)
    have "hpack_pos_len ! ?l = (if list_ex (\<lambda>r. length (fst r) = ?l) enc_names
        then sum_list (map (\<lambda>r. int (length (fst r)) + 2) (takeWhile (\<lambda>r. length (fst r) < ?l) enc_names)) else -1)"
      using enc_pos L by (simp add: list_all_iff)
    moreover have "sum_list (map (\<lambda>r. int (length (fst r)) + 2) xs) =
        int (length (concat (map enc_row (map (\<lambda>(s, i). (cstr s, word_of_nat i)) xs))))" for xs :: "(string \<times> nat) list"
      by (induction xs) (auto simp: enc_row_def)
    ultimately have pos: "hpack_pos_len ! ?l = (if \<exists>r \<in> set ?T. length (fst r) = ?l then int (length (concat (map enc_row ?T1))) else -1)"
      by (simp only: enc_table_simps)
    show ?thesis
    proof (cases "\<exists>r \<in> set ?T. length (fst r) = ?l")
      case True
      then have ne: "?T2 \<noteq> []" using less_irrefl unfolding dropWhile_eq_Nil_conv by metis
      have l0: "?l \<noteq> 0" using True enc_table_len(2) by (metis less_irrefl)
      have "hpack_enc_stream = concat (map enc_row ?T1) @ concat (map enc_row ?T2) @ [0]"
        unfolding enc_stream_rows by (simp flip: append_assoc concat_append map_append)
      moreover have hd: "length (fst (hd ?T2)) = ?l"
      proof -
        obtain r where r: "r \<in> set ?T" "length (fst r) = ?l" using True by blast
        have "r \<in> set ?T2" using r by (metis (no_types, lifting) Un_iff set_append takeWhile_dropWhile_id set_takeWhileD less_irrefl)
        moreover have "sorted (map (\<lambda>r. length (fst r)) ?T2)" using enc_table_len(1) by (metis sorted_append takeWhile_dropWhile_id map_append)
        ultimately have "length (fst (hd ?T2)) \<le> ?l" using r(2) by (cases ?T2) auto
        moreover have "\<not> length (fst (hd ?T2)) < ?l" using hd_dropWhile [OF ne] by blast
        ultimately show ?thesis by simp
      qed
      moreover have "\<forall>r \<in> set ?T2. length (fst r) < 128" using enc_table_len(2) by (fastforce dest: set_dropWhileD)
      ultimately have "enc_search nm n (length (concat (map enc_row ?T1))) =
          Some (map_of (takeWhile (\<lambda>r. length (fst r) = ?l) ?T2) (ist_str nm n))"
        using enc_search_rows [OF n l0 _ ne] by blast
      then have "enc_search nm n (length (concat (map enc_row ?T1))) = Some (sht_find (ist_str nm n))"
        unfolding map_of_group [OF enc_table_len(1) ln, symmetric] map_of_enc_table .
      then show ?thesis using pos True L len by (simp add: enc_find_def ld_def)
    next
      case False
      then show ?thesis using pos none L len by (simp add: enc_find_def ld_def)
    qed
  qed
qed

section \<open>Encoders\<close>

lemma to_int32_nat: "p < 2147483648 \<Longrightarrow> to_int32 (int p) = int p"
  by (rule to_int32_small) simp_all

lemma usz_nat: "p < 18446744073709551616 \<Longrightarrow> usz (int p) = p"
  by (simp add: usz_small)

lemma ist_put_eq:
  assumes "ist_wf vm s" and "p + ist_len s \<le> length ar"
  shows "ist_put vm ar (int p) s = Some (blit ar p (ist_str vm s))"
proof (cases "ist_ptr s")
  case (Some q)
  then show ?thesis using assms by (auto simp: ist_put_def rd_def wr_def)
qed (use assms in \<open>simp add: ist_put_def\<close>)

lemma blit_blit:
  assumes "p + length xs + length ys \<le> length m"
  shows "blit (blit m p xs) (p + length xs) ys = blit m p (xs @ ys)"
  using assms by (rule blit_adjacent)

text \<open>The encoding of a string after its length.\<close>

definition hpack_str_enc :: "bytes \<Rightarrow> bytes" where
  "hpack_str_enc s = hpack_len_enc (length s) @ s"

lemma length_hpack_str_enc: "length s < 2097279 \<Longrightarrow> length (hpack_str_enc s) = hpack_len_to_bytes (length s) + length s"
  by (simp add: hpack_str_enc_def length_hpack_len_enc)

lemma enc_len_str:
  assumes "p + length (hpack_str_enc (ist_str vm v)) \<le> length ar" and "ist_wf vm v" and "ist_len v < 2097279"
  shows "\<exists>ar'. hpack_encode_len ar (int p) (to_int32 (int (ist_len v))) =
      Some (int (p + length (hpack_len_enc (ist_len v))), ar') \<and> length ar' = length ar \<and>
    blit ar' (p + length (hpack_len_enc (ist_len v))) (ist_str vm v) = blit ar p (hpack_str_enc (ist_str vm v))"
proof -
  have l: "length (ist_str vm v) = ist_len v" using assms(2) by simp
  have "hpack_encode_len ar (int p) (to_int32 (int (ist_len v))) =
      Some (int (p + length (hpack_len_enc (ist_len v))), blit ar p (hpack_len_enc (ist_len v)))"
    using assms(1,3) l by (simp add: to_int32_nat hpack_str_enc_def hpack_encode_len_eq)
  moreover have "blit (blit ar p (hpack_len_enc (ist_len v))) (p + length (hpack_len_enc (ist_len v))) (ist_str vm v) =
      blit ar p (hpack_str_enc (ist_str vm v))"
    using assms(1) l blit_blit [of p "hpack_len_enc (ist_len v)" "ist_str vm v" ar] by (simp add: hpack_str_enc_def)
  ultimately show ?thesis using assms(1) l by (simp add: hpack_str_enc_def)
qed

lemma enc_literal_eq:
  assumes n: "ist_wf nm n" "ist_len n < 4611686018427387904" and p: "p \<le> sz" "sz = length ar" "sz < 2147483648"
  shows "enc_literal nm ar (int p) (int sz) n =
    Some (if ist_len n < 2097279 \<and> p + length (0 # hpack_str_enc (ist_str nm n)) \<le> sz
      then Some (blit ar p (0 # hpack_str_enc (ist_str nm n)), int (p + length (0 # hpack_str_enc (ist_str nm n)))) else None)"
proof -
  let ?N = "ist_str nm n" and ?l = "ist_len n"
  have l: "length ?N = ?l" using n by simp
  have z: "sz_add (usz (int p + 2)) ?l = p + 2 + ?l"
    "sz_add (usz (int p + 1 + int k)) ?l = p + 1 + k + ?l" "usz (int sz) = sz" if "k \<le> 4" for k
  proof -
    have "int p + 2 = int (p + 2)" "int p + 1 + int k = int (p + 1 + k)" by simp_all
    then have "usz (int p + 2) = p + 2" "usz (int p + 1 + int k) = p + 1 + k"
      using p that by (simp_all only: usz_nat)
    then show "sz_add (usz (int p + 2)) ?l = p + 2 + ?l" "sz_add (usz (int p + 1 + int k)) ?l = p + 1 + k + ?l"
      using p n(2) that by (simp_all add: sz_add_small)
    show "usz (int sz) = sz" using p by (intro usz_nat) simp
  qed
  have lb: "hpack_len_to_bytes ?l \<le> 4" by (simp add: hpack_len_to_bytes_def Let_def)
  have lb0: "hpack_len_to_bytes ?l \<noteq> 0 \<longleftrightarrow> ?l < 2097279" using hpack_len_to_bytes_0 [of ?l] n(2) by auto
  show ?thesis
  proof (cases "?l < 2097279 \<and> p + length (0 # hpack_str_enc ?N) \<le> sz")
    case True
    then have fits: "p + 1 + length (hpack_len_enc ?l) + ?l \<le> sz" using l by (simp add: hpack_str_enc_def)
    have len: "length (hpack_str_enc ?N) = length (hpack_len_enc ?l) + ?l" using l by (simp add: hpack_str_enc_def)
    have s0: "sti ar (int p) 0 = Some (blit ar p [0])" using fits p by (intro sti_int) simp
    have b0: "blit (blit ar p [0]) (p + 1) (hpack_str_enc ?N) = blit ar p (0 # hpack_str_enc ?N)"
      using blit_blit [of p "[0]" "hpack_str_enc ?N" ar] True p(2) by simp
    have fin: "to_int32 (int (sz_add (usz (int (p + 1 + length (hpack_len_enc ?l)))) ?l)) = int (p + 1 + length (hpack_len_enc ?l) + ?l)"
      using fits p to_int32_nat [of "p + 1 + length (hpack_len_enc ?l) + ?l"] by (subst usz_nat) (simp_all add: sz_add_small)
    show ?thesis
    proof (cases "?l < 127")
      case short: True
      have e: "hpack_len_enc ?l = [word_of_nat ?l]" using short by (simp add: hpack_len_enc_def)
      let ?a = "blit (blit ar p [0]) (p + 1) [word_of_nat ?l]"
      have la: "length ?a = length ar" using fits e p by simp
      have s1: "sti (blit ar p [0]) (int p + 1) (word_of_nat ?l) = Some ?a"
        using sti_int [of "p + 1" "blit ar p [0]" "word_of_nat ?l"] fits e p by (simp add: add.commute)
      have s2: "ist2bin nm ?a (Some (p + 2)) n = Some (ist2 (Some (p + 2)) ?l, blit ?a (p + 2) ?N)"
        using fits e p la by (intro ist2bin_eq(1) n(1)) simp
      have "blit ?a (p + 2) ?N = blit (blit ar p [0]) (p + 1) (hpack_str_enc ?N)"
        using blit_blit [of "p + 1" "[word_of_nat ?l]" ?N "blit ar p [0]"] fits e p l by (simp add: hpack_str_enc_def)
      then show ?thesis using short True s0 s1 s2 b0 fin e fits len z(1,3) [OF le0]
        by (simp add: enc_literal_def add.assoc add.commute nat_add_distrib del: One_nat_def)
    next
      case False
      have lenar: "length (blit ar p [0]) = length ar" using fits p by simp
      obtain ar' where a: "hpack_encode_len (blit ar p [0]) (int (p + 1)) (to_int32 (int ?l)) =
          Some (int (p + 1 + length (hpack_len_enc ?l)), ar')" "length ar' = length ar"
        "blit ar' (p + 1 + length (hpack_len_enc ?l)) ?N = blit (blit ar p [0]) (p + 1) (hpack_str_enc ?N)"
        using enc_len_str [of "p + 1" nm n "blit ar p [0]"] True n(1) p(2) lenar by auto
      have s2: "ist2bin nm ar' (Some (p + 1 + length (hpack_len_enc ?l))) n =
          Some (ist2 (Some (p + 1 + length (hpack_len_enc ?l))) ?l, blit ar' (p + 1 + length (hpack_len_enc ?l)) ?N)"
        using fits p a(2) by (intro ist2bin_eq(1) n(1)) simp
      have cond: "hpack_len_to_bytes ?l \<noteq> 0" "p + 1 + hpack_len_to_bytes ?l + ?l \<le> sz"
        using True lb0 fits length_hpack_len_enc [of ?l] by auto
      have p1: "int p + 1 = int (p + 1)" by simp
      have l1: "length (0 # hpack_str_enc ?N) = 1 + length (hpack_len_enc ?l) + ?l" using len by simp
      have fb: "blit ar' (p + 1 + length (hpack_len_enc ?l)) ?N = blit ar p (0 # hpack_str_enc ?N)" using a(3) b0 by simp
      show ?thesis using False True s0 a(1) s2 z(2) [OF lb, unfolded p1] z(3) [OF le0] cond fb fin
        unfolding enc_literal_def Let_def p1 l1 by (simp del: of_nat_add of_nat_Suc)
    qed
  next
    case False
    have "\<not> (?l < 127 \<and> p + 2 + ?l \<le> sz)"
      using False l by (auto simp: hpack_str_enc_def hpack_len_enc_def)
    then have c1: "(?l < 127 \<and> sz_add (usz (int p + 2)) ?l \<le> usz (int sz)) = False" unfolding z(1,3) [OF le0] by simp
    have "\<not> (hpack_len_to_bytes ?l \<noteq> 0 \<and> p + 1 + hpack_len_to_bytes ?l + ?l \<le> sz)"
      using False l lb0 length_hpack_str_enc [of ?N] by auto
    then have c2: "(hpack_len_to_bytes ?l \<noteq> 0 \<and> sz_add (usz (int p + 1 + int (hpack_len_to_bytes ?l))) ?l \<le> usz (int sz)) = False"
      unfolding z(2) [OF lb] z(3) [OF le0] by simp
    show ?thesis unfolding enc_literal_def c1 c2 if_False using False by simp
  qed
qed


text \<open>Values: the end of \<^verbatim>\<open>hpack_encode_header\<close> and of \<^verbatim>\<open>hpack_encode_long_idx\<close>.\<close>

lemma enc_value_eq:
  assumes v: "ist_wf vm v" "ist_len v < 2097279" and p: "p + length (hpack_str_enc (ist_str vm v)) \<le> length ar" "length ar < 2147483648"
  shows "\<exists>len ar'. hpack_encode_len ar (int p) (to_int32 (int (ist_len v))) = Some (len, ar') \<and>
    ist_put vm ar' len v = Some (blit ar p (hpack_str_enc (ist_str vm v))) \<and>
    usz (to_int32 (int (sz_add (usz len) (ist_len v)))) = p + length (hpack_str_enc (ist_str vm v))"
proof -
  let ?l = "ist_len v" and ?V = "ist_str vm v"
  have l: "length (hpack_str_enc ?V) = length (hpack_len_enc ?l) + ?l" using v by (simp add: hpack_str_enc_def)
  obtain ar' where a: "hpack_encode_len ar (int p) (to_int32 (int ?l)) = Some (int (p + length (hpack_len_enc ?l)), ar')"
    "length ar' = length ar" "blit ar' (p + length (hpack_len_enc ?l)) ?V = blit ar p (hpack_str_enc ?V)"
    using enc_len_str [OF p(1) v] by blast
  have "ist_put vm ar' (int (p + length (hpack_len_enc ?l))) v = Some (blit ar p (hpack_str_enc ?V))"
    using ist_put_eq [OF v(1), of "p + length (hpack_len_enc ?l)" ar'] a p(1) l by simp
  moreover have "usz (to_int32 (int (sz_add (usz (int (p + length (hpack_len_enc ?l)))) ?l))) = p + length (hpack_str_enc ?V)"
  proof -
    have "usz (int (p + length (hpack_len_enc ?l))) = p + length (hpack_len_enc ?l)" using p l by (intro usz_nat) simp
    moreover have "sz_add (p + length (hpack_len_enc ?l)) ?l = p + length (hpack_str_enc ?V)" using p l by (simp add: sz_add_small)
    moreover have "to_int32 (int (p + length (hpack_str_enc ?V))) = int (p + length (hpack_str_enc ?V))"
      using p by (intro to_int32_nat) simp
    moreover have "usz (int (p + length (hpack_str_enc ?V))) = p + length (hpack_str_enc ?V)" using p by (intro usz_nat) simp
    ultimately show ?thesis by (simp only:)
  qed
  ultimately show ?thesis using a(1) by blast
qed

lemma enc_value_cond:
  assumes v: "ist_wf vm v" "ist_len v < 4611686018427387904" and p: "p \<le> sz" "sz < 2147483648"
  shows "(hpack_len_to_bytes (ist_len v) = 0 \<or> sz_add (usz (int p + int (hpack_len_to_bytes (ist_len v)))) (ist_len v) > usz (int sz)) \<longleftrightarrow>
    \<not> (ist_len v < 2097279 \<and> p + length (hpack_str_enc (ist_str vm v)) \<le> sz)"
proof -
  let ?l = "ist_len v" and ?b = "hpack_len_to_bytes (ist_len v)"
  have lb: "?b \<le> 4" by (simp add: hpack_len_to_bytes_def Let_def)
  have "usz (int (p + ?b)) = p + ?b" "usz (int sz) = sz" using p lb by (auto intro!: usz_nat simp del: of_nat_add)
  then have z: "sz_add (usz (int p + int ?b)) ?l = p + ?b + ?l" "usz (int sz) = sz"
    using p v(2) lb by (simp_all add: sz_add_small)
  have "?b = 0 \<longleftrightarrow> 2097279 \<le> ?l" using hpack_len_to_bytes_0 v(2) by simp
  then show ?thesis unfolding z using v length_hpack_str_enc [of "ist_str vm v"] by auto
qed

text \<open>The bytes of a header field and of its name.\<close>

definition hpack_name_enc :: "bytes \<Rightarrow> bytes" where
  "hpack_name_enc n = (case sht_find n of Some i \<Rightarrow> [i OR 0x40] | None \<Rightarrow> 0 # hpack_str_enc n)"

definition hpack_field_enc :: "bytes \<Rightarrow> bytes \<Rightarrow> bytes" where
  "hpack_field_enc n v = hpack_name_enc n @ hpack_str_enc v"

lemma sht_find_short: "sht_find n = Some i \<Longrightarrow> length n < 32"
  using enc_table_len(2) map_of_SomeD [of enc_table n i] by (auto simp: map_of_enc_table)

lemma b_list_beyond:
  assumes "b_wf b" and "buf_head b = 0" and "buf_data b + length xs \<le> buf_size b"
  shows "b_wf (b\<lparr>buf_area := blit (buf_area b) (buf_data b) xs\<rparr>) \<and>
    b_list (b\<lparr>buf_area := blit (buf_area b) (buf_data b) xs\<rparr>) = b_list b"
proof -
  let ?b = "b\<lparr>buf_area := blit (buf_area b) (buf_data b) xs\<rparr>"
  have wf: "b_wf ?b" using assms by (auto simp: b_wf_def)
  have "b_list ?b = take (buf_data b) (blit (buf_area b) (buf_data b) xs)"
    using chunk_list [OF _ wf] assms(2) by simp
  also have "\<dots> = take (buf_data b) (buf_area b)" using assms b_wfD(1,2) [OF assms(1)] by (simp add: blit_def)
  finally show ?thesis using wf chunk_list [OF assms(2,1)] by simp
qed

lemma hpack_encode_header_eq:
  assumes wf: "b_wf out" "buf_head out = 0" "buf_size out < 2147483648"
    and n: "ist_wf nm n" "ist_len n < 4611686018427387904" and v: "ist_wf vm v" "ist_len v < 4611686018427387904"
  shows "\<exists>r out'. hpack_encode_header nm vm out n v = Some (r, out') \<and> b_wf out' \<and> buf_head out' = 0 \<and>
      buf_size out' = buf_size out \<and>
      (if ist_len n < 2097279 \<and> ist_len v < 2097279 \<and>
          buf_data out + length (hpack_field_enc (ist_str nm n) (ist_str vm v)) \<le> buf_size out
       then r = 1 \<and> b_list out' = b_list out @ hpack_field_enc (ist_str nm n) (ist_str vm v)
       else r = 0 \<and> b_list out' = b_list out)"
proof -
  let ?N = "ist_str nm n" and ?V = "ist_str vm v" and ?p = "buf_data out" and ?sz = "buf_size out" and ?ar = "buf_area out"
  have ln: "length ?N = ist_len n" using n by simp
  have b: "length ?ar = ?sz" "?p \<le> ?sz" using b_wfD [OF wf(1)] by auto
  have i32: "to_int32 (int ?p) = int ?p" "to_int32 (int ?sz) = int ?sz" using b wf(3) by (auto intro!: to_int32_nat)
  have pos: "0 < length (hpack_name_enc ?N)" by (simp add: hpack_name_enc_def split: option.split)
  let ?name = "ist_len n < 2097279 \<and> ?p + length (hpack_name_enc ?N) \<le> ?sz"
  show ?thesis
  proof (cases "?p < ?sz")
    case False
    then show ?thesis using wf i32 pos b by (auto simp: hpack_encode_header_def hpack_field_enc_def)
  next
    case lt: True
    define r where "r = (if ?name then Some (blit ?ar ?p (hpack_name_enc ?N), int (?p + length (hpack_name_enc ?N))) else None)"
    have name: "(case sht_find ?N of
            Some idx \<Rightarrow> do {
              ar \<leftarrow> sti ?ar (int ?p) (idx OR 0x40);
              Some (Some (ar, int ?p + 1))
            }
          | None \<Rightarrow> enc_literal nm ?ar (int ?p) (int ?sz) n) = Some r"
    proof (cases "sht_find ?N")
      case None
      then show ?thesis using enc_literal_eq [OF n b(2) b(1) [symmetric] wf(3)] by (simp add: r_def hpack_name_enc_def)
    next
      case (Some i)
      have "ist_len n < 32" using sht_find_short [OF Some] ln by simp
      then show ?thesis using Some lt b by (simp add: r_def hpack_name_enc_def sti_int)
    qed
    have step: "hpack_encode_header nm vm out n v = (case r of None \<Rightarrow> Some (0, out)
        | Some (ar, len) \<Rightarrow>
            if hpack_len_to_bytes (ist_len v) = 0 \<or> sz_add (usz (len + int (hpack_len_to_bytes (ist_len v)))) (ist_len v) > usz (int ?sz)
            then Some (0, out\<lparr>buf_area := ar\<rparr>)
            else do {
              (len, ar) \<leftarrow> hpack_encode_len ar len (to_int32 (int (ist_len v)));
              ar \<leftarrow> ist_put vm ar len v;
              Some (1, out\<lparr>buf_area := ar, buf_data := usz (to_int32 (int (sz_add (usz len) (ist_len v))))\<rparr>)
            })"
      using lt name enc_find_eq [OF n(1)] unfolding hpack_encode_header_def Let_def i32 by simp
    show ?thesis
    proof (cases ?name)
      case False
      then show ?thesis using step wf by (auto simp: r_def hpack_field_enc_def)
    next
      case True
      let ?q = "?p + length (hpack_name_enc ?N)" and ?a = "blit ?ar ?p (hpack_name_enc ?N)"
      have r: "r = Some (?a, int ?q)" using True by (simp add: r_def)
      have q: "?q \<le> ?sz" and la: "length ?a = ?sz" using True b by auto
      show ?thesis
      proof (cases "ist_len v < 2097279 \<and> ?q + length (hpack_str_enc ?V) \<le> ?sz")
        case False
        then have "hpack_encode_header nm vm out n v = Some (0, out\<lparr>buf_area := ?a\<rparr>)"
          using step enc_value_cond [OF v q wf(3)] r by simp
        moreover have "\<not> (ist_len v < 2097279 \<and> ?p + length (hpack_field_enc ?N ?V) \<le> ?sz)"
          using False by (auto simp: hpack_field_enc_def)
        ultimately show ?thesis using b_list_beyond [OF wf(1,2) q] wf(2) by auto
      next
        case fits: True
        obtain len ar' where e: "hpack_encode_len ?a (int ?q) (to_int32 (int (ist_len v))) = Some (len, ar')"
          "ist_put vm ar' len v = Some (blit ?a ?q (hpack_str_enc ?V))"
          "usz (to_int32 (int (sz_add (usz len) (ist_len v)))) = ?q + length (hpack_str_enc ?V)"
          using enc_value_eq [of vm v ?q ?a] v fits la wf(3) by auto
        have "hpack_encode_header nm vm out n v =
            Some (1, out\<lparr>buf_area := blit ?a ?q (hpack_str_enc ?V), buf_data := ?q + length (hpack_str_enc ?V)\<rparr>)"
          using step enc_value_cond [OF v q wf(3)] r fits e by simp
        moreover have "blit ?a ?q (hpack_str_enc ?V) = blit ?ar ?p (hpack_field_enc ?N ?V)"
          using fits b blit_blit [of ?p "hpack_name_enc ?N" "hpack_str_enc ?V" ?ar] by (simp add: hpack_field_enc_def)
        moreover have "?q + length (hpack_str_enc ?V) = ?p + length (hpack_field_enc ?N ?V)" by (simp add: hpack_field_enc_def)
        moreover have "?p + length (hpack_field_enc ?N ?V) \<le> ?sz" using fits by (simp add: hpack_field_enc_def)
        ultimately show ?thesis using chunk_append [OF wf(1,2), of "hpack_field_enc ?N ?V"] fits True wf(2) by auto
      qed
    qed
  qed
qed

text \<open>An encoder appends a representation, or nothing when it does not fit.\<close>

definition appends :: "buffer \<Rightarrow> bytes \<Rightarrow> (int \<times> buffer) option \<Rightarrow> bool" where
  "appends out bs res \<longleftrightarrow> (\<exists>out'. res = Some (if buf_data out + length bs \<le> buf_size out then 1 else 0, out') \<and>
     b_wf out' \<and> buf_head out' = 0 \<and> buf_size out' = buf_size out \<and>
     b_list out' = b_list out @ (if buf_data out + length bs \<le> buf_size out then bs else []))"

lemma appends_refuse: "b_wf out \<Longrightarrow> buf_head out = 0 \<Longrightarrow> buf_size out < buf_data out + length bs \<Longrightarrow> appends out bs (Some (0, out))"
  by (simp add: appends_def)

lemma appendsI:
  assumes "b_wf out" and "buf_head out = 0" and "buf_data out + length bs \<le> buf_size out"
    and "res = Some (1, out\<lparr>buf_area := blit (buf_area out) (buf_data out) bs, buf_data := buf_data out + length bs\<rparr>)"
  shows "appends out bs res"
  using assms chunk_append [OF assms(1-3)] by (simp add: appends_def)

lemma out_byte_appends:
  assumes "b_wf out" and "buf_head out = 0" and "buf_data out < buf_size out"
  shows "appends out [c] (out_byte out c)"
  using assms b_wfD [OF assms(1)]
  by (intro appendsI) (simp_all add: out_byte_def st_def blit_single sz_add_small)

lemma hpack_encode_short_idx_appends:
  assumes wf: "b_wf out" "buf_head out = 0" and v: "ist_wf vm v" "ist_len v < 127"
  shows "appends out ((i OR 0x40) # hpack_str_enc (ist_str vm v)) (hpack_encode_short_idx vm out i v)"
proof -
  let ?p = "buf_data out" and ?ar = "buf_area out" and ?V = "ist_str vm v" and ?l = "ist_len v"
  have b: "length ?ar = buf_size out" "?p \<le> buf_size out" "buf_size out < 4611686018427387904" using b_wfD [OF wf(1)] by auto
  have l: "length ?V = ?l" using v by simp
  have e: "hpack_str_enc ?V = word_of_nat ?l # ?V" using v l by (simp add: hpack_str_enc_def hpack_len_enc_def)
  have z: "sz_add (sz_add ?p 2) ?l = ?p + 2 + ?l" "sz_add ?p 1 = ?p + 1" "sz_add (?p + 1) 1 = ?p + 2"
    "sz_add (?p + 2) ?l = ?p + 2 + ?l" using b v by (simp_all add: sz_add_small)
  show ?thesis
  proof (cases "?p + 2 + ?l \<le> buf_size out")
    case True
    let ?a1 = "blit ?ar ?p [i OR 0x40]"
    let ?a2 = "blit ?a1 (?p + 1) [word_of_nat ?l]"
    have s: "st ?ar ?p (i OR 0x40) = Some ?a1" "st ?a1 (?p + 1) (word_of_nat ?l) = Some ?a2"
      using True b by (simp_all add: st_def blit_single)
    have s2: "ist2bin vm ?a2 (Some (?p + 2)) v = Some (ist2 (Some (?p + 2)) ?l, blit ?a2 (?p + 2) ?V)"
      using True b by (intro ist2bin_eq(1) v(1)) simp
    have "blit ?a2 (?p + 2) ?V = blit ?ar ?p ((i OR 0x40) # word_of_nat ?l # ?V)"
      using blit_blit [of "?p + 1" "[word_of_nat ?l]" ?V ?a1] blit_blit [of ?p "[i OR 0x40]" "word_of_nat ?l # ?V" ?ar] True b l by simp
    then show ?thesis using True wf s s2 z l unfolding e
      by (intro appendsI) (simp_all add: hpack_encode_short_idx_def)
  next
    case False
    then show ?thesis using z l e wf by (simp add: hpack_encode_short_idx_def appends_refuse)
  qed
qed

lemma hpack_encode_long_idx_appends:
  assumes wf: "b_wf out" "buf_head out = 0" "buf_size out < 2147483648" and v: "ist_wf vm v" "ist_len v < 2097279"
  shows "appends out ((i OR 0x40) # hpack_str_enc (ist_str vm v)) (hpack_encode_long_idx vm out i v)"
proof -
  let ?p = "buf_data out" and ?ar = "buf_area out" and ?V = "ist_str vm v" and ?l = "ist_len v" and ?b = "hpack_len_to_bytes (ist_len v)"
  have b: "length ?ar = buf_size out" "?p \<le> buf_size out" using b_wfD [OF wf(1)] by auto
  have i32: "to_int32 (int ?p) = int ?p" using b wf(3) by (auto intro!: to_int32_nat)
  have l: "length ?V = ?l" using v by simp
  have lb: "?b \<noteq> 0" "?b \<le> 4" "length (hpack_str_enc ?V) = ?b + ?l"
    using hpack_len_to_bytes_0 [of ?l] v length_hpack_str_enc [of ?V] l by (auto simp: hpack_len_to_bytes_def Let_def)
  have "1 + int ?p + int ?b = int (?p + 1 + ?b)" by simp
  moreover have "usz (int (?p + 1 + ?b)) = ?p + 1 + ?b" using b wf(3) lb by (intro usz_nat) simp
  moreover have "sz_add (?p + 1 + ?b) ?l = ?p + 1 + ?b + ?l" using b wf(3) lb v by (simp add: sz_add_small)
  ultimately have z: "sz_add (usz (1 + int ?p + int ?b)) ?l = ?p + 1 + ?b + ?l" by (simp only:)
  show ?thesis
  proof (cases "?p + 1 + ?b + ?l \<le> buf_size out")
    case True
    let ?a1 = "blit ?ar ?p [i OR 0x40]"
    have s: "sti ?ar (int ?p) (i OR 0x40) = Some ?a1" using True b by (intro sti_int) simp
    have la: "length ?a1 = buf_size out" using True b by simp
    obtain len ar' where e: "hpack_encode_len ?a1 (int (?p + 1)) (to_int32 (int ?l)) = Some (len, ar')"
      "ist_put vm ar' len v = Some (blit ?a1 (?p + 1) (hpack_str_enc ?V))"
      "usz (to_int32 (int (sz_add (usz len) ?l))) = ?p + 1 + length (hpack_str_enc ?V)"
      using enc_value_eq [of vm v "?p + 1" ?a1] v True la lb wf(3) by auto
    have "blit ?a1 (?p + 1) (hpack_str_enc ?V) = blit ?ar ?p ((i OR 0x40) # hpack_str_enc ?V)"
      using blit_blit [of ?p "[i OR 0x40]" "hpack_str_enc ?V" ?ar] True b lb by simp
    moreover have p1: "int ?p + 1 = int (?p + 1)" by simp
    ultimately have "hpack_encode_long_idx vm out i v = Some (1, out\<lparr>buf_area := blit ?ar ?p ((i OR 0x40) # hpack_str_enc ?V),
        buf_data := ?p + 1 + length (hpack_str_enc ?V)\<rparr>)"
      using True lb(1) e s unfolding hpack_encode_long_idx_def Let_def i32 z p1 by (simp del: of_nat_add of_nat_Suc)
    then show ?thesis using True wf lb by (intro appendsI) simp_all
  next
    case False
    then show ?thesis using wf lb unfolding hpack_encode_long_idx_def Let_def i32 z by (simp add: appends_refuse)
  qed
qed

text \<open>The representation of a status.\<close>

definition status_enc :: "nat \<Rightarrow> bytes" where
  "status_enc s = (if status_code s \<noteq> 0 then [status_code s]
     else [0x48, 3, word_of_nat (48 + s div 100), word_of_nat (48 + s div 10 mod 10), word_of_nat (48 + s mod 10)])"

lemma sti_step:
  assumes "p + length xs < length m" and "i = int (p + length xs)"
  shows "sti (blit m p xs) i c = Some (blit m p (xs @ [c]))"
  using assms sti_int [of "p + length xs" "blit m p xs" c] blit_blit [of p xs "[c]" m] by simp

lemma hpack_encode_int_status_appends:
  assumes wf: "b_wf out" "buf_head out = 0" "buf_size out < 2147483648"
  shows "appends out (status_enc s) (hpack_encode_int_status out s)"
proof -
  let ?p = "buf_data out" and ?ar = "buf_area out"
  have b: "length ?ar = buf_size out" "?p \<le> buf_size out" using b_wfD [OF wf(1)] by auto
  have i32: "to_int32 (int ?p) = int ?p" "to_int32 (int (buf_size out)) = int (buf_size out)" using b wf(3) by (auto intro!: to_int32_nat)
  have u: "usz (int ?p + 1) = ?p + 1" "usz (int ?p + 1 + 4) = ?p + 5"
    using usz_nat [of "?p + 1"] usz_nat [of "?p + 5"] b wf(3) by (simp_all add: add.commute)
  show ?thesis
  proof (cases "status_code s = 0")
    case False
    then have e: "status_enc s = [status_code s]" by (simp add: status_enc_def)
    show ?thesis
    proof (cases "?p < buf_size out")
      case True
      then have "sti ?ar (int ?p) (status_code s) = Some (blit ?ar ?p [status_code s])" using b by (intro sti_int) simp
      then show ?thesis using False True wf u unfolding e
        by (intro appendsI) (simp_all add: hpack_encode_int_status_def i32 Let_def)
    next
      case F: False
      then show ?thesis using wf unfolding e by (simp add: hpack_encode_int_status_def i32 Let_def appends_refuse)
    qed
  next
    case True
    define c where "c = [0x48, 3, word_of_nat (48 + s div 100), word_of_nat (48 + s div 10 mod 10), word_of_nat (48 + s mod 10) :: byte]"
    have e: "status_enc s = c" using True by (simp add: status_enc_def c_def)
    show ?thesis
    proof (cases "?p + 5 \<le> buf_size out")
      case fits: True
      let ?w = "word_of_nat :: nat \<Rightarrow> byte"
      have "sti ?ar (int ?p) 0x48 = Some (blit ?ar ?p [0x48])"
        "sti (blit ?ar ?p [0x48]) (int ?p + 1) 3 = Some (blit ?ar ?p ([0x48] @ [3]))"
        "sti (blit ?ar ?p [0x48, 3]) (int ?p + 2) (?w (48 + s div 100)) = Some (blit ?ar ?p ([0x48, 3] @ [?w (48 + s div 100)]))"
        "sti (blit ?ar ?p [0x48, 3, ?w (48 + s div 100)]) (int ?p + 3) (?w (48 + s div 10 mod 10)) =
          Some (blit ?ar ?p ([0x48, 3, ?w (48 + s div 100)] @ [?w (48 + s div 10 mod 10)]))"
        "sti (blit ?ar ?p [0x48, 3, ?w (48 + s div 100), ?w (48 + s div 10 mod 10)]) (int ?p + 4) (?w (48 + s mod 10)) =
          Some (blit ?ar ?p ([0x48, 3, ?w (48 + s div 100), ?w (48 + s div 10 mod 10)] @ [?w (48 + s mod 10)]))"
        using fits b by (intro sti_int sti_step; simp)+
      then have "hpack_encode_int_status out s = Some (1, out\<lparr>buf_area := blit ?ar ?p c, buf_data := ?p + 5\<rparr>)"
        using True fits u by (simp add: hpack_encode_int_status_def i32 Let_def c_def add.commute del: of_nat_add)
      then show ?thesis using fits wf unfolding e by (intro appendsI) (simp_all add: c_def)
    next
      case False
      then show ?thesis using wf True unfolding e by (simp add: hpack_encode_int_status_def i32 Let_def c_def appends_refuse)
    qed
  qed
qed

lemma hpack_encode_str_status_appends:
  assumes wf: "b_wf out" "buf_head out = 0" and v: "ist_wf vm v" "ist_len v < 127"
  shows "appends out (if s = 200 then [0x88] else if s = 304 then [0x8b] else 0x48 # hpack_str_enc (ist_str vm v))
    (hpack_encode_str_status vm out s v)"
  using hpack_encode_short_idx_appends [OF wf v, where i = 8] out_byte_appends [OF wf, where c = "0x88"] out_byte_appends [OF wf, where c = "0x8b"]
    appends_refuse [OF wf]
  by (cases "buf_data out < buf_size out") (auto simp: hpack_encode_str_status_def out_byte_def)

lemma hpack_encode_method_appends:
  assumes wf: "b_wf out" "buf_head out = 0" and v: "ist_wf vm v" "ist_len v < 127"
  shows "appends out (if meth = HTTP_METH_GET \<and> buf_data out < buf_size out then [0x82]
      else if meth = HTTP_METH_POST \<and> buf_data out < buf_size out then [0x83] else 0x42 # hpack_str_enc (ist_str vm v))
    (hpack_encode_method vm out meth v)"
  using hpack_encode_short_idx_appends [OF wf v, where i = 2] out_byte_appends [OF wf]
  by (auto simp: hpack_encode_method_def)

lemma isteq_const_eq: "ist_wf m s \<Longrightarrow> isteq_const m s lit = Some (ist_str m s = cstr lit)"
  unfolding isteq_const_def by (subst isteq_eq) simp_all

lemma hpack_encode_scheme_appends:
  assumes wf: "b_wf out" "buf_head out = 0" and v: "ist_wf vm v" "ist_len v < 127"
  shows "appends out (if buf_data out < buf_size out \<and> ist_str vm v = cstr ''https'' then [0x87]
      else if buf_data out < buf_size out \<and> ist_str vm v = cstr ''http'' then [0x86] else 0x46 # hpack_str_enc (ist_str vm v))
    (hpack_encode_scheme vm out v)"
  using hpack_encode_short_idx_appends [OF wf v, where i = 6] out_byte_appends [OF wf] isteq_const_eq [OF v(1)]
  by (auto simp: hpack_encode_scheme_def)

lemma hpack_encode_path_appends:
  assumes wf: "b_wf out" "buf_head out = 0" "buf_size out < 2147483648" and v: "ist_wf vm v" "ist_len v < 2097279"
  shows "appends out (if buf_data out < buf_size out \<and> ist_str vm v = cstr ''/'' then [0x84]
      else if buf_data out < buf_size out \<and> ist_str vm v = cstr ''/index.html'' then [0x85] else 0x44 # hpack_str_enc (ist_str vm v))
    (hpack_encode_path vm out v)"
  using hpack_encode_short_idx_appends [OF wf(1,2) v(1), where i = 4] hpack_encode_long_idx_appends [OF wf v, where i = 4]
    out_byte_appends [OF wf(1,2)] isteq_const_eq [OF v(1)]
  by (auto simp: hpack_encode_path_def)

end
