(* ===== verification/HpackHuff.thy ===== *)
theory HpackHuff
  imports Ist
begin

unbundle bit_operations_syntax

text \<open>
  Huffman coding of HPACK strings: \<^verbatim>\<open>src/hpack-huff.c\<close>. The table \<open>ht\<close> gives the code of every symbol
  (RFC 7541 appendix B), the \<open>rht\<close> tables invert it for a 32-bit window of the stream, one table per
  group of code lengths. The table \<open>ht\<close> is split in two halves; the C arrays \<open>rht\<close> whose last entries
  are not initialised are zero there.
\<close>

section \<open>Tables\<close>

type_synonym huff = "u32 \<times> nat"

definition ht_low :: "(u32 \<times> nat) list" where
  "ht_low = [
    (8184, 13), (8388568, 23), (268435426, 28), (268435427, 28),
    (268435428, 28), (268435429, 28), (268435430, 28), (268435431, 28),
    (268435432, 28), (16777194, 24), (1073741820, 30), (268435433, 28),
    (268435434, 28), (1073741821, 30), (268435435, 28), (268435436, 28),
    (268435437, 28), (268435438, 28), (268435439, 28), (268435440, 28),
    (268435441, 28), (268435442, 28), (1073741822, 30), (268435443, 28),
    (268435444, 28), (268435445, 28), (268435446, 28), (268435447, 28),
    (268435448, 28), (268435449, 28), (268435450, 28), (268435451, 28),
    (20, 6), (1016, 10), (1017, 10), (4090, 12),
    (8185, 13), (21, 6), (248, 8), (2042, 11),
    (1018, 10), (1019, 10), (249, 8), (2043, 11),
    (250, 8), (22, 6), (23, 6), (24, 6),
    (0, 5), (1, 5), (2, 5), (25, 6),
    (26, 6), (27, 6), (28, 6), (29, 6),
    (30, 6), (31, 6), (92, 7), (251, 8),
    (32764, 15), (32, 6), (4091, 12), (1020, 10),
    (8186, 13), (33, 6), (93, 7), (94, 7),
    (95, 7), (96, 7), (97, 7), (98, 7),
    (99, 7), (100, 7), (101, 7), (102, 7),
    (103, 7), (104, 7), (105, 7), (106, 7),
    (107, 7), (108, 7), (109, 7), (110, 7),
    (111, 7), (112, 7), (113, 7), (114, 7),
    (252, 8), (115, 7), (253, 8), (8187, 13),
    (524272, 19), (8188, 13), (16380, 14), (34, 6),
    (32765, 15), (3, 5), (35, 6), (4, 5),
    (36, 6), (5, 5), (37, 6), (38, 6),
    (39, 6), (6, 5), (116, 7), (117, 7),
    (40, 6), (41, 6), (42, 6), (7, 5),
    (43, 6), (118, 7), (44, 6), (8, 5),
    (9, 5), (45, 6), (119, 7), (120, 7),
    (121, 7), (122, 7), (123, 7), (32766, 15),
    (2044, 11), (16381, 14), (8189, 13), (268435452, 28)]"

definition ht_high :: "(u32 \<times> nat) list" where
  "ht_high = [
    (1048550, 20), (4194258, 22), (1048551, 20), (1048552, 20),
    (4194259, 22), (4194260, 22), (4194261, 22), (8388569, 23),
    (4194262, 22), (8388570, 23), (8388571, 23), (8388572, 23),
    (8388573, 23), (8388574, 23), (16777195, 24), (8388575, 23),
    (16777196, 24), (16777197, 24), (4194263, 22), (8388576, 23),
    (16777198, 24), (8388577, 23), (8388578, 23), (8388579, 23),
    (8388580, 23), (2097116, 21), (4194264, 22), (8388581, 23),
    (4194265, 22), (8388582, 23), (8388583, 23), (16777199, 24),
    (4194266, 22), (2097117, 21), (1048553, 20), (4194267, 22),
    (4194268, 22), (8388584, 23), (8388585, 23), (2097118, 21),
    (8388586, 23), (4194269, 22), (4194270, 22), (16777200, 24),
    (2097119, 21), (4194271, 22), (8388587, 23), (8388588, 23),
    (2097120, 21), (2097121, 21), (4194272, 22), (2097122, 21),
    (8388589, 23), (4194273, 22), (8388590, 23), (8388591, 23),
    (1048554, 20), (4194274, 22), (4194275, 22), (4194276, 22),
    (8388592, 23), (4194277, 22), (4194278, 22), (8388593, 23),
    (67108832, 26), (67108833, 26), (1048555, 20), (524273, 19),
    (4194279, 22), (8388594, 23), (4194280, 22), (33554412, 25),
    (67108834, 26), (67108835, 26), (67108836, 26), (134217694, 27),
    (134217695, 27), (67108837, 26), (16777201, 24), (33554413, 25),
    (524274, 19), (2097123, 21), (67108838, 26), (134217696, 27),
    (134217697, 27), (67108839, 26), (134217698, 27), (16777202, 24),
    (2097124, 21), (2097125, 21), (67108840, 26), (67108841, 26),
    (268435453, 28), (134217699, 27), (134217700, 27), (134217701, 27),
    (1048556, 20), (16777203, 24), (1048557, 20), (2097126, 21),
    (4194281, 22), (2097127, 21), (2097128, 21), (8388595, 23),
    (4194282, 22), (4194283, 22), (33554414, 25), (33554415, 25),
    (16777204, 24), (16777205, 24), (67108842, 26), (8388596, 23),
    (67108843, 26), (134217702, 27), (67108844, 26), (67108845, 26),
    (134217703, 27), (134217704, 27), (134217705, 27), (134217706, 27),
    (134217707, 27), (268435454, 28), (134217708, 27), (134217709, 27),
    (134217710, 27), (134217711, 27), (134217712, 27), (67108846, 26),
    (1073741823, 30)]"

definition ht :: "huff list" where
  "ht = ht_low @ ht_high"

definition rht_bit31_24 :: "bytes" where
  "rht_bit31_24 = [
    48, 48, 48, 48, 48, 48, 48, 48, 49, 49, 49, 49, 49, 49, 49, 49,
    50, 50, 50, 50, 50, 50, 50, 50, 97, 97, 97, 97, 97, 97, 97, 97,
    99, 99, 99, 99, 99, 99, 99, 99, 101, 101, 101, 101, 101, 101, 101, 101,
    105, 105, 105, 105, 105, 105, 105, 105, 111, 111, 111, 111, 111, 111, 111, 111,
    115, 115, 115, 115, 115, 115, 115, 115, 116, 116, 116, 116, 116, 116, 116, 116,
    32, 32, 32, 32, 37, 37, 37, 37, 45, 45, 45, 45, 46, 46, 46, 46,
    47, 47, 47, 47, 51, 51, 51, 51, 52, 52, 52, 52, 53, 53, 53, 53,
    54, 54, 54, 54, 55, 55, 55, 55, 56, 56, 56, 56, 57, 57, 57, 57,
    61, 61, 61, 61, 65, 65, 65, 65, 95, 95, 95, 95, 98, 98, 98, 98,
    100, 100, 100, 100, 102, 102, 102, 102, 103, 103, 103, 103, 104, 104, 104, 104,
    108, 108, 108, 108, 109, 109, 109, 109, 110, 110, 110, 110, 112, 112, 112, 112,
    114, 114, 114, 114, 117, 117, 117, 117, 58, 58, 66, 66, 67, 67, 68, 68,
    69, 69, 70, 70, 71, 71, 72, 72, 73, 73, 74, 74, 75, 75, 76, 76,
    77, 77, 78, 78, 79, 79, 80, 80, 81, 81, 82, 82, 83, 83, 84, 84,
    85, 85, 86, 86, 87, 87, 89, 89, 106, 106, 107, 107, 113, 113, 118, 118,
    119, 119, 120, 120, 121, 121, 122, 122, 38, 42, 44, 59, 88, 90, 0, 0]"

definition rht_bit24_17 :: "bytes" where
  "rht_bit24_17 = [
    33, 33, 33, 33, 33, 33, 33, 33, 33, 33, 33, 33, 33, 33, 33, 33,
    33, 33, 33, 33, 33, 33, 33, 33, 33, 33, 33, 33, 33, 33, 33, 33,
    34, 34, 34, 34, 34, 34, 34, 34, 34, 34, 34, 34, 34, 34, 34, 34,
    34, 34, 34, 34, 34, 34, 34, 34, 34, 34, 34, 34, 34, 34, 34, 34,
    40, 40, 40, 40, 40, 40, 40, 40, 40, 40, 40, 40, 40, 40, 40, 40,
    40, 40, 40, 40, 40, 40, 40, 40, 40, 40, 40, 40, 40, 40, 40, 40,
    41, 41, 41, 41, 41, 41, 41, 41, 41, 41, 41, 41, 41, 41, 41, 41,
    41, 41, 41, 41, 41, 41, 41, 41, 41, 41, 41, 41, 41, 41, 41, 41,
    63, 63, 63, 63, 63, 63, 63, 63, 63, 63, 63, 63, 63, 63, 63, 63,
    63, 63, 63, 63, 63, 63, 63, 63, 63, 63, 63, 63, 63, 63, 63, 63,
    39, 39, 39, 39, 39, 39, 39, 39, 39, 39, 39, 39, 39, 39, 39, 39,
    43, 43, 43, 43, 43, 43, 43, 43, 43, 43, 43, 43, 43, 43, 43, 43,
    124, 124, 124, 124, 124, 124, 124, 124, 124, 124, 124, 124, 124, 124, 124, 124,
    35, 35, 35, 35, 35, 35, 35, 35, 62, 62, 62, 62, 62, 62, 62, 62,
    0, 0, 0, 0, 36, 36, 36, 36, 64, 64, 64, 64, 91, 91, 91, 91,
    93, 93, 93, 93, 126, 126, 126, 126, 94, 94, 125, 125, 60, 96, 123, 0]"

definition rht_bit15_8 :: "bytes" where
  "rht_bit15_8 = [
    176, 176, 176, 176, 176, 176, 176, 176, 177, 177, 177, 177, 177, 177, 177, 177,
    179, 179, 179, 179, 179, 179, 179, 179, 209, 209, 209, 209, 209, 209, 209, 209,
    216, 216, 216, 216, 216, 216, 216, 216, 217, 217, 217, 217, 217, 217, 217, 217,
    227, 227, 227, 227, 227, 227, 227, 227, 229, 229, 229, 229, 229, 229, 229, 229,
    230, 230, 230, 230, 230, 230, 230, 230, 129, 129, 129, 129, 132, 132, 132, 132,
    133, 133, 133, 133, 134, 134, 134, 134, 136, 136, 136, 136, 146, 146, 146, 146,
    154, 154, 154, 154, 156, 156, 156, 156, 160, 160, 160, 160, 163, 163, 163, 163,
    164, 164, 164, 164, 169, 169, 169, 169, 170, 170, 170, 170, 173, 173, 173, 173,
    178, 178, 178, 178, 181, 181, 181, 181, 185, 185, 185, 185, 186, 186, 186, 186,
    187, 187, 187, 187, 189, 189, 189, 189, 190, 190, 190, 190, 196, 196, 196, 196,
    198, 198, 198, 198, 228, 228, 228, 228, 232, 232, 232, 232, 233, 233, 233, 233,
    1, 1, 135, 135, 137, 137, 138, 138, 139, 139, 140, 140, 141, 141, 143, 143,
    147, 147, 149, 149, 150, 150, 151, 151, 152, 152, 155, 155, 157, 157, 158, 158,
    165, 165, 166, 166, 168, 168, 174, 174, 175, 175, 180, 180, 182, 182, 183, 183,
    188, 188, 191, 191, 197, 197, 231, 231, 239, 239, 9, 142, 144, 145, 148, 159,
    171, 206, 215, 225, 236, 237, 0, 0, 0, 0, 0, 0, 0, 0, 0, 0]"

definition rht_bit15_11_11_4 :: "bytes" where
  "rht_bit15_11_11_4 = [
    92, 92, 92, 92, 195, 195, 195, 195, 208, 208, 208, 208, 128, 128, 130, 130,
    131, 131, 162, 162, 184, 184, 194, 194, 224, 224, 226, 226, 153, 161, 167, 172,
    199, 199, 199, 199, 199, 199, 199, 199, 207, 207, 207, 207, 207, 207, 207, 207,
    234, 234, 234, 234, 234, 234, 234, 234, 235, 235, 235, 235, 235, 235, 235, 235,
    192, 192, 192, 192, 193, 193, 193, 193, 200, 200, 200, 200, 201, 201, 201, 201,
    202, 202, 202, 202, 205, 205, 205, 205, 210, 210, 210, 210, 213, 213, 213, 213,
    218, 218, 218, 218, 219, 219, 219, 219, 238, 238, 238, 238, 240, 240, 240, 240,
    242, 242, 242, 242, 243, 243, 243, 243, 255, 255, 255, 255, 203, 203, 204, 204,
    211, 211, 212, 212, 214, 214, 221, 221, 222, 222, 223, 223, 241, 241, 244, 244,
    245, 245, 246, 246, 247, 247, 248, 248, 250, 250, 251, 251, 252, 252, 253, 253,
    254, 254, 2, 3, 4, 5, 6, 7, 8, 11, 12, 14, 15, 16, 17, 18,
    19, 20, 21, 23, 24, 25, 26, 27, 28, 29, 30, 31, 127, 220, 249, 10]"

section \<open>Encoding\<close>

text \<open>\<^verbatim>\<open>huff_enc\<close> only counts the bytes that the code of a zero-terminated string takes.\<close>

function huff_enc_loop :: "bytes \<Rightarrow> nat \<Rightarrow> int \<Rightarrow> int option" where
  "huff_enc_loop m s bits = do {
     c \<leftarrow> ld m s;
     if c \<noteq> 0 then do {
       (_, b) \<leftarrow> ld ht (unat c);
       huff_enc_loop m (s + 1) (to_int32 (bits + int b))
     } else Some bits
   }"
  by pat_completeness auto
termination
  by (relation "measure (\<lambda>(m, s, bits). length m - s)") (auto simp: ld_def split: if_splits)

declare huff_enc_loop.simps [simp del]

definition huff_enc :: "bytes \<Rightarrow> nat \<Rightarrow> int option" where
  "huff_enc m s = do { bits \<leftarrow> huff_enc_loop m s 0; Some (to_int32 (bits + 7) div 8) }"

section \<open>Decoding\<close>

text \<open>One lookup in the reversed tables: the symbol and the number of bits of its code, or \<open>None\<close> for
  the end-of-string code. The outer option is the bounds check of the table accesses.\<close>

definition huff_lookup :: "u32 \<Rightarrow> (byte \<times> nat) option option" where
  "huff_lookup code =
     (if code < 0xfe000000 then do {
        let sym = (ucast (drop_bit 24 code) :: byte);
        let l = (if sym < 0xb8 then if sym < 0x50 then 5 else 6 else if sym < 0xf8 then 7 else 8);
        sym \<leftarrow> ld rht_bit31_24 (unat (drop_bit 24 code));
        Some (Some (sym, l))
      }
      else if code < 0xfffe0000 then do {
        let sym = (ucast (drop_bit 17 code) :: byte);
        let l = (if sym < 0xe0 then if sym < 0xa0 then 10 else if sym < 0xd0 then 11 else 12
                 else if sym < 0xf8 then 13 else if sym < 0xfc then 14 else 15);
        sym \<leftarrow> ld rht_bit24_17 (unat (drop_bit 17 code AND 0xff));
        Some (Some (sym, l))
      }
      else if code < 0xffff0000 then do {
        let sym = (ucast (drop_bit 11 code AND 0x1f) :: byte);
        let l = (if sym < 0x0c then 19 else if sym < 0x1c then 20 else 21);
        sym \<leftarrow> ld rht_bit15_11_11_4 (unat (drop_bit 11 code AND 0x1f));
        Some (Some (sym, l))
      }
      else if code < 0xfffff600 then do {
        let sym = (ucast (drop_bit 8 code) :: byte);
        let l = (if sym < 0xb0 then if sym < 0x48 then 21 else 22 else if sym < 0xea then 23 else 24);
        sym \<leftarrow> ld rht_bit15_8 (unat (drop_bit 8 code AND 0xff));
        Some (Some (sym, l))
      }
      else do {
        let sym = (ucast (drop_bit 4 code) :: byte);
        let l = (if sym < 0xbc then if sym < 0x80 then 25 else 26
                 else if sym < 0xe2 then 27 else if sym < 0xff then 28 else 30);
        if sym < 0xff then do {
          let i = int (unat (drop_bit 4 code AND 0xff)) - 0x40;
          sym \<leftarrow> (if i < 0 then None else ld rht_bit15_11_11_4 (nat i));
          Some (Some (sym, l))
        }
        else if code AND 0xff = 0xf0 then Some (Some (10, l))
        else if code AND 0xff = 0xf4 then Some (Some (13, l))
        else if code AND 0xff = 0xf8 then Some (Some (22, l))
        else Some None
      })"

text \<open>The next four bytes of the stream in network order, completed with zeroes, and the new
  position.\<close>

definition huff_next :: "bytes \<Rightarrow> nat \<Rightarrow> nat \<Rightarrow> (u32 \<times> nat) option" where
  "huff_next m hend h =
     (let byte_or_0 = (\<lambda>k. if h + k < hend then ld m (h + k) else Some 0) in do {
        b0 \<leftarrow> byte_or_0 0;
        b1 \<leftarrow> byte_or_0 1;
        b2 \<leftarrow> byte_or_0 2;
        b3 \<leftarrow> byte_or_0 3;
        Some (push_bit 24 (ucast b0) + push_bit 16 (ucast b1) + push_bit 8 (ucast b2) + ucast b3,
          if h + 4 \<le> hend then h + 4 else hend)
      })"

function huff_refill :: "bytes \<Rightarrow> nat \<Rightarrow> nat \<Rightarrow> u32 \<Rightarrow> u32 \<Rightarrow> nat \<Rightarrow> (nat \<times> u32 \<times> u32 \<times> nat) option" where
  "huff_refill m hend h cur nxt shift =
     (if shift \<ge> 32 then do {
        let cur = nxt;
        (nxt, h) \<leftarrow> huff_next m hend h;
        huff_refill m hend h cur nxt (shift - 32)
      } else Some (h, cur, nxt, shift))"
  by pat_completeness auto
termination by (relation "measure (\<lambda>(m, hend, h, cur, nxt, shift). shift)") auto

declare huff_refill.simps [simp del]

function huff_dec_loop :: "bytes \<Rightarrow> nat \<Rightarrow> nat \<Rightarrow> nat \<Rightarrow> u32 \<Rightarrow> u32 \<Rightarrow> nat \<Rightarrow> u32 \<Rightarrow> int \<Rightarrow> bytes \<Rightarrow> nat \<Rightarrow>
    (u32 \<times> int \<times> bytes \<times> nat) option" where
  "huff_dec_loop m hend oend h cur nxt shift code bleft dm out =
     (if bleft > 0 \<and> out \<noteq> oend then do {
        (h, cur, nxt, shift) \<leftarrow> huff_refill m hend h cur nxt shift;
        let code = (if shift \<noteq> 0 then push_bit shift cur + drop_bit (32 - shift) nxt else cur);
        r \<leftarrow> huff_lookup code;
        case r of None \<Rightarrow> Some (code, bleft, dm, out)
        | Some (c, l) \<Rightarrow>
            if l = 0 \<or> bleft - int l < 0 then Some (code, bleft, dm, out)
            else do {
              dm \<leftarrow> st dm out c;
              huff_dec_loop m hend oend h cur nxt (shift + l) code (bleft - int l) dm (out + 1)
            }
      } else Some (code, bleft, dm, out))"
  by pat_completeness auto
termination
  by (relation "measure (\<lambda>(m, hend, oend, h, cur, nxt, shift, code, bleft, dm, out). nat bleft)") auto

declare huff_dec_loop.simps [simp del]

text \<open>\<^verbatim>\<open>huff_dec(huff, hlen, out, olen)\<close>, where \<open>huff\<close> and \<open>out\<close> are offsets in the memory objects \<open>m\<close>
  and \<open>dm\<close>. In C \<open>hlen\<close> and \<open>olen\<close> are of type \<^verbatim>\<open>int\<close>: the room that the callers pass is a difference of sizes,
  here the number itself, which is the same below \<open>2 ^ 31\<close>.\<close>

definition huff_dec :: "bytes \<Rightarrow> nat \<Rightarrow> nat \<Rightarrow> bytes \<Rightarrow> nat \<Rightarrow> nat \<Rightarrow> (int \<times> bytes) option" where
  "huff_dec m huff hlen dm out olen = do {
     (code, bleft, dm, pos) \<leftarrow>
       huff_dec_loop m (huff + hlen) (out + olen) huff 0 0 64 0 (to_int32 (int hlen * 8)) dm out;
     let mask = - push_bit (32 - nat bleft) (1 :: u32);
     if bleft > 7 \<or> bleft > 0 \<and> code AND mask \<noteq> mask then Some (-1, dm)
     else do {
       dm \<leftarrow> (if pos < out + olen then st dm pos 0 else Some dm);
       Some (int pos - int out, dm)
     }
   }"

section \<open>The reversed tables against the codes\<close>

definition rht_row :: "nat \<Rightarrow> int \<Rightarrow> byte \<times> nat" where
  "rht_row w u = (let x = u mod 256; y = u mod 32 in
     if w = 8 then (rht_bit31_24 ! nat x, if x < 184 then if x < 80 then 5 else 6 else if x < 248 then 7 else 8)
     else if w = 15 then (rht_bit24_17 ! nat x, if x < 224 then if x < 160 then 10 else if x < 208 then 11 else 12
                 else if x < 248 then 13 else if x < 252 then 14 else 15)
     else if w = 21 then (rht_bit15_11_11_4 ! nat y, if y < 12 then 19 else if y < 28 then 20 else 21)
     else if w = 24 then (rht_bit15_8 ! nat x, if x < 176 then if x < 72 then 21 else 22 else if x < 234 then 23 else 24)
     else (rht_bit15_11_11_4 ! nat (x - 64), if x < 188 then if x < 128 then 25 else 26
                 else if x < 226 then 27 else 28))"

definition rht_width :: "int \<Rightarrow> nat" where
  "rht_width n = (if n < 4261412864 then 8 else if n < 4294836224 then 15 else if n < 4294901760 then 21
     else if n < 4294964736 then 24 else if n < 4294967280 then 28 else 30)"

definition ht_ok :: "int \<Rightarrow> huff \<Rightarrow> bool" where
  "ht_ok s h = (let (c, b) = h; c = uint c; lo = c * 2 ^ (32 - b); w = rht_width lo in
     b \<noteq> 0 \<and> (b = 30 \<or> b \<le> w \<and> w < 30 \<and> rht_width (lo + 2 ^ (32 - b) - 1) = w \<and>
       list_all (\<lambda>u. rht_row w u = (word_of_int s, b)) [c * 2 ^ (w - b)..(c + 1) * 2 ^ (w - b) - 1]))"

fun ht_ok_from :: "int \<Rightarrow> huff list \<Rightarrow> bool" where
  "ht_ok_from s [] = True"
| "ht_ok_from s (h # hs) = (ht_ok s h \<and> ht_ok_from (s + 1) hs)"

lemma ht_low_ok: "ht_ok_from 0 ht_low"
  by code_simp

lemma ht_high_ok: "ht_ok_from 128 ht_high"
  by code_simp

lemma ht_ok_from_nth: "ht_ok_from s hs \<Longrightarrow> i < length hs \<Longrightarrow> ht_ok (s + int i) (hs ! i)"
proof (induction hs arbitrary: s i)
  case (Cons h hs)
  then show ?case using Cons.IH [of "s + 1" "i - 1"] by (cases i) (auto simp: algebra_simps)
qed simp

lemma ht_lengths: "length ht_low = 128" "length ht_high = 129"
  by (simp_all add: ht_low_def ht_high_def)

lemma rht_lengths [simp]: "length rht_bit31_24 = 256" "length rht_bit24_17 = 256" "length rht_bit15_8 = 256"
    "length rht_bit15_11_11_4 = 192"
  by (simp_all add: rht_bit31_24_def rht_bit24_17_def rht_bit15_8_def rht_bit15_11_11_4_def)

lemma length_ht [simp]: "length ht = 257"
  by (simp add: ht_def ht_lengths)

lemma ht_nth_ok: "i < 257 \<Longrightarrow> ht_ok (int i) (ht ! i)"
  using ht_ok_from_nth [OF ht_low_ok, of i] ht_ok_from_nth [OF ht_high_ok, of "i - 128"]
  by (auto simp: ht_def nth_append ht_lengths of_nat_diff)

lemma uint_drop: "uint (drop_bit k (w :: u32)) = uint w div 2 ^ k"
proof -
  have "uint (drop_bit k w) = int (unat (drop_bit k w))" by simp
  also have "\<dots> = uint w div 2 ^ k" by (simp only: unat_drop_bit zdiv_int) simp
  finally show ?thesis .
qed

lemma uint_byte: "uint (ucast (w :: u32) :: byte) = uint w mod 256"
  by (simp add: unsigned_ucast_eq take_bit_eq_mod)

lemma uint_and_255: "uint (w AND 0xff :: u32) = uint w mod 256"
proof -
  have "(0xff :: u32) = mask 8" by (simp add: mask_eq_exp_minus_1)
  then have "w AND 0xff = take_bit 8 w" by (simp only: take_bit_eq_mask)
  then show ?thesis by (simp add: take_bit_eq_mod uint_mod)
qed

lemma uint_and_31: "uint (w AND 0x1f :: u32) = uint w mod 32"
proof -
  have "(0x1f :: u32) = mask 5" by (simp add: mask_eq_exp_minus_1)
  then have "w AND 0x1f = take_bit 5 w" by (simp only: take_bit_eq_mask)
  then show ?thesis by (simp add: take_bit_eq_mod uint_mod)
qed


lemma unat_ld: "unat w = nat (uint w)"
  by simp

lemmas huff_word_simps = word_less_def uint_byte uint_drop uint_and_255 uint_and_31

text \<open>In each of its five branches the lookup is one row of a table.\<close>

lemma huff_lookup_row8:
  assumes "uint code < 4261412864"
  shows "huff_lookup code = Some (Some (rht_row 8 (uint code div 16777216)))"
proof -
  define x where "x = uint code div 16777216"
  have x: "0 \<le> x" "x < 254" using assms by (simp_all add: x_def div_less_iff_less_mult pos_imp_zdiv_nonneg_iff)
  have "x mod 256 = x" "uint (drop_bit 24 code) = x" using x by (simp_all add: x_def uint_drop)
  moreover have "code < 0xfe000000" using assms by (simp add: word_less_def)
  ultimately show ?thesis using x unfolding huff_lookup_def x_def [symmetric]
    by (simp add: rht_row_def Let_def word_less_def uint_byte unat_ld ld_def del: nat_uint_eq)
qed

lemma huff_lookup_row15:
  assumes "4261412864 \<le> uint code" "uint code < 4294836224"
  shows "huff_lookup code = Some (Some (rht_row 15 (uint code div 131072)))"
proof -
  define x where "x = uint code div 131072 mod 256"
  have x: "0 \<le> x" "x < 256" by (simp_all add: x_def)
  have "uint (drop_bit 17 code) mod 256 = x" by (simp add: x_def uint_drop)
  moreover have "\<not> code < 0xfe000000" "code < 0xfffe0000" using assms by (simp_all add: word_less_def)
  ultimately show ?thesis using x unfolding huff_lookup_def
    by (simp add: rht_row_def Let_def x_def [symmetric] word_less_def uint_byte uint_and_255 unat_ld ld_def del: nat_uint_eq)
qed

lemma huff_lookup_row21:
  assumes "4294836224 \<le> uint code" "uint code < 4294901760"
  shows "huff_lookup code = Some (Some (rht_row 21 (uint code div 2048)))"
proof -
  define y where "y = uint code div 2048 mod 32"
  have y: "0 \<le> y" "y < 32" by (simp_all add: y_def)
  have "uint (drop_bit 11 code AND 0x1f) = y" by (simp add: y_def uint_drop uint_and_31)
  moreover have "y mod 256 = y" using y by simp
  moreover have "\<not> code < 0xfe000000" "\<not> code < 0xfffe0000" "code < 0xffff0000"
    using assms by (simp_all add: word_less_def)
  ultimately show ?thesis using y unfolding huff_lookup_def
    by (simp add: rht_row_def Let_def y_def [symmetric] word_less_def uint_byte unat_ld ld_def del: nat_uint_eq)
qed

lemma huff_lookup_row24:
  assumes "4294901760 \<le> uint code" "uint code < 4294964736"
  shows "huff_lookup code = Some (Some (rht_row 24 (uint code div 256)))"
proof -
  define x where "x = uint code div 256 mod 256"
  have x: "0 \<le> x" "x < 256" by (simp_all add: x_def)
  have "uint (drop_bit 8 code) mod 256 = x" by (simp add: x_def uint_drop)
  moreover have "\<not> code < 0xfe000000" "\<not> code < 0xfffe0000" "\<not> code < 0xffff0000" "code < 0xfffff600"
    using assms by (simp_all add: word_less_def)
  ultimately show ?thesis using x unfolding huff_lookup_def
    by (simp add: rht_row_def Let_def x_def [symmetric] word_less_def uint_byte uint_and_255 unat_ld ld_def del: nat_uint_eq)
qed

lemma huff_lookup_row28:
  assumes "4294964736 \<le> uint code" "uint code < 4294967280"
  shows "huff_lookup code = Some (Some (rht_row 28 (uint code div 16)))"
proof -
  define x where "x = uint code div 16 mod 256"
  define z where "z = uint code div 16 - 268435200"
  have "268435296 \<le> uint code div 16" "uint code div 16 < 268435455"
    using assms by (simp_all add: div_less_iff_less_mult)
  then have z: "96 \<le> z" "z < 255" by (simp_all add: z_def)
  have "uint code div 16 = z + 256 * 1048575" by (simp add: z_def)
  then have "x = (z + 256 * 1048575) mod 256" by (simp only: x_def)
  also have "\<dots> = z" using z by (subst mod_mult_self2) simp
  finally have x: "96 \<le> x" "x < 255" using z by simp_all
  have "uint (drop_bit 4 code) mod 256 = x" by (simp add: x_def uint_drop)
  moreover have "\<not> code < 0xfe000000" "\<not> code < 0xfffe0000" "\<not> code < 0xffff0000" "\<not> code < 0xfffff600"
    using assms by (simp_all add: word_less_def)
  ultimately show ?thesis using x unfolding huff_lookup_def
    by (simp add: rht_row_def Let_def x_def [symmetric] word_less_def uint_byte uint_and_255 unat_ld ld_def del: nat_uint_eq)
qed

lemma huff_lookup_row:
  assumes "rht_width (uint code) = w" and "w < 30"
  shows "huff_lookup code = Some (Some (rht_row w (uint code div 2 ^ (32 - w))))"
  using assms huff_lookup_row8 [of code] huff_lookup_row15 [of code] huff_lookup_row21 [of code]
    huff_lookup_row24 [of code] huff_lookup_row28 [of code]
  by (auto simp: rht_width_def split: if_splits)

lemma div_window: "0 < d \<Longrightarrow> x div d * d \<le> x \<and> x \<le> (x div d + 1) * d - (1 :: int)"
  using pos_mod_bound [of d x] pos_mod_sign [of d x] minus_mod_eq_div_mult [of x d]
  unfolding distrib_right by linarith

text \<open>The lookup inverts the code table: whatever follows the code of a symbol in the window, the
  symbol and the length of its code are found. The codes of 30 bits are left out.\<close>

lemma huff_lookup_code:
  assumes "ht ! unat s = (c, b)" and "b \<noteq> 30" and "drop_bit (32 - b) code = c"
  shows "huff_lookup code = Some (Some (s, b))"
proof -
  have "ht_ok (int (unat s)) (c, b)" using ht_nth_ok [of "unat s"] byte_less [of s] assms(1) by simp
  then have ok: "b \<noteq> 0" "b \<le> rht_width (uint c * 2 ^ (32 - b))" "rht_width (uint c * 2 ^ (32 - b)) < 30"
    "rht_width (uint c * 2 ^ (32 - b) + 2 ^ (32 - b) - 1) = rht_width (uint c * 2 ^ (32 - b))"
    "\<forall>u \<in> {uint c * 2 ^ (rht_width (uint c * 2 ^ (32 - b)) - b)..(uint c + 1) * 2 ^ (rht_width (uint c * 2 ^ (32 - b)) - b) - 1}.
      rht_row (rht_width (uint c * 2 ^ (32 - b))) u = (s, b)"
    using assms(2) by (auto simp: ht_ok_def Let_def list_all_iff)
  define n where "n = uint code"
  define w where "w = rht_width (uint c * 2 ^ (32 - b))"
  have w: "b \<le> w" "w < 30" using ok(2,3) by (simp_all add: w_def)
  have cn: "uint c = n div 2 ^ (32 - b)" using assms(3) uint_drop [of "32 - b" code] by (simp add: n_def)
  have lo: "uint c * 2 ^ (32 - b) \<le> n" and hi: "n \<le> uint c * 2 ^ (32 - b) + 2 ^ (32 - b) - 1"
    unfolding cn using div_window [of "2 ^ (32 - b)" n] by (simp_all add: distrib_right)
  have mono: "rht_width x \<le> rht_width y" if "x \<le> y" for x y using that by (auto simp: rht_width_def)
  have "rht_width n = w" using mono [OF lo] mono [OF hi] ok(4) by (simp add: w_def)
  then have row: "huff_lookup code = Some (Some (rht_row w (n div 2 ^ (32 - w))))"
    using huff_lookup_row [of code w] w(2) by (simp add: n_def)
  have "n div 2 ^ (32 - b) = n div 2 ^ (32 - w) div 2 ^ (w - b)"
    using w by (simp add: zdiv_zmult2_eq [symmetric] power_add [symmetric])
  then have "uint c * 2 ^ (w - b) \<le> n div 2 ^ (32 - w)" "n div 2 ^ (32 - w) \<le> (uint c + 1) * 2 ^ (w - b) - 1"
    unfolding cn using div_window [of "2 ^ (w - b)" "n div 2 ^ (32 - w)"] by simp_all
  then show ?thesis using ok(5) row unfolding w_def [symmetric] by simp
qed

section \<open>The stream of bits\<close>

text \<open>The bits of a string of bytes, most significant first, and the code of a string of symbols.\<close>

definition bits_of :: "bytes \<Rightarrow> bool list" where
  "bits_of bs = concat (map (\<lambda>b. map (\<lambda>i. bit b (7 - i)) [0..<8]) bs)"

definition code_bits :: "huff \<Rightarrow> bool list" where
  "code_bits = (\<lambda>(c, b). map (\<lambda>i. bit c (b - 1 - i)) [0..<b])"

definition huff_bits :: "bytes \<Rightarrow> bool list" where
  "huff_bits xs = concat (map (\<lambda>x. code_bits (ht ! unat x)) xs)"

definition huff_bit :: "bytes \<Rightarrow> nat \<Rightarrow> bool" where
  "huff_bit hs n = (n < 8 * length hs \<and> bit (hs ! (n div 8)) (7 - n mod 8))"

lemma length_bits_of [simp]: "length (bits_of bs) = 8 * length bs"
  by (induction bs) (simp_all add: bits_of_def)

lemma bits_of_nth: "n < 8 * length bs \<Longrightarrow> bits_of bs ! n = huff_bit bs n"
proof (induction bs arbitrary: n)
  case (Cons b bs)
  show ?case
  proof (cases "n < 8")
    case True
    then show ?thesis using Cons.prems by (simp add: bits_of_def huff_bit_def nth_append)
  next
    case False
    then have "bits_of (b # bs) ! n = bits_of bs ! (n - 8)" by (simp add: bits_of_def nth_append)
    also have "\<dots> = huff_bit bs (n - 8)" using Cons.prems False by (intro Cons.IH) simp
    also have "\<dots> = huff_bit (b # bs) n"
      using False Cons.prems by (auto simp: huff_bit_def nth_Cons' le_div_geq le_mod_geq not_less)
    finally show ?thesis .
  qed
qed simp

text \<open>The word read at the byte position \<open>4 * k\<close>.\<close>

definition huff_byte :: "bytes \<Rightarrow> nat \<Rightarrow> byte" where
  "huff_byte hs j = (if j < length hs then hs ! j else 0)"

definition huff_word :: "bytes \<Rightarrow> nat \<Rightarrow> u32" where
  "huff_word hs k = push_bit 24 (ucast (huff_byte hs (4 * k))) + push_bit 16 (ucast (huff_byte hs (4 * k + 1)))
     + push_bit 8 (ucast (huff_byte hs (4 * k + 2))) + ucast (huff_byte hs (4 * k + 3))"

lemma huff_next_eq:
  assumes "h0 + hlen \<le> length m"
  shows "huff_next m (h0 + hlen) (h0 + min (4 * k) hlen) =
    Some (huff_word (take hlen (drop h0 m)) k, h0 + min (4 * Suc k) hlen)"
proof -
  let ?hs = "take hlen (drop h0 m)"
  have get: "(if h0 + min (4 * k) hlen + i < h0 + hlen then ld m (h0 + min (4 * k) hlen + i) else Some 0)
      = Some (huff_byte ?hs (4 * k + i))" for i
    using assms by (auto simp: huff_byte_def ld_def min_def add.assoc)
  have "(if h0 + min (4 * k) hlen + 4 \<le> h0 + hlen then h0 + min (4 * k) hlen + 4 else h0 + hlen) = h0 + min (4 * Suc k) hlen"
    by auto
  then show ?thesis unfolding huff_next_def Let_def get huff_word_def using get [of 0] by simp
qed

lemma bit_byte_word: "bit (ucast (b :: byte) :: u32) n \<longleftrightarrow> n < 8 \<and> bit b n"
  using bit_imp_le_length [of b n] by (auto simp: bit_ucast_iff)

lemma bit_bytes4:
  fixes b0 b1 b2 b3 :: byte
  shows "bit (push_bit 24 (ucast b0) + push_bit 16 (ucast b1) + push_bit 8 (ucast b2) + ucast b3 :: u32) n \<longleftrightarrow>
    (if n < 8 then bit b3 n else if n < 16 then bit b2 (n - 8) else if n < 24 then bit b1 (n - 16)
     else n < 32 \<and> bit b0 (n - 24))"
proof -
  have e1: "push_bit 24 (ucast b0) + push_bit 16 (ucast b1) = push_bit 24 (ucast b0) OR (push_bit 16 (ucast b1) :: u32)"
    by (rule disjunctive_add) (auto simp: bit_push_bit_iff bit_byte_word)
  have e2: "\<dots> + push_bit 8 (ucast b2) = \<dots> OR push_bit 8 (ucast b2)"
    by (rule disjunctive_add) (auto simp: bit_push_bit_iff bit_byte_word bit_or_iff)
  have e3: "(push_bit 24 (ucast b0) OR push_bit 16 (ucast b1) OR push_bit 8 (ucast b2)) + ucast b3 =
      (push_bit 24 (ucast b0) OR push_bit 16 (ucast b1) OR push_bit 8 (ucast b2)) OR (ucast b3 :: u32)"
    by (rule disjunctive_add) (auto simp: bit_push_bit_iff bit_byte_word bit_or_iff)
  show ?thesis unfolding e1 e2 e3 or.assoc
    using bit_imp_le_length [of b0 "n - 24"]
    by (auto simp: bit_or_iff bit_push_bit_iff bit_byte_word)
qed

lemma bit_huff_word:
  assumes "i < 32"
  shows "bit (huff_word hs k) (31 - i) \<longleftrightarrow> huff_bit hs (32 * k + i)"
proof -
  have byte: "huff_bit hs (8 * j + r) \<longleftrightarrow> bit (huff_byte hs j) (7 - r)" if "r < 8" for j r
    using that by (auto simp: huff_bit_def huff_byte_def)
  consider "i < 8" | "8 \<le> i" "i < 16" | "16 \<le> i" "i < 24" | "24 \<le> i" using assms by linarith
  then show ?thesis
  proof cases
    case 1
    then show ?thesis using byte [of i "4 * k"] by (auto simp: huff_word_def bit_bytes4)
  next
    case 2
    then show ?thesis using byte [of "i - 8" "4 * k + 1"] by (auto simp: huff_word_def bit_bytes4)
  next
    case 3
    then show ?thesis using byte [of "i - 16" "4 * k + 2"] by (auto simp: huff_word_def bit_bytes4)
  next
    case 4
    then show ?thesis using byte [of "i - 24" "4 * k + 3"] assms by (auto simp: huff_word_def bit_bytes4)
  qed
qed

text \<open>A 32-bit window of the stream at the bit position \<open>t\<close>.\<close>

definition huff_win :: "bytes \<Rightarrow> nat \<Rightarrow> u32 \<Rightarrow> bool" where
  "huff_win hs t code \<longleftrightarrow> (\<forall>i < 32. bit code (31 - i) \<longleftrightarrow> huff_bit hs (t + i))"

lemma huff_win_shift:
  assumes "s < 32"
  shows "huff_win hs (32 * k + s) (if s \<noteq> 0 then push_bit s (huff_word hs k) + drop_bit (32 - s) (huff_word hs (Suc k))
     else huff_word hs k)"
proof (cases "s = 0")
  case True
  then show ?thesis by (simp add: huff_win_def bit_huff_word)
next
  case False
  let ?a = "push_bit s (huff_word hs k)" and ?b = "drop_bit (32 - s) (huff_word hs (Suc k))"
  have or: "?a + ?b = ?a OR ?b"
    using assms by (intro disjunctive_add) (auto simp: bit_push_bit_iff bit_drop_bit_eq dest: bit_imp_le_length)
  have "bit (?a OR ?b) (31 - i) \<longleftrightarrow> huff_bit hs (32 * k + s + i)" if i: "i < 32" for i
  proof (cases "s + i < 32")
    case True
    have "\<not> bit ?b (31 - i)" using True by (auto simp: bit_drop_bit_eq dest!: bit_imp_le_length)
    moreover have "bit ?a (31 - i) \<longleftrightarrow> bit (huff_word hs k) (31 - (s + i))" using True i by (auto simp: bit_push_bit_iff add.commute)
    ultimately show ?thesis using bit_huff_word [OF True, of hs k] by (simp add: bit_or_iff add.assoc)
  next
    case F: False
    have "\<not> s \<le> 31 - i" using F i by linarith
    then have "\<not> bit ?a (31 - i)" by (simp add: bit_push_bit_iff)
    moreover have "bit ?b (31 - i) \<longleftrightarrow> bit (huff_word hs (Suc k)) (31 - (s + i - 32))"
      using F i assms by (simp add: bit_drop_bit_eq)
    moreover have "32 * Suc k + (s + i - 32) = 32 * k + s + i" using F by simp
    ultimately show ?thesis using bit_huff_word [of "s + i - 32" hs "Suc k"] i assms by (simp add: bit_or_iff del: mult_Suc_right)
  qed
  then show ?thesis using False or by (simp add: huff_win_def)
qed


section \<open>The decoding loop\<close>

text \<open>The state of the decoder after \<open>j\<close> words were read and \<open>t\<close> bits consumed.\<close>

definition huff_inv :: "nat \<Rightarrow> bytes \<Rightarrow> nat \<Rightarrow> nat \<Rightarrow> nat \<Rightarrow> u32 \<Rightarrow> u32 \<Rightarrow> nat \<Rightarrow> bool" where
  "huff_inv h0 hs t j h cur nxt shift \<longleftrightarrow> h = h0 + min (4 * j) (length hs) \<and> 32 * j + shift = t + 64 \<and>
     (1 \<le> j \<longrightarrow> nxt = huff_word hs (j - 1)) \<and> (2 \<le> j \<longrightarrow> cur = huff_word hs (j - 2))"

lemma huff_refill_eq:
  assumes "h0 + hlen \<le> length m" and "hs = take hlen (drop h0 m)"
  shows "huff_inv h0 hs t j h cur nxt shift \<Longrightarrow>
    \<exists>j' h' cur' nxt' shift'. huff_refill m (h0 + hlen) h cur nxt shift = Some (h', cur', nxt', shift') \<and>
      huff_inv h0 hs t j' h' cur' nxt' shift' \<and> shift' < 32"
proof (induction shift arbitrary: j h cur nxt rule: less_induct)
  case (less shift)
  show ?case
  proof (cases "shift < 32")
    case True
    then show ?thesis using less(2) by (subst huff_refill.simps) auto
  next
    case False
    have len: "length hs = hlen" using assms by simp
    have h: "h = h0 + min (4 * j) hlen" using less(2) len by (simp add: huff_inv_def)
    have nx: "huff_next m (h0 + hlen) h = Some (huff_word hs j, h0 + min (4 * Suc j) hlen)"
      unfolding h assms(2) by (rule huff_next_eq [OF assms(1)])
    have "huff_inv h0 hs t (Suc j) (h0 + min (4 * Suc j) hlen) nxt (huff_word hs j) (shift - 32)"
      using less(2) False len by (auto simp: huff_inv_def Suc_diff_le numeral_2_eq_2)
    from less(1) [OF _ this] False show ?thesis using nx by (subst huff_refill.simps) simp
  qed
qed

lemma huff_refill_win:
  assumes "huff_inv h0 hs t j h cur nxt shift" and "shift < 32"
  shows "huff_win hs t (if shift \<noteq> 0 then push_bit shift cur + drop_bit (32 - shift) nxt else cur)"
proof -
  have j: "2 \<le> j" "32 * j + shift = t + 64" using assms by (auto simp: huff_inv_def)
  moreover from j have "j - 1 = Suc (j - 2)" by simp
  ultimately have "cur = huff_word hs (j - 2)" "nxt = huff_word hs (Suc (j - 2))"
    using assms(1) by (auto simp: huff_inv_def)
  moreover have "t = 32 * (j - 2) + shift" using j by simp
  ultimately show ?thesis using huff_win_shift [OF assms(2), of hs "j - 2"] by (simp only:)
qed

lemma huff_win_code:
  assumes "huff_win hs t code" and "ht ! unat x = (c, b)" and "b \<noteq> 30"
    and "\<And>i. i < b \<Longrightarrow> huff_bit hs (t + i) = bit c (b - 1 - i)"
  shows "huff_lookup code = Some (Some (x, b))"
proof (rule huff_lookup_code [OF assms(2,3)])
  have "ht_ok (int (unat x)) (c, b)" using ht_nth_ok [of "unat x"] byte_less [of x] assms(2) by simp
  then have w: "b \<le> 28" "uint c * 2 ^ (32 - b) < 4294967280"
    using assms(3) by (auto simp: ht_ok_def Let_def rht_width_def split: if_splits)
  have "uint c * 2 ^ (32 - b) < 2 ^ b * 2 ^ (32 - b)" using w by (simp add: power_add [symmetric])
  then have "uint c < 2 ^ b" by simp
  then have high: "\<not> bit c n" if "b \<le> n" for n
  proof -
    have "uint c < 2 ^ n" using \<open>uint c < 2 ^ b\<close> that by (meson order_less_le_trans power_increasing one_le_numeral)
    then have "uint c div 2 ^ n = 0" by simp
    then have "\<not> bit (uint c) n" by (simp add: bit_iff_odd)
    then show ?thesis using bit_imp_le_length [of c n] by (auto simp: bit_uint_iff)
  qed
  show "drop_bit (32 - b) code = c"
  proof (rule bit_eqI)
    fix n
    show "bit (drop_bit (32 - b) code) n \<longleftrightarrow> bit c n"
    proof (cases "n < b")
      case True
      define i where "i = b - 1 - n"
      have i: "i < b" "i < 32" "31 - i = 32 - b + n" "b - 1 - i = n" using True w(1) by (simp_all add: i_def)
      have "bit code (31 - i) \<longleftrightarrow> huff_bit hs (t + i)" using assms(1) i(2) by (simp add: huff_win_def)
      then show ?thesis using assms(4) [OF i(1)] i(3,4) by (simp add: bit_drop_bit_eq)
    next
      case False
      then have "\<not> bit (drop_bit (32 - b) code) n" using w(1) by (auto simp: bit_drop_bit_eq dest!: bit_imp_le_length)
      then show ?thesis using high False by simp
    qed
  qed
qed

text \<open>The padding: up to seven bits set, followed by zeroes, never complete a code.\<close>

lemma huff_win_pad:
  assumes "huff_win hs t code" and "\<And>i. i < 32 \<Longrightarrow> huff_bit hs (t + i) \<longleftrightarrow> i < k" and "k \<le> 32"
  shows "code = push_bit (32 - k) (mask k)"
proof (rule bit_word_eqI)
  fix n assume "n < LENGTH(32)"
  then have n: "n < 32" by simp
  from assms(1) have "\<And>i. i < 32 \<Longrightarrow> bit code (31 - i) = huff_bit hs (t + i)" by (simp add: huff_win_def)
  from this [of "31 - n"] assms(2) [of "31 - n"] n have "bit code n \<longleftrightarrow> 31 - n < k" by simp
  then have "bit code n \<longleftrightarrow> 32 - k \<le> n" using n assms(3) by linarith
  then show "bit code n \<longleftrightarrow> bit (push_bit (32 - k) (mask k) :: u32) n"
    using n assms(3) by (auto simp: bit_push_bit_iff bit_mask_iff)
qed

lemma huff_pad_lengths:
  "map (\<lambda>c. map_option (map_option snd) (huff_lookup c))
     [0x80000000, 0xc0000000, 0xe0000000, 0xf0000000, 0xf8000000, 0xfc000000, 0xfe000000] =
   map (\<lambda>l. Some (Some l)) [6, 7, 7, 7, 8, 8, 10]"
  by code_simp

lemma huff_pad_lookup:
  assumes "0 < k" and "k < 8"
  shows "\<exists>x l. huff_lookup (push_bit (32 - k) (mask k)) = Some (Some (x, l)) \<and> k < l"
proof -
  have "k \<in> {1, 2, 3, 4, 5, 6, 7}" using assms by auto
  then show ?thesis
    using huff_pad_lengths by (auto simp: mask_eq_exp_minus_1)
qed


lemma nth_bits: "bits_of hs = pre @ ys \<Longrightarrow> i < length ys \<Longrightarrow> huff_bit hs (length pre + i) = ys ! i"
  by (metis bits_of_nth length_append length_bits_of nat_add_left_cancel_less nth_append_length_plus)

lemma huff_bit_past: "8 * length hs \<le> n \<Longrightarrow> \<not> huff_bit hs n"
  by (simp add: huff_bit_def)

lemma length_code_bits: "length (code_bits (c, b)) = b"
  by (simp add: code_bits_def)

lemma huff_dec_loop_step:
  assumes "0 < bleft" and "out \<noteq> oend" and "huff_refill m hend h cur nxt shift = Some (h', cur', nxt', shift')"
  shows "huff_dec_loop m hend oend h cur nxt shift code bleft dm out =
    (let c = (if shift' \<noteq> 0 then push_bit shift' cur' + drop_bit (32 - shift') nxt' else cur') in do {
       r \<leftarrow> huff_lookup c;
       case r of None \<Rightarrow> Some (c, bleft, dm, out)
       | Some (x, l) \<Rightarrow>
           if l = 0 \<or> bleft - int l < 0 then Some (c, bleft, dm, out)
           else do {
             dm \<leftarrow> st dm out x;
             huff_dec_loop m hend oend h' cur' nxt' (shift' + l) c (bleft - int l) dm (out + 1)
           }
     })"
  using assms by (subst huff_dec_loop.simps) simp

lemma huff_dec_loop_eq:
  assumes m: "h0 + hlen \<le> length m" "hs = take hlen (drop h0 m)" and k: "k < 8"
  shows "\<lbrakk> bits_of hs = pre @ huff_bits xs @ replicate k True; \<forall>x \<in> set xs. snd (ht ! unat x) \<noteq> 30;
      huff_inv h0 hs (length pre) j h cur nxt shift; out + length xs < oend; oend \<le> length dm \<rbrakk> \<Longrightarrow>
    \<exists>code'. huff_dec_loop m (h0 + hlen) oend h cur nxt shift code (int (8 * hlen - length pre)) dm out =
      Some (code', int k, blit dm out xs, out + length xs) \<and> (0 < k \<longrightarrow> code' = push_bit (32 - k) (mask k))"
proof (induction xs arbitrary: pre j h cur nxt shift code dm out)
  case Nil
  have len: "8 * hlen = length pre + k" using arg_cong [OF Nil(1), of length] m by (simp add: huff_bits_def)
  show ?case
  proof (cases "k = 0")
    case True
    then show ?thesis using len by (subst huff_dec_loop.simps) simp
  next
    case False
    obtain j' h' cur' nxt' shift' where r: "huff_refill m (h0 + hlen) h cur nxt shift = Some (h', cur', nxt', shift')"
      "huff_inv h0 hs (length pre) j' h' cur' nxt' shift'" "shift' < 32"
      using huff_refill_eq [OF m Nil(3)] by blast
    define c where "c = (if shift' \<noteq> 0 then push_bit shift' cur' + drop_bit (32 - shift') nxt' else cur')"
    have win: "huff_win hs (length pre) c" unfolding c_def by (rule huff_refill_win [OF r(2,3)])
    have "huff_bit hs (length pre + i) \<longleftrightarrow> i < k" for i
      using nth_bits [of hs pre "replicate k True" i] Nil(1) huff_bit_past [of hs "length pre + i"] m len
      by (cases "i < k") (auto simp: huff_bits_def)
    then have c: "c = push_bit (32 - k) (mask k)" using huff_win_pad [OF win, of k] k by simp
    obtain x l where l: "huff_lookup c = Some (Some (x, l))" "k < l"
      using huff_pad_lookup [of k] False k unfolding c by blast
    have "huff_dec_loop m (h0 + hlen) oend h cur nxt shift code (int k) dm out = Some (c, int k, dm, out)"
    proof -
      have pos: "0 < int k" "out \<noteq> oend" using False Nil(4) by simp_all
      show ?thesis unfolding huff_dec_loop_step [OF pos r(1)] Let_def c_def [symmetric] using l by simp
    qed
    then show ?thesis using len c by simp
  qed
next
  case (Cons x xs)
  obtain c b where cb: "ht ! unat x = (c, b)" by (cases "ht ! unat x")
  have b: "b \<noteq> 30" "b \<noteq> 0"
    using Cons.prems(2) cb ht_nth_ok [of "unat x"] byte_less [of x] by (auto simp: ht_ok_def Let_def)
  let ?rest = "huff_bits xs @ replicate k True"
  have split: "bits_of hs = pre @ code_bits (c, b) @ ?rest"
    using Cons.prems(1) by (simp add: huff_bits_def cb)
  have "length hs = hlen" using m by simp
  then have len: "8 * hlen = length pre + b + length ?rest"
    using arg_cong [OF split, of length] by (simp add: length_code_bits)
  obtain j' h' cur' nxt' shift' where r: "huff_refill m (h0 + hlen) h cur nxt shift = Some (h', cur', nxt', shift')"
    "huff_inv h0 hs (length pre) j' h' cur' nxt' shift'" "shift' < 32"
    using huff_refill_eq [OF m Cons.prems(3)] by blast
  define w where "w = (if shift' \<noteq> 0 then push_bit shift' cur' + drop_bit (32 - shift') nxt' else cur')"
  have win: "huff_win hs (length pre) w" unfolding w_def by (rule huff_refill_win [OF r(2,3)])
  have "huff_bit hs (length pre + i) = bit c (b - 1 - i)" if "i < b" for i
    using nth_bits [OF split, of i] that by (simp add: nth_append length_code_bits) (simp add: code_bits_def)
  then have look: "huff_lookup w = Some (Some (x, b))" by (rule huff_win_code [OF win cb b(1)])
  have st: "st dm out x = Some (dm[out := x])" using Cons.prems(4,5) by (simp add: st_def)
  have inv: "huff_inv h0 hs (length (pre @ code_bits (c, b))) j' h' cur' nxt' (shift' + b)"
    using r(2) by (simp add: huff_inv_def length_code_bits)
  define bl where "bl = int (8 * hlen - length pre)"
  have pos: "0 < bl" "out \<noteq> oend" "\<not> bl - int b < 0"
    "bl - int b = int (8 * hlen - length (pre @ code_bits (c, b)))"
    using len b(2) Cons.prems(4) by (simp_all add: bl_def length_code_bits)
  have "huff_dec_loop m (h0 + hlen) oend h cur nxt shift code bl dm out =
      huff_dec_loop m (h0 + hlen) oend h' cur' nxt' (shift' + b) w (int (8 * hlen - length (pre @ code_bits (c, b)))) (dm[out := x]) (out + 1)"
    unfolding huff_dec_loop_step [OF pos(1,2) r(1)] Let_def w_def [symmetric] pos(4) [symmetric]
    using pos(3) look st b(2) by simp
  moreover have "blit (dm[out := x]) (out + 1) xs = blit dm out (x # xs)"
    using Cons.prems(4,5) by (intro nth_equalityI) (auto simp: nth_blit nth_list_update nth_Cons' )
  moreover have "\<exists>code'. huff_dec_loop m (h0 + hlen) oend h' cur' nxt' (shift' + b) w
        (int (8 * hlen - length (pre @ code_bits (c, b)))) (dm[out := x]) (out + 1) =
      Some (code', int k, blit (dm[out := x]) (out + 1) xs, out + 1 + length xs) \<and> (0 < k \<longrightarrow> code' = push_bit (32 - k) (mask k))"
    by (rule Cons.IH [OF _ _ inv]) (use split Cons.prems in auto)
  ultimately show ?case unfolding bl_def by simp
qed


lemma huff_dec_eq:
  assumes m: "h0 + hlen \<le> length m" "hlen < 268435456" and k: "k < 8"
    and bits: "bits_of (take hlen (drop h0 m)) = huff_bits xs @ replicate k True"
    and codes: "\<forall>x \<in> set xs. snd (ht ! unat x) \<noteq> 30"
    and room: "length xs < olen" "out + olen \<le> length dm"
  shows "huff_dec m h0 hlen dm out olen = Some (int (length xs), blit dm out (xs @ [0]))"
proof -
  have inv: "huff_inv h0 (take hlen (drop h0 m)) (length []) 0 h0 0 0 64" by (simp add: huff_inv_def)
  obtain c where c: "huff_dec_loop m (h0 + hlen) (out + olen) h0 0 0 64 0 (int (8 * hlen - length [])) dm out =
      Some (c, int k, blit dm out xs, out + length xs)" "0 < k \<longrightarrow> c = push_bit (32 - k) (mask k)"
    using huff_dec_loop_eq [OF m(1) refl k, of "[]" xs 0 h0 0 0 64 out "out + olen" dm 0] bits codes inv room by auto
  have "to_int32 (int hlen * 8) = int (8 * hlen - length [])" using m(2) by (simp add: to_int32_small)
  moreover have "0 < k \<longrightarrow> c AND - push_bit (32 - k) 1 = - push_bit (32 - k) (1 :: u32)"
  proof
    assume "0 < k"
    then have "k \<in> {1, 2, 3, 4, 5, 6, 7}" using k by auto
    then show "c AND - push_bit (32 - k) 1 = - push_bit (32 - k) (1 :: u32)"
      using c(2) by (auto simp: mask_eq_exp_minus_1)
  qed
  moreover have "st (blit dm out xs) (out + length xs) 0 = Some (blit dm out (xs @ [0]))"
    using st_blit [of out xs dm 0] room by simp
  ultimately show ?thesis using c(1) k room by (auto simp: huff_dec_def Let_def)
qed

lemma huff_enc_loop_eq:
  assumes "drop s m = xs @ 0 # rest" and "0 \<notin> set xs" and "bits + length (huff_bits xs) < 2147483648"
  shows "huff_enc_loop m s (int bits) = Some (int (bits + length (huff_bits xs)))"
  using assms
proof (induction xs arbitrary: s bits)
  case Nil
  then have "s < length m" "m ! s = 0" using nth_via_drop [of s m] by (auto intro: ccontr)
  then show ?case by (subst huff_enc_loop.simps) (simp add: ld_def huff_bits_def)
next
  case (Cons x xs)
  obtain c b where cb: "ht ! unat x = (c, b)" by (cases "ht ! unat x")
  have s: "s < length m" "m ! s = x" "drop (Suc s) m = xs @ 0 # rest"
    using Cons.prems(1) nth_via_drop [of s m x] drop_Suc_Cons by (auto intro: ccontr simp: drop_Suc tl_drop [symmetric])
  have len: "length (huff_bits (x # xs)) = b + length (huff_bits xs)"
    by (simp add: huff_bits_def cb length_code_bits)
  then have "to_int32 (int bits + int b) = int (bits + b)" using Cons.prems(3) by (simp add: to_int32_small)
  then show ?case using Cons.IH [of "Suc s" "bits + b"] Cons.prems s len byte_less [of x] cb
    by (subst huff_enc_loop.simps) (simp add: ld_def add.assoc)
qed

lemma ht_30: "snd (ht ! unat (s :: byte)) = 30 \<longleftrightarrow> s \<in> {10, 13, 22}"
proof -
  have "list_all (\<lambda>(i, c, b). (b = 30) = (i = 10 \<or> i = 13 \<or> i = 22)) (zip [0..<256] ht)" by code_simp
  then have "(case (unat s, ht ! unat s) of (i, c, b) \<Rightarrow> (b = 30) = (i = 10 \<or> i = 13 \<or> i = 22))"
    using byte_less [of s] unfolding list_all_length by (elim allE [of _ "unat s"]) simp
  then show ?thesis by (simp add: word_unat_eq_iff case_prod_beta)
qed

section \<open>Properties\<close>

text \<open>C37. \<^verbatim>\<open>huff_dec\<close> decodes the Huffman code of every string: a string of bytes whose bits are the
  codes of the symbols \<open>xs\<close> followed by fewer than eight set bits gives \<open>xs\<close> back, zero-terminated, when
  the output has room for one byte more than the string. The symbols whose code has 30 bits
  (line feed, carriage return and 22) are excluded. The decoder never reads outside of its input,
  its tables or writes past its output, and always returns.\<close>

theorem huff_roundtrip:
  assumes "h0 + hlen \<le> length m" and "hlen < 2 ^ 28" and "k < 8"
    and "bits_of (take hlen (drop h0 m)) = huff_bits xs @ replicate k True"
    and "set xs \<inter> {10, 13, 22} = {}" and "length xs < olen" and "out + olen \<le> length dm"
  shows "huff_dec m h0 hlen dm out olen = Some (int (length xs), blit dm out (xs @ [0]))"
proof (rule huff_dec_eq)
  show "\<forall>x \<in> set xs. snd (ht ! unat x) \<noteq> 30" using assms(5) ht_30 by blast
qed (use assms in simp_all)

theorem huff_roundtrip_witness:
  "huff_dec [7, 0x1c, 0x69] 1 2 [0, 0, 0, 0, 0] 0 5 = Some (int (length [97, 98, 116 :: byte]), blit [0, 0, 0, 0, 0] 0 ([97, 98, 116] @ [0]))"
proof (rule huff_roundtrip [where k = 0])
  show "bits_of (take 2 (drop 1 [7, 0x1c, 0x69])) = huff_bits [97, 98, 116] @ replicate 0 True" by code_simp
qed simp_all

text \<open>The window lookup inverts the code table: for every symbol whose code has less than 30 bits
  and every 32-bit window that starts with its code, whatever the bits that follow, the lookup
  returns the symbol and the number of bits of its code, without an access outside of a table.\<close>

theorem huff_lookup_inverts:
  assumes "ht ! unat s = (c, b)" and "b \<noteq> 30" and "drop_bit (32 - b) code = c"
  shows "huff_lookup code = Some (Some (s, b))"
  using assms by (rule huff_lookup_code)

theorem huff_lookup_inverts_witness: "huff_lookup 0x1c64a3ff = Some (Some (97, 5))"
  by (rule huff_lookup_inverts [where c = 3]) (code_simp, code_simp, simp)

text \<open>A line feed, which has a 30-bit code, is not decoded: the test of the last eight bits of the
  window includes two bits that belong to the rest of the stream. The code of a line feed followed by
  its padding is refused, and so is the same code followed by any symbol whose code starts with a
  set bit among its first two, while the code of a symbol of 28 bits is accepted.\<close>

theorem huff_dec_30_bits_refused:
  "huff_dec [0xff, 0xff, 0xff, 0xf3] 0 4 [0, 0] 0 2 = Some (-1, [0, 0]) \<and>
   bits_of [0xff, 0xff, 0xff, 0xf3] = huff_bits [10] @ replicate 2 True \<and>
   huff_dec [0xff, 0xff, 0xfe, 0x2f] 0 4 [0, 0] 0 2 = Some (1, [2, 0]) \<and>
   bits_of [0xff, 0xff, 0xfe, 0x2f] = huff_bits [2] @ replicate 4 True"
  by code_simp

text \<open>When the output has exactly the size of the decoded string, the check of the padding looks at
  the window of the last symbol instead of the padding: a correct string is refused.\<close>

theorem huff_dec_exact_room_refused:
  "huff_dec [0x1f] 0 1 [0] 0 1 = Some (-1, [97]) \<and> huff_dec [0x1f] 0 1 [0, 0] 0 2 = Some (1, [97, 0])"
  by code_simp

end
