(* ===== verification/HpackDec.thy ===== *)
theory HpackDec
  imports HpackEnc HpackHuff
begin

text \<open>
  The HPACK decoder: \<^verbatim>\<open>src/hpack-dec.c\<close> (and \<^verbatim>\<open>chunk_newstr\<close> of \<^verbatim>\<open>include/haproxy/chunk.h\<close>). The frame is the
  memory object \<open>m\<close>, a position in it is a number. A decoded string points into the frame, into the
  temporary chunk, at a string of the static table, or is NULL: then its length is the number of a
  pseudo-header. The result of the allocation that may happen while the \<open>i\<close>-th header is inserted in the
  dynamic table is \<open>alloc i\<close>.

  \<open>None\<close> is an access outside of an object or a shift by more bits than the type has.

  The theorems show that every sequence of header fields in the representations that the encoder uses
  is decoded to its headers while the dynamic table follows the protocol, hence that the decoder inverts
  the encoder, and that the decoder always returns.
\<close>

unbundle bit_operations_syntax

section \<open>Integers\<close>

function var_int_loop :: "bytes \<Rightarrow> nat \<Rightarrow> int \<Rightarrow> u32 \<Rightarrow> nat \<Rightarrow> (nat \<times> int \<times> u32 \<times> nat) option" where
  "var_int_loop m raw len ret shift =
     (if len = 0 then Some (raw, len, ret, shift)
      else do {
        c \<leftarrow> ld m raw;
        if c AND 128 = 0 then Some (raw, len, ret, shift)
        else if shift \<ge> 32 then None
        else var_int_loop m (raw + 1) (len - 1) (ret + push_bit shift (ucast c AND 127)) ((shift + 7) mod 256)
      })"
  by pat_completeness auto
termination
  by (relation "measure (\<lambda>(m, raw, len, ret, shift). length m - raw)") (auto simp: ld_def split: if_splits)

declare var_int_loop.simps [simp del]

definition get_var_int :: "bytes \<Rightarrow> nat \<Rightarrow> nat \<Rightarrow> nat \<Rightarrow> (u32 \<times> nat \<times> nat) option" where
  "get_var_int m raw_in len_in b = do {
     let len = to_int32 (int len_in);
     let raw = raw_in;
     let len = len - 1;
     c \<leftarrow> ld m raw;
     let raw = raw + 1;
     let ret = (ucast c :: u32) AND (push_bit b 1 - 1);
     if ret \<noteq> push_bit b 1 - 1 then Some (ret, raw, nat (len mod 4294967296))
     else do {
       (raw, len, ret, shift) \<leftarrow> var_int_loop m raw len ret 0;
       if len = 0 then Some (0, raw_in, 4294967295)
       else do {
         let len = len - 1;
         c \<leftarrow> ld m raw;
         if shift \<ge> 32 then None
         else do {
           let ret = ret + push_bit shift (ucast c AND 127);
           Some (ret, raw + 1, nat (len mod 4294967296))
         }
       }
     }
   }"

section \<open>Strings\<close>

definition hpack_idx_to_phdr :: "nat \<Rightarrow> nat" where
  "hpack_idx_to_phdr idx =
     (if idx > 14 then 0
      else unat (drop_bit (4 * (idx div 2)) (0x55554321 :: u32) AND 0xF))"

datatype hptr = PNull | PRaw nat | PTmp nat | PSht bytes

record hstr =
  hs_ptr :: hptr
  hs_len :: nat

definition hs2 :: "hptr \<Rightarrow> nat \<Rightarrow> hstr" where
  "hs2 p n = \<lparr>hs_ptr = p, hs_len = n\<rparr>"

text \<open>The bytes that a string designates.\<close>

definition hs_str :: "bytes \<Rightarrow> buffer \<Rightarrow> hstr \<Rightarrow> bytes option" where
  "hs_str m tmp s = (case hs_ptr s of
       PNull \<Rightarrow> if hs_len s = 0 then Some [] else None
     | PRaw p \<Rightarrow> rd m p (hs_len s)
     | PTmp p \<Rightarrow> rd (buf_area tmp) p (hs_len s)
     | PSht xs \<Rightarrow> rd xs 0 (hs_len s))"

definition chunk_newstr :: "buffer \<Rightarrow> (nat option \<times> buffer) option" where
  "chunk_newstr chk =
     (if sz_add (buf_data chk) 1 \<ge> buf_size chk then Some (None, chk)
      else do {
        ar \<leftarrow> st (buf_area chk) (buf_data chk) 0;
        let dat = sz_add (buf_data chk) 1;
        Some (Some dat, chk\<lparr>buf_area := ar, buf_data := dat\<rparr>)
      })"

text \<open>The string \<open>inb\<close> is the one of the index \<open>idx\<close>; entry 0 of the static table is NULL.\<close>

definition hpack_alloc_string :: "buffer \<Rightarrow> nat \<Rightarrow> bytes \<Rightarrow> (hstr \<times> buffer) option" where
  "hpack_alloc_string store idx inb =
     (if idx < HPACK_SHT_SIZE then Some (hs2 (if idx = 0 then PNull else PSht inb) (length inb), store)
      else do {
        (p, store) \<leftarrow> chunk_newstr store;
        case p of None \<Rightarrow> Some (hs2 PNull (length inb), store)
        | Some q \<Rightarrow>
            if sz_add (buf_data store) (length inb) > buf_size store then Some (hs2 PNull (length inb), store)
            else do {
              ar \<leftarrow> wr (buf_area store) q inb;
              Some (hs2 (PTmp q) (length inb),
                store\<lparr>buf_data := sz_add (buf_data store) (length inb), buf_area := ar\<rparr>)
            }
      })"

section \<open>Header fields\<close>

definition HPACK_ERR_UNKNOWN_OPCODE :: int where
  "HPACK_ERR_UNKNOWN_OPCODE = 2"

definition HPACK_ERR_TRUNCATED :: int where
  "HPACK_ERR_TRUNCATED = 3"

definition HPACK_ERR_HUFFMAN :: int where
  "HPACK_ERR_HUFFMAN = 4"

definition HPACK_ERR_DHT_INSERT_FAIL :: int where
  "HPACK_ERR_DHT_INSERT_FAIL = 8"

definition HPACK_ERR_TOO_LARGE :: int where
  "HPACK_ERR_TOO_LARGE = 9"

definition HPACK_ERR_INVALID_ARGUMENT :: int where
  "HPACK_ERR_INVALID_ARGUMENT = 16"

text \<open>What an iteration of the loop of \<^verbatim>\<open>hpack_decode_frame\<close> makes of a field: the return with an error, the next
  iteration (after a size update), or a name, a value and \<^verbatim>\<open>must_index\<close>. The position, the remaining
  length and the chunk come with it.\<close>

datatype hfield_res = FErr int | FSkip | FHdr hstr hstr bool

type_synonym hfield_st = "hfield_res \<times> nat \<times> nat \<times> buffer"

text \<open>The literal strings, which the code reads in three places in the same way: the length, then the
  bytes, which are decoded into the chunk when the \<^verbatim>\<open>huff\<close> bit is set.\<close>

definition hpack_read_str :: "bytes \<Rightarrow> nat \<Rightarrow> nat \<Rightarrow> buffer \<Rightarrow> ((int + hstr) \<times> nat \<times> nat \<times> buffer) option" where
  "hpack_read_str m raw len tmp = do {
     c \<leftarrow> ld m raw;
     let huff = c AND 0x80;
     (n, raw, len) \<leftarrow> get_var_int m raw len 7;
     if len = 4294967295 \<or> len < unat n then Some (Inl (- HPACK_ERR_TRUNCATED), raw, len, tmp)
     else do {
       let s = hs2 (PRaw raw) (unat n);
       let p = raw;
       let raw = raw + unat n;
       let len = len - unat n;
       if huff = 0 then Some (Inr s, raw, len, tmp)
       else do {
         (q, tmp) \<leftarrow> chunk_newstr tmp;
         case q of None \<Rightarrow> Some (Inl (- HPACK_ERR_TOO_LARGE), raw, len, tmp)
         | Some q \<Rightarrow> do {
             (r, ar) \<leftarrow> huff_dec m p (hs_len s) (buf_area tmp) q (sz_sub (buf_size tmp) (buf_data tmp));
             let tmp = tmp\<lparr>buf_area := ar\<rparr>;
             if r = -1 then Some (Inl (- HPACK_ERR_HUFFMAN), raw, len, tmp)
             else Some (Inr (hs2 (PTmp q) (nat r)), raw, len, tmp\<lparr>buf_data := sz_add (buf_data tmp) (nat r)\<rparr>)
           }
       }
     }
   }"

text \<open>An indexed header field, a literal with a new name and a literal with an indexed name.\<close>

definition hpack_indexed :: "hpack_dht \<Rightarrow> bytes \<Rightarrow> nat \<Rightarrow> nat \<Rightarrow> buffer \<Rightarrow> hfield_st option" where
  "hpack_indexed dht m raw len tmp = do {
     c \<leftarrow> ld m raw;
     if c = 0x80 then Some (FErr (- HPACK_ERR_UNKNOWN_OPCODE), raw, len, tmp)
     else do {
       (idx, raw, len) \<leftarrow> get_var_int m raw len 7;
       let idx = unat idx;
       if len = 4294967295 then Some (FErr (- HPACK_ERR_TRUNCATED), raw, len, tmp)
       else if \<not> hpack_valid_idx dht idx then Some (FErr (- HPACK_ERR_TOO_LARGE), raw, len, tmp)
       else do {
         v \<leftarrow> hpack_idx_to_value dht idx;
         (value, tmp) \<leftarrow> hpack_alloc_string tmp idx v;
         if hs_ptr value = PNull then Some (FErr (- HPACK_ERR_TOO_LARGE), raw, len, tmp)
         else do {
           let name = hs2 PNull (hpack_idx_to_phdr idx);
           if hs_len name \<noteq> 0 then Some (FHdr name value False, raw, len, tmp)
           else do {
             n \<leftarrow> hpack_idx_to_name dht idx;
             (name, tmp) \<leftarrow> hpack_alloc_string tmp idx n;
             if hs_ptr name = PNull then Some (FErr (- HPACK_ERR_TOO_LARGE), raw, len, tmp)
             else Some (FHdr name value False, raw, len, tmp)
           }
         }
       }
     }
   }"

definition hpack_size_update :: "hpack_dht \<Rightarrow> bytes \<Rightarrow> nat \<Rightarrow> nat \<Rightarrow> nat \<Rightarrow> buffer \<Rightarrow> hfield_st option" where
  "hpack_size_update dht m raw len ret tmp =
     (if ret \<noteq> 0 then Some (FErr (- HPACK_ERR_TOO_LARGE), raw, len, tmp)
      else do {
        (idx, raw, len) \<leftarrow> get_var_int m raw len 5;
        if len = 4294967295 then Some (FErr (- HPACK_ERR_TRUNCATED), raw, len, tmp)
        else if unat idx > dht_size dht then Some (FErr (- HPACK_ERR_INVALID_ARGUMENT), raw, len, tmp)
        else Some (FSkip, raw, len, tmp)
      })"

definition hpack_literal :: "bytes \<Rightarrow> nat \<Rightarrow> nat \<Rightarrow> buffer \<Rightarrow> hfield_st option" where
  "hpack_literal m raw len tmp = do {
     c \<leftarrow> ld m raw;
     let must_index = (c = 0x40);
     let raw = raw + 1;
     let len = len - 1;
     if len = 0 then Some (FErr (- HPACK_ERR_TRUNCATED), raw, len, tmp)
     else do {
       (r, raw, len, tmp) \<leftarrow> hpack_read_str m raw len tmp;
       case r of Inl e \<Rightarrow> Some (FErr e, raw, len, tmp)
       | Inr name \<Rightarrow>
           if len = 0 then Some (FErr (- HPACK_ERR_TRUNCATED), raw, len, tmp)
           else do {
             (r, raw, len, tmp) \<leftarrow> hpack_read_str m raw len tmp;
             case r of Inl e \<Rightarrow> Some (FErr e, raw, len, tmp)
             | Inr value \<Rightarrow> Some (FHdr name value must_index, raw, len, tmp)
           }
     }
   }"

definition hpack_indexed_name :: "hpack_dht \<Rightarrow> bytes \<Rightarrow> nat \<Rightarrow> nat \<Rightarrow> buffer \<Rightarrow> hfield_st option" where
  "hpack_indexed_name dht m raw len tmp = do {
     c \<leftarrow> ld m raw;
     let must_index = (c \<ge> 0x41);
     (idx, raw, len) \<leftarrow> get_var_int m raw len (if must_index then 6 else 4);
     let idx = unat idx;
     if len = 4294967295 \<or> len = 0 then Some (FErr (- HPACK_ERR_TRUNCATED), raw, len, tmp)
     else if \<not> hpack_valid_idx dht idx then Some (FErr (- HPACK_ERR_TOO_LARGE), raw, len, tmp)
     else do {
       (r, raw, len, tmp) \<leftarrow> hpack_read_str m raw len tmp;
       case r of Inl e \<Rightarrow> Some (FErr e, raw, len, tmp)
       | Inr value \<Rightarrow> do {
           let name = hs2 PNull (if must_index then 0 else hpack_idx_to_phdr idx);
           if hs_len name \<noteq> 0 then Some (FHdr name value must_index, raw, len, tmp)
           else do {
             n \<leftarrow> hpack_idx_to_name dht idx;
             (name, tmp) \<leftarrow> hpack_alloc_string tmp idx n;
             if hs_ptr name = PNull then Some (FErr (- HPACK_ERR_TOO_LARGE), raw, len, tmp)
             else Some (FHdr name value must_index, raw, len, tmp)
           }
         }
     }
   }"

definition hpack_field :: "hpack_dht \<Rightarrow> bytes \<Rightarrow> nat \<Rightarrow> nat \<Rightarrow> nat \<Rightarrow> buffer \<Rightarrow> hfield_st option" where
  "hpack_field dht m raw len ret tmp = do {
     c \<leftarrow> ld m raw;
     if c \<ge> 0x80 then hpack_indexed dht m raw len tmp
     else if c \<ge> 0x20 \<and> c \<le> 0x3f then hpack_size_update dht m raw len ret tmp
     else if (ucast c :: u32) AND (ucast c - 0x10) = 0 then hpack_literal m raw len tmp
     else hpack_indexed_name dht m raw len tmp
   }"

text \<open>Every function that reads a part of a field moves forwards in the frame.\<close>

lemma bind_case_Some: "Option.bind x f = Some y \<longleftrightarrow> (\<exists>a. x = Some a \<and> f a = Some y)"
  by (cases x) auto

lemma var_int_loop_mono: "var_int_loop m raw len ret shift = Some (raw', r) \<Longrightarrow> raw \<le> raw'"
proof (induction m raw len ret shift arbitrary: raw' r rule: var_int_loop.induct)
  case (1 m raw len ret shift)
  from "1.prems" show ?case
    by (subst (asm) var_int_loop.simps) (force simp: bind_case_Some split: if_splits dest: "1.IH")
qed

lemma get_var_int_mono:
  assumes "get_var_int m raw len b = Some (ret, raw', len')"
  shows "raw < length m" and "raw \<le> raw'" and "len' \<noteq> 4294967295 \<Longrightarrow> raw < raw'"
  using assms var_int_loop_mono
  by (force simp: get_var_int_def Let_def ld_def bind_case_Some split: if_splits)+

lemma hpack_read_str_mono:
  assumes "hpack_read_str m raw len tmp = Some (r, raw', len', tmp')"
  shows "raw < length m" and "raw \<le> raw'"
  using assms get_var_int_mono(2)
  by (force simp: hpack_read_str_def Let_def bind_case_Some ld_def split: if_splits option.splits)+

lemma hpack_field_mono:
  assumes "hpack_field dht m raw len ret tmp = Some (f, raw', len', tmp')" and "\<And>e. f \<noteq> FErr e"
  shows "raw < length m \<and> raw < raw'"
proof -
  have lt: "raw < length m" using assms(1) by (auto simp: hpack_field_def ld_def split: if_splits)
  consider "hpack_indexed dht m raw len tmp = Some (f, raw', len', tmp')"
    | "hpack_size_update dht m raw len ret tmp = Some (f, raw', len', tmp')"
    | "hpack_literal m raw len tmp = Some (f, raw', len', tmp')"
    | "hpack_indexed_name dht m raw len tmp = Some (f, raw', len', tmp')"
    using assms(1) by (auto simp: hpack_field_def bind_case_Some split: if_splits)
  then show ?thesis
  proof cases
    case 1
    then show ?thesis using lt assms(2) get_var_int_mono(3)
      by (force simp: hpack_indexed_def Let_def bind_case_Some split: if_splits)
  next
    case 2
    then show ?thesis using lt assms(2) get_var_int_mono(3)
      by (force simp: hpack_size_update_def Let_def bind_case_Some split: if_splits)
  next
    case 3
    obtain r1 raw1 len1 tmp1 where r: "hpack_read_str m (Suc raw) (len - 1) tmp = Some (r1, raw1, len1, tmp1)"
      using 3 assms(2) by (auto simp: hpack_literal_def Let_def bind_case_Some split: if_splits)
    note le = hpack_read_str_mono(2) [OF r]
    show ?thesis
    proof (cases r1)
      case (Inl e)
      then show ?thesis using 3 r assms(2) by (auto simp: hpack_literal_def Let_def bind_case_Some split: if_splits)
    next
      case (Inr n)
      then obtain r2 raw2 len2 tmp2 where r2: "hpack_read_str m raw1 len1 tmp1 = Some (r2, raw2, len2, tmp2)"
        using 3 r assms(2) by (auto simp: hpack_literal_def Let_def bind_case_Some split: if_splits)
      then have "raw2 = raw'" using 3 r Inr assms(2)
        by (cases r2) (auto simp: hpack_literal_def Let_def bind_case_Some split: if_splits)
      then have "hpack_read_str m raw1 len1 tmp1 = Some (r2, raw', len2, tmp2)" using r2 by simp
      then show ?thesis using lt le hpack_read_str_mono(2) by fastforce
    qed
  next
    case 4
    obtain c idx raw1 len1 where g: "ld m raw = Some c" "get_var_int m raw len (if c \<ge> 0x41 then 6 else 4) = Some (idx, raw1, len1)"
      using 4 by (auto simp: hpack_indexed_name_def Let_def bind_case_Some)
    then have "len1 \<noteq> 4294967295" using 4 assms(2) [of "- HPACK_ERR_TRUNCATED"] by (auto simp: hpack_indexed_name_def Let_def)
    then have lt1: "raw < raw1" using get_var_int_mono(3) [OF g(2)] by simp
    obtain r1 raw2 len2 tmp2 where r1: "hpack_read_str m raw1 len1 tmp = Some (r1, raw2, len2, tmp2)"
      using 4 g assms(2) by (auto simp: hpack_indexed_name_def Let_def bind_case_Some split: if_splits)
    then have "raw2 = raw'" using 4 g assms(2)
      by (cases r1) (auto simp: hpack_indexed_name_def Let_def bind_case_Some split: if_splits)
    then have "hpack_read_str m raw1 len1 tmp = Some (r1, raw', len2, tmp2)" using r1 by simp
    then show ?thesis using lt lt1 hpack_read_str_mono(2) by fastforce
  qed
qed

section \<open>Frames\<close>

text \<open>The loop of \<^verbatim>\<open>hpack_decode_frame\<close>: \<open>Inl\<close> is a return with an error, \<open>Inr\<close> the number of headers.\<close>

type_synonym hdec_res = "(int + nat) \<times> hpack_dht \<times> (hstr \<times> hstr) list \<times> buffer"

function hpack_decode_loop :: "(nat \<Rightarrow> hpack_dht option) \<Rightarrow> bytes \<Rightarrow> nat \<Rightarrow> hpack_dht \<Rightarrow> nat \<Rightarrow> nat \<Rightarrow>
    (hstr \<times> hstr) list \<Rightarrow> nat \<Rightarrow> buffer \<Rightarrow> hdec_res option" where
  "hpack_decode_loop alloc m list_size dht raw len lst ret tmp =
     (if len = 0 then Some (Inr ret, dht, lst, tmp)
      else case hpack_field dht m raw len ret tmp of None \<Rightarrow> None
      | Some (FErr e, raw', len, tmp) \<Rightarrow> Some (Inl e, dht, lst, tmp)
      | Some (FSkip, raw', len, tmp) \<Rightarrow> hpack_decode_loop alloc m list_size dht raw' len lst ret tmp
      | Some (FHdr name value must_index, raw', len, tmp) \<Rightarrow>
          if hs_len name = 0 then Some (Inl (- HPACK_ERR_INVALID_ARGUMENT), dht, lst, tmp)
          else if ret \<ge> list_size then Some (Inl (- HPACK_ERR_TOO_LARGE), dht, lst, tmp)
          else do {
            lst \<leftarrow> st lst ret (name, value);
            (r, dht) \<leftarrow> (if must_index then do {
                n \<leftarrow> hs_str m tmp name;
                v \<leftarrow> hs_str m tmp value;
                hpack_dht_insert (alloc ret) dht n v
              } else Some (0, dht));
            if r < 0 then Some (Inl (- HPACK_ERR_DHT_INSERT_FAIL), dht, lst, tmp)
            else hpack_decode_loop alloc m list_size dht raw' len lst (ret + 1) tmp
          })"
  by pat_completeness auto
termination
  by (relation "measure (\<lambda>(alloc, m, list_size, dht, raw, len, lst, ret, tmp). length m - raw)")
    (auto dest: hpack_field_mono)

declare hpack_decode_loop.simps [simp del]

definition chunk_reset :: "buffer \<Rightarrow> buffer" where
  "chunk_reset chk = chk\<lparr>buf_data := 0\<rparr>"

definition hpack_decode_frame :: "(nat \<Rightarrow> hpack_dht option) \<Rightarrow> hpack_dht \<Rightarrow> bytes \<Rightarrow> nat \<Rightarrow> nat \<Rightarrow>
    (hstr \<times> hstr) list \<Rightarrow> nat \<Rightarrow> buffer \<Rightarrow> (int \<times> hpack_dht \<times> (hstr \<times> hstr) list \<times> buffer) option" where
  "hpack_decode_frame alloc dht m raw len lst list_size tmp = do {
     let tmp = chunk_reset tmp;
     (r, dht, lst, tmp) \<leftarrow> hpack_decode_loop alloc m list_size dht raw len lst 0 tmp;
     case r of Inl e \<Rightarrow> Some (e, dht, lst, tmp)
     | Inr ret \<Rightarrow>
         if ret \<ge> list_size then Some (- HPACK_ERR_TOO_LARGE, dht, lst, tmp)
         else do {
           lst \<leftarrow> st lst ret (hs2 PNull 0, hs2 PNull 0);
           Some (int ret + 1, dht, lst, tmp)
         }
   }"

section \<open>Integers and strings are decoded\<close>

lemma ucast_and_127: "(ucast (c :: byte) :: u32) AND 127 = word_of_nat (unat c mod 128)"
proof -
  have "(127 :: u32) = mask 7" by (simp add: mask_eq_exp_minus_1)
  then have "(ucast c :: u32) AND 127 = take_bit 7 (ucast c)" by (simp only: take_bit_eq_mask)
  then have "unat ((ucast c :: u32) AND 127) = take_bit 7 (unat (ucast c :: u32))" by (simp only: unsigned_take_bit_eq)
  also have "\<dots> = unat c mod 128" using byte_less [of c] by (simp add: unsigned_ucast_eq take_bit_eq_mod)
  finally show ?thesis using byte_less [of c] by (simp add: word_unat_eq_iff unsigned_of_nat take_bit_eq_mod)
qed

lemma push_bit_nat: "push_bit s (word_of_nat x :: u32) = word_of_nat (x * 2 ^ s)"
  by (simp add: push_bit_eq_mult)

lemma varint7_ne [simp]: "varint7 c \<noteq> []"
  by (subst varint7.simps) simp

lemma varint7_last: "unat (last (varint7 c)) < 128"
proof (induction c rule: varint7.induct)
  case (1 c)
  then show ?case by (subst varint7.simps) (simp add: unat_byte_of_nat)
qed

lemma var_int_loop_eq:
  "\<lbrakk> drop raw m = varint7 c @ rest; int (length (varint7 c)) \<le> len; shift + 7 * (length (varint7 c) - 1) < 32 \<rbrakk> \<Longrightarrow>
   \<exists>ret'. var_int_loop m raw len ret shift =
      Some (raw + (length (varint7 c) - 1), len - int (length (varint7 c) - 1), ret', shift + 7 * (length (varint7 c) - 1)) \<and>
    ret' + push_bit (shift + 7 * (length (varint7 c) - 1)) (ucast (last (varint7 c)) AND 127) = ret + word_of_nat (c * 2 ^ shift)"
proof (induction c arbitrary: raw len ret shift rule: varint7.induct)
  case (1 c)
  have at: "ld m (raw + i) = Some (varint7 c ! i)" if "i < length (varint7 c)" for i
    using drop_nthD [OF "1.prems"(1) that] by (simp add: ld_def)
  show ?case
  proof (cases "c < 128")
    case True
    then have v: "varint7 c = [word_of_nat c]" by (simp add: varint7.simps)
    have u: "unat (word_of_nat c :: byte) = c" using True by (simp add: unat_byte_of_nat)
    have "(word_of_nat c :: byte) AND 128 = 0" using True by (simp add: byte_and_128 word_less_nat_alt u)
    then have "var_int_loop m raw len ret shift = Some (raw, len, ret, shift)"
      using at [of 0] v by (subst var_int_loop.simps) simp
    then show ?thesis using v True u by (simp add: ucast_and_127 push_bit_nat)
  next
    case False
    let ?d = "c div 128"
    have v: "varint7 c = word_of_nat (128 + c mod 128) # varint7 ?d" using False by (simp add: varint7.simps)
    have u: "unat (word_of_nat (128 + c mod 128) :: byte) = 128 + c mod 128" unfolding unat_byte_of_nat by simp
    have nz: "(word_of_nat (128 + c mod 128) :: byte) AND 128 \<noteq> 0"
      unfolding byte_and_128 word_less_nat_alt u by simp
    obtain j where j: "length (varint7 ?d) = Suc j" by (cases "varint7 ?d") simp_all
    have l: "0 < len" using "1.prems"(2) v by auto
    have sh: "shift < 32" "(shift + 7) mod 256 = shift + 7" "shift + 7 + 7 * (length (varint7 ?d) - 1) < 32"
      using "1.prems"(3) v by (simp_all add: j)
    have step: "var_int_loop m raw len ret shift =
        var_int_loop m (raw + 1) (len - 1) (ret + word_of_nat ((c mod 128) * 2 ^ shift)) (shift + 7)"
    proof -
      have "push_bit shift (ucast (word_of_nat (128 + c mod 128) :: byte) AND 127) = (word_of_nat ((c mod 128) * 2 ^ shift) :: u32)"
        unfolding ucast_and_127 u push_bit_nat by simp
      then show ?thesis using at [of 0] v nz l sh by (subst var_int_loop.simps) simp
    qed
    have d: "drop (raw + 1) m = varint7 ?d @ rest" using arg_cong [OF "1.prems"(1), of "drop 1"] v by simp
    have "int (length (varint7 ?d)) \<le> len - 1" using "1.prems"(2) v by simp
    from "1.IH" [OF False d this sh(3)] obtain ret' where r:
      "var_int_loop m (raw + 1) (len - 1) (ret + word_of_nat ((c mod 128) * 2 ^ shift)) (shift + 7) =
         Some (raw + 1 + (length (varint7 ?d) - 1), len - 1 - int (length (varint7 ?d) - 1), ret', shift + 7 + 7 * (length (varint7 ?d) - 1))"
      "ret' + push_bit (shift + 7 + 7 * (length (varint7 ?d) - 1)) (ucast (last (varint7 ?d)) AND 127) =
         ret + word_of_nat ((c mod 128) * 2 ^ shift) + word_of_nat (?d * 2 ^ (shift + 7))"
      by blast
    have "(c mod 128) * 2 ^ shift + ?d * 2 ^ (shift + 7) = c * 2 ^ shift"
    proof -
      have "2 ^ (shift + 7) = (128 :: nat) * 2 ^ shift" by (simp add: power_add)
      then have "(c mod 128) * 2 ^ shift + ?d * 2 ^ (shift + 7) = (c mod 128 + ?d * 128) * 2 ^ shift"
        by (simp only: distrib_right mult.assoc)
      then show ?thesis by (simp only: mod_div_mult_eq)
    qed
    then have "(word_of_nat ((c mod 128) * 2 ^ shift) :: u32) + word_of_nat (?d * 2 ^ (shift + 7)) = word_of_nat (c * 2 ^ shift)"
      by (metis of_nat_add)
    moreover have "length (varint7 c) - 1 = Suc (length (varint7 ?d) - 1)" using v j by simp
    ultimately show ?thesis using step r v by (simp add: j add.assoc)
  qed
qed

lemma hpack_len_enc_first: "\<exists>c cs. hpack_len_enc n = c # cs \<and> c AND 128 = 0 \<and> unat c = min n 127"
proof (cases "n < 127")
  case True
  then have u: "unat (word_of_nat n :: byte) = n" by (simp add: unat_byte_of_nat)
  then have "(word_of_nat n :: byte) AND 128 = 0" using True by (simp add: byte_and_128 word_less_nat_alt)
  then show ?thesis using True u by (simp add: hpack_len_enc_def)
qed (simp add: hpack_len_enc_def byte_and_128)

lemma get_var_int_len:
  assumes at: "drop raw m = hpack_len_enc n @ rest" and n: "n < 2097279" and len: "length (hpack_len_enc n) \<le> len" "len < 2147483648"
  shows "get_var_int m raw len 7 = Some (word_of_nat n, raw + length (hpack_len_enc n), len - length (hpack_len_enc n))"
proof -
  obtain c cs where c: "hpack_len_enc n = c # cs" "c AND 128 = 0" "unat c = min n 127" using hpack_len_enc_first by blast
  have ldc: "ld m raw = Some c" using drop_nthD [OF at, of 0] c by (simp add: ld_def)
  have i32: "to_int32 (int len) = int len" using len by (intro to_int32_nat)
  have m7: "push_bit 7 1 - 1 = (127 :: u32)" by simp
  have c7: "(ucast c :: u32) AND 127 = word_of_nat (min n 127)" using c(3) unfolding ucast_and_127 by simp
  have pos: "0 < len" using len c by simp
  show ?thesis
  proof (cases "n < 127")
    case True
    then have "(word_of_nat n :: u32) \<noteq> 127" by (simp add: word_unat_eq_iff unsigned_of_nat take_bit_eq_mod)
    moreover have "nat ((int len - 1) mod 4294967296) = len - 1" using len pos by (simp add: nat_eq_iff of_nat_diff)
    ultimately show ?thesis using True ldc c7 i32 unfolding get_var_int_def Let_def m7 by (simp add: hpack_len_enc_def)
  next
    case False
    let ?c = "n - 127"
    have e: "hpack_len_enc n = 127 # varint7 ?c" using False by (simp add: hpack_len_enc_def)
    have c127: "(ucast c :: u32) AND 127 = 127" using False unfolding c7 by simp
    have d: "drop (raw + 1) m = varint7 ?c @ rest" using arg_cong [OF at, of "drop 1"] e by simp
    have lv: "length (varint7 ?c) \<le> 3" using length_varint7 [of ?c] n by simp
    obtain j where j: "length (varint7 ?c) = Suc j" by (cases "varint7 ?c") simp_all
    have l1: "int (length (varint7 ?c)) \<le> int len - 1" using len e by simp
    have s0: "0 + 7 * (length (varint7 ?c) - 1) < 32" using lv by simp
    obtain ret' where r: "var_int_loop m (raw + 1) (int len - 1) 127 0 =
        Some (raw + 1 + (length (varint7 ?c) - 1), int len - 1 - int (length (varint7 ?c) - 1), ret', 0 + 7 * (length (varint7 ?c) - 1))"
      "ret' + push_bit (0 + 7 * (length (varint7 ?c) - 1)) (ucast (last (varint7 ?c)) AND 127) = 127 + word_of_nat (?c * 2 ^ 0)"
      using var_int_loop_eq [OF d l1 s0, of 127] by blast
    have ret: "127 + word_of_nat (?c * 2 ^ 0) = (word_of_nat n :: u32)"
    proof -
      have "(127 :: u32) + word_of_nat ?c = word_of_nat (127 + ?c)" by simp
      then show ?thesis using False by simp
    qed
    have ldl: "ld m (raw + 1 + (length (varint7 ?c) - 1)) = Some (last (varint7 ?c))"
    proof -
      have "length (varint7 ?c) - 1 < length (varint7 ?c)" by (cases "varint7 ?c") simp_all
      from drop_nthD [OF d this] show ?thesis by (simp only: ld_Some last_conv_nth [OF varint7_ne])
    qed
    have ne: "int len - 1 - int (length (varint7 ?c) - 1) \<noteq> 0" using l1 j by simp
    have fin: "nat ((int len - 1 - int (length (varint7 ?c) - 1) - 1) mod 4294967296) = len - length (hpack_len_enc n)"
      using l1 len(2) e j by (simp add: nat_diff_distrib)
    have "shift < 32" if "shift = 0 + 7 * (length (varint7 ?c) - 1)" for shift using that lv by simp
    then show ?thesis using ldc i32 r ldl ne fin ret e j c127 unfolding get_var_int_def Let_def m7 by simp
  qed
qed

lemma hpack_read_str_eq:
  assumes at: "drop raw m = hpack_str_enc s @ rest" and s: "length s < 2097279"
    and len: "length (hpack_str_enc s) \<le> len" "len < 2147483648"
  shows "hpack_read_str m raw len tmp = Some (Inr (hs2 (PRaw (raw + length (hpack_len_enc (length s)))) (length s)),
      raw + length (hpack_str_enc s), len - length (hpack_str_enc s), tmp)"
    and "rd m (raw + length (hpack_len_enc (length s))) (length s) = Some s"
proof -
  let ?e = "hpack_len_enc (length s)"
  have at': "drop raw m = ?e @ s @ rest" using at by (simp add: hpack_str_enc_def)
  have ls: "length (hpack_str_enc s) = length ?e + length s" by (simp add: hpack_str_enc_def)
  obtain c cs where c: "?e = c # cs" "c AND 128 = 0" using hpack_len_enc_first by blast
  have ldc: "ld m raw = Some c" using drop_nthD [OF at', of 0] c by (simp add: ld_def)
  have g: "get_var_int m raw len 7 = Some (word_of_nat (length s), raw + length ?e, len - length ?e)"
    using get_var_int_len [OF at' s _ len(2)] len(1) ls by simp
  have u: "unat (word_of_nat (length s) :: u32) = length s" using s by (simp add: unsigned_of_nat take_bit_eq_mod)
  show "hpack_read_str m raw len tmp = Some (Inr (hs2 (PRaw (raw + length ?e)) (length s)),
      raw + length (hpack_str_enc s), len - length (hpack_str_enc s), tmp)"
  proof -
    have "len - length ?e \<noteq> 4294967295" "\<not> len - length ?e < length s" using len ls by linarith+
    then show ?thesis using ldc c(2) g u ls by (simp add: hpack_read_str_def Let_def)
  qed
  have "drop (raw + length ?e) m = s @ rest" using arg_cong [OF at', of "drop (length ?e)"] by (simp add: add.commute)
  moreover from this have "raw + length ?e + length s \<le> length m \<or> s = []"
    using drop_bound by blast
  moreover have "raw + length ?e \<le> length m" using drop_bound [OF at'] c by simp
  ultimately show "rd m (raw + length ?e) (length s) = Some s" by (auto simp: rd_def)
qed

section \<open>Representations of header fields\<close>

text \<open>The representations that the encoder uses: an entry of the static table, a value with a name of the
  static table, which is to be indexed, and a new name with its value.\<close>

datatype hrep = Indexed nat | IdxName nat bytes | NewName bytes bytes

fun rep_enc :: "hrep \<Rightarrow> bytes" where
  "rep_enc (Indexed i) = [word_of_nat i OR 0x80]"
| "rep_enc (IdxName i v) = (word_of_nat i OR 0x40) # hpack_str_enc v"
| "rep_enc (NewName n v) = 0 # hpack_str_enc n @ hpack_str_enc v"

fun rep_hdr :: "hrep \<Rightarrow> bytes \<times> bytes" where
  "rep_hdr (Indexed i) = hpack_sht ! i"
| "rep_hdr (IdxName i v) = (fst (hpack_sht ! i), v)"
| "rep_hdr (NewName n v) = (n, v)"

fun rep_ok :: "hrep \<Rightarrow> bool" where
  "rep_ok (Indexed i) = (0 < i \<and> i < 62)"
| "rep_ok (IdxName i v) = (0 < i \<and> i < 62 \<and> length v < 2097279)"
| "rep_ok (NewName n v) = (n \<noteq> [] \<and> length n < 2097279 \<and> length v < 2097279)"

fun rep_indexed :: "hrep \<Rightarrow> bool" where
  "rep_indexed (IdxName i v) = True"
| "rep_indexed _ = False"

text \<open>The header that an entry of the list stands for.\<close>

definition phdr_str :: "nat \<Rightarrow> bytes option" where
  "phdr_str k = ld (map cstr [[], '':authority'', '':method'', '':path'', '':scheme'', '':status'']) k"

definition hdr_str :: "bytes \<Rightarrow> buffer \<Rightarrow> hstr \<times> hstr \<Rightarrow> (bytes \<times> bytes) option" where
  "hdr_str m tmp h = do {
     n \<leftarrow> (if hs_ptr (fst h) = PNull then phdr_str (hs_len (fst h)) else hs_str m tmp (fst h));
     v \<leftarrow> hs_str m tmp (snd h);
     Some (n, v)
   }"

definition rep_check :: "nat \<Rightarrow> bool" where
  "rep_check i \<longleftrightarrow>
     (let c = word_of_nat i OR 0x80 :: byte; d = word_of_nat i OR 0x40 :: byte in
      c \<ge> 0x80 \<and> c \<noteq> 0x80 \<and> uint c = 128 + int i \<and> \<not> d \<ge> 0x80 \<and> \<not> (d \<ge> 0x20 \<and> d \<le> 0x3f) \<and>
      (ucast d :: u32) AND (ucast d - 0x10) \<noteq> 0 \<and> d \<ge> 0x41 \<and> uint d = 64 + int i \<and>
      fst (hpack_sht_str ! i) \<noteq> [] \<and> length (fst (hpack_sht_str ! i)) < 32 \<and>
      (i > 14 \<or> hpack_idx_to_phdr i \<in> {1, 2, 3, 4, 5} \<and>
        fst (hpack_sht_str ! i) = [[], '':authority'', '':method'', '':path'', '':scheme'', '':status''] ! hpack_idx_to_phdr i))"

lemma rep_check_all: "list_all rep_check [1..<62]"
  by code_simp

lemma rep_checkD: "0 < i \<Longrightarrow> i < 62 \<Longrightarrow> rep_check i"
  using rep_check_all by (simp add: list_all_iff)

lemma u32_of_nat: "k < 4294967296 \<Longrightarrow> unat (word_of_nat k :: u32) = k"
  by (simp add: unsigned_of_nat take_bit_eq_mod)

lemma get_var_int_prefix:
  assumes "ld m raw = Some c" and "unat c mod 2 ^ b = i" and "i < 2 ^ b - 1" and "b \<le> 7" and "0 < len" "len < 2147483648"
  shows "get_var_int m raw len b = Some (word_of_nat i, raw + 1, len - 1)"
proof -
  have mk: "push_bit b 1 - 1 = (mask b :: u32)" by (simp add: mask_eq_exp_minus_1 push_bit_eq_mult)
  have m: "(mask b :: u32) = word_of_nat (2 ^ b - 1)" by (simp add: mask_eq_exp_minus_1 of_nat_diff)
  have b: "(2 ^ b :: nat) \<le> 2 ^ 7" using assms(4) by (intro power_increasing) simp_all
  have "unat ((ucast c :: u32) AND mask b) = take_bit b (unat (ucast c :: u32))"
    by (simp only: take_bit_eq_mask [symmetric] unsigned_take_bit_eq)
  also have "\<dots> = i" using assms(2) byte_less [of c] by (simp add: unsigned_ucast_eq take_bit_eq_mod)
  finally have u: "unat ((ucast c :: u32) AND mask b) = i" .
  then have w: "(ucast c :: u32) AND mask b = word_of_nat i" 
    using assms(3) b by (simp add: word_unat_eq_iff unsigned_of_nat take_bit_eq_mod)
  have "unat (mask b :: u32) = 2 ^ b - 1" using b unfolding m by (intro u32_of_nat) simp
  then have ne: "(word_of_nat i :: u32) \<noteq> mask b" using u w assms(3) by (metis less_irrefl)
  have "nat ((int len - 1) mod 4294967296) = len - 1" using assms(5,6) by (simp add: nat_eq_iff of_nat_diff)
  then show ?thesis using assms(1) ne w to_int32_nat [OF assms(6)]
    unfolding get_var_int_def Let_def mk by simp
qed

lemma sht_nth: "i < 62 \<Longrightarrow> hpack_sht ! i = (cstr (fst (hpack_sht_str ! i)), cstr (snd (hpack_sht_str ! i)))"
  using length_hpack_sht by (simp add: hpack_sht_def case_prod_beta)

lemma rep_at:
  assumes "drop raw m = rep_enc r @ rest"
  shows "ld m raw = Some (hd (rep_enc r))"
proof -
  have "0 < length (rep_enc r)" by (cases r) simp_all
  then show ?thesis using drop_nthD [OF assms, of 0] by (simp add: ld_def hd_conv_nth)
qed

lemma hpack_field_rep:
  assumes at: "drop raw m = rep_enc r @ rest" and ok: "rep_ok r" and len: "length (rep_enc r) \<le> len" "len < 2147483648"
  shows "\<exists>hn hv. hpack_field dht m raw len ret tmp =
      Some (FHdr hn hv (rep_indexed r), raw + length (rep_enc r), len - length (rep_enc r), tmp) \<and>
    hs_len hn \<noteq> 0 \<and> hdr_str m tmp (hn, hv) = Some (rep_hdr r) \<and>
    (rep_indexed r \<longrightarrow> hs_str m tmp hn = Some (fst (rep_hdr r)) \<and> hs_str m tmp hv = Some (snd (rep_hdr r)))"
proof (cases r)
  case (Indexed i)
  then have i: "0 < i" "i < 62" using ok by auto
  let ?c = "word_of_nat i OR 0x80 :: byte"
  note ck = rep_checkD [OF i, unfolded rep_check_def Let_def]
  have ldc: "ld m raw = Some ?c" using rep_at [OF at] Indexed by simp
  have u: "unat ?c = 128 + i" using ck by (simp add: unat_eq_nat_uint)
  have g: "get_var_int m raw len 7 = Some (word_of_nat i, raw + 1, len - 1)"
    using len Indexed i by (intro get_var_int_prefix [OF ldc]) (simp_all add: u)
  have ui: "unat (word_of_nat i :: u32) = i" using i by (simp add: unsigned_of_nat take_bit_eq_mod)
  have v: "hpack_valid_idx dht i" using i by (simp add: hpack_valid_idx_def HPACK_SHT_SIZE_def)
  have l1: "len - 1 \<noteq> 4294967295" using len by simp
  note st = hpack_idx_static [OF i(2), of dht]
  have f: "hpack_field dht m raw len ret tmp = hpack_indexed dht m raw len tmp"
    using ldc ck by (simp add: hpack_field_def)
  let ?hv = "hs2 (PSht (snd (hpack_sht ! i))) (length (snd (hpack_sht ! i)))"
  let ?hn = "if hpack_idx_to_phdr i \<noteq> 0 then hs2 PNull (hpack_idx_to_phdr i)
    else hs2 (PSht (fst (hpack_sht ! i))) (length (fst (hpack_sht ! i)))"
  have "hpack_indexed dht m raw len tmp = Some (FHdr ?hn ?hv False, raw + 1, len - 1, tmp)"
    using ldc ck g ui v l1 st i by (simp add: hpack_indexed_def Let_def hpack_alloc_string_def HPACK_SHT_SIZE_def hs2_def)
  moreover have "hs_len ?hn \<noteq> 0" using ck sht_nth [OF i(2)] by (simp add: hs2_def)
  moreover have "hdr_str m tmp (?hn, ?hv) = Some (hpack_sht ! i)"
  proof (cases "hpack_idx_to_phdr i = 0")
    case True
    then show ?thesis by (simp add: hdr_str_def hs_str_def hs2_def rd_def)
  next
    case False
    then have "i \<le> 14" by (simp add: hpack_idx_to_phdr_def split: if_splits)
    then show ?thesis using ck False sht_nth [OF i(2)]
      by (auto simp: hdr_str_def hs_str_def hs2_def rd_def phdr_str_def ld_def nth_Cons')
  qed
  ultimately show ?thesis using f Indexed by auto
next
  case (IdxName i v)
  then have i: "0 < i" "i < 62" and lv: "length v < 2097279" using ok by auto
  let ?c = "word_of_nat i OR 0x40 :: byte"
  note ck = rep_checkD [OF i, unfolded rep_check_def Let_def]
  have ldc: "ld m raw = Some ?c" using rep_at [OF at] IdxName by simp
  have u: "unat ?c = 64 + i" using ck by (simp add: unat_eq_nat_uint)
  have g: "get_var_int m raw len 6 = Some (word_of_nat i, raw + 1, len - 1)"
    using len IdxName i by (intro get_var_int_prefix [OF ldc]) (simp_all add: u)
  have ui: "unat (word_of_nat i :: u32) = i" using i by (simp add: unsigned_of_nat take_bit_eq_mod)
  have va: "hpack_valid_idx dht i" using i by (simp add: hpack_valid_idx_def HPACK_SHT_SIZE_def)
  have le: "length (hpack_str_enc v) \<le> len - 1" "len - 1 < 2147483648" using len IdxName by auto
  have ne: "hpack_str_enc v \<noteq> []" using hpack_len_enc_first [of "length v"] by (auto simp: hpack_str_enc_def)
  then have l1: "len - 1 \<noteq> 4294967295" "len - 1 \<noteq> 0" using le len by (cases "hpack_str_enc v"; simp)+
  have d: "drop (raw + 1) m = hpack_str_enc v @ rest" using arg_cong [OF at, of "drop 1"] IdxName by simp
  note rs = hpack_read_str_eq [OF d lv le]
  note st = hpack_idx_static [OF i(2), of dht]
  have f: "hpack_field dht m raw len ret tmp = hpack_indexed_name dht m raw len tmp"
    using ldc ck by (auto simp: hpack_field_def)
  let ?hv = "hs2 (PRaw (raw + 1 + length (hpack_len_enc (length v)))) (length v)"
  let ?hn = "hs2 (PSht (fst (hpack_sht ! i))) (length (fst (hpack_sht ! i)))"
  have "hpack_indexed_name dht m raw len tmp =
      Some (FHdr ?hn ?hv True, raw + 1 + length (hpack_str_enc v), len - 1 - length (hpack_str_enc v), tmp)"
    using ldc ck g ui va l1 st i rs(1) by (simp add: hpack_indexed_name_def Let_def hpack_alloc_string_def HPACK_SHT_SIZE_def hs2_def)
  moreover have "hs_len ?hn \<noteq> 0" using ck sht_nth [OF i(2)] by (simp add: hs2_def)
  moreover have "hs_str m tmp ?hn = Some (fst (hpack_sht ! i))" "hs_str m tmp ?hv = Some v"
    using rs(2) by (simp_all add: hs_str_def hs2_def rd_def)
  moreover from this have "hdr_str m tmp (?hn, ?hv) = Some (fst (hpack_sht ! i), v)" by (simp add: hdr_str_def hs2_def)
  ultimately show ?thesis using f IdxName by auto
next
  case (NewName n v)
  then have n: "n \<noteq> []" "length n < 2097279" and lv: "length v < 2097279" using ok by auto
  have ldc: "ld m raw = Some 0" using rep_at [OF at] NewName by simp
  have d1: "drop (raw + 1) m = hpack_str_enc n @ (hpack_str_enc v @ rest)" using arg_cong [OF at, of "drop 1"] NewName by simp
  have le: "length (hpack_str_enc n) \<le> len - 1" "len - 1 < 2147483648" using len NewName by auto
  note rn = hpack_read_str_eq [OF d1 n(2) le]
  let ?p = "raw + 1 + length (hpack_str_enc n)" and ?l = "len - 1 - length (hpack_str_enc n)"
  have d2: "drop ?p m = hpack_str_enc v @ rest"
    using arg_cong [OF d1, of "drop (length (hpack_str_enc n))"] by (simp add: add.commute)
  have le2: "length (hpack_str_enc v) \<le> ?l" "?l < 2147483648" using len NewName by auto
  note rv = hpack_read_str_eq [OF d2 lv le2]
  have ne: "hpack_str_enc s \<noteq> []" for s using hpack_len_enc_first [of "length s"] by (auto simp: hpack_str_enc_def)
  have l0: "len - 1 \<noteq> 0" using le(1) ne [of n] by (cases "hpack_str_enc n") auto
  have l1: "?l \<noteq> 0" using le2(1) ne [of v] by (cases "hpack_str_enc v") auto
  have f: "hpack_field dht m raw len ret tmp = hpack_literal m raw len tmp"
    using ldc by (simp add: hpack_field_def)
  let ?hn = "hs2 (PRaw (raw + 1 + length (hpack_len_enc (length n)))) (length n)"
  let ?hv = "hs2 (PRaw (?p + length (hpack_len_enc (length v)))) (length v)"
  have "hpack_literal m raw len tmp =
      Some (FHdr ?hn ?hv False, ?p + length (hpack_str_enc v), ?l - length (hpack_str_enc v), tmp)"
    using ldc rn(1) rv(1) l0 l1 by (simp add: hpack_literal_def Let_def)
  moreover have "hs_str m tmp ?hn = Some n" "hs_str m tmp ?hv = Some v"
    using rn(2) rv(2) by (simp_all add: hs_str_def hs2_def)
  moreover from this have "hdr_str m tmp (?hn, ?hv) = Some (n, v)" by (simp add: hdr_str_def hs2_def)
  moreover have "hs_len ?hn \<noteq> 0" using n by (simp add: hs2_def)
  ultimately show ?thesis using f NewName by (auto simp: add.assoc)
qed

section \<open>Frames of representations\<close>

definition tbl_fold :: "nat \<Rightarrow> (bytes \<times> bytes) list \<Rightarrow> (bytes \<times> bytes) list \<Rightarrow> (bytes \<times> bytes) list" where
  "tbl_fold sz t hs = foldl (tbl_add sz) t hs"

lemma rep_hdr_small: "rep_ok r \<Longrightarrow> rep_indexed r \<Longrightarrow> length (fst (rep_hdr r)) + length (snd (rep_hdr r)) < 1073741824"
proof (cases r)
  case (IdxName i v)
  assume "rep_ok r"
  then show ?thesis using IdxName rep_checkD [of i] by (simp add: sht_nth rep_check_def Let_def)
qed simp_all

lemma hpack_decode_loop_reps:
  "\<lbrakk> drop raw m = concat (map rep_enc rs) @ rest; \<forall>r \<in> set rs. rep_ok r; length (concat (map rep_enc rs)) < 2147483648;
     dht_wf dht; \<forall>i. \<exists>b. alloc i = Some b \<and> blk_ok dht b; ret + length rs \<le> list_size; list_size \<le> length lst \<rbrakk> \<Longrightarrow>
   \<exists>dht' lst'. hpack_decode_loop alloc m list_size dht raw (length (concat (map rep_enc rs))) lst ret tmp =
       Some (Inr (ret + length rs), dht', lst', tmp) \<and>
     dht_wf dht' \<and> dht_size dht' = dht_size dht \<and>
     dht_list dht' = tbl_fold (dht_size dht) (dht_list dht) (map rep_hdr (filter rep_indexed rs)) \<and>
     length lst' = length lst \<and> take ret lst' = take ret lst \<and>
     map (hdr_str m tmp) (take (length rs) (drop ret lst')) = map (\<lambda>r. Some (rep_hdr r)) rs"
proof (induction rs arbitrary: raw dht lst ret)
  case Nil
  then show ?case by (simp add: hpack_decode_loop.simps tbl_fold_def)
next
  case (Cons r rs)
  let ?L = "length (concat (map rep_enc (r # rs)))" and ?l = "length (concat (map rep_enc rs))"
  have at: "drop raw m = rep_enc r @ (concat (map rep_enc rs) @ rest)" using Cons.prems(1) by simp
  have ok: "rep_ok r" "\<forall>r \<in> set rs. rep_ok r" using Cons.prems(2) by auto
  have L: "length (rep_enc r) \<le> ?L" "?L < 2147483648" "?L - length (rep_enc r) = ?l" "?L \<noteq> 0"
    using Cons.prems(3) by (auto, cases r, auto)
  obtain hn hv where f: "hpack_field dht m raw ?L ret tmp = Some (FHdr hn hv (rep_indexed r), raw + length (rep_enc r), ?l, tmp)"
    "hs_len hn \<noteq> 0" "hdr_str m tmp (hn, hv) = Some (rep_hdr r)"
    "rep_indexed r \<longrightarrow> hs_str m tmp hn = Some (fst (rep_hdr r)) \<and> hs_str m tmp hv = Some (snd (rep_hdr r))"
    using hpack_field_rep [OF at ok(1) L(1,2), of dht ret tmp] unfolding L(3) by blast
  let ?lst = "lst[ret := (hn, hv)]"
  have st: "st lst ret (hn, hv) = Some ?lst" "\<not> list_size \<le> ret" using Cons.prems(6,7) by (auto simp: st_def)
  obtain dht1 where ins: "(if rep_indexed r then do {
                n \<leftarrow> hs_str m tmp hn;
                v \<leftarrow> hs_str m tmp hv;
                hpack_dht_insert (alloc ret) dht n v
              } else Some (0, dht)) = Some (0, dht1)"
    and d1: "dht_wf dht1" "dht_size dht1 = dht_size dht"
      "dht_list dht1 = (if rep_indexed r then tbl_add (dht_size dht) (dht_list dht) (rep_hdr r) else dht_list dht)"
  proof (cases "rep_indexed r")
    case True
    obtain b where b: "alloc ret = Some b" "blk_ok dht b" using Cons.prems(5) by blast
    show ?thesis using that True f(4) b(1) hpack_dht_insert_eq [OF Cons.prems(4) b(2) rep_hdr_small [OF ok(1) True]] by auto
  qed (use that Cons.prems(4) in auto)
  have "hpack_decode_loop alloc m list_size dht raw N lst ret tmp =
      hpack_decode_loop alloc m list_size dht1 (raw + length (rep_enc r)) ?l ?lst (ret + 1) tmp" if "N = ?L" for N
    using L(4) f(1,2) st ins unfolding that [symmetric] by (subst hpack_decode_loop.simps) simp
  from this [OF refl] have step: "hpack_decode_loop alloc m list_size dht raw ?L lst ret tmp =
      hpack_decode_loop alloc m list_size dht1 (raw + length (rep_enc r)) ?l ?lst (ret + 1) tmp" .
  have d: "drop (raw + length (rep_enc r)) m = concat (map rep_enc rs) @ rest"
    using arg_cong [OF at, of "drop (length (rep_enc r))"] by (simp add: add.commute)
  have "?l < 2147483648" using Cons.prems(3) by simp
  moreover have "\<forall>i. \<exists>b. alloc i = Some b \<and> blk_ok dht1 b" using Cons.prems(5) blk_ok_cong [OF d1(2)] by blast
  ultimately obtain dht' lst' where r: "hpack_decode_loop alloc m list_size dht1 (raw + length (rep_enc r)) ?l ?lst (ret + 1) tmp =
       Some (Inr (ret + 1 + length rs), dht', lst', tmp)" "dht_wf dht'" "dht_size dht' = dht_size dht1"
     "dht_list dht' = tbl_fold (dht_size dht1) (dht_list dht1) (map rep_hdr (filter rep_indexed rs))"
     "length lst' = length ?lst" "take (ret + 1) lst' = take (ret + 1) ?lst"
     "map (hdr_str m tmp) (take (length rs) (drop (ret + 1) lst')) = map (\<lambda>r. Some (rep_hdr r)) rs"
    using Cons.IH [OF d ok(2) _ d1(1), of "ret + 1" ?lst] Cons.prems(6,7) by auto
  have rl: "ret < length lst" using Cons.prems(6,7) by simp
  have "take ret lst' = take ret lst" using arg_cong [OF r(6), of "take ret"] by (simp add: min_absorb1)
  moreover have "lst' ! ret = (hn, hv)" using arg_cong [OF r(6), of "\<lambda>xs. xs ! ret"] rl r(5) by simp
  then have "drop ret lst' = (hn, hv) # drop (ret + 1) lst'" using rl r(5) by (simp flip: Cons_nth_drop_Suc)
  ultimately show ?case using step r f(3) d1 by (simp add: tbl_fold_def)
qed

lemma hpack_decode_frame_reps:
  assumes at: "drop raw m = concat (map rep_enc rs) @ rest" and ok: "\<forall>r \<in> set rs. rep_ok r"
    and len: "length (concat (map rep_enc rs)) < 2147483648" and wf: "dht_wf dht"
    and al: "\<forall>i. \<exists>b. alloc i = Some b \<and> blk_ok dht b" and sz: "length rs < list_size" "list_size \<le> length lst"
  shows "\<exists>dht' lst'. hpack_decode_frame alloc dht m raw (length (concat (map rep_enc rs))) lst list_size tmp =
       Some (int (length rs) + 1, dht', lst', chunk_reset tmp) \<and>
     dht_wf dht' \<and> dht_size dht' = dht_size dht \<and>
     dht_list dht' = tbl_fold (dht_size dht) (dht_list dht) (map rep_hdr (filter rep_indexed rs)) \<and>
     map (hdr_str m (chunk_reset tmp)) (take (length rs) lst') = map (\<lambda>r. Some (rep_hdr r)) rs \<and>
     lst' ! length rs = (hs2 PNull 0, hs2 PNull 0)"
proof -
  obtain dht' lst' where r: "hpack_decode_loop alloc m list_size dht raw (length (concat (map rep_enc rs))) lst 0 (chunk_reset tmp) =
       Some (Inr (length rs), dht', lst', chunk_reset tmp)" "dht_wf dht'" "dht_size dht' = dht_size dht"
     "dht_list dht' = tbl_fold (dht_size dht) (dht_list dht) (map rep_hdr (filter rep_indexed rs))"
     "length lst' = length lst" "map (hdr_str m (chunk_reset tmp)) (take (length rs) lst') = map (\<lambda>r. Some (rep_hdr r)) rs"
    using hpack_decode_loop_reps [OF at ok len wf al, where ret = 0 and list_size = list_size and lst = lst and tmp = "chunk_reset tmp"] sz by auto
  have "st lst' (length rs) (hs2 PNull 0, hs2 PNull 0) = Some (lst'[length rs := (hs2 PNull 0, hs2 PNull 0)])"
    using sz r(5) by (simp add: st_def)
  then show ?thesis using r sz by (simp add: hpack_decode_frame_def Let_def)
qed

lemma takeWhile_less: "\<exists>x \<in> set xs. \<not> P x \<Longrightarrow> length (takeWhile P xs) < length xs"
  by (induction xs) auto

text \<open>The representation that the encoder chooses for a header.\<close>

definition enc_rep :: "bytes \<times> bytes \<Rightarrow> hrep" where
  "enc_rep h = (if fst h \<noteq> [] \<and> (\<exists>x \<in> set hpack_sht. fst x = fst h)
     then IdxName (length (takeWhile (\<lambda>x. fst x \<noteq> fst h) hpack_sht)) (snd h)
     else NewName (fst h) (snd h))"

lemma enc_rep_enc: "rep_enc (enc_rep (n, v)) = hpack_field_enc n v"
proof (cases "n \<noteq> [] \<and> (\<exists>x \<in> set hpack_sht. fst x = n)")
  case True
  then have "sht_find n = Some (word_of_nat (length (takeWhile (\<lambda>x. fst x \<noteq> n) hpack_sht)))"
    by (auto simp: sht_find_def find_idx_def)
  then show ?thesis using True by (auto simp: enc_rep_def hpack_field_enc_def hpack_name_enc_def)
next
  case False
  then have "sht_find n = None" by (auto simp: sht_find_def find_idx_def)
  then show ?thesis using False by (auto simp: enc_rep_def hpack_field_enc_def hpack_name_enc_def)
qed

lemma enc_rep_hdr: "rep_hdr (enc_rep (n, v)) = (n, v)"
proof (cases "n \<noteq> [] \<and> (\<exists>x \<in> set hpack_sht. fst x = n)")
  case True
  let ?k = "length (takeWhile (\<lambda>x. fst x \<noteq> n) hpack_sht)"
  have "?k < length hpack_sht" using True by (intro takeWhile_less) auto
  then have "fst (hpack_sht ! ?k) = n" using nth_length_takeWhile [of "\<lambda>x. fst x \<noteq> n" hpack_sht] by simp
  then show ?thesis using True by (simp add: enc_rep_def)
qed (auto simp: enc_rep_def)

lemma enc_rep_ok:
  assumes "n \<noteq> []" and "length n < 2097279" and "length v < 2097279"
  shows "rep_ok (enc_rep (n, v))"
proof (cases "\<exists>x \<in> set hpack_sht. fst x = n")
  case True
  let ?k = "length (takeWhile (\<lambda>x. fst x \<noteq> n) hpack_sht)"
  have k: "?k < 62" using True takeWhile_less [of hpack_sht "\<lambda>x. fst x \<noteq> n"] length_hpack_sht by auto
  have "fst (hpack_sht ! ?k) = n" using nth_length_takeWhile [of "\<lambda>x. fst x \<noteq> n" hpack_sht] k length_hpack_sht by simp
  moreover have "fst (hpack_sht ! 0) = []" by (simp add: sht_nth) (simp add: hpack_sht_str_def cstr_def)
  ultimately have "?k \<noteq> 0" using assms(1) by metis
  then show ?thesis using True assms k by (simp add: enc_rep_def)
qed (use assms in \<open>auto simp: enc_rep_def\<close>)

text \<open>The encoding of a list of headers, each a name and a value in a memory object of their own.\<close>

fun encode_headers :: "buffer \<Rightarrow> (bytes \<times> bytes) list \<Rightarrow> (int \<times> buffer) option" where
  "encode_headers out [] = Some (1, out)"
| "encode_headers out ((n, v) # hs) = do {
     (r, out) \<leftarrow> hpack_encode_header n v out (ist2 (Some 0) (length n)) (ist2 (Some 0) (length v));
     if r = 0 then Some (0, out) else encode_headers out hs
   }"

lemma encode_headers_eq:
  "\<lbrakk> b_wf out; buf_head out = 0; buf_size out < 2147483648; \<forall>(n, v) \<in> set hs. length n < 2097279 \<and> length v < 2097279;
     buf_data out + length (concat (map (\<lambda>(n, v). hpack_field_enc n v) hs)) \<le> buf_size out \<rbrakk> \<Longrightarrow>
   \<exists>out'. encode_headers out hs = Some (1, out') \<and> b_wf out' \<and> buf_head out' = 0 \<and> buf_size out' = buf_size out \<and>
     b_list out' = b_list out @ concat (map (\<lambda>(n, v). hpack_field_enc n v) hs)"
proof (induction hs arbitrary: out)
  case (Cons h hs)
  obtain n v where h: "h = (n, v)" by (cases h)
  let ?N = "ist2 (Some 0) (length n)" and ?V = "ist2 (Some 0) (length v)"
  obtain out1 where o1: "hpack_encode_header n v out ?N ?V = Some (1, out1)" "b_wf out1" "buf_head out1 = 0"
    "buf_size out1 = buf_size out" "b_list out1 = b_list out @ hpack_field_enc n v"
    using hpack_encode_header_eq [OF Cons.prems(1-3), of n ?N v ?V] Cons.prems(4,5) h by auto
  have "buf_data out1 = buf_data out + length (hpack_field_enc n v)"
    using arg_cong [OF o1(5), of length] by simp
  then show ?case using Cons.IH [OF o1(2,3)] Cons.prems(3-5) o1 h by auto
qed simp

section \<open>Pseudo-headers\<close>

definition status_str :: "nat \<Rightarrow> bytes" where
  "status_str s = [word_of_nat (48 + s div 100), word_of_nat (48 + s div 10 mod 10), word_of_nat (48 + s mod 10)]"

definition status_idx :: "nat \<Rightarrow> nat" where
  "status_idx s = (if s = 200 then 8 else if s = 204 then 9 else if s = 206 then 10 else
      if s = 304 then 11 else if s = 400 then 12 else if s = 404 then 13 else 14)"

lemma status_enc_rep: "\<exists>r. rep_ok r \<and> status_enc s = rep_enc r \<and> rep_hdr r = (cstr '':status'', status_str s)"
proof (cases "status_code s = 0")
  case True
  have "hpack_str_enc (status_str s) = 3 # status_str s" by (simp add: hpack_str_enc_def hpack_len_enc_def status_str_def)
  then have "status_enc s = rep_enc (IdxName 8 (status_str s))" using True by (simp add: status_enc_def status_str_def)
  moreover have "fst (hpack_sht ! 8) = cstr '':status''" by (simp add: sht_nth) (simp add: hpack_sht_str_def)
  ultimately show ?thesis by (intro exI [of _ "IdxName 8 (status_str s)"]) (simp add: status_str_def)
next
  case False
  then have "s \<in> {200, 204, 206, 304, 400, 404, 500}" by (auto simp: status_code_def split: if_splits)
  then have "status_enc s = rep_enc (Indexed (status_idx s)) \<and> hpack_sht ! status_idx s = (cstr '':status'', status_str s) \<and>
      rep_ok (Indexed (status_idx s))"
    by (elim insertE emptyE) (simp_all add: status_enc_def status_code_def status_idx_def sht_nth,
        simp_all add: hpack_sht_str_def status_str_def cstr_def)
  then show ?thesis by (intro exI [of _ "Indexed (status_idx s)"]) simp
qed

text \<open>An encoder appends a representation of a header, which the decoder reads back.\<close>

definition appends_hdr :: "buffer \<Rightarrow> bytes \<Rightarrow> bytes \<Rightarrow> (int \<times> buffer) option \<Rightarrow> bool" where
  "appends_hdr out n v res \<longleftrightarrow> (\<exists>r. rep_ok r \<and> rep_hdr r = (n, v) \<and> appends out (rep_enc r) res)"

lemma sht_examples:
  "hpack_sht ! 2 = (cstr '':method'', cstr ''GET'')" "hpack_sht ! 3 = (cstr '':method'', cstr ''POST'')"
  "hpack_sht ! 4 = (cstr '':path'', cstr ''/'')" "hpack_sht ! 5 = (cstr '':path'', cstr ''/index.html'')"
  "hpack_sht ! 6 = (cstr '':scheme'', cstr ''http'')" "hpack_sht ! 7 = (cstr '':scheme'', cstr ''https'')"
  "hpack_sht ! 8 = (cstr '':status'', cstr ''200'')" "hpack_sht ! 11 = (cstr '':status'', cstr ''304'')"
  by (simp_all add: sht_nth) (simp_all add: hpack_sht_str_def)

lemma appends_hdr_idx:
  "appends out [word_of_nat i OR 0x80] res \<Longrightarrow> 0 < i \<Longrightarrow> i < 62 \<Longrightarrow> hpack_sht ! i = (n, v) \<Longrightarrow> appends_hdr out n v res"
  unfolding appends_hdr_def by (intro exI [of _ "Indexed i"]) simp

lemma appends_hdr_name:
  "appends out ((word_of_nat i OR 0x40) # hpack_str_enc v) res \<Longrightarrow> 0 < i \<Longrightarrow> i < 62 \<Longrightarrow> fst (hpack_sht ! i) = n \<Longrightarrow>
   length v < 2097279 \<Longrightarrow> appends_hdr out n v res"
  unfolding appends_hdr_def by (intro exI [of _ "IdxName i v"]) simp

lemma pseudo_status:
  assumes wf: "b_wf out" "buf_head out = 0" "buf_size out < 2147483648" and v: "ist_wf vm v" "ist_len v < 127"
  shows "appends_hdr out (cstr '':status'') (status_str s) (hpack_encode_int_status out s)"
    and "ist_str vm v = status_str s \<Longrightarrow> appends_hdr out (cstr '':status'') (status_str s) (hpack_encode_str_status vm out s v)"
proof -
  obtain r where "rep_ok r" "status_enc s = rep_enc r" "rep_hdr r = (cstr '':status'', status_str s)"
    using status_enc_rep by blast
  then show "appends_hdr out (cstr '':status'') (status_str s) (hpack_encode_int_status out s)"
    using hpack_encode_int_status_appends [OF wf, of s] unfolding appends_hdr_def by auto
  assume e: "ist_str vm v = status_str s"
  have n: "fst (hpack_sht ! 8) = cstr '':status''" by (simp add: sht_examples)
  have s: "status_str 200 = cstr ''200''" "status_str 304 = cstr ''304''" by (simp_all add: status_str_def cstr_def)
  show "appends_hdr out (cstr '':status'') (status_str s) (hpack_encode_str_status vm out s v)"
    using hpack_encode_str_status_appends [OF wf(1,2) v, of s] unfolding e
    using appends_hdr_idx [of out 8 "hpack_encode_str_status vm out s v"] appends_hdr_idx [of out 11 "hpack_encode_str_status vm out s v"]
      appends_hdr_name [of out 8 "status_str s" "hpack_encode_str_status vm out s v"] n s
    by (auto simp: sht_examples status_str_def split: if_splits)
qed

lemma pseudo_request:
  assumes wf: "b_wf out" "buf_head out = 0" "buf_size out < 2147483648" and v: "ist_wf vm v"
  shows "ist_len v < 127 \<Longrightarrow> (meth = HTTP_METH_GET \<Longrightarrow> ist_str vm v = cstr ''GET'') \<Longrightarrow>
      (meth = HTTP_METH_POST \<Longrightarrow> ist_str vm v = cstr ''POST'') \<Longrightarrow>
      appends_hdr out (cstr '':method'') (ist_str vm v) (hpack_encode_method vm out meth v)"
    and "ist_len v < 127 \<Longrightarrow> appends_hdr out (cstr '':scheme'') (ist_str vm v) (hpack_encode_scheme vm out v)"
    and "ist_len v < 2097279 \<Longrightarrow> appends_hdr out (cstr '':path'') (ist_str vm v) (hpack_encode_path vm out v)"
proof -
  let ?V = "ist_str vm v"
  have l: "length ?V = ist_len v" using v by simp
  show "appends_hdr out (cstr '':method'') ?V (hpack_encode_method vm out meth v)"
    if "ist_len v < 127" "meth = HTTP_METH_GET \<Longrightarrow> ?V = cstr ''GET''" "meth = HTTP_METH_POST \<Longrightarrow> ?V = cstr ''POST''"
    using hpack_encode_method_appends [OF wf(1,2) v that(1), of meth] that l
      appends_hdr_idx [of out 2 "hpack_encode_method vm out meth v"] appends_hdr_idx [of out 3 "hpack_encode_method vm out meth v"]
      appends_hdr_name [of out 2 ?V "hpack_encode_method vm out meth v"]
    by (auto simp: sht_examples split: if_splits)
  show "appends_hdr out (cstr '':scheme'') ?V (hpack_encode_scheme vm out v)" if "ist_len v < 127"
    using hpack_encode_scheme_appends [OF wf(1,2) v that] that l
      appends_hdr_idx [of out 7 "hpack_encode_scheme vm out v"] appends_hdr_idx [of out 6 "hpack_encode_scheme vm out v"]
      appends_hdr_name [of out 6 ?V "hpack_encode_scheme vm out v"]
    by (auto simp: sht_examples split: if_splits)
  show "appends_hdr out (cstr '':path'') ?V (hpack_encode_path vm out v)" if "ist_len v < 2097279"
    using hpack_encode_path_appends [OF wf v that] that l
      appends_hdr_idx [of out 4 "hpack_encode_path vm out v"] appends_hdr_idx [of out 5 "hpack_encode_path vm out v"]
      appends_hdr_name [of out 4 ?V "hpack_encode_path vm out v"]
    by (auto simp: sht_examples split: if_splits)
qed

section \<open>Properties\<close>

text \<open>C1. The HPACK decoder inverts the encoder: the headers that \<^verbatim>\<open>hpack_encode_header\<close> writes one after
  the other into a chunk are returned by \<^verbatim>\<open>hpack_decode_frame\<close> in the same order, followed by the end
  marker, whatever the dynamic table contains; on the way the table follows the protocol: it receives
  exactly the headers whose name is in the static table. Names are not empty, strings are shorter than
  2097279 bytes and the chunk has room for the encoded headers.\<close>

theorem hpack_roundtrip:
  assumes out: "b_wf out" "buf_head out = 0" "buf_data out = 0" "buf_size out < 2147483648"
    and hs: "\<forall>(n, v) \<in> set hs. n \<noteq> [] \<and> length n < 2097279 \<and> length v < 2097279"
    and room: "length (concat (map (\<lambda>(n, v). hpack_field_enc n v) hs)) \<le> buf_size out"
    and dht: "dht_wf dht" "\<forall>i. \<exists>b. alloc i = Some b \<and> blk_ok dht b"
    and lst: "length hs < list_size" "list_size \<le> length lst"
  shows "\<exists>out' dht' lst'. encode_headers out hs = Some (1, out') \<and>
    hpack_decode_frame alloc dht (buf_area out') 0 (buf_data out') lst list_size tmp =
      Some (int (length hs) + 1, dht', lst', chunk_reset tmp) \<and>
    map (hdr_str (buf_area out') (chunk_reset tmp)) (take (length hs) lst') = map Some hs \<and>
    lst' ! length hs = (hs2 PNull 0, hs2 PNull 0) \<and> dht_wf dht' \<and>
    dht_list dht' = tbl_fold (dht_size dht) (dht_list dht) (filter (\<lambda>h. \<exists>x \<in> set hpack_sht. fst x = fst h) hs)"
proof -
  let ?E = "concat (map (\<lambda>(n, v). hpack_field_enc n v) hs)" and ?rs = "map enc_rep hs"
  have "\<forall>(n, v) \<in> set hs. length n < 2097279 \<and> length v < 2097279" using hs by auto
  then obtain out' where o: "encode_headers out hs = Some (1, out')" "b_wf out'" "buf_head out' = 0"
    "buf_size out' = buf_size out" "b_list out' = b_list out @ ?E"
    using encode_headers_eq [OF out(1,2,4)] room out(3) by auto
  have "b_list out = []" using chunk_list [OF out(2,1)] out(3) by simp
  then have l: "b_list out' = ?E" using o(5) by simp
  then have d: "buf_data out' = length ?E" by (metis length_b_list)
  have E: "?E = concat (map rep_enc ?rs)" by (induction hs) (auto simp: enc_rep_enc)
  have "take (buf_data out') (buf_area out') = ?E" using chunk_list [OF o(3,2)] l by simp
  then have at: "drop 0 (buf_area out') = concat (map rep_enc ?rs) @ drop (buf_data out') (buf_area out')"
    using append_take_drop_id [of "buf_data out'" "buf_area out'"] E by simp
  have ok: "\<forall>r \<in> set ?rs. rep_ok r" using hs enc_rep_ok by auto
  have "length (concat (map rep_enc ?rs)) < 2147483648" using room out(4) E by simp
  from hpack_decode_frame_reps [OF at ok this dht(1,2), of list_size lst tmp] lst
  obtain dht' lst' where r: "hpack_decode_frame alloc dht (buf_area out') 0 (length ?E) lst list_size tmp =
       Some (int (length hs) + 1, dht', lst', chunk_reset tmp)" "dht_wf dht'"
     "dht_list dht' = tbl_fold (dht_size dht) (dht_list dht) (map rep_hdr (filter rep_indexed ?rs))"
     "map (hdr_str (buf_area out') (chunk_reset tmp)) (take (length hs) lst') = map (\<lambda>r. Some (rep_hdr r)) ?rs"
     "lst' ! length hs = (hs2 PNull 0, hs2 PNull 0)"
    by (auto simp: E)
  have h: "map (\<lambda>r. Some (rep_hdr r)) ?rs = map Some hs" by (simp add: comp_def) (metis enc_rep_hdr surj_pair)
  have f: "map rep_hdr (filter rep_indexed ?rs) = filter (\<lambda>h. \<exists>x \<in> set hpack_sht. fst x = fst h) hs"
    using hs
  proof (induction hs)
    case (Cons h hs)
    obtain n v where nv: "h = (n, v)" by (cases h)
    have "rep_indexed (enc_rep (n, v)) \<longleftrightarrow> (\<exists>x \<in> set hpack_sht. fst x = n)"
      using Cons.prems nv by (auto simp: enc_rep_def)
    then show ?case using Cons nv enc_rep_hdr by auto
  qed simp
  show ?thesis using o(1) r d h f by auto
qed

theorem hpack_roundtrip_witness:
  "\<exists>out' dht' lst'. encode_headers \<lparr>buf_size = 8, buf_area = replicate 8 0, buf_data = 0, buf_head = 0\<rparr> [(cstr ''via'', [97])] = Some (1, out') \<and>
    hpack_decode_frame (\<lambda>i. Some ex_blk) ex_blk (buf_area out') 0 (buf_data out') (replicate 2 (hs2 PNull 0, hs2 PNull 0)) 2 BUF_NULL =
      Some (2, dht', lst', chunk_reset BUF_NULL) \<and>
    hdr_str (buf_area out') (chunk_reset BUF_NULL) (lst' ! 0) = Some (cstr ''via'', [97]) \<and> dht_list dht' = [(cstr ''via'', [97])]"
proof -
  let ?out = "\<lparr>buf_size = 8, buf_area = replicate 8 0, buf_data = 0, buf_head = 0\<rparr> :: buffer"
  have wf: "b_wf ?out" by (simp add: b_wf_def)
  have "find_idx (\<lambda>h. fst h = cstr ''via'') hpack_sht = Some 60" by code_simp
  then have e: "hpack_field_enc (cstr ''via'') [97] = [0x7c, 1, 97]" and x: "\<exists>x \<in> set hpack_sht. fst x = cstr ''via''"
    by (simp_all add: hpack_field_enc_def hpack_name_enc_def sht_find_def hpack_str_enc_def hpack_len_enc_def cstr_def find_idx_def split: if_splits)
  have b: "\<forall>i::nat. \<exists>b. Some ex_blk = Some b \<and> blk_ok ex_blk b" using ex_blk_wf(3) by simp
  have t: "tbl_fold 64 [] [(cstr ''via'', [97])] = [(cstr ''via'', [97])]"
    by (simp add: tbl_fold_def tbl_add_def evict.simps)
  define hs where "hs = [(cstr ''via'', [97 :: byte])]"
  define lst where "lst = replicate 2 (hs2 PNull 0, hs2 PNull 0)"
  have ok: "\<forall>(n, v) \<in> set hs. n \<noteq> [] \<and> length n < 2097279 \<and> length v < 2097279" by (simp add: hs_def cstr_def)
  have room: "length (concat (map (\<lambda>(n, v). hpack_field_enc n v) hs)) \<le> buf_size ?out" using e by (simp add: hs_def)
  have l: "length hs < 2" "2 \<le> length lst" by (simp_all add: hs_def lst_def)
  have f: "tbl_fold (dht_size ex_blk) (dht_list ex_blk) (filter (\<lambda>h. \<exists>x \<in> set hpack_sht. fst x = fst h) hs) = hs"
    using x t by (simp add: hs_def ex_blk_wf)
  obtain out' dht' lst' where r: "encode_headers ?out hs = Some (1, out')"
    "hpack_decode_frame (\<lambda>i. Some ex_blk) ex_blk (buf_area out') 0 (buf_data out') lst 2 BUF_NULL =
      Some (int (length hs) + 1, dht', lst', chunk_reset BUF_NULL)"
    "map (hdr_str (buf_area out') (chunk_reset BUF_NULL)) (take (length hs) lst') = map Some hs"
    "dht_list dht' = hs"
    using hpack_roundtrip [OF wf _ _ _ ok room ex_blk_wf(1) b l, of BUF_NULL] unfolding f by auto
  note r = r [unfolded hs_def lst_def, simplified]
  then have "hdr_str (buf_area out') (chunk_reset BUF_NULL) (lst' ! 0) = Some (cstr ''via'', [97])" by (cases lst') auto
  then show ?thesis using r by (intro exI [of _ out'] exI [of _ dht'] exI [of _ lst']) simp
qed

text \<open>C38. \<^verbatim>\<open>hpack_encode_header\<close> appends the representation of the header when both strings are short enough
  and it fits in the chunk; otherwise it returns 0 and the contents of the chunk are unchanged. It writes
  nothing outside of the chunk in any case.\<close>

theorem hpack_encode_header_appends:
  assumes "b_wf out" and "buf_head out = 0" and "buf_size out < 2147483648"
    and "ist_wf nm n" and "ist_len n < 4611686018427387904" and "ist_wf vm v" and "ist_len v < 4611686018427387904"
  shows "\<exists>r out'. hpack_encode_header nm vm out n v = Some (r, out') \<and> b_wf out' \<and> buf_head out' = 0 \<and>
      buf_size out' = buf_size out \<and>
      (if ist_len n < 2097279 \<and> ist_len v < 2097279 \<and>
          buf_data out + length (hpack_field_enc (ist_str nm n) (ist_str vm v)) \<le> buf_size out
       then r = 1 \<and> b_list out' = b_list out @ hpack_field_enc (ist_str nm n) (ist_str vm v)
       else r = 0 \<and> b_list out' = b_list out)"
  by (rule hpack_encode_header_eq [OF assms])

theorem hpack_encode_header_appends_witness:
  "\<exists>out'. hpack_encode_header (cstr ''via'') [97] \<lparr>buf_size = 8, buf_area = replicate 8 0, buf_data = 0, buf_head = 0\<rparr>
       (ist2 (Some 0) 3) (ist2 (Some 0) 1) = Some (1, out') \<and> b_list out' = [0x7c, 1, 97]"
proof -
  let ?out = "\<lparr>buf_size = 8, buf_area = replicate 8 0, buf_data = 0, buf_head = 0\<rparr> :: buffer"
  have wf: "b_wf ?out" by (simp add: b_wf_def)
  have "find_idx (\<lambda>h. fst h = cstr ''via'') hpack_sht = Some 60" by code_simp
  then have e: "hpack_field_enc (cstr ''via'') [97] = [0x7c, 1, 97]"
    by (simp add: hpack_field_enc_def hpack_name_enc_def sht_find_def hpack_str_enc_def hpack_len_enc_def cstr_def)
  have "b_list ?out = []" using chunk_list [OF _ wf] by simp
  then show ?thesis
    using hpack_encode_header_appends [OF wf, of "cstr ''via''" "ist2 (Some 0) 3" "[97]" "ist2 (Some 0) 1"] e by auto
qed

text \<open>C39. The search for a name in the compressed table, which starts from the first row of the same length
  and goes over the rows of that length, finds the first index of the name in the static table, and
  nothing when it is not there; it stays inside the tables for every name.\<close>

theorem hpack_name_search:
  assumes "ist_wf nm n"
  shows "enc_find nm n = Some (if ist_len n = 0 then None
    else map_option word_of_nat (find_idx (\<lambda>h. fst h = ist_str nm n) hpack_sht))"
proof -
  have "ist_str nm n = [] \<longleftrightarrow> ist_len n = 0" using length_ist_at [OF assms] by (metis length_0_conv)
  then show ?thesis using enc_find_eq [OF assms] by (simp add: sht_find_def)
qed

theorem hpack_name_search_witness:
  "enc_find (cstr ''date'') (ist2 (Some 0) 4) = Some (Some 33)"
proof -
  have "find_idx (\<lambda>h. fst h = cstr ''date'') hpack_sht = Some 33" by code_simp
  then show ?thesis using hpack_name_search [of "cstr ''date''" "ist2 (Some 0) 4"] by (simp add: cstr_def)
qed

text \<open>The encoders of the pseudo-headers of requests and responses append a representation that the
  decoder reads as the pseudo-header with the given value, or return 0 and leave the contents unchanged.\<close>

theorem hpack_pseudo_headers:
  assumes "b_wf out" and "buf_head out = 0" and "buf_size out < 2147483648" and "ist_wf vm v" and "ist_len v < 127"
    and "meth = HTTP_METH_GET \<longrightarrow> ist_str vm v = cstr ''GET''" and "meth = HTTP_METH_POST \<longrightarrow> ist_str vm v = cstr ''POST''"
  shows "appends_hdr out (cstr '':method'') (ist_str vm v) (hpack_encode_method vm out meth v) \<and>
    appends_hdr out (cstr '':scheme'') (ist_str vm v) (hpack_encode_scheme vm out v) \<and>
    appends_hdr out (cstr '':path'') (ist_str vm v) (hpack_encode_path vm out v) \<and>
    appends_hdr out (cstr '':status'') (status_str s) (hpack_encode_int_status out s) \<and>
    (ist_str vm v = status_str s \<longrightarrow> appends_hdr out (cstr '':status'') (status_str s) (hpack_encode_str_status vm out s v))"
proof -
  have "ist_len v < 2097279" using assms(5) by simp
  then show ?thesis
    using pseudo_request [OF assms(1-4)] pseudo_status [OF assms(1-5)] assms(5-7) by blast
qed

theorem hpack_pseudo_headers_witness:
  "appends_hdr \<lparr>buf_size = 8, buf_area = replicate 8 0, buf_data = 0, buf_head = 0\<rparr> (cstr '':status'') (status_str 418)
     (hpack_encode_int_status \<lparr>buf_size = 8, buf_area = replicate 8 0, buf_data = 0, buf_head = 0\<rparr> 418)"
proof -
  have "b_wf \<lparr>buf_size = 8, buf_area = replicate 8 0, buf_data = 0, buf_head = 0\<rparr>" by (simp add: b_wf_def)
  then show ?thesis using hpack_pseudo_headers [of _ "[]" "ist2 None 0" HTTP_METH_OTHER 418] by simp
qed

text \<open>C40. The loop of \<^verbatim>\<open>hpack_decode_frame\<close> ends: every header field that is not refused, whatever the
  bytes, lets it continue further in the frame than it was, and it never goes past the end of the
  memory that holds the frame.\<close>

theorem hpack_field_progress:
  assumes "hpack_field dht m raw len ret tmp = Some (f, raw', len', tmp')" and "\<forall>e. f \<noteq> FErr e"
  shows "raw < raw' \<and> raw < length m"
  using hpack_field_mono [OF assms(1)] assms(2) by blast

theorem hpack_field_progress_witness:
  "\<exists>hn hv. hpack_field ex_blk [0x82] 0 1 0 BUF_NULL = Some (FHdr hn hv False, 1, 0, BUF_NULL) \<and>
     (0 :: nat) < 1 \<and> 0 < length [0x82 :: byte]"
proof -
  obtain hn hv where e: "hpack_field ex_blk [0x82] 0 1 0 BUF_NULL = Some (FHdr hn hv False, 1, 0, BUF_NULL)"
    using hpack_field_rep [of 0 "[0x82]" "Indexed 2" "[]" 1 ex_blk 0 BUF_NULL] by auto
  then show ?thesis using hpack_field_progress [OF e] by blast
qed

text \<open>\<^verbatim>\<open>get_var_int\<close> does not bound the number of continuation bytes: with five of them the last shift is
  by 35 bits, which C leaves undefined for a 32-bit value, although the frame is long enough; four are
  harmless.\<close>

theorem get_var_int_shift_undefined:
  "get_var_int [0x7f, 0x80, 0x80, 0x80, 0x80, 0x80, 0] 0 7 7 = None \<and>
   get_var_int [0x7f, 0x80, 0x80, 0x80, 0x80, 0] 0 6 7 = Some (127, 6, 0)"
  by code_simp

end
