(* ===== verification/Uri.thy ===== *)
theory Uri
  imports Ist Ring "HOL-Library.List_Lexorder"
begin

text \<open>
  Normalisation of request URIs: \<^verbatim>\<open>src/uri_normalizer.c\<close>. Every normaliser reads a string in the
  memory object \<open>m\<close> and builds its result in a destination string, in another object \<open>dm\<close>. The
  destination comes in with its capacity as length; \<^verbatim>\<open>istclear\<close> returns that capacity. The
  functions return the error code with the destination string and its memory.

  The loops that cut their input with \<^verbatim>\<open>istsplit\<close> are \<open>partial_function\<close>s: that they return is
  part of what is proved.
\<close>

section \<open>Types and characters\<close>

datatype uri_normalizer_err =
    URI_NORMALIZER_ERR_NONE
  | URI_NORMALIZER_ERR_ALLOC
  | URI_NORMALIZER_ERR_INVALID_INPUT
  | URI_NORMALIZER_ERR_INTERNAL_ERROR

type_synonym uri_res = "(uri_normalizer_err \<times> ist \<times> bytes) option"

text \<open>\<^verbatim>\<open>ishex\<close> works on a byte that it shifts three times; \<^verbatim>\<open>hex2i\<close> on an \<^verbatim>\<open>int\<close>, compared after a
  truncation to \<^verbatim>\<open>unsigned char\<close>.\<close>

definition ishex :: "byte \<Rightarrow> bool" where
  "ishex s = (
     let s = s - 48 in
     if s \<le> 9 then True
     else let s = s - (65 - 48) in
       if s \<le> 5 then True
       else let s = s - (97 - 65) in s \<le> 5)"

definition hex2i :: "int \<Rightarrow> int" where
  "hex2i c = (
     let c = c - 48 in
     if c mod 256 > 9 then
       let c = c - (65 - 48) in
       if c mod 256 > 5 then
         let c = c - (97 - 65) in
         if c mod 256 > 5 then -11 + 10 else c + 10
       else c + 10
     else c)"

definition is_unreserved_character :: "byte \<Rightarrow> bool" where
  "is_unreserved_character c =
     (65 \<le> c \<and> c \<le> 90 \<or> 97 \<le> c \<and> c \<le> 122 \<or> 48 \<le> c \<and> c \<le> 57 \<or>
      c = 45 \<or> c = 46 \<or> c = 95 \<or> c = 126)"

section \<open>Fragments\<close>

partial_function (option) uri_fragment_loop :: "bytes \<Rightarrow> nat \<Rightarrow> ist \<Rightarrow> bytes \<Rightarrow> ist \<Rightarrow> uri_res" where
  "uri_fragment_loop m sz output dm scanner =
     (if istlen scanner = 0 then Some (URI_NORMALIZER_ERR_NONE, output, dm)
      else do {
        (before_hash, scanner) \<leftarrow> istsplit m scanner 35;
        (r, output, dm) \<leftarrow> istcat m dm output before_hash sz;
        if r < 0 then Some (URI_NORMALIZER_ERR_ALLOC, output, dm)
        else if istend before_hash \<noteq> istend scanner then do {
          (r, output, dm) \<leftarrow> istcat (cstr ''%23'') dm output (ist2 (Some 0) 3) sz;
          if r < 0 then Some (URI_NORMALIZER_ERR_ALLOC, output, dm)
          else uri_fragment_loop m sz output dm scanner
        } else uri_fragment_loop m sz output dm scanner
      })"

text \<open>The end of every normaliser: the destination is assigned when there was no error.\<close>

definition uri_finish :: "ist \<Rightarrow> uri_normalizer_err \<times> ist \<times> bytes \<Rightarrow> uri_normalizer_err \<times> ist \<times> bytes" where
  "uri_finish dst r = (case r of (err, output, dm) \<Rightarrow>
     if err = URI_NORMALIZER_ERR_NONE then (err, output, dm) else (err, dst, dm))"

definition uri_normalizer_fragment_encode :: "bytes \<Rightarrow> ist \<Rightarrow> ist \<Rightarrow> bytes \<Rightarrow> uri_res" where
  "uri_normalizer_fragment_encode m input dst dm = do {
     let (sz, dst) = istclear dst;
     r \<leftarrow> uri_fragment_loop m sz dst dm input;
     Some (uri_finish dst r)
   }"

section \<open>Percent encoding\<close>

text \<open>The loop that \<^verbatim>\<open>percent_decode_unreserved\<close> and \<^verbatim>\<open>percent_upper\<close> share: \<open>emit\<close> appends what
  replaces a percent sign followed by two hexadecimal digits.\<close>

definition uri_two_hex :: "bytes \<Rightarrow> ist \<Rightarrow> bool option" where
  "uri_two_hex m scanner =
     (if istlen scanner \<ge> 2 then do {
        h1 \<leftarrow> ldp m (istptr scanner);
        if ishex h1 then do {
          h2 \<leftarrow> ldp m (padd (istptr scanner) 1);
          Some (ishex h2)
        } else Some False
      } else Some False)"

partial_function (option) uri_percent_loop ::
  "(bytes \<Rightarrow> ist \<Rightarrow> byte \<Rightarrow> byte \<Rightarrow> byte \<Rightarrow> (ist \<times> bytes) option) \<Rightarrow>
   bytes \<Rightarrow> bool \<Rightarrow> ist \<Rightarrow> bytes \<Rightarrow> ist \<Rightarrow> uri_res" where
  "uri_percent_loop emit m strict output dm scanner =
     (if istlen scanner = 0 then Some (URI_NORMALIZER_ERR_NONE, output, dm)
      else do {
        (c, scanner) \<leftarrow> istshift m scanner;
        if c = 37 then do {
          hex \<leftarrow> uri_two_hex m scanner;
          if hex then do {
            (hex1, scanner) \<leftarrow> istshift m scanner;
            (hex2, scanner) \<leftarrow> istshift m scanner;
            (output, dm) \<leftarrow> emit dm output c hex1 hex2;
            uri_percent_loop emit m strict output dm scanner
          }
          else if strict then Some (URI_NORMALIZER_ERR_INVALID_INPUT, output, dm)
          else do {
            (output, dm) \<leftarrow> raw_istappend dm output c;
            uri_percent_loop emit m strict output dm scanner
          }
        } else do {
          (output, dm) \<leftarrow> raw_istappend dm output c;
          uri_percent_loop emit m strict output dm scanner
        }
      })"

definition uri_percent_run ::
  "(bytes \<Rightarrow> ist \<Rightarrow> byte \<Rightarrow> byte \<Rightarrow> byte \<Rightarrow> (ist \<times> bytes) option) \<Rightarrow>
   bytes \<Rightarrow> ist \<Rightarrow> bool \<Rightarrow> ist \<Rightarrow> bytes \<Rightarrow> uri_res" where
  "uri_percent_run emit m input strict dst dm = do {
     let (sz, dst) = istclear dst;
     if sz < istlen input then Some (URI_NORMALIZER_ERR_ALLOC, dst, dm)
     else do {
       r \<leftarrow> uri_percent_loop emit m strict dst dm input;
       Some (uri_finish dst r)
     }
   }"

definition append3 :: "bytes \<Rightarrow> ist \<Rightarrow> byte \<Rightarrow> byte \<Rightarrow> byte \<Rightarrow> (ist \<times> bytes) option" where
  "append3 dm output a b c = do {
     (output, dm) \<leftarrow> raw_istappend dm output a;
     (output, dm) \<leftarrow> raw_istappend dm output b;
     raw_istappend dm output c
   }"

definition emit_decoded :: "bytes \<Rightarrow> ist \<Rightarrow> byte \<Rightarrow> byte \<Rightarrow> byte \<Rightarrow> (ist \<times> bytes) option" where
  "emit_decoded dm output cur hex1 hex2 =
     (let c = word_of_int (push_bit 4 (hex2i (sint hex1)) + hex2i (sint hex2)) in
      if is_unreserved_character c then raw_istappend dm output c
      else append3 dm output cur hex1 hex2)"

definition emit_upper :: "bytes \<Rightarrow> ist \<Rightarrow> byte \<Rightarrow> byte \<Rightarrow> byte \<Rightarrow> (ist \<times> bytes) option" where
  "emit_upper dm output cur hex1 hex2 = append3 dm output cur (ascii_uc hex1) (ascii_uc hex2)"

definition uri_normalizer_percent_decode_unreserved ::
  "bytes \<Rightarrow> ist \<Rightarrow> bool \<Rightarrow> ist \<Rightarrow> bytes \<Rightarrow> uri_res" where
  "uri_normalizer_percent_decode_unreserved = uri_percent_run emit_decoded"

definition uri_normalizer_percent_upper :: "bytes \<Rightarrow> ist \<Rightarrow> bool \<Rightarrow> ist \<Rightarrow> bytes \<Rightarrow> uri_res" where
  "uri_normalizer_percent_upper = uri_percent_run emit_upper"

section \<open>Paths\<close>

partial_function (option) uri_dot_loop :: "bytes \<Rightarrow> nat \<Rightarrow> ist \<Rightarrow> bytes \<Rightarrow> ist \<Rightarrow> uri_res" where
  "uri_dot_loop m sz newpath dm scanner =
     (if istlen scanner > 0 then do {
        (segment, scanner) \<leftarrow> istsplit m scanner 47;
        dot \<leftarrow> isteq m (cstr ''.'') segment (ist2 (Some 0) 1);
        if \<not> dot then do {
          (r, newpath, dm) \<leftarrow> istcat m dm newpath segment sz;
          if r < 0 then None
          else do {
            (newpath, dm) \<leftarrow> (if istend segment \<noteq> istend scanner then raw_istappend dm newpath 47
                              else Some (newpath, dm));
            uri_dot_loop m sz newpath dm scanner
          }
        } else uri_dot_loop m sz newpath dm scanner
      } else Some (URI_NORMALIZER_ERR_NONE, newpath, dm))"

definition uri_normalizer_path_dot :: "bytes \<Rightarrow> ist \<Rightarrow> ist \<Rightarrow> bytes \<Rightarrow> uri_res" where
  "uri_normalizer_path_dot m path dst dm = do {
     let (sz, dst) = istclear dst;
     if sz < istlen path then Some (URI_NORMALIZER_ERR_ALLOC, dst, dm)
     else do {
       r \<leftarrow> uri_dot_loop m sz dst dm path;
       Some (uri_finish dst r)
     }
   }"

text \<open>\<^verbatim>\<open>path_dotdot\<close> writes its result backwards from the end of the destination: \<open>push_head\<close> is
  \<^verbatim>\<open>*(--head) = c\<close>. \<open>path_at\<close> is \<^verbatim>\<open>istptr(path)[offset]\<close>, and \<open>up_incr\<close> is \<^verbatim>\<open>up++\<close> on an \<^verbatim>\<open>int\<close>.\<close>

definition push_head :: "nat \<Rightarrow> bytes \<Rightarrow> byte \<Rightarrow> (nat \<times> bytes) option" where
  "push_head head dm c =
     (if head = 0 then None else do { dm \<leftarrow> st dm (head - 1) c; Some (head - 1, dm) })"

definition path_at :: "bytes \<Rightarrow> ist \<Rightarrow> int \<Rightarrow> byte option" where
  "path_at m path offset = ldp m (padd (istptr path) (nat offset))"

definition up_incr :: "int \<Rightarrow> int option" where
  "up_incr up = (if up = 2147483647 then None else Some (up + 1))"

text \<open>The two inner loops, up to the previous slash.\<close>

function skip_segment :: "bytes \<Rightarrow> ist \<Rightarrow> int \<Rightarrow> int option" where
  "skip_segment m path offset =
     (if offset \<ge> 0 then do {
        c \<leftarrow> path_at m path offset;
        if c \<noteq> 47 then skip_segment m path (offset - 1) else Some offset
      } else Some offset)"
  by pat_completeness auto
termination by (relation "measure (\<lambda>(m, path, offset). nat (offset + 1))") auto

function copy_segment :: "bytes \<Rightarrow> ist \<Rightarrow> int \<Rightarrow> nat \<Rightarrow> bytes \<Rightarrow> (int \<times> nat \<times> bytes) option" where
  "copy_segment m path offset head dm =
     (if offset \<ge> 0 then do {
        c \<leftarrow> path_at m path offset;
        if c \<noteq> 47 then do {
          (head, dm) \<leftarrow> push_head head dm c;
          copy_segment m path (offset - 1) head dm
        } else Some (offset, head, dm)
      } else Some (offset, head, dm))"
  by pat_completeness auto
termination by (relation "measure (\<lambda>(m, path, offset, head, dm). nat (offset + 1))") auto

declare skip_segment.simps [simp del] copy_segment.simps [simp del]

definition path_matches :: "bytes \<Rightarrow> ist \<Rightarrow> int \<Rightarrow> string \<Rightarrow> bool option" where
  "path_matches m path offset lit =
     istmatch m (cstr lit) (istadv path (usz offset)) (ist2 (Some 0) (length lit))"

partial_function (option) dotdot_loop ::
  "bytes \<Rightarrow> ist \<Rightarrow> int \<Rightarrow> int \<Rightarrow> nat \<Rightarrow> bytes \<Rightarrow> (int \<times> nat \<times> bytes) option" where
  "dotdot_loop m path offset up head dm =
     (if offset \<ge> 0 then do {
        hit \<leftarrow> (if offset \<ge> 3 then path_matches m path (offset - 3) ''/../'' else Some False);
        if hit then do {
          up \<leftarrow> up_incr up;
          dotdot_loop m path (offset - 3) up head dm
        }
        else if up > 0 then do {
          let offset = offset - 1;
          if offset \<ge> 0 then do {
            let up = up - 1;
            offset \<leftarrow> skip_segment m path offset;
            dotdot_loop m path offset up head dm
          } else dotdot_loop m path offset up head dm
        }
        else do {
          c \<leftarrow> path_at m path offset;
          (head, dm) \<leftarrow> push_head head dm c;
          (offset, head, dm) \<leftarrow> copy_segment m path (offset - 1) head dm;
          dotdot_loop m path offset up head dm
        }
      } else Some (up, head, dm))"

text \<open>The \<^verbatim>\<open>do ... while (up > 0)\<close> that prepends the dots that are left.\<close>

function prepend_dots :: "int \<Rightarrow> nat \<Rightarrow> bytes \<Rightarrow> (nat \<times> bytes) option" where
  "prepend_dots up head dm = do {
     (head, dm) \<leftarrow> push_head head dm 46;
     (head, dm) \<leftarrow> push_head head dm 46;
     (head, dm) \<leftarrow> push_head head dm 47;
     if up - 1 > 0 then prepend_dots (up - 1) head dm else Some (head, dm)
   }"
  by pat_completeness auto
termination by (relation "measure (\<lambda>(up, head, dm). nat up)") auto

declare prepend_dots.simps [simp del]

definition uri_normalizer_path_dotdot :: "bytes \<Rightarrow> ist \<Rightarrow> bool \<Rightarrow> ist \<Rightarrow> bytes \<Rightarrow> uri_res" where
  "uri_normalizer_path_dotdot m path full dst dm = do {
     let (sz, dst) = istclear dst;
     tail \<leftarrow> padd (istptr dst) sz;
     let offset = ssz (sz_sub (istlen path) 1);
     if sz < istlen path then Some (URI_NORMALIZER_ERR_ALLOC, dst, dm)
     else do {
       dots \<leftarrow> (if offset \<ge> 2 then path_matches m path (offset - 2) ''/..'' else Some False);
       (up, offset) \<leftarrow> (if dots then do { up \<leftarrow> up_incr 0; Some (up, offset - 2) } else Some (0, offset));
       (up, head, dm) \<leftarrow> dotdot_loop m path offset up tail dm;
       (head, dm) \<leftarrow> (if up > 0 then do {
           (head, dm) \<leftarrow> push_head head dm 47;
           if \<not> full then prepend_dots up head dm else Some (head, dm)
         } else Some (head, dm));
       Some (URI_NORMALIZER_ERR_NONE, ist2 (Some head) (tail - head), dm)
     }
   }"

function skip_slashes :: "bytes \<Rightarrow> ist \<Rightarrow> ist option" where
  "skip_slashes m scanner =
     (if istlen scanner > 0 then do {
        c \<leftarrow> ldp m (istptr scanner);
        if c = 47 then skip_slashes m (istnext scanner) else Some scanner
      } else Some scanner)"
  by pat_completeness auto
termination
  by (relation "measure (\<lambda>(m, scanner). istlen scanner)") (auto simp: istlen_def istnext_def)

declare skip_slashes.simps [simp del]

partial_function (option) uri_merge_loop :: "bytes \<Rightarrow> ist \<Rightarrow> bytes \<Rightarrow> ist \<Rightarrow> uri_res" where
  "uri_merge_loop m newpath dm scanner =
     (if istlen scanner > 0 then do {
        (c, scanner) \<leftarrow> istshift m scanner;
        scanner \<leftarrow> (if c = 47 then skip_slashes m scanner else Some scanner);
        (newpath, dm) \<leftarrow> raw_istappend dm newpath c;
        uri_merge_loop m newpath dm scanner
      } else Some (URI_NORMALIZER_ERR_NONE, newpath, dm))"

definition uri_normalizer_path_merge_slashes :: "bytes \<Rightarrow> ist \<Rightarrow> ist \<Rightarrow> bytes \<Rightarrow> uri_res" where
  "uri_normalizer_path_merge_slashes m path dst dm = do {
     let (sz, dst) = istclear dst;
     if sz < istlen path then Some (URI_NORMALIZER_ERR_ALLOC, dst, dm)
     else do {
       r \<leftarrow> uri_merge_loop m dst dm path;
       Some (uri_finish dst r)
     }
   }"

section \<open>Queries\<close>

text \<open>Pointers into one object, compared by their offsets; NULL is below all of them.\<close>

fun ptr_less :: "ptr \<Rightarrow> ptr \<Rightarrow> bool" where
  "ptr_less p None = False"
| "ptr_less None (Some q) = True"
| "ptr_less (Some p) (Some q) = (p < q)"

definition query_param_cmp :: "bytes \<Rightarrow> ist \<Rightarrow> ist \<Rightarrow> int option" where
  "query_param_cmp m a b = do {
     a_name \<leftarrow> iststop m a 61;
     b_name \<leftarrow> iststop m b 61;
     cmp \<leftarrow> istdiff m m a_name b_name;
     Some (if cmp \<noteq> 0 then cmp
           else if ptr_less (istptr a) (istptr b) then -1
           else if ptr_less (istptr b) (istptr a) then 1
           else 0)
   }"

text \<open>\<^verbatim>\<open>qsort\<close> of the standard library, as a sort by insertion: its result is determined by the
  comparison, which is a total order on parameters that start at different addresses.\<close>

fun qsort_insert :: "('a \<Rightarrow> 'a \<Rightarrow> int option) \<Rightarrow> 'a \<Rightarrow> 'a list \<Rightarrow> 'a list option" where
  "qsort_insert cmp x [] = Some [x]"
| "qsort_insert cmp x (y # ys) = do {
     r \<leftarrow> cmp x y;
     if r \<le> 0 then Some (x # y # ys)
     else do { zs \<leftarrow> qsort_insert cmp x ys; Some (y # zs) }
   }"

fun qsort :: "('a \<Rightarrow> 'a \<Rightarrow> int option) \<Rightarrow> 'a list \<Rightarrow> 'a list option" where
  "qsort cmp [] = Some []"
| "qsort cmp (x # xs) = do { ys \<leftarrow> qsort cmp xs; qsort_insert cmp x ys }"

text \<open>The parameters, in the trash chunk, which has room for \<open>max_param\<close> of them; \<open>None\<close> inside
  the result is the failure.\<close>

partial_function (option) query_params :: "bytes \<Rightarrow> byte \<Rightarrow> nat \<Rightarrow> ist list \<Rightarrow> ist \<Rightarrow> ist list option option" where
  "query_params m delim max_param params scanner =
     (if istlen scanner > 0 then do {
        (param, scanner) \<leftarrow> istsplit m scanner delim;
        if length params + 1 > max_param then Some None
        else query_params m delim max_param (params @ [param]) scanner
      } else Some (Some params))"

fun query_join :: "bytes \<Rightarrow> byte \<Rightarrow> nat \<Rightarrow> nat \<Rightarrow> ist \<Rightarrow> bytes \<Rightarrow> ist list \<Rightarrow> uri_res" where
  "query_join m delim sz i newquery dm [] = Some (URI_NORMALIZER_ERR_NONE, newquery, dm)"
| "query_join m delim sz i newquery dm (param # params) = do {
     (newquery, dm) \<leftarrow> (if i > 0 then raw_istappend dm newquery delim else Some (newquery, dm));
     (r, newquery, dm) \<leftarrow> istcat m dm newquery param sz;
     if r < 0 then None
     else query_join m delim sz (i + 1) newquery dm params
   }"

definition SIZEOF_IST :: nat where
  "SIZEOF_IST = 16"

definition uri_normalizer_query_sort :: "nat \<Rightarrow> bytes \<Rightarrow> ist \<Rightarrow> byte \<Rightarrow> ist \<Rightarrow> bytes \<Rightarrow> uri_res" where
  "uri_normalizer_query_sort trash_size m query delim dst dm = do {
     let (sz, dst) = istclear dst;
     let max_param = trash_size div SIZEOF_IST;
     if sz < istlen query then Some (URI_NORMALIZER_ERR_ALLOC, dst, dm)
     else do {
       (c, scanner) \<leftarrow> istshift m query;
       (newquery, dm) \<leftarrow> raw_istappend dm dst c;
       ps \<leftarrow> query_params m delim max_param [] scanner;
       case ps of
         None \<Rightarrow> Some (URI_NORMALIZER_ERR_ALLOC, dst, dm)
       | Some params \<Rightarrow> do {
           params \<leftarrow> qsort (query_param_cmp m) params;
           r \<leftarrow> query_join m delim sz 0 newquery dm params;
           Some (uri_finish dst r)
         }
     }
   }"

text \<open>The equations of the partial functions evaluate.\<close>

declare uri_fragment_loop.simps [code] uri_percent_loop.simps [code] uri_dot_loop.simps [code]
  dotdot_loop.simps [code] uri_merge_loop.simps [code] query_params.simps [code]

section \<open>Building a string in the destination\<close>

lemma ist2_upd [simp]: "(ist2 p n)\<lparr>ist_len := k\<rparr> = ist2 p k"
  by (simp add: ist2_def)

lemma append_built:
  assumes "q + length out < length dm" and "length out < 18446744073709551615"
  shows "raw_istappend (blit dm q out) (ist2 (Some q) (length out)) c =
    Some (ist2 (Some q) (length (out @ [c])), blit dm q (out @ [c]))"
  using assms st_blit [of q out dm c] by (simp add: raw_istappend_def sz_add_small)

lemma istcat_built:
  assumes "ist_wf sm s" and "length out \<le> sz" and "q + sz \<le> length dm"
    and "length out + ist_len s < 9223372036854775808"
  shows "istcat sm (blit dm q out) (ist2 (Some q) (length out)) s sz =
    Some (if length out + ist_len s \<le> sz then int (length out + ist_len s) else -1,
      ist2 (Some q) (length (take sz (out @ ist_str sm s))), blit dm q (take sz (out @ ist_str sm s)))"
proof -
  have len: "length (ist_str sm s) = ist_len s" using assms(1) by simp
  have "q + length out \<le> length dm" using assms(2,3) by linarith
  then have "istcat sm (blit dm q out) (ist2 (Some q) (length out)) s sz =
    Some (if ist_len s \<le> sz - length out then int (length out + ist_len s) else -1,
      ist2 (Some q) (length out + min (sz - length out) (ist_len s)),
      blit (blit dm q out) (q + length out) (take (sz - length out) (ist_str sm s)))"
    using istcat_eq [of sm s "ist2 (Some q) (length out)" q sz "blit dm q out"] assms by simp
  moreover have "blit (blit dm q out) (q + length out) (take (sz - length out) (ist_str sm s))
      = blit dm q (out @ take (sz - length out) (ist_str sm s))"
    using assms(2,3) len by (intro blit_adjacent) simp
  moreover have "out @ take (sz - length out) (ist_str sm s) = take sz (out @ ist_str sm s)"
    using assms(2) by simp
  moreover have "length out + min (sz - length out) (ist_len s) = length (take sz (out @ ist_str sm s))"
    using assms(2) by (simp only: length_take length_append len min_def) presburger
  moreover have "ist_len s \<le> sz - length out \<longleftrightarrow> length out + ist_len s \<le> sz"
    using assms(2) by (simp add: le_diff_conv2 add.commute)
  ultimately show ?thesis by (simp only:)
qed

section \<open>Cutting the input\<close>

lemma istsplit_cut:
  assumes "ist_wf m s" and "ist_len s < 18446744073709551615" and "0 < ist_len s"
  obtains a r where "istsplit m s d = Some (a, r)" and "ist_wf m a" and "ist_wf m r"
    and "ist_str m a = takeWhile (\<lambda>c. c \<noteq> d) (ist_str m s)"
    and "ist_str m r = drop 1 (dropWhile (\<lambda>c. c \<noteq> d) (ist_str m s))"
    and "istend a \<noteq> istend r \<longleftrightarrow> d \<in> set (ist_str m s)"
    and "ist_ptr a = ist_ptr s" and "ist_len r < ist_len s" and "ptr_less (ist_ptr s) (ist_ptr r)"
proof -
  obtain a r where ar: "istsplit m s d = Some (a, r)" "ist_wf m a" "ist_wf m r"
    "ist_str m a = takeWhile (\<lambda>c. c \<noteq> d) (ist_str m s)"
    "ist_str m r = drop 1 (dropWhile (\<lambda>c. c \<noteq> d) (ist_str m s))"
    using istsplit_eq [OF assms(1,2)] by blast
  let ?k = "length (takeWhile (\<lambda>c. c \<noteq> d) (ist_str m s))"
  have len: "length (ist_str m s) = ist_len s" using assms(1) by simp
  have k: "?k \<le> ist_len s" using length_takeWhile_le [of "\<lambda>c. c \<noteq> d" "ist_str m s"] unfolding len .
  then have sz: "sz_add ?k 1 = ?k + 1" using assms(2) by (intro sz_add_small) linarith
  have eqs: "a = ist2 (ist_ptr s) ?k" "r = istadv s (?k + 1)"
    using ar(1) iststop_eq [OF assms(1), of d] sz by (auto simp: istsplit_def)
  obtain p where p: "ist_ptr s = Some p" using assms(1,3) by (cases "ist_ptr s") auto
  have "?k = ist_len s \<longleftrightarrow> d \<notin> set (ist_str m s)"
  proof
    assume "?k = ist_len s"
    then have "takeWhile (\<lambda>c. c \<noteq> d) (ist_str m s) = ist_str m s"
      using takeWhile_eq_take [of "\<lambda>c. c \<noteq> d" "ist_str m s"] len by (simp only: take_all order_refl)
    then show "d \<notin> set (ist_str m s)" by (simp only: takeWhile_eq_all_conv) blast
  next
    assume "d \<notin> set (ist_str m s)"
    then have "takeWhile (\<lambda>c. c \<noteq> d) (ist_str m s) = ist_str m s" by (subst takeWhile_eq_all_conv) blast
    then show "?k = ist_len s" by (simp only: len)
  qed
  then have "istend a \<noteq> istend r \<longleftrightarrow> d \<in> set (ist_str m s)"
    using k p unfolding eqs by (simp add: istend_def istadv_def)
  moreover have "ist_len r < ist_len s" using assms(3) by (simp add: eqs istadv_def)
  moreover have "ist_ptr a = ist_ptr s" by (simp add: eqs)
  moreover have "ptr_less (ist_ptr s) (ist_ptr r)" using assms(3) p by (simp add: eqs istadv_def)
  ultimately show thesis using that ar by blast
qed

lemma istshift_cut:
  assumes "ist_wf m s" and "0 < ist_len s"
  obtains c r where "istshift m s = Some (c, r)" and "ist_wf m r" and "ist_str m s = c # ist_str m r"
    and "ist_len s = Suc (ist_len r)" and "ist_ptr r = padd (ist_ptr s) 1"
proof -
  obtain n where n: "ist_len s = Suc n" using assms(2) by (cases "ist_len s") auto
  from assms(1) obtain c where c: "ldp m (ist_ptr s) = Some c"
    "ist_at m (ist_ptr s) (Suc n) = c # ist_at m (padd (ist_ptr s) 1) n" "ist_ok m (padd (ist_ptr s) 1) n"
    unfolding n by (rule ist_stepE)
  show thesis
    by (rule that [of c "ist2 (padd (ist_ptr s) 1) n"])
       (use c n in \<open>simp_all add: istshift_def istnext_def\<close>)
qed

text \<open>The segments of a string, with a mark for those that a delimiter follows.\<close>

function pieces :: "byte \<Rightarrow> bytes \<Rightarrow> (bytes \<times> bool) list" where
  "pieces d xs = (if xs = [] then []
     else (takeWhile (\<lambda>c. c \<noteq> d) xs, d \<in> set xs) # pieces d (drop 1 (dropWhile (\<lambda>c. c \<noteq> d) xs)))"
  by pat_completeness auto
termination
proof (relation "measure (\<lambda>(d, xs). length xs)", goal_cases)
  case (2 d xs)
  then have "length (drop 1 (dropWhile (\<lambda>c. c \<noteq> d) xs)) < length xs"
    using length_dropWhile_le [of "\<lambda>c. c \<noteq> d" xs] by (cases xs) (auto simp: le_diff_conv)
  then show ?case by simp
qed simp

declare pieces.simps [simp del]

lemma pieces_Nil [simp]: "pieces d [] = []"
  by (subst pieces.simps) simp

text \<open>What a normaliser returns when it succeeds, and when the result does not fit.\<close>

definition uri_done :: "bytes \<Rightarrow> nat \<Rightarrow> bytes \<Rightarrow> uri_normalizer_err \<times> ist \<times> bytes" where
  "uri_done dm q out = (URI_NORMALIZER_ERR_NONE, ist2 (Some q) (length out), blit dm q out)"

lemma uri_finish_done [simp]: "uri_finish dst (uri_done dm q out) = uri_done dm q out"
  by (simp add: uri_finish_def uri_done_def)

definition uri_fits :: "bytes \<Rightarrow> nat \<Rightarrow> nat \<Rightarrow> bytes \<Rightarrow> uri_res \<Rightarrow> bool" where
  "uri_fits dm q sz out res = (\<exists>err o' dm'. res = Some (err, o', dm') \<and> length dm' = length dm \<and>
     (if length out \<le> sz then (err, o', dm') = uri_done dm q out else err = URI_NORMALIZER_ERR_ALLOC))"

lemma uri_fits_done: "length out \<le> sz \<Longrightarrow> q + sz \<le> length dm \<Longrightarrow> uri_fits dm q sz out (Some (uri_done dm q out))"
  by (auto simp: uri_fits_def uri_done_def)

lemma uri_fits_alloc: "sz < length out \<Longrightarrow> length dm' = length dm \<Longrightarrow>
    uri_fits dm q sz out (Some (URI_NORMALIZER_ERR_ALLOC, o', dm'))"
  by (auto simp: uri_fits_def)

section \<open>Fragments\<close>

definition fragment_enc :: "bytes \<Rightarrow> bytes" where
  "fragment_enc xs = concat (map (\<lambda>c. if c = 35 then cstr ''%23'' else [c]) xs)"

lemma fragment_enc_id: "35 \<notin> set xs \<Longrightarrow> fragment_enc xs = xs"
  by (induction xs) (auto simp: fragment_enc_def)

lemma fragment_enc_cut:
  "fragment_enc xs = takeWhile (\<lambda>c. c \<noteq> 35) xs @ (if 35 \<in> set xs then cstr ''%23'' else [])
     @ fragment_enc (drop 1 (dropWhile (\<lambda>c. c \<noteq> 35) xs))"
proof (induction xs)
  case (Cons x xs)
  then show ?case by (cases "x = 35") (auto simp: fragment_enc_def)
qed (simp add: fragment_enc_def)

lemma uri_fragment_loop_eq:
  assumes "ist_wf m s" and "q + sz \<le> length dm" and "sz < 4611686018427387904"
    and "ist_len s < 4611686018427387904"
  shows "length out \<le> sz \<Longrightarrow> uri_fits dm q sz (out @ fragment_enc (ist_str m s))
    (uri_fragment_loop m sz (ist2 (Some q) (length out)) (blit dm q out) s)"
  using assms(1,4)
proof (induction "ist_len s" arbitrary: s out rule: less_induct)
  case less
  note IH = less(1) and out = less(2) and wf = less(3) and small = less(4)
  show ?case
  proof (cases "ist_len s = 0")
    case True
    then show ?thesis using out uri_fits_done [OF out assms(2)]
      by (subst uri_fragment_loop.simps) (simp add: istlen_def uri_done_def fragment_enc_def)
  next
    case False
    obtain a r where ar: "istsplit m s 35 = Some (a, r)" "ist_wf m a" "ist_wf m r"
      "ist_str m a = takeWhile (\<lambda>c. c \<noteq> 35) (ist_str m s)"
      "ist_str m r = drop 1 (dropWhile (\<lambda>c. c \<noteq> 35) (ist_str m s))"
      "istend a \<noteq> istend r \<longleftrightarrow> 35 \<in> set (ist_str m s)" "ist_len r < ist_len s"
      by (rule istsplit_cut [OF wf, of 35]) (use small False in auto)
    let ?A = "ist_str m a" and ?R = "ist_str m r"
    have la: "length ?A = ist_len a" "ist_len a \<le> ist_len s"
      using ar(2) wf length_takeWhile_le [of "\<lambda>c. c \<noteq> 35" "ist_str m s"] unfolding ar(4) [symmetric] by simp_all
    have cut: "fragment_enc (ist_str m s) = ?A @ (if istend a \<noteq> istend r then cstr ''%23'' else []) @ fragment_enc ?R"
      unfolding ar(4-6) by (rule fragment_enc_cut)
    have small': "length out + ist_len a < 9223372036854775808" "ist_len r < 4611686018427387904"
      using out assms(3) small la(2) ar(7) by linarith+
    note cat = istcat_built [OF ar(2) out assms(2) small'(1)]
    note step = IH [OF ar(7) _ ar(3) small'(2)]
    show ?thesis
    proof (cases "length out + ist_len a \<le> sz")
      case fail: False
      then have "sz < length (out @ fragment_enc (ist_str m s))" unfolding cut using la(1) by simp
      moreover have "length (blit dm q (take sz (out @ ?A))) = length dm" using assms(2) by simp
      ultimately show ?thesis using False fail ar(1) cat
        by (subst uri_fragment_loop.simps) (simp add: istlen_def uri_fits_alloc)
    next
      case fit: True
      then have tk: "take sz (out @ ?A) = out @ ?A" using la(1) by simp
      have fit': "length (out @ ?A) \<le> sz" using fit la(1) by simp
      show ?thesis
      proof (cases "istend a = istend r")
        case True
        then show ?thesis using step [OF fit'] False fit ar(1) cat cut tk
          by (subst uri_fragment_loop.simps) (simp add: istlen_def la add.assoc)
      next
        case hash: False
        have "ist_wf (cstr ''%23'') (ist2 (Some 0) 3)" by simp
        moreover have "length (out @ ?A) + 3 < 9223372036854775808" using fit' assms(3) by linarith
        ultimately have cat2: "istcat (cstr ''%23'') (blit dm q (out @ ?A)) (ist2 (Some q) (length (out @ ?A))) (ist2 (Some 0) 3) sz =
          Some (if length (out @ ?A) + 3 \<le> sz then int (length (out @ ?A) + 3) else -1,
            ist2 (Some q) (length (take sz ((out @ ?A) @ cstr ''%23''))), blit dm q (take sz ((out @ ?A) @ cstr ''%23'')))"
          using istcat_built [OF _ fit' assms(2), of "cstr ''%23''" "ist2 (Some 0) 3"] by simp
        show ?thesis
        proof (cases "length (out @ ?A) + 3 \<le> sz")
          case fail: False
          then have "sz < length (out @ fragment_enc (ist_str m s))" unfolding cut using hash by simp
          moreover have "length (blit dm q (take sz ((out @ ?A) @ cstr ''%23''))) = length dm" using assms(2) by simp
          ultimately show ?thesis using False fail fit ar(1) cat cat2 hash tk
            by (subst uri_fragment_loop.simps) (simp add: istlen_def la uri_fits_alloc)
        next
          case fit2: True
          then have tk2: "take sz ((out @ ?A) @ cstr ''%23'') = (out @ ?A) @ cstr ''%23''" by simp
          have "length ((out @ ?A) @ cstr ''%23'') \<le> sz" using fit2 by simp
          then show ?thesis using step [of "(out @ ?A) @ cstr ''%23''"] False fit fit2 ar(1) cat cat2 cut hash tk tk2
            by (subst uri_fragment_loop.simps) (simp add: istlen_def la add.assoc)
        qed
      qed
    qed
  qed
qed

section \<open>Single dots\<close>

definition dot_removed :: "bytes \<Rightarrow> bytes" where
  "dot_removed xs = concat (map (\<lambda>(s, b). if s = cstr ''.'' then [] else s @ (if b then [47] else [])) (pieces 47 xs))"

lemma pieces_Cons:
  "xs \<noteq> [] \<Longrightarrow> pieces d xs = (takeWhile (\<lambda>c. c \<noteq> d) xs, d \<in> set xs) # pieces d (drop 1 (dropWhile (\<lambda>c. c \<noteq> d) xs))"
  by (subst pieces.simps) simp

lemma cut_length:
  "length xs = length (takeWhile (\<lambda>c. c \<noteq> d) xs) + (if d \<in> set xs then 1 else 0)
     + length (drop 1 (dropWhile (\<lambda>c. c \<noteq> d) xs))"
  by (induction xs) auto

lemma pieces_lengths:
  "length (concat (map (\<lambda>(s, b). s @ (if b then [d] else [])) (pieces d xs))) = length xs"
proof (induction d xs rule: pieces.induct)
  case (1 d xs)
  then show ?case using cut_length [of xs d] by (cases "xs = []") (auto simp: pieces_Cons)
qed

lemma dot_removed_length: "length (dot_removed xs) \<le> length xs"
proof -
  have "length (dot_removed xs) \<le> length (concat (map (\<lambda>(s, b). s @ (if b then [47] else [])) (pieces 47 xs)))"
    unfolding dot_removed_def length_concat map_map by (intro sum_list_mono) auto
  then show ?thesis by (simp only: pieces_lengths)
qed

lemma dot_removed_cut:
  "xs \<noteq> [] \<Longrightarrow> dot_removed xs =
     (if takeWhile (\<lambda>c. c \<noteq> 47) xs = cstr ''.'' then []
      else takeWhile (\<lambda>c. c \<noteq> 47) xs @ (if 47 \<in> set xs then [47] else []))
     @ dot_removed (drop 1 (dropWhile (\<lambda>c. c \<noteq> 47) xs))"
  by (simp add: dot_removed_def pieces_Cons del: drop_Suc)

lemma uri_dot_loop_eq:
  assumes "ist_wf m s" and "q + sz \<le> length dm" and "sz < 4611686018427387904"
  shows "length out + ist_len s \<le> sz \<Longrightarrow> 
    uri_dot_loop m sz (ist2 (Some q) (length out)) (blit dm q out) s = Some (uri_done dm q (out @ dot_removed (ist_str m s)))"
  using assms(1)
proof (induction "ist_len s" arbitrary: s out rule: less_induct)
  case less
  note IH = less(1) and out = less(2) and wf = less(3)
  show ?case
  proof (cases "ist_len s = 0")
    case True
    then show ?thesis by (subst uri_dot_loop.simps) (simp add: istlen_def uri_done_def dot_removed_def)
  next
    case False
    obtain a r where ar: "istsplit m s 47 = Some (a, r)" "ist_wf m a" "ist_wf m r"
      "ist_str m a = takeWhile (\<lambda>c. c \<noteq> 47) (ist_str m s)"
      "ist_str m r = drop 1 (dropWhile (\<lambda>c. c \<noteq> 47) (ist_str m s))"
      "istend a \<noteq> istend r \<longleftrightarrow> 47 \<in> set (ist_str m s)" "ist_len r < ist_len s"
      by (rule istsplit_cut [OF wf, of 47]) (use assms(3) out False in auto)
    let ?A = "ist_str m a" and ?R = "ist_str m r" and ?b = "istend a \<noteq> istend r"
    have len: "length (ist_str m s) = ist_len s" "length ?A = ist_len a" "length ?R = ist_len r"
      using wf ar(2,3) by simp_all
    have sum: "ist_len s = ist_len a + (if ?b then 1 else 0) + ist_len r"
      using cut_length [of "ist_str m s" 47] unfolding ar(4-6) [symmetric] len .
    have "ist_str m s \<noteq> []" using len(1) False by auto
    then have cut: "dot_removed (ist_str m s) = (if ?A = cstr ''.'' then [] else ?A @ (if ?b then [47] else [])) @ dot_removed ?R"
      unfolding ar(4-6) by (rule dot_removed_cut)
    have dot: "isteq m (cstr ''.'') a (ist2 (Some 0) 1) = Some (?A = cstr ''.'')"
      using isteq_eq [OF ar(2), of "cstr ''.''" "ist2 (Some 0) 1"] by simp
    show ?thesis
    proof (cases "?A = cstr ''.''")
      case True
      have "length out + ist_len r \<le> sz" using out sum by linarith
      from IH [OF ar(7) this ar(3)] show ?thesis using True False ar(1) dot cut
        by (subst uri_dot_loop.simps) (simp add: istlen_def)
    next
      case nodot: False
      have b1: "length out \<le> sz" "length out + ist_len a < 9223372036854775808" "length out + ist_len a \<le> sz"
        using out sum assms(3) by linarith+
      note cat = istcat_built [OF ar(2) b1(1) assms(2) b1(2)]
      have tk: "take sz (out @ ?A) = out @ ?A" using b1(3) len(2) by simp
      show ?thesis
      proof (cases ?b)
        case True
        have "length (out @ ?A) < sz" "length ((out @ ?A) @ [47]) + ist_len r \<le> sz" using out sum True len(2) by simp_all
        moreover have "raw_istappend (blit dm q (out @ ?A)) (ist2 (Some q) (length (out @ ?A))) 47 =
            Some (ist2 (Some q) (length ((out @ ?A) @ [47])), blit dm q ((out @ ?A) @ [47]))"
          using calculation(1) assms(2,3) by (intro append_built) linarith+
        moreover note IH [OF ar(7) calculation(2) ar(3)]
        ultimately show ?thesis using True False nodot ar(1) dot cut cat tk b1(3)
          by (subst uri_dot_loop.simps) (simp add: istlen_def len(2) add.assoc)
      next
        case nob: False
        then have "length (out @ ?A) + ist_len r \<le> sz" using out sum len(2) by simp
        note IH [OF ar(7) this ar(3)]
        then show ?thesis using nob False nodot ar(1) dot cut cat tk b1(3)
          by (subst uri_dot_loop.simps) (simp add: istlen_def len(2) add.assoc)
      qed
    qed
  qed
qed

section \<open>Slashes\<close>

fun slashes_merged :: "bytes \<Rightarrow> bytes" where
  "slashes_merged (a # b # xs) = (if a = 47 \<and> b = 47 then slashes_merged (b # xs) else a # slashes_merged (b # xs))"
| "slashes_merged xs = xs"

lemma slashes_merged_run: "slashes_merged (47 # dropWhile (\<lambda>c. c = 47) xs) = slashes_merged (47 # xs)"
  by (induction xs) auto

lemma slashes_merged_Cons:
  "slashes_merged (c # xs) = c # slashes_merged (if c = 47 then dropWhile (\<lambda>c. c = 47) xs else xs)"
proof (cases "c = 47")
  case True
  have "slashes_merged (47 # ys) = 47 # slashes_merged ys" if "ys = [] \<or> hd ys \<noteq> 47" for ys
    using that by (cases ys) auto
  moreover have "dropWhile (\<lambda>c. c = 47) xs = [] \<or> hd (dropWhile (\<lambda>c. c = 47) xs) \<noteq> 47"
    using hd_dropWhile [of "\<lambda>c. c = 47" xs] by auto
  ultimately show ?thesis using True slashes_merged_run [of xs] by simp
next
  case False
  then show ?thesis by (cases xs) auto
qed

lemma skip_slashes_eq:
  "ist_wf m s \<Longrightarrow> \<exists>r. skip_slashes m s = Some r \<and> ist_wf m r \<and> ist_str m r = dropWhile (\<lambda>c. c = 47) (ist_str m s) \<and>
     ist_len r \<le> ist_len s"
proof (induction m s rule: skip_slashes.induct)
  case (1 m s)
  show ?case
  proof (cases "ist_len s = 0")
    case True
    then show ?thesis using 1(2) by (subst skip_slashes.simps) (simp add: istlen_def)
  next
    case False
    obtain c r where cr: "istshift m s = Some (c, r)" "ist_wf m r" "ist_str m s = c # ist_str m r"
      "ist_len s = Suc (ist_len r)" by (rule istshift_cut [OF 1(2)]) (use False in auto)
    have c: "ldp m (istptr s) = Some c" "istnext s = r"
      using cr(1) False by (auto simp: istshift_def istptr_def bind_eq_Some_conv)
    have "0 < istlen s" using False by (simp add: istlen_def)
    with 1(1) [OF this c(1)] show ?thesis using c cr(2-4) 1(2)
      by (subst skip_slashes.simps) (auto simp: istlen_def)
  qed
qed

lemma uri_merge_loop_eq:
  assumes "ist_wf m s" and "q + sz \<le> length dm" and "sz < 4611686018427387904"
  shows "length out + ist_len s \<le> sz \<Longrightarrow> 
    uri_merge_loop m (ist2 (Some q) (length out)) (blit dm q out) s = Some (uri_done dm q (out @ slashes_merged (ist_str m s)))"
  using assms(1)
proof (induction "ist_len s" arbitrary: s out rule: less_induct)
  case less
  note IH = less(1) and out = less(2) and wf = less(3)
  show ?case
  proof (cases "ist_len s = 0")
    case True
    then show ?thesis by (subst uri_merge_loop.simps) (simp add: istlen_def uri_done_def)
  next
    case False
    obtain c r where cr: "istshift m s = Some (c, r)" "ist_wf m r" "ist_str m s = c # ist_str m r"
      "ist_len s = Suc (ist_len r)" by (rule istshift_cut [OF wf]) (use False in auto)
    obtain t where t: "(if c = 47 then skip_slashes m r else Some r) = Some t" "ist_wf m t"
      "ist_str m t = (if c = 47 then dropWhile (\<lambda>c. c = 47) (ist_str m r) else ist_str m r)" "ist_len t \<le> ist_len r"
      using skip_slashes_eq [OF cr(2)] cr(2) by (cases "c = 47") auto
    have "length out < sz" "length (out @ [c]) + ist_len t \<le> sz" "ist_len t < ist_len s" using out cr(4) t(4) by simp_all
    moreover have "raw_istappend (blit dm q out) (ist2 (Some q) (length out)) c =
            Some (ist2 (Some q) (length (out @ [c])), blit dm q (out @ [c]))"
      using calculation(1) assms(2,3) by (intro append_built) linarith+
    moreover note IH [OF calculation(3,2) t(2)]
    moreover have "slashes_merged (ist_str m s) = c # slashes_merged (ist_str m t)"
      unfolding cr(3) t(3) by (rule slashes_merged_Cons)
    ultimately show ?thesis using False cr(1) t(1)
      by (subst uri_merge_loop.simps) (simp add: istlen_def)
  qed
qed

section \<open>Percent encoding\<close>

text \<open>A text as literal bytes and escapes. A percent sign without two hexadecimal digits is a
  literal, which only the strict variants refuse.\<close>

datatype pct = Lit byte | Esc byte byte

fun pct_tokens :: "bytes \<Rightarrow> pct list" where
  "pct_tokens [] = []"
| "pct_tokens (c # cs) =
     (case cs of
        h1 # h2 # ds \<Rightarrow> if c = 37 \<and> ishex h1 \<and> ishex h2 then Esc h1 h2 # pct_tokens ds else Lit c # pct_tokens cs
      | _ \<Rightarrow> Lit c # pct_tokens cs)"

fun pct_text :: "pct \<Rightarrow> bytes" where
  "pct_text (Lit c) = [c]"
| "pct_text (Esc a b) = [37, a, b]"

definition hex_digit :: "byte \<Rightarrow> nat" where
  "hex_digit h = (if h \<le> 57 then unat h - 48 else if h \<le> 70 then unat h - 55 else unat h - 87)"

fun pct_val :: "pct \<Rightarrow> byte" where
  "pct_val (Lit c) = c"
| "pct_val (Esc a b) = word_of_nat (16 * hex_digit a + hex_digit b)"

lemma pct_tokens_text: "concat (map pct_text (pct_tokens xs)) = xs"
  by (induction xs rule: pct_tokens.induct) (auto split: list.splits)

lemma byte_sub_le:
  assumes "unat a + k < 256"
  shows "(h::byte) - a \<le> word_of_nat k \<longleftrightarrow> unat a \<le> unat h \<and> unat h \<le> unat a + k"
proof -
  have "unat (h - a) = (if unat a \<le> unat h then unat h - unat a else unat h + 256 - unat a)"
    using unat_sub_if' [of h a] by (simp add: word_le_nat_alt)
  then show ?thesis using assms byte_less [of h] by (auto simp: word_le_nat_alt unat_byte_of_nat)
qed

lemma ishex_iff: "ishex h \<longleftrightarrow> (48 \<le> unat h \<and> unat h \<le> 57) \<or> (65 \<le> unat h \<and> unat h \<le> 70) \<or> (97 \<le> unat h \<and> unat h \<le> 102)"
  using byte_sub_le [of 48 9 h] byte_sub_le [of 65 5 h] byte_sub_le [of 97 5 h]
  by (auto simp: ishex_def Let_def)

lemma unat_ascii_uc: "unat (ascii_uc h) = (if 97 \<le> unat h \<and> unat h \<le> 122 then unat h - 32 else unat h)"
  using unat_sub_if' [of h 32] by (auto simp: ascii_uc_def word_le_nat_alt)

lemma ishex_ascii_uc: "ishex (ascii_uc h) = ishex h" "ishex h \<Longrightarrow> hex_digit (ascii_uc h) = hex_digit h"
  by (auto simp: ishex_iff unat_ascii_uc hex_digit_def word_le_nat_alt)

lemma sint_byte: 
  assumes "unat (h::byte) < 128"
  shows "sint h = int (unat h)"
proof -
  have "uint h = int (unat h)" by simp
  then have u: "0 \<le> uint h" "uint h < 128" using assms by linarith+
  have "\<not> bit (uint h) 7" using u by (simp add: bit_iff_odd)
  then have "sint h = take_bit 7 (uint h)" by (simp add: sint_uint signed_take_bit_eq_if_positive)
  then show ?thesis using u by (simp add: take_bit_eq_mod)
qed

lemma hex2i_val:
  "48 \<le> n \<and> n \<le> 57 \<or> 65 \<le> n \<and> n \<le> 70 \<or> 97 \<le> n \<and> n \<le> 102 \<Longrightarrow>
   hex2i (int n) = int (if n \<le> 57 then n - 48 else if n \<le> 70 then n - 55 else n - 87) \<and>
   (if n \<le> 57 then n - 48 else if n \<le> 70 then n - 55 else n - 87) < 16"
  by (elim disjE) (auto simp: hex2i_def Let_def of_nat_diff)

lemma hex2i_digit:
  assumes "ishex h"
  shows "hex2i (sint h) = int (hex_digit h) \<and> hex_digit h < 16"
proof -
  have "unat h < 128" using assms by (auto simp: ishex_iff)
  then have s: "sint h = int (unat h)" by (rule sint_byte)
  have d: "hex_digit h = (if unat h \<le> 57 then unat h - 48 else if unat h \<le> 70 then unat h - 55 else unat h - 87)"
    by (simp add: hex_digit_def word_le_nat_alt)
  show ?thesis unfolding s d using assms unfolding ishex_iff by (rule hex2i_val)
qed
lemma not_ishex_37 [simp]: "\<not> ishex 37"
  by (simp add: ishex_iff)

lemma hex2i_pair:
  assumes "ishex a" and "ishex b"
  shows "word_of_int (push_bit 4 (hex2i (sint a)) + hex2i (sint b)) = pct_val (Esc a b)"
proof -
  have "push_bit 4 (hex2i (sint a)) + hex2i (sint b) = int (16 * hex_digit a + hex_digit b)"
    using hex2i_digit [OF assms(1)] hex2i_digit [OF assms(2)] by (simp add: push_bit_eq_mult)
  then show ?thesis by (simp only: pct_val.simps of_int_of_nat_eq)
qed

fun pct_render :: "(byte \<Rightarrow> byte \<Rightarrow> bytes) \<Rightarrow> pct \<Rightarrow> bytes" where
  "pct_render repl (Lit c) = [c]"
| "pct_render repl (Esc a b) = repl a b"

definition starts_hex :: "bytes \<Rightarrow> bool" where
  "starts_hex cs = (case cs of h1 # h2 # ds \<Rightarrow> ishex h1 \<and> ishex h2 | _ \<Rightarrow> False)"

lemma pct_tokens_lit: "\<not> (c = 37 \<and> starts_hex cs) \<Longrightarrow> pct_tokens (c # cs) = Lit c # pct_tokens cs"
  by (auto simp: starts_hex_def split: list.splits)

lemma uri_two_hex_eq:
  assumes "ist_wf m s"
  shows "uri_two_hex m s = Some (starts_hex (ist_str m s))"
proof (cases "ist_len s \<ge> 2")
  case False
  then have "length (ist_str m s) < 2" using assms by simp
  then show ?thesis using False by (auto simp: uri_two_hex_def istlen_def starts_hex_def split: list.splits)
next
  case True
  obtain a r where a: "istshift m s = Some (a, r)" "ist_wf m r" "ist_str m s = a # ist_str m r"
    "ist_len s = Suc (ist_len r)" "ist_ptr r = padd (ist_ptr s) 1" by (rule istshift_cut [OF assms]) (use True in auto)
  obtain b t where b: "istshift m r = Some (b, t)" "ist_str m r = b # ist_str m t"
    by (rule istshift_cut [OF a(2)]) (use True a(4) in auto)
  have "ldp m (ist_ptr s) = Some a" "ldp m (padd (ist_ptr s) 1) = Some b"
    using a(1,4,5) b(1) True by (auto simp: istshift_def bind_eq_Some_conv split: if_splits)
  moreover have "istlen s \<ge> 2" using True by (simp add: istlen_def)
  ultimately show ?thesis
    unfolding uri_two_hex_def a(3) b(2) by (simp add: istptr_def starts_hex_def)
qed

text \<open>What both loops rely on: \<open>emit\<close> appends the bytes \<open>repl a b\<close> to a string under
  construction, three at most.\<close>

locale percent_emitter =
  fixes emit :: "bytes \<Rightarrow> ist \<Rightarrow> byte \<Rightarrow> byte \<Rightarrow> byte \<Rightarrow> (ist \<times> bytes) option"
    and repl :: "byte \<Rightarrow> byte \<Rightarrow> bytes"
  assumes emit_built: "\<lbrakk> q + length out + 3 \<le> length dm; length out < 4611686018427387904; ishex a; ishex b \<rbrakk> \<Longrightarrow>
      emit (blit dm q out) (ist2 (Some q) (length out)) 37 a b =
      Some (ist2 (Some q) (length (out @ repl a b)), blit dm q (out @ repl a b))"
    and repl_short: "length (repl a b) \<le> 3"
begin

lemma render_length: "length (concat (map (pct_render repl) ts)) \<le> length (concat (map pct_text ts))"
proof (induction ts)
  case (Cons t ts)
  have "length (pct_render repl t) \<le> length (pct_text t)" using repl_short [unfolded numeral_3_eq_3] by (cases t) simp_all
  with Cons show ?case by simp
qed simp

lemma percent_loop:
  assumes "ist_wf m s" and "q + sz \<le> length dm" and "sz < 4611686018427387904"
  shows "length out + ist_len s \<le> sz \<Longrightarrow>
    (if strict \<and> Lit 37 \<in> set (pct_tokens (ist_str m s))
     then \<exists>o' dm'. uri_percent_loop emit m strict (ist2 (Some q) (length out)) (blit dm q out) s =
            Some (URI_NORMALIZER_ERR_INVALID_INPUT, o', dm') \<and> length dm' = length dm
     else uri_percent_loop emit m strict (ist2 (Some q) (length out)) (blit dm q out) s =
            Some (uri_done dm q (out @ concat (map (pct_render repl) (pct_tokens (ist_str m s))))))"
  using assms(1)
proof (induction "ist_len s" arbitrary: s out rule: less_induct)
  case less
  note IH = less(1) and out = less(2) and wf = less(3)
  show ?case
  proof (cases "ist_len s = 0")
    case True
    then show ?thesis by (subst (1 2) uri_percent_loop.simps) (simp add: istlen_def uri_done_def)
  next
    case False
    obtain c r where cr: "istshift m s = Some (c, r)" "ist_wf m r" "ist_str m s = c # ist_str m r"
      "ist_len s = Suc (ist_len r)" by (rule istshift_cut [OF wf]) (use False in auto)
    have len: "length (ist_str m r) = ist_len r" using cr(2) by simp
    have lens: "length out < sz" "length (out @ [c]) + ist_len r \<le> sz" "ist_len r < ist_len s" using out cr(4) by simp_all
    have app: "raw_istappend (blit dm q out) (ist2 (Some q) (length out)) c =
            Some (ist2 (Some q) (length (out @ [c])), blit dm q (out @ [c]))"
      using lens(1) assms(2,3) by (intro append_built) linarith+
    note lit = IH [OF lens(3,2) cr(2)]
    have two: "uri_two_hex m r = Some (starts_hex (ist_str m r))" by (rule uri_two_hex_eq [OF cr(2)])
    show ?thesis
    proof (cases "c = 37 \<and> starts_hex (ist_str m r)")
      case nohex: False
      then have tok: "pct_tokens (ist_str m s) = Lit c # pct_tokens (ist_str m r)"
        unfolding cr(3) by (rule pct_tokens_lit)
      show ?thesis
      proof (cases "c = 37 \<and> strict")
        case True
        moreover have "length (blit dm q out) = length dm" using lens(1) assms(2) by simp
        ultimately show ?thesis using nohex cr(1) two False tok
          by (subst uri_percent_loop.simps) (simp add: istlen_def)
      next
        case lax: False
        have "uri_percent_loop emit m strict (ist2 (Some q) (length out)) (blit dm q out) s =
          uri_percent_loop emit m strict (ist2 (Some q) (length (out @ [c]))) (blit dm q (out @ [c])) r"
          using nohex lax cr(1) two False app by (subst uri_percent_loop.simps) (auto simp: istlen_def)
        then show ?thesis using lit lax unfolding tok by auto
      qed
    next
      case hex: True
      then obtain a b ds where ab: "ist_str m r = a # b # ds" "ishex a" "ishex b"
        by (auto simp: starts_hex_def split: list.splits)
      obtain r1 where r1: "istshift m r = Some (a, r1)" "ist_wf m r1" "ist_str m r1 = b # ds" "ist_len r = Suc (ist_len r1)"
        by (rule istshift_cut [OF cr(2)]) (use ab(1) len in auto)
      have "length (ist_str m r1) = ist_len r1" using r1(2) by simp
      then obtain r2 where r2: "istshift m r1 = Some (b, r2)" "ist_wf m r2" "ist_str m r2 = ds" "ist_len r1 = Suc (ist_len r2)"
        by (rule_tac istshift_cut [OF r1(2)]) (use r1(3) in auto)
      have tok: "pct_tokens (ist_str m s) = Esc a b # pct_tokens (ist_str m r2)"
        using hex ab unfolding cr(3) r2(3) by simp
      have lens2: "q + length out + 3 \<le> length dm" "length out < 4611686018427387904" "ist_len r2 < ist_len s"
          "length (out @ repl a b) + ist_len r2 \<le> sz"
        using out cr(4) r1(4) r2(4) assms(2,3) repl_short [of a b] by simp_all
      have "uri_percent_loop emit m strict (ist2 (Some q) (length out)) (blit dm q out) s =
        uri_percent_loop emit m strict (ist2 (Some q) (length (out @ repl a b))) (blit dm q (out @ repl a b)) r2"
        using hex cr(1) r1(1) r2(1) two False emit_built [OF lens2(1,2) ab(2,3)]
        by (subst uri_percent_loop.simps) (simp add: istlen_def)
      then show ?thesis using IH [OF lens2(3,4) r2(2)] unfolding tok by auto
    qed
  qed
qed

lemma percent_run:
  assumes "ist_wf m s" and "q + sz \<le> length dm" and "sz < 4611686018427387904"
  shows "\<exists>err o' dm'. uri_percent_run emit m s strict (ist2 (Some q) sz) dm = Some (err, o', dm') \<and> length dm' = length dm \<and>
    (if sz < ist_len s then err = URI_NORMALIZER_ERR_ALLOC \<and> o' = ist2 (Some q) 0 \<and> dm' = dm
     else if strict \<and> Lit 37 \<in> set (pct_tokens (ist_str m s)) then err = URI_NORMALIZER_ERR_INVALID_INPUT \<and> o' = ist2 (Some q) 0
     else (err, o', dm') = uri_done dm q (concat (map (pct_render repl) (pct_tokens (ist_str m s)))))"
proof (cases "sz < ist_len s")
  case True
  then show ?thesis by (simp add: uri_percent_run_def istclear_def istlen_def)
next
  case False
  note loop = percent_loop [OF assms, of "[]" strict, simplified]
  show ?thesis
  proof (cases "strict \<and> Lit 37 \<in> set (pct_tokens (ist_str m s))")
    case True
    then show ?thesis using loop False by (auto simp: uri_percent_run_def istclear_def istlen_def uri_finish_def)
  next
    case ok: False
    have "length (concat (map (pct_render repl) (pct_tokens (ist_str m s)))) \<le> ist_len s"
      using render_length [of "pct_tokens (ist_str m s)"] assms(1) by (simp add: pct_tokens_text)
    then have "length (blit dm q (concat (map (pct_render repl) (pct_tokens (ist_str m s))))) = length dm"
      using assms(2) False by (intro length_blit) linarith
    then show ?thesis using loop False ok by (auto simp: uri_percent_run_def istclear_def istlen_def uri_done_def uri_finish_def)
  qed
qed

end

fun pct_decoded :: "pct \<Rightarrow> pct" where
  "pct_decoded (Lit c) = Lit c"
| "pct_decoded (Esc a b) =
     (if is_unreserved_character (pct_val (Esc a b)) then Lit (pct_val (Esc a b)) else Esc a b)"

fun pct_uppered :: "pct \<Rightarrow> pct" where
  "pct_uppered (Lit c) = Lit c"
| "pct_uppered (Esc a b) = Esc (ascii_uc a) (ascii_uc b)"

lemma append3_built:
  assumes "q + length out + 3 \<le> length dm" and "length out < 4611686018427387904"
  shows "append3 (blit dm q out) (ist2 (Some q) (length out)) a b c =
    Some (ist2 (Some q) (length (out @ [a, b, c])), blit dm q (out @ [a, b, c]))"
  using append_built [of q out dm a] append_built [of q "out @ [a]" dm b] append_built [of q "out @ [a, b]" dm c] assms
  by (simp add: append3_def)

interpretation dec: percent_emitter emit_decoded "\<lambda>a b. pct_text (pct_decoded (Esc a b))"
proof
  show "length (pct_text (pct_decoded (Esc a b))) \<le> 3" for a b by simp
next
  fix q a b and out dm :: bytes
  assume q: "q + length out + 3 \<le> length dm" "length out < 4611686018427387904" and hex: "ishex a" "ishex b"
  show "emit_decoded (blit dm q out) (ist2 (Some q) (length out)) 37 a b =
      Some (ist2 (Some q) (length (out @ pct_text (pct_decoded (Esc a b)))), blit dm q (out @ pct_text (pct_decoded (Esc a b))))"
    using append3_built [OF q, of 37 a b] append_built [of q out dm "pct_val (Esc a b)"] q
    unfolding emit_decoded_def hex2i_pair [OF hex] Let_def by (simp del: pct_val.simps)
qed

interpretation upc: percent_emitter emit_upper "\<lambda>a b. pct_text (pct_uppered (Esc a b))"
proof
  show "length (pct_text (pct_uppered (Esc a b))) \<le> 3" for a b by simp
next
  fix q a b and out dm :: bytes
  assume q: "q + length out + 3 \<le> length dm" "length out < 4611686018427387904"
  show "emit_upper (blit dm q out) (ist2 (Some q) (length out)) 37 a b =
      Some (ist2 (Some q) (length (out @ pct_text (pct_uppered (Esc a b)))), blit dm q (out @ pct_text (pct_uppered (Esc a b))))"
    using append3_built [OF q, of 37 "ascii_uc a" "ascii_uc b"] by (simp add: emit_upper_def)
qed

lemma render_decoded: "pct_render (\<lambda>a b. pct_text (pct_decoded (Esc a b))) = pct_text \<circ> pct_decoded"
proof
  fix t show "pct_render (\<lambda>a b. pct_text (pct_decoded (Esc a b))) t = (pct_text \<circ> pct_decoded) t" by (cases t) simp_all
qed

lemma render_uppered: "pct_render (\<lambda>a b. pct_text (pct_uppered (Esc a b))) = pct_text \<circ> pct_uppered"
proof
  fix t show "pct_render (\<lambda>a b. pct_text (pct_uppered (Esc a b))) t = (pct_text \<circ> pct_uppered) t" by (cases t) simp_all
qed

lemma pct_tokens_esc: "ishex a \<Longrightarrow> ishex b \<Longrightarrow> pct_tokens (37 # a # b # xs) = Esc a b # pct_tokens xs"
  by simp

text \<open>Induction by tokens.\<close>

lemma pct_induct [case_names Nil Lit Esc]:
  assumes "P []"
    and "\<And>c cs. \<not> (c = 37 \<and> starts_hex cs) \<Longrightarrow> P cs \<Longrightarrow> P (c # cs)"
    and "\<And>a b xs. ishex a \<Longrightarrow> ishex b \<Longrightarrow> P xs \<Longrightarrow> P (37 # a # b # xs)"
  shows "P xs"
proof (induction "length xs" arbitrary: xs rule: less_induct)
  case less
  show ?case
  proof (cases xs)
    case Nil
    then show ?thesis using assms(1) by simp
  next
    case (Cons c cs)
    show ?thesis
    proof (cases "c = 37 \<and> starts_hex cs")
      case True
      then obtain a b ds where "cs = a # b # ds" "ishex a" "ishex b"
        by (auto simp: starts_hex_def split: list.splits)
      then show ?thesis using assms(3) [of a b ds] less [of ds] True Cons by simp
    next
      case False
      then show ?thesis using assms(2) [of c cs] less [of cs] Cons by simp
    qed
  qed
qed

text \<open>Tokens without stray percent signs are read back from their text.\<close>

fun pct_ok :: "pct \<Rightarrow> bool" where
  "pct_ok (Lit c) = (c \<noteq> 37)"
| "pct_ok (Esc a b) = (ishex a \<and> ishex b)"

lemma pct_text_tokens: "list_all pct_ok ts \<Longrightarrow> pct_tokens (concat (map pct_text ts)) = ts"
proof (induction ts)
  case (Cons t ts)
  then show ?case by (cases t) (simp_all add: pct_tokens_lit pct_tokens_esc del: pct_tokens.simps(2))
qed simp

lemma pct_tokens_ok: "Lit 37 \<notin> set (pct_tokens xs) \<Longrightarrow> list_all pct_ok (pct_tokens xs)"
  by (induction xs rule: pct_induct) (auto simp: pct_tokens_lit pct_tokens_esc simp del: pct_tokens.simps(2))

lemma unreserved_not_37: "is_unreserved_character c \<Longrightarrow> c \<noteq> 37"
  by (auto simp: is_unreserved_character_def)

lemma pct_decoded_ok: "pct_ok t \<Longrightarrow> pct_ok (pct_decoded t)"
  by (cases t) (auto simp del: pct_val.simps simp: unreserved_not_37)

lemma pct_decoded_val: "pct_val (pct_decoded t) = pct_val t"
  by (cases t) simp_all

lemma pct_decoded_idem: "pct_decoded (pct_decoded t) = pct_decoded t"
  by (cases t) simp_all

lemma pct_decoded_esc: "pct_decoded t = Esc a b \<Longrightarrow> \<not> is_unreserved_character (pct_val (Esc a b))"
  by (cases t) (auto split: if_splits)

definition pct_decode :: "bytes \<Rightarrow> bytes" where
  "pct_decode xs = concat (map (pct_text \<circ> pct_decoded) (pct_tokens xs))"

definition pct_upper :: "bytes \<Rightarrow> bytes" where
  "pct_upper xs = concat (map (pct_text \<circ> pct_uppered) (pct_tokens xs))"

lemma pct_tokens_decode:
  assumes "Lit 37 \<notin> set (pct_tokens xs)"
  shows "pct_tokens (pct_decode xs) = map pct_decoded (pct_tokens xs)"
proof -
  have "list_all pct_ok (map pct_decoded (pct_tokens xs))"
    using pct_tokens_ok [OF assms] by (auto simp: list_all_iff pct_decoded_ok)
  from pct_text_tokens [OF this] show ?thesis by (simp add: pct_decode_def)
qed

lemma starts_hex_upper: "starts_hex (pct_upper xs) = starts_hex xs"
proof (cases xs)
  case (Cons a ys)
  note A = this
  show ?thesis
  proof (cases ys)
    case Nil
    then show ?thesis using A by (simp add: pct_upper_def starts_hex_def)
  next
    case (Cons b zs)
    show ?thesis
    proof (cases "a = 37")
      case True
      have "\<exists>us. pct_upper xs = 37 # us" using A Cons True by (auto simp: pct_upper_def split: list.splits)
      then show ?thesis using A Cons True by (auto simp: starts_hex_def split: list.splits)
    next
      case False
      then have "pct_upper xs = a # pct_upper (b # zs)"
        using A Cons by (simp add: pct_upper_def pct_tokens_lit del: pct_tokens.simps)
      moreover have "\<exists>us. pct_upper (b # zs) = b # us" by (auto simp: pct_upper_def split: list.splits)
      ultimately show ?thesis using A Cons by (auto simp: starts_hex_def)
    qed
  qed
qed (simp add: pct_upper_def)

lemma pct_tokens_upper: "pct_tokens (pct_upper xs) = map pct_uppered (pct_tokens xs)"
proof (induction xs rule: pct_induct)
  case Nil
  then show ?case by (simp add: pct_upper_def)
next
  case (Lit c cs)
  have "pct_upper (c # cs) = c # pct_upper cs" using Lit(1)
    by (simp add: pct_upper_def pct_tokens_lit del: pct_tokens.simps)
  moreover have "\<not> (c = 37 \<and> starts_hex (pct_upper cs))" using Lit(1) by (simp only: starts_hex_upper) blast
  ultimately show ?case using Lit by (simp add: pct_tokens_lit del: pct_tokens.simps)
next
  case (Esc a b xs)
  then have "pct_upper (37 # a # b # xs) = 37 # ascii_uc a # ascii_uc b # pct_upper xs"
    by (simp add: pct_upper_def)
  then show ?case using Esc by (simp add: ishex_ascii_uc)
qed

lemma pct_tokens_hex: "Esc a b \<in> set (pct_tokens xs) \<Longrightarrow> ishex a \<and> ishex b"
  by (induction xs rule: pct_induct) (auto simp: pct_tokens_lit pct_tokens_esc simp del: pct_tokens.simps(2))

lemma pct_uppered_val: "t \<in> set (pct_tokens xs) \<Longrightarrow> pct_val (pct_uppered t) = pct_val t"
  by (cases t) (auto simp: ishex_ascii_uc dest: pct_tokens_hex)

lemma ascii_uc_idem [simp]: "ascii_uc (ascii_uc c) = ascii_uc c"
  by (auto simp: word_unat_eq_iff unat_ascii_uc)

lemma pct_uppered_idem: "pct_uppered (pct_uppered t) = pct_uppered t"
  by (cases t) simp_all

section \<open>Properties of the percent normalisers\<close>

text \<open>The unreserved characters of RFC 3986, and the text that replaces a token.\<close>

definition URI_UNRESERVED :: bytes where
  "URI_UNRESERVED = cstr ''ABCDEFGHIJKLMNOPQRSTUVWXYZabcdefghijklmnopqrstuvwxyz0123456789-._~''"

fun unreserved_decoded :: "pct \<Rightarrow> bytes" where
  "unreserved_decoded (Lit c) = [c]"
| "unreserved_decoded (Esc a b) =
     (let c = word_of_nat (16 * hex_digit a + hex_digit b) in if c \<in> set URI_UNRESERVED then [c] else [37, a, b])"

lemma is_unreserved_character_iff: "is_unreserved_character c \<longleftrightarrow> c \<in> set URI_UNRESERVED"
proof -
  have "list_all (\<lambda>n. is_unreserved_character (word_of_int n) = (word_of_int n \<in> set URI_UNRESERVED)) [0..255]" by code_simp
  moreover have "uint c \<in> set [0..255]" using uint_lt2p [of c] by simp
  ultimately have "is_unreserved_character (word_of_int (uint c)) = (word_of_int (uint c) \<in> set URI_UNRESERVED)"
    unfolding list_all_iff by blast
  then show ?thesis by simp
qed

lemma unreserved_decoded_eq: "unreserved_decoded = pct_text \<circ> pct_decoded"
proof
  fix t show "unreserved_decoded t = (pct_text \<circ> pct_decoded) t"
    by (cases t) (simp_all add: is_unreserved_character_iff Let_def)
qed

lemma pct_decode_unreserved: "pct_decode xs = concat (map unreserved_decoded (pct_tokens xs))"
  by (simp add: pct_decode_def unreserved_decoded_eq)

text \<open>C29. \<^verbatim>\<open>uri_normalizer_percent_decode_unreserved\<close> returns for every input that fits. Strict, it refuses
  exactly the inputs with a percent sign that two hexadecimal digits do not follow. Otherwise, for every
  input, its result is the input read from left to right with each escape of an unreserved character of
  RFC 3986 replaced by the character; the other escapes, the percent signs that start none and all the
  other characters are copied. So the result is not longer than the input, and when every percent sign
  of the input starts an escape the result denotes the same characters, keeps no escape of an unreserved
  character and is a fixed point of the normalisation (with stray percent signs it need not be one).\<close>

theorem uri_percent_decode_equiv:
  assumes "ist_ok m (ist_ptr s) (ist_len s)" and "q + sz \<le> length dm" and "sz < 4611686018427387904"
    and "ist_len s \<le> sz"
  shows "\<exists>err o' dm'. uri_normalizer_percent_decode_unreserved m s strict (ist2 (Some q) sz) dm = Some (err, o', dm') \<and>
    (if strict \<and> Lit 37 \<in> set (pct_tokens (ist_str m s)) then err = URI_NORMALIZER_ERR_INVALID_INPUT \<and> ist_len o' = 0
     else (\<exists>out. (err, o', dm') = uri_done dm q out \<and>
       out = concat (map unreserved_decoded (pct_tokens (ist_str m s))) \<and> length out \<le> ist_len s \<and>
       (Lit 37 \<notin> set (pct_tokens (ist_str m s)) \<longrightarrow>
          map pct_val (pct_tokens out) = map pct_val (pct_tokens (ist_str m s)) \<and>
          (\<forall>a b. Esc a b \<in> set (pct_tokens out) \<longrightarrow> pct_val (Esc a b) \<notin> set URI_UNRESERVED) \<and>
          concat (map unreserved_decoded (pct_tokens out)) = out)))"
proof -
  let ?ts = "pct_tokens (ist_str m s)"
  have out: "concat (map (pct_render (\<lambda>a b. pct_text (pct_decoded (Esc a b)))) ?ts) = pct_decode (ist_str m s)"
    unfolding render_decoded pct_decode_def ..
  have len: "length (pct_decode (ist_str m s)) \<le> ist_len s"
    using dec.render_length [of ?ts] assms(1) unfolding out pct_tokens_text by simp
  have facts: "map pct_val (pct_tokens (pct_decode (ist_str m s))) = map pct_val ?ts"
    "\<forall>a b. Esc a b \<in> set (pct_tokens (pct_decode (ist_str m s))) \<longrightarrow> \<not> is_unreserved_character (pct_val (Esc a b))"
    "pct_decode (pct_decode (ist_str m s)) = pct_decode (ist_str m s)" if "Lit 37 \<notin> set ?ts"
    using pct_tokens_decode [OF that] pct_decoded_esc
    by (auto simp: pct_decoded_val pct_decode_def pct_decoded_idem comp_def simp del: pct_val.simps dest!: sym [of "Esc _ _"])
  obtain err o' dm' where run: "uri_normalizer_percent_decode_unreserved m s strict (ist2 (Some q) sz) dm = Some (err, o', dm')"
    "if strict \<and> Lit 37 \<in> set ?ts then err = URI_NORMALIZER_ERR_INVALID_INPUT \<and> o' = ist2 (Some q) 0
     else (err, o', dm') = uri_done dm q (pct_decode (ist_str m s))"
    using dec.percent_run [OF assms(1-3), of strict] assms(4)
    unfolding uri_normalizer_percent_decode_unreserved_def out by (auto simp del: pct_val.simps)
  show ?thesis
  proof (cases "strict \<and> Lit 37 \<in> set ?ts")
    case True
    then show ?thesis using run by simp
  next
    case False
    then have "(err, o', dm') = uri_done dm q (pct_decode (ist_str m s))" using run(2) by simp
    then show ?thesis using run(1) False len facts unfolding pct_decode_unreserved is_unreserved_character_iff by meson
  qed
qed

theorem uri_percent_decode_equiv_witness:
  "\<exists>dm'. uri_normalizer_percent_decode_unreserved (cstr ''%7e%2f'') (ist2 (Some 0) 6) True (ist2 (Some 0) 6) [0,0,0,0,0,0]
     = Some (URI_NORMALIZER_ERR_NONE, ist2 (Some 0) 4, dm')"
proof -
  let ?m = "cstr ''%7e%2f''" and ?s = "ist2 (Some 0) 6"
  have tok: "pct_tokens (ist_str ?m ?s) = [Esc 0x37 0x65, Esc 0x32 0x66]" by code_simp
  have out: "concat (map unreserved_decoded [Esc 0x37 0x65, Esc 0x32 0x66]) = [0x7e, 0x25, 0x32, 0x66]" by code_simp
  have ok: "ist_ok ?m (ist_ptr ?s) (ist_len ?s)" by simp
  from uri_percent_decode_equiv [OF ok, of 0 6 "[0,0,0,0,0,0]" True, unfolded tok out]
  show ?thesis by (simp add: uri_done_def)
qed

text \<open>The normalisation that is not strict is no fixed point: a stray percent sign followed by an
  escape that is decoded becomes an escape of its own.\<close>

lemma uri_percent_decode_stray:
  "pct_decode (cstr ''%%341'') = cstr ''%41'' \<and> pct_decode (cstr ''%41'') = cstr ''A''"
  by code_simp

text \<open>C30. \<^verbatim>\<open>uri_normalizer_percent_upper\<close> returns for every input that fits, refuses stray percent signs
  exactly when it is strict, and otherwise rewrites the two digits of every escape in upper case and
  nothing else: the result denotes the same characters, with or without stray percent signs, and is
  a fixed point of the normalisation.\<close>

theorem uri_percent_upper_equiv:
  assumes "ist_ok m (ist_ptr s) (ist_len s)" and "q + sz \<le> length dm" and "sz < 4611686018427387904"
    and "ist_len s \<le> sz"
  shows "\<exists>err o' dm'. uri_normalizer_percent_upper m s strict (ist2 (Some q) sz) dm = Some (err, o', dm') \<and>
    (if strict \<and> Lit 37 \<in> set (pct_tokens (ist_str m s)) then err = URI_NORMALIZER_ERR_INVALID_INPUT \<and> ist_len o' = 0
     else (\<exists>out. (err, o', dm') = uri_done dm q out \<and>
       pct_tokens out = map pct_uppered (pct_tokens (ist_str m s)) \<and>
       map pct_val (pct_tokens out) = map pct_val (pct_tokens (ist_str m s)) \<and>
       pct_upper out = out))"
proof -
  let ?ts = "pct_tokens (ist_str m s)"
  have out: "concat (map (pct_render (\<lambda>a b. pct_text (pct_uppered (Esc a b)))) ?ts) = pct_upper (ist_str m s)"
    unfolding render_uppered pct_upper_def ..
  have toks: "pct_tokens (pct_upper (ist_str m s)) = map pct_uppered ?ts" by (rule pct_tokens_upper)
  then have "map pct_val (pct_tokens (pct_upper (ist_str m s))) = map pct_val ?ts"
    by (auto simp: pct_uppered_val)
  moreover have "pct_upper (pct_upper (ist_str m s)) = pct_upper (ist_str m s)"
    unfolding pct_upper_def [of "pct_upper (ist_str m s)"] toks by (simp add: pct_upper_def pct_uppered_idem comp_def)
  moreover obtain err o' dm' where run: "uri_normalizer_percent_upper m s strict (ist2 (Some q) sz) dm = Some (err, o', dm')"
    "if strict \<and> Lit 37 \<in> set ?ts then err = URI_NORMALIZER_ERR_INVALID_INPUT \<and> o' = ist2 (Some q) 0
     else (err, o', dm') = uri_done dm q (pct_upper (ist_str m s))"
    using upc.percent_run [OF assms(1-3), of strict] assms(4)
    unfolding uri_normalizer_percent_upper_def out by auto
  ultimately show ?thesis using toks
  proof (cases "strict \<and> Lit 37 \<in> set ?ts")
    case True
    then show ?thesis using run by simp
  next
    case False
    then have "(err, o', dm') = uri_done dm q (pct_upper (ist_str m s))" using run(2) by simp
    then show ?thesis using run(1) False toks \<open>map pct_val _ = _\<close> \<open>pct_upper (pct_upper _) = _\<close> by meson
  qed
qed

theorem uri_percent_upper_equiv_witness:
  "\<exists>err o' dm'. uri_normalizer_percent_upper (cstr ''%7e%'') (ist2 (Some 0) 4) True (ist2 (Some 0) 4) [0,0,0,0]
     = Some (err, o', dm') \<and> err = URI_NORMALIZER_ERR_INVALID_INPUT"
  using uri_percent_upper_equiv [of "cstr ''%7e%''" "ist2 (Some 0) 4" 0 4 "[0,0,0,0]" True]
  by (auto simp: cstr_def ishex_iff)


end
