(* ===== verification/UriPath.thy ===== *)
theory UriPath
  imports Uri "HOL-Library.Multiset"
begin

text \<open>
  The normalisation of double dots and of queries of \<^verbatim>\<open>src/uri_normalizer.c\<close>, whose definitions are in
  \<open>Uri\<close>: the reference that resolves double dots on a stack, its equivalence with the backward scan of
  the code, the stable sort of query parameters, and the properties of the path normalisers.
\<close>

section \<open>Double dots\<close>

text \<open>An absolute path is the concatenation of its segments, each with a slash in front. The
  reference resolves the segments from left to right on a stack and counts the double dots that
  found it empty.\<close>

definition DOTS :: bytes where
  "DOTS = [46, 46]"

definition slash_join :: "bytes list \<Rightarrow> bytes" where
  "slash_join ss = concat (map (Cons 47) ss)"

fun dots_push :: "nat \<times> bytes list \<Rightarrow> bytes \<Rightarrow> nat \<times> bytes list" where
  "dots_push (u, stk) s = (if s = DOTS then (case stk of [] \<Rightarrow> (u + 1, []) | _ # stk \<Rightarrow> (u, stk)) else (u, s # stk))"

definition dots_resolve :: "bytes list \<Rightarrow> nat \<times> bytes list" where
  "dots_resolve ss = foldl dots_push (0, []) ss"

fun dots_emit :: "bool \<Rightarrow> nat \<times> bytes list \<Rightarrow> bytes list" where
  "dots_emit full (u, stk) = (if full then [] else replicate u DOTS) @ rev stk"

text \<open>The segments of the normalised path.\<close>

definition dotdot_segments :: "bool \<Rightarrow> bytes list \<Rightarrow> bytes list" where
  "dotdot_segments full ss =
     (if last ss = DOTS then dots_emit full (dots_resolve ss) @ [[]]
      else dots_emit full (dots_resolve (butlast ss)) @ [last ss])"

text \<open>What the loop of the code computes, from the last segment to the first one.\<close>

fun dots_run :: "nat \<Rightarrow> bytes list \<Rightarrow> nat \<times> bytes" where
  "dots_run k [] = (k, if k = 0 then [47] else [])"
| "dots_run k (s # rs) =
     (if s = DOTS then dots_run (k + 1) rs
      else if k > 0 then dots_run (k - 1) rs
      else (case dots_run 0 rs of (k', out) \<Rightarrow> (k', out @ s @ [47])))"

definition dots_final :: "bool \<Rightarrow> nat \<times> bytes \<Rightarrow> bytes" where
  "dots_final full r = (case r of (k, out) \<Rightarrow>
     (if k > 0 then (if full then [] else slash_join (replicate k DOTS)) @ [47] else []) @ out)"

lemma slash_join_simps [simp]:
  "slash_join [] = []" "slash_join (s # ss) = 47 # s @ slash_join ss"
  "slash_join (ss @ ts) = slash_join ss @ slash_join ts"
  by (simp_all add: slash_join_def)

lemma dots_final_snoc: "dots_final full (k, out @ xs) = dots_final full (k, out) @ xs"
  by (simp add: dots_final_def)

lemma dots_resolve_snoc: "dots_resolve (ss @ [s]) = dots_push (dots_resolve ss) s"
  by (simp add: dots_resolve_def)

lemma dots_run_resolve:
  "dots_final full (dots_run k rs) = slash_join (dots_emit full (case dots_resolve (rev rs) of (u, stk) \<Rightarrow>
     if k \<le> length stk then (u, drop k stk) else (u + k - length stk, []))) @ [47]"
proof (induction rs arbitrary: k)
  case Nil
  then show ?case by (auto simp: dots_final_def dots_resolve_def)
next
  case (Cons s rs)
  obtain u stk where r: "dots_resolve (rev rs) = (u, stk)" by fastforce
  show ?case
  proof (cases "s = DOTS")
    case True
    then show ?thesis using Cons [of "k + 1"] r
      by (auto simp: dots_resolve_snoc split: list.splits)
  next
    case nodots: False
    show ?thesis
    proof (cases k)
      case 0
      obtain k' out where "dots_run 0 rs = (k', out)" by fastforce
      then show ?thesis using Cons [of 0] r nodots 0
        by (simp add: dots_resolve_snoc dots_final_snoc)
    next
      case (Suc j)
      then show ?thesis using Cons [of j] r nodots by (simp add: dots_resolve_snoc)
    qed
  qed
qed

lemma dots_run_length:
  "dots_run k rs = (k', out) \<Longrightarrow>
     3 * k' + length out + (if k' > 0 then 1 else 0) \<le> 3 * k + length (slash_join (rev rs)) + 1 \<and>
     length out + (if k' > 0 then 1 else 0) \<le> length (slash_join (rev rs)) + 1"
proof (induction rs arbitrary: k k' out)
  case (Cons s rs)
  show ?case
  proof (cases "s = DOTS")
    case True
    then show ?thesis using Cons.IH [of "k + 1" k' out] Cons.prems by (simp add: DOTS_def split: if_splits)
  next
    case nodots: False
    show ?thesis
    proof (cases k)
      case 0
      obtain k1 out1 where 1: "dots_run 0 rs = (k1, out1)" by fastforce
      then show ?thesis using Cons.IH [OF 1] Cons.prems nodots 0 by (auto split: if_splits)
    next
      case (Suc j)
      then show ?thesis using Cons.IH [of j k' out] Cons.prems nodots by (simp split: if_splits)
    qed
  qed
qed auto

section \<open>The loops over a segment\<close>

lemma path_at_eq:
  assumes "ist_wf m path" and "i < ist_len path"
  shows "path_at m path (int i) = Some (ist_str m path ! i)"
  using assms by (cases "ist_ptr path") (auto simp: path_at_def istptr_def ld_def)

lemma skip_segment_eq:
  assumes "ist_wf m path" and "ist_str m path = A @ 47 # s @ W" and "47 \<notin> set s"
  shows "skip_segment m path (int (length A + length s)) = Some (int (length A))"
  using assms(2,3)
proof (induction s arbitrary: W rule: rev_induct)
  case Nil
  have "length (ist_str m path) = ist_len path" using assms(1) by simp
  then have "length A < ist_len path" unfolding Nil by simp
  then have "path_at m path (int (length A)) = Some 47" using path_at_eq [OF assms(1)] Nil(1) by simp
  then show ?case by (subst skip_segment.simps) simp
next
  case (snoc c s)
  have "length (ist_str m path) = ist_len path" using assms(1) by simp
  then have "length A + Suc (length s) < ist_len path" unfolding snoc(2) by simp
  then have "path_at m path (int (length A + length (s @ [c]))) = Some c"
    using path_at_eq [OF assms(1), of "length A + Suc (length s)"] snoc(2) by (simp add: nth_append)
  moreover have "c \<noteq> 47" using snoc(3) by auto
  moreover have "skip_segment m path (int (length A + length s)) = Some (int (length A))"
    using snoc(1) [of "c # W"] snoc(2,3) by simp
  ultimately show ?case by (subst skip_segment.simps) (simp add: algebra_simps)
qed

lemma push_head_eq: "0 < h \<Longrightarrow> h \<le> length dm \<Longrightarrow> push_head h dm c = Some (h - 1, blit dm (h - 1) [c])"
  by (simp add: push_head_def mem_simps blit_single)

lemma blit_front:
  assumes "length s + length t \<le> h" and "h \<le> length dm"
  shows "blit (blit dm (h - length t) t) (h - length t - length s) s = blit dm (h - (length s + length t)) (s @ t)"
proof -
  have "h - length t - length s = h - (length s + length t)" by simp
  then show ?thesis using assms by (intro nth_equalityI) (auto simp: nth_blit nth_append)
qed

lemma copy_segment_eq:
  assumes "ist_wf m path" and "ist_str m path = A @ 47 # s @ W" and "47 \<notin> set s" and "length s \<le> h" and "h \<le> length dm"
  shows "copy_segment m path (int (length A + length s)) h dm = Some (int (length A), h - length s, blit dm (h - length s) s)"
  using assms(2-5)
proof (induction s arbitrary: W h dm rule: rev_induct)
  case Nil
  have "length (ist_str m path) = ist_len path" using assms(1) by simp
  then have "length A < ist_len path" unfolding Nil(1) by simp
  then have "path_at m path (int (length A)) = Some 47" using path_at_eq [OF assms(1)] Nil(1) by simp
  then show ?case by (subst copy_segment.simps) simp
next
  case (snoc c s)
  have "length (ist_str m path) = ist_len path" using assms(1) by simp
  then have "length A + Suc (length s) < ist_len path" unfolding snoc(2) by simp
  then have "path_at m path (int (length A + length (s @ [c]))) = Some c"
    using path_at_eq [OF assms(1), of "length A + Suc (length s)"] snoc(2) by (simp add: nth_append)
  moreover have "c \<noteq> 47" using snoc(3) by auto
  moreover have "push_head h dm c = Some (h - 1, blit dm (h - 1) [c])" using snoc(4,5) by (intro push_head_eq) simp_all
  moreover have "copy_segment m path (int (length A + length s)) (h - 1) (blit dm (h - 1) [c])
      = Some (int (length A), h - 1 - length s, blit (blit dm (h - 1) [c]) (h - 1 - length s) s)"
    using snoc(1) [of "c # W" "h - 1" "blit dm (h - 1) [c]"] snoc(2-5) by simp
  moreover have "blit (blit dm (h - 1) [c]) (h - 1 - length s) s = blit dm (h - length (s @ [c])) (s @ [c])"
    using blit_front [of s "[c]" h dm] snoc(4,5) by simp
  ultimately show ?case by (subst copy_segment.simps) (simp add: algebra_simps)
qed

lemma path_matches_eq:
  assumes "ist_wf m path" and "0 \<le> i" and "i < 18446744073709551616"
  shows "path_matches m path i lit = Some (prefix (cstr lit) (drop (nat i) (ist_str m path)))"
proof -
  have "ist_wf (cstr lit) (ist2 (Some 0) (length lit))" "ist_str (cstr lit) (ist2 (Some 0) (length lit)) = cstr lit" by simp_all
  then show ?thesis using istmatch_eq [of m "istadv path (nat i)" "cstr lit" "ist2 (Some 0) (length lit)"]
      istadv_eq [OF assms(1), of "nat i"] assms(2,3)
    by (simp add: path_matches_def usz_small)
qed

text \<open>The test for \<^verbatim>\<open>/../\<close> at the slash that ends a segment, and the first test for \<^verbatim>\<open>/..\<close>.\<close>

lemma prefix_drop_nth: "prefix xs (drop i ys) \<Longrightarrow> j < length xs \<Longrightarrow> ys ! (i + j) = xs ! j"
  by (auto simp: prefix_def dest: drop_nthD(2))

lemma dotdot_hit:
  assumes "P = A @ 47 # s @ 47 # W" and "47 \<notin> set s"
  shows "3 \<le> length A + length s + 1 \<and> prefix (cstr ''/../'') (drop (length A + length s + 1 - 3) P) \<longleftrightarrow> s = DOTS"
proof
  assume "s = DOTS"
  then show "3 \<le> length A + length s + 1 \<and> prefix (cstr ''/../'') (drop (length A + length s + 1 - 3) P)"
    by (simp add: DOTS_def cstr_def assms(1))
next
  assume h: "3 \<le> length A + length s + 1 \<and> prefix (cstr ''/../'') (drop (length A + length s + 1 - 3) P)"
  define i where "i = length A + length s + 1 - 3"
  have i: "i + 2 = length A + length s" using h unfolding i_def by linarith
  have n: "P ! i = 47" "P ! (i + 1) = 46" "P ! (i + 2) = 46"
    using h prefix_drop_nth [of "cstr ''/../''" i P 0] prefix_drop_nth [of "cstr ''/../''" i P 1]
      prefix_drop_nth [of "cstr ''/../''" i P 2] by (simp_all add: i_def cstr_def)
  have s: "P ! (length A + 1 + j) = s ! j" if "j < length s" for j
    using that by (simp add: assms(1) nth_append)
  have a: "P ! length A = 47" by (simp add: assms(1))
  have l: "2 \<le> length s"
  proof (rule ccontr)
    assume "\<not> 2 \<le> length s"
    then consider "length s = 0" | "length s = 1" by linarith
    then show False
    proof cases
      case 1
      then show False using n(3) a i by simp
    next
      case 2
      then have "i + 1 = length A" using i by simp
      then show False using n(2) a by simp
    qed
  qed
  have "\<not> 3 \<le> length s"
  proof
    assume l3: "3 \<le> length s"
    then have "i = length A + 1 + (length s - 3)" using i by simp
    moreover have "length s - 3 < length s" using l3 by linarith
    ultimately show False using assms(2) n(1) s [of "length s - 3"] nth_mem [of "length s - 3" s] by simp
  qed
  with l have l2: "length s = 2" by simp
  then have "s ! 0 = 46" "s ! 1 = 46" using n(2,3) s [of 0] s [of 1] i by (auto simp: numeral_2_eq_2)
  then show "s = DOTS" using l2 unfolding DOTS_def
    by (intro nth_equalityI) (auto simp: less_2_cases_iff)
qed

lemma dotdot_end_hit:
  assumes "P = A @ 47 # s" and "47 \<notin> set s"
  shows "2 \<le> length A + length s \<and> prefix (cstr ''/..'') (drop (length A + length s - 2) P) \<longleftrightarrow> s = DOTS"
proof -
  have "prefix (cstr ''/..'') (drop (length A + length s - 2) P) \<longleftrightarrow>
      prefix (cstr ''/../'') (drop (length A + length s + 1 - 3) (P @ [47]))" if "2 \<le> length A + length s"
  proof -
    have three: "\<exists>a b c. D = [a, b, c]" if "length D = 3" for D :: bytes
      using that by (auto simp: numeral_3_eq_3 length_Suc_conv)
    have "length (drop (length A + length s - 2) P) = 3" using that by (simp add: assms(1))
    then obtain a b c where abc: "drop (length A + length s - 2) P = [a, b, c]" using three by blast
    have "length A + length s + 1 - 3 = length A + length s - 2" by simp
    moreover have "drop (length A + length s - 2) (P @ [47]) = drop (length A + length s - 2) P @ [47]"
      by (subst drop_append) (simp add: assms(1))
    ultimately have "drop (length A + length s + 1 - 3) (P @ [47]) = [a, b, c, 47]" unfolding abc by simp
    then show ?thesis unfolding abc by (auto simp: cstr_def)
  qed
  then show ?thesis using dotdot_hit [of "P @ [47]" A s "[]"] assms by auto
qed

lemma dotdot_loop_up:
  "\<lbrakk> 0 \<le> offset; (if offset \<ge> 3 then path_matches m path (offset - 3) ''/../'' else Some False) = Some True;
     up_incr up = Some up' \<rbrakk> \<Longrightarrow>
   dotdot_loop m path offset up h dm = dotdot_loop m path (offset - 3) up' h dm"
  by (subst dotdot_loop.simps) simp

lemma dotdot_loop_copy:
  "\<lbrakk> 0 \<le> offset; (if offset \<ge> 3 then path_matches m path (offset - 3) ''/../'' else Some False) = Some False;
     path_at m path offset = Some c; push_head h dm c = Some (h1, dm1);
     copy_segment m path (offset - 1) h1 dm1 = Some (offset', h2, dm2) \<rbrakk> \<Longrightarrow>
   dotdot_loop m path offset 0 h dm = dotdot_loop m path offset' 0 h2 dm2"
  by (subst dotdot_loop.simps) simp

lemma dotdot_loop_pop:
  "\<lbrakk> 1 \<le> offset; (if offset \<ge> 3 then path_matches m path (offset - 3) ''/../'' else Some False) = Some False;
     0 < up; skip_segment m path (offset - 1) = Some offset' \<rbrakk> \<Longrightarrow>
   dotdot_loop m path offset up h dm = dotdot_loop m path offset' (up - 1) h dm"
  by (subst dotdot_loop.simps) simp

lemma dotdot_loop_eq:
  assumes "ist_wf m path" and "ist_len path < 9223372036854775808"
  shows "\<lbrakk> ist_str m path = slash_join (rev rs) @ 47 # W; \<forall>s\<in>set rs. 47 \<notin> set s; k + length rs < 2147483648;
     dots_run k rs = (k', out); length out \<le> h; h \<le> length dm \<rbrakk> \<Longrightarrow>
   dotdot_loop m path (int (length (slash_join (rev rs)))) (int k) h dm = Some (int k', h - length out, blit dm (h - length out) out)"
proof (induction rs arbitrary: k W h dm k' out)
  case Nil
  have "length (ist_str m path) = ist_len path" using assms(1) by simp
  then have "0 < ist_len path" unfolding Nil(1) by simp
  then have at: "path_at m path 0 = Some 47" using path_at_eq [OF assms(1), of 0] Nil(1) by simp
  have done_: "dotdot_loop m path (-1) u hh dd = Some (u, hh, dd)" for u hh dd by (subst dotdot_loop.simps) simp
  show ?case
  proof (cases k)
    case 0
    then have "push_head h dm 47 = Some (h - 1, blit dm (h - 1) [47])" using Nil(4-6) by (intro push_head_eq) auto
    moreover have "copy_segment m path (-1) (h - 1) (blit dm (h - 1) [47]) = Some (-1, h - 1, blit dm (h - 1) [47])"
      by (subst copy_segment.simps) simp
    ultimately show ?thesis using Nil(4) 0 at by (subst dotdot_loop.simps) (auto simp: done_)
  next
    case (Suc j)
    then show ?thesis using Nil(4) by (subst dotdot_loop.simps) (auto simp: done_)
  qed
next
  case (Cons s rs)
  let ?A = "slash_join (rev rs)"
  have P: "ist_str m path = ?A @ 47 # s @ 47 # W" using Cons.prems(1) by simp
  have len: "length (ist_str m path) = ist_len path" using assms(1) by simp
  have off: "int (length (slash_join (rev (s # rs)))) = int (length ?A + length s + 1)" by simp
  have lt: "length ?A + length s + 1 < ist_len path" using len unfolding P by simp
  have sl: "47 \<notin> set s" "\<forall>s\<in>set rs. 47 \<notin> set s" using Cons.prems(2) by simp_all
  have hit: "(if int (length ?A + length s + 1) \<ge> 3 then path_matches m path (int (length ?A + length s + 1) - 3) ''/../'' else Some False)
      = Some (s = DOTS)"
  proof (cases "3 \<le> length ?A + length s + 1")
    case True
    then have "nat (int (length ?A + length s + 1) - 3) = length ?A + length s + 1 - 3" by simp
    then show ?thesis using True path_matches_eq [OF assms(1), of "int (length ?A + length s + 1) - 3" "''/../''"] lt assms(2)
        dotdot_hit [OF P sl(1)] by simp
  next
    case False
    then show ?thesis using dotdot_hit [OF P sl(1)] by auto
  qed
  note IH = Cons.IH [of "s @ 47 # W", OF P sl(2)]
  show ?case
  proof (cases "s = DOTS")
    case True
    have "length s = 2" using True by (simp add: DOTS_def)
    then have o3: "int (length ?A + length s + 1) - 3 = int (length ?A)" by simp
    have "up_incr (int k) = Some (int (k + 1))" using Cons.prems(3) by (simp add: up_incr_def)
    then have "dotdot_loop m path (int (length ?A + length s + 1)) (int k) h dm =
        dotdot_loop m path (int (length ?A)) (int (k + 1)) h dm"
      using dotdot_loop_up [OF _ hit [unfolded True eqTrueI [OF refl]]] o3 True by simp
    then show ?thesis using IH [of "k + 1" k' out h dm] Cons.prems(3-6) True unfolding off by simp
  next
    case nodots: False
    have o1: "int (length ?A + length s + 1) - 1 = int (length ?A + length s)" by simp
    have hit': "(if int (length ?A + length s + 1) \<ge> 3 then path_matches m path (int (length ?A + length s + 1) - 3) ''/../'' else Some False)
      = Some False" using hit nodots by simp
    show ?thesis
    proof (cases k)
      case 0
      obtain k1 out1 where r: "dots_run 0 rs = (k1, out1)" by fastforce
      have o: "out = out1 @ s @ [47]" "k' = k1" using Cons.prems(4) nodots 0 r by simp_all
      have at: "path_at m path (int (length ?A + length s + 1)) = Some 47"
        using path_at_eq [OF assms(1) lt] unfolding P by (simp add: nth_append)
      have push: "push_head h dm 47 = Some (h - 1, blit dm (h - 1) [47])" using Cons.prems(5,6) o by (intro push_head_eq) simp_all
      have cp: "copy_segment m path (int (length ?A + length s)) (h - 1) (blit dm (h - 1) [47]) =
          Some (int (length ?A), h - 1 - length s, blit (blit dm (h - 1) [47]) (h - 1 - length s) s)"
        using Cons.prems(5,6) o by (intro copy_segment_eq [OF assms(1) P sl(1)]) simp_all
      have b1: "blit (blit dm (h - 1) [47]) (h - 1 - length s) s = blit dm (h - (length s + 1)) (s @ [47])"
        using blit_front [of s "[47]" h dm] Cons.prems(5,6) o by simp
      have h1: "h - 1 - length s = h - (length s + 1)" by simp
      have "dotdot_loop m path (int (length ?A)) 0 (h - (length s + 1)) (blit dm (h - (length s + 1)) (s @ [47])) =
        Some (int k1, h - (length s + 1) - length out1,
          blit (blit dm (h - (length s + 1)) (s @ [47])) (h - (length s + 1) - length out1) out1)"
        using IH [of 0 k1 out1 "h - (length s + 1)" "blit dm (h - (length s + 1)) (s @ [47])"] r Cons.prems(3,5,6) o by simp
      moreover have "blit (blit dm (h - (length s + 1)) (s @ [47])) (h - (length s + 1) - length out1) out1 = blit dm (h - length out) out"
        using blit_front [of out1 "s @ [47]" h dm] Cons.prems(5,6) o by (simp add: add.assoc)
      moreover have "dotdot_loop m path (int (length ?A + length s + 1)) 0 h dm =
          dotdot_loop m path (int (length ?A)) 0 (h - (length s + 1)) (blit dm (h - (length s + 1)) (s @ [47]))"
        using dotdot_loop_copy [OF _ hit' at push cp [folded o1]] b1 h1 by simp
      moreover have "h - (length s + 1) - length out1 = h - length out" using o by simp
      ultimately show ?thesis using 0 o unfolding off by simp
    next
      case (Suc j)
      have "skip_segment m path (int (length ?A + length s)) = Some (int (length ?A))"
        by (rule skip_segment_eq [OF assms(1) P sl(1)])
      moreover have "int k - 1 = int j" using Suc by simp
      ultimately have "dotdot_loop m path (int (length ?A + length s + 1)) (int k) h dm = dotdot_loop m path (int (length ?A)) (int j) h dm"
        using dotdot_loop_pop [OF _ hit', of "int k"] o1 Suc by simp
      then show ?thesis using IH [of j k' out h dm] Cons.prems(3-6) nodots Suc unfolding off by simp
    qed
  qed
qed

lemma prepend_dots_eq:
  "\<lbrakk> 0 < k; 3 * k \<le> h; h \<le> length dm \<rbrakk> \<Longrightarrow>
   prepend_dots (int k) h dm = Some (h - 3 * k, blit dm (h - 3 * k) (slash_join (replicate k DOTS)))"
proof (induction k arbitrary: h dm)
  case (Suc k)
  have p: "push_head h dm 46 = Some (h - 1, blit dm (h - 1) [46])"
    "push_head (h - 1) (blit dm (h - 1) [46]) 46 = Some (h - 1 - 1, blit (blit dm (h - 1) [46]) (h - 1 - 1) [46])"
    using Suc.prems by (intro push_head_eq, simp, simp)+
  have b2: "blit (blit dm (h - 1) [46]) (h - 1 - 1) [46] = blit dm (h - 2) [46, 46]"
    using blit_front [of "[46]" "[46]" h dm] Suc.prems by (simp add: numeral_2_eq_2)
  have p3: "push_head (h - 2) (blit dm (h - 2) [46, 46]) 47 = Some (h - 2 - 1, blit (blit dm (h - 2) [46, 46]) (h - 2 - 1) [47])"
    using Suc.prems by (intro push_head_eq) simp_all
  have b3: "blit (blit dm (h - 2) [46, 46]) (h - 2 - 1) [47] = blit dm (h - 3) [47, 46, 46]"
    using blit_front [of "[47]" "[46, 46]" h dm] Suc.prems by (simp add: numeral_2_eq_2 numeral_3_eq_3)
  have h: "h - 1 - 1 = h - 2" "h - 2 - 1 = h - 3" "h - Suc (Suc 0) = h - 2" by simp_all
  have step: "prepend_dots (int (Suc k)) h dm =
      (if 0 < k then prepend_dots (int k) (h - 3) (blit dm (h - 3) [47, 46, 46]) else Some (h - 3, blit dm (h - 3) [47, 46, 46]))"
    using p p3 b2 b3 by (subst prepend_dots.simps) (simp add: h)
  show ?case
  proof (cases "k = 0")
    case True
    then show ?thesis unfolding step by (simp add: DOTS_def)
  next
    case False
    let ?X = "slash_join (replicate k DOTS)"
    have X: "?X @ [47, 46, 46] = slash_join (replicate (Suc k) DOTS)"
      by (simp only: replicate_Suc replicate_append_same [symmetric] slash_join_simps) (simp add: DOTS_def)
    have len: "length ?X = 3 * k" "length [47 :: byte, 46, 46] = 3" by (induction k) (simp_all add: DOTS_def)
    have "blit (blit dm (h - 3) [47, 46, 46]) (h - 3 - 3 * k) ?X = blit dm (h - (3 * k + 3)) (?X @ [47, 46, 46])"
      using blit_front [of ?X "[47, 46, 46]" h dm, unfolded len] Suc.prems by simp
    moreover have "prepend_dots (int k) (h - 3) (blit dm (h - 3) [47, 46, 46]) =
        Some (h - 3 - 3 * k, blit (blit dm (h - 3) [47, 46, 46]) (h - 3 - 3 * k) ?X)"
      using False Suc.prems by (intro Suc.IH) simp_all
    moreover have "h - 3 - 3 * k = h - 3 * Suc k" "h - (3 * k + 3) = h - 3 * Suc k" by simp_all
    ultimately show ?thesis using False unfolding step X by simp
  qed
qed simp

lemma dotdot_finish:
  assumes "length (dots_final full (k, out)) \<le> t" and "t \<le> length dm"
  shows "(if int k > 0 then do {
           (head, dm) \<leftarrow> push_head (t - length out) (blit dm (t - length out) out) 47;
           if \<not> full then prepend_dots (int k) head dm else Some (head, dm)
         } else Some (t - length out, blit dm (t - length out) out)) =
    Some (t - length (dots_final full (k, out)), blit dm (t - length (dots_final full (k, out))) (dots_final full (k, out)))"
proof (cases "k = 0")
  case True
  then show ?thesis by (simp add: dots_final_def)
next
  case False
  let ?X = "slash_join (replicate k DOTS)"
  have X: "length ?X = 3 * k" by (induction k) (simp_all add: DOTS_def)
  have len: "1 + length out \<le> t" "\<not> full \<Longrightarrow> 3 * k + 1 + length out \<le> t"
    using assms(1) False X by (auto simp: dots_final_def split: if_splits)
  have "length (blit dm (t - length out) out) = length dm" using assms len by simp
  then have push: "push_head (t - length out) (blit dm (t - length out) out) 47 =
      Some (t - length out - 1, blit (blit dm (t - length out) out) (t - length out - 1) [47])"
    using assms(2) len(1) by (intro push_head_eq) linarith+
  have b: "blit (blit dm (t - length out) out) (t - length out - 1) [47] = blit dm (t - (1 + length out)) (47 # out)"
    using blit_front [of "[47]" out t dm] assms(2) len(1) by simp
  have h: "t - length out - 1 = t - (1 + length out)" by simp
  show ?thesis
  proof (cases full)
    case True
    then show ?thesis using False push b h by (simp add: dots_final_def)
  next
    case nofull: False
    have l: "length (blit dm (t - (1 + length out)) (47 # out)) = length dm" using assms(2) len(1) by simp
    have "prepend_dots (int k) (t - (1 + length out)) (blit dm (t - (1 + length out)) (47 # out)) =
      Some (t - (1 + length out) - 3 * k, blit (blit dm (t - (1 + length out)) (47 # out)) (t - (1 + length out) - 3 * k) ?X)"
      using False len(2) [OF nofull] assms(2) l by (intro prepend_dots_eq) simp_all
    moreover have "blit (blit dm (t - (1 + length out)) (47 # out)) (t - (1 + length out) - 3 * k) ?X
        = blit dm (t - (3 * k + (1 + length out))) (?X @ 47 # out)"
      using blit_front [of ?X "47 # out" t dm, unfolded X] assms(2) len(2) [OF nofull] by simp
    moreover have "t - (1 + length out) - 3 * k = t - (3 * k + (1 + length out))" by simp
    moreover have "dots_final full (k, out) = ?X @ 47 # out" "length (?X @ 47 # out) = 3 * k + (1 + length out)"
      using False nofull X by (simp_all add: dots_final_def)
    ultimately show ?thesis using False nofull push b h by simp
  qed
qed

text \<open>The reference, and what the loop computes, on a path with its last segment.\<close>

lemma dotdot_segments_run:
  "slash_join (dotdot_segments full (ts @ [s])) =
     (if s = DOTS then dots_final full (dots_run 1 (rev ts))
      else dots_final full (dots_run 0 (rev ts)) @ s)"
proof -
  obtain u stk where r: "dots_resolve ts = (u, stk)" by fastforce
  show ?thesis
    using dots_run_resolve [of full 1 "rev ts"] dots_run_resolve [of full 0 "rev ts"] r
    by (cases stk) (simp_all add: dotdot_segments_def dots_resolve_snoc)
qed

lemma dotdot_segments_length:
  "length (slash_join (dotdot_segments full (ts @ [s]))) \<le> length (slash_join (ts @ [s])) + (if full then 0 else 1)"
proof -
  obtain k out where r: "dots_run (if s = DOTS then 1 else 0) (rev ts) = (k, out)" by fastforce
  have X: "length (slash_join (replicate k DOTS)) = 3 * k" by (induction k) (simp_all add: DOTS_def)
  have "length (dots_final full (k, out)) \<le> length (slash_join ts) + 1 + (if s = DOTS \<and> \<not> full then 3 else 0)"
    using dots_run_length [OF r] X by (auto simp: dots_final_def split: if_splits)
  then show ?thesis using r unfolding dotdot_segments_run by (auto simp: DOTS_def split: if_splits)
qed

text \<open>The stack never holds double dots.\<close>

lemma dots_push_inv: "DOTS \<notin> set (snd r) \<Longrightarrow> DOTS \<notin> set (snd (dots_push r s))"
  by (cases r) (auto split: list.splits)

lemma dots_resolve_inv: "DOTS \<notin> set (snd (dots_resolve ss))"
  by (induction ss rule: rev_induct) (simp_all add: dots_resolve_snoc dots_push_inv del: dots_push.simps, simp add: dots_resolve_def)

lemma dots_resolve_plain:
  assumes "DOTS \<notin> set stk"
  shows "dots_resolve (replicate u DOTS @ rev stk) = (u, stk)"
proof -
  have "foldl dots_push (v, []) (replicate u DOTS) = (v + u, [])" for v by (induction u arbitrary: v) simp_all
  moreover have "foldl dots_push (v, []) (rev stk) = (v, stk)" for v using assms by (induction stk) auto
  ultimately show ?thesis by (simp add: dots_resolve_def)
qed

lemma dots_emit_idem: "dots_emit full (dots_resolve (dots_emit full (dots_resolve ss))) = dots_emit full (dots_resolve ss)"
proof -
  obtain u stk where r: "dots_resolve ss = (u, stk)" by fastforce
  then have "DOTS \<notin> set stk" using dots_resolve_inv [of ss] by simp
  then show ?thesis using r dots_resolve_plain [of stk u] dots_resolve_plain [of stk 0] by (cases full) simp_all
qed

lemma dotdot_segments_idem: "dotdot_segments full (dotdot_segments full ss) = dotdot_segments full ss"
proof -
  have "[] \<noteq> DOTS" by (simp add: DOTS_def)
  then show ?thesis by (simp add: dotdot_segments_def dots_emit_idem)
qed

lemma uri_path_dotdot_eq:
  assumes wf: "ist_wf m path" and P: "ist_str m path = slash_join (ts @ [s])" and sl: "\<forall>x\<in>set (ts @ [s]). 47 \<notin> set x"
    and sz: "q + sz \<le> length dm" "ist_len path < 2147483648" "ist_len path \<le> sz"
    and fit: "length (slash_join (dotdot_segments full (ts @ [s]))) \<le> q + sz"
  defines "out \<equiv> slash_join (dotdot_segments full (ts @ [s]))"
  shows "uri_normalizer_path_dotdot m path full (ist2 (Some q) sz) dm =
    Some (URI_NORMALIZER_ERR_NONE, ist2 (Some (q + sz - length out)) (length out), blit dm (q + sz - length out) out)"
proof -
  let ?A = "slash_join ts" and ?t = "q + sz"
  have len: "length (ist_str m path) = ist_len path" using wf by simp
  have P': "ist_str m path = ?A @ 47 # s" using P by simp
  have L: "ist_len path = length ?A + 1 + length s" using len unfolding P' by simp
  have "sz_sub (ist_len path) 1 = ist_len path - 1" using L sz(2) by (intro sz_sub_small) linarith+
  then have off: "ssz (sz_sub (istlen path) 1) = int (length ?A + length s)"
    using L sz(2) by (simp add: istlen_def ssz_small)
  have "length ts \<le> length ?A" by (induction ts) auto
  then have lts: "length ts < 2147483647" using L sz(2) by linarith
  have dots: "(if int (length ?A + length s) \<ge> 2 then path_matches m path (int (length ?A + length s) - 2) ''/..'' else Some False)
      = Some (s = DOTS)"
  proof (cases "2 \<le> length ?A + length s")
    case True
    then have "nat (int (length ?A + length s) - 2) = length ?A + length s - 2" by simp
    then show ?thesis using True path_matches_eq [OF wf, of "int (length ?A + length s) - 2" "''/..''"] L sz(2)
        dotdot_end_hit [OF P'] sl by simp
  next
    case False
    then show ?thesis using dotdot_end_hit [OF P'] sl by auto
  qed
  have rts: "\<forall>x\<in>set (rev ts). 47 \<notin> set x" using sl by simp
  note loop = dotdot_loop_eq [OF wf, of "rev ts", simplified rev_rev_ident, OF _ _ rts]
  have small: "ist_len path < 9223372036854775808" using sz(2) by simp
  have run: "\<exists>k o1. dotdot_loop m path (int (length ?A + length s) - (if s = DOTS then 2 else 0)) (if s = DOTS then 1 else 0) ?t dm =
      Some (int k, ?t - length o1, blit dm (?t - length o1) o1) \<and> out = dots_final full (k, o1)"
  proof (cases "s = DOTS \<or> s = []")
    case True
    let ?k = "if s = DOTS then 1 else 0 :: nat"
    obtain k o1 where r: "dots_run ?k (rev ts) = (k, o1)" by fastforce
    have o: "out = dots_final full (k, o1)"
      using True r unfolding out_def dotdot_segments_run by (auto split: if_splits)
    then have "length o1 \<le> ?t" using fit unfolding out_def [symmetric] by (simp add: dots_final_def)
    moreover have "int (length ?A + length s) - (if s = DOTS then 2 else 0) = int (length ?A)"
      using True by (auto simp: DOTS_def)
    ultimately show ?thesis using loop [OF small P', of ?k k o1 ?t dm] r lts sz(1) o by auto
  next
    case False
    then obtain s0 c where s: "s = s0 @ [c]" by (metis rev_exhaust)
    obtain k o1 where r: "dots_run 0 (rev ts) = (k, o1)" by fastforce
    have o: "out = dots_final full (k, o1 @ s)"
      using False r unfolding out_def dotdot_segments_run by (simp add: dots_final_snoc)
    then have l: "length o1 + length s \<le> ?t" using fit unfolding out_def [symmetric] by (simp add: dots_final_def)
    have P2: "ist_str m path = ?A @ 47 # s0 @ [c]" using P' s by simp
    have c: "c \<noteq> 47" "47 \<notin> set s0" using sl s by auto
    have lt: "length ?A + length s < ist_len path" using L by simp
    have at: "path_at m path (int (length ?A + length s)) = Some c"
      using path_at_eq [OF wf lt] unfolding P2 by (simp add: nth_append s)
    have hit: "(if int (length ?A + length s) \<ge> 3 then path_matches m path (int (length ?A + length s) - 3) ''/../'' else Some False)
        = Some False"
    proof (cases "3 \<le> length ?A + length s")
      case True
      have "\<not> prefix (cstr ''/../'') (drop (length ?A + length s - 3) (ist_str m path))"
      proof
        assume "prefix (cstr ''/../'') (drop (length ?A + length s - 3) (ist_str m path))"
        from prefix_drop_nth [OF this, of 3] have "ist_str m path ! (length ?A + length s) = 47"
          using True by (simp add: cstr_def)
        then show False using c(1) unfolding P2 by (simp add: nth_append s)
      qed
      moreover have "nat (int (length ?A + length s) - 3) = length ?A + length s - 3" using True by simp
      ultimately show ?thesis
        using True path_matches_eq [OF wf, of "int (length ?A + length s) - 3" "''/../''"] L sz(2) by simp
    qed simp
    have push: "push_head ?t dm c = Some (?t - 1, blit dm (?t - 1) [c])"
    proof (rule push_head_eq)
      have "0 < length s" using s by simp
      then show "0 < ?t" using l by linarith
    qed (rule sz(1))
    have cp0: "copy_segment m path (int (length ?A + length s0)) (?t - 1) (blit dm (?t - 1) [c]) =
        Some (int (length ?A), ?t - 1 - length s0, blit (blit dm (?t - 1) [c]) (?t - 1 - length s0) s0)"
      using l s sz(1) by (intro copy_segment_eq [OF wf P2 c(2)]) simp_all
    have e: "blit (blit dm (?t - 1) [c]) (?t - length s) s0 = blit dm (?t - length s) s" "?t - 1 - length s0 = ?t - length s"
      using blit_front [of s0 "[c]" ?t dm] l s sz(1) by simp_all
    have i: "int (length ?A + length s) - 1 = int (length ?A + length s0)" using s by simp
    have cp: "copy_segment m path (int (length ?A + length s) - 1) (?t - 1) (blit dm (?t - 1) [c]) =
        Some (int (length ?A), ?t - length s, blit dm (?t - length s) s)" unfolding i cp0 e ..
    have "dotdot_loop m path (int (length ?A + length s)) 0 ?t dm = dotdot_loop m path (int (length ?A)) 0 (?t - length s) (blit dm (?t - length s) s)"
      using dotdot_loop_copy [OF _ hit at push cp] by simp
    moreover have "dotdot_loop m path (int (length ?A)) 0 (?t - length s) (blit dm (?t - length s) s) =
        Some (int k, ?t - length s - length o1, blit (blit dm (?t - length s) s) (?t - length s - length o1) o1)"
      using loop [OF small P', of 0 k o1 "?t - length s" "blit dm (?t - length s) s"] r lts l sz(1) by simp
    moreover have "blit (blit dm (?t - length s) s) (?t - length s - length o1) o1 = blit dm (?t - length (o1 @ s)) (o1 @ s)"
      using blit_front [of o1 s ?t dm] l sz(1) by simp
    moreover have "?t - length s - length o1 = ?t - length (o1 @ s)" by simp
    ultimately show ?thesis using False o by (intro exI [of _ k] exI [of _ "o1 @ s"]) simp
  qed
  then obtain k o1 where k: "dotdot_loop m path (int (length ?A + length s) - (if s = DOTS then 2 else 0)) (if s = DOTS then 1 else 0) ?t dm =
      Some (int k, ?t - length o1, blit dm (?t - length o1) o1)" "out = dots_final full (k, o1)" by blast
  have fin: "length (dots_final full (k, o1)) \<le> ?t" using fit k(2) by (simp add: out_def)
  note finish = dotdot_finish [OF fin sz(1), folded k(2)]
  have tl: "?t - (?t - length out) = length out" using fin k(2) by simp
  define o0 where "o0 = int (length ?A + length s)"
  define b where "b \<longleftrightarrow> s = DOTS"
  show ?thesis
    using tl finish k(1) [folded o0_def b_def] off [folded o0_def] dots [folded o0_def b_def] sz(3)
    by (cases b) (simp_all add: uri_normalizer_path_dotdot_def istclear_def istlen_def istptr_def up_incr_def)
qed

section \<open>Queries\<close>

fun delim_join :: "byte \<Rightarrow> bytes list \<Rightarrow> bytes" where
  "delim_join d [] = []"
| "delim_join d (x # xs) = x @ concat (map (Cons d) xs)"

abbreviation param_name :: "bytes \<Rightarrow> bytes" where
  "param_name \<equiv> takeWhile (\<lambda>c. c \<noteq> 61)"

lemma delim_join_length: "length (delim_join d xs) = sum_list (map length xs) + (length xs - 1)"
proof (cases xs)
  case (Cons x ys)
  have "length (concat (map (Cons d) ys)) = sum_list (map length ys) + length ys" by (induction ys) simp_all
  then show ?thesis using Cons by simp
qed simp

lemma delim_join_pieces: "length (delim_join d (map fst (pieces d xs))) \<le> length xs"
proof (induction d xs rule: pieces.induct)
  case (1 d xs)
  show ?case
  proof (cases "xs = []")
    case False
    let ?t = "takeWhile (\<lambda>c. c \<noteq> d) xs" and ?r = "drop 1 (dropWhile (\<lambda>c. c \<noteq> d) xs)"
    have p: "pieces d xs = (?t, d \<in> set xs) # pieces d ?r" by (rule pieces_Cons [OF False])
    have c: "length xs = length ?t + (if d \<in> set xs then 1 else 0) + length ?r" by (rule cut_length)
    show ?thesis
    proof (cases "?r = []")
      case True
      then show ?thesis using p c by (simp add: delim_join_length del: drop_Suc)
    next
      case r: False
      have d: "d \<in> set xs"
      proof (rule ccontr)
        assume "d \<notin> set xs"
        then have "dropWhile (\<lambda>c. c \<noteq> d) xs = []" unfolding dropWhile_eq_Nil_conv by blast
        then show False using r by (simp only: drop_Nil)
      qed
      obtain y ys where y: "pieces d ?r = y # ys" using pieces_Cons [OF r, of d] by blast
      have "length (delim_join d (map fst (pieces d ?r))) \<le> length ?r" by (rule 1 [OF False])
      then show ?thesis using c d unfolding p delim_join_length y by simp
    qed
  qed simp
qed

text \<open>The cells that hold the parameters: they start one after the other.\<close>

lemma query_params_eq:
  assumes "ist_wf m s" and "ist_len s < 4611686018427387904"
  shows "\<exists>ps. query_params m d mx acc s =
      Some (if length acc + length (pieces d (ist_str m s)) \<le> mx \<or> pieces d (ist_str m s) = [] then Some (acc @ ps) else None) \<and>
    (\<forall>p\<in>set ps. ist_wf m p \<and> ist_len p \<le> ist_len s) \<and> map (ist_str m) ps = map fst (pieces d (ist_str m s)) \<and>
    sorted_wrt (\<lambda>a b. ptr_less (ist_ptr a) (ist_ptr b)) ps \<and>
    (\<forall>p\<in>set ps. \<not> ptr_less (ist_ptr p) (ist_ptr s) \<and> ist_ptr p \<noteq> None)"
  using assms
proof (induction "ist_len s" arbitrary: s acc rule: less_induct)
  case less
  note IH = less(1) and wf = less(2) and small = less(3)
  show ?case
  proof (cases "ist_len s = 0")
    case True
    then show ?thesis using wf by (subst query_params.simps) (simp add: istlen_def)
  next
    case False
    obtain a r where ar: "istsplit m s d = Some (a, r)" "ist_wf m a" "ist_wf m r"
      "ist_str m a = takeWhile (\<lambda>c. c \<noteq> d) (ist_str m s)"
      "ist_str m r = drop 1 (dropWhile (\<lambda>c. c \<noteq> d) (ist_str m s))"
      "ist_ptr a = ist_ptr s" "ist_len r < ist_len s" "ptr_less (ist_ptr s) (ist_ptr r)"
      by (rule istsplit_cut [OF wf, of d]) (use small False in auto)
    have len: "length (ist_str m s) = ist_len s" "length (ist_str m a) = ist_len a" using wf ar(2) by simp_all
    have la: "ist_len a \<le> ist_len s"
      using length_takeWhile_le [of "\<lambda>c. c \<noteq> d" "ist_str m s"] unfolding ar(4) [symmetric] len .
    have ne: "ist_str m s \<noteq> []" using len(1) False by auto
    have p: "pieces d (ist_str m s) = (ist_str m a, d \<in> set (ist_str m s)) # pieces d (ist_str m r)"
      unfolding ar(4,5) by (rule pieces_Cons [OF ne])
    have ptrs: "ist_ptr s \<noteq> None" using wf False by (cases "ist_ptr s") auto
    have small': "ist_len r < 4611686018427387904" using small ar(7) by linarith
    obtain ps where ps: "query_params m d mx (acc @ [a]) r =
      Some (if length (acc @ [a]) + length (pieces d (ist_str m r)) \<le> mx \<or> pieces d (ist_str m r) = [] then Some ((acc @ [a]) @ ps) else None)"
      "\<forall>p\<in>set ps. ist_wf m p \<and> ist_len p \<le> ist_len r" "map (ist_str m) ps = map fst (pieces d (ist_str m r))"
      "sorted_wrt (\<lambda>a b. ptr_less (ist_ptr a) (ist_ptr b)) ps"
      "\<forall>p\<in>set ps. \<not> ptr_less (ist_ptr p) (ist_ptr r) \<and> ist_ptr p \<noteq> None"
      using IH [OF ar(7,3) small', of "acc @ [a]"] by blast
    have run: "query_params m d mx acc s = Some (if length acc + length (pieces d (ist_str m s)) \<le> mx then Some (acc @ a # ps) else None)"
    proof (cases "length acc + 1 > mx")
      case True
      then show ?thesis using False ar(1) by (subst query_params.simps) (simp add: istlen_def p)
    next
      case fit: False
      then have "query_params m d mx acc s = query_params m d mx (acc @ [a]) r"
        using False ar(1) by (subst query_params.simps) (simp add: istlen_def)
      then show ?thesis using ps(1) fit by (auto simp: p)
    qed
    have tr: "ptr_less x z" if "ptr_less x y" "\<not> ptr_less z y" "z \<noteq> None" for x y z
      using that by (cases x; cases y; cases z) auto
    have tr': "\<not> ptr_less z x" if "ptr_less x y" "\<not> ptr_less z y" for x y z
      using that by (cases x; cases y; cases z) auto
    have irr: "\<not> ptr_less x x" for x by (cases x) auto
    have "sorted_wrt (\<lambda>a b. ptr_less (ist_ptr a) (ist_ptr b)) (a # ps)"
      using ps(4,5) tr [OF ar(8)] by (simp add: ar(6))
    moreover have "\<forall>p\<in>set (a # ps). \<not> ptr_less (ist_ptr p) (ist_ptr s) \<and> ist_ptr p \<noteq> None"
      using ps(5) ptrs tr' [OF ar(8)] irr by (simp add: ar(6))
    moreover have "\<forall>p\<in>set (a # ps). ist_wf m p \<and> ist_len p \<le> ist_len s" using ps(2) ar(2,7) la by auto
    moreover have "map (ist_str m) (a # ps) = map fst (pieces d (ist_str m s))" using ps(3) p by simp
    ultimately show ?thesis using run p by (intro exI [of _ "a # ps"]) simp
  qed
qed

section \<open>Sorting\<close>

lemma query_param_cmp_le:
  assumes "ist_wf m a" "ist_wf m b" "ist_len b < 2147483648" "ptr_less (ist_ptr a) (ist_ptr b)"
  shows "\<exists>r. query_param_cmp m a b = Some r \<and> (r \<le> 0 \<longleftrightarrow> param_name (ist_str m a) \<le> param_name (ist_str m b))"
proof -
  let ?k = "\<lambda>x. length (param_name (ist_str m x))"
  have k: "?k x \<le> ist_len x" "ist_at m (ist_ptr x) (?k x) = param_name (ist_str m x)" "ist_ok m (ist_ptr x) (?k x)" if "ist_wf m x" for x
  proof -
    have "length (ist_str m x) = ist_len x" using that by simp
    then show l: "?k x \<le> ist_len x" using length_takeWhile_le [of "\<lambda>c. c \<noteq> 61" "ist_str m x"] by simp
    show "ist_at m (ist_ptr x) (?k x) = param_name (ist_str m x)"
      unfolding ist_at_le [OF l] by (rule takeWhile_eq_take [symmetric])
    show "ist_ok m (ist_ptr x) (?k x)" by (rule ist_ok_le [OF that l])
  qed
  obtain r where r: "istdiff m m (ist2 (ist_ptr a) (?k a)) (ist2 (ist_ptr b) (?k b)) = Some r"
    "r < 0 \<longleftrightarrow> ord_class.lexordp (param_name (ist_str m a)) (param_name (ist_str m b))"
    "r = 0 \<longleftrightarrow> param_name (ist_str m a) = param_name (ist_str m b)"
    using istdiff_loop_sign [OF k(3) [OF assms(1)] k(3) [OF assms(2)]] k [OF assms(1)] k [OF assms(2)] assms(3)
    by (auto simp: istdiff_def)
  have "r < 0 \<longleftrightarrow> param_name (ist_str m a) < param_name (ist_str m b)"
    unfolding r(2) lexordp_conv_lexord list_less_def ..
  then show ?thesis
    using r(1,3) iststop_eq [OF assms(1), of 61] iststop_eq [OF assms(2), of 61] assms(4)
    by (auto simp: query_param_cmp_def istptr_def le_less)
qed

lemma qsort_insert_eq:
  "\<lbrakk> ist_wf m x; \<forall>y\<in>set ys. ist_wf m y \<and> ist_len y < 2147483648 \<and> ptr_less (ist_ptr x) (ist_ptr y) \<rbrakk> \<Longrightarrow>
   \<exists>zs. qsort_insert (query_param_cmp m) x ys = Some zs \<and> set zs = insert x (set ys) \<and>
     map (ist_str m) zs = insort_key param_name (ist_str m x) (map (ist_str m) ys)"
proof (induction ys)
  case (Cons y ys)
  obtain r where r: "query_param_cmp m x y = Some r" "r \<le> 0 \<longleftrightarrow> param_name (ist_str m x) \<le> param_name (ist_str m y)"
    using query_param_cmp_le [of m x y] Cons.prems by auto
  obtain zs where "qsort_insert (query_param_cmp m) x ys = Some zs" "set zs = insert x (set ys)"
     "map (ist_str m) zs = insort_key param_name (ist_str m x) (map (ist_str m) ys)"
    using Cons by auto
  then show ?case using r by (cases "r \<le> 0") auto
qed simp

lemma qsort_eq:
  "\<lbrakk> \<forall>y\<in>set ys. ist_wf m y \<and> ist_len y < 2147483648; sorted_wrt (\<lambda>a b. ptr_less (ist_ptr a) (ist_ptr b)) ys \<rbrakk> \<Longrightarrow>
   \<exists>zs. qsort (query_param_cmp m) ys = Some zs \<and> set zs = set ys \<and>
     map (ist_str m) zs = sort_key param_name (map (ist_str m) ys)"
proof (induction ys)
  case (Cons y ys)
  then obtain zs where zs: "qsort (query_param_cmp m) ys = Some zs" "set zs = set ys"
     "map (ist_str m) zs = sort_key param_name (map (ist_str m) ys)" by auto
  then show ?case using qsort_insert_eq [of m y zs] Cons.prems by (auto simp: sort_key_def)
qed (simp add: sort_key_def)

lemma query_join_eq:
  "\<lbrakk> \<forall>y\<in>set ys. ist_wf m y; q + sz \<le> length dm; sz < 4611686018427387904;
     length out + length (if i = 0 then delim_join d (map (ist_str m) ys) else concat (map (Cons d) (map (ist_str m) ys))) \<le> sz \<rbrakk> \<Longrightarrow>
   query_join m d sz i (ist2 (Some q) (length out)) (blit dm q out) ys =
   Some (uri_done dm q (out @ (if i = 0 then delim_join d (map (ist_str m) ys) else concat (map (Cons d) (map (ist_str m) ys)))))"
proof (induction ys arbitrary: i out)
  case Nil
  then show ?case by (simp add: uri_done_def)
next
  case (Cons y ys)
  let ?o = "if i = 0 then out else out @ [d]" and ?Y = "ist_str m y"
  have wf: "ist_wf m y" and ly: "length ?Y = ist_len y" using Cons.prems(1) by simp_all
  have fit: "length (?o @ ?Y) + length (concat (map (Cons d) (map (ist_str m) ys))) \<le> sz" using Cons.prems(4) by (auto split: if_splits)
  have app: "(if i > 0 then raw_istappend (blit dm q out) (ist2 (Some q) (length out)) d
      else Some (ist2 (Some q) (length out), blit dm q out)) = Some (ist2 (Some q) (length ?o), blit dm q ?o)"
    using append_built [of q out dm d] fit Cons.prems(2,3) by auto
  have le: "length ?o + ist_len y \<le> sz" using fit ly by simp
  moreover have "take sz (?o @ ?Y) = ?o @ ?Y" using fit by simp
  moreover have "istcat m (blit dm q ?o) (ist2 (Some q) (length ?o)) y sz =
    Some (if length ?o + ist_len y \<le> sz then int (length ?o + ist_len y) else -1,
      ist2 (Some q) (length (take sz (?o @ ?Y))), blit dm q (take sz (?o @ ?Y)))"
    using le Cons.prems(2,3) by (intro istcat_built [OF wf]) linarith+
  ultimately have cat: "istcat m (blit dm q ?o) (ist2 (Some q) (length ?o)) y sz =
    Some (int (length ?o + ist_len y), ist2 (Some q) (length (?o @ ?Y)), blit dm q (?o @ ?Y))" by simp
  have "query_join m d sz (i + 1) (ist2 (Some q) (length (?o @ ?Y))) (blit dm q (?o @ ?Y)) ys =
      Some (uri_done dm q ((?o @ ?Y) @ concat (map (Cons d) (map (ist_str m) ys))))"
    using Cons.IH [of "?o @ ?Y" "i + 1"] Cons.prems(1-3) fit by simp
  then show ?case using app cat by (simp add: add.commute split: if_splits)
qed

definition query_sorted :: "byte \<Rightarrow> bytes \<Rightarrow> bytes" where
  "query_sorted d xs = delim_join d (sort_key param_name (map fst (pieces d xs)))"

lemma query_sorted_length: "length (query_sorted d xs) \<le> length xs"
proof -
  have "mset (map length (sort_key param_name (map fst (pieces d xs)))) = mset (map length (map fst (pieces d xs)))"
    by (simp only: mset_map mset_sort)
  then have "sum_list (map length (sort_key param_name (map fst (pieces d xs)))) = sum_list (map length (map fst (pieces d xs)))"
    by (metis sum_mset_sum_list)
  then show ?thesis using delim_join_pieces [of d xs] unfolding query_sorted_def delim_join_length by simp
qed

lemma uri_query_sort_eq:
  assumes wf: "ist_wf m query" and str: "ist_str m query = c # xs" and sz: "q + sz \<le> length dm" "sz < 2147483648"
  shows "\<exists>err o' dm'. uri_normalizer_query_sort trash m query d (ist2 (Some q) sz) dm = Some (err, o', dm') \<and>
    (if sz < ist_len query then err = URI_NORMALIZER_ERR_ALLOC \<and> dm' = dm
     else if pieces d xs \<noteq> [] \<and> trash div 16 < length (pieces d xs) then err = URI_NORMALIZER_ERR_ALLOC
     else (err, o', dm') = uri_done dm q (c # query_sorted d xs))"
proof (cases "sz < ist_len query")
  case True
  then show ?thesis by (simp add: uri_normalizer_query_sort_def istclear_def istlen_def)
next
  case False
  have "length (ist_str m query) = ist_len query" using wf by simp
  then have L: "ist_len query = Suc (length xs)" unfolding str by simp
  have "0 < ist_len query" unfolding L by simp
  then obtain c' s where s': "istshift m query = Some (c', s)" "ist_wf m s" "ist_str m query = c' # ist_str m s"
    "ist_len query = Suc (ist_len s)" using istshift_cut [OF wf] by blast
  then have s: "istshift m query = Some (c, s)" "ist_wf m s" "ist_str m s = xs" "ist_len query = Suc (ist_len s)"
    unfolding str by simp_all
  have app: "raw_istappend dm (ist2 (Some q) 0) c = Some (ist2 (Some q) 1, blit dm q [c])"
    using append_built [of q "[]" dm c] sz(1) False L by simp
  have "ist_len s < 4611686018427387904" using False s(4) sz(2) by simp
  from query_params_eq [OF s(2) this, of d "trash div 16" "[]"]
  obtain ps where ps: "query_params m d (trash div 16) [] s =
      Some (if length (pieces d xs) \<le> trash div 16 \<or> pieces d xs = [] then Some ps else None)"
    "\<forall>p\<in>set ps. ist_wf m p \<and> ist_len p \<le> ist_len s" "map (ist_str m) ps = map fst (pieces d xs)"
    "sorted_wrt (\<lambda>a b. ptr_less (ist_ptr a) (ist_ptr b)) ps" unfolding s(3) by auto
  show ?thesis
  proof (cases "length (pieces d xs) \<le> trash div 16 \<or> pieces d xs = []")
    case many: False
    then show ?thesis using s(1) app ps(1) False
      by (auto simp: uri_normalizer_query_sort_def istclear_def istlen_def SIZEOF_IST_def)
  next
    case few: True
    have "ist_len s < 2147483648" using False s(4) sz(2) by linarith
    then have wfs: "\<forall>p\<in>set ps. ist_wf m p \<and> ist_len p < 2147483648" using ps(2) by (meson le_less_trans)
    obtain zs where zs: "qsort (query_param_cmp m) ps = Some zs" "set zs = set ps"
      "map (ist_str m) zs = sort_key param_name (map fst (pieces d xs))"
      using qsort_eq [OF wfs ps(4)] unfolding ps(3) by (elim exE conjE)
    have j: "delim_join d (map (ist_str m) zs) = query_sorted d xs" unfolding zs(3) query_sorted_def ..
    have "query_join m d sz 0 (ist2 (Some q) (length [c])) (blit dm q [c]) zs =
        Some (uri_done dm q ([c] @ query_sorted d xs))"
      using query_join_eq [of zs m q sz dm "[c]" 0 d, unfolded j] ps(2) zs(2) sz query_sorted_length [of d xs] False L by simp
    then have run: "uri_normalizer_query_sort trash m query d (ist2 (Some q) sz) dm = Some (uri_done dm q (c # query_sorted d xs))"
      using s(1) app ps(1) few zs(1) False by (simp add: uri_normalizer_query_sort_def istclear_def istlen_def SIZEOF_IST_def)
    have "\<not> (pieces d xs \<noteq> [] \<and> trash div 16 < length (pieces d xs))" using few by auto
    then show ?thesis using run False by (cases "uri_done dm q (c # query_sorted d xs)") auto
  qed
qed

lemma pieces_snoc: "d \<notin> set t \<Longrightarrow> pieces d (t @ d # r) = (t, True) # pieces d r"
  by (subst pieces_Cons) (auto simp: takeWhile_append dropWhile_append)

lemma pieces_last: "d \<notin> set t \<Longrightarrow> t \<noteq> [] \<Longrightarrow> pieces d t = [(t, False)]"
proof -
  assume d: "d \<notin> set t" "t \<noteq> []"
  then have w: "dropWhile (\<lambda>c. c \<noteq> d) t = []" "takeWhile (\<lambda>c. c \<noteq> d) t = t"
    unfolding dropWhile_eq_Nil_conv takeWhile_eq_all_conv by blast+
  show ?thesis using pieces_Cons [OF d(2), of d] d(1) unfolding w by simp
qed

lemma pieces_cases:
  obtains "xs = []" | "xs \<noteq> []" "d \<notin> set xs" | t r where "xs = t @ d # r" "d \<notin> set t"
  by (metis split_list_first)

lemma pieces_dot_removed: "pieces 47 (dot_removed xs) = filter (\<lambda>p. fst p \<noteq> cstr ''.'') (pieces 47 xs)"
proof (induction "length xs" arbitrary: xs rule: less_induct)
  case less
  show ?case
  proof (cases rule: pieces_cases [where xs = xs and d = 47])
    case 2
    then show ?thesis by (simp add: dot_removed_def pieces_last)
  next
    case (3 t r)
    then have "dot_removed xs = (if t = cstr ''.'' then [] else t @ [47]) @ dot_removed r"
      by (simp add: dot_removed_def pieces_snoc)
    then show ?thesis using 3 less [of r] by (simp add: pieces_snoc)
  qed (simp add: dot_removed_def)
qed

lemma dot_removed_idem: "dot_removed (dot_removed xs) = dot_removed xs"
proof -
  have "concat (map (\<lambda>(s, b). if s = cstr ''.'' then [] else s @ (if b then [47] else [])) (filter (\<lambda>p. fst p \<noteq> cstr ''.'') ps))
      = concat (map (\<lambda>(s, b). if s = cstr ''.'' then [] else s @ (if b then [47] else [])) ps)" for ps :: "(bytes \<times> bool) list"
    by (induction ps) auto
  then show ?thesis unfolding dot_removed_def [of "dot_removed xs"] pieces_dot_removed by (simp only: dot_removed_def)
qed

lemma slashes_merged_hd: "\<exists>ys. slashes_merged (b # xs) = b # ys"
  by (induction xs arbitrary: b) auto

lemma slashes_merged_idem:
  "slashes_merged (slashes_merged xs) = slashes_merged xs \<and> successively (\<lambda>a b. \<not> (a = 47 \<and> b = 47)) (slashes_merged xs)"
proof (induction xs rule: slashes_merged.induct)
  case (1 a b xs)
  obtain ys where "slashes_merged (b # xs) = b # ys" using slashes_merged_hd by blast
  then show ?case using 1 by auto
qed auto

section \<open>Properties of the other normalisers\<close>

text \<open>C31. \<^verbatim>\<open>uri_normalizer_fragment_encode\<close> returns for every input and every destination: the result is the
  input with every \<^verbatim>\<open>#\<close> replaced by \<^verbatim>\<open>%23\<close> when that fits, and the allocation error with a cleared
  destination exactly when it does not; nothing outside of the destination object is needed.\<close>

theorem uri_fragment_encodes:
  assumes "ist_ok m (ist_ptr s) (ist_len s)" and "q + sz \<le> length dm" and "sz < 4611686018427387904"
    and "ist_len s < 4611686018427387904"
  shows "\<exists>err o' dm'. uri_normalizer_fragment_encode m s (ist2 (Some q) sz) dm = Some (err, o', dm') \<and> length dm' = length dm \<and>
    (if length (fragment_enc (ist_str m s)) \<le> sz then (err, o', dm') = uri_done dm q (fragment_enc (ist_str m s))
     else err = URI_NORMALIZER_ERR_ALLOC \<and> o' = ist2 (Some q) 0)"
proof -
  obtain err o' dm' where r: "uri_fragment_loop m sz (ist2 (Some q) 0) dm s = Some (err, o', dm')" "length dm' = length dm"
    "if length (fragment_enc (ist_str m s)) \<le> sz then (err, o', dm') = uri_done dm q (fragment_enc (ist_str m s))
     else err = URI_NORMALIZER_ERR_ALLOC"
    using uri_fragment_loop_eq [OF assms, of "[]"] by (auto simp: uri_fits_def)
  then show ?thesis
    by (cases "length (fragment_enc (ist_str m s)) \<le> sz")
       (auto simp: uri_normalizer_fragment_encode_def istclear_def uri_finish_def uri_done_def)
qed

theorem uri_fragment_encodes_witness:
  "\<exists>err o' dm'. uri_normalizer_fragment_encode (cstr ''a#b'') (ist2 (Some 0) 3) (ist2 (Some 0) 4) [0, 0, 0, 0] = Some (err, o', dm') \<and>
     err = URI_NORMALIZER_ERR_ALLOC"
  using uri_fragment_encodes [of "cstr ''a#b''" "ist2 (Some 0) 3" 0 4 "[0, 0, 0, 0]"]
  by (auto simp: fragment_enc_def cstr_def)

text \<open>\<^verbatim>\<open>uri_normalizer_path_dot\<close> removes the segments that are a single dot, with the slash that follows
  them, and nothing else: no such segment is left, the path does not grow, and a second pass changes
  nothing.\<close>

theorem uri_path_dot_removes:
  assumes "ist_ok m (ist_ptr path) (ist_len path)" and "q + sz \<le> length dm" and "sz < 4611686018427387904"
    and "ist_len path \<le> sz"
  shows "uri_normalizer_path_dot m path (ist2 (Some q) sz) dm = Some (uri_done dm q (dot_removed (ist_str m path)))
    \<and> length (dot_removed (ist_str m path)) \<le> ist_len path
    \<and> cstr ''.'' \<notin> set (map fst (pieces 47 (dot_removed (ist_str m path))))
    \<and> dot_removed (dot_removed (ist_str m path)) = dot_removed (ist_str m path)"
proof -
  have "length (ist_str m path) = ist_len path" using assms(1) by simp
  then have "length (dot_removed (ist_str m path)) \<le> ist_len path" using dot_removed_length [of "ist_str m path"] by simp
  moreover have "uri_dot_loop m sz (ist2 (Some q) 0) dm path = Some (uri_done dm q (dot_removed (ist_str m path)))"
    using uri_dot_loop_eq [OF assms(1-3), of "[]"] assms(4) by simp
  ultimately show ?thesis using assms(4)
    by (auto simp: uri_normalizer_path_dot_def istclear_def istlen_def pieces_dot_removed dot_removed_idem)
qed

theorem uri_path_dot_removes_witness:
  "\<exists>out. uri_normalizer_path_dot (cstr ''/./a/.'') (ist2 (Some 0) 6) (ist2 (Some 0) 6) [0,0,0,0,0,0] = Some (uri_done [0,0,0,0,0,0] 0 out)
     \<and> length out \<le> 6"
  using uri_path_dot_removes [of "cstr ''/./a/.''" "ist2 (Some 0) 6" 0 6 "[0,0,0,0,0,0]"] by auto

text \<open>C27. \<^verbatim>\<open>uri_normalizer_path_dotdot\<close>, which scans an absolute path from its end with a counter, computes
  the same path as the reference that resolves the segments from left to right on a stack; the double
  dots that find the stack empty are kept in front, or dropped when \<open>full\<close>. The result is at the end
  of the destination and inside of it, and a second pass changes nothing. Unless \<open>full\<close>, the
  destination has to be one byte larger than the path.\<close>

theorem uri_path_dotdot_resolves:
  assumes "ist_ok m (ist_ptr path) (ist_len path)" and "ist_str m path = slash_join ss" and "ss \<noteq> []" and "\<forall>s\<in>set ss. 47 \<notin> set s"
    and "q + sz \<le> length dm" and "ist_len path < 2147483648" and "ist_len path + (if full then 0 else 1) \<le> sz"
  shows "\<exists>out. uri_normalizer_path_dotdot m path full (ist2 (Some q) sz) dm =
      Some (URI_NORMALIZER_ERR_NONE, ist2 (Some (q + sz - length out)) (length out), blit dm (q + sz - length out) out) \<and>
    out = slash_join (dotdot_segments full ss) \<and> length out \<le> sz \<and>
    dotdot_segments full (dotdot_segments full ss) = dotdot_segments full ss"
proof -
  obtain ts s where ss: "ss = ts @ [s]" using assms(3) by (metis rev_exhaust)
  have "length (ist_str m path) = ist_len path" using assms(1) by simp
  then have "length (slash_join (dotdot_segments full ss)) \<le> sz"
    using dotdot_segments_length [of full ts s] assms(7) unfolding ss assms(2) by simp
  then show ?thesis
    using uri_path_dotdot_eq [OF assms(1) assms(2,4) [unfolded ss] assms(5,6), of full] assms(7) dotdot_segments_idem
    unfolding ss by (auto split: if_splits)
qed

theorem uri_path_dotdot_resolves_witness:
  "dotdot_segments True [cstr ''a'', DOTS, DOTS, cstr ''b''] = [cstr ''b''] \<and>
   (\<exists>d m. uri_normalizer_path_dotdot (cstr ''/a/../../b'') (ist2 (Some 0) 10) True (ist2 (Some 0) 10) [0,0,0,0,0,0,0,0,0,0]
      = Some (URI_NORMALIZER_ERR_NONE, d, m))"
  using uri_path_dotdot_resolves [of "cstr ''/a/../../b''" "ist2 (Some 0) 10" "[cstr ''a'', DOTS, DOTS, cstr ''b'']" 0 10 "[0,0,0,0,0,0,0,0,0,0]" True]
  by (simp add: cstr_def DOTS_def slash_join_def dotdot_segments_def dots_resolve_def)

lemma dots_run_strict:
  assumes "dots_run k rs = (k', out)" and "0 < k" and "\<exists>s\<in>set rs. s \<noteq> DOTS"
  shows "3 * k' + length out + (if k' > 0 then 1 else 0) \<le> 3 * k + length (slash_join (rev rs))"
  using assms
proof (induction rs arbitrary: k k' out)
  case (Cons s rs)
  show ?case
  proof (cases "s = DOTS")
    case True
    then show ?thesis using Cons.IH [of "k + 1" k' out] Cons.prems by (auto simp: DOTS_def)
  next
    case False
    obtain j where j: "k = Suc j" using Cons.prems(2) by (cases k) auto
    then have "dots_run j rs = (k', out)" using False Cons.prems(1) by simp
    from dots_run_length [OF this] show ?thesis by (simp add: j)
  qed
qed simp

lemma dots_run_dots: "dots_run k (replicate n DOTS) = (k + n, if k + n = 0 then [47] else [])"
  by (induction n arbitrary: k) auto

lemma slash_join_dots: "length (slash_join (replicate n DOTS)) = 3 * n"
  by (induction n) (simp_all add: DOTS_def)

lemma DOTS_length: "length DOTS = 2"
  by (simp add: DOTS_def)

text \<open>The normalised path is longer than the path exactly when all the segments are double dots.\<close>

lemma dotdot_segments_longer:
  assumes "ss \<noteq> []"
  shows "length (slash_join (dotdot_segments False ss)) = length (slash_join ss) + (if set ss = {DOTS} then 1 else 0) \<or>
    length (slash_join (dotdot_segments False ss)) \<le> length (slash_join ss) \<and> set ss \<noteq> {DOTS}"
proof (cases "set ss = {DOTS}")
  case True
  obtain ts s where ss: "ss = ts @ [s]" using assms by (metis rev_exhaust)
  then have "s = DOTS" "\<forall>x\<in>set ts. x = DOTS" using True by auto
  then have "ss = replicate (length ts) DOTS @ [DOTS]" using replicate_length_same [of ts DOTS] ss by simp
  then obtain n where n: "ss = replicate n DOTS @ [DOTS]" by blast
  then show ?thesis
    using True slash_join_dots [of "Suc n"] dots_run_dots [of 1 n]
    by (simp add: dotdot_segments_run dots_final_def slash_join_dots DOTS_def)
next
  case False
  obtain ts s where ss: "ss = ts @ [s]" using assms by (metis rev_exhaust)
  have "length (slash_join (dotdot_segments False ss)) \<le> length (slash_join ss)"
  proof (cases "s = DOTS")
    case True
    obtain k out where r: "dots_run 1 (rev ts) = (k, out)" by fastforce
    have "\<exists>x\<in>set (rev ts). x \<noteq> DOTS" using False True by (auto simp: ss)
    from dots_run_strict [OF r _ this] show ?thesis
      using r True DOTS_length by (auto simp: ss dotdot_segments_run dots_final_def slash_join_dots)
  next
    case no: False
    obtain k out where r: "dots_run 0 (rev ts) = (k, out)" by fastforce
    from dots_run_length [OF this] show ?thesis
      using r no by (auto simp: ss dotdot_segments_run dots_final_def slash_join_dots)
  qed
  then show ?thesis using False by simp
qed

text \<open>C32. That additional byte is needed, although the code accepts a destination of the size of the path: for
  every absolute path, without \<open>full\<close> and with a destination of exactly that size that is preceded by at least one
  byte of its object, the result starts before the destination, one byte of which is then overwritten, if and
  only if all the segments of the path are double dots (\<^verbatim>\<open>/..\<close>, \<^verbatim>\<open>/../..\<close>, \<dots>).\<close>

theorem uri_path_dotdot_underflow:
  assumes "ist_ok m (ist_ptr path) (ist_len path)" and "ist_str m path = slash_join ss" and "ss \<noteq> []" and "\<forall>s\<in>set ss. 47 \<notin> set s"
    and "q + ist_len path \<le> length dm" and "ist_len path < 2147483648" and "0 < q"
  shows "\<exists>p n dm'. uri_normalizer_path_dotdot m path False (ist2 (Some q) (ist_len path)) dm =
      Some (URI_NORMALIZER_ERR_NONE, ist2 (Some p) n, dm') \<and> (p < q \<longleftrightarrow> set ss = {DOTS}) \<and>
      (set ss = {DOTS} \<longrightarrow> p = q - 1 \<and> dm' ! (q - 1) = 47)"
proof -
  obtain ts s where ss: "ss = ts @ [s]" using assms(3) by (metis rev_exhaust)
  let ?out = "slash_join (dotdot_segments False ss)"
  have len: "length (slash_join ss) = ist_len path" using assms(1) unfolding assms(2) [symmetric] by simp
  note l = dotdot_segments_longer [OF assms(3)]
  have run: "uri_normalizer_path_dotdot m path False (ist2 (Some q) (ist_len path)) dm =
      Some (URI_NORMALIZER_ERR_NONE, ist2 (Some (q + ist_len path - length ?out)) (length ?out),
        blit dm (q + ist_len path - length ?out) ?out)"
    using uri_path_dotdot_eq [OF assms(1) assms(2,4) [unfolded ss] assms(5,6), of False] l len assms(7)
    unfolding ss by (auto split: if_splits)
  have "?out \<noteq> [] \<and> hd ?out = 47"
    by (cases "dotdot_segments False ss") (auto simp: dotdot_segments_def split: if_splits)
  then obtain xs where xs: "?out = 47 # xs" by (cases ?out) auto
  have "set ss = {DOTS} \<longrightarrow> q + ist_len path - length ?out = q - 1 \<and> blit dm (q + ist_len path - length ?out) ?out ! (q - 1) = 47"
  proof
    assume "set ss = {DOTS}"
    then have o: "length ?out = ist_len path + 1" using l len by simp
    then show "q + ist_len path - length ?out = q - 1 \<and> blit dm (q + ist_len path - length ?out) ?out ! (q - 1) = 47"
      using assms(5,7) by (auto simp: nth_blit o) (simp_all add: xs)
  qed
  moreover have "q + ist_len path - length ?out < q \<longleftrightarrow> set ss = {DOTS}" using l len assms(7) by (auto split: if_splits)
  ultimately show ?thesis using run by blast
qed

theorem uri_path_dotdot_underflow_witness:
  "\<exists>p n dm'. uri_normalizer_path_dotdot (cstr ''/..'') (ist2 (Some 0) 3) False (ist2 (Some 1) 3) [120, 0, 0, 0] =
     Some (URI_NORMALIZER_ERR_NONE, ist2 (Some p) n, dm') \<and> p = 0 \<and> dm' ! 0 = 47"
  using uri_path_dotdot_underflow [of "cstr ''/..''" "ist2 (Some 0) 3" "[DOTS]" 1 "[120, 0, 0, 0]"]
  by (simp add: DOTS_def cstr_def)

text \<open>\<^verbatim>\<open>uri_normalizer_path_merge_slashes\<close> merges every run of slashes into one: no two adjacent slashes
  are left, and a second pass changes nothing.\<close>

theorem uri_merge_slashes_merges:
  assumes "ist_ok m (ist_ptr path) (ist_len path)" and "q + sz \<le> length dm" and "sz < 4611686018427387904"
    and "ist_len path \<le> sz"
  shows "uri_normalizer_path_merge_slashes m path (ist2 (Some q) sz) dm = Some (uri_done dm q (slashes_merged (ist_str m path)))
    \<and> slashes_merged (slashes_merged (ist_str m path)) = slashes_merged (ist_str m path)
    \<and> successively (\<lambda>a b. \<not> (a = 47 \<and> b = 47)) (slashes_merged (ist_str m path))"
  using uri_merge_loop_eq [OF assms(1-3), of "[]"] assms(4) slashes_merged_idem [of "ist_str m path"]
  by (simp add: uri_normalizer_path_merge_slashes_def istclear_def istlen_def)

theorem uri_merge_slashes_merges_witness:
  "uri_normalizer_path_merge_slashes (cstr ''//a///b'') (ist2 (Some 0) 7) (ist2 (Some 0) 7) [0,0,0,0,0,0,0]
     = Some (uri_done [0,0,0,0,0,0,0] 0 (cstr ''/a/b''))"
  using uri_merge_slashes_merges [of "cstr ''//a///b''" "ist2 (Some 0) 7" 0 7 "[0,0,0,0,0,0,0]"] by (simp add: cstr_def)

text \<open>C28. \<^verbatim>\<open>uri_normalizer_query_sort\<close> keeps the first character of the query and joins its parameters in the
  order of a stable sort by name. It fails exactly when the destination is smaller than the query or
  the trash chunk has no room for all the parameters.\<close>

theorem uri_query_sort_sorts:
  assumes "ist_ok m (ist_ptr query) (ist_len query)" and "ist_str m query = c # xs" and "q + sz \<le> length dm" and "sz < 2147483648"
  shows "\<exists>err o' dm'. uri_normalizer_query_sort trash m query d (ist2 (Some q) sz) dm = Some (err, o', dm') \<and>
    (if sz < ist_len query then err = URI_NORMALIZER_ERR_ALLOC \<and> dm' = dm
     else if pieces d xs \<noteq> [] \<and> trash div 16 < length (pieces d xs) then err = URI_NORMALIZER_ERR_ALLOC
     else (err, o', dm') = uri_done dm q (c # delim_join d (sort_key param_name (map fst (pieces d xs)))))"
  using uri_query_sort_eq [OF assms] by (simp only: query_sorted_def)

theorem uri_query_sort_sorts_witness:
  "\<exists>dm'. uri_normalizer_query_sort 64 (cstr ''?b=1&a=2'') (ist2 (Some 0) 8) 38 (ist2 (Some 0) 8) [0,0,0,0,0,0,0,0]
     = Some (URI_NORMALIZER_ERR_NONE, ist2 (Some 0) 8, dm') \<and> dm' = cstr ''?a=2&b=1''"
  using uri_query_sort_sorts [of "cstr ''?b=1&a=2''" "ist2 (Some 0) 8" "63" "cstr ''b=1&a=2''" 0 8 "[0,0,0,0,0,0,0,0]" 64 38]
  by (simp add: cstr_def uri_done_def pieces.simps blit_def list_less_def list_le_def)

end
