(* ===== verification/Base64.thy ===== *)
theory Base64
  imports Interfaces "HOL-Library.Signed_Division"
begin

unbundle bit_operations_syntax

text \<open>
  Base64: \<^verbatim>\<open>src/base64.c\<close>, in the standard alphabet with padding, in the alphabet of URLs without
  padding, and in the unpadded five characters that encode 30 bits. The input is read in the memory
  object \<open>m\<close> from the offset \<open>p\<close>, the output is written in another object \<open>dm\<close> from the offset \<open>q\<close>.
  An \<^verbatim>\<open>int\<close> that overflows is \<open>None\<close>.
\<close>

section \<open>Tables\<close>

definition base64tab :: bytes where
  "base64tab = cstr ''ABCDEFGHIJKLMNOPQRSTUVWXYZabcdefghijklmnopqrstuvwxyz0123456789+/'' @ [0]"

definition base64rev :: bytes where
  "base64rev = [
    98, 35, 35, 35, 99, 88, 89, 90, 91, 92, 93, 94, 95, 96, 97, 35, 35, 35, 100, 35,
    35, 35, 36, 37, 38, 39, 40, 41, 42, 43, 44, 45, 46, 47, 48, 49, 50, 51, 52, 53,
    54, 55, 56, 57, 58, 59, 60, 61, 35, 35, 35, 35, 35, 35, 62, 63, 64, 65, 66, 67,
    68, 69, 70, 71, 72, 73, 74, 75, 76, 77, 78, 79, 80, 81, 82, 83, 84, 85, 86, 87,
    0]"

definition ubase64tab :: bytes where
  "ubase64tab = cstr ''ABCDEFGHIJKLMNOPQRSTUVWXYZabcdefghijklmnopqrstuvwxyz0123456789-_'' @ [0]"

definition ubase64rev :: bytes where
  "ubase64rev = [
    98, 35, 35, 88, 89, 90, 91, 92, 93, 94, 95, 96, 97, 35, 35, 35, 99, 35, 35, 35,
    36, 37, 38, 39, 40, 41, 42, 43, 44, 45, 46, 47, 48, 49, 50, 51, 52, 53, 54, 55,
    56, 57, 58, 59, 60, 61, 35, 35, 35, 35, 99, 35, 62, 63, 64, 65, 66, 67, 68, 69,
    70, 71, 72, 73, 74, 75, 76, 77, 78, 79, 80, 81, 82, 83, 84, 85, 86, 87, 0]"

definition B64BASE :: int where
  "B64BASE = 35"

definition B64CMIN :: int where
  "B64CMIN = 43"

definition UB64CMIN :: int where
  "UB64CMIN = 45"

definition B64CMAX :: int where
  "B64CMAX = 122"

definition B64PADV :: int where
  "B64PADV = 64"

definition int32 :: "int \<Rightarrow> int option" where
  "int32 i = (if - 2147483648 \<le> i \<and> i < 2147483648 then Some i else None)"

section \<open>Encoding\<close>

text \<open>The four indices of a group of three bytes.\<close>

definition b64_idx0 :: "byte \<Rightarrow> nat" where
  "b64_idx0 a = unat (drop_bit 2 a)"

definition b64_idx1 :: "byte \<Rightarrow> byte \<Rightarrow> nat" where
  "b64_idx1 a b = unat (push_bit 4 (a AND 3) OR drop_bit 4 b)"

definition b64_idx2 :: "byte \<Rightarrow> byte \<Rightarrow> nat" where
  "b64_idx2 b c = unat (push_bit 2 (b AND 15) OR drop_bit 6 c)"

definition b64_idx3 :: "byte \<Rightarrow> nat" where
  "b64_idx3 c = unat (c AND 63)"

text \<open>The loop over the complete groups, which both encoders share; it returns the input pointer,
  the number of bytes left, the output pointer and the memory.\<close>

function b64_enc_loop :: "bytes \<Rightarrow> bytes \<Rightarrow> nat \<Rightarrow> int \<Rightarrow> nat \<Rightarrow> bytes \<Rightarrow> (nat \<times> int \<times> nat \<times> bytes) option" where
  "b64_enc_loop tab m p ilen q dm =
     (if ilen \<ge> 3 then do {
        a \<leftarrow> ld m p;
        b \<leftarrow> ld m (p + 1);
        c \<leftarrow> ld m (p + 2);
        dm \<leftarrow> st dm q (tab ! b64_idx0 a);
        dm \<leftarrow> st dm (q + 1) (tab ! b64_idx1 a b);
        dm \<leftarrow> st dm (q + 2) (tab ! b64_idx2 b c);
        dm \<leftarrow> st dm (q + 3) (tab ! b64_idx3 c);
        b64_enc_loop tab m (p + 3) (ilen - 3) (q + 4) dm
      } else Some (p, ilen, q, dm))"
  by pat_completeness auto
termination by (relation "measure (\<lambda>(tab, m, p, ilen, q, dm). nat ilen)") auto

declare b64_enc_loop.simps [simp del]

definition a2base64 :: "bytes \<Rightarrow> nat \<Rightarrow> int \<Rightarrow> bytes \<Rightarrow> nat \<Rightarrow> int \<Rightarrow> (int \<times> bytes) option" where
  "a2base64 m p ilen dm q olen = do {
     n \<leftarrow> int32 (ilen + 2);
     convlen \<leftarrow> int32 ((n sdiv 3) * 4);
     if convlen \<ge> olen then Some (-1, dm)
     else do {
       (p, ilen, q, dm) \<leftarrow> b64_enc_loop base64tab m p ilen q dm;
       if ilen = 0 then do {
         dm \<leftarrow> st dm q 0;
         Some (convlen, dm)
       }
       else do {
         a \<leftarrow> ld m p;
         dm \<leftarrow> st dm q (base64tab ! b64_idx0 a);
         dm \<leftarrow> (if ilen = 1 then do {
                  dm \<leftarrow> st dm (q + 1) (base64tab ! b64_idx1 a 0);
                  st dm (q + 2) 61
                } else do {
                  b \<leftarrow> ld m (p + 1);
                  dm \<leftarrow> st dm (q + 1) (base64tab ! b64_idx1 a b);
                  st dm (q + 2) (base64tab ! b64_idx2 b 0)
                });
         dm \<leftarrow> st dm (q + 3) 61;
         dm \<leftarrow> st dm (q + 4) 0;
         Some (convlen, dm)
       }
     }
   }"

text \<open>\<^verbatim>\<open>a2base64url\<close> takes lengths of type \<^verbatim>\<open>size_t\<close>; \<open>convlen\<close> is their truncation to \<^verbatim>\<open>int\<close>, converted
  back for the comparison.\<close>

definition a2base64url :: "bytes \<Rightarrow> nat \<Rightarrow> nat \<Rightarrow> bytes \<Rightarrow> nat \<Rightarrow> nat \<Rightarrow> (int \<times> bytes) option" where
  "a2base64url m p ilen dm q olen = do {
     let convlen = to_int32 (int ((sz_add ilen 2 div 3) * 4));
     if usz convlen \<ge> olen then Some (-1, dm)
     else do {
       (p, ilen, q, dm) \<leftarrow> b64_enc_loop ubase64tab m p (int ilen) q dm;
       if ilen = 0 then do {
         dm \<leftarrow> st dm q 0;
         Some (convlen, dm)
       }
       else do {
         a \<leftarrow> ld m p;
         dm \<leftarrow> st dm q (ubase64tab ! b64_idx0 a);
         if ilen = 1 then do {
           dm \<leftarrow> st dm (q + 1) (ubase64tab ! b64_idx1 a 0);
           dm \<leftarrow> st dm (q + 2) 0;
           Some (convlen - 2, dm)
         } else do {
           b \<leftarrow> ld m (p + 1);
           dm \<leftarrow> st dm (q + 1) (ubase64tab ! b64_idx1 a b);
           dm \<leftarrow> st dm (q + 2) (ubase64tab ! b64_idx2 b 0);
           dm \<leftarrow> st dm (q + 3) 0;
           Some (convlen - 1, dm)
         }
       }
     }
   }"

section \<open>Decoding\<close>

text \<open>A value stored in a \<^verbatim>\<open>signed char\<close>. \<open>b64_value\<close> is the value of a character: \<open>None\<close> where the
  code returns -1, because the character is out of the range of the table or marked as invalid.\<close>

definition schar :: "int \<Rightarrow> int" where
  "schar i = (i + 128) mod 256 - 128"

definition b64_value :: "bytes \<Rightarrow> int \<Rightarrow> byte \<Rightarrow> int option" where
  "b64_value tab cmin c = (
     let b = schar (sint c - cmin) in
     if b mod 256 > B64CMAX - cmin then None
     else let b = schar (uint (tab ! nat b) - B64BASE - 1) in
       if b < 0 then None else Some b)"

text \<open>\<^verbatim>\<open>in[ilen - k]\<close>, which for an empty input is before the start.\<close>

definition ld_at :: "bytes \<Rightarrow> int \<Rightarrow> byte option" where
  "ld_at m i = (if i < 0 then None else ld m (nat i))"

text \<open>The conditional stores of the three bytes of a group \<open>t\<close>.\<close>

definition b64_store :: "bytes \<Rightarrow> nat \<Rightarrow> nat \<Rightarrow> int \<Rightarrow> nat \<Rightarrow> bytes option" where
  "b64_store dm q olen k x = (if usz k < olen then st dm (q + usz k) (word_of_nat x) else Some dm)"

definition b64_store3 :: "bytes \<Rightarrow> nat \<Rightarrow> nat \<Rightarrow> int \<Rightarrow> nat list \<Rightarrow> bytes option" where
  "b64_store3 dm q olen convlen t = do {
     dm \<leftarrow> b64_store dm q olen convlen (push_bit 2 (t ! 0) + drop_bit 4 (t ! 1));
     dm \<leftarrow> b64_store dm q olen (convlen + 1) (push_bit 4 (t ! 1) + drop_bit 2 (t ! 2));
     b64_store dm q olen (convlen + 2) (push_bit 6 (t ! 2) + drop_bit 0 (t ! 3))
   }"

text \<open>The loop of \<^verbatim>\<open>base64dec\<close>: \<open>t\<close> holds the \<open>i\<close> values of the current group.\<close>

fun base64dec_loop :: "bytes \<Rightarrow> nat \<Rightarrow> nat \<Rightarrow> nat list \<Rightarrow> int \<Rightarrow> int \<Rightarrow> bytes \<Rightarrow> nat \<Rightarrow> nat \<Rightarrow> (int \<times> bytes) option" where
  "base64dec_loop m p 0 t pad convlen dm q olen = Some (convlen, dm)"
| "base64dec_loop m p (Suc ilen) t pad convlen dm q olen = do {
     c \<leftarrow> ld m p;
     case b64_value base64rev B64CMIN c of
       None \<Rightarrow> Some (-1, dm)
     | Some b \<Rightarrow>
         if pad \<noteq> 0 \<and> b \<noteq> B64PADV then Some (-1, dm)
         else if pad \<noteq> 0 \<and> length t < 2 then Some (-1, dm)
         else do {
           let pad = (if b = B64PADV then pad + 1 else pad);
           let t = t @ [nat b];
           if length t = 4 then do {
             dm \<leftarrow> b64_store3 dm q olen convlen t;
             convlen \<leftarrow> int32 (convlen + (3 - pad));
             base64dec_loop m (p + 1) ilen [] 0 convlen dm q olen
           } else base64dec_loop m (p + 1) ilen t pad convlen dm q olen
         }
   }"

definition base64dec :: "bytes \<Rightarrow> nat \<Rightarrow> nat \<Rightarrow> bytes \<Rightarrow> nat \<Rightarrow> nat \<Rightarrow> (int \<times> bytes) option" where
  "base64dec m p ilen dm q olen =
     (if ilen mod 4 \<noteq> 0 then Some (-1, dm)
      else do {
        c1 \<leftarrow> ld_at m (int p + int ilen - 1);
        c2 \<leftarrow> ld_at m (int p + int ilen - 2);
        if olen < sz_sub (sz_sub (ilen div 4 * 3) (if c1 = 61 then 1 else 0)) (if c2 = 61 then 1 else 0)
        then Some (-2, dm)
        else base64dec_loop m p ilen [] 0 0 dm q olen
      })"

text \<open>The loop of \<^verbatim>\<open>base64urldec\<close>, which adds the padding itself; \<open>None\<close> in its result is \<^verbatim>\<open>return -1\<close>.\<close>

function base64urldec_loop :: "bytes \<Rightarrow> nat \<Rightarrow> nat \<Rightarrow> nat list \<Rightarrow> nat \<Rightarrow> int \<Rightarrow> bytes \<Rightarrow> nat \<Rightarrow> nat \<Rightarrow> (int option \<times> bytes) option" where
  "base64urldec_loop m p ilen t pad convlen dm q olen =
     (if ilen + pad = 0 then Some (Some convlen, dm)
      else do {
        r \<leftarrow> (if ilen > 0 then do {
                 c \<leftarrow> ld m p;
                 Some (map_option (\<lambda>b. (b, p + 1)) (b64_value ubase64rev UB64CMIN c))
               } else Some (Some (B64PADV, p)));
        case r of
          None \<Rightarrow> Some (None, dm)
        | Some (b, p) \<Rightarrow> do {
            let pad = (if ilen > 0 then pad else pad - 1);
            let ilen = ilen - 1;
            let t = t @ [nat b];
            if length t = 4 then do {
              dm \<leftarrow> b64_store3 dm q olen convlen t;
              convlen \<leftarrow> int32 (convlen + 3);
              base64urldec_loop m p ilen [] pad convlen dm q olen
            } else base64urldec_loop m p ilen t pad convlen dm q olen
          }
      })"
  by pat_completeness auto
termination
  by (relation "measure (\<lambda>(m, p, ilen, t, pad, convlen, dm, q, olen). ilen + pad)") auto

declare base64urldec_loop.simps [simp del]

definition base64urldec :: "bytes \<Rightarrow> nat \<Rightarrow> nat \<Rightarrow> bytes \<Rightarrow> nat \<Rightarrow> nat \<Rightarrow> (int \<times> bytes) option" where
  "base64urldec m p ilen dm q olen =
     (if ilen mod 4 = 1 then Some (-1, dm)
      else do {
        let pad = (if ilen mod 4 = 2 then 2 else if ilen mod 4 = 3 then 1 else 0);
        if olen < sz_sub (sz_add ilen pad div 4 * 3) pad then Some (-2, dm)
        else do {
          (r, dm) \<leftarrow> base64urldec_loop m p ilen [] pad 0 dm q olen;
          Some ((case r of None \<Rightarrow> -1 | Some convlen \<Rightarrow> convlen - int pad), dm)
        }
      })"

section \<open>Thirty bits\<close>

text \<open>\<^verbatim>\<open>in\<close> is shifted as a 32-bit integer, to the right with its sign.\<close>

fun s30tob64_loop :: "nat \<Rightarrow> u32 \<Rightarrow> bytes \<Rightarrow> nat \<Rightarrow> bytes option" where
  "s30tob64_loop 0 v dm q = st dm q 0"
| "s30tob64_loop (Suc n) v dm q = do {
     dm \<leftarrow> st dm q (base64tab ! unat (signed_drop_bit 24 v AND 63));
     s30tob64_loop n (push_bit 6 v) dm (q + 1)
   }"

definition s30tob64 :: "u32 \<Rightarrow> bytes \<Rightarrow> nat \<Rightarrow> bytes option" where
  "s30tob64 v dm q = s30tob64_loop 5 v dm q"

fun b64tos30_loop :: "nat \<Rightarrow> bytes \<Rightarrow> nat \<Rightarrow> int \<Rightarrow> int option" where
  "b64tos30_loop 0 m p out = Some out"
| "b64tos30_loop (Suc n) m p out = do {
     c \<leftarrow> ld m p;
     case b64_value base64rev B64CMIN c of
       None \<Rightarrow> Some (-1)
     | Some b \<Rightarrow>
         if b = B64PADV then Some (-1)
         else do {
           out \<leftarrow> int32 (push_bit 6 out + b);
           b64tos30_loop n m (p + 1) out
         }
   }"

definition b64tos30 :: "bytes \<Rightarrow> nat \<Rightarrow> int option" where
  "b64tos30 m p = b64tos30_loop 5 m p 0"

section \<open>The indices\<close>

lemma and_take_bit: "(a :: byte) AND 3 = take_bit 2 a" "a AND 15 = take_bit 4 a" "a AND 63 = take_bit 6 a"
  by (simp_all add: take_bit_eq_mask mask_eq_exp_minus_1)

lemma b64_idx_simps:
  "b64_idx0 a = unat a div 4"
  "b64_idx1 a b = unat a mod 4 * 16 + unat b div 16"
  "b64_idx2 b c = unat b mod 16 * 4 + unat c div 64"
  "b64_idx3 c = unat c mod 64"
proof -
  have or_plus: "unat (push_bit k x OR drop_bit l y) = unat x * 2 ^ k + unat y div 2 ^ l"
    if "unat x * 2 ^ k + unat y div 2 ^ l < 256" "k + l \<ge> 8" for k l and x y :: byte
  proof -
    have "push_bit k x OR drop_bit l y = push_bit k x + drop_bit l y"
      using that(2) by (intro disjunctive_add [symmetric]) (auto simp: bit_push_bit_iff bit_drop_bit_eq bit_imp_le_length dest!: bit_imp_le_length)
    moreover have "push_bit k x = word_of_nat (unat x * 2 ^ k)" by (simp add: push_bit_eq_mult)
    moreover have "drop_bit l y = word_of_nat (unat y div 2 ^ l)"
      by (simp add: word_unat_eq_iff unat_drop_bit unat_byte_of_nat le_less_trans [OF div_le_dividend byte_less])
    ultimately have "push_bit k x OR drop_bit l y = word_of_nat (unat x * 2 ^ k + unat y div 2 ^ l)" by simp
    then show ?thesis using that(1) by (simp only: unat_byte_of_nat) simp
  qed
  have u: "unat (take_bit n (a :: byte)) = unat a mod 2 ^ n" for n a
    by (subst unsigned_take_bit_eq) (simp only: take_bit_eq_mod)
  show "b64_idx0 a = unat a div 4" by (simp add: b64_idx0_def unat_drop_bit)
  have "unat b div 16 < 16" "unat c div 64 < 4" using byte_less [of b] byte_less [of c] by (simp_all add: div_less_iff_less_mult)
  moreover have "unat a mod 4 < 4" "unat b mod 16 < 16" by simp_all
  ultimately show "b64_idx1 a b = unat a mod 4 * 16 + unat b div 16" "b64_idx2 b c = unat b mod 16 * 4 + unat c div 64"
    using or_plus [of "take_bit 2 a" 4 b 4] or_plus [of "take_bit 4 b" 2 c 6]
    by (simp_all add: b64_idx1_def b64_idx2_def and_take_bit u)
  show "b64_idx3 c = unat c mod 64" by (simp add: b64_idx3_def and_take_bit u)
qed

lemma b64_idx_less: "b64_idx0 a < 64" "b64_idx1 a b < 64" "b64_idx2 b c < 64" "b64_idx3 c < 64"
proof -
  have "unat b div 16 < 16" "unat c div 64 < 4" "unat a div 4 < 64"
    using byte_less [of a] byte_less [of b] byte_less [of c] by (simp_all add: div_less_iff_less_mult)
  moreover have "unat a mod 4 < 4" "unat b mod 16 < 16" by simp_all
  ultimately show "b64_idx0 a < 64" "b64_idx1 a b < 64" "b64_idx2 b c < 64" "b64_idx3 c < 64"
    unfolding b64_idx_simps by (linarith | simp)+
qed

text \<open>The bytes that the decoder puts together.\<close>

lemma b64_group_bytes:
  "word_of_nat (push_bit 2 (b64_idx0 a) + drop_bit 4 (b64_idx1 a b)) = a"
  "word_of_nat (push_bit 4 (b64_idx1 a b) + drop_bit 2 (b64_idx2 b c)) = b"
  "word_of_nat (push_bit 6 (b64_idx2 b c) + drop_bit 0 (b64_idx3 c)) = c"
proof -
  have "unat b div 16 < 16" "unat c div 64 < 4" using byte_less [of b] byte_less [of c] by (simp_all add: div_less_iff_less_mult)
  then have e: "push_bit 2 (b64_idx0 a) + drop_bit 4 (b64_idx1 a b) = unat a"
    "push_bit 4 (b64_idx1 a b) + drop_bit 2 (b64_idx2 b c) = 256 * (unat a mod 4) + unat b"
    "push_bit 6 (b64_idx2 b c) + drop_bit 0 (b64_idx3 c) = 256 * (unat b mod 16) + unat c"
    unfolding b64_idx_simps by (simp_all add: push_bit_eq_mult drop_bit_eq_div) 
  show "word_of_nat (push_bit 2 (b64_idx0 a) + drop_bit 4 (b64_idx1 a b)) = a"
    "word_of_nat (push_bit 4 (b64_idx1 a b) + drop_bit 2 (b64_idx2 b c)) = b"
    "word_of_nat (push_bit 6 (b64_idx2 b c) + drop_bit 0 (b64_idx3 c)) = c"
    unfolding e word_unat_eq_iff unat_byte_of_nat using byte_less by simp_all
qed

section \<open>The tables\<close>

lemma base64tab_bytes: "base64tab = [
    65, 66, 67, 68, 69, 70, 71, 72, 73, 74, 75, 76, 77, 78, 79, 80, 81, 82, 83, 84,
    85, 86, 87, 88, 89, 90, 97, 98, 99, 100, 101, 102, 103, 104, 105, 106, 107, 108, 109, 110,
    111, 112, 113, 114, 115, 116, 117, 118, 119, 120, 121, 122, 48, 49, 50, 51, 52, 53, 54, 55,
    56, 57, 43, 47, 0]"
  by (simp add: base64tab_def cstr_def)

lemma ubase64tab_bytes: "ubase64tab = [
    65, 66, 67, 68, 69, 70, 71, 72, 73, 74, 75, 76, 77, 78, 79, 80, 81, 82, 83, 84,
    85, 86, 87, 88, 89, 90, 97, 98, 99, 100, 101, 102, 103, 104, 105, 106, 107, 108, 109, 110,
    111, 112, 113, 114, 115, 116, 117, 118, 119, 120, 121, 122, 48, 49, 50, 51, 52, 53, 54, 55,
    56, 57, 45, 95, 0]"
  by (simp add: ubase64tab_def cstr_def)

lemma b64_table_values:
  "map (b64_value base64rev B64CMIN) (61 # take 64 base64tab) = Some 64 # map (Some \<circ> int) [0..<64]"
  "map (b64_value ubase64rev UB64CMIN) (take 64 ubase64tab) = map (Some \<circ> int) [0..<64]"
  unfolding base64tab_bytes ubase64tab_bytes by code_simp+

lemma b64_tables:
  "v < 64 \<Longrightarrow> b64_value base64rev B64CMIN (base64tab ! v) = Some (int v) \<and> base64tab ! v \<noteq> 61"
  "v < 64 \<Longrightarrow> b64_value ubase64rev UB64CMIN (ubase64tab ! v) = Some (int v)"
  "b64_value base64rev B64CMIN 61 = Some B64PADV"
proof -
  have len: "length base64tab = 65" "length ubase64tab = 65" by (simp_all add: base64tab_bytes ubase64tab_bytes)
  show pad: "b64_value base64rev B64CMIN 61 = Some B64PADV" using b64_table_values(1) by (simp add: B64PADV_def)
  show v: "b64_value base64rev B64CMIN (base64tab ! v) = Some (int v) \<and> base64tab ! v \<noteq> 61" if "v < 64" for v
  proof -
    have "map (b64_value base64rev B64CMIN) (take 64 base64tab) = map (Some \<circ> int) [0..<64]" using b64_table_values(1) by simp
    from arg_cong [where f = "\<lambda>xs. xs ! v", OF this] have "b64_value base64rev B64CMIN (base64tab ! v) = Some (int v)"
      using that len by simp
    then show ?thesis using pad that by (auto simp: B64PADV_def)
  qed
  show "b64_value ubase64rev UB64CMIN (ubase64tab ! v) = Some (int v)" if "v < 64"
    using arg_cong [where f = "\<lambda>xs. xs ! v", OF b64_table_values(2)] that len by simp
qed

section \<open>The encoders\<close>

fun b64_text :: "bytes \<Rightarrow> bytes \<Rightarrow> bytes \<Rightarrow> bytes" where
  "b64_text tab pad (a # b # c # xs) =
     [tab ! b64_idx0 a, tab ! b64_idx1 a b, tab ! b64_idx2 b c, tab ! b64_idx3 c] @ b64_text tab pad xs"
| "b64_text tab pad [a, b] = [tab ! b64_idx0 a, tab ! b64_idx1 a b, tab ! b64_idx2 b 0] @ pad"
| "b64_text tab pad [a] = [tab ! b64_idx0 a, tab ! b64_idx1 a 0] @ pad @ pad"
| "b64_text tab pad [] = []"

lemma b64_text_length: "length (b64_text tab [x] xs) = (length xs + 2) div 3 * 4"
  by (induction tab "[x]" xs rule: b64_text.induct) (simp_all, presburger)

lemma b64_text_length_url: "length (b64_text tab [] xs) = (length xs * 4 + 2) div 3"
  by (induction tab "[] :: bytes" xs rule: b64_text.induct) simp_all

text \<open>Reading what follows a position.\<close>

lemma ld_drop:
  assumes "drop p m = xs @ rst" and "i < length xs"
  shows "ld m (p + i) = Some (xs ! i)"
  using drop_nthD [OF assms] by (simp add: ld_def)

lemma drop_more: "drop p m = xs @ rst \<Longrightarrow> drop (p + length xs) m = rst"
  by (metis add.commute append_eq_conv_conj drop_drop)

lemma st_first: "q < length dm \<Longrightarrow> st dm q a = Some (blit dm q [a])"
  using st_blit [of q "[]" dm a] by simp

lemma st_chain:
  assumes "q + 4 \<le> length dm"
  shows "st dm q a = Some (blit dm q [a]) \<and> st (blit dm q [a]) (q + 1) b = Some (blit dm q [a, b]) \<and>
    st (blit dm q [a, b]) (q + 2) c = Some (blit dm q [a, b, c]) \<and>
    st (blit dm q [a, b, c]) (q + 3) d = Some (blit dm q [a, b, c, d])"
  using st_first [of q dm a] st_blit [of q "[a]" dm b] st_blit [of q "[a, b]" dm c] st_blit [of q "[a, b, c]" dm d] assms
  by (simp add: eval_nat_numeral)

lemma b64_enc_loop_eq:
  "\<lbrakk> drop p m = xs @ rst; q + length (b64_text tab [] xs) \<le> length dm \<rbrakk> \<Longrightarrow>
   \<exists>ys zs T. xs = ys @ zs \<and> length zs < 3 \<and> (\<forall>pad. b64_text tab pad xs = T @ b64_text tab pad zs) \<and>
     b64_enc_loop tab m p (int (length xs)) q dm = Some (p + length ys, int (length zs), q + length T, blit dm q T)"
proof (induction tab "[] :: bytes" xs arbitrary: p q dm rule: b64_text.induct)
  case (1 tab a b c xs)
  let ?G = "[tab ! b64_idx0 a, tab ! b64_idx1 a b, tab ! b64_idx2 b c, tab ! b64_idx3 c]"
  have g: "length ?G = 4" by simp
  have n: "drop (p + 3) m = xs @ rst" using drop_more [of p m "[a, b, c]" "xs @ rst"] 1(2) by (simp add: numeral_3_eq_3)
  have l: "ld m p = Some a" "ld m (p + 1) = Some b" "ld m (p + 2) = Some c"
    using ld_drop [OF 1(2), of 0] ld_drop [OF 1(2), of 1] ld_drop [OF 1(2), of 2] by simp_all
  obtain ys zs T where IH: "xs = ys @ zs" "length zs < 3" "\<forall>pad. b64_text tab pad xs = T @ b64_text tab pad zs"
     "b64_enc_loop tab m (p + 3) (int (length xs)) (q + 4) (blit dm q ?G) = Some (p + 3 + length ys, int (length zs), q + 4 + length T, blit (blit dm q ?G) (q + 4) T)"
    using 1(1) [of "p + 3" "q + 4" "blit dm q ?G"] n 1(3) by auto
  have "length T \<le> length (b64_text tab [] xs)" using IH(3) [rule_format, of "[]"] by simp
  then have "blit (blit dm q ?G) (q + 4) T = blit dm q (?G @ T)" using blit_adjacent [of q ?G T dm, unfolded g] 1(3) by simp
  then have "b64_enc_loop tab m p (int (length (a # b # c # xs))) q dm = Some (p + length (a # b # c # ys), int (length zs), q + length (?G @ T), blit dm q (?G @ T))"
    using IH(4) l 1(3) st_chain [of q dm "tab ! b64_idx0 a" "tab ! b64_idx1 a b" "tab ! b64_idx2 b c" "tab ! b64_idx3 c"]
    by (subst b64_enc_loop.simps) simp
  then show ?case using IH(1-3) by (intro exI [of _ "a # b # c # ys"] exI [of _ zs] exI [of _ "?G @ T"]) simp
qed (rule exI [of _ "[]"], subst b64_enc_loop.simps, simp)+

lemma b64_tail:
  assumes "length zs < 3" and "drop p m = zs @ rst" and "zs \<noteq> []"
  obtains a where "zs = [a]" "ld m p = Some a"
    | a b where "zs = [a, b]" "ld m p = Some a" "ld m (p + 1) = Some b"
proof -
  obtain a us where a: "zs = a # us" using assms(3) by (cases zs) auto
  have la: "ld m p = Some a" using ld_drop [OF assms(2), of 0] a by simp
  show thesis
  proof (cases us)
    case Nil
    then show ?thesis using that(1) a la by simp
  next
    case (Cons b vs)
    then have "vs = []" using assms(1) a by (cases vs) auto
    then show ?thesis using that(2) [of a b] a la Cons ld_drop [OF assms(2), of 1] by simp
  qed
qed

text \<open>The stores that end an encoding, appended to the groups before.\<close>

lemma st_append:
  assumes "q + length T + 5 \<le> length dm"
  shows "st (blit dm q T) (q + length T) a = Some (blit dm q (T @ [a])) \<and>
    st (blit dm q (T @ [a])) (q + length T + 1) b = Some (blit dm q (T @ [a, b])) \<and>
    st (blit dm q (T @ [a, b])) (q + length T + 2) c = Some (blit dm q (T @ [a, b, c])) \<and>
    st (blit dm q (T @ [a, b, c])) (q + length T + 3) d = Some (blit dm q (T @ [a, b, c, d])) \<and>
    st (blit dm q (T @ [a, b, c, d])) (q + length T + 4) e = Some (blit dm q (T @ [a, b, c, d, e]))"
  using st_blit [of q T dm a] st_blit [of q "T @ [a]" dm b] st_blit [of q "T @ [a, b]" dm c] st_blit [of q "T @ [a, b, c]" dm d]
    st_blit [of q "T @ [a, b, c, d]" dm e] assms
  by (simp add: eval_nat_numeral)

lemma a2base64_eq:
  assumes "drop p m = xs @ rst" and "length xs < 1073741824"
    and "int ((length xs + 2) div 3 * 4) < olen" and "int q + olen \<le> int (length dm)"
  shows "a2base64 m p (int (length xs)) dm q olen =
    Some (int ((length xs + 2) div 3 * 4), blit dm q (b64_text base64tab [61] xs @ [0]))"
proof -
  let ?n = "(length xs + 2) div 3 * 4"
  have n: "?n \<le> 2 * length xs + 2" by presburger
  have i1: "int32 (int (length xs) + 2) = Some (int (length xs) + 2)" using assms(2) by (simp add: int32_def)
  have "(int (length xs) + 2) sdiv 3 * 4 = int ?n" by (simp add: signed_divide_int_def zdiv_int)
  then have i2: "int32 ((int (length xs) + 2) sdiv 3 * 4) = Some (int ?n)" using assms(2) n by (simp add: int32_def)
  have q: "q + ?n + 1 \<le> length dm" using assms(3,4) by linarith
  have "length (b64_text base64tab [] xs) \<le> ?n" unfolding b64_text_length_url by presburger
  then have room: "q + length (b64_text base64tab [] xs) \<le> length dm" using q by linarith
  obtain ys zs T where L: "xs = ys @ zs" "length zs < 3" "\<forall>pad. b64_text base64tab pad xs = T @ b64_text base64tab pad zs"
    "b64_enc_loop base64tab m p (int (length xs)) q dm = Some (p + length ys, int (length zs), q + length T, blit dm q T)"
    using b64_enc_loop_eq [OF assms(1) room] by (elim exE conjE)
  have d: "drop (p + length ys) m = zs @ rst" using drop_more [of p m ys "zs @ rst"] assms(1) L(1) by simp
  have T: "b64_text base64tab [61] xs = T @ b64_text base64tab [61] zs" using L(3) by blast
  have lT: "length T + length (b64_text base64tab [61] zs) = ?n" using b64_text_length [of base64tab 61 xs] T by simp
  show ?thesis
  proof (cases "zs = []")
    case True
    then have "st (blit dm q T) (q + length T) 0 = Some (blit dm q (T @ [0]))" using lT q by (intro st_blit) simp
    then show ?thesis using True i1 i2 L(4) T assms(3) by (simp add: a2base64_def)
  next
    case False
    from b64_tail [OF L(2) d False] show ?thesis
    proof cases
      case (1 a)
      then have "q + length T + 5 \<le> length dm" using lT q by simp
      from st_append [OF this, of "base64tab ! b64_idx0 a" "base64tab ! b64_idx1 a 0" 61 61 0]
      show ?thesis using 1 i1 i2 L(4) T assms(3) by (simp add: a2base64_def)
    next
      case (2 a b)
      then have "q + length T + 5 \<le> length dm" using lT q by simp
      from st_append [OF this, of "base64tab ! b64_idx0 a" "base64tab ! b64_idx1 a b" "base64tab ! b64_idx2 b 0" 61 0]
      show ?thesis using 2 i1 i2 L(4) T assms(3) by (simp add: a2base64_def)
    qed
  qed
qed

lemma a2base64_short:
  assumes "length xs < 1073741824" and "olen \<le> int ((length xs + 2) div 3 * 4)"
  shows "a2base64 m p (int (length xs)) dm q olen = Some (-1, dm)"
proof -
  let ?n = "(length xs + 2) div 3 * 4"
  have n: "?n \<le> 2 * length xs + 2" by presburger
  have i1: "int32 (int (length xs) + 2) = Some (int (length xs) + 2)" using assms(1) by (simp add: int32_def)
  have "(int (length xs) + 2) sdiv 3 * 4 = int ?n" by (simp add: signed_divide_int_def zdiv_int)
  then have i2: "int32 ((int (length xs) + 2) sdiv 3 * 4) = Some (int ?n)" using assms(1) n by (simp add: int32_def)
  show ?thesis using i1 i2 assms(2) by (simp add: a2base64_def)
qed

lemma a2base64url_eq:
  assumes "drop p m = xs @ rst" and "length xs < 1073741824"
    and "(length xs + 2) div 3 * 4 < olen" and "q + olen \<le> length dm"
  shows "a2base64url m p (length xs) dm q olen =
    Some (int (length (b64_text ubase64tab [] xs)), blit dm q (b64_text ubase64tab [] xs @ [0]))"
proof -
  let ?n = "(length xs + 2) div 3 * 4"
  have n: "?n \<le> 2 * length xs + 2" by presburger
  have s: "sz_add (length xs) 2 = length xs + 2" using assms(2) by (intro sz_add_small) simp
  have c: "to_int32 (int ?n) = int ?n" "usz (int ?n) = ?n" using n assms(2) by (simp_all add: to_int32_small usz_def)
  have q: "q + ?n + 1 \<le> length dm" using assms(3,4) by linarith
  have le: "length (b64_text ubase64tab [] xs) \<le> ?n" unfolding b64_text_length_url by presburger
  then have room: "q + length (b64_text ubase64tab [] xs) \<le> length dm" using q by linarith
  obtain ys zs T where L: "xs = ys @ zs" "length zs < 3" "\<forall>pad. b64_text ubase64tab pad xs = T @ b64_text ubase64tab pad zs"
    "b64_enc_loop ubase64tab m p (int (length xs)) q dm = Some (p + length ys, int (length zs), q + length T, blit dm q T)"
    using b64_enc_loop_eq [OF assms(1) room] by (elim exE conjE)
  have d: "drop (p + length ys) m = zs @ rst" using drop_more [of p m ys "zs @ rst"] assms(1) L(1) by simp
  have T: "b64_text ubase64tab [] xs = T @ b64_text ubase64tab [] zs" using L(3) by blast
  have lT: "length T + length (b64_text ubase64tab [61] zs) = ?n"
    using b64_text_length [of ubase64tab 61 xs] L(3) by (metis length_append)
  show ?thesis
  proof (cases "zs = []")
    case True
    then have "st (blit dm q T) (q + length T) 0 = Some (blit dm q (T @ [0]))" using lT q by (intro st_blit) simp
    moreover have "?n = length T" using lT True by simp
    ultimately show ?thesis using True s c L(4) T assms(3) by (simp add: a2base64url_def)
  next
    case False
    from b64_tail [OF L(2) d False] show ?thesis
    proof cases
      case (1 a)
      then have "q + length T + 5 \<le> length dm" "?n = length T + 4" using lT q by simp_all
      then show ?thesis using st_append [of q T dm "ubase64tab ! b64_idx0 a" "ubase64tab ! b64_idx1 a 0" 0 0 0]
          1 s c L(4) T assms(3) by (simp add: a2base64url_def)
    next
      case (2 a b)
      then have "q + length T + 5 \<le> length dm" "?n = length T + 4" using lT q by simp_all
      then show ?thesis using st_append [of q T dm "ubase64tab ! b64_idx0 a" "ubase64tab ! b64_idx1 a b" "ubase64tab ! b64_idx2 b 0" 0 0]
          2 s c L(4) T assms(3) by (simp add: a2base64url_def)
    qed
  qed
qed

section \<open>The decoders\<close>

lemma b64_store_eq:
  assumes "k < 18446744073709551616" and "q + olen \<le> length dm"
  shows "b64_store dm q olen (int k) x = Some (if k < olen then dm[q + k := word_of_nat x] else dm)"
  using assms by (simp add: b64_store_def usz_def st_def)

lemma b64_store3_eq:
  assumes "k + 2 < 18446744073709551616" and "q + olen \<le> length dm"
  shows "\<exists>dm'. b64_store3 dm q olen (int k) t = Some dm' \<and> length dm' = length dm \<and>
    (\<forall>i. i < q + k \<or> q + olen \<le> i \<longrightarrow> dm' ! i = dm ! i) \<and>
    (k < olen \<longrightarrow> dm' ! (q + k) = word_of_nat (push_bit 2 (t ! 0) + drop_bit 4 (t ! 1))) \<and>
    (k + 1 < olen \<longrightarrow> dm' ! (q + k + 1) = word_of_nat (push_bit 4 (t ! 1) + drop_bit 2 (t ! 2))) \<and>
    (k + 2 < olen \<longrightarrow> dm' ! (q + k + 2) = word_of_nat (push_bit 6 (t ! 2) + drop_bit 0 (t ! 3)))"
proof -
  define x y z where "x = push_bit 2 (t ! 0) + drop_bit 4 (t ! 1)" and "y = push_bit 4 (t ! 1) + drop_bit 2 (t ! 2)"
    and "z = push_bit 6 (t ! 2) + drop_bit 0 (t ! 3)"
  define d1 where "d1 = (if k < olen then dm[q + k := word_of_nat x] else dm)"
  define d2 where "d2 = (if k + 1 < olen then d1[q + (k + 1) := word_of_nat y] else d1)"
  define d3 where "d3 = (if k + 2 < olen then d2[q + (k + 2) := word_of_nat z] else d2)"
  have len: "length d1 = length dm" "length d2 = length dm" "length d3 = length dm" by (simp_all add: d1_def d2_def d3_def)
  have i: "int k + 1 = int (k + 1)" "int k + 2 = int (k + 2)" by simp_all
  have "b64_store3 dm q olen (int k) t = Some d3"
    using b64_store_eq [of k q olen dm x] b64_store_eq [of "k + 1" q olen d1 y] b64_store_eq [of "k + 2" q olen d2 z] assms len
    unfolding b64_store3_def i x_def [symmetric] y_def [symmetric] z_def [symmetric] d1_def [symmetric] d2_def [symmetric] d3_def [symmetric]
    by (simp del: of_nat_add of_nat_Suc)
  moreover have "\<forall>i. i < q + k \<or> q + olen \<le> i \<longrightarrow> d3 ! i = dm ! i" by (auto simp: d1_def d2_def d3_def nth_list_update)
  moreover have "k < olen \<longrightarrow> d3 ! (q + k) = word_of_nat x" "k + 1 < olen \<longrightarrow> d3 ! (q + k + 1) = word_of_nat y"
    "k + 2 < olen \<longrightarrow> d3 ! (q + k + 2) = word_of_nat z"
    using assms(2) by (simp_all add: d1_def d2_def d3_def nth_list_update)
  ultimately show ?thesis using len(3) unfolding x_def y_def z_def by blast
qed

text \<open>Decoding the text of \<open>xs\<close> puts \<open>xs\<close> at the position \<open>k\<close> of the output.\<close>

definition put_at :: "bytes \<Rightarrow> bytes \<Rightarrow> nat \<Rightarrow> nat \<Rightarrow> nat \<Rightarrow> bytes \<Rightarrow> bool" where
  "put_at dm dm' q olen k xs \<longleftrightarrow> length dm' = length dm \<and>
     (\<forall>i. i < q + k \<or> q + olen \<le> i \<longrightarrow> dm' ! i = dm ! i) \<and> (\<forall>i<length xs. dm' ! (q + k + i) = xs ! i)"

lemma put_at_group:
  assumes "put_at dm d1 q olen k ys" and "put_at d1 d2 q olen (k + length ys) xs"
  shows "put_at dm d2 q olen k (ys @ xs)"
  unfolding put_at_def
proof (intro conjI allI impI)
  show "length d2 = length dm" using assms by (simp add: put_at_def)
  show "d2 ! i = dm ! i" if "i < q + k \<or> q + olen \<le> i" for i using that assms by (auto simp: put_at_def)
  fix i assume i: "i < length (ys @ xs)"
  show "d2 ! (q + k + i) = (ys @ xs) ! i"
  proof (cases "i < length ys")
    case True
    then show ?thesis using assms by (auto simp: put_at_def nth_append)
  next
    case False
    then have "q + k + i = q + (k + length ys) + (i - length ys)" by simp
    moreover have "i - length ys < length xs" using i False by simp
    ultimately have "d2 ! (q + k + i) = xs ! (i - length ys)" using assms(2) unfolding put_at_def by metis
    then show ?thesis using False by (simp add: nth_append)
  qed
qed

lemma put_at_take: "put_at dm dm' q olen 0 xs \<Longrightarrow> q + length xs \<le> length dm \<Longrightarrow> take (length xs) (drop q dm') = xs"
  by (intro nth_equalityI) (auto simp: put_at_def)

lemma store_group:
  assumes "k + 3 < 2147483648" and "q + olen \<le> length dm" and "k + length ys \<le> olen" and "length ys \<le> 3"
    and "t = [b64_idx0 a, b64_idx1 a b, i2, i3]"
    and "ys \<noteq> [] \<longrightarrow> ys ! 0 = a" and "length ys > 1 \<longrightarrow> ys ! 1 = b \<and> i2 = b64_idx2 b c"
    and "length ys > 2 \<longrightarrow> ys ! 2 = c \<and> i3 = b64_idx3 c"
  shows "\<exists>d1. b64_store3 dm q olen (int k) t = Some d1 \<and> put_at dm d1 q olen k ys"
proof -
  obtain d1 where d: "b64_store3 dm q olen (int k) t = Some d1" "length d1 = length dm"
    "\<forall>i. i < q + k \<or> q + olen \<le> i \<longrightarrow> d1 ! i = dm ! i"
    "k < olen \<longrightarrow> d1 ! (q + k) = word_of_nat (push_bit 2 (t ! 0) + drop_bit 4 (t ! 1))"
    "k + 1 < olen \<longrightarrow> d1 ! (q + k + 1) = word_of_nat (push_bit 4 (t ! 1) + drop_bit 2 (t ! 2))"
    "k + 2 < olen \<longrightarrow> d1 ! (q + k + 2) = word_of_nat (push_bit 6 (t ! 2) + drop_bit 0 (t ! 3))"
    using b64_store3_eq [of k q olen dm t] assms(1,2) by auto
  have "\<forall>i<length ys. d1 ! (q + k + i) = ys ! i"
  proof (intro allI impI)
    fix i assume i: "i < length ys"
    then have "i = 0 \<or> i = 1 \<or> i = 2" using assms(4) by linarith
    then show "d1 ! (q + k + i) = ys ! i"
    proof (elim disjE)
      assume "i = 0"
      then show ?thesis using d(4) assms(3,5,6) i b64_group_bytes(1) [of a b] by auto
    next
      assume "i = 1"
      then show ?thesis using d(5) assms(3,5,7) i b64_group_bytes(2) [of a b c] by auto
    next
      assume "i = 2"
      then show ?thesis using d(6) assms(3,5,7,8) i b64_group_bytes(3) [of b c] by (auto simp: numeral_2_eq_2)
    qed
  qed
  then show ?thesis using d(1-3) by (auto simp: put_at_def)
qed

text \<open>The values of the characters of a text.\<close>

lemma b64_char:
  assumes "i < 64"
  shows "b64_value base64rev B64CMIN (base64tab ! i) = Some (int i) \<and> int i \<noteq> B64PADV \<and>
    b64_value ubase64rev UB64CMIN (ubase64tab ! i) = Some (int i)"
  using b64_tables(1,2) [OF assms] assms by (simp add: B64PADV_def)

lemmas b64_chars = b64_char [OF b64_idx_less(1)] b64_char [OF b64_idx_less(2)] b64_char [OF b64_idx_less(3)]
  b64_char [OF b64_idx_less(4)]

lemma nat_B64PADV: "nat B64PADV = 64"
  by (simp add: B64PADV_def)

lemma ld_group:
  assumes "drop p m = [w, x, y, z] @ rst"
  shows "ld m p = Some w \<and> ld m (Suc p) = Some x \<and> ld m (Suc (Suc p)) = Some y \<and> ld m (Suc (Suc (Suc p))) = Some z \<and>
    drop (Suc (Suc (Suc (Suc p)))) m = rst"
  using ld_drop [OF assms, of 0] ld_drop [OF assms, of 1] ld_drop [OF assms, of 2] ld_drop [OF assms, of 3] drop_more [OF assms]
  by (simp add: eval_nat_numeral)

lemma base64dec_loop_eq:
  "\<lbrakk> drop p m = b64_text base64tab [61] xs @ rst; q + olen \<le> length dm; k + length xs \<le> olen; k + length xs + 3 < 2147483648 \<rbrakk> \<Longrightarrow>
   \<exists>dm'. base64dec_loop m p (length (b64_text base64tab [61] xs)) [] 0 (int k) dm q olen = Some (int (k + length xs), dm') \<and>
     put_at dm dm' q olen k xs"
proof (induction base64tab "[61] :: bytes" xs arbitrary: p k dm rule: b64_text.induct)
  case (1 a b c xs)
  let ?t = "[b64_idx0 a, b64_idx1 a b, b64_idx2 b c, b64_idx3 c]"
  have n: "drop p m = [base64tab ! b64_idx0 a, base64tab ! b64_idx1 a b, base64tab ! b64_idx2 b c, base64tab ! b64_idx3 c]
      @ b64_text base64tab [61] xs @ rst" using 1(2) by simp
  note l = ld_group [OF n]
  obtain d1 where d1: "b64_store3 dm q olen (int k) ?t = Some d1" "put_at dm d1 q olen k [a, b, c]"
    using store_group [of k q olen dm "[a, b, c]" ?t a b "b64_idx2 b c" "b64_idx3 c" c] 1(3-5) by auto
  have i: "int32 (int k + 3) = Some (int (k + 3))" using 1(5) by (simp add: int32_def)
  have "q + olen \<le> length d1" using 1(3) d1(2) by (simp add: put_at_def)
  then obtain dm' where dm': "base64dec_loop m (Suc (Suc (Suc (Suc p)))) (length (b64_text base64tab [61] xs)) [] 0 (int (k + 3)) d1 q olen =
      Some (int (k + 3 + length xs), dm')" "put_at d1 dm' q olen (k + 3) xs"
    using 1(1) [of "Suc (Suc (Suc (Suc p)))" d1 "k + 3"] l 1(3-5) by auto
  have "put_at dm dm' q olen k ([a, b, c] @ xs)" using put_at_group [OF d1(2)] dm'(2) by (simp add: numeral_3_eq_3)
  moreover have "base64dec_loop m p (length (b64_text base64tab [61] (a # b # c # xs))) [] 0 (int k) dm q olen = Some (int (k + length (a # b # c # xs)), dm')"
    using l d1(1) i dm'(1) b64_chars by (simp add: b64_chars)
  ultimately show ?case by (intro exI [of _ dm']) simp
next
  case (2 a b)
  let ?t = "[b64_idx0 a, b64_idx1 a b, b64_idx2 b 0, 64]"
  have n: "drop p m = [base64tab ! b64_idx0 a, base64tab ! b64_idx1 a b, base64tab ! b64_idx2 b 0, 61] @ rst" using 2(1) by simp
  obtain d1 where d1: "b64_store3 dm q olen (int k) ?t = Some d1" "put_at dm d1 q olen k [a, b]"
    using store_group [of k q olen dm "[a, b]" ?t a b "b64_idx2 b 0" 64 0] 2(2-4) by auto
  have "int32 (int k + 2) = Some (int (k + 2))" using 2(4) by (simp add: int32_def)
  then have "base64dec_loop m p (length (b64_text base64tab [61] [a, b])) [] 0 (int k) dm q olen = Some (int (k + length [a, b]), d1)"
    using ld_group [OF n] d1(1) by (simp add: b64_chars b64_tables(3) nat_B64PADV)
  then show ?case using d1(2) by blast
next
  case (3 a)
  let ?t = "[b64_idx0 a, b64_idx1 a 0, 64, 64]"
  have n: "drop p m = [base64tab ! b64_idx0 a, base64tab ! b64_idx1 a 0, 61, 61] @ rst" using 3(1) by simp
  obtain d1 where d1: "b64_store3 dm q olen (int k) ?t = Some d1" "put_at dm d1 q olen k [a]"
    using store_group [of k q olen dm "[a]" ?t a 0 64 64 0] 3(2-4) by auto
  have "int32 (int k + 1) = Some (int (k + 1))" using 3(4) by (simp add: int32_def)
  then have "base64dec_loop m p (length (b64_text base64tab [61] [a])) [] 0 (int k) dm q olen = Some (int (k + length [a]), d1)"
    using ld_group [OF n] d1(1) by (simp add: b64_chars b64_tables(3) nat_B64PADV)
  then show ?case using d1(2) by blast
next
  case 4
  then show ?case by (simp add: put_at_def)
qed

section \<open>The room that the decoder asks for\<close>

lemma b64_text_end:
  assumes "xs \<noteq> []"
  shows "b64_text base64tab [61] xs ! (length (b64_text base64tab [61] xs) - 1) = 61 \<longleftrightarrow> length xs mod 3 \<noteq> 0"
    and "b64_text base64tab [61] xs ! (length (b64_text base64tab [61] xs) - 2) = 61 \<longleftrightarrow> length xs mod 3 = 1"
proof -
  have "(b64_text base64tab [61] xs ! (length (b64_text base64tab [61] xs) - 1) = 61 \<longleftrightarrow> length xs mod 3 \<noteq> 0) \<and>
    (b64_text base64tab [61] xs ! (length (b64_text base64tab [61] xs) - 2) = 61 \<longleftrightarrow> length xs mod 3 = 1) \<and>
    4 \<le> length (b64_text base64tab [61] xs)"
    using assms
  proof (induction base64tab "[61] :: bytes" xs rule: b64_text.induct)
    case (1 a b c xs)
    have m: "Suc (Suc (Suc (length xs))) mod 3 = length xs mod 3" by presburger
    show ?case
    proof (cases "xs = []")
      case True
      then show ?thesis using b64_tables(1) [OF b64_idx_less(4)] b64_tables(1) [OF b64_idx_less(3)] by simp
    next
      case False
      define X where "X = b64_text base64tab [61] xs"
      obtain n where n: "length X = Suc (Suc n)" using 1(1) [OF False] unfolding X_def [symmetric]
        by (cases "length X"; cases "length X - 1") auto
      show ?thesis using 1(1) [OF False] n m unfolding X_def [symmetric] by (simp add: X_def [symmetric])
    qed
  qed (use b64_tables(1) [OF b64_idx_less(3)] b64_tables(1) [OF b64_idx_less(2)] in simp_all)
  then show "b64_text base64tab [61] xs ! (length (b64_text base64tab [61] xs) - 1) = 61 \<longleftrightarrow> length xs mod 3 \<noteq> 0"
    and "b64_text base64tab [61] xs ! (length (b64_text base64tab [61] xs) - 2) = 61 \<longleftrightarrow> length xs mod 3 = 1" by blast+
qed

lemma base64dec_text:
  assumes "drop p m = b64_text base64tab [61] xs @ rst" and "xs \<noteq> []" and "length xs \<le> olen"
    and "q + olen \<le> length dm" and "length xs < 1073741824"
  shows "\<exists>dm'. base64dec m p (length (b64_text base64tab [61] xs)) dm q olen = Some (int (length xs), dm') \<and>
    put_at dm dm' q olen 0 xs"
proof -
  let ?T = "b64_text base64tab [61] xs"
  let ?n = "length ?T"
  have n: "?n = (length xs + 2) div 3 * 4" by (rule b64_text_length)
  have "0 < length xs" using assms(2) by simp
  then have pos: "2 < ?n" unfolding n by presburger
  have "ld m (p + (?n - 1)) = Some (?T ! (?n - 1))" "ld m (p + (?n - 2)) = Some (?T ! (?n - 2))"
    using ld_drop [OF assms(1), of "?n - 1"] ld_drop [OF assms(1), of "?n - 2"] pos by simp_all
  moreover have "nat (int p + int ?n - 1) = p + (?n - 1)" "nat (int p + int ?n - 2) = p + (?n - 2)" using pos by linarith+
  ultimately have l: "ld_at m (int p + int ?n - 1) = Some (?T ! (?n - 1))" "ld_at m (int p + int ?n - 2) = Some (?T ! (?n - 2))"
    using pos by (simp_all add: ld_at_def)
  have room: "sz_sub (sz_sub (?n div 4 * 3) (if length xs mod 3 \<noteq> 0 then 1 else 0)) (if length xs mod 3 = 1 then 1 else 0) = length xs"
  proof -
    have d: "?n div 4 = (length xs + 2) div 3" unfolding n by simp
    have "length xs mod 3 < 3" by simp
    then have "length xs mod 3 = 0 \<or> length xs mod 3 = 1 \<or> length xs mod 3 = 2" by linarith
    then have e: "(length xs + 2) div 3 * 3 = length xs + (if length xs mod 3 \<noteq> 0 then 1 else 0) + (if length xs mod 3 = 1 then 1 else 0)"
      by presburger
    then show ?thesis unfolding d e using assms(5) by (simp add: sz_sub_small)
  qed
  have "?n mod 4 = 0" unfolding n by simp
  moreover obtain dm' where "base64dec_loop m p ?n [] 0 0 dm q olen = Some (int (length xs), dm')" "put_at dm dm' q olen 0 xs"
    using base64dec_loop_eq [OF assms(1,4), of 0] assms(3,5) by auto
  ultimately show ?thesis
    using l room assms(3) b64_text_end [OF assms(2)] unfolding base64dec_def by simp
qed

section \<open>The decoder of URLs\<close>

lemma url_step:
  assumes "ld m p = Some c" and "b64_value ubase64rev UB64CMIN c = Some b" and "length t \<noteq> 3"
  shows "base64urldec_loop m p (Suc n) t pad cl dm q olen = base64urldec_loop m (Suc p) n (t @ [nat b]) pad cl dm q olen"
  using assms by (subst base64urldec_loop.simps) simp

lemma url_step_pad:
  "length t \<noteq> 3 \<Longrightarrow>
   base64urldec_loop m p 0 t (Suc pad) cl dm q olen = base64urldec_loop m p 0 (t @ [64]) pad cl dm q olen"
  by (subst base64urldec_loop.simps) (simp add: nat_B64PADV)

lemma url_step_last:
  assumes "ld m p = Some c" and "b64_value ubase64rev UB64CMIN c = Some b" and "length t = 3"
    and "b64_store3 dm q olen cl (t @ [nat b]) = Some dm'" and "int32 (cl + 3) = Some cl'"
  shows "base64urldec_loop m p (Suc n) t pad cl dm q olen = base64urldec_loop m (Suc p) n [] pad cl' dm' q olen"
  using assms by (subst base64urldec_loop.simps) simp

lemma url_step_pad_last:
  assumes "length t = 3" and "b64_store3 dm q olen cl (t @ [64]) = Some dm'" and "int32 (cl + 3) = Some cl'"
  shows "base64urldec_loop m p 0 t (Suc pad) cl dm q olen = base64urldec_loop m p 0 [] pad cl' dm' q olen"
  using assms by (subst base64urldec_loop.simps) (simp add: nat_B64PADV)

lemma url_end: "base64urldec_loop m p 0 t 0 cl dm q olen = Some (Some cl, dm)"
  by (subst base64urldec_loop.simps) simp

definition url_pad :: "bytes \<Rightarrow> nat" where
  "url_pad xs = (3 - length xs mod 3) mod 3"

lemma base64urldec_loop_eq:
  "\<lbrakk> drop p m = b64_text ubase64tab [] xs @ rst; q + olen \<le> length dm; k + length xs \<le> olen; k + length xs + 3 < 2147483648 \<rbrakk> \<Longrightarrow>
   \<exists>dm'. base64urldec_loop m p (length (b64_text ubase64tab [] xs)) [] (url_pad xs) (int k) dm q olen
       = Some (Some (int (k + length xs + url_pad xs)), dm') \<and> put_at dm dm' q olen k xs"
proof (induction ubase64tab "[] :: bytes" xs arbitrary: p k dm rule: b64_text.induct)
  case (1 a b c xs)
  let ?t = "[b64_idx0 a, b64_idx1 a b, b64_idx2 b c, b64_idx3 c]"
  have n: "drop p m = [ubase64tab ! b64_idx0 a, ubase64tab ! b64_idx1 a b, ubase64tab ! b64_idx2 b c, ubase64tab ! b64_idx3 c]
      @ b64_text ubase64tab [] xs @ rst" using 1(2) by simp
  note l = ld_group [OF n]
  obtain d1 where d1: "b64_store3 dm q olen (int k) ?t = Some d1" "put_at dm d1 q olen k [a, b, c]"
    using store_group [of k q olen dm "[a, b, c]" ?t a b "b64_idx2 b c" "b64_idx3 c" c] 1(3-5) by auto
  have i: "int32 (int k + 3) = Some (int (k + 3))" using 1(5) by (simp add: int32_def)
  have pad: "url_pad (a # b # c # xs) = url_pad xs" unfolding url_pad_def by (simp add: mod_Suc_eq mod_add_self2)
  have "q + olen \<le> length d1" using 1(3) d1(2) by (simp add: put_at_def)
  then obtain dm' where dm': "base64urldec_loop m (Suc (Suc (Suc (Suc p)))) (length (b64_text ubase64tab [] xs)) [] (url_pad xs) (int (k + 3)) d1 q olen =
      Some (Some (int (k + 3 + length xs + url_pad xs)), dm')" "put_at d1 dm' q olen (k + 3) xs"
    using 1(1) [of "Suc (Suc (Suc (Suc p)))" d1 "k + 3"] l 1(3-5) by auto
  have "put_at dm dm' q olen k ([a, b, c] @ xs)" using put_at_group [OF d1(2)] dm'(2) by (simp add: numeral_3_eq_3)
  moreover have "base64urldec_loop m p (length (b64_text ubase64tab [] (a # b # c # xs))) [] (url_pad xs) (int k) dm q olen
      = Some (Some (int (k + length (a # b # c # xs) + url_pad xs)), dm')"
    using l d1(1) i dm'(1) b64_chars
    by (simp add: url_step [where b = "int (b64_idx0 a)"] url_step [where b = "int (b64_idx1 a b)"] url_step [where b = "int (b64_idx2 b c)"]
        url_step_last [where b = "int (b64_idx3 c)"])
  ultimately show ?case unfolding pad by (intro exI [of _ dm']) simp
next
  case (2 a b)
  let ?t = "[b64_idx0 a, b64_idx1 a b, b64_idx2 b 0, 64]"
  obtain d1 where d1: "b64_store3 dm q olen (int k) ?t = Some d1" "put_at dm d1 q olen k [a, b]"
    using store_group [of k q olen dm "[a, b]" ?t a b "b64_idx2 b 0" 64 0] 2(2-4) by auto
  have l: "ld m p = Some (ubase64tab ! b64_idx0 a)" "ld m (Suc p) = Some (ubase64tab ! b64_idx1 a b)"
    "ld m (Suc (Suc p)) = Some (ubase64tab ! b64_idx2 b 0)"
    using ld_drop [OF 2(1), of 0] ld_drop [OF 2(1), of 1] ld_drop [OF 2(1), of 2] by (simp_all add: eval_nat_numeral)
  have i: "int32 (int k + 3) = Some (int (k + 3))" using 2(4) by (simp add: int32_def)
  have "url_pad [a, b] = Suc 0" by (simp add: url_pad_def)
  then have "base64urldec_loop m p (length (b64_text ubase64tab [] [a, b])) [] (url_pad [a, b]) (int k) dm q olen
      = Some (Some (int (k + length [a, b] + url_pad [a, b])), d1)"
    using l d1(1) i b64_chars
    by (simp add: url_step [where b = "int (b64_idx0 a)"] url_step [where b = "int (b64_idx1 a b)"] url_step [where b = "int (b64_idx2 b 0)"]
        url_step_pad_last url_end)
  then show ?case using d1(2) by blast
next
  case (3 a)
  let ?t = "[b64_idx0 a, b64_idx1 a 0, 64, 64]"
  obtain d1 where d1: "b64_store3 dm q olen (int k) ?t = Some d1" "put_at dm d1 q olen k [a]"
    using store_group [of k q olen dm "[a]" ?t a 0 64 64 0] 3(2-4) by auto
  have l: "ld m p = Some (ubase64tab ! b64_idx0 a)" "ld m (Suc p) = Some (ubase64tab ! b64_idx1 a 0)"
    using ld_drop [OF 3(1), of 0] ld_drop [OF 3(1), of 1] by (simp_all add: eval_nat_numeral)
  have i: "int32 (int k + 3) = Some (int (k + 3))" using 3(4) by (simp add: int32_def)
  have "url_pad [a] = Suc (Suc 0)" by (simp add: url_pad_def)
  then have "base64urldec_loop m p (length (b64_text ubase64tab [] [a])) [] (url_pad [a]) (int k) dm q olen
      = Some (Some (int (k + length [a] + url_pad [a])), d1)"
    using l d1(1) i b64_chars
    by (simp add: url_step [where b = "int (b64_idx0 a)"] url_step [where b = "int (b64_idx1 a 0)"] url_step_pad
        url_step_pad_last url_end)
  then show ?case using d1(2) by blast
next
  case 4
  then show ?case by (simp add: put_at_def url_pad_def url_end)
qed

lemma base64urldec_text:
  assumes "drop p m = b64_text ubase64tab [] xs @ rst" and "length xs \<le> olen"
    and "q + olen \<le> length dm" and "length xs < 1073741824"
  shows "\<exists>dm'. base64urldec m p (length (b64_text ubase64tab [] xs)) dm q olen = Some (int (length xs), dm') \<and>
    put_at dm dm' q olen 0 xs"
proof -
  let ?n = "length (b64_text ubase64tab [] xs)"
  have n: "?n = (length xs * 4 + 2) div 3" by (rule b64_text_length_url)
  have pad: "?n mod 4 \<noteq> 1" "(if ?n mod 4 = 2 then 2 else if ?n mod 4 = 3 then 1 else 0) = url_pad xs"
    "(?n + url_pad xs) div 4 * 3 = length xs + url_pad xs"
  proof -
    define j r where "j = length xs div 3" and "r = length xs mod 3"
    have L: "length xs = 3 * j + r" and "r < 3" by (simp_all add: j_def r_def)
    then have r: "r = 0 \<or> r = 1 \<or> r = 2" by linarith
    have p: "url_pad xs = (3 - r) mod 3" by (simp add: url_pad_def r_def)
    have N: "?n = 4 * j + (4 * r + 2) div 3" unfolding n L by simp
    show "?n mod 4 \<noteq> 1" "(if ?n mod 4 = 2 then 2 else if ?n mod 4 = 3 then 1 else 0) = url_pad xs"
      "(?n + url_pad xs) div 4 * 3 = length xs + url_pad xs"
      using r unfolding N p L by auto
  qed
  have "url_pad xs \<le> 2" by (simp add: url_pad_def le_less_trans less_Suc_eq_le) 
  moreover have "?n \<le> 2 * length xs" unfolding n by presburger
  ultimately have "sz_add ?n (url_pad xs) = ?n + url_pad xs" "sz_sub (length xs + url_pad xs) (url_pad xs) = length xs"
    using assms(4) by (simp_all add: sz_add_small sz_sub_small)
  then have room: "sz_sub (sz_add ?n (url_pad xs) div 4 * 3) (url_pad xs) = length xs" using pad(3) by simp
  obtain dm' where "base64urldec_loop m p ?n [] (url_pad xs) 0 dm q olen = Some (Some (int (length xs + url_pad xs)), dm')"
      "put_at dm dm' q olen 0 xs"
    using base64urldec_loop_eq [OF assms(1,3), of 0] assms(2,4) by auto
  then show ?thesis using pad(1,2) room assms(2) unfolding base64urldec_def by simp
qed

section \<open>Thirty bits\<close>

text \<open>The six bits from the position \<open>k\<close>.\<close>

definition six :: "nat \<Rightarrow> u32 \<Rightarrow> nat" where
  "six k v = unat v div 2 ^ k mod 64"

lemma six_idx:
  assumes "k \<le> 24"
  shows "unat (signed_drop_bit 24 (push_bit k v) AND 63) = six (24 - k) v"
proof -
  have "(signed_drop_bit 24 (push_bit k v) :: u32) AND 63 = take_bit 6 (signed_drop_bit 24 (push_bit k v))"
    by (simp add: take_bit_eq_mask mask_eq_exp_minus_1)
  also have "\<dots> = take_bit 6 (drop_bit (24 - k) v)"
    using assms by (intro bit_eqI) (auto simp: bit_take_bit_iff bit_signed_drop_bit_iff bit_drop_bit_eq bit_push_bit_iff add.commute
        intro: arg_cong [where f = "bit v"] dest: bit_imp_le_length)
  finally show ?thesis
    by (simp only: six_def unsigned_take_bit_eq unat_drop_bit_eq) (simp add: take_bit_eq_mod drop_bit_eq_div)
qed

lemma six_less: "six k v < 64"
  by (simp add: six_def)

lemma six_sum: "(((six 24 v * 64 + six 18 v) * 64 + six 12 v) * 64 + six 6 v) * 64 + six 0 v = unat v mod 2 ^ 30"
proof -
  have step: "n div 2 ^ (k + 6) mod 2 ^ j * 64 + n div 2 ^ k mod 64 = n div 2 ^ k mod 2 ^ (j + 6)" for n k j :: nat
  proof -
    have "n div 2 ^ k mod (64 * 2 ^ j) = 64 * (n div 2 ^ k div 64 mod 2 ^ j) + n div 2 ^ k mod 64" by (rule mod_mult2_eq)
    moreover have "n div 2 ^ k div 64 = n div 2 ^ (k + 6)" by (simp add: power_add div_mult2_eq)
    moreover have "(64 :: nat) * 2 ^ j = 2 ^ (j + 6)" by (simp add: power_add)
    ultimately show ?thesis by simp
  qed
  show ?thesis
    using step [of "unat v" 18 6] step [of "unat v" 12 12] step [of "unat v" 6 18] step [of "unat v" 0 24]
    unfolding six_def by simp
qed

lemma s30tob64_eq:
  assumes "q + 6 \<le> length dm"
  shows "s30tob64 v dm q = Some (blit dm q (map (\<lambda>k. base64tab ! six k v) [24, 18, 12, 6, 0] @ [0]))"
proof -
  have i: "unat (signed_drop_bit 24 v AND 63) = six 24 v" "unat (signed_drop_bit 24 (push_bit 6 v) AND 63) = six 18 v"
    "unat (signed_drop_bit 24 (push_bit 12 v) AND 63) = six 12 v" "unat (signed_drop_bit 24 (push_bit 18 v) AND 63) = six 6 v"
    "unat (signed_drop_bit 24 (push_bit 24 v) AND 63) = six 0 v"
    using six_idx [of 0 v] six_idx [of 6 v] six_idx [of 12 v] six_idx [of 18 v] six_idx [of 24 v] by simp_all
  show ?thesis
    using st_first [of q dm "base64tab ! six 24 v"] st_blit [of q "[base64tab ! six 24 v]" dm "base64tab ! six 18 v"]
      st_blit [of q "[base64tab ! six 24 v, base64tab ! six 18 v]" dm "base64tab ! six 12 v"]
      st_blit [of q "[base64tab ! six 24 v, base64tab ! six 18 v, base64tab ! six 12 v]" dm "base64tab ! six 6 v"]
      st_blit [of q "[base64tab ! six 24 v, base64tab ! six 18 v, base64tab ! six 12 v, base64tab ! six 6 v]" dm "base64tab ! six 0 v"]
      st_blit [of q "[base64tab ! six 24 v, base64tab ! six 18 v, base64tab ! six 12 v, base64tab ! six 6 v, base64tab ! six 0 v]" dm 0]
      assms i
    by (simp add: s30tob64_def eval_nat_numeral)
qed

lemma b64tos30_loop_step:
  assumes "ld m p = Some (base64tab ! i)" and "i < 64" and "x < 33554432"
  shows "b64tos30_loop (Suc n) m p (int x) = b64tos30_loop n m (Suc p) (int (x * 64 + i))"
proof -
  have "push_bit 6 (int x) + int i = int (x * 64 + i)" by (simp add: push_bit_eq_mult)
  moreover have "int32 (int (x * 64 + i)) = Some (int (x * 64 + i))" using assms(2,3) by (simp add: int32_def)
  ultimately show ?thesis using assms(1) b64_char [OF assms(2)] by simp
qed

lemma b64tos30_eq:
  assumes "drop p m = map (\<lambda>k. base64tab ! six k v) [24, 18, 12, 6, 0] @ rst"
  shows "b64tos30 m p = Some (int (unat v mod 2 ^ 30))"
proof -
  have l: "ld m p = Some (base64tab ! six 24 v)" "ld m (Suc p) = Some (base64tab ! six 18 v)"
    "ld m (Suc (Suc p)) = Some (base64tab ! six 12 v)" "ld m (Suc (Suc (Suc p))) = Some (base64tab ! six 6 v)"
    "ld m (Suc (Suc (Suc (Suc p)))) = Some (base64tab ! six 0 v)"
    using ld_drop [OF assms, of 0] ld_drop [OF assms, of 1] ld_drop [OF assms, of 2] ld_drop [OF assms, of 3] ld_drop [OF assms, of 4]
    by (simp_all add: eval_nat_numeral)
  define x1 x2 x3 x4 where "x1 = six 24 v" and "x2 = x1 * 64 + six 18 v" and "x3 = x2 * 64 + six 12 v" and "x4 = x3 * 64 + six 6 v"
  have b: "x1 < 33554432" "x2 < 33554432" "x3 < 33554432" "x4 < 33554432"
    using six_less [of 24 v] six_less [of 18 v] six_less [of 12 v] six_less [of 6 v]
    by (simp_all add: x1_def x2_def x3_def x4_def)
  have "b64tos30 m p = b64tos30_loop (Suc (Suc (Suc (Suc (Suc 0))))) m p (int 0)"
    by (simp add: b64tos30_def eval_nat_numeral)
  also have "\<dots> = b64tos30_loop (Suc (Suc (Suc (Suc 0)))) m (Suc p) (int x1)"
    using b64tos30_loop_step [OF l(1) six_less, of 0] by (simp add: x1_def del: b64tos30_loop.simps)
  also have "\<dots> = b64tos30_loop (Suc (Suc (Suc 0))) m (Suc (Suc p)) (int x2)"
    using b64tos30_loop_step [OF l(2) six_less b(1)] by (simp only: x2_def)
  also have "\<dots> = b64tos30_loop (Suc (Suc 0)) m (Suc (Suc (Suc p))) (int x3)"
    using b64tos30_loop_step [OF l(3) six_less b(2)] by (simp only: x3_def)
  also have "\<dots> = b64tos30_loop (Suc 0) m (Suc (Suc (Suc (Suc p)))) (int x4)"
    using b64tos30_loop_step [OF l(4) six_less b(3)] by (simp only: x4_def)
  also have "\<dots> = Some (int (x4 * 64 + six 0 v))"
    using b64tos30_loop_step [OF l(5) six_less b(4), of 0] by simp
  also have "x4 * 64 + six 0 v = unat v mod 2 ^ 30"
    using six_sum [of v] by (simp add: x1_def x2_def x3_def x4_def)
  finally show ?thesis .
qed

section \<open>Arbitrary input\<close>

lemma b64_value_nonneg: "b64_value tab cmin c = Some b \<Longrightarrow> 0 \<le> b"
  by (auto simp: b64_value_def Let_def split: if_splits)

lemma put_at_trans: "put_at dm d1 q olen 0 [] \<Longrightarrow> put_at d1 d2 q olen 0 [] \<Longrightarrow> put_at dm d2 q olen 0 []"
  by (simp add: put_at_def)

text \<open>The padding that a result has to leave out: what was seen in the last group and the padding
  characters that are left, or the two last characters before the last group is reached.\<close>

definition dec_pads :: "nat \<Rightarrow> nat \<Rightarrow> bytes \<Rightarrow> nat" where
  "dec_pads g pad cs = (if g = 1 then pad + count_list cs 61 else count_list (drop (length cs - 2) cs) 61)"

lemma count_list_le: "count_list xs x \<le> length xs"
  by (induction xs) auto

lemma count_list_drop: "count_list (drop k xs) x \<le> count_list xs x"
  by (metis append_take_drop_id count_list_append le_add2)

lemma last_two_Cons: "2 \<le> length xs \<Longrightarrow> drop (length (c # xs) - 2) (c # xs) = drop (length xs - 2) xs"
  by (cases "length xs"; cases "length xs - 1") auto

lemma dec_pads_le: "pad + length cs \<le> 4 \<or> g \<noteq> 1 \<Longrightarrow> dec_pads g pad cs \<le> 4"
  using count_list_le [of cs 61] count_list_le [of "drop (length cs - 2) cs" 61] by (auto simp: dec_pads_def)

lemma base64dec_loop_safe:
  "\<lbrakk> p + ilen \<le> length m; q + olen \<le> length dm; length t < 4; pad \<le> length t; 2 \<le> length t \<longrightarrow> pad < length t;
     k + 3 * (length t + ilen) < 2147483648 \<rbrakk> \<Longrightarrow>
   \<exists>r dm'. base64dec_loop m p ilen t (int pad) (int k) dm q olen = Some (r, dm') \<and> put_at dm dm' q olen 0 [] \<and>
     -1 \<le> r \<and> (\<forall>g. length t + ilen = 4 * g \<longrightarrow> 0 < g \<longrightarrow> r + int (dec_pads g pad (take ilen (drop p m))) \<le> int k + 3 * int g)"
proof (induction ilen arbitrary: p t pad k dm)
  case 0
  then show ?case by (auto simp: put_at_def)
next
  case (Suc ilen)
  let ?R = "take ilen (drop (Suc p) m)"
  have p: "p < length m" using Suc.prems(1) by simp
  define c where "c = m ! p"
  have c: "ld m p = Some c" using p by (simp add: ld_def c_def)
  have R: "take (Suc ilen) (drop p m) = c # ?R" using p by (simp add: c_def take_Suc_conv_app_nth Cons_nth_drop_Suc [symmetric])
  have lR: "length ?R = ilen" using Suc.prems(1) by simp
  have fail: ?case if "base64dec_loop m p (Suc ilen) t (int pad) (int k) dm q olen = Some (-1, dm)"
  proof -
    have "-1 + int (dec_pads g pad (c # ?R)) \<le> int k + 3 * int g" if "length t + Suc ilen = 4 * g" "0 < g" for g
    proof -
      have "dec_pads g pad (c # ?R) \<le> 4" by (rule dec_pads_le) (use that Suc.prems(4) lR in auto)
      then show ?thesis using that(2) by linarith
    qed
    then show ?thesis using that unfolding R by (auto simp: put_at_def)
  qed
  show ?case
  proof (cases "b64_value base64rev B64CMIN c")
    case None
    then show ?thesis using c by (intro fail) simp
  next
    case (Some b)
    then have b0: "0 \<le> b" by (rule b64_value_nonneg)
    show ?thesis
    proof (cases "pad \<noteq> 0 \<and> (b \<noteq> B64PADV \<or> length t < 2)")
      case True
      then show ?thesis using c Some by (intro fail) auto
    next
      case ok: False
      define pad' where "pad' = (if b = B64PADV then pad + 1 else pad)"
      have c61: "c = 61 \<Longrightarrow> pad' = pad + 1" using Some b64_tables(3) by (auto simp: pad'_def)
      have pp: "pad \<le> pad'" by (simp add: pad'_def)
      have ip: "int pad' = (if b = B64PADV then int pad + 1 else int pad)" by (simp add: pad'_def)
      let ?t = "t @ [nat b]"
      show ?thesis
      proof (cases "length t = 3")
        case full: True
        have p3: "pad' \<le> 3" using Suc.prems(5) full by (auto simp: pad'_def)
        obtain d1 where d1: "b64_store3 dm q olen (int k) ?t = Some d1" "length d1 = length dm"
          "\<forall>i. i < q + k \<or> q + olen \<le> i \<longrightarrow> d1 ! i = dm ! i"
          using b64_store3_eq [of k q olen dm ?t] Suc.prems(2,6) by auto
        then have put: "put_at dm d1 q olen 0 []" by (auto simp: put_at_def)
        define k' where "k' = k + (3 - pad')"
        have k': "int k + (3 - int pad') = int k'" using p3 by (simp add: k'_def of_nat_diff)
        have kb: "k' + 3 * ilen < 2147483648" using Suc.prems(6) full by (simp add: k'_def)
        have i32: "int32 (int k + (3 - int pad')) = Some (int k')" unfolding k' using kb by (simp add: int32_def)
        have run: "base64dec_loop m p (Suc ilen) t (int pad) (int k) dm q olen = base64dec_loop m (Suc p) ilen [] 0 (int k') d1 q olen"
          using c Some ok full d1(1) i32 unfolding ip by auto
        obtain r dm' where r: "base64dec_loop m (Suc p) ilen [] 0 (int k') d1 q olen = Some (r, dm')" "put_at d1 dm' q olen 0 []" "-1 \<le> r"
          "\<forall>g. ilen = 4 * g \<longrightarrow> 0 < g \<longrightarrow> r + int (dec_pads g 0 ?R) \<le> int k' + 3 * int g"
          using Suc.IH [of "Suc p" d1 "[]" 0 k'] Suc.prems(1,2) d1(2) kb by auto
        have "r + int (dec_pads g pad (c # ?R)) \<le> int k + 3 * int g" if g: "length t + Suc ilen = 4 * g" "0 < g" for g
        proof (cases "g = 1")
          case True
          then have "ilen = 0" using g full by simp
          then have "r = int k'" using r(1) by simp
          moreover have "dec_pads g pad (c # ?R) \<le> pad'" using True \<open>ilen = 0\<close> c61 pp by (auto simp: dec_pads_def)
          ultimately show ?thesis using True k' by simp
        next
          case False
          then have i4: "ilen = 4 * (g - 1)" "0 < g - 1" using g full by simp_all
          then have "r + int (dec_pads (g - 1) 0 ?R) \<le> int k' + 3 * int (g - 1)" using r(4) by blast
          moreover have "dec_pads g pad (c # ?R) \<le> dec_pads (g - 1) 0 ?R"
          proof -
            have "drop (length (c # ?R) - 2) (c # ?R) = drop (length ?R - 2) ?R"
              by (rule last_two_Cons) (use i4 lR in linarith)
            then show ?thesis using False count_list_drop [of "length ?R - 2" ?R 61] by (simp add: dec_pads_def)
          qed
          ultimately show ?thesis using g(2) k' p3 by (simp add: of_nat_diff)
        qed
        then show ?thesis using run r(1-3) put_at_trans [OF put r(2)] unfolding R by auto
      next
        case part: False
        then have lt: "length ?t < 4" using Suc.prems(3) by simp
        have run: "base64dec_loop m p (Suc ilen) t (int pad) (int k) dm q olen = base64dec_loop m (Suc p) ilen ?t (int pad') (int k) dm q olen"
          using c Some ok part unfolding ip by auto
        have inv: "pad' \<le> length ?t" "2 \<le> length ?t \<longrightarrow> pad' < length ?t"
          using Suc.prems(4,5) ok by (auto simp: pad'_def)
        obtain r dm' where r: "base64dec_loop m (Suc p) ilen ?t (int pad') (int k) dm q olen = Some (r, dm')" "put_at dm dm' q olen 0 []" "-1 \<le> r"
          "\<forall>g. length ?t + ilen = 4 * g \<longrightarrow> 0 < g \<longrightarrow> r + int (dec_pads g pad' ?R) \<le> int k + 3 * int g"
          using Suc.IH [of "Suc p" dm ?t pad' k, OF _ Suc.prems(2) lt inv] Suc.prems(1,6) by auto
        have "dec_pads g pad (c # ?R) \<le> dec_pads g pad' ?R" if g: "length t + Suc ilen = 4 * g" "0 < g" for g
        proof (cases "g = 1")
          case True
          then show ?thesis using c61 pp by (auto simp: dec_pads_def)
        next
          case False
          then have "2 \<le> ilen" using g lt by simp
          then have "drop (length (c # ?R) - 2) (c # ?R) = drop (length ?R - 2) ?R"
            by (intro last_two_Cons) (simp only: lR)
          then show ?thesis using False by (simp add: dec_pads_def)
        qed
        then have "\<forall>g. length t + Suc ilen = 4 * g \<longrightarrow> 0 < g \<longrightarrow> r + int (dec_pads g pad (c # ?R)) \<le> int k + 3 * int g"
          using r(4) by (smt (verit) add_Suc_right add_Suc_shift length_append_singleton of_nat_le_iff)
        then show ?thesis using run r(1-3) unfolding R by auto
      qed
    qed
  qed
qed

section \<open>Properties\<close>

lemma drop_blit: "q + length ys \<le> length dm \<Longrightarrow> drop q (blit dm q ys) = ys @ drop (q + length ys) dm"
  by (simp add: blit_def)

text \<open>C33. What \<^verbatim>\<open>a2base64\<close> writes for any non-empty input that fits is decoded by \<^verbatim>\<open>base64dec\<close> to exactly
  that input, with the announced lengths, provided the output of the decoder has room for it; when
  the text and its terminating zero do not fit, \<^verbatim>\<open>a2base64\<close> returns -1 and writes nothing.\<close>

theorem base64_roundtrip:
  assumes "drop p m = xs @ rst" and "xs \<noteq> []" and "length xs < 1073741824" and "q + olen \<le> length dm"
    and "length xs \<le> olen'" and "q' + olen' \<le> length dm'"
  shows "if (length xs + 2) div 3 * 4 < olen
    then (\<exists>n d1 d2. a2base64 m p (int (length xs)) dm q (int olen) = Some (n, d1) \<and> n = int ((length xs + 2) div 3 * 4) \<and>
      base64dec d1 q (nat n) dm' q' olen' = Some (int (length xs), d2) \<and> take (length xs) (drop q' d2) = xs)
    else a2base64 m p (int (length xs)) dm q (int olen) = Some (-1, dm)"
proof (cases "(length xs + 2) div 3 * 4 < olen")
  case True
  let ?T = "b64_text base64tab [61] xs"
  let ?d1 = "blit dm q (?T @ [0])"
  have lT: "length ?T = (length xs + 2) div 3 * 4" by (rule b64_text_length)
  have "a2base64 m p (int (length xs)) dm q (int olen) = Some (int ((length xs + 2) div 3 * 4), ?d1)"
    using True assms(3,4) by (intro a2base64_eq [OF assms(1)]) linarith+
  moreover have "drop q ?d1 = ?T @ 0 # drop (q + length (?T @ [0])) dm"
    using drop_blit [of q "?T @ [0]" dm] True assms(4) lT by simp
  then obtain d2 where "base64dec ?d1 q (length ?T) dm' q' olen' = Some (int (length xs), d2)" "put_at dm' d2 q' olen' 0 xs"
    using base64dec_text [OF _ assms(2,5,6,3)] by blast
  moreover have "take (length xs) (drop q' d2) = xs" using put_at_take [OF calculation(3)] assms(5,6) by simp
  ultimately have "\<exists>n d1 d2. a2base64 m p (int (length xs)) dm q (int olen) = Some (n, d1) \<and> n = int ((length xs + 2) div 3 * 4) \<and>
      base64dec d1 q (nat n) dm' q' olen' = Some (int (length xs), d2) \<and> take (length xs) (drop q' d2) = xs"
    by (intro exI [of _ "int ((length xs + 2) div 3 * 4)"] exI [of _ ?d1] exI [of _ d2]) (simp only: nat_int lT)
  then show ?thesis using True by simp
next
  case False
  then show ?thesis using a2base64_short [OF assms(3), of "int olen" m p dm q] by simp
qed

theorem base64_roundtrip_witness:
  "\<exists>n d1 d2. a2base64 (cstr ''hi'') 0 2 [0,0,0,0,0] 0 5 = Some (n, d1) \<and>
     base64dec d1 0 (nat n) [0,0] 0 2 = Some (2, d2) \<and> take 2 (drop 0 d2) = cstr ''hi''"
  using base64_roundtrip [of 0 "cstr ''hi''" "cstr ''hi''" "[]" 0 5 "[0,0,0,0,0]" 2 0 "[0,0]"]
  by (auto simp: cstr_def numeral_2_eq_2)

text \<open>The unpadded variant of URLs, \<^verbatim>\<open>a2base64url\<close> and \<^verbatim>\<open>base64urldec\<close>: the text of every input, the
  empty one included, has the length that the encoder returns and decodes to that input.\<close>

theorem base64url_roundtrip:
  assumes "drop p m = xs @ rst" and "length xs < 1073741824" and "(length xs + 2) div 3 * 4 < olen" and "q + olen \<le> length dm"
    and "length xs \<le> olen'" and "q' + olen' \<le> length dm'"
  shows "\<exists>n d1 d2. a2base64url m p (length xs) dm q olen = Some (n, d1) \<and> n = int ((length xs * 4 + 2) div 3) \<and>
    base64urldec d1 q (nat n) dm' q' olen' = Some (int (length xs), d2) \<and> take (length xs) (drop q' d2) = xs"
proof -
  let ?T = "b64_text ubase64tab [] xs"
  let ?d1 = "blit dm q (?T @ [0])"
  have lT: "length ?T = (length xs * 4 + 2) div 3" by (rule b64_text_length_url)
  have "length ?T \<le> (length xs + 2) div 3 * 4" unfolding lT by presburger
  then have "drop q ?d1 = ?T @ 0 # drop (q + length (?T @ [0])) dm"
    using drop_blit [of q "?T @ [0]" dm] assms(3,4) by simp
  then obtain d2 where "base64urldec ?d1 q (length ?T) dm' q' olen' = Some (int (length xs), d2)" "put_at dm' d2 q' olen' 0 xs"
    using base64urldec_text [OF _ assms(5,6,2)] by blast
  moreover have "take (length xs) (drop q' d2) = xs" using put_at_take [OF calculation(2)] assms(5,6) by simp
  ultimately show ?thesis using a2base64url_eq [OF assms(1-4)] unfolding lT by auto
qed

theorem base64url_roundtrip_witness:
  "\<exists>n d1 d2. a2base64url (cstr ''hi'') 0 2 [0,0,0,0,0] 0 5 = Some (n, d1) \<and> n = 3 \<and>
     base64urldec d1 0 (nat n) [0,0] 0 2 = Some (2, d2) \<and> take 2 (drop 0 d2) = cstr ''hi''"
  using base64url_roundtrip [of 0 "cstr ''hi''" "cstr ''hi''" "[]" 5 0 "[0,0,0,0,0]" 2 0 "[0,0]"]
  by (auto simp: cstr_def numeral_2_eq_2)

text \<open>\<^verbatim>\<open>b64tos30\<close> reads from the five characters that \<^verbatim>\<open>s30tob64\<close> writes the lower thirty bits of the
  integer, whatever its sign.\<close>

theorem s30_roundtrip:
  assumes "q + 6 \<le> length dm"
  shows "\<exists>d. s30tob64 v dm q = Some d \<and> b64tos30 d q = Some (uint v mod 1073741824) \<and> d ! (q + 5) = 0"
proof -
  let ?T = "map (\<lambda>k. base64tab ! six k v) [24, 18, 12, 6, 0]"
  have d: "drop q (blit dm q (?T @ [0])) = ?T @ 0 # drop (q + 6) dm" using drop_blit [of q "?T @ [0]" dm] assms by (simp add: eval_nat_numeral)
  have "int (unat v mod 2 ^ 30) = uint v mod 1073741824" by (simp add: zmod_int)
  moreover have "blit dm q (?T @ [0]) ! (q + 5) = 0" using assms by (subst nth_blit) simp_all
  ultimately show ?thesis using s30tob64_eq [OF assms, of v] b64tos30_eq [OF d] by auto
qed

theorem s30_roundtrip_witness:
  "\<exists>d. s30tob64 0xCFFFFFF0 [0,0,0,0,0,0] 0 = Some d \<and> b64tos30 d 0 = Some 0x0FFFFFF0"
  using s30_roundtrip [of 0 "[0,0,0,0,0,0]" "0xCFFFFFF0"] by auto

text \<open>C34. On any input that is not empty, valid or not, \<^verbatim>\<open>base64dec\<close> returns; it never reads outside of
  the input, never changes a byte outside of the \<open>olen\<close> bytes of the output, and the length it returns
  never exceeds \<open>olen\<close>.\<close>

theorem base64dec_bounds:
  assumes "0 < ilen" and "p + ilen \<le> length m" and "q + olen \<le> length dm" and "ilen < 715827882"
  shows "\<exists>r dm'. base64dec m p ilen dm q olen = Some (r, dm') \<and> -2 \<le> r \<and> r \<le> int olen \<and>
    length dm' = length dm \<and> (\<forall>i. i < q \<or> q + olen \<le> i \<longrightarrow> dm' ! i = dm ! i)"
proof (cases "ilen mod 4 = 0")
  case False
  then show ?thesis by (simp add: base64dec_def)
next
  case True
  then obtain g where g: "ilen = 4 * g" by blast
  then have g0: "0 < g" using assms(1) by simp
  let ?R = "take ilen (drop p m)"
  define y x where "y = m ! (p + (ilen - 1))" and "x = m ! (p + (ilen - 2))"
  have "nat (int p + int ilen - 1) = p + (ilen - 1)" "nat (int p + int ilen - 2) = p + (ilen - 2)" using g g0 by linarith+
  then have l: "ld_at m (int p + int ilen - 1) = Some y" "ld_at m (int p + int ilen - 2) = Some x"
    using g g0 assms(2) by (simp_all add: ld_at_def ld_def x_def y_def)
  have lR: "length ?R = ilen" using assms(2) by simp
  have s: "Suc (ilen - 2) = ilen - 1" using g g0 by linarith
  have "drop (ilen - 2) ?R = [x, y]"
  proof (rule nth_equalityI)
    show len: "length (drop (ilen - 2) ?R) = length [x, y]" using lR g g0 by simp
    fix i assume "i < length (drop (ilen - 2) ?R)"
    then have "i = 0 \<or> i = 1" using len by auto
    then show "drop (ilen - 2) ?R ! i = [x, y] ! i"
      using assms(2) g g0 s by (auto simp: x_def y_def nth_take_drop)
  qed
  then have cnt: "count_list (drop (length ?R - 2) ?R) 61 = (if y = 61 then 1 else 0) + (if x = 61 then 1 else 0)"
    unfolding lR by simp
  have "sz_sub (sz_sub (ilen div 4 * 3) (if y = 61 then 1 else 0)) (if x = 61 then 1 else 0)
      = 3 * g - (if y = 61 then 1 else 0) - (if x = 61 then 1 else 0)"
    using g g0 assms(4) by (simp add: sz_sub_small mult.commute)
  then have dec: "base64dec m p ilen dm q olen =
      (if olen < 3 * g - (if y = 61 then 1 else 0) - (if x = 61 then 1 else 0) then Some (-2, dm)
       else base64dec_loop m p ilen [] 0 0 dm q olen)"
    using True l by (simp add: base64dec_def)
  obtain r dm' where r: "base64dec_loop m p ilen [] 0 0 dm q olen = Some (r, dm')" "put_at dm dm' q olen 0 []" "-1 \<le> r"
    "\<forall>g. ilen = 4 * g \<longrightarrow> 0 < g \<longrightarrow> r + int (dec_pads g 0 ?R) \<le> 3 * int g"
    using base64dec_loop_safe [of p ilen m q olen dm "[]" 0 0] assms(2-4) by auto
  have "r + int (dec_pads g 0 ?R) \<le> 3 * int g" using r(4) g g0 by blast
  moreover have "count_list (drop (length ?R - 2) ?R) 61 \<le> dec_pads g 0 ?R"
    using count_list_drop [of "length ?R - 2" ?R 61] by (simp add: dec_pads_def)
  ultimately have "r \<le> int olen" if "\<not> olen < 3 * g - (if y = 61 then 1 else 0) - (if x = 61 then 1 else 0)"
    using that cnt g0 by (auto split: if_splits)
  then show ?thesis using dec r(1-3) by (auto simp: put_at_def)
qed

theorem base64dec_bounds_witness:
  "\<exists>r dm'. base64dec (cstr ''=?A!'') 0 4 [1, 2] 0 1 = Some (r, dm') \<and> length dm' = 2 \<and> r \<le> 1"
  using base64dec_bounds [of 4 0 "cstr ''=?A!''" 0 1 "[1, 2]"] by auto

text \<open>For an empty input \<^verbatim>\<open>base64dec\<close> reads the two characters before its start: outside of the object
  when the input starts there; and when one of them is an equal sign, the size computed from them
  wraps around and an empty input is refused for lack of room.\<close>

theorem base64dec_empty_reads_before:
  "base64dec m 0 0 dm q olen = None \<and> base64dec (cstr ''=='') 2 0 [0] 0 1 = Some (-2, [0])"
  by (simp add: base64dec_def ld_at_def ld_def cstr_def sz_sub_def)

text \<open>A group with three padding characters is accepted, although the comment in the loop says that it
  never is: the test \<^verbatim>\<open>i < 2\<close> comes before the first padding character is counted.\<close>

lemma base64dec_three_pads:
  "map_option fst (base64dec (cstr ''A==='') 0 4 [0, 0, 0] 0 3) = Some 0"
proof -
  have "map_option fst (base64dec_loop (cstr ''A==='') 0 4 [] 0 0 [0, 0, 0] 0 3) = Some 0" by code_simp
  then show ?thesis by (simp add: base64dec_def ld_at_def ld_def cstr_def sz_sub_small)
qed

end
