(* ===== verification/Htx.thy ===== *)
theory Htx
  imports Ist BufOps
begin

unbundle bit_operations_syntax

text \<open>
  HTX, the internal representation of HTTP messages: \<^verbatim>\<open>include/haproxy/htx-t.h\<close>,
  \<^verbatim>\<open>include/haproxy/htx.h\<close> and the storage management of \<^verbatim>\<open>src/htx.c\<close>. A message is one area of bytes,
  \<^verbatim>\<open>blocks[]\<close>: payloads grow from its beginning, and a table of block descriptors (8 bytes each: the
  address and the type and length of a payload) grows from its end, the block at position \<open>p\<close> being
  \<open>8 * (p + 1)\<close> bytes before the end. The model keeps this layout: \<open>htx_mem\<close> is the whole area, a
  \<^verbatim>\<open>struct htx_blk *\<close> is its offset in the area, \<^verbatim>\<open>NULL\<close> is \<open>None\<close>, and descriptors are read and written
  as little-endian bytes, so that a payload that overlaps the table damages it as it does in C.

  The 32-bit fields are integers and every assignment writes the conversion to \<^verbatim>\<open>uint32_t\<close>
  (\<open>uint32\<close>) or \<^verbatim>\<open>int32_t\<close> (\<open>to_int32\<close>) out. \<^verbatim>\<open>htx_defrag\<close> works in a trash chunk: the bytes of its
  area are the argument \<open>tr\<close> of every function that may call it. The strings to store are given as
  lists of bytes.
\<close>

section \<open>Memory\<close>

definition uint32 :: "int \<Rightarrow> int" where
  "uint32 x = x mod 4294967296"

definition mrd :: "bytes \<Rightarrow> int \<Rightarrow> int \<Rightarrow> bytes option" where
  "mrd m p n = (if 0 \<le> p \<and> 0 \<le> n then rd m (nat p) (nat n) else None)"

definition mwr :: "bytes \<Rightarrow> int \<Rightarrow> bytes \<Rightarrow> bytes option" where
  "mwr m p xs = (if 0 \<le> p then wr m (nat p) xs else None)"

text \<open>A \<^verbatim>\<open>uint32_t\<close> in memory.\<close>

definition w32_bytes :: "u32 \<Rightarrow> bytes" where
  "w32_bytes w = [ucast w, ucast (drop_bit 8 w), ucast (drop_bit 16 w), ucast (drop_bit 24 w)]"

definition bytes_w32 :: "bytes \<Rightarrow> u32" where
  "bytes_w32 bs = ucast (bs ! 0) OR push_bit 8 (ucast (bs ! 1)) OR push_bit 16 (ucast (bs ! 2)) OR
     push_bit 24 (ucast (bs ! 3))"

section \<open>The structures\<close>

abbreviation HTX_BLK_REQ_SL :: u32 where "HTX_BLK_REQ_SL \<equiv> 0"
abbreviation HTX_BLK_RES_SL :: u32 where "HTX_BLK_RES_SL \<equiv> 1"
abbreviation HTX_BLK_HDR :: u32 where "HTX_BLK_HDR \<equiv> 2"
abbreviation HTX_BLK_EOH :: u32 where "HTX_BLK_EOH \<equiv> 3"
abbreviation HTX_BLK_DATA :: u32 where "HTX_BLK_DATA \<equiv> 4"
abbreviation HTX_BLK_TLR :: u32 where "HTX_BLK_TLR \<equiv> 5"
abbreviation HTX_BLK_EOT :: u32 where "HTX_BLK_EOT \<equiv> 6"
abbreviation HTX_BLK_UNUSED :: u32 where "HTX_BLK_UNUSED \<equiv> 15"

abbreviation HTX_FL_NONE :: u32 where "HTX_FL_NONE \<equiv> 0"
abbreviation HTX_FL_PARSING_ERROR :: u32 where "HTX_FL_PARSING_ERROR \<equiv> 1"
abbreviation HTX_FL_PROCESSING_ERROR :: u32 where "HTX_FL_PROCESSING_ERROR \<equiv> 2"
abbreviation HTX_FL_FRAGMENTED :: u32 where "HTX_FL_FRAGMENTED \<equiv> 4"
abbreviation HTX_FL_ALTERED_PAYLOAD :: u32 where "HTX_FL_ALTERED_PAYLOAD \<equiv> 8"
abbreviation HTX_FL_EOM :: u32 where "HTX_FL_EOM \<equiv> 16"

record htx_blk =
  blk_addr :: int
  blk_info :: u32

record htx =
  htx_size :: int
  htx_data :: int
  htx_tail :: int
  htx_head :: int
  htx_first :: int
  htx_tail_addr :: int
  htx_head_addr :: int
  htx_end_addr :: int
  htx_extra :: u64
  htx_flags :: u32
  htx_mem :: bytes

type_synonym blkptr = "int option"

text \<open>A descriptor read from the area, and its two fields written.\<close>

definition blk_rd :: "htx \<Rightarrow> int \<Rightarrow> htx_blk option" where
  "blk_rd h p = do {
     a \<leftarrow> mrd (htx_mem h) p 4;
     i \<leftarrow> mrd (htx_mem h) (p + 4) 4;
     Some \<lparr>blk_addr = uint (bytes_w32 a), blk_info = bytes_w32 i\<rparr> }"

definition blk_set_addr :: "htx \<Rightarrow> int \<Rightarrow> int \<Rightarrow> htx option" where
  "blk_set_addr h p a = do {
     m \<leftarrow> mwr (htx_mem h) p (w32_bytes (word_of_int a));
     Some (h\<lparr>htx_mem := m\<rparr>) }"

definition blk_set_info :: "htx \<Rightarrow> int \<Rightarrow> u32 \<Rightarrow> htx option" where
  "blk_set_info h p i = do {
     m \<leftarrow> mwr (htx_mem h) (p + 4) (w32_bytes i);
     Some (h\<lparr>htx_mem := m\<rparr>) }"

definition blk_write :: "htx \<Rightarrow> int \<Rightarrow> bytes \<Rightarrow> htx option" where
  "blk_write h p xs = do {
     m \<leftarrow> mwr (htx_mem h) p xs;
     Some (h\<lparr>htx_mem := m\<rparr>) }"

section \<open>Positions and blocks\<close>

definition htx_pos_to_addr :: "htx \<Rightarrow> int \<Rightarrow> int" where
  "htx_pos_to_addr h pos = uint32 (htx_size h - uint32 (pos + 1) * 8)"

definition htx_get_blk_pos :: "htx \<Rightarrow> int \<Rightarrow> int" where
  "htx_get_blk_pos h blk = uint32 (((htx_size h - blk) mod 18446744073709551616) div 8 - 1)"

definition htx_get_blk :: "htx \<Rightarrow> int \<Rightarrow> int" where
  "htx_get_blk h pos = htx_pos_to_addr h (uint32 pos)"

definition htx_get_blk_type :: "htx_blk \<Rightarrow> u32" where
  "htx_get_blk_type blk = drop_bit 28 (blk_info blk)"

definition htx_get_blksz :: "htx_blk \<Rightarrow> int" where
  "htx_get_blksz blk =
     (let type = htx_get_blk_type blk
      in if type = HTX_BLK_HDR \<or> type = HTX_BLK_TLR
         then uint ((blk_info blk AND 0xff) + (drop_bit 8 (blk_info blk) AND 0xfffff))
         else uint (blk_info blk AND 0xfffffff))"

definition htx_get_head :: "htx \<Rightarrow> int" where
  "htx_get_head h = htx_head h"

definition htx_get_head_blk :: "htx \<Rightarrow> blkptr" where
  "htx_get_head_blk h = (let hea = htx_get_head h in if hea = -1 then None else Some (htx_get_blk h hea))"

definition raw_htx_get_head_blk :: "htx \<Rightarrow> int" where
  "raw_htx_get_head_blk h = htx_get_blk h (htx_get_head h)"

definition htx_type_or_unused :: "htx \<Rightarrow> blkptr \<Rightarrow> u32 option" where
  "htx_type_or_unused h blk =
     (case blk of None \<Rightarrow> Some HTX_BLK_UNUSED
      | Some p \<Rightarrow> do { b \<leftarrow> blk_rd h p; Some (htx_get_blk_type b) })"

definition htx_get_head_type :: "htx \<Rightarrow> u32 option" where
  "htx_get_head_type h = htx_type_or_unused h (htx_get_head_blk h)"

definition htx_get_tail :: "htx \<Rightarrow> int" where
  "htx_get_tail h = htx_tail h"

definition htx_get_tail_blk :: "htx \<Rightarrow> blkptr" where
  "htx_get_tail_blk h = (let tai = htx_get_tail h in if tai = -1 then None else Some (htx_get_blk h tai))"

definition htx_get_tail_type :: "htx \<Rightarrow> u32 option" where
  "htx_get_tail_type h = htx_type_or_unused h (htx_get_tail_blk h)"

definition htx_get_first :: "htx \<Rightarrow> int" where
  "htx_get_first h = htx_first h"

definition htx_get_first_blk :: "htx \<Rightarrow> blkptr" where
  "htx_get_first_blk h = (let pos = htx_get_first h in if pos = -1 then None else Some (htx_get_blk h pos))"

definition htx_get_first_type :: "htx \<Rightarrow> u32 option" where
  "htx_get_first_type h = htx_type_or_unused h (htx_get_first_blk h)"

definition htx_get_prev :: "htx \<Rightarrow> int \<Rightarrow> int" where
  "htx_get_prev h pos =
     (if htx_head h = -1 \<or> uint32 pos = uint32 (htx_head h) then -1 else to_int32 (pos - 1))"

definition htx_get_prev_blk :: "htx \<Rightarrow> int \<Rightarrow> blkptr" where
  "htx_get_prev_blk h blk =
     (let pos = htx_get_prev h (htx_get_blk_pos h blk) in if pos = -1 then None else Some (htx_get_blk h pos))"

definition htx_get_next :: "htx \<Rightarrow> int \<Rightarrow> int" where
  "htx_get_next h pos =
     (if htx_tail h = -1 \<or> uint32 pos = uint32 (htx_tail h) then -1 else to_int32 (pos + 1))"

definition htx_get_next_blk :: "htx \<Rightarrow> int \<Rightarrow> blkptr" where
  "htx_get_next_blk h blk =
     (let pos = htx_get_next h (htx_get_blk_pos h blk) in if pos = -1 then None else Some (htx_get_blk h pos))"

definition htx_is_unique_blk :: "htx \<Rightarrow> int \<Rightarrow> bool option" where
  "htx_is_unique_blk h blk = do { b \<leftarrow> blk_rd h blk; Some (htx_get_blksz b = htx_data h) }"

section \<open>Space\<close>

definition htx_meta_space :: "htx \<Rightarrow> int" where
  "htx_meta_space h = (if htx_tail h = -1 then 0 else uint32 (to_int32 (htx_tail h + 1 - htx_head h) * 8))"

definition htx_used_space :: "htx \<Rightarrow> int" where
  "htx_used_space h = uint32 (htx_data h + htx_meta_space h)"

definition htx_free_space :: "htx \<Rightarrow> int" where
  "htx_free_space h = uint32 (htx_size h - htx_used_space h)"

definition htx_free_data_space :: "htx \<Rightarrow> int" where
  "htx_free_data_space h =
     (let free = htx_free_space h in if free < 8 then 0 else free - 8)"

definition htx_space_wraps :: "htx \<Rightarrow> bool" where
  "htx_space_wraps h =
     (let headroom = uint32 (htx_end_addr h - htx_head_addr h);
          tailroom = uint32 (htx_pos_to_addr h (uint32 (htx_tail h)) - htx_tail_addr h)
      in headroom \<noteq> 0 \<and> tailroom \<noteq> 0)"

definition htx_get_max_blksz :: "htx \<Rightarrow> int \<Rightarrow> int" where
  "htx_get_max_blksz h mx =
     (let free = htx_free_space h;
          free = (if mx \<noteq> -1 \<and> free > uint32 mx then uint32 mx else free)
      in if free < 8 then 0 else free - 8)"

definition htx_almost_full :: "htx \<Rightarrow> bool" where
  "htx_almost_full h = (htx_size h = 0 \<or> htx_free_space h < htx_size h div 4)"

definition htx_reset :: "htx \<Rightarrow> htx" where
  "htx_reset h = h\<lparr>htx_tail := -1, htx_head := -1, htx_first := -1, htx_data := 0,
     htx_tail_addr := 0, htx_head_addr := 0, htx_end_addr := 0, htx_extra := 0,
     htx_flags := HTX_FL_NONE\<rparr>"

definition htx_is_empty :: "htx \<Rightarrow> bool" where
  "htx_is_empty h = (htx_head h = -1)"

definition htx_is_not_empty :: "htx \<Rightarrow> bool" where
  "htx_is_not_empty h = (htx_head h \<noteq> -1)"

definition htx_expect_more :: "htx \<Rightarrow> bool" where
  "htx_expect_more h = (htx_flags h AND HTX_FL_EOM = 0)"

definition htx_nbblks :: "htx \<Rightarrow> int" where
  "htx_nbblks h = (if htx_head h \<noteq> -1 then to_int32 (htx_tail h + 1 - htx_head h) else 0)"

text \<open>The four \<^verbatim>\<open>BUG_ON\<close> that end most of the functions.\<close>

definition htx_check :: "htx \<Rightarrow> unit option" where
  "htx_check h =
     (if to_int32 (htx_tail_addr h) < 0 \<or> to_int32 (htx_head_addr h) < 0 \<or>
         htx_end_addr h > htx_tail_addr h \<or> htx_head_addr h > htx_end_addr h then None else Some ())"

section \<open>Defragmentation\<close>

text \<open>The loop of \<^verbatim>\<open>htx_defrag\<close>: \<open>t\<close> is the message under construction in the trash chunk (its \<open>data\<close> is
  updated), the result is \<open>t\<close>, \<^verbatim>\<open>new\<close>, \<^verbatim>\<open>addr\<close>, \<^verbatim>\<open>first\<close> and \<^verbatim>\<open>blkpos\<close>.\<close>

partial_function (option) htx_defrag_loop ::
  "htx \<Rightarrow> blkptr \<Rightarrow> u32 \<Rightarrow> htx \<Rightarrow> int \<Rightarrow> int \<Rightarrow> int \<Rightarrow> int \<Rightarrow> int \<Rightarrow> (htx \<times> int \<times> int \<times> int \<times> int) option"
where
  "htx_defrag_loop h blk blkinfo t old new addr first blkpos =
     (if old = -1 then Some (t, new, addr, first, blkpos)
      else do {
        let oldblk = htx_get_blk h old;
        ob \<leftarrow> blk_rd h oldblk;
        if htx_get_blk_type ob = HTX_BLK_UNUSED
        then htx_defrag_loop h blk blkinfo t (htx_get_next h old) new addr first blkpos
        else do {
          pl \<leftarrow> mrd (htx_mem h) (blk_addr ob) (htx_get_blksz ob);
          t \<leftarrow> blk_write t addr pl;
          let first = (if htx_first h = old then new else first);
          let newblk = htx_get_blk t new;
          t \<leftarrow> blk_set_addr t newblk addr;
          t \<leftarrow> blk_set_info t newblk (blk_info ob);
          (t, blkpos) \<leftarrow>
            (if blk = Some oldblk
             then do { t \<leftarrow> (if blkinfo \<noteq> 0 then blk_set_info t newblk blkinfo else Some t); Some (t, new) }
             else Some (t, blkpos));
          nb \<leftarrow> blk_rd t newblk;
          let blksz = htx_get_blksz nb;
          htx_defrag_loop h blk blkinfo (t\<lparr>htx_data := uint32 (htx_data t + blksz)\<rparr>) (htx_get_next h old)
            (uint32 (new + 1)) (uint32 (addr + blksz)) first blkpos } })"

declare htx_defrag_loop.simps [code]

definition htx_defrag :: "bytes \<Rightarrow> htx \<Rightarrow> blkptr \<Rightarrow> u32 \<Rightarrow> (htx \<times> blkptr) option" where
  "htx_defrag tr h blk blkinfo =
     (if htx_head h = -1 then Some (h, None)
      else do {
        let tmp = (htx_reset h)\<lparr>htx_mem := tr\<rparr>;
        (t, new, addr, first, blkpos) \<leftarrow> htx_defrag_loop h blk blkinfo tmp (htx_get_head h) 0 0 (-1) (-1);
        bs \<leftarrow> mrd (htx_mem t) 0 (htx_size h);
        m \<leftarrow> mwr (htx_mem h) 0 bs;
        let h = h\<lparr>htx_data := htx_data t, htx_first := to_int32 first, htx_head := 0, htx_tail := to_int32 (new - 1),
                htx_head_addr := 0, htx_end_addr := 0, htx_tail_addr := addr,
                htx_flags := htx_flags h AND NOT HTX_FL_FRAGMENTED, htx_mem := m\<rparr>;
        Some (h, if blkpos = -1 then None else Some (htx_get_blk h blkpos)) })"

partial_function (option) htx_defrag_blks_loop :: "htx \<Rightarrow> int \<Rightarrow> int \<Rightarrow> (htx \<times> int) option" where
  "htx_defrag_blks_loop h pos new =
     (if pos = -1 then Some (h, new)
      else if pos = new then htx_defrag_blks_loop h (htx_get_next h pos) (new + 1)
      else do {
        b \<leftarrow> blk_rd h (htx_get_blk h pos);
        if htx_get_blk_type b = HTX_BLK_UNUSED then htx_defrag_blks_loop h (htx_get_next h pos) new
        else do {
          let h = (if htx_first h = pos then h\<lparr>htx_first := new\<rparr> else h);
          let newblk = htx_get_blk h new;
          h \<leftarrow> blk_set_info h newblk (blk_info b);
          h \<leftarrow> blk_set_addr h newblk (blk_addr b);
          htx_defrag_blks_loop h (htx_get_next h pos) (new + 1) } })"

declare htx_defrag_blks_loop.simps [code]

definition htx_defrag_blks :: "htx \<Rightarrow> htx option" where
  "htx_defrag_blks h = do {
     (h, new) \<leftarrow> htx_defrag_blks_loop h (htx_get_head h) 0;
     if new = 0 then None else Some (h\<lparr>htx_head := 0, htx_tail := new - 1\<rparr>) }"

section \<open>Adding a block\<close>

definition htx_reserve_end :: "htx \<Rightarrow> int \<Rightarrow> int \<Rightarrow> int \<Rightarrow> (htx \<times> blkptr) option" where
  "htx_reserve_end h tail blk blksz = do {
     let h = h\<lparr>htx_tail := to_int32 tail, htx_data := uint32 (htx_data h + blksz)\<rparr>;
     let h = (if htx_first h = -1 then h\<lparr>htx_first := to_int32 tail\<rparr> else h);
     htx_check h;
     Some (h, Some blk) }"

definition htx_reserve_defrag :: "bytes \<Rightarrow> htx \<Rightarrow> int \<Rightarrow> (htx \<times> blkptr) option" where
  "htx_reserve_defrag tr h blksz = do {
     (h, _) \<leftarrow> htx_defrag tr h None 0;
     let tail = uint32 (htx_tail h + 1);
     let blk = htx_get_blk h tail;
     h \<leftarrow> blk_set_addr h blk (htx_tail_addr h);
     htx_reserve_end (h\<lparr>htx_tail_addr := uint32 (htx_tail_addr h + blksz)\<rparr>) tail blk blksz }"

definition htx_reserve_place :: "bytes \<Rightarrow> htx \<Rightarrow> int \<Rightarrow> int \<Rightarrow> (htx \<times> blkptr) option" where
  "htx_reserve_place tr h tail blksz = do {
     let headroom = uint32 (htx_end_addr h - htx_head_addr h);
     let tailroom = (if htx_head_addr h = 0 then uint32 (htx_pos_to_addr h tail - htx_tail_addr h) else 0);
     if to_int32 headroom < 0 \<or> to_int32 tailroom < 0 then None
     else if blksz \<le> tailroom then do {
       let blk = htx_get_blk h tail;
       h \<leftarrow> blk_set_addr h blk (htx_tail_addr h);
       htx_reserve_end (h\<lparr>htx_tail_addr := uint32 (htx_tail_addr h + blksz)\<rparr>) tail blk blksz }
     else if blksz \<le> headroom then do {
       let blk = htx_get_blk h tail;
       h \<leftarrow> blk_set_addr h blk (htx_head_addr h);
       htx_reserve_end (h\<lparr>htx_head_addr := uint32 (htx_head_addr h + blksz)\<rparr>) tail blk blksz }
     else htx_reserve_defrag tr h blksz }"

definition htx_reserve_nxblk :: "bytes \<Rightarrow> htx \<Rightarrow> int \<Rightarrow> (htx \<times> blkptr) option" where
  "htx_reserve_nxblk tr h blksz =
     (if blksz > htx_free_data_space h then Some (h, None)
      else if htx_head h = -1 then do {
        let h = h\<lparr>htx_head := 0, htx_tail := 0, htx_first := 0\<rparr>;
        let blk = htx_get_blk h (htx_tail h);
        h \<leftarrow> blk_set_addr h blk 0;
        Some (h\<lparr>htx_data := blksz, htx_tail_addr := blksz\<rparr>, Some blk) }
      else do {
        let tail = uint32 (htx_tail h + 1);
        if htx_pos_to_addr h tail \<ge> htx_tail_addr h then htx_reserve_place tr h tail blksz
        else if htx_head h > 0 then do {
          h \<leftarrow> htx_defrag_blks h;
          let tail = uint32 (htx_tail h + 1);
          if htx_pos_to_addr h tail < htx_tail_addr h then None else htx_reserve_place tr h tail blksz }
        else htx_reserve_defrag tr h blksz })"

definition htx_add_blk :: "bytes \<Rightarrow> htx \<Rightarrow> u32 \<Rightarrow> int \<Rightarrow> (htx \<times> blkptr) option" where
  "htx_add_blk tr h type blksz =
     (if blksz \<ge> 268435456 then None
      else do {
        (h, r) \<leftarrow> htx_reserve_nxblk tr h blksz;
        case r of None \<Rightarrow> Some (h, None)
        | Some blk \<Rightarrow> do {
            b \<leftarrow> blk_rd h blk;
            if blk_addr b > htx_size h then None
            else do {
              h \<leftarrow> blk_set_info h blk (push_bit 28 type);
              Some (h, Some blk) } } })"

section \<open>Removing a block\<close>

definition htx_remove_blk :: "htx \<Rightarrow> int \<Rightarrow> (htx \<times> blkptr) option" where
  "htx_remove_blk h blk =
     (if htx_head h = -1 then None
      else if htx_head h = htx_tail h then
        (let flags = htx_flags h AND NOT HTX_FL_FRAGMENTED in Some ((htx_reset h)\<lparr>htx_flags := flags\<rparr>, None))
      else do {
        b \<leftarrow> blk_rd h blk;
        let type = htx_get_blk_type b;
        let pos = htx_get_blk_pos h blk;
        let sz = htx_get_blksz b;
        let addr = blk_addr b;
        h \<leftarrow> (if type \<noteq> HTX_BLK_UNUSED
               then blk_set_info (h\<lparr>htx_data := uint32 (htx_data h - sz)\<rparr>) blk (push_bit 28 HTX_BLK_UNUSED)
               else Some h);
        let (h, r) =
          (if pos = uint32 (htx_head h)
           then let h = h\<lparr>htx_head := htx_head h + 1\<rparr> in (h, Some (htx_get_blk h (pos + 1)))
           else if pos = uint32 (htx_tail h) then (h\<lparr>htx_tail := htx_tail h - 1\<rparr>, None)
           else let h = h\<lparr>htx_flags := htx_flags h OR HTX_FL_FRAGMENTED\<rparr> in (h, Some (htx_get_blk h (pos + 1))));
        let h = (if pos = uint32 (htx_first h)
                 then h\<lparr>htx_first := (case r of Some p \<Rightarrow> to_int32 (htx_get_blk_pos h p) | None \<Rightarrow> -1)\<rparr> else h);
        h \<leftarrow>
          (if htx_head h = htx_tail h then do {
             lastblk \<leftarrow> blk_rd h (htx_get_blk h (htx_tail h));
             Some (h\<lparr>htx_head_addr := 0, htx_end_addr := blk_addr lastblk,
                     htx_tail_addr := uint32 (blk_addr lastblk + htx_data h)\<rparr>) }
           else do {
             let h = (if uint32 (addr + sz) = htx_tail_addr h then h\<lparr>htx_tail_addr := addr\<rparr>
                      else if uint32 (addr + sz) = htx_head_addr h then h\<lparr>htx_head_addr := addr\<rparr> else h);
             Some (if addr = htx_end_addr h
                   then if htx_tail_addr h = htx_end_addr h
                        then h\<lparr>htx_tail_addr := htx_head_addr h, htx_head_addr := 0, htx_end_addr := 0\<rparr>
                        else h\<lparr>htx_end_addr := uint32 (htx_end_addr h + sz)\<rparr>
                   else h) });
        htx_check h;
        Some (h, r) })"

section \<open>Block contents\<close>

text \<open>A string inside the area: its address and its length. \<open>None\<close> is the constant \<^verbatim>\<open>ist("")\<close>.\<close>

type_synonym hist = "(int \<times> int) option"

definition htx_get_blk_ptr :: "htx_blk \<Rightarrow> int" where
  "htx_get_blk_ptr b = blk_addr b"

definition htx_get_blk_name :: "htx_blk \<Rightarrow> hist" where
  "htx_get_blk_name b =
     (let type = htx_get_blk_type b
      in if type = HTX_BLK_HDR \<or> type = HTX_BLK_TLR then Some (htx_get_blk_ptr b, uint (blk_info b AND 0xff)) else None)"

definition htx_get_blk_value :: "htx_blk \<Rightarrow> hist" where
  "htx_get_blk_value b =
     (let type = htx_get_blk_type b
      in if type = HTX_BLK_HDR \<or> type = HTX_BLK_TLR
         then Some (htx_get_blk_ptr b + uint (blk_info b AND 0xff), uint (drop_bit 8 (blk_info b) AND 0xfffff))
         else if type = HTX_BLK_REQ_SL \<or> type = HTX_BLK_RES_SL \<or> type = HTX_BLK_DATA
         then Some (htx_get_blk_ptr b, uint (blk_info b AND 0xfffffff))
         else None)"

definition blk_add_info :: "htx \<Rightarrow> int \<Rightarrow> u32 \<Rightarrow> htx option" where
  "blk_add_info h blk i = do { b \<leftarrow> blk_rd h blk; blk_set_info h blk (blk_info b + i) }"

definition htx_change_blk_value_len :: "htx \<Rightarrow> int \<Rightarrow> int \<Rightarrow> htx option" where
  "htx_change_blk_value_len h blk newlen = do {
     b \<leftarrow> blk_rd h blk;
     let type = htx_get_blk_type b;
     let sz = htx_get_blksz b;
     let (oldlen, info) =
       (if type = HTX_BLK_HDR \<or> type = HTX_BLK_TLR
        then (uint (drop_bit 8 (blk_info b) AND 0xfffff),
              push_bit 28 type + push_bit 8 (word_of_int newlen) + (blk_info b AND 0xff))
        else (uint (blk_info b AND 0xfffffff), push_bit 28 type + word_of_int newlen));
     h \<leftarrow> blk_set_info h blk info;
     let delta = to_int32 (newlen - oldlen);
     let h = h\<lparr>htx_data := uint32 (htx_data h + delta)\<rparr>;
     Some (if uint32 (blk_addr b + sz) = htx_tail_addr h then h\<lparr>htx_tail_addr := uint32 (htx_tail_addr h + delta)\<rparr>
           else if uint32 (blk_addr b + sz) = htx_head_addr h then h\<lparr>htx_head_addr := uint32 (htx_head_addr h + delta)\<rparr>
           else h) }"

text \<open>\<^verbatim>\<open>htx_set_blk_value_len\<close>: the descriptor with its new length.\<close>

definition htx_set_blk_value_len :: "htx_blk \<Rightarrow> int \<Rightarrow> htx_blk" where
  "htx_set_blk_value_len b vlen =
     (let type = htx_get_blk_type b
      in if type = HTX_BLK_HDR \<or> type = HTX_BLK_TLR
         then b\<lparr>blk_info := push_bit 28 type + push_bit 8 (word_of_int vlen) + (blk_info b AND 0xff)\<rparr>
         else if type = HTX_BLK_REQ_SL \<or> type = HTX_BLK_RES_SL \<or> type = HTX_BLK_DATA
         then b\<lparr>blk_info := push_bit 28 type + word_of_int vlen\<rparr>
         else b)"

definition htx_cut_data_blk :: "htx \<Rightarrow> int \<Rightarrow> int \<Rightarrow> htx option" where
  "htx_cut_data_blk h blk n = do {
     b \<leftarrow> blk_rd h blk;
     let h = (if blk_addr b = htx_end_addr h then h\<lparr>htx_end_addr := uint32 (htx_end_addr h + n)\<rparr> else h);
     h \<leftarrow> blk_set_addr h blk (uint32 (blk_addr b + n));
     h \<leftarrow> blk_set_info h blk (blk_info b - word_of_int n);
     Some (h\<lparr>htx_data := uint32 (htx_data h - n)\<rparr>) }"

section \<open>Adding typed blocks\<close>

text \<open>\<^verbatim>\<open>ist2bin_lc\<close> into the area.\<close>

definition blk_write_lc :: "htx \<Rightarrow> int \<Rightarrow> bytes \<Rightarrow> htx option" where
  "blk_write_lc h p name =
     (if p < 0 then None
      else do {
        (_, m) \<leftarrow> ist2bin_lc name (htx_mem h) (Some (nat p)) (ist2 (Some 0) (length name));
        Some (h\<lparr>htx_mem := m\<rparr>) })"

text \<open>\<^verbatim>\<open>sizeof(struct htx_sl)\<close> is 20: the flags, the two bytes of the union, two bytes of padding and the
  three lengths.\<close>

definition htx_sl_put :: "htx \<Rightarrow> int \<Rightarrow> bytes \<Rightarrow> bytes \<Rightarrow> bytes \<Rightarrow> htx option" where
  "htx_sl_put h sl p1 p2 p3 = do {
     h \<leftarrow> blk_write h (sl + 8) (w32_bytes (word_of_nat (length p1)));
     h \<leftarrow> blk_write h (sl + 12) (w32_bytes (word_of_nat (length p2)));
     h \<leftarrow> blk_write h (sl + 16) (w32_bytes (word_of_nat (length p3)));
     h \<leftarrow> blk_write h (sl + 20) p1;
     h \<leftarrow> blk_write h (sl + 20 + int (length p1)) p2;
     blk_write h (sl + 20 + int (length p1) + int (length p2)) p3 }"

definition htx_add_stline :: "bytes \<Rightarrow> htx \<Rightarrow> u32 \<Rightarrow> u32 \<Rightarrow> bytes \<Rightarrow> bytes \<Rightarrow> bytes \<Rightarrow> (htx \<times> int option) option" where
  "htx_add_stline tr h type flags p1 p2 p3 =
     (if type \<noteq> HTX_BLK_REQ_SL \<and> type \<noteq> HTX_BLK_RES_SL then Some (h, None)
      else do {
        let sz = uint32 (20 + int (length p1) + int (length p2) + int (length p3));
        (h, r) \<leftarrow> htx_add_blk tr h type sz;
        case r of None \<Rightarrow> Some (h, None)
        | Some blk \<Rightarrow> do {
            h \<leftarrow> blk_add_info h blk (word_of_int sz);
            b \<leftarrow> blk_rd h blk;
            let sl = htx_get_blk_ptr b;
            h \<leftarrow> blk_write h sl (w32_bytes flags);
            h \<leftarrow> htx_sl_put h sl p1 p2 p3;
            Some (h, Some sl) } })"

definition htx_add_name_value :: "bytes \<Rightarrow> htx \<Rightarrow> u32 \<Rightarrow> bytes \<Rightarrow> bytes \<Rightarrow> (htx \<times> blkptr) option" where
  "htx_add_name_value tr h type name val =
     (if length name > 255 \<or> length val > 1048575 then Some (h, None)
      else do {
        (h, r) \<leftarrow> htx_add_blk tr h type (int (length name + length val));
        case r of None \<Rightarrow> Some (h, None)
        | Some blk \<Rightarrow> do {
            h \<leftarrow> blk_add_info h blk (word_of_nat (length val * 256 + length name));
            b \<leftarrow> blk_rd h blk;
            h \<leftarrow> blk_write_lc h (htx_get_blk_ptr b) name;
            h \<leftarrow> blk_write h (htx_get_blk_ptr b + int (length name)) val;
            Some (h, Some blk) } })"

definition htx_add_header :: "bytes \<Rightarrow> htx \<Rightarrow> bytes \<Rightarrow> bytes \<Rightarrow> (htx \<times> blkptr) option" where
  "htx_add_header tr h name val = htx_add_name_value tr h HTX_BLK_HDR name val"

definition htx_add_trailer :: "bytes \<Rightarrow> htx \<Rightarrow> bytes \<Rightarrow> bytes \<Rightarrow> (htx \<times> blkptr) option" where
  "htx_add_trailer tr h name val = htx_add_name_value tr h HTX_BLK_TLR name val"

definition htx_add_endof :: "bytes \<Rightarrow> htx \<Rightarrow> u32 \<Rightarrow> (htx \<times> blkptr) option" where
  "htx_add_endof tr h type = do {
     (h, r) \<leftarrow> htx_add_blk tr h type 1;
     case r of None \<Rightarrow> Some (h, None)
     | Some blk \<Rightarrow> do { h \<leftarrow> blk_add_info h blk 1; Some (h, Some blk) } }"

text \<open>The lists of headers end with an empty name; a value without pointer is \<open>None\<close>. \<open>tr\<close> gives the
  content of the trash chunk at each call.\<close>

fun htx_add_all :: "(nat \<Rightarrow> bytes) \<Rightarrow> htx \<Rightarrow> u32 \<Rightarrow> u32 \<Rightarrow> (bytes \<times> bytes option) list \<Rightarrow> (htx \<times> blkptr) option" where
  "htx_add_all tr h type fin [] = None"
| "htx_add_all tr h type fin ((n, v) # hdrs) =
     (if n = [] then htx_add_endof (tr 0) h fin
      else case v of None \<Rightarrow> htx_add_all (\<lambda>i. tr (Suc i)) h type fin hdrs
      | Some val \<Rightarrow> do {
          (h, r) \<leftarrow> htx_add_name_value (tr 0) h type n val;
          if r = None then Some (h, None) else htx_add_all (\<lambda>i. tr (Suc i)) h type fin hdrs })"

definition htx_add_all_headers :: "(nat \<Rightarrow> bytes) \<Rightarrow> htx \<Rightarrow> (bytes \<times> bytes option) list \<Rightarrow> (htx \<times> blkptr) option" where
  "htx_add_all_headers tr h hdrs = htx_add_all tr h HTX_BLK_HDR HTX_BLK_EOH hdrs"

definition htx_add_all_trailers :: "(nat \<Rightarrow> bytes) \<Rightarrow> htx \<Rightarrow> (bytes \<times> bytes option) list \<Rightarrow> (htx \<times> blkptr) option" where
  "htx_add_all_trailers tr h hdrs = htx_add_all tr h HTX_BLK_TLR HTX_BLK_EOT hdrs"

definition htx_set_eom :: "bytes \<Rightarrow> htx \<Rightarrow> (htx \<times> int) option" where
  "htx_set_eom tr h = do {
     (h, ok) \<leftarrow>
       (if htx_is_empty h
        then do { (h, r) \<leftarrow> htx_add_endof tr h HTX_BLK_EOT; Some (h, r \<noteq> None) }
        else Some (h, True));
     if \<not> ok then Some (h, 0) else Some (h\<lparr>htx_flags := htx_flags h OR HTX_FL_EOM\<rparr>, 1) }"

section \<open>Data\<close>

text \<open>The end of \<^verbatim>\<open>htx_add_data_atonce\<close>: its label \<^verbatim>\<open>add_new_block\<close>.\<close>

definition htx_add_new_data :: "bytes \<Rightarrow> htx \<Rightarrow> bytes \<Rightarrow> (htx \<times> blkptr) option" where
  "htx_add_new_data tr h xs = do {
     (h, r) \<leftarrow> htx_add_blk tr h HTX_BLK_DATA (uint32 (int (length xs)));
     case r of None \<Rightarrow> Some (h, None)
     | Some blk \<Rightarrow> do {
         h \<leftarrow> blk_add_info h blk (word_of_nat (length xs));
         b \<leftarrow> blk_rd h blk;
         h \<leftarrow> blk_write h (htx_get_blk_ptr b) xs;
         Some (h, Some blk) } }"

definition htx_append_data :: "htx \<Rightarrow> int \<Rightarrow> bytes \<Rightarrow> htx option" where
  "htx_append_data h blk xs = do {
     b \<leftarrow> blk_rd h blk;
     h \<leftarrow> blk_write h (htx_get_blk_ptr b + htx_get_blksz b) xs;
     htx_change_blk_value_len h blk (uint32 (htx_get_blksz b + int (length xs))) }"

definition htx_add_data_atonce :: "bytes \<Rightarrow> htx \<Rightarrow> bytes \<Rightarrow> (htx \<times> blkptr) option" where
  "htx_add_data_atonce tr h xs =
     (let add_new = (\<lambda>h xs. do {
            (h, r) \<leftarrow> htx_add_new_data tr h xs;
            case r of None \<Rightarrow> Some (h, None) | Some blk \<Rightarrow> do { htx_check h; Some (h, Some blk) } })
      in if htx_head h = -1 then add_new h xs
      else if int (length xs) > htx_free_data_space h then Some (h, None)
      else case htx_get_tail_blk h of None \<Rightarrow> add_new h xs
      | Some tailblk \<Rightarrow> do {
          b \<leftarrow> blk_rd h tailblk;
          let sz = htx_get_blksz b;
          if htx_get_blk_type b \<noteq> HTX_BLK_DATA then add_new h xs
          else do {
            let headroom = uint32 (htx_end_addr h - htx_head_addr h);
            let tailroom = uint32 (htx_pos_to_addr h (uint32 (htx_tail h)) - htx_tail_addr h);
            if to_int32 headroom < 0 \<or> to_int32 tailroom < 0 then None
            else do {
              let append =
                (if uint32 (blk_addr b + sz) = htx_tail_addr h
                 then if int (length xs) \<le> tailroom then Some (int (length xs))
                      else if htx_head_addr h = 0 then Some tailroom
                      else None
                 else if uint32 (blk_addr b + sz) = htx_head_addr h \<and> int (length xs) \<le> headroom then Some (int (length xs))
                 else None);
              case append of None \<Rightarrow> add_new h xs
              | Some len \<Rightarrow> do {
                  h \<leftarrow> htx_append_data h tailblk (take (nat len) xs);
                  if int (length xs) = len then do { htx_check h; Some (h, Some tailblk) }
                  else add_new h (drop (nat len) xs) } } } })"

definition htx_add_data :: "bytes \<Rightarrow> htx \<Rightarrow> bytes \<Rightarrow> (htx \<times> int) option" where
  "htx_add_data tr h xs =
     (let len = to_int32 (int (length xs));
          len = (if uint32 len > htx_free_data_space h then to_int32 (htx_free_data_space h) else len);
          add_new = (\<lambda>len. do {
            (h, r) \<leftarrow> htx_add_new_data tr h (take (nat len) xs);
            case r of None \<Rightarrow> Some (h, 0) | Some blk \<Rightarrow> Some (h, len) })
      in if len = 0 then Some (h, 0)
      else if htx_head h = -1 then add_new len
      else case htx_get_tail_blk h of None \<Rightarrow> add_new len
      | Some tailblk \<Rightarrow> do {
          b \<leftarrow> blk_rd h tailblk;
          let sz = htx_get_blksz b;
          if htx_get_blk_type b \<noteq> HTX_BLK_DATA then add_new len
          else do {
            let (here, room) =
              (if htx_head_addr h = 0
               then (uint32 (blk_addr b + sz) = htx_tail_addr h,
                     uint32 (htx_pos_to_addr h (uint32 (htx_tail h)) - htx_tail_addr h))
               else (uint32 (blk_addr b + sz) = htx_head_addr h, uint32 (htx_end_addr h - htx_head_addr h)));
            if \<not> here then add_new len
            else if to_int32 room < 0 then None
            else do {
              let len = (if room < uint32 len then to_int32 room else len);
              h \<leftarrow> htx_append_data h tailblk (take (nat len) xs);
              htx_check h;
              Some (h, len) } } })"

definition htx_reserve_max_data :: "bytes \<Rightarrow> htx \<Rightarrow> (htx \<times> int \<times> blkptr) option" where
  "htx_reserve_max_data tr h =
     (let len = to_int32 (htx_free_data_space h);
          rsv_new = (do {
            (h, r) \<leftarrow> htx_add_blk tr h HTX_BLK_DATA (uint32 len);
            case r of None \<Rightarrow> Some (h, 0, None)
            | Some blk \<Rightarrow> do { h \<leftarrow> blk_add_info h blk (word_of_int len); Some (h, 0, Some blk) } })
      in if htx_head h = -1 then rsv_new
      else if len = 0 then Some (h, 0, None)
      else case htx_get_tail_blk h of None \<Rightarrow> rsv_new
      | Some tailblk \<Rightarrow> do {
          b \<leftarrow> blk_rd h tailblk;
          let sz = htx_get_blksz b;
          if htx_get_blk_type b \<noteq> HTX_BLK_DATA then rsv_new
          else do {
            let (here, room) =
              (if htx_head_addr h = 0
               then (uint32 (blk_addr b + sz) = htx_tail_addr h,
                     uint32 (htx_pos_to_addr h (uint32 (htx_tail h)) - htx_tail_addr h))
               else (uint32 (blk_addr b + sz) = htx_head_addr h, uint32 (htx_end_addr h - htx_head_addr h)));
            if \<not> here then rsv_new
            else if to_int32 room < 0 then None
            else do {
              let len = (if room < uint32 len then to_int32 room else len);
              h \<leftarrow> htx_change_blk_value_len h tailblk (uint32 (sz + len));
              htx_check h;
              Some (h, to_int32 sz, Some tailblk) } } })"

section \<open>Finding, truncating, draining\<close>

partial_function (option) htx_find_loop :: "htx \<Rightarrow> blkptr \<Rightarrow> int \<Rightarrow> (blkptr \<times> int) option" where
  "htx_find_loop h blk ofs =
     (case blk of None \<Rightarrow> Some (None, ofs)
      | Some p \<Rightarrow>
          if ofs = 0 then Some (Some p, 0)
          else do {
            b \<leftarrow> blk_rd h p;
            let sz = htx_get_blksz b;
            if ofs < sz then Some (Some p, ofs) else htx_find_loop h (htx_get_next_blk h p) (uint32 (ofs - sz)) })"

declare htx_find_loop.simps [code]

definition htx_find_offset :: "htx \<Rightarrow> int \<Rightarrow> (blkptr \<times> int) option" where
  "htx_find_offset h ofs =
     (if ofs \<ge> htx_data h then Some (None, 0)
      else do {
        (blk, ofs) \<leftarrow> htx_find_loop h (htx_get_head_blk h) ofs;
        Some (blk, to_int32 ofs) })"

partial_function (option) htx_remove_all :: "htx \<Rightarrow> blkptr \<Rightarrow> htx option" where
  "htx_remove_all h blk =
     (case blk of None \<Rightarrow> Some h
      | Some p \<Rightarrow> do { (h, blk) \<leftarrow> htx_remove_blk h p; htx_remove_all h blk })"

declare htx_remove_all.simps [code]

definition htx_truncate :: "htx \<Rightarrow> int \<Rightarrow> htx option" where
  "htx_truncate h ofs = do {
     (blk, ret) \<leftarrow> htx_find_offset h ofs;
     case blk of None \<Rightarrow> Some h
     | Some p \<Rightarrow> do {
         b \<leftarrow> blk_rd h p;
         if ret \<noteq> 0 \<and> htx_get_blk_type b = HTX_BLK_DATA
         then do { h \<leftarrow> htx_change_blk_value_len h p (uint32 ret); htx_remove_all h (htx_get_next_blk h p) }
         else htx_remove_all h (Some p) } }"

partial_function (option) htx_drain_loop :: "htx \<Rightarrow> blkptr \<Rightarrow> int \<Rightarrow> int \<Rightarrow> (htx \<times> blkptr \<times> int) option" where
  "htx_drain_loop h blk count ret =
     (case blk of None \<Rightarrow> Some (h, None, ret)
      | Some p \<Rightarrow>
          if count = 0 then Some (h, Some p, ret)
          else do {
            b \<leftarrow> blk_rd h p;
            let sz = htx_get_blksz b;
            let type = htx_get_blk_type b;
            if type = HTX_BLK_UNUSED
            then do { (h, blk) \<leftarrow> htx_remove_blk h p; htx_drain_loop h blk count ret }
            else if sz > count
            then if type = HTX_BLK_DATA
                 then do { h \<leftarrow> htx_cut_data_blk h p count; Some (h, Some p, to_int32 (ret + count)) }
                 else Some (h, Some p, ret)
            else do {
              (h, blk) \<leftarrow> htx_remove_blk h p;
              htx_drain_loop h blk (uint32 (count - sz)) (to_int32 (ret + sz)) } })"

declare htx_drain_loop.simps [code]

definition htx_drain :: "htx \<Rightarrow> int \<Rightarrow> (htx \<times> blkptr \<times> int) option" where
  "htx_drain h count =
     (if count = htx_data h
      then let flags = htx_flags h AND NOT HTX_FL_FRAGMENTED
           in Some ((htx_reset h)\<lparr>htx_flags := flags\<rparr>, None, to_int32 count)
      else htx_drain_loop h (htx_get_head_blk h) count 0)"

partial_function (option) htx_skip_loop :: "htx \<Rightarrow> blkptr \<Rightarrow> htx option" where
  "htx_skip_loop h blk =
     (case blk of None \<Rightarrow> Some h
      | Some p \<Rightarrow> do {
          b \<leftarrow> blk_rd h p;
          if htx_get_blk_type b > HTX_BLK_EOH
          then do { (h, blk) \<leftarrow> htx_remove_blk h p; htx_skip_loop h blk }
          else htx_skip_loop h (htx_get_next_blk h p) })"

declare htx_skip_loop.simps [code]

definition htx_skip_msg_payload :: "htx \<Rightarrow> htx option" where
  "htx_skip_msg_payload h = htx_skip_loop h (htx_get_first_blk h)"

section \<open>Replacing\<close>

definition htx_prepare_blk_expansion :: "htx \<Rightarrow> int \<Rightarrow> int \<Rightarrow> (htx \<times> int) option" where
  "htx_prepare_blk_expansion h blk delta =
     (if htx_head h = -1 then None
      else do {
        let headroom = uint32 (htx_end_addr h - htx_head_addr h);
        let tailroom = uint32 (htx_pos_to_addr h (uint32 (htx_tail h)) - htx_tail_addr h);
        if to_int32 headroom < 0 \<or> to_int32 tailroom < 0 then None
        else do {
          b \<leftarrow> blk_rd h blk;
          let sz = htx_get_blksz b;
          let stop = uint32 (blk_addr b + sz);
          (h, ret) \<leftarrow>
            (if delta \<le> 0
             then Some (if stop = htx_tail_addr h then h\<lparr>htx_tail_addr := uint32 (htx_tail_addr h + delta)\<rparr>
                        else if stop = htx_head_addr h then h\<lparr>htx_head_addr := uint32 (htx_head_addr h + delta)\<rparr>
                        else h, 1)
             else if delta > htx_free_space h then Some (h, 0)
             else if stop = htx_tail_addr h
             then if delta < tailroom then Some (h\<lparr>htx_tail_addr := uint32 (htx_tail_addr h + delta)\<rparr>, 1)
                  else if uint32 (sz + delta) < headroom
                  then do {
                    let oldaddr = blk_addr b;
                    h \<leftarrow> blk_set_addr h blk (htx_head_addr h);
                    let h = h\<lparr>htx_tail_addr := uint32 (htx_tail_addr h - sz), htx_head_addr := uint32 (htx_head_addr h + sz + delta)\<rparr>;
                    Some (if oldaddr = htx_end_addr h
                          then if htx_end_addr h = htx_tail_addr h
                               then h\<lparr>htx_tail_addr := htx_head_addr h, htx_head_addr := 0, htx_end_addr := 0\<rparr>
                               else h\<lparr>htx_end_addr := uint32 (htx_end_addr h + sz)\<rparr>
                          else h, 2) }
                  else Some (h, 3)
             else if stop = htx_head_addr h
             then if delta < headroom then Some (h\<lparr>htx_head_addr := uint32 (htx_head_addr h + delta)\<rparr>, 1) else Some (h, 3)
             else if htx_head_addr h = 0 \<and> uint32 (sz + delta) < tailroom
             then do {
               let h = (if blk_addr b = htx_end_addr h then h\<lparr>htx_end_addr := uint32 (htx_end_addr h + sz)\<rparr> else h);
               h \<leftarrow> blk_set_addr h blk (htx_tail_addr h);
               Some (h\<lparr>htx_tail_addr := uint32 (htx_tail_addr h + sz + delta)\<rparr>, 2) }
             else if uint32 (sz + delta) < headroom
             then do {
               let h = (if blk_addr b = htx_end_addr h then h\<lparr>htx_end_addr := uint32 (htx_end_addr h + sz)\<rparr> else h);
               h \<leftarrow> blk_set_addr h blk (htx_head_addr h);
               Some (h\<lparr>htx_head_addr := uint32 (htx_head_addr h + sz + delta)\<rparr>, 2) }
             else Some (h, 3));
          htx_check h;
          Some (h, ret) } })"

definition htx_copy :: "htx \<Rightarrow> int \<Rightarrow> int \<Rightarrow> int \<Rightarrow> htx option" where
  "htx_copy h dst src n = do { xs \<leftarrow> mrd (htx_mem h) src n; blk_write h dst xs }"

definition blk_store_len :: "htx \<Rightarrow> int \<Rightarrow> int \<Rightarrow> htx option" where
  "blk_store_len h blk vlen = do { b \<leftarrow> blk_rd h blk; blk_set_info h blk (blk_info (htx_set_blk_value_len b vlen)) }"

text \<open>\<open>(op, ol)\<close> is the part \<^verbatim>\<open>old\<close> of the value, inside the area. For a block without value the pointer
  differences of the function are undefined.\<close>

definition htx_replace_blk_value :: "bytes \<Rightarrow> htx \<Rightarrow> int \<Rightarrow> int \<times> int \<Rightarrow> bytes \<Rightarrow> (htx \<times> blkptr) option" where
  "htx_replace_blk_value tr h blk old new = do {
     let (op, ol) = old;
     let nl = int (length new);
     b \<leftarrow> blk_rd h blk;
     let n = htx_get_blk_name b;
     (vp, vl) \<leftarrow> htx_get_blk_value b;
     let delta = to_int32 (nl - ol);
     let after = vp + vl - (op + ol);
     (h, ret) \<leftarrow> htx_prepare_blk_expansion h blk delta;
     if ret = 0 then Some (h, None)
     else if ret = 1 then do {
       h \<leftarrow> (if delta \<le> 0
             then do { h \<leftarrow> blk_write h op new; htx_copy h (op + nl) (op + ol) after }
             else do { h \<leftarrow> htx_copy h (op + nl) (op + ol) after; blk_write h op new });
       h \<leftarrow> blk_store_len h blk (vl + delta);
       Some (h\<lparr>htx_data := uint32 (htx_data h + delta)\<rparr>, Some blk) }
     else if ret = 2 then do {
       nb \<leftarrow> blk_rd h blk;
       let p = htx_get_blk_ptr nb;
       (h, p) \<leftarrow> (case n of None \<Rightarrow> Some (h, p)
                | Some (np, nml) \<Rightarrow> do { h \<leftarrow> htx_copy h p np nml; Some (h, p + nml) });
       h \<leftarrow> htx_copy h p vp (op - vp);
       let p = p + (op - vp);
       h \<leftarrow> blk_write h p new;
       let p = p + nl;
       h \<leftarrow> htx_copy h p (op + ol) after;
       h \<leftarrow> blk_store_len h blk (vl + delta);
       Some (h\<lparr>htx_data := uint32 (htx_data h + delta)\<rparr>, Some blk) }
     else do {
       tb \<leftarrow> blk_rd h blk;
       let tmpblk = htx_set_blk_value_len tb (vl + delta);
       (h, r) \<leftarrow> htx_defrag tr h (Some blk) (blk_info tmpblk);
       blk \<leftarrow> r;
       nb \<leftarrow> blk_rd h blk;
       let offset = to_int32 (blk_addr nb - blk_addr tmpblk);
       h \<leftarrow> htx_copy h (op + offset + nl) (op + offset + ol) after;
       h \<leftarrow> blk_write h (op + offset) new;
       Some (h, Some blk) } }"

definition htx_replace_header :: "bytes \<Rightarrow> htx \<Rightarrow> int \<Rightarrow> bytes \<Rightarrow> bytes \<Rightarrow> (htx \<times> blkptr) option" where
  "htx_replace_header tr h blk name val = do {
     b \<leftarrow> blk_rd h blk;
     let type = htx_get_blk_type b;
     if type \<noteq> HTX_BLK_HDR then Some (h, None)
     else do {
       let info = push_bit 28 type + push_bit 8 (word_of_nat (length val)) + word_of_nat (length name);
       let delta = to_int32 (int (length name) + int (length val) - htx_get_blksz b);
       (h, ret) \<leftarrow> htx_prepare_blk_expansion h blk delta;
       if ret = 0 then Some (h, None)
       else do {
         (h, r) \<leftarrow>
           (if ret = 3 then htx_defrag tr h (Some blk) info
            else do {
              h \<leftarrow> blk_set_info h blk info;
              Some (h\<lparr>htx_data := uint32 (htx_data h + delta)\<rparr>, Some blk) });
         blk \<leftarrow> r;
         nb \<leftarrow> blk_rd h blk;
         h \<leftarrow> blk_write_lc h (htx_get_blk_ptr nb) name;
         h \<leftarrow> blk_write h (htx_get_blk_ptr nb + int (length name)) val;
         Some (h, Some blk) } } }"

definition htx_replace_stline :: "bytes \<Rightarrow> htx \<Rightarrow> int \<Rightarrow> bytes \<Rightarrow> bytes \<Rightarrow> bytes \<Rightarrow> (htx \<times> int option) option" where
  "htx_replace_stline tr h blk p1 p2 p3 = do {
     b \<leftarrow> blk_rd h blk;
     let type = htx_get_blk_type b;
     if type \<noteq> HTX_BLK_REQ_SL \<and> type \<noteq> HTX_BLK_RES_SL then Some (h, None)
     else do {
       flags \<leftarrow> mrd (htx_mem h) (htx_get_blk_ptr b) 4;
       inf \<leftarrow> mrd (htx_mem h) (htx_get_blk_ptr b + 4) 2;
       let sz = htx_get_blksz b;
       let delta = to_int32 (20 + int (length p1) + int (length p2) + int (length p3) - sz);
       let info = push_bit 28 type + word_of_int (sz + delta);
       (h, ret) \<leftarrow> htx_prepare_blk_expansion h blk delta;
       if ret = 0 then Some (h, None)
       else do {
         (h, r) \<leftarrow>
           (if ret = 3 then htx_defrag tr h (Some blk) info
            else do {
              h \<leftarrow> blk_set_info h blk info;
              Some (h\<lparr>htx_data := uint32 (htx_data h + delta)\<rparr>, Some blk) });
         blk \<leftarrow> r;
         nb \<leftarrow> blk_rd h blk;
         let sl = htx_get_blk_ptr nb;
         h \<leftarrow> blk_write h (sl + 4) inf;
         h \<leftarrow> blk_write h sl flags;
         h \<leftarrow> htx_sl_put h sl p1 p2 p3;
         Some (h, Some sl) } } }"

section \<open>Moving blocks\<close>

text \<open>Two descriptors are exchanged; \<open>c\<close> comes after \<open>p\<close> in the table and receives its block.\<close>

definition htx_swap_blks :: "htx \<Rightarrow> int \<Rightarrow> int \<Rightarrow> htx option" where
  "htx_swap_blks h c p = do {
     cb \<leftarrow> blk_rd h c;
     pb \<leftarrow> blk_rd h p;
     h \<leftarrow> blk_set_addr h c (blk_addr pb);
     h \<leftarrow> blk_set_addr h p (blk_addr cb);
     h \<leftarrow> blk_set_info h c (blk_info pb);
     h \<leftarrow> blk_set_info h p (blk_info cb);
     (if blk_addr pb = blk_addr cb then blk_set_addr h c (uint32 (blk_addr pb + htx_get_blksz cb)) else Some h) }"

partial_function (option) htx_last_data_loop :: "htx \<Rightarrow> int \<Rightarrow> blkptr \<Rightarrow> (htx \<times> int) option" where
  "htx_last_data_loop h blk pblk =
     (case pblk of None \<Rightarrow> Some (h, blk)
      | Some p \<Rightarrow> do {
          pb \<leftarrow> blk_rd h p;
          if htx_get_blk_type pb \<le> HTX_BLK_DATA then Some (h, blk)
          else do {
            h \<leftarrow> htx_swap_blks h blk p;
            htx_last_data_loop h p (htx_get_prev_blk h p) } })"

declare htx_last_data_loop.simps [code]

definition htx_add_last_data :: "bytes \<Rightarrow> htx \<Rightarrow> bytes \<Rightarrow> (htx \<times> blkptr) option" where
  "htx_add_last_data tr h xs = do {
     (h, r) \<leftarrow> htx_add_data_atonce tr h xs;
     case r of None \<Rightarrow> Some (h, None)
     | Some blk \<Rightarrow> do {
         (h, blk) \<leftarrow> htx_last_data_loop h blk (htx_get_prev_blk h blk);
         Some (h, Some blk) } }"

partial_function (option) htx_move_loop :: "htx \<Rightarrow> int \<Rightarrow> blkptr \<Rightarrow> int \<Rightarrow> (htx \<times> int \<times> blkptr) option" where
  "htx_move_loop h cblk pblk ref =
     (case pblk of None \<Rightarrow> Some (h, cblk, None)
      | Some p \<Rightarrow> do {
          h \<leftarrow> htx_swap_blks h cblk p;
          if p = ref then Some (h, cblk, Some p)
          else htx_move_loop h p (htx_get_prev_blk h p) ref })"

declare htx_move_loop.simps [code]

definition htx_move_blk_before :: "htx \<Rightarrow> int \<Rightarrow> int \<Rightarrow> (htx \<times> int \<times> blkptr) option" where
  "htx_move_blk_before h blk ref = htx_move_loop h blk (htx_get_prev_blk h blk) ref"

section \<open>Messages\<close>

text \<open>One round of the loop of \<^verbatim>\<open>htx_append_msg\<close>: false when the block does not fit.\<close>

definition htx_append_blk :: "bytes \<Rightarrow> htx \<Rightarrow> htx \<Rightarrow> int \<Rightarrow> (htx \<times> bool) option" where
  "htx_append_blk tr dst src p = do {
     b \<leftarrow> blk_rd src p;
     if htx_get_blk_type b = HTX_BLK_UNUSED then Some (dst, True)
     else do {
       (dst, r) \<leftarrow> htx_add_blk tr dst (htx_get_blk_type b) (htx_get_blksz b);
       case r of None \<Rightarrow> Some (dst, False)
       | Some newblk \<Rightarrow> do {
           dst \<leftarrow> blk_set_info dst newblk (blk_info b);
           nb \<leftarrow> blk_rd dst newblk;
           xs \<leftarrow> mrd (htx_mem src) (htx_get_blk_ptr b) (htx_get_blksz b);
           dst \<leftarrow> blk_write dst (htx_get_blk_ptr nb) xs;
           Some (dst, True) } } }"

partial_function (option) htx_append_loop :: "(nat \<Rightarrow> bytes) \<Rightarrow> nat \<Rightarrow> htx \<Rightarrow> htx \<Rightarrow> blkptr \<Rightarrow> (htx \<times> bool) option" where
  "htx_append_loop tr k dst src blk =
     (case blk of None \<Rightarrow> Some (dst, True)
      | Some p \<Rightarrow> do {
          (dst, ok) \<leftarrow> htx_append_blk (tr k) dst src p;
          if ok then htx_append_loop tr (Suc k) dst src (htx_get_next_blk src p) else Some (dst, False) })"

declare htx_append_loop.simps [code]

definition htx_append_msg :: "(nat \<Rightarrow> bytes) \<Rightarrow> htx \<Rightarrow> htx \<Rightarrow> (htx \<times> int) option" where
  "htx_append_msg tr dst src = do {
     let offset = htx_data dst;
     (dst, ok) \<leftarrow> htx_append_loop tr 0 dst src (htx_get_head_blk src);
     if ok then Some (dst, 1) else do { dst \<leftarrow> htx_truncate dst offset; Some (dst, 0) } }"

text \<open>One round of the loop of \<^verbatim>\<open>htx_xfer_blks\<close>. The first component of the result is false when the round
  leaves the loop (\<^verbatim>\<open>break\<close>); then come \<^verbatim>\<open>dst\<close>, \<^verbatim>\<open>src\<close>, \<^verbatim>\<open>blk\<close>, \<^verbatim>\<open>count\<close>, \<^verbatim>\<open>srcref\<close>, \<^verbatim>\<open>dstref\<close> and \<^verbatim>\<open>dstblk\<close>.\<close>

type_synonym xfer = "htx \<times> htx \<times> blkptr \<times> int \<times> blkptr \<times> blkptr \<times> blkptr"

definition htx_xfer_blk :: "bytes \<Rightarrow> u32 \<Rightarrow> htx \<Rightarrow> htx \<Rightarrow> int \<Rightarrow> int \<Rightarrow> blkptr \<Rightarrow> blkptr \<Rightarrow> blkptr \<Rightarrow> (bool \<times> xfer) option" where
  "htx_xfer_blk tr mark dst src p count srcref dstref dstblk = do {
     b \<leftarrow> blk_rd src p;
     let type = htx_get_blk_type b;
     let nxt = htx_get_next_blk src p;
     if type = HTX_BLK_UNUSED then Some (True, dst, src, nxt, count, srcref, dstref, dstblk)
     else do {
       let mx = htx_get_max_blksz dst (to_int32 count);
       if mx = 0 \<or> htx_get_blksz b > mx \<and> type \<noteq> HTX_BLK_DATA
       then Some (False, dst, src, Some p, count, srcref, dstref, dstblk)
       else do {
         let (sz, info) = (if htx_get_blksz b > mx then (mx, push_bit 28 type + word_of_int mx)
                           else (htx_get_blksz b, blk_info b));
         (dst, dstblk) \<leftarrow> htx_reserve_nxblk tr dst sz;
         case dstblk of None \<Rightarrow> Some (False, dst, src, Some p, count, srcref, dstref, None)
         | Some d \<Rightarrow> do {
             dst \<leftarrow> blk_set_info dst d info;
             db \<leftarrow> blk_rd dst d;
             xs \<leftarrow> mrd (htx_mem src) (htx_get_blk_ptr b) sz;
             dst \<leftarrow> blk_write dst (htx_get_blk_ptr db) xs;
             let count = uint32 (count - (8 + sz));
             if blk_info b \<noteq> info
             then do {
               src \<leftarrow> htx_cut_data_blk src p sz;
               Some (False, dst, src, Some p, count, srcref, dstref, Some d) }
             else if type = mark then Some (False, dst, src, nxt, count, None, None, Some d)
             else if srcref = None \<and> dstref = None \<and>
                 (type = HTX_BLK_REQ_SL \<or> type = HTX_BLK_RES_SL \<or> type = HTX_BLK_TLR)
             then Some (True, dst, src, nxt, count, Some p, Some d, Some d)
             else if type = HTX_BLK_EOH \<or> type = HTX_BLK_EOT
             then Some (True, dst, src, nxt, count, None, None, Some d)
             else Some (True, dst, src, nxt, count, srcref, dstref, Some d) } } } }"

partial_function (option) htx_xfer_loop ::
  "(nat \<Rightarrow> bytes) \<Rightarrow> nat \<Rightarrow> u32 \<Rightarrow> htx \<Rightarrow> htx \<Rightarrow> blkptr \<Rightarrow> int \<Rightarrow> blkptr \<Rightarrow> blkptr \<Rightarrow> blkptr \<Rightarrow> xfer option" where
  "htx_xfer_loop tr k mark dst src blk count srcref dstref dstblk =
     (case blk of None \<Rightarrow> Some (dst, src, None, count, srcref, dstref, dstblk)
      | Some p \<Rightarrow>
          if count = 0 then Some (dst, src, Some p, count, srcref, dstref, dstblk)
          else do {
            (go, dst, src, blk, count, srcref, dstref, dstblk) \<leftarrow>
              htx_xfer_blk (tr k) mark dst src p count srcref dstref dstblk;
            if go then htx_xfer_loop tr (Suc k) mark dst src blk count srcref dstref dstblk
            else Some (dst, src, blk, count, srcref, dstref, dstblk) })"

declare htx_xfer_loop.simps [code]

text \<open>Removal of blocks up to \<open>fin\<close> excluded.\<close>

partial_function (option) htx_remove_until :: "htx \<Rightarrow> blkptr \<Rightarrow> blkptr \<Rightarrow> (htx \<times> blkptr) option" where
  "htx_remove_until h blk fin =
     (case blk of None \<Rightarrow> Some (h, None)
      | Some p \<Rightarrow>
          if blk = fin then Some (h, blk)
          else do { (h, blk) \<leftarrow> htx_remove_blk h p; htx_remove_until h blk fin })"

declare htx_remove_until.simps [code]

definition htx_xfer_blks :: "(nat \<Rightarrow> bytes) \<Rightarrow> htx \<Rightarrow> htx \<Rightarrow> int \<Rightarrow> u32 \<Rightarrow> (htx \<times> htx \<times> int \<times> blkptr) option" where
  "htx_xfer_blks tr dst src count mark = do {
     let used = htx_used_space dst;
     (dst, src, blk, _, srcref, dstref, dstblk) \<leftarrow>
       htx_xfer_loop tr 0 mark dst src (htx_get_head_blk src) count None None None;
     (dst, src) \<leftarrow>
       (if dstref \<noteq> None then do {
          (dst, _) \<leftarrow> htx_remove_until dst dstref dstblk;
          dst \<leftarrow> (case dstblk of None \<Rightarrow> Some dst | Some d \<Rightarrow> do { (dst, _) \<leftarrow> htx_remove_blk dst d; Some dst });
          let src = (if htx_is_empty dst then src\<lparr>htx_flags := htx_flags src OR HTX_FL_PARSING_ERROR\<rparr> else src);
          Some (dst, src) }
        else Some (dst, src));
     src \<leftarrow>
       (if blk = None \<and> srcref = None
        then do { (src, _, _) \<leftarrow> htx_drain src (htx_data src); Some src }
        else do {
          let srcref = (if srcref \<noteq> None then srcref else blk);
          (src, _) \<leftarrow> htx_remove_until src (htx_get_head_blk src) srcref;
          Some src });
     Some (dst, src, to_int32 (uint32 (htx_used_space dst - used)), dstblk) }"

text \<open>A message in a buffer: \<open>h\<close> is what the area of the buffer holds after the 56 bytes of the structure.\<close>

definition buf_room_for_htx_data :: "buffer \<Rightarrow> nat" where
  "buf_room_for_htx_data buf = (let room = b_room buf in if room \<le> 72 then 0 else sz_sub room 72)"

definition htx_empty :: htx where
  "htx_empty = \<lparr>htx_size = 0, htx_data = 0, htx_tail = -1, htx_head = -1, htx_first = -1, htx_tail_addr = 0,
     htx_head_addr = 0, htx_end_addr = 0, htx_extra = 0, htx_flags = 0, htx_mem = []\<rparr>"

definition htxbuf :: "buffer \<Rightarrow> htx \<Rightarrow> htx" where
  "htxbuf buf h =
     (if b_is_null buf then htx_empty
      else let h = (if b_data buf = 0 then htx_reset (h\<lparr>htx_size := uint32 (int (b_size buf) - 56)\<rparr>) else h)
           in if htx_flags h AND HTX_FL_ALTERED_PAYLOAD \<noteq> 0 then h\<lparr>htx_extra := 0\<rparr> else h)"

definition htx_from_buf :: "buffer \<Rightarrow> htx \<Rightarrow> htx \<times> buffer" where
  "htx_from_buf buf h = (htxbuf buf h, b_set_data buf (b_size buf))"

definition htx_to_buf :: "htx \<Rightarrow> buffer \<Rightarrow> htx \<times> buffer" where
  "htx_to_buf h buf =
     (if htx_head h = -1 \<and> htx_flags h AND (HTX_FL_PARSING_ERROR OR HTX_FL_PROCESSING_ERROR) = 0
      then (htx_reset h, b_set_data buf 0)
      else (h, b_set_data buf (b_size buf)))"

definition htx_copy_msg :: "(nat \<Rightarrow> bytes) \<Rightarrow> htx \<Rightarrow> buffer \<Rightarrow> htx \<Rightarrow> (htx \<times> int) option" where
  "htx_copy_msg tr h buf msg =
     (if htx_is_empty h \<and> htx_free_space h \<noteq> 0
      then do {
        m \<leftarrow> mwr (htx_mem h) 0 (take (b_size buf - 56) (htx_mem msg));
        Some (msg\<lparr>htx_mem := m\<rparr>, 1) }
      else htx_append_msg tr h (htxbuf buf msg))"

end
