(* ===== verification/HtxMem.thy ===== *)
theory HtxMem
  imports Htx
begin

unbundle bit_operations_syntax

text \<open>
  HTX messages: facts about the area (descriptors and payloads that do not overlap are independent,
  the fields of a descriptor), the invariant \<open>htx_wf\<close> and the content \<open>htx_msg\<close> of a message, which is the
  list of the descriptors and payloads of its blocks in use.
\<close>

section \<open>Reading and writing the area\<close>

definition bs :: "bytes \<Rightarrow> int \<Rightarrow> int \<Rightarrow> bytes" where
  "bs m p n = take (nat n) (drop (nat p) m)"

definition htx_ptr :: "int \<Rightarrow> int \<Rightarrow> int" where
  "htx_ptr s p = s - 8 * (p + 1)"

definition blk_in :: "bytes \<Rightarrow> int \<Rightarrow> int \<Rightarrow> htx_blk" where
  "blk_in m s p = \<lparr>blk_addr = uint (bytes_w32 (bs m (htx_ptr s p) 4)),
                   blk_info = bytes_w32 (bs m (htx_ptr s p + 4) 4)\<rparr>"

lemma uint32_small [sz_simps]: "0 \<le> x \<Longrightarrow> x < 4294967296 \<Longrightarrow> uint32 x = x"
  by (simp add: uint32_def)

lemma length_w32_bytes [simp]: "length (w32_bytes w) = 4"
  by (simp add: w32_bytes_def)

lemma bytes_w32_bytes [simp]: "bytes_w32 (w32_bytes w) = w"
proof (rule bit_word_eqI)
  fix n assume n: "n < LENGTH(32)"
  then consider "n < 8" | "8 \<le> n" "n < 16" | "16 \<le> n" "n < 24" | "24 \<le> n" "n < 32" by fastforce
  then show "bit (bytes_w32 (w32_bytes w)) n = bit w n"
    using n
    by cases (auto simp: bytes_w32_def w32_bytes_def bit_or_iff bit_push_bit_iff bit_ucast_iff bit_drop_bit_eq)
qed

lemma length_bs: "0 \<le> p \<Longrightarrow> 0 \<le> n \<Longrightarrow> p + n \<le> int (length m) \<Longrightarrow> length (bs m p n) = nat n"
  by (auto simp: bs_def)

lemma bs_0 [simp]: "bs m p 0 = []"
  by (simp add: bs_def)

lemma mrd_Some [mem_simps]: "0 \<le> p \<Longrightarrow> 0 \<le> n \<Longrightarrow> p + n \<le> int (length m) \<Longrightarrow> mrd m p n = Some (bs m p n)"
  by (auto simp: mrd_def rd_def bs_def)

lemma mwr_Some [mem_simps]:
  "0 \<le> p \<Longrightarrow> p + int (length xs) \<le> int (length m) \<Longrightarrow> mwr m p xs = Some (blit m (nat p) xs)"
  by (auto simp: mwr_def wr_def)

lemma length_blit_int [simp]:
  "0 \<le> p \<Longrightarrow> p + int (length xs) \<le> int (length m) \<Longrightarrow> length (blit m (nat p) xs) = length m"
  by (auto intro!: length_blit)

lemma bs_blit_same:
  assumes "0 \<le> p" and "p + int (length xs) \<le> int (length m)" and "n = int (length xs)"
  shows "bs (blit m (nat p) xs) p n = xs"
  using assms by (simp add: bs_def blit_def)

lemma bs_blit_other:
  assumes "0 \<le> q" and "q + int (length xs) \<le> int (length m)" and "0 \<le> p"
    and "p + n \<le> q \<or> q + int (length xs) \<le> p \<or> n \<le> 0"
  shows "bs (blit m (nat q) xs) p n = bs m p n"
proof (cases "n \<le> 0")
  case False
  show ?thesis
  proof (rule nth_equalityI)
    show "length (bs (blit m (nat q) xs) p n) = length (bs m p n)" using assms by (simp add: bs_def)
    fix i assume "i < length (bs (blit m (nat q) xs) p n)"
    then have i: "i < nat n" "nat p + i < length m" using assms by (auto simp: bs_def)
    have "blit m (nat q) xs ! (nat p + i) = m ! (nat p + i)"
      using assms i False by (subst nth_blit) auto
    then show "bs (blit m (nat q) xs) p n ! i = bs m p n ! i"
      using i assms by (simp add: bs_def)
  qed
qed (simp add: bs_def)

lemma blk_in_blit_below:
  assumes "0 \<le> q" and "q + int (length xs) \<le> htx_ptr s p" and "s \<le> int (length m)" and "0 \<le> p"
  shows "blk_in (blit m (nat q) xs) s p = blk_in m s p"
proof -
  have "bs (blit m (nat q) xs) (htx_ptr s p) 4 = bs m (htx_ptr s p) 4"
    using assms by (intro bs_blit_other) (auto simp: htx_ptr_def)
  moreover have "bs (blit m (nat q) xs) (htx_ptr s p + 4) 4 = bs m (htx_ptr s p + 4) 4"
    using assms by (intro bs_blit_other) (auto simp: htx_ptr_def)
  ultimately show ?thesis unfolding blk_in_def by simp
qed

lemma blk_in_set_addr:
  assumes "0 \<le> htx_ptr s p" and "0 \<le> p" and "s \<le> int (length m)" and "0 \<le> a" and "a < 4294967296"
    and "0 \<le> q" and "0 \<le> htx_ptr s q"
  shows "blk_in (blit m (nat (htx_ptr s p)) (w32_bytes (word_of_int a))) s q =
    (if q = p then (blk_in m s p)\<lparr>blk_addr := a\<rparr> else blk_in m s q)"
proof (cases "q = p")
  case True
  have "bs (blit m (nat (htx_ptr s p)) (w32_bytes (word_of_int a))) (htx_ptr s p) 4 = w32_bytes (word_of_int a)"
    using assms by (intro bs_blit_same) (auto simp: htx_ptr_def)
  moreover have "bs (blit m (nat (htx_ptr s p)) (w32_bytes (word_of_int a))) (htx_ptr s p + 4) 4 =
    bs m (htx_ptr s p + 4) 4"
    using assms by (intro bs_blit_other) (auto simp: htx_ptr_def)
  moreover have "uint (word_of_int a :: u32) = a" using assms by (simp add: uint_word_of_int_eq take_bit_eq_mod)
  ultimately show ?thesis using True by (simp add: blk_in_def)
next
  case False
  have "bs (blit m (nat (htx_ptr s p)) (w32_bytes (word_of_int a))) (htx_ptr s q) 4 = bs m (htx_ptr s q) 4"
    using assms False by (intro bs_blit_other) (auto simp: htx_ptr_def)
  moreover have "bs (blit m (nat (htx_ptr s p)) (w32_bytes (word_of_int a))) (htx_ptr s q + 4) 4 =
    bs m (htx_ptr s q + 4) 4"
    using assms False by (intro bs_blit_other) (auto simp: htx_ptr_def)
  ultimately show ?thesis using False by (simp add: blk_in_def)
qed

lemma blk_in_set_info:
  assumes "0 \<le> htx_ptr s p" and "0 \<le> p" and "s \<le> int (length m)" and "0 \<le> q" and "0 \<le> htx_ptr s q"
  shows "blk_in (blit m (nat (htx_ptr s p + 4)) (w32_bytes i)) s q =
    (if q = p then (blk_in m s p)\<lparr>blk_info := i\<rparr> else blk_in m s q)"
proof (cases "q = p")
  case True
  have "bs (blit m (nat (htx_ptr s p + 4)) (w32_bytes i)) (htx_ptr s p + 4) 4 = w32_bytes i"
    using assms by (intro bs_blit_same) (auto simp: htx_ptr_def)
  moreover have "bs (blit m (nat (htx_ptr s p + 4)) (w32_bytes i)) (htx_ptr s p) 4 = bs m (htx_ptr s p) 4"
    using assms by (intro bs_blit_other) (auto simp: htx_ptr_def)
  ultimately show ?thesis using True by (simp add: blk_in_def)
next
  case False
  have "bs (blit m (nat (htx_ptr s p + 4)) (w32_bytes i)) (htx_ptr s q) 4 = bs m (htx_ptr s q) 4"
    using assms False by (intro bs_blit_other) (auto simp: htx_ptr_def)
  moreover have "bs (blit m (nat (htx_ptr s p + 4)) (w32_bytes i)) (htx_ptr s q + 4) 4 =
    bs m (htx_ptr s q + 4) 4"
    using assms False by (intro bs_blit_other) (auto simp: htx_ptr_def)
  ultimately show ?thesis using False by (simp add: blk_in_def)
qed

section \<open>Types and sizes\<close>

lemma uint_and_low: "uint (w AND 0xfffffff :: u32) = uint w mod 268435456"
proof -
  have "w AND 0xfffffff = take_bit 28 w" by (simp add: take_bit_eq_mask mask_eq_exp_minus_1)
  then show ?thesis by (simp add: take_bit_eq_mod uint_mod)
qed

lemma uint_type: "uint (htx_get_blk_type b) = uint (blk_info b) div 268435456"
  by (simp add: htx_get_blk_type_def drop_bit_eq_div uint_div)

lemma uint_hdr_len:
  "uint ((w AND 0xff) + (drop_bit 8 w AND 0xfffff) :: u32) = uint w mod 256 + uint w div 256 mod 1048576"
proof -
  have a: "w AND 0xff = take_bit 8 w" by (simp add: take_bit_eq_mask mask_eq_exp_minus_1)
  have b: "x AND 0xfffff = take_bit 20 x" for x :: u32 by (simp add: take_bit_eq_mask mask_eq_exp_minus_1)
  have ua: "uint (w AND 0xff) = uint w mod 256" by (simp add: a take_bit_eq_mod uint_mod)
  have ub: "uint (drop_bit 8 w AND 0xfffff) = uint w div 256 mod 1048576"
    unfolding b by (simp add: take_bit_eq_mod drop_bit_eq_div uint_mod uint_div)
  have "uint w mod 256 < 256" and "uint w div 256 mod 1048576 < 1048576" by simp_all
  then have "uint (w AND 0xff) + uint (drop_bit 8 w AND 0xfffff) < 2 ^ LENGTH(32)"
    unfolding ua ub by simp
  then have "uint ((w AND 0xff) + (drop_bit 8 w AND 0xfffff)) = uint (w AND 0xff) + uint (drop_bit 8 w AND 0xfffff)"
    by (simp only: uint_add_lem)
  then show ?thesis by (simp only: ua ub)
qed

lemma htx_get_blksz_eq:
  "htx_get_blksz b = (if htx_get_blk_type b = HTX_BLK_HDR \<or> htx_get_blk_type b = HTX_BLK_TLR
     then uint (blk_info b) mod 256 + uint (blk_info b) div 256 mod 1048576
     else uint (blk_info b) mod 268435456)"
  by (simp add: htx_get_blksz_def Let_def uint_and_low uint_hdr_len)

lemma htx_get_blksz_bounds: "0 \<le> htx_get_blksz b \<and> htx_get_blksz b < 268435456"
proof -
  have "uint (blk_info b) mod 256 < 256" and "uint (blk_info b) div 256 mod 1048576 < 1048576"
    and "uint (blk_info b) mod 268435456 < 268435456" by simp_all
  then show ?thesis unfolding htx_get_blksz_eq by (auto split: if_splits)
qed

lemmas htx_get_blksz_nonneg [simp] = htx_get_blksz_bounds [THEN conjunct1]

text \<open>The descriptor of a block of type \<open>t\<close> whose low bits are \<open>n\<close>.\<close>

definition info_of :: "u32 \<Rightarrow> int \<Rightarrow> u32" where
  "info_of t n = push_bit 28 t + word_of_int n"

lemma uint_info_of:
  assumes "uint t < 16" and "0 \<le> n" and "n < 268435456"
  shows "uint (info_of t n) = uint t * 268435456 + n"
proof -
  have "uint (push_bit 28 t) = uint t * 268435456"
    using assms by (simp add: push_bit_eq_mult uint_word_ariths)
  moreover have "uint (word_of_int n :: u32) = n" using assms by (simp add: uint_word_of_int_eq take_bit_eq_mod)
  ultimately have "uint (info_of t n) = (uint t * 268435456 + n) mod 2 ^ 32"
    by (simp add: info_of_def uint_word_ariths)
  also have "\<dots> = uint t * 268435456 + n" using assms by (intro mod_pos_pos_trivial) auto
  finally show ?thesis .
qed

lemma type_info_of:
  assumes "uint t < 16" and "0 \<le> n" and "n < 268435456" and "blk_info b = info_of t n"
  shows "htx_get_blk_type b = t"
proof -
  have "uint (htx_get_blk_type b) = uint t" using assms by (simp add: uint_type uint_info_of)
  then show ?thesis by (simp only: word_uint_eq_iff)
qed

lemma blksz_info_of:
  assumes "uint t < 16" and "0 \<le> n" and "n < 268435456" and "t \<noteq> HTX_BLK_HDR" and "t \<noteq> HTX_BLK_TLR"
    and "blk_info b = info_of t n"
  shows "htx_get_blksz b = n"
  using assms by (simp add: htx_get_blksz_eq type_info_of uint_info_of)

lemma blksz_info_of_hdr:
  assumes "t = HTX_BLK_HDR \<or> t = HTX_BLK_TLR" and "0 \<le> n" and "n < 256" and "0 \<le> v" and "v < 1048576"
    and "blk_info b = info_of t (v * 256 + n)"
  shows "htx_get_blksz b = n + v"
proof -
  have t: "uint t < 16" using assms by auto
  have l: "v * 256 + n < 268435456" using assms by simp
  have ty: "htx_get_blk_type b = t" using type_info_of [OF t _ l assms(6)] assms by simp
  have u: "uint (blk_info b) = uint t * 268435456 + (v * 256 + n)"
    using uint_info_of [OF t _ l] assms by simp
  define k where "k = uint t * 1048576 + v"
  have k: "uint (blk_info b) = n + 256 * k" using u by (simp add: k_def)
  have "uint (blk_info b) mod 256 = n" unfolding k mod_mult_self2 using assms by simp
  moreover have "uint (blk_info b) div 256 mod 1048576 = v"
  proof -
    have "uint (blk_info b) div 256 = k" unfolding k using assms by simp
    then show ?thesis using assms by (simp add: k_def)
  qed
  ultimately show ?thesis using ty assms(1) by (simp add: htx_get_blksz_eq)
qed

section \<open>The invariant and the content\<close>

abbreviation htx_bl :: "htx \<Rightarrow> int \<Rightarrow> htx_blk" where
  "htx_bl h p \<equiv> blk_in (htx_mem h) (htx_size h) p"

definition blk_used :: "htx_blk \<Rightarrow> bool" where
  "blk_used b = (htx_get_blk_type b \<noteq> HTX_BLK_UNUSED)"

text \<open>A block in use has a payload, which is in one of the two occupied areas; an address is never
  beyond the descriptor.\<close>

definition blk_placed :: "int \<Rightarrow> int \<Rightarrow> int \<Rightarrow> int \<Rightarrow> int \<Rightarrow> htx_blk \<Rightarrow> bool" where
  "blk_placed s ha ea ta p b =
     ((htx_get_blksz b = 0 \<longleftrightarrow> \<not> blk_used b) \<and> 0 \<le> blk_addr b \<and> blk_addr b + htx_get_blksz b \<le> s - 8 * (p + 1) \<and>
      (blk_used b \<longrightarrow> blk_addr b + htx_get_blksz b \<le> ha \<or> ea \<le> blk_addr b \<and> blk_addr b + htx_get_blksz b \<le> ta))"

definition blk_apart :: "htx_blk \<Rightarrow> htx_blk \<Rightarrow> bool" where
  "blk_apart b c =
     (\<not> blk_used b \<or> \<not> blk_used c \<or> blk_addr b + htx_get_blksz b \<le> blk_addr c \<or> blk_addr c + htx_get_blksz c \<le> blk_addr b)"

definition htx_sum :: "bytes \<Rightarrow> int \<Rightarrow> int list \<Rightarrow> int" where
  "htx_sum m s ps = sum_list (map (\<lambda>p. htx_get_blksz (blk_in m s p)) ps)"

definition htx_area_ok :: "htx \<Rightarrow> bool" where
  "htx_area_ok h = (0 < htx_size h \<and> htx_size h < 2147483648 \<and> htx_size h mod 8 = 0 \<and>
     htx_size h \<le> int (length (htx_mem h)))"

definition htx_rooms_ok :: "htx \<Rightarrow> bool" where
  "htx_rooms_ok h =
     (0 \<le> htx_head h \<and> htx_head h \<le> htx_tail h \<and> 8 * (htx_tail h + 1) < htx_size h \<and>
      0 \<le> htx_head_addr h \<and> htx_head_addr h \<le> htx_end_addr h \<and> htx_end_addr h \<le> htx_tail_addr h \<and>
      htx_tail_addr h \<le> htx_size h - 8 * (htx_tail h + 1) \<and>
      htx_data h + 8 * (htx_tail h + 1 - htx_head h) \<le> htx_size h \<and>
      (htx_end_addr h = 0 \<or> htx_end_addr h < htx_tail_addr h \<or> htx_head h = htx_tail h \<and> htx_data h = 0))"

definition htx_blks_ok :: "htx \<Rightarrow> bool" where
  "htx_blks_ok h =
     ((\<forall>p\<in>set [htx_head h..htx_tail h].
         blk_placed (htx_size h) (htx_head_addr h) (htx_end_addr h) (htx_tail_addr h) p (htx_bl h p)) \<and>
      (\<forall>p\<in>set [htx_head h..htx_tail h]. \<forall>q\<in>set [htx_head h..htx_tail h].
         p \<noteq> q \<longrightarrow> blk_apart (htx_bl h p) (htx_bl h q)))"

definition htx_geo :: "htx \<Rightarrow> bool" where
  "htx_geo h =
     (htx_area_ok h \<and>
      (if htx_head h = -1
       then htx_tail h = -1 \<and> htx_first h = -1 \<and> htx_data h = 0 \<and> htx_tail_addr h = 0 \<and>
            htx_head_addr h = 0 \<and> htx_end_addr h = 0
       else htx_rooms_ok h \<and> htx_blks_ok h \<and>
            htx_data h = htx_sum (htx_mem h) (htx_size h) [htx_head h..htx_tail h]))"

text \<open>Well-formed: as above, and there is data unless the message is empty.\<close>

definition htx_wf :: "htx \<Rightarrow> bool" where
  "htx_wf h = (htx_geo h \<and> (htx_head h = -1 \<or> 0 < htx_data h))"

text \<open>The content: descriptors and payloads of the blocks in use, in order.\<close>

type_synonym htx_entry = "u32 \<times> bytes"

definition blk_entry :: "bytes \<Rightarrow> htx_blk \<Rightarrow> htx_entry" where
  "blk_entry m b = (blk_info b, bs m (blk_addr b) (htx_get_blksz b))"

definition htx_used :: "bytes \<Rightarrow> int \<Rightarrow> int \<Rightarrow> int \<Rightarrow> int list" where
  "htx_used m s a b = filter (\<lambda>p. blk_used (blk_in m s p)) [a..b]"

definition htx_part :: "bytes \<Rightarrow> int \<Rightarrow> int \<Rightarrow> int \<Rightarrow> htx_entry list" where
  "htx_part m s a b = map (\<lambda>p. blk_entry m (blk_in m s p)) (htx_used m s a b)"

definition htx_msg :: "htx \<Rightarrow> htx_entry list" where
  "htx_msg h = (if htx_head h = -1 then [] else htx_part (htx_mem h) (htx_size h) (htx_head h) (htx_tail h))"

section \<open>Positions\<close>

named_theorems htx_simps \<open>positions and descriptors of a well-formed area\<close>

lemma htx_pos_to_addr_eq [htx_simps]:
  assumes "htx_area_ok h" and "0 \<le> p" and "8 * (p + 1) \<le> htx_size h"
  shows "htx_pos_to_addr h p = htx_ptr (htx_size h) p"
  using assms by (simp add: htx_pos_to_addr_def htx_area_ok_def uint32_small htx_ptr_def)

lemma htx_get_blk_eq [htx_simps]:
  assumes "htx_area_ok h" and "0 \<le> p" and "8 * (p + 1) \<le> htx_size h"
  shows "htx_get_blk h p = htx_ptr (htx_size h) p"
  using assms by (simp add: htx_get_blk_def htx_pos_to_addr_eq uint32_small htx_area_ok_def htx_ptr_def)

lemma htx_get_blk_pos_eq [htx_simps]:
  assumes "htx_area_ok h" and "0 \<le> p" and "8 * (p + 1) \<le> htx_size h"
  shows "htx_get_blk_pos h (htx_ptr (htx_size h) p) = p"
  using assms by (simp add: htx_get_blk_pos_def htx_area_ok_def uint32_small htx_ptr_def)

lemma htx_get_next_eq [htx_simps]:
  assumes "0 \<le> p" and "p \<le> htx_tail h" and "htx_tail h < 2147483647"
  shows "htx_get_next h p = (if p = htx_tail h then -1 else p + 1)"
  using assms by (simp add: htx_get_next_def uint32_small to_int32_small)

lemma htx_get_prev_eq [htx_simps]:
  assumes "0 \<le> htx_head h" and "htx_head h \<le> p" and "p < 2147483647"
  shows "htx_get_prev h p = (if p = htx_head h then -1 else p - 1)"
  using assms by (simp add: htx_get_prev_def uint32_small to_int32_small)

lemma blk_rd_eq [htx_simps]:
  assumes "htx_area_ok h" and "0 \<le> p" and "8 * (p + 1) \<le> htx_size h"
  shows "blk_rd h (htx_ptr (htx_size h) p) = Some (htx_bl h p)"
  using assms by (simp add: blk_rd_def mrd_Some htx_area_ok_def htx_ptr_def blk_in_def)

lemma blk_set_addr_eq [htx_simps]:
  assumes "htx_area_ok h" and "0 \<le> p" and "8 * (p + 1) \<le> htx_size h"
  shows "blk_set_addr h (htx_ptr (htx_size h) p) a =
    Some (h\<lparr>htx_mem := blit (htx_mem h) (nat (htx_ptr (htx_size h) p)) (w32_bytes (word_of_int a))\<rparr>)"
  using assms by (simp add: blk_set_addr_def mwr_Some htx_area_ok_def htx_ptr_def)

lemma blk_set_info_eq [htx_simps]:
  assumes "htx_area_ok h" and "0 \<le> p" and "8 * (p + 1) \<le> htx_size h"
  shows "blk_set_info h (htx_ptr (htx_size h) p) i =
    Some (h\<lparr>htx_mem := blit (htx_mem h) (nat (htx_ptr (htx_size h) p + 4)) (w32_bytes i)\<rparr>)"
  using assms by (simp add: blk_set_info_def mwr_Some htx_area_ok_def htx_ptr_def)

text \<open>Lists of positions.\<close>

lemma upto_split: "a \<le> k \<Longrightarrow> k \<le> b + 1 \<Longrightarrow> [a..b] = [a..k - 1] @ [k..b]"
  using upto_split1 [of a k b] by (cases "k = b + 1") auto

lemma upto_split_at: "a \<le> k \<Longrightarrow> k \<le> b \<Longrightarrow> [a..b] = [a..k - 1] @ k # [k + 1..b]"
  using upto_split3 [of a k b] .

lemma htx_used_split: "a \<le> k \<Longrightarrow> k \<le> b \<Longrightarrow>
    htx_used m s a b = htx_used m s a (k - 1) @ (if blk_used (blk_in m s k) then [k] else []) @ htx_used m s (k + 1) b"
  by (simp add: htx_used_def upto_split_at)

lemma htx_part_split: "a \<le> k \<Longrightarrow> k \<le> b \<Longrightarrow>
    htx_part m s a b = htx_part m s a (k - 1) @ (if blk_used (blk_in m s k) then [blk_entry m (blk_in m s k)] else []) @
      htx_part m s (k + 1) b"
  by (simp add: htx_part_def htx_used_split)

lemma htx_used_cong: "(\<And>p. a \<le> p \<Longrightarrow> p \<le> b \<Longrightarrow> blk_in m s p = blk_in m' s p) \<Longrightarrow> htx_used m s a b = htx_used m' s a b"
  unfolding htx_used_def by (rule filter_cong) auto

lemma htx_part_cong:
  assumes "\<And>p. a \<le> p \<Longrightarrow> p \<le> b \<Longrightarrow> blk_in m s p = blk_in m' s p"
    and "\<And>p. a \<le> p \<Longrightarrow> p \<le> b \<Longrightarrow> blk_used (blk_in m s p) \<Longrightarrow> blk_entry m (blk_in m s p) = blk_entry m' (blk_in m s p)"
  shows "htx_part m s a b = htx_part m' s a b"
proof -
  have u: "htx_used m s a b = htx_used m' s a b" using assms(1) by (rule htx_used_cong)
  show ?thesis
    unfolding htx_part_def u by (rule map_cong [OF refl]) (use assms in \<open>auto simp: htx_used_def\<close>)
qed

lemma htx_sum_split: "a \<le> k \<Longrightarrow> k \<le> b \<Longrightarrow>
    htx_sum m s [a..b] = htx_sum m s [a..k - 1] + htx_get_blksz (blk_in m s k) + htx_sum m s [k + 1..b]"
  by (simp add: htx_sum_def upto_split_at)

lemma htx_sum_cong: "(\<And>p. p \<in> set ps \<Longrightarrow> htx_get_blksz (blk_in m s p) = htx_get_blksz (blk_in m' s p)) \<Longrightarrow>
    htx_sum m s ps = htx_sum m' s ps"
  unfolding htx_sum_def by (simp cong: map_cong)

lemma htx_sum_nonneg: "0 \<le> htx_sum m s ps"
  unfolding htx_sum_def by (induction ps) auto

lemma htx_sum_Nil [simp]: "htx_sum m s [] = 0"
  and htx_sum_Cons: "htx_sum m s (p # ps) = htx_get_blksz (blk_in m s p) + htx_sum m s ps"
  and htx_sum_append: "htx_sum m s (ps @ qs) = htx_sum m s ps + htx_sum m s qs"
  by (simp_all add: htx_sum_def)

text \<open>Free space.\<close>

lemma htx_free_space_eq:
  assumes "htx_geo h" 
  shows "htx_free_space h = (if htx_head h = -1 then htx_size h else htx_size h - htx_data h - 8 * (htx_tail h + 1 - htx_head h))"
proof (cases "htx_head h = -1")
  case True
  then show ?thesis using assms
    by (simp add: htx_geo_def htx_free_space_def htx_used_space_def htx_meta_space_def htx_area_ok_def uint32_small)
next
  case False
  then have r: "htx_rooms_ok h" and a: "htx_area_ok h" and d: "0 \<le> htx_data h" using assms by (auto simp: htx_geo_def htx_sum_nonneg)
  then show ?thesis using False
    by (simp add: htx_free_space_def htx_used_space_def htx_meta_space_def htx_area_ok_def htx_rooms_ok_def uint32_small to_int32_small)
qed

lemma htx_check_ok:
  assumes "0 \<le> htx_head_addr h" and "htx_head_addr h \<le> htx_end_addr h" and "htx_end_addr h \<le> htx_tail_addr h"
    and "htx_tail_addr h < 2147483648"
  shows "htx_check h = Some ()"
  using assms by (simp add: htx_check_def to_int32_small)

end
