(* ===== verification/HtxDefrag.thy ===== *)
theory HtxDefrag
  imports HtxMem
begin

unbundle bit_operations_syntax

text \<open>
  HTX messages: the two defragmentations. \<^verbatim>\<open>htx_defrag\<close> packs payloads and descriptors,
  \<^verbatim>\<open>htx_defrag_blks\<close> the descriptors only; both keep the content.
\<close>

section \<open>Full defragmentation\<close>

definition pos_idx :: "int \<Rightarrow> int list \<Rightarrow> int" where
  "pos_idx x ps = (if x \<in> set ps then int (length (takeWhile (\<lambda>y. y \<noteq> x) ps)) else -1)"

lemma pos_idx_Nil [simp]: "pos_idx x [] = -1"
  by (simp add: pos_idx_def)

lemma pos_idx_snoc: "p \<notin> set ps \<Longrightarrow> pos_idx x (ps @ [p]) = (if x = p then int (length ps) else pos_idx x ps)"
  by (auto simp: pos_idx_def takeWhile_append)

lemma pos_idx_nth: "distinct ps \<Longrightarrow> i < length ps \<Longrightarrow> pos_idx (ps ! i) ps = int i"
proof (induction ps arbitrary: i)
  case (Cons p ps)
  then show ?case by (cases i) (auto simp: pos_idx_def)
qed simp

lemma pos_idx_less: "x \<in> set ps \<Longrightarrow> 0 \<le> pos_idx x ps \<and> pos_idx x ps < int (length ps)"
  by (induction ps) (auto simp: pos_idx_def split: if_splits)

lemma pos_idx_absent [simp]: "x \<notin> set ps \<Longrightarrow> pos_idx x ps = -1"
  by (simp add: pos_idx_def)

text \<open>What the loop writes for the block at position \<open>p\<close>: its descriptor, or \<open>blkinfo\<close> for the block \<open>bp\<close>
  whose size is altered.\<close>

definition dinfo :: "htx \<Rightarrow> int \<Rightarrow> u32 \<Rightarrow> int \<Rightarrow> u32" where
  "dinfo h bp blkinfo p = (if bp = p \<and> blkinfo \<noteq> 0 then blkinfo else blk_info (htx_bl h p))"

definition dsize :: "htx \<Rightarrow> int \<Rightarrow> u32 \<Rightarrow> int \<Rightarrow> int" where
  "dsize h bp blkinfo p = htx_get_blksz \<lparr>blk_addr = 0, blk_info = dinfo h bp blkinfo p\<rparr>"

definition dsum :: "htx \<Rightarrow> int \<Rightarrow> u32 \<Rightarrow> int list \<Rightarrow> int" where
  "dsum h bp blkinfo ps = sum_list (map (dsize h bp blkinfo) ps)"

definition ddone :: "htx \<Rightarrow> int \<Rightarrow> u32 \<Rightarrow> int list \<Rightarrow> bytes \<Rightarrow> bool" where
  "ddone h bp blkinfo ps m =
     (\<forall>i<length ps.
        blk_in m (htx_size h) (int i) =
          \<lparr>blk_addr = dsum h bp blkinfo (take i ps), blk_info = dinfo h bp blkinfo (ps ! i)\<rparr> \<and>
        bs m (dsum h bp blkinfo (take i ps)) (htx_get_blksz (htx_bl h (ps ! i))) =
          bs (htx_mem h) (blk_addr (htx_bl h (ps ! i))) (htx_get_blksz (htx_bl h (ps ! i))))"

lemma htx_get_blksz_addr: "blk_info b = blk_info c \<Longrightarrow> htx_get_blksz b = htx_get_blksz c"
  by (simp add: htx_get_blksz_def htx_get_blk_type_def Let_def)

lemma htx_get_blk_type_addr: "blk_info b = blk_info c \<Longrightarrow> htx_get_blk_type b = htx_get_blk_type c"
  by (simp add: htx_get_blk_type_def)

lemma dsize_nonneg [simp]: "0 \<le> dsize h bp bi p"
  by (simp add: dsize_def)

lemma dsum_nonneg [simp]: "0 \<le> dsum h bp bi ps"
  unfolding dsum_def by (induction ps) auto

lemma dsum_snoc: "dsum h bp bi (ps @ [p]) = dsum h bp bi ps + dsize h bp bi p"
  by (simp add: dsum_def)

lemma dsum_append: "dsum h bp bi (ps @ qs) = dsum h bp bi ps + dsum h bp bi qs"
  by (simp add: dsum_def)

lemma dsum_take_le: "i \<le> j \<Longrightarrow> dsum h bp bi (take i ps) \<le> dsum h bp bi (take j ps)"
proof -
  assume "i \<le> j"
  then have "take j ps = take i ps @ take (j - i) (drop i ps)" by (metis le_add_diff_inverse take_add)
  then show ?thesis by (simp add: dsum_append)
qed

lemma dsum_take_step: "i < length ps \<Longrightarrow> dsum h bp bi (take i ps) + dsize h bp bi (ps ! i) \<le> dsum h bp bi ps"
  using dsum_take_le [of "Suc i" "length ps" h bp bi ps] by (simp add: take_Suc_conv_app_nth dsum_snoc)

lemma ddone_snoc:
  assumes "ddone h bp bi ps m"
    and grow: "\<And>p. p \<in> set ps \<Longrightarrow> htx_get_blksz (htx_bl h p) \<le> dsize h bp bi p"
    and a: "a = dsum h bp bi ps" and s: "htx_size h \<le> int (length m)"
    and room: "a + int (length pl) \<le> htx_size h - 8 * (int (length ps) + 1)" "a < 4294967296"
    and pl: "pl = bs (htx_mem h) (blk_addr (htx_bl h p)) (htx_get_blksz (htx_bl h p))"
      "int (length pl) = htx_get_blksz (htx_bl h p)"
    and m': "length m' = length m" 
      "\<And>q. 0 \<le> q \<Longrightarrow> 0 \<le> htx_ptr (htx_size h) q \<Longrightarrow> blk_in m' (htx_size h) q =
        (if q = int (length ps) then \<lparr>blk_addr = a, blk_info = dinfo h bp bi p\<rparr> else blk_in (blit m (nat a) pl) (htx_size h) q)"
      "\<And>q n. 0 \<le> q \<Longrightarrow> q + n \<le> htx_size h - 8 * (int (length ps) + 1) \<Longrightarrow> bs m' q n = bs (blit m (nat a) pl) q n"
  shows "ddone h bp bi (ps @ [p]) m'"
  unfolding ddone_def
proof (intro allI impI)
  have a0: "0 \<le> a" using a by simp
  fix i assume "i < length (ps @ [p])"
  then consider "i < length ps" | "i = length ps" by fastforce
  then show "blk_in m' (htx_size h) (int i) =
      \<lparr>blk_addr = dsum h bp bi (take i (ps @ [p])), blk_info = dinfo h bp bi ((ps @ [p]) ! i)\<rparr> \<and>
    bs m' (dsum h bp bi (take i (ps @ [p]))) (htx_get_blksz (htx_bl h ((ps @ [p]) ! i))) =
      bs (htx_mem h) (blk_addr (htx_bl h ((ps @ [p]) ! i))) (htx_get_blksz (htx_bl h ((ps @ [p]) ! i)))"
  proof cases
    case 1
    have lt: "8 * (int i + 1) \<le> 8 * int (length ps)" using 1 by simp
    have "blk_in m' (htx_size h) (int i) = blk_in (blit m (nat a) pl) (htx_size h) (int i)"
      using 1 room(1) a0 by (subst m'(2)) (auto simp: htx_ptr_def)
    also have "\<dots> = blk_in m (htx_size h) (int i)"
      using room(1) a0 s lt by (intro blk_in_blit_below) (auto simp: htx_ptr_def)
    finally have b: "blk_in m' (htx_size h) (int i) = blk_in m (htx_size h) (int i)" .
    have e: "dsum h bp bi (take i ps) + htx_get_blksz (htx_bl h (ps ! i)) \<le> a"
      using dsum_take_step [of i ps h bp bi] grow [of "ps ! i"] 1 a by simp
    have "bs m' (dsum h bp bi (take i ps)) (htx_get_blksz (htx_bl h (ps ! i))) =
        bs (blit m (nat a) pl) (dsum h bp bi (take i ps)) (htx_get_blksz (htx_bl h (ps ! i)))"
      using e room(1) by (intro m'(3)) auto
    also have "\<dots> = bs m (dsum h bp bi (take i ps)) (htx_get_blksz (htx_bl h (ps ! i)))"
      using e a0 room(1) s by (intro bs_blit_other) auto
    finally show ?thesis using assms(1) 1 b by (simp add: ddone_def nth_append)
  next
    case 2
    have "bs m' a (int (length pl)) = bs (blit m (nat a) pl) a (int (length pl))"
      using room(1) a0 by (intro m'(3)) auto
    also have "\<dots> = pl" using room(1) a0 s by (intro bs_blit_same) auto
    finally have p: "bs m' a (int (length pl)) = pl" .
    have l: "0 \<le> int (length pl)" by simp
    have "blk_in m' (htx_size h) (int (length ps)) = \<lparr>blk_addr = a, blk_info = dinfo h bp bi p\<rparr>"
      using m'(2) [of "int (length ps)"] room(1) a0 l by (simp add: htx_ptr_def)
    then show ?thesis using 2 p a pl by simp
  qed
qed

text \<open>One round of the loop on a block in use.\<close>

lemma htx_defrag_loop_used:
  assumes blk: "blk = (if bp = -1 then None else Some (htx_ptr (htx_size h) bp))" and h: "htx_area_ok h" and t: "htx_area_ok t" "htx_size t = htx_size h"
    and p: "0 \<le> p" "8 * (p + 1) \<le> htx_size h" "blk_used (htx_bl h p)" "p \<noteq> -1"
    and ad: "0 \<le> blk_addr (htx_bl h p)" "blk_addr (htx_bl h p) + htx_get_blksz (htx_bl h p) \<le> htx_size h"
    and n: "new = int (length ps)" and a: "a = dsum h bp bi ps"
    and dn: "ddone h bp bi ps (htx_mem t)" and bp: "-1 \<le> bp"
    and grow: "\<And>q. q \<in> set (ps @ [p]) \<Longrightarrow> htx_get_blksz (htx_bl h q) \<le> dsize h bp bi q"
    and room: "a + dsize h bp bi p \<le> htx_size h - 8 * (new + 1)" and dt: "htx_data t = a"
  shows "\<exists>t'. htx_area_ok t' \<and> htx_size t' = htx_size h \<and> ddone h bp bi (ps @ [p]) (htx_mem t') \<and>
      length (htx_mem t') = length (htx_mem t) \<and>
      htx_data t' = dsum h bp bi (ps @ [p]) \<and>
      htx_defrag_loop h blk bi t p new a first blkpos =
      htx_defrag_loop h blk bi t' (htx_get_next h p)
        (new + 1) (dsum h bp bi (ps @ [p])) (if htx_first h = p then new else first) (if bp = p then new else blkpos)"
proof -
  define s where "s = htx_size h"
  define b where "b = htx_bl h p"
  define pl where "pl = bs (htx_mem h) (blk_addr b) (htx_get_blksz b)"
  define ptr where "ptr = htx_ptr s new"
  have s: "0 < s" "s < 2147483648" "s \<le> int (length (htx_mem h))" "s \<le> int (length (htx_mem t))" and st: "htx_size t = s"
    using h t by (auto simp: htx_area_ok_def s_def)
  have a0: "0 \<le> a" and n0: "0 \<le> new" using a n by simp_all
  have lpl: "int (length pl) = htx_get_blksz b"
    using ad s by (simp add: pl_def length_bs b_def s_def)
  have g: "htx_get_blksz b \<le> dsize h bp bi p" using grow [of p] by (simp add: b_def)
  have rm: "a + int (length pl) \<le> ptr" "a + dsize h bp bi p \<le> ptr" "0 \<le> ptr" "ptr + 8 \<le> s" "a < 2147483648"
    using room lpl g a0 n0 s dsize_nonneg [of h bp bi p] by (auto simp: ptr_def s_def htx_ptr_def)
  define m1 where "m1 = blit (htx_mem t) (nat a) pl"
  define m2 where "m2 = blit m1 (nat ptr) (w32_bytes (word_of_int a))"
  define m3 where "m3 = blit m2 (nat (ptr + 4)) (w32_bytes (blk_info b))"
  define m4 where "m4 = (if bp = p \<and> bi \<noteq> 0 then blit m3 (nat (ptr + 4)) (w32_bytes bi) else m3)"
  have len: "length m1 = length (htx_mem t)" "length m2 = length (htx_mem t)" "length m3 = length (htx_mem t)"
    "length m4 = length (htx_mem t)"
    using rm s a0 by (simp_all add: m1_def m2_def m3_def m4_def)
  have at: "htx_area_ok (t\<lparr>htx_mem := m\<rparr>)" if "length m = length (htx_mem t)" for m
    using t that by (simp add: htx_area_ok_def)
  have b4: "blk_in m4 s q = (if q = new then \<lparr>blk_addr = a, blk_info = dinfo h bp bi p\<rparr> else blk_in m1 s q)"
    if "0 \<le> q" "0 \<le> htx_ptr s q" for q
  proof -
    have "blk_in m2 s q = (if q = new then (blk_in m1 s new)\<lparr>blk_addr := a\<rparr> else blk_in m1 s q)"
      unfolding m2_def ptr_def using rm s a0 n0 len that by (intro blk_in_set_addr) (auto simp: ptr_def htx_ptr_def)
    moreover have "blk_in m3 s q = (if q = new then (blk_in m2 s new)\<lparr>blk_info := blk_info b\<rparr> else blk_in m2 s q)"
      unfolding m3_def ptr_def using rm s a0 n0 len that by (intro blk_in_set_info) (auto simp: ptr_def htx_ptr_def)
    moreover have "blk_in m4 s q = (if q = new \<and> bp = p \<and> bi \<noteq> 0 then (blk_in m3 s new)\<lparr>blk_info := bi\<rparr> else blk_in m3 s q)"
    proof -
      have "blk_in (blit m3 (nat (ptr + 4)) (w32_bytes bi)) s q =
          (if q = new then (blk_in m3 s new)\<lparr>blk_info := bi\<rparr> else blk_in m3 s q)"
        unfolding ptr_def using rm s a0 n0 len that by (intro blk_in_set_info) (auto simp: ptr_def htx_ptr_def)
      then show ?thesis unfolding m4_def by auto
    qed
    ultimately show ?thesis by (auto simp: dinfo_def b_def)
  qed
  have pay: "bs m4 q k = bs m1 q k" if "0 \<le> q" "q + k \<le> ptr" for q k
  proof -
    have "bs m2 q k = bs m1 q k" unfolding m2_def using that rm len s by (intro bs_blit_other) auto
    moreover have "bs m3 q k = bs m2 q k" unfolding m3_def using that rm len s by (intro bs_blit_other) auto
    moreover have "bs m4 q k = bs m3 q k" unfolding m4_def using that rm len s by (auto intro!: bs_blit_other)
    ultimately show ?thesis by simp
  qed
  have d: "ddone h bp bi (ps @ [p]) m4"
  proof (rule ddone_snoc [OF dn _ a, where pl = pl])
    show "a + int (length pl) \<le> htx_size h - 8 * (int (length ps) + 1)"
      using rm(1) n by (simp add: ptr_def htx_ptr_def s_def)
    show "blk_in m4 (htx_size h) q = (if q = int (length ps) then \<lparr>blk_addr = a, blk_info = dinfo h bp bi p\<rparr>
        else blk_in (blit (htx_mem t) (nat a) pl) (htx_size h) q)"
      if "0 \<le> q" "0 \<le> htx_ptr (htx_size h) q" for q
      using b4 [of q] that n by (simp add: s_def m1_def)
    show "bs m4 q k = bs (blit (htx_mem t) (nat a) pl) q k"
      if "0 \<le> q" "q + k \<le> htx_size h - 8 * (int (length ps) + 1)" for q k
      using pay [of q k] that n by (simp add: ptr_def htx_ptr_def s_def m1_def)
  qed (use grow s rm len lpl in \<open>simp_all add: s_def b_def pl_def\<close>)
  have nx: "uint32 (new + 1) = new + 1" using n0 rm s by (intro uint32_small) (auto simp: ptr_def htx_ptr_def)
  have sum: "dsum h bp bi (ps @ [p]) = a + dsize h bp bi p" by (simp add: dsum_snoc a)
  have sm: "uint32 (a + dsize h bp bi p) = a + dsize h bp bi p"
    using a0 rm s by (intro uint32_small) (auto simp: ptr_def htx_ptr_def)
  have rdp: "blk_rd h (htx_ptr s p) = Some b" using h p by (simp add: b_def s_def blk_rd_eq)
  have gp: "htx_get_blk h p = htx_ptr s p" using h p by (simp add: s_def htx_get_blk_eq)
  have mr: "mrd (htx_mem h) (blk_addr b) (htx_get_blksz b) = Some pl"
    using ad s by (simp add: pl_def mrd_Some b_def s_def)
  have w1: "blk_write t a pl = Some (t\<lparr>htx_mem := m1\<rparr>)"
    using a0 rm s by (simp add: blk_write_def mwr_Some m1_def)
  have gn: "htx_get_blk (t\<lparr>htx_mem := m1\<rparr>) new = ptr"
    using at [OF len(1)] n0 rm st by (subst htx_get_blk_eq) (auto simp: ptr_def htx_ptr_def)
  have w2: "blk_set_addr (t\<lparr>htx_mem := m1\<rparr>) ptr a = Some (t\<lparr>htx_mem := m2\<rparr>)"
    using rm len s by (simp add: blk_set_addr_def mwr_Some m2_def)
  have w3: "blk_set_info (t\<lparr>htx_mem := m2\<rparr>) ptr (blk_info b) = Some (t\<lparr>htx_mem := m3\<rparr>)"
    using rm len s by (simp add: blk_set_info_def mwr_Some m3_def)
  have w4: "bi \<noteq> 0 \<Longrightarrow> bp = p \<Longrightarrow> blk_set_info (t\<lparr>htx_mem := m3\<rparr>) ptr bi = Some (t\<lparr>htx_mem := m4\<rparr>)"
    using rm len s by (simp add: blk_set_info_def mwr_Some m4_def)
  have n4: "blk_rd (t\<lparr>htx_mem := m4\<rparr>) ptr = Some \<lparr>blk_addr = a, blk_info = dinfo h bp bi p\<rparr>"
  proof -
    have "blk_rd (t\<lparr>htx_mem := m4\<rparr>) ptr = Some (blk_in m4 s new)"
      using blk_rd_eq [OF at [OF len(4)], of new] n0 rm st by (simp add: ptr_def htx_ptr_def)
    then show ?thesis using b4 [of new] n0 rm by (simp add: ptr_def htx_ptr_def)
  qed
  have z: "htx_get_blksz \<lparr>blk_addr = a, blk_info = dinfo h bp bi p\<rparr> = dsize h bp bi p"
    unfolding dsize_def by (rule htx_get_blksz_addr) simp
  have eqp: "blk = Some (htx_ptr s p) \<longleftrightarrow> bp = p"
    using p by (auto simp: htx_ptr_def blk s_def)
  have u: "htx_get_blk_type b \<noteq> HTX_BLK_UNUSED" using p by (simp add: blk_used_def b_def)
  have sel: "(if bp = p then do { t \<leftarrow> (if bi \<noteq> 0 then blk_set_info (t\<lparr>htx_mem := m3\<rparr>) ptr bi else Some (t\<lparr>htx_mem := m3\<rparr>)); Some (t, new) }
      else Some (t\<lparr>htx_mem := m3\<rparr>, blkpos)) = Some (t\<lparr>htx_mem := m4\<rparr>, if bp = p then new else blkpos)"
    using w4 by (auto simp: m4_def)
  have step: "htx_defrag_loop h blk bi t p new a first blkpos =
      htx_defrag_loop h blk bi
        (t\<lparr>htx_mem := m4, htx_data := uint32 (htx_data t + dsize h bp bi p)\<rparr>) (htx_get_next h p)
        (uint32 (new + 1)) (uint32 (a + dsize h bp bi p)) (if htx_first h = p then new else first) (if bp = p then new else blkpos)"
    by (subst htx_defrag_loop.simps)
      (simp only: p(4) u gp rdp mr w1 gn w2 w3 sel n4 z eqp if_False bind.bind_lunit Let_def prod.case, simp)
  show ?thesis
    by (rule exI [of _ "t\<lparr>htx_mem := m4, htx_data := uint32 (htx_data t + dsize h bp bi p)\<rparr>"])
      (use step d at [OF len(4)] len dt st in \<open>simp add: nx sm sum s_def htx_area_ok_def\<close>)
qed

text \<open>The whole loop.\<close>

definition htx_laid :: "htx \<Rightarrow> bool" where
  "htx_laid h = (htx_area_ok h \<and> 0 \<le> htx_head h \<and> htx_head h \<le> htx_tail h \<and> 8 * (htx_tail h + 1) \<le> htx_size h \<and>
     (\<forall>p\<in>set [htx_head h..htx_tail h]. 0 \<le> blk_addr (htx_bl h p) \<and>
        blk_addr (htx_bl h p) + htx_get_blksz (htx_bl h p) \<le> htx_size h))"

abbreviation htx_live :: "htx \<Rightarrow> int list" where
  "htx_live h \<equiv> htx_used (htx_mem h) (htx_size h) (htx_head h) (htx_tail h)"

lemma htx_used_mem: "p \<in> set (htx_used m s a b) \<longleftrightarrow> a \<le> p \<and> p \<le> b \<and> blk_used (blk_in m s p)"
  by (auto simp: htx_used_def)

lemma distinct_htx_used [simp]: "distinct (htx_used m s a b)"
  by (simp add: htx_used_def)

lemma htx_used_empty [simp]: "b < a \<Longrightarrow> htx_used m s a b = []"
  by (simp add: htx_used_def)

lemma htx_defrag_loop_ok:
  assumes blk: "blk = (if bp = -1 then None else Some (htx_ptr (htx_size h) bp))" and h: "htx_laid h" and bp: "-1 \<le> bp"
    and grow: "\<And>q. q \<in> set (htx_live h) \<Longrightarrow> htx_get_blksz (htx_bl h q) \<le> dsize h bp bi q"
    and room: "dsum h bp bi (htx_live h) + 8 * int (length (htx_live h)) \<le> htx_size h"
  shows "htx_head h \<le> p \<Longrightarrow> p \<le> htx_tail h + 1 \<Longrightarrow> ps = htx_used (htx_mem h) (htx_size h) (htx_head h) (p - 1) \<Longrightarrow>
    htx_area_ok t \<Longrightarrow> htx_size t = htx_size h \<Longrightarrow> ddone h bp bi ps (htx_mem t) \<Longrightarrow> htx_data t = dsum h bp bi ps \<Longrightarrow>
    \<exists>t'. htx_area_ok t' \<and> htx_size t' = htx_size h \<and> ddone h bp bi (htx_live h) (htx_mem t') \<and>
      length (htx_mem t') = length (htx_mem t) \<and> htx_data t' = dsum h bp bi (htx_live h) \<and>
      htx_defrag_loop h blk bi t (if p = htx_tail h + 1 then -1 else p)
        (int (length ps)) (dsum h bp bi ps) (pos_idx (htx_first h) ps) (pos_idx bp ps) =
      Some (t', int (length (htx_live h)), dsum h bp bi (htx_live h), pos_idx (htx_first h) (htx_live h), pos_idx bp (htx_live h))"
proof (induction "nat (htx_tail h + 1 - p)" arbitrary: p ps t rule: less_induct)
  case less
  define u where "u = htx_used (htx_mem h) (htx_size h)"
  have a: "htx_area_ok h" and hd: "0 \<le> htx_head h" "8 * (htx_tail h + 1) \<le> htx_size h" "htx_size h < 2147483648"
    and lay: "\<And>q. htx_head h \<le> q \<Longrightarrow> q \<le> htx_tail h \<Longrightarrow> 0 \<le> blk_addr (htx_bl h q) \<and>
      blk_addr (htx_bl h q) + htx_get_blksz (htx_bl h q) \<le> htx_size h"
    using h by (auto simp: htx_laid_def htx_area_ok_def)
  show ?case
  proof (cases "p = htx_tail h + 1")
    case True
    then have "ps = htx_live h" using less.prems(3) by simp
    then show ?thesis using True less.prems by (intro exI [of _ t]) (simp add: htx_defrag_loop.simps)
  next
    case False
    then have p: "htx_head h \<le> p" "p \<le> htx_tail h" "0 \<le> p" "8 * (p + 1) \<le> htx_size h" "p \<noteq> -1" using less.prems hd by auto
    have next_p: "htx_get_next h p = (if p + 1 = htx_tail h + 1 then -1 else p + 1)"
      using p hd by (subst htx_get_next_eq) auto
    have live: "htx_live h = ps @ (if blk_used (htx_bl h p) then [p] else []) @ u (p + 1) (htx_tail h)"
      unfolding less.prems(3) u_def using p by (intro htx_used_split) auto
    have ps': "ps @ (if blk_used (htx_bl h p) then [p] else []) = htx_used (htx_mem h) (htx_size h) (htx_head h) (p + 1 - 1)"
      unfolding less.prems(3) using p by (simp add: htx_used_split [of "htx_head h" p p])
    have pn: "p \<notin> set ps" unfolding less.prems(3) by (auto simp: htx_used_mem)
    show ?thesis
    proof (cases "blk_used (htx_bl h p)")
      case False
      have gp: "htx_get_blk h p = htx_ptr (htx_size h) p" using a p by (simp add: htx_get_blk_eq)
      have rdp: "blk_rd h (htx_ptr (htx_size h) p) = Some (htx_bl h p)" using a p by (simp add: blk_rd_eq)
      have "htx_defrag_loop h blk bi t p (int (length ps)) (dsum h bp bi ps) (pos_idx (htx_first h) ps) (pos_idx bp ps) =
          htx_defrag_loop h blk bi t (if p + 1 = htx_tail h + 1 then -1 else p + 1) (int (length ps)) (dsum h bp bi ps)
            (pos_idx (htx_first h) ps) (pos_idx bp ps)"
        using p(5) False by (subst htx_defrag_loop.simps) (simp add: gp rdp blk_used_def Let_def next_p)
      then show ?thesis
        using less.hyps [of "p + 1" ps t] less.prems(4-7) p ps' False \<open>p \<noteq> htx_tail h + 1\<close> by simp
    next
      case True
      let ?ps = "ps @ [p]"
      have rm: "dsum h bp bi ps + dsize h bp bi p \<le> htx_size h - 8 * (int (length ps) + 1)"
        using room dsum_nonneg [of h bp bi "u (p + 1) (htx_tail h)"] True unfolding live by (simp add: dsum_append dsum_def)
      have g: "htx_get_blksz (htx_bl h q) \<le> dsize h bp bi q" if "q \<in> set ?ps" for q
        using grow [of q] that True unfolding live by auto
      obtain t1 where t1: "htx_area_ok t1" "htx_size t1 = htx_size h" "ddone h bp bi ?ps (htx_mem t1)"
        "length (htx_mem t1) = length (htx_mem t)" "htx_data t1 = dsum h bp bi ?ps"
        and step: "htx_defrag_loop h blk bi t p (int (length ps)) (dsum h bp bi ps) (pos_idx (htx_first h) ps) (pos_idx bp ps) =
          htx_defrag_loop h blk bi t1 (htx_get_next h p) (int (length ps) + 1) (dsum h bp bi ?ps)
            (if htx_first h = p then int (length ps) else pos_idx (htx_first h) ps) (if bp = p then int (length ps) else pos_idx bp ps)"
        using htx_defrag_loop_used [OF blk a less.prems(4,5) p(3,4) True p(5) _ _ refl refl less.prems(6) bp g rm less.prems(7)]
          lay [OF p(1,2)] by blast
      have "\<exists>t'. htx_area_ok t' \<and> htx_size t' = htx_size h \<and> ddone h bp bi (htx_live h) (htx_mem t') \<and>
          length (htx_mem t') = length (htx_mem t1) \<and> htx_data t' = dsum h bp bi (htx_live h) \<and>
          htx_defrag_loop h blk bi t1 (if p + 1 = htx_tail h + 1 then -1 else p + 1)
            (int (length ?ps)) (dsum h bp bi ?ps) (pos_idx (htx_first h) ?ps) (pos_idx bp ?ps) =
          Some (t', int (length (htx_live h)), dsum h bp bi (htx_live h), pos_idx (htx_first h) (htx_live h), pos_idx bp (htx_live h))"
        by (rule less.hyps) (use p ps' True t1 in simp_all)
      then show ?thesis
        unfolding step [unfolded next_p] t1(4) using \<open>p \<noteq> htx_tail h + 1\<close>
        by (simp only: if_False step next_p pos_idx_snoc [OF pn] length_append_singleton of_nat_Suc add.commute)
    qed
  qed
qed

lemma bs_copy:
  assumes "0 \<le> p" and "0 \<le> n" and "p + n \<le> s" and "s \<le> int (length m)" and "s \<le> int (length m')"
  shows "bs (blit m 0 (bs m' 0 s)) p n = bs m' p n"
proof (rule nth_equalityI)
  have l: "length (bs m' 0 s) = nat s" using assms by (intro length_bs) auto
  have lb: "length (blit m 0 (bs m' 0 s)) = length m" using l assms by (intro length_blit) auto
  show "length (bs (blit m 0 (bs m' 0 s)) p n) = length (bs m' p n)"
    using assms l lb by (subst (1 2) length_bs) auto
  fix i assume "i < length (bs (blit m 0 (bs m' 0 s)) p n)"
  then have i: "i < nat n" by (simp add: bs_def)
  have "blit m 0 (bs m' 0 s) ! (nat p + i) = bs m' 0 s ! (nat p + i)"
    using assms l i by (subst nth_blit) auto
  also have "\<dots> = m' ! (nat p + i)" using assms i by (simp add: bs_def)
  finally show "bs (blit m 0 (bs m' 0 s)) p n ! i = bs m' p n ! i"
    using assms i lb by (simp add: bs_def)
qed

lemma blk_in_copy:
  assumes "0 \<le> q" and "0 \<le> htx_ptr s q" and "s \<le> int (length m)" and "s \<le> int (length m')"
  shows "blk_in (blit m 0 (bs m' 0 s)) s q = blk_in m' s q"
proof -
  have "bs (blit m 0 (bs m' 0 s)) (htx_ptr s q) 4 = bs m' (htx_ptr s q) 4"
    and "bs (blit m 0 (bs m' 0 s)) (htx_ptr s q + 4) 4 = bs m' (htx_ptr s q + 4) 4"
    using assms by (auto intro!: bs_copy simp: htx_ptr_def)
  then show ?thesis by (simp add: blk_in_def)
qed

lemma htx_live_length: 
  assumes "htx_head h \<le> htx_tail h" 
  shows "int (length (htx_used m s a b)) \<le> (if a \<le> b then b + 1 - a else 0)"
proof -
  have "length (htx_used m s a b) \<le> length [a..b]" unfolding htx_used_def by (rule length_filter_le)
  then show ?thesis by auto
qed

lemma htx_defrag_ok:
  assumes blk: "blk = (if bp = -1 then None else Some (htx_ptr (htx_size h) bp))" and h: "htx_laid h" and bp: "-1 \<le> bp"
    and grow: "\<And>q. q \<in> set (htx_live h) \<Longrightarrow> htx_get_blksz (htx_bl h q) \<le> dsize h bp bi q"
    and room: "dsum h bp bi (htx_live h) + 8 * int (length (htx_live h)) \<le> htx_size h"
    and tr: "htx_size h \<le> int (length tr)"
  shows "\<exists>m'. length m' = length (htx_mem h) \<and> ddone h bp bi (htx_live h) m' \<and>
    htx_defrag tr h blk bi =
      Some (h\<lparr>htx_data := dsum h bp bi (htx_live h), htx_first := pos_idx (htx_first h) (htx_live h), htx_head := 0,
              htx_tail := int (length (htx_live h)) - 1, htx_head_addr := 0, htx_end_addr := 0,
              htx_tail_addr := dsum h bp bi (htx_live h), htx_flags := htx_flags h AND NOT HTX_FL_FRAGMENTED,
              htx_mem := m'\<rparr>,
            if bp \<in> set (htx_live h) then Some (htx_ptr (htx_size h) (pos_idx bp (htx_live h))) else None)"
proof -
  define us where "us = htx_live h"
  define s where "s = htx_size h"
  have a: "htx_area_ok h" and hd: "0 \<le> htx_head h" "htx_head h \<le> htx_tail h" "8 * (htx_tail h + 1) \<le> s" "s < 2147483648"
    "0 < s" "s \<le> int (length (htx_mem h))"
    using h by (auto simp: htx_laid_def htx_area_ok_def s_def)
  define tmp where "tmp = (htx_reset h)\<lparr>htx_mem := tr\<rparr>"
  have tmp: "htx_area_ok tmp" "htx_size tmp = s" "htx_data tmp = 0" "htx_mem tmp = tr"
    using a tr by (simp_all add: tmp_def htx_reset_def htx_area_ok_def s_def)
  obtain t where t: "htx_area_ok t" "htx_size t = s" "ddone h bp bi us (htx_mem t)" "length (htx_mem t) = length tr"
    "htx_data t = dsum h bp bi us"
    and loop: "htx_defrag_loop h blk bi tmp (htx_head h) 0 0 (-1) (-1) =
      Some (t, int (length us), dsum h bp bi us, pos_idx (htx_first h) us, pos_idx bp us)"
    using htx_defrag_loop_ok [OF blk h bp grow room, of "htx_head h" "[]" tmp] tmp hd(2)
    by (auto simp: us_def s_def ddone_def dsum_def)
  define m' where "m' = blit (htx_mem h) 0 (bs (htx_mem t) 0 s)"
  have lt: "s \<le> int (length (htx_mem t))" using t(4) tr by (simp add: s_def)
  have lb: "length (bs (htx_mem t) 0 s) = nat s" using lt hd by (simp add: length_bs)
  have len: "length m' = length (htx_mem h)" unfolding m'_def using lb hd by (intro length_blit) auto
  have dn: "ddone h bp bi us m'"
    unfolding ddone_def
  proof (intro allI impI)
    fix i assume i: "i < length us"
    have r: "dsum h bp bi us + 8 * int (length us) \<le> s" using room by (simp add: us_def s_def)
    have il: "int i + 1 \<le> int (length us)" using i by simp
    have z: "htx_get_blksz (htx_bl h (us ! i)) \<le> dsize h bp bi (us ! i)" using grow [of "us ! i"] i by (simp add: us_def)
    have e: "dsum h bp bi (take i us) + htx_get_blksz (htx_bl h (us ! i)) \<le> s"
      using dsum_take_step [OF i, of h bp bi] z r by linarith
    have q0: "0 \<le> htx_ptr s (int i)" using order_trans [OF _ r, of "8 * int (length us)"] il by (simp add: htx_ptr_def)
    have "blk_in m' s (int i) = blk_in (htx_mem t) s (int i)"
      unfolding m'_def using q0 hd lt by (intro blk_in_copy) auto
    moreover have "bs m' (dsum h bp bi (take i us)) (htx_get_blksz (htx_bl h (us ! i))) =
        bs (htx_mem t) (dsum h bp bi (take i us)) (htx_get_blksz (htx_bl h (us ! i)))"
      unfolding m'_def using e hd lt by (intro bs_copy) auto
    ultimately show "blk_in m' (htx_size h) (int i) =
        \<lparr>blk_addr = dsum h bp bi (take i us), blk_info = dinfo h bp bi (us ! i)\<rparr> \<and>
      bs m' (dsum h bp bi (take i us)) (htx_get_blksz (htx_bl h (us ! i))) =
        bs (htx_mem h) (blk_addr (htx_bl h (us ! i))) (htx_get_blksz (htx_bl h (us ! i)))"
      using t(3) i by (simp add: ddone_def s_def)
  qed
  have lu: "int (length us) \<le> htx_tail h + 1 - htx_head h"
    using htx_live_length [of h "htx_mem h" "htx_size h" "htx_head h" "htx_tail h"] hd(2) by (simp add: us_def)
  have fi: "to_int32 (pos_idx (htx_first h) us) = pos_idx (htx_first h) us"
    using pos_idx_less [of "htx_first h" us] lu hd by (cases "htx_first h \<in> set us") (auto intro!: to_int32_small)
  have ta: "to_int32 (int (length us) - 1) = int (length us) - 1" using lu hd by (intro to_int32_small) auto
  have mr: "mrd (htx_mem t) 0 s = Some (bs (htx_mem t) 0 s)" using lt hd by (simp add: mrd_Some)
  have mw: "mwr (htx_mem h) 0 (bs (htx_mem t) 0 s) = Some m'" using lb hd by (simp add: mwr_Some m'_def)
  define h' where "h' = h\<lparr>htx_data := dsum h bp bi us, htx_first := pos_idx (htx_first h) us, htx_head := 0,
              htx_tail := int (length us) - 1, htx_head_addr := 0, htx_end_addr := 0,
              htx_tail_addr := dsum h bp bi us, htx_flags := htx_flags h AND NOT HTX_FL_FRAGMENTED, htx_mem := m'\<rparr>"
  have ar: "htx_area_ok h'" using a len by (simp add: h'_def htx_area_ok_def)
  have gb: "htx_get_blk h' (pos_idx bp us) = htx_ptr s (pos_idx bp us)" if "bp \<in> set us"
  proof -
    have "pos_idx bp us + 1 \<le> int (length us)" using pos_idx_less [OF that] by simp
    then have "8 * (pos_idx bp us + 1) \<le> s" using lu hd by auto
    then show ?thesis using htx_get_blk_eq [OF ar, of "pos_idx bp us"] pos_idx_less [OF that] by (simp add: h'_def s_def)
  qed
  have "htx_defrag tr h blk bi = Some (h', if bp \<in> set us then Some (htx_ptr s (pos_idx bp us)) else None)"
  proof -
    have "htx_head h \<noteq> -1" using hd by simp
    then have "htx_defrag tr h blk bi = Some (h', if pos_idx bp us = -1 then None else Some (htx_get_blk h' (pos_idx bp us)))"
      unfolding htx_defrag_def
      by (simp add: htx_get_head_def tmp_def [symmetric] loop mr mw fi ta t(5) Let_def h'_def s_def [symmetric])
    then show ?thesis using gb pos_idx_less [of bp us] by (cases "bp \<in> set us") auto
  qed
  then show ?thesis using len dn by (intro exI [of _ m']) (simp add: h'_def us_def s_def)
qed


lemma upto_int: "[0..int n - 1] = map int [0..<n]"
proof (induction n)
  case (Suc n)
  have "[0..int (Suc n) - 1] = [0..int n - 1] @ [int n]" using upto_rec2 [of 0 "int n"] by simp
  then show ?case using Suc by simp
qed simp

text \<open>The result of a defragmentation: one block per block in use, in the same order, each payload at the
  end of the previous one.\<close>

lemma ddone_blk:
  assumes "ddone h bp bi us m" and "i < length us"
  shows "htx_get_blk_type (blk_in m (htx_size h) (int i)) = htx_get_blk_type \<lparr>blk_addr = 0, blk_info = dinfo h bp bi (us ! i)\<rparr>"
    and "htx_get_blksz (blk_in m (htx_size h) (int i)) = dsize h bp bi (us ! i)"
    and "blk_addr (blk_in m (htx_size h) (int i)) = dsum h bp bi (take i us)"
    and "blk_info (blk_in m (htx_size h) (int i)) = dinfo h bp bi (us ! i)"
proof -
  have b: "blk_in m (htx_size h) (int i) = \<lparr>blk_addr = dsum h bp bi (take i us), blk_info = dinfo h bp bi (us ! i)\<rparr>"
    using assms by (simp add: ddone_def)
  show "htx_get_blk_type (blk_in m (htx_size h) (int i)) = htx_get_blk_type \<lparr>blk_addr = 0, blk_info = dinfo h bp bi (us ! i)\<rparr>"
    unfolding b by (rule htx_get_blk_type_addr) simp
  show "htx_get_blksz (blk_in m (htx_size h) (int i)) = dsize h bp bi (us ! i)"
    unfolding b dsize_def by (rule htx_get_blksz_addr) simp
  show "blk_addr (blk_in m (htx_size h) (int i)) = dsum h bp bi (take i us)"
    and "blk_info (blk_in m (htx_size h) (int i)) = dinfo h bp bi (us ! i)" by (simp_all add: b)
qed

lemma ddone_sum:
  assumes "ddone h bp bi us m"
  shows "htx_sum m (htx_size h) [0..int (length us) - 1] = dsum h bp bi us"
proof -
  have "map (\<lambda>p. htx_get_blksz (blk_in m (htx_size h) p)) (map int [0..<length us]) = map (dsize h bp bi) us"
    using ddone_blk(2) [OF assms] by (intro nth_equalityI) auto
  then show ?thesis by (simp only: htx_sum_def upto_int dsum_def)
qed

lemma ddone_used:
  assumes "ddone h bp bi us m"
    and "\<And>q. q \<in> set us \<Longrightarrow> blk_used \<lparr>blk_addr = 0, blk_info = dinfo h bp bi q\<rparr>"
  shows "htx_used m (htx_size h) 0 (int (length us) - 1) = [0..int (length us) - 1]"
  unfolding htx_used_def filter_id_conv
proof
  fix p assume "p \<in> set [0..int (length us) - 1]"
  then have "p = int (nat p)" and "nat p < length us" by auto
  then show "blk_used (blk_in m (htx_size h) p)"
    using ddone_blk(1) [OF assms(1), of "nat p"] assms(2) [of "us ! nat p"] by (simp add: blk_used_def)
qed

lemma ddone_wf:
  assumes d: "ddone h bp bi us (htx_mem h')" and us: "us \<noteq> []"
    and used: "\<And>q. q \<in> set us \<Longrightarrow> blk_used \<lparr>blk_addr = 0, blk_info = dinfo h bp bi q\<rparr>"
    and pos: "\<And>q. q \<in> set us \<Longrightarrow> 0 < dsize h bp bi q"
    and room: "dsum h bp bi us + 8 * int (length us) \<le> htx_size h"
    and h': "htx_area_ok h'" "htx_size h' = htx_size h" "htx_head h' = 0" "htx_tail h' = int (length us) - 1"
      "htx_data h' = dsum h bp bi us" "htx_tail_addr h' = dsum h bp bi us" "htx_head_addr h' = 0" "htx_end_addr h' = 0"
  shows "htx_wf h'"
proof -
  have p0: "0 < dsum h bp bi us"
  proof -
    have "0 < dsize h bp bi (us ! 0)" using us by (intro pos) simp
    then show ?thesis using dsum_take_step [of 0 us h bp bi] us by (simp add: dsum_def)
  qed
  have n: "0 < int (length us)" using us by simp
  have rooms: "htx_rooms_ok h'" using h' room p0 n by (auto simp: htx_rooms_ok_def)
  have pl: "blk_placed (htx_size h') 0 0 (dsum h bp bi us) p (htx_bl h' p)" if "p \<in> set [0..int (length us) - 1]" for p
  proof -
    define i where "i = nat p"
    have i: "p = int i" "i < length us" using that by (auto simp: i_def)
    have q: "us ! i \<in> set us" using i by simp
    have il: "int i + 1 \<le> int (length us)" using i by simp
    have z: "dsum h bp bi (take i us) + dsize h bp bi (us ! i) \<le> dsum h bp bi us" using i(2) by (rule dsum_take_step)
    show ?thesis
      unfolding blk_placed_def i(1) h'(2) blk_used_def ddone_blk [OF d i(2)]
      using used [OF q] pos [OF q] z room il by (simp add: blk_used_def)
  qed
  have ap: "blk_apart (htx_bl h' p) (htx_bl h' q)" if "p \<in> set [0..int (length us) - 1]" "q \<in> set [0..int (length us) - 1]" "p < q" for p q
  proof -
    define i j where "i = nat p" and "j = nat q"
    have i: "p = int i" "i < length us" and j: "q = int j" "j < length us" and ij: "i < j" using that by (auto simp: i_def j_def)
    have "dsum h bp bi (take i us) + dsize h bp bi (us ! i) = dsum h bp bi (take (Suc i) us)"
      using i(2) by (simp add: take_Suc_conv_app_nth dsum_snoc)
    also have "\<dots> \<le> dsum h bp bi (take j us)" using ij by (intro dsum_take_le) simp
    finally show ?thesis using ddone_blk(2,3) [OF d i(2)] ddone_blk(3) [OF d j(2)]
      by (simp add: blk_apart_def i(1) j(1) h'(2))
  qed
  have sym: "blk_apart b c \<Longrightarrow> blk_apart c b" for b c by (auto simp: blk_apart_def)
  have blks: "htx_blks_ok h'"
    unfolding htx_blks_ok_def h'(3,4,6,7,8)
  proof (intro conjI ballI impI)
    fix p q assume pq: "p \<in> set [0..int (length us) - 1]" "q \<in> set [0..int (length us) - 1]" "p \<noteq> q"
    then consider "p < q" | "q < p" by linarith
    then show "blk_apart (htx_bl h' p) (htx_bl h' q)" using ap [OF pq(1,2)] ap [OF pq(2,1)] sym by cases blast+
  qed (rule pl)
  show ?thesis using h' rooms blks p0 ddone_sum [OF d] by (simp add: htx_wf_def htx_geo_def)
qed

lemma dinfo_none [simp]: "dinfo h bp 0 p = blk_info (htx_bl h p)"
  by (simp add: dinfo_def)

lemma dsize_none [simp]: "dsize h bp 0 p = htx_get_blksz (htx_bl h p)"
  unfolding dsize_def dinfo_none by (rule htx_get_blksz_addr) simp

lemma ddone_part:
  assumes d: "ddone h bp 0 us m" and us: "us = htx_live h"
  shows "htx_part m (htx_size h) 0 (int (length us) - 1) = htx_part (htx_mem h) (htx_size h) (htx_head h) (htx_tail h)"
proof -
  have u: "htx_used m (htx_size h) 0 (int (length us) - 1) = map int [0..<length us]"
    by (subst ddone_used [OF d]) (auto simp: upto_int us htx_used_mem blk_used_def htx_get_blk_type_def)
  have "map (\<lambda>p. blk_entry m (blk_in m (htx_size h) p)) (map int [0..<length us]) =
      map (\<lambda>p. blk_entry (htx_mem h) (htx_bl h p)) us"
    using d ddone_blk [OF d] by (intro nth_equalityI) (auto simp: blk_entry_def ddone_def)
  then show ?thesis unfolding htx_part_def u by (simp only: us)
qed

lemma htx_live_pos:
  assumes "htx_geo h" and "htx_head h \<noteq> -1" and "0 < htx_data h"
  shows "htx_live h \<noteq> []"
proof
  assume "htx_live h = []"
  then have "\<forall>p\<in>set [htx_head h..htx_tail h]. htx_get_blksz (htx_bl h p) = 0"
    using assms by (auto simp: htx_used_def filter_empty_conv htx_geo_def htx_blks_ok_def blk_placed_def)
  then have "map (\<lambda>p. htx_get_blksz (htx_bl h p)) [htx_head h..htx_tail h] = map (\<lambda>p. 0) [htx_head h..htx_tail h]"
    by (intro map_cong) auto
  then have "htx_sum (htx_mem h) (htx_size h) [htx_head h..htx_tail h] = 0" by (simp only: htx_sum_def sum_list_0)
  then show False using assms by (auto simp: htx_geo_def)
qed

lemma htx_sum_used:
  assumes "\<And>p. a \<le> p \<Longrightarrow> p \<le> b \<Longrightarrow> \<not> blk_used (blk_in m s p) \<Longrightarrow> htx_get_blksz (blk_in m s p) = 0"
  shows "htx_sum m s (htx_used m s a b) = htx_sum m s [a..b]"
proof -
  have "htx_sum m s (filter (\<lambda>p. blk_used (blk_in m s p)) ps) = htx_sum m s ps"
    if "set ps \<subseteq> {a..b}" for ps
    using that by (induction ps) (auto simp: htx_sum_Cons assms)
  then show ?thesis by (simp add: htx_used_def)
qed

text \<open>The blocks in use, moved to the positions from 0 on.\<close>

lemma htx_reindex:
  assumes wf: "htx_wf h" and ne: "htx_head h \<noteq> -1" and us: "us = htx_live h"
    and h': "htx_area_ok h'" "htx_size h' = htx_size h" "htx_head h' = 0" "htx_tail h' = int (length us) - 1"
      "htx_data h' = htx_data h" "htx_tail_addr h' = htx_tail_addr h" "htx_head_addr h' = htx_head_addr h" 
      "htx_end_addr h' = htx_end_addr h"
    and blk: "\<And>i. i < length us \<Longrightarrow> htx_bl h' (int i) = htx_bl h (us ! i)"
    and pay: "\<And>a n. 0 \<le> a \<Longrightarrow> a + n \<le> htx_tail_addr h \<Longrightarrow> bs (htx_mem h') a n = bs (htx_mem h) a n"
  shows "htx_wf h' \<and> htx_msg h' = htx_msg h"
proof -
  let ?s = "htx_size h"
  have geo: "htx_geo h" and d: "0 < htx_data h" using wf ne by (auto simp: htx_wf_def)
  have r: "htx_rooms_ok h" and b: "htx_blks_ok h" and sm: "htx_data h = htx_sum (htx_mem h) ?s [htx_head h..htx_tail h]"
    using geo ne by (auto simp: htx_geo_def)
  have un: "us \<noteq> []" using htx_live_pos [OF geo ne d] us by simp
  have lu: "int (length us) \<le> htx_tail h + 1 - htx_head h"
    using htx_live_length [of h "htx_mem h" ?s "htx_head h" "htx_tail h"] r by (simp add: us htx_rooms_ok_def)
  have lu0: "0 < int (length us)" using un by simp
  have inn: "us ! i \<in> set [htx_head h..htx_tail h]" "blk_used (htx_bl h (us ! i))" if "i < length us" for i
    using nth_mem [OF that] by (auto simp: us htx_used_mem)
  have pl: "blk_placed ?s (htx_head_addr h) (htx_end_addr h) (htx_tail_addr h) (us ! i) (htx_bl h (us ! i))" if "i < length us" for i
    using b inn [OF that] by (auto simp: htx_blks_ok_def)
  have idx: "int i \<le> us ! i" if "i < length us" for i
  proof -
    have "sorted_wrt (<) us" unfolding us htx_used_def by (intro sorted_wrt_filter) (simp add: sorted_wrt_upto)
    then have "us ! 0 + int i \<le> us ! i" using that
    proof (induction i)
      case (Suc i)
      then have "us ! i < us ! Suc i" by (intro sorted_wrt_nth_less) auto
      then show ?case using Suc by simp
    qed simp
    moreover have "0 \<le> us ! 0" using inn [of 0] un r by (auto simp: htx_rooms_ok_def)
    ultimately show ?thesis by simp
  qed
  have nt: "p = int (nat p) \<and> nat p < length us" if "p \<in> set [0..int (length us) - 1]" for p using that by auto
  have rooms: "htx_rooms_ok h'"
    using r lu lu0 d h' by (auto simp: htx_rooms_ok_def)
  have blks: "htx_blks_ok h'"
    unfolding htx_blks_ok_def h'
  proof (intro conjI ballI impI)
    fix p assume p: "p \<in> set [0..int (length us) - 1]"
    show "blk_placed ?s (htx_head_addr h) (htx_end_addr h) (htx_tail_addr h) p (blk_in (htx_mem h') ?s p)"
      using pl [of "nat p"] idx [of "nat p"] nt [OF p] blk [of "nat p"] h'(2) by (auto simp: blk_placed_def)
    fix q assume q: "q \<in> set [0..int (length us) - 1]" and pq: "p \<noteq> q"
    have "us ! nat p \<noteq> us ! nat q" using nt [OF p] nt [OF q] p q pq
      by (simp add: us nth_eq_iff_index_eq eq_nat_nat_iff)
    then have "blk_apart (htx_bl h (us ! nat p)) (htx_bl h (us ! nat q))"
      using b inn(1) [of "nat p"] inn(1) [of "nat q"] nt [OF p] nt [OF q] unfolding htx_blks_ok_def by blast
    then show "blk_apart (blk_in (htx_mem h') ?s p) (blk_in (htx_mem h') ?s q)"
      using blk [of "nat p"] blk [of "nat q"] nt [OF p] nt [OF q] h'(2) by simp
  qed
  have e: "map (\<lambda>p. f (blk_in (htx_mem h') ?s p)) [0..int (length us) - 1] = map (\<lambda>p. f (htx_bl h p)) us" for f :: "htx_blk \<Rightarrow> 'b"
    unfolding upto_int using blk h'(2) by (intro nth_equalityI) auto
  have used: "htx_used (htx_mem h') ?s 0 (int (length us) - 1) = [0..int (length us) - 1]"
    unfolding htx_used_def filter_id_conv
    using nt blk h'(2) inn(2) by fastforce
  have "htx_sum (htx_mem h') ?s [0..int (length us) - 1] = htx_sum (htx_mem h) ?s us"
    unfolding htx_sum_def e ..
  also have "\<dots> = htx_data h" unfolding us sm
    using b by (intro htx_sum_used) (auto simp: htx_blks_ok_def blk_placed_def)
  finally have "htx_wf h'" using h' rooms blks d by (simp add: htx_wf_def htx_geo_def)
  moreover have "htx_msg h' = htx_msg h"
  proof -
    have "blk_entry (htx_mem h') (htx_bl h (us ! i)) = blk_entry (htx_mem h) (htx_bl h (us ! i))" if "i < length us" for i
    proof -
      have "blk_addr (htx_bl h (us ! i)) + htx_get_blksz (htx_bl h (us ! i)) \<le> htx_tail_addr h"
        using pl [OF that] inn(2) [OF that] r by (auto simp: blk_placed_def htx_rooms_ok_def)
      then show ?thesis using pl [OF that] by (simp add: blk_entry_def pay blk_placed_def)
    qed
    then have "map (\<lambda>p. blk_entry (htx_mem h') (htx_bl h p)) us = map (\<lambda>p. blk_entry (htx_mem h) (htx_bl h p)) us"
      by (intro nth_equalityI) auto
    then show ?thesis
      unfolding htx_msg_def htx_part_def h' used e using ne by (simp add: us)
  qed
  ultimately show ?thesis ..
qed


section \<open>Defragmentation of the table\<close>

lemma htx_defrag_blks_loop_ok:
  assumes h: "htx_area_ok h0" "0 < htx_head h0" "htx_head h0 \<le> htx_tail h0" "8 * (htx_tail h0 + 1) \<le> htx_size h0"
  shows "htx_head h0 \<le> p \<Longrightarrow> p \<le> htx_tail h0 + 1 \<Longrightarrow> ps = htx_used (htx_mem h0) (htx_size h0) (htx_head h0) (p - 1) \<Longrightarrow>
    int (length ps) \<le> p - htx_head h0 \<Longrightarrow>
    htx_area_ok h \<Longrightarrow> length (htx_mem h) = length (htx_mem h0) \<Longrightarrow>
    (\<And>i. i < length ps \<Longrightarrow> blk_in (htx_mem h) (htx_size h0) (int i) = htx_bl h0 (ps ! i)) \<Longrightarrow>
    (\<And>q. p \<le> q \<Longrightarrow> q \<le> htx_tail h0 \<Longrightarrow> blk_in (htx_mem h) (htx_size h0) q = htx_bl h0 q) \<Longrightarrow>
    (\<And>a n. 0 \<le> a \<Longrightarrow> a + n \<le> htx_ptr (htx_size h0) (htx_tail h0) \<Longrightarrow> bs (htx_mem h) a n = bs (htx_mem h0) a n) \<Longrightarrow>
    htx_size h = htx_size h0 \<Longrightarrow> htx_tail h = htx_tail h0 \<Longrightarrow>
    \<exists>m' f'. length m' = length (htx_mem h0) \<and>
      (\<forall>i<length (htx_live h0). blk_in m' (htx_size h0) (int i) = htx_bl h0 (htx_live h0 ! i)) \<and>
      (\<forall>a n. 0 \<le> a \<longrightarrow> a + n \<le> htx_ptr (htx_size h0) (htx_tail h0) \<longrightarrow> bs m' a n = bs (htx_mem h0) a n) \<and>
      htx_defrag_blks_loop h (if p = htx_tail h0 + 1 then -1 else p) (int (length ps)) =
      Some (h\<lparr>htx_mem := m', htx_first := f'\<rparr>, int (length (htx_live h0)))"
proof (induction "nat (htx_tail h0 + 1 - p)" arbitrary: p ps h rule: less_induct)
  case less
  note [simp] = less.prems(10,11)
  define s where "s = htx_size h0"
  have s: "0 < s" "s < 2147483648" "s \<le> int (length (htx_mem h0))" using h by (auto simp: htx_area_ok_def s_def)
  show ?case
  proof (cases "p = htx_tail h0 + 1")
    case True
    then have "ps = htx_live h0" using less.prems(3) by simp
    then show ?thesis using True less.prems
      by (intro exI [of _ "htx_mem h"] exI [of _ "htx_first h"]) (simp add: htx_defrag_blks_loop.simps)
  next
    case False
    then have p: "htx_head h0 \<le> p" "p \<le> htx_tail h0" "0 \<le> p" "8 * (p + 1) \<le> s" "p \<noteq> -1"
      using less.prems h by (auto simp: s_def)
    have n: "0 \<le> int (length ps)" "int (length ps) < p" using less.prems(4) h(2) by auto
    have next_p: "htx_get_next h' p = (if p + 1 = htx_tail h0 + 1 then -1 else p + 1)" if "htx_tail h' = htx_tail h0" for h'
      using p h s that by (subst htx_get_next_eq) (auto simp: s_def)
    have gp: "htx_get_blk h p = htx_ptr s p" using less.prems(5) p by (simp add: htx_get_blk_eq s_def)
    have rdp: "blk_rd h (htx_ptr s p) = Some (htx_bl h0 p)"
      using blk_rd_eq [OF less.prems(5), of p] p less.prems(8) [of p] by (simp add: s_def)
    have ps': "ps @ (if blk_used (htx_bl h0 p) then [p] else []) = htx_used (htx_mem h0) (htx_size h0) (htx_head h0) (p + 1 - 1)"
      unfolding less.prems(3) using p by (simp add: htx_used_split [of "htx_head h0" p p])
    have np: "p \<noteq> int (length ps)" using n by simp
    show ?thesis
    proof (cases "blk_used (htx_bl h0 p)")
      case used: False
      have "htx_defrag_blks_loop h p (int (length ps)) =
          htx_defrag_blks_loop h (if p + 1 = htx_tail h0 + 1 then -1 else p + 1) (int (length ps))"
        using p(5) used np by (subst htx_defrag_blks_loop.simps) (simp add: gp rdp blk_used_def Let_def next_p)
      then show ?thesis
        using less.hyps [of "p + 1" ps h] less.prems(4-11) p ps' used False by simp
    next
      case used: True
      define new where "new = int (length ps)"
      define h1 where "h1 = (if htx_first h = p then h\<lparr>htx_first := new\<rparr> else h)"
      define m1 where "m1 = blit (htx_mem h) (nat (htx_ptr s new + 4)) (w32_bytes (blk_info (htx_bl h0 p)))"
      define m2 where "m2 = blit m1 (nat (htx_ptr s new)) (w32_bytes (word_of_int (blk_addr (htx_bl h0 p))))"
      have h1: "htx_area_ok h1" "htx_size h1 = s" "htx_tail h1 = htx_tail h0" "htx_mem h1 = htx_mem h"
        using less.prems(5) by (simp_all add: h1_def htx_area_ok_def s_def)
      have nn: "0 \<le> new" "new < p" "8 * (new + 1) \<le> s" using n p by (simp_all add: new_def)
      have pn: "0 \<le> htx_ptr s new" "htx_ptr s p + 8 \<le> htx_ptr s new" "htx_ptr s new + 8 \<le> s" "htx_ptr s (htx_tail h0) \<le> htx_ptr s p"
        using nn p by (simp_all add: htx_ptr_def)
      have lm: "s \<le> int (length (htx_mem h))" "length m1 = length (htx_mem h)" "length m2 = length (htx_mem h)"
        using s less.prems(6) pn by (simp_all add: m1_def m2_def)
      have ab: "0 \<le> blk_addr (htx_bl h0 p)" "blk_addr (htx_bl h0 p) < 4294967296"
        unfolding blk_in_def using uint_lt2p [where 'a = 32] by simp_all
      have b2: "blk_in m2 s q = (if q = new then htx_bl h0 p else blk_in (htx_mem h) s q)"
        if "0 \<le> q" "8 * (q + 1) \<le> s" for q
      proof -
        have "blk_in m1 s q = (if q = new then (blk_in (htx_mem h) s new)\<lparr>blk_info := blk_info (htx_bl h0 p)\<rparr> else blk_in (htx_mem h) s q)"
          unfolding m1_def using nn lm that by (intro blk_in_set_info) (auto simp: htx_ptr_def)
        moreover have "blk_in m2 s q = (if q = new then (blk_in m1 s new)\<lparr>blk_addr := blk_addr (htx_bl h0 p)\<rparr> else blk_in m1 s q)"
          unfolding m2_def using nn lm that ab by (intro blk_in_set_addr) (auto simp: htx_ptr_def)
        ultimately show ?thesis by auto
      qed
      have pay: "bs m2 a k = bs (htx_mem h) a k" if "0 \<le> a" "a + k \<le> htx_ptr s (htx_tail h0)" for a k
      proof -
        have "bs m1 a k = bs (htx_mem h) a k" unfolding m1_def using that pn lm by (intro bs_blit_other) auto
        moreover have "bs m2 a k = bs m1 a k" unfolding m2_def using that pn lm by (intro bs_blit_other) auto
        ultimately show ?thesis by simp
      qed
      have gn: "htx_get_blk h1 new = htx_ptr s new" using htx_get_blk_eq [OF h1(1), of new] nn h1(2) by simp
      have w1: "blk_set_info h1 (htx_ptr s new) (blk_info (htx_bl h0 p)) = Some (h1\<lparr>htx_mem := m1\<rparr>)"
        using pn lm by (simp add: blk_set_info_def mwr_Some m1_def h1(4))
      have w2: "blk_set_addr (h1\<lparr>htx_mem := m1\<rparr>) (htx_ptr s new) (blk_addr (htx_bl h0 p)) = Some (h1\<lparr>htx_mem := m2\<rparr>)"
        using pn lm by (simp add: blk_set_addr_def mwr_Some m2_def)
      have u: "htx_get_blk_type (htx_bl h0 p) \<noteq> HTX_BLK_UNUSED" using used by (simp add: blk_used_def)
      have step: "htx_defrag_blks_loop h p new =
          htx_defrag_blks_loop (h1\<lparr>htx_mem := m2\<rparr>) (if p + 1 = htx_tail h0 + 1 then -1 else p + 1) (new + 1)"
      proof -
        have nx: "htx_get_next (h1\<lparr>htx_mem := m2\<rparr>) p = (if p + 1 = htx_tail h0 + 1 then -1 else p + 1)"
          using h1(3) by (intro next_p) simp
        show ?thesis
          by (subst htx_defrag_blks_loop.simps)
            (simp only: p(5) u np [folded new_def] gp rdp gn w1 w2 nx h1_def [symmetric] if_False bind.bind_lunit Let_def)
      qed
      have "\<exists>m' f'. length m' = length (htx_mem h0) \<and>
          (\<forall>i<length (htx_live h0). blk_in m' (htx_size h0) (int i) = htx_bl h0 (htx_live h0 ! i)) \<and>
          (\<forall>a n. 0 \<le> a \<longrightarrow> a + n \<le> htx_ptr (htx_size h0) (htx_tail h0) \<longrightarrow> bs m' a n = bs (htx_mem h0) a n) \<and>
          htx_defrag_blks_loop (h1\<lparr>htx_mem := m2\<rparr>) (if p + 1 = htx_tail h0 + 1 then -1 else p + 1) (int (length (ps @ [p]))) =
          Some ((h1\<lparr>htx_mem := m2\<rparr>)\<lparr>htx_mem := m', htx_first := f'\<rparr>, int (length (htx_live h0)))"
      proof (rule less.hyps)
        show "ps @ [p] = htx_used (htx_mem h0) (htx_size h0) (htx_head h0) (p + 1 - 1)" using ps' used by simp
        show "htx_area_ok (h1\<lparr>htx_mem := m2\<rparr>)" using h1 lm by (simp add: htx_area_ok_def)
        show "blk_in (htx_mem (h1\<lparr>htx_mem := m2\<rparr>)) (htx_size h0) (int i) = htx_bl h0 ((ps @ [p]) ! i)"
          if "i < length (ps @ [p])" for i
          using b2 [of "int i"] that nn less.prems(7) [of i] by (auto simp: s_def new_def nth_append less_Suc_eq)
        show "blk_in (htx_mem (h1\<lparr>htx_mem := m2\<rparr>)) (htx_size h0) q = htx_bl h0 q" if "p + 1 \<le> q" "q \<le> htx_tail h0" for q
          using b2 [of q] that nn h less.prems(8) [of q] p by (simp add: s_def)
        show "bs (htx_mem (h1\<lparr>htx_mem := m2\<rparr>)) a n = bs (htx_mem h0) a n" 
          if "0 \<le> a" "a + n \<le> htx_ptr (htx_size h0) (htx_tail h0)" for a n
          using pay [of a n] that less.prems(9) [of a n] by (simp add: s_def)
      qed (use p less.prems(4,6) lm h1 in \<open>simp_all add: s_def\<close>)
      then obtain m' f' where m': "length m' = length (htx_mem h0)"
        "\<forall>i<length (htx_live h0). blk_in m' (htx_size h0) (int i) = htx_bl h0 (htx_live h0 ! i)"
        "\<forall>a n. 0 \<le> a \<longrightarrow> a + n \<le> htx_ptr (htx_size h0) (htx_tail h0) \<longrightarrow> bs m' a n = bs (htx_mem h0) a n"
        and loop: "htx_defrag_blks_loop (h1\<lparr>htx_mem := m2\<rparr>) (if p + 1 = htx_tail h0 + 1 then -1 else p + 1) (new + 1) =
          Some ((h1\<lparr>htx_mem := m2\<rparr>)\<lparr>htx_mem := m', htx_first := f'\<rparr>, int (length (htx_live h0)))"
        by (auto simp: new_def add.commute)
      have "(h1\<lparr>htx_mem := m2\<rparr>)\<lparr>htx_mem := m', htx_first := f'\<rparr> = h\<lparr>htx_mem := m', htx_first := f'\<rparr>"
        by (simp add: h1_def)
      then show ?thesis
        using m' loop step False unfolding new_def by (intro exI [of _ m'] exI [of _ f']) simp
    qed
  qed
qed

lemma htx_defrag_blks_ok:
  assumes wf: "htx_wf h" and hd: "0 < htx_head h"
  shows "\<exists>h'. htx_defrag_blks h = Some h' \<and> htx_wf h' \<and> htx_msg h' = htx_msg h \<and> htx_size h' = htx_size h \<and>
    length (htx_mem h') = length (htx_mem h) \<and> htx_data h' = htx_data h \<and> htx_head h' = 0 \<and> 0 \<le> htx_tail h' \<and> htx_tail h' \<le> htx_tail h - htx_head h \<and>
    htx_tail_addr h' = htx_tail_addr h \<and> htx_head_addr h' = htx_head_addr h \<and> htx_end_addr h' = htx_end_addr h"
proof -
  have ne: "htx_head h \<noteq> -1" using hd by simp
  have geo: "htx_geo h" and d: "0 < htx_data h" using wf ne by (auto simp: htx_wf_def)
  have a: "htx_area_ok h" and r: "htx_rooms_ok h" using geo ne by (auto simp: htx_geo_def)
  have un: "htx_live h \<noteq> []" by (rule htx_live_pos [OF geo ne d])
  have lu: "int (length (htx_live h)) \<le> htx_tail h + 1 - htx_head h"
    using htx_live_length [of h "htx_mem h" "htx_size h" "htx_head h" "htx_tail h"] r by (simp add: htx_rooms_ok_def)
  obtain m' f' where m': "length m' = length (htx_mem h)"
    "\<And>i. i < length (htx_live h) \<Longrightarrow> blk_in m' (htx_size h) (int i) = htx_bl h (htx_live h ! i)"
    "\<And>a n. 0 \<le> a \<Longrightarrow> a + n \<le> htx_ptr (htx_size h) (htx_tail h) \<Longrightarrow> bs m' a n = bs (htx_mem h) a n"
    and loop: "htx_defrag_blks_loop h (htx_head h) 0 = Some (h\<lparr>htx_mem := m', htx_first := f'\<rparr>, int (length (htx_live h)))"
    using htx_defrag_blks_loop_ok [OF a hd, of "htx_head h" "[]" h] r a by (auto simp: htx_rooms_ok_def)
  define h' where "h' = h\<lparr>htx_mem := m', htx_first := f', htx_head := 0, htx_tail := int (length (htx_live h)) - 1\<rparr>"
  have "htx_defrag_blks h = Some h'"
    using un by (simp add: htx_defrag_blks_def htx_get_head_def loop h'_def)
  moreover have "htx_wf h' \<and> htx_msg h' = htx_msg h"
  proof (rule htx_reindex [OF wf ne refl])
    show "htx_area_ok h'" using a m'(1) by (simp add: h'_def htx_area_ok_def)
    show "bs (htx_mem h') a n = bs (htx_mem h) a n" if "0 \<le> a" "a + n \<le> htx_tail_addr h" for a n
      using m'(3) [of a n] that r by (simp add: h'_def htx_rooms_ok_def htx_ptr_def)
  qed (simp_all add: h'_def m'(2))
  moreover have "0 < int (length (htx_live h))" using un by simp
  ultimately show ?thesis using lu hd m'(1) by (intro exI [of _ h']) (auto simp: h'_def)
qed

end
