(* ===== verification/HtxAdd.thy ===== *)
theory HtxAdd
  imports HtxDefrag
begin

unbundle bit_operations_syntax

text \<open>
  HTX messages: reserving and adding blocks. A block that is reserved but not yet described is
  \<open>htx_pending\<close>; every function that adds a block completes it, and the content grows by one entry.
\<close>

section \<open>A reserved block\<close>

text \<open>\<open>htx_pending h p n\<close>: the position \<open>p\<close>, the last one, is reserved for a payload of \<open>n\<close> bytes at the
  address of its descriptor; the other blocks are well-formed.\<close>

definition htx_pending :: "htx \<Rightarrow> int \<Rightarrow> int \<Rightarrow> bool" where
  "htx_pending h p n =
     (htx_area_ok h \<and> htx_rooms_ok h \<and> htx_tail h = p \<and> 0 < n \<and> htx_data h = htx_sum (htx_mem h) (htx_size h) [htx_head h..p - 1] + n \<and>
      (\<forall>q\<in>set [htx_head h..p - 1].
         blk_placed (htx_size h) (htx_head_addr h) (htx_end_addr h) (htx_tail_addr h) q (htx_bl h q) \<and>
         (blk_used (htx_bl h q) \<longrightarrow> blk_addr (htx_bl h p) + n \<le> blk_addr (htx_bl h q) \<or>
            blk_addr (htx_bl h q) + htx_get_blksz (htx_bl h q) \<le> blk_addr (htx_bl h p))) \<and>
      (\<forall>q\<in>set [htx_head h..p - 1]. \<forall>r\<in>set [htx_head h..p - 1]. q \<noteq> r \<longrightarrow> blk_apart (htx_bl h q) (htx_bl h r)) \<and>
      (blk_addr (htx_bl h p) + n \<le> htx_head_addr h \<or>
       htx_end_addr h \<le> blk_addr (htx_bl h p) \<and> blk_addr (htx_bl h p) + n \<le> htx_tail_addr h))"

lemma htx_part_snoc: "a \<le> p \<Longrightarrow>
    htx_part m s a p = htx_part m s a (p - 1) @ (if blk_used (blk_in m s p) then [blk_entry m (blk_in m s p)] else [])"
  by (simp add: htx_part_split [of a p p]) (simp add: htx_part_def)

text \<open>The block is complete once its descriptor announces \<open>n\<close> bytes.\<close>

lemma htx_pending_done:
  assumes p: "htx_pending h p n"
    and m: "length m = length (htx_mem h)"
      "blk_in m (htx_size h) p = \<lparr>blk_addr = blk_addr (htx_bl h p), blk_info = i\<rparr>"
      "\<And>q. htx_head h \<le> q \<Longrightarrow> q < p \<Longrightarrow> blk_in m (htx_size h) q = htx_bl h q"
      "\<And>a k. 0 \<le> a \<Longrightarrow> a + k \<le> htx_ptr (htx_size h) p \<Longrightarrow>
         a + k \<le> blk_addr (htx_bl h p) \<or> blk_addr (htx_bl h p) + n \<le> a \<Longrightarrow> bs m a k = bs (htx_mem h) a k"
    and i: "blk_used (blk_in m (htx_size h) p)" "htx_get_blksz (blk_in m (htx_size h) p) = n"
  shows "htx_wf (h\<lparr>htx_mem := m\<rparr>) \<and>
    htx_msg (h\<lparr>htx_mem := m\<rparr>) = htx_part (htx_mem h) (htx_size h) (htx_head h) (p - 1) @ [(i, bs m (blk_addr (htx_bl h p)) n)]"
proof -
  let ?s = "htx_size h"
  define ad where "ad = blk_addr (htx_bl h p)"
  define c where "c = blk_in m ?s p"
  have ar: "htx_area_ok h" and r: "htx_rooms_ok h" and tl: "htx_tail h = p" and n: "0 < n"
    and sum: "htx_data h = htx_sum (htx_mem h) ?s [htx_head h..p - 1] + n"
    and pl: "\<And>q. htx_head h \<le> q \<Longrightarrow> q < p \<Longrightarrow> blk_placed ?s (htx_head_addr h) (htx_end_addr h) (htx_tail_addr h) q (htx_bl h q)"
    and dj: "\<And>q. htx_head h \<le> q \<Longrightarrow> q < p \<Longrightarrow> blk_used (htx_bl h q) \<Longrightarrow> ad + n \<le> blk_addr (htx_bl h q) \<or>
            blk_addr (htx_bl h q) + htx_get_blksz (htx_bl h q) \<le> ad"
    and ap: "\<And>q r. htx_head h \<le> q \<Longrightarrow> q < p \<Longrightarrow> htx_head h \<le> r \<Longrightarrow> r < p \<Longrightarrow> q \<noteq> r \<Longrightarrow> blk_apart (htx_bl h q) (htx_bl h r)"
    and ra: "ad + n \<le> htx_head_addr h \<or> htx_end_addr h \<le> ad \<and> ad + n \<le> htx_tail_addr h"
    using p by (auto simp: htx_pending_def ad_def)
  have hp: "htx_head h \<le> p" "0 \<le> p" and rooms: "0 \<le> htx_head_addr h" "htx_head_addr h \<le> htx_end_addr h"
    "htx_end_addr h \<le> htx_tail_addr h" "htx_tail_addr h \<le> htx_ptr ?s p"
    using r tl by (auto simp: htx_rooms_ok_def htx_ptr_def)
  have c: "blk_addr c = ad" "blk_info c = i" "blk_used c" "htx_get_blksz c = n" using m(2) i by (simp_all add: c_def ad_def)
  have ad0: "0 \<le> ad" using blk_in_def [of "htx_mem h" ?s p] by (simp add: ad_def)
  have split: "[htx_head h..p] = [htx_head h..p - 1] @ [p]" using hp by (simp add: upto_rec2)
  have eq: "blk_in m ?s q = htx_bl h q" if "q \<in> set [htx_head h..p - 1]" for q using m(3) that by auto
  have "htx_sum m ?s [htx_head h..p] = htx_sum m ?s [htx_head h..p - 1] + n"
    unfolding split htx_sum_append by (simp add: htx_sum_Cons c_def [symmetric] c)
  also have "htx_sum m ?s [htx_head h..p - 1] = htx_sum (htx_mem h) ?s [htx_head h..p - 1]"
    by (rule htx_sum_cong) (simp only: eq)
  finally have sm: "htx_sum m ?s [htx_head h..p] = htx_data h" by (simp add: sum)
  have plc: "blk_placed ?s (htx_head_addr h) (htx_end_addr h) (htx_tail_addr h) p c"
    using c ra ad0 n rooms by (auto simp: blk_placed_def htx_ptr_def)
  have cq: "blk_apart c (htx_bl h q) \<and> blk_apart (htx_bl h q) c" if "htx_head h \<le> q" "q < p" for q
    using dj [OF that] c by (auto simp: blk_apart_def)
  have blks: "htx_blks_ok (h\<lparr>htx_mem := m\<rparr>)"
  proof -
    have q: "q = p \<and> blk_in m ?s q = c \<or> q < p \<and> blk_in m ?s q = htx_bl h q" if "q \<in> set [htx_head h..p]" for q
      using that m(3) [of q] by (cases "q = p") (auto simp: c_def)
    show ?thesis
      unfolding htx_blks_ok_def
    proof (intro conjI ballI impI)
      fix x assume x: "x \<in> set [htx_head (h\<lparr>htx_mem := m\<rparr>)..htx_tail (h\<lparr>htx_mem := m\<rparr>)]"
      then have x': "x \<in> set [htx_head h..p]" using tl by simp
      show "blk_placed (htx_size (h\<lparr>htx_mem := m\<rparr>)) (htx_head_addr (h\<lparr>htx_mem := m\<rparr>)) (htx_end_addr (h\<lparr>htx_mem := m\<rparr>))
          (htx_tail_addr (h\<lparr>htx_mem := m\<rparr>)) x (htx_bl (h\<lparr>htx_mem := m\<rparr>) x)"
        using q [OF x'] pl [of x] plc x' by auto
      fix y assume "y \<in> set [htx_head (h\<lparr>htx_mem := m\<rparr>)..htx_tail (h\<lparr>htx_mem := m\<rparr>)]" and xy: "x \<noteq> y"
      then have y': "y \<in> set [htx_head h..p]" using tl by simp
      show "blk_apart (htx_bl (h\<lparr>htx_mem := m\<rparr>) x) (htx_bl (h\<lparr>htx_mem := m\<rparr>) y)"
        using q [OF x'] q [OF y'] xy x' y' ap [of x y] cq [of x] cq [of y] by auto
    qed
  qed
  have "htx_wf (h\<lparr>htx_mem := m\<rparr>)"
  proof -
    have "htx_area_ok (h\<lparr>htx_mem := m\<rparr>)" using ar m(1) by (simp add: htx_area_ok_def)
    moreover have "htx_rooms_ok (h\<lparr>htx_mem := m\<rparr>)" using r by (simp add: htx_rooms_ok_def)
    moreover have "0 < htx_data h" using sum n htx_sum_nonneg [of "htx_mem h" ?s "[htx_head h..p - 1]"] by linarith
    ultimately show ?thesis using blks sm tl hp r by (simp add: htx_wf_def htx_geo_def htx_rooms_ok_def)
  qed
  moreover have "htx_msg (h\<lparr>htx_mem := m\<rparr>) = htx_part (htx_mem h) ?s (htx_head h) (p - 1) @ [(i, bs m ad n)]"
  proof -
    have "htx_part m ?s (htx_head h) (p - 1) = htx_part (htx_mem h) ?s (htx_head h) (p - 1)"
    proof (rule htx_part_cong)
      fix q assume q: "htx_head h \<le> q" "q \<le> p - 1"
      show "blk_in m ?s q = htx_bl h q" using m(3) q by simp
      assume u: "blk_used (blk_in m ?s q)"
      have b: "blk_in m ?s q = htx_bl h q" using m(3) q by simp
      have "bs m (blk_addr (htx_bl h q)) (htx_get_blksz (htx_bl h q)) =
          bs (htx_mem h) (blk_addr (htx_bl h q)) (htx_get_blksz (htx_bl h q))"
        using dj [of q] pl [of q] u q b rooms by (intro m(4)) (auto simp: blk_placed_def ad_def)
      then show "blk_entry m (blk_in m ?s q) = blk_entry (htx_mem h) (blk_in m ?s q)" by (simp add: b blk_entry_def)
    qed
    then show ?thesis using hp r tl c
      by (simp add: htx_msg_def htx_rooms_ok_def htx_part_snoc c_def [symmetric] blk_entry_def)
  qed
  ultimately show ?thesis by (simp add: ad_def)
qed

text \<open>Placing a payload after the last one, or at the start of the area when that is free.\<close>

lemma htx_pending_place:
  assumes wf: "htx_wf h" and ne: "htx_head h \<noteq> -1" and p: "p = htx_tail h + 1" and n: "0 < n"
    and room: "htx_data h + n + 8 * (p + 1 - htx_head h) \<le> htx_size h" and ta: "ta' \<le> htx_ptr (htx_size h) p"
    and place: "htx_head_addr h = 0 \<and> ad = htx_tail_addr h \<and> ta' = htx_tail_addr h + n \<and> ha' = 0 \<or>
      ad = htx_head_addr h \<and> ha' = htx_head_addr h + n \<and> ha' \<le> htx_end_addr h \<and> ta' = htx_tail_addr h"
    and h': "htx_area_ok h'" "htx_size h' = htx_size h" "htx_head h' = htx_head h" "htx_tail h' = p"
      "htx_data h' = htx_data h + n" "htx_tail_addr h' = ta'" "htx_head_addr h' = ha'" "htx_end_addr h' = htx_end_addr h"
      "blk_addr (htx_bl h' p) = ad" "\<And>q. 0 \<le> q \<Longrightarrow> q < p \<Longrightarrow> htx_bl h' q = htx_bl h q"
  shows "htx_pending h' p n"
proof -
  have r: "htx_rooms_ok h" and b: "htx_blks_ok h" and d: "0 < htx_data h"
    and sum: "htx_data h = htx_sum (htx_mem h) (htx_size h) [htx_head h..htx_tail h]"
    using wf ne by (auto simp: htx_wf_def htx_geo_def)
  have pm: "p - 1 = htx_tail h" "0 \<le> htx_head h" using p r by (simp_all add: htx_rooms_ok_def)
  have e: "blk_in (htx_mem h') (htx_size h) q = htx_bl h q" if "q \<in> set [htx_head h..htx_tail h]" for q
    using h'(10) [of q] that pm by (simp add: h'(2))
  have rooms: "htx_rooms_ok h'"
    using r place ta room n d p by (auto simp: htx_rooms_ok_def h' htx_ptr_def)
  have sm: "htx_sum (htx_mem h') (htx_size h) [htx_head h..htx_tail h] = htx_data h"
    unfolding sum by (rule htx_sum_cong) (simp add: e)
  have pl: "blk_placed (htx_size h) (htx_head_addr h) (htx_end_addr h) (htx_tail_addr h) q (htx_bl h q)"
    if "q \<in> set [htx_head h..htx_tail h]" for q
    using b that by (auto simp: htx_blks_ok_def)
  have blk: "blk_placed (htx_size h) ha' (htx_end_addr h) ta' q (htx_bl h q) \<and>
      (blk_used (htx_bl h q) \<longrightarrow> ad + n \<le> blk_addr (htx_bl h q) \<or>
            blk_addr (htx_bl h q) + htx_get_blksz (htx_bl h q) \<le> ad)"
    if "q \<in> set [htx_head h..htx_tail h]" for q
    using pl [OF that] place n r by (auto simp: blk_placed_def htx_rooms_ok_def)
  have ap: "blk_apart (htx_bl h q) (htx_bl h x)"
    if "q \<in> set [htx_head h..htx_tail h]" "x \<in> set [htx_head h..htx_tail h]" "q \<noteq> x" for q x
    using b that unfolding htx_blks_ok_def by blast
  have ra: "ad + n \<le> ha' \<or> htx_end_addr h \<le> ad \<and> ad + n \<le> ta'"
    using place r by (auto simp: htx_rooms_ok_def)
  have bp: "blk_addr (blk_in (htx_mem h') (htx_size h) p) = ad" using h'(9) by (simp add: h'(2))
  show ?thesis
    unfolding htx_pending_def h'(2-8) pm bp
  proof (intro conjI ballI)
    fix q assume q: "q \<in> set [htx_head h..htx_tail h]"
    show "blk_placed (htx_size h) ha' (htx_end_addr h) ta' q (blk_in (htx_mem h') (htx_size h) q)"
      and "blk_used (blk_in (htx_mem h') (htx_size h) q) \<longrightarrow> ad + n \<le> blk_addr (blk_in (htx_mem h') (htx_size h) q) \<or>
        blk_addr (blk_in (htx_mem h') (htx_size h) q) + htx_get_blksz (blk_in (htx_mem h') (htx_size h) q) \<le> ad"
      unfolding e [OF q] using blk [OF q] by blast+
    fix x assume x: "x \<in> set [htx_head h..htx_tail h]"
    show "q \<noteq> x \<longrightarrow> blk_apart (blk_in (htx_mem h') (htx_size h) q) (blk_in (htx_mem h') (htx_size h) x)"
      unfolding e [OF q] e [OF x] using ap [OF q x] by blast
  qed (use h'(1) rooms n sm ra in simp_all)
qed

lemma htx_area_upd [simp]:
  "length m = length (htx_mem h) \<Longrightarrow> htx_area_ok (h\<lparr>htx_mem := m\<rparr>) = htx_area_ok h"
  "htx_area_ok (h\<lparr>htx_tail := x\<rparr>) = htx_area_ok h" "htx_area_ok (h\<lparr>htx_head := x\<rparr>) = htx_area_ok h"
  "htx_area_ok (h\<lparr>htx_data := x\<rparr>) = htx_area_ok h" "htx_area_ok (h\<lparr>htx_first := x\<rparr>) = htx_area_ok h"
  "htx_area_ok (h\<lparr>htx_tail_addr := x\<rparr>) = htx_area_ok h" "htx_area_ok (h\<lparr>htx_head_addr := x\<rparr>) = htx_area_ok h"
  "htx_area_ok (h\<lparr>htx_end_addr := x\<rparr>) = htx_area_ok h" "htx_area_ok (h\<lparr>htx_flags := f\<rparr>) = htx_area_ok h"
  by (simp_all add: htx_area_ok_def)

lemma htx_rooms_check: "htx_rooms_ok h \<Longrightarrow> htx_area_ok h \<Longrightarrow> htx_check h = Some ()"
  by (intro htx_check_ok) (auto simp: htx_rooms_ok_def htx_area_ok_def)

lemma htx_reserve_step:
  assumes wf: "htx_wf h" and ne: "htx_head h \<noteq> -1" and p: "p = htx_tail h + 1" and n: "0 < n"
    and room: "htx_data h + n + 8 * (p + 1 - htx_head h) \<le> htx_size h" and ta: "ta' \<le> htx_ptr (htx_size h) p"
    and place: "htx_head_addr h = 0 \<and> ad = htx_tail_addr h \<and> ta' = htx_tail_addr h + n \<and> ha' = 0 \<or>
      ad = htx_head_addr h \<and> ha' = htx_head_addr h + n \<and> ha' \<le> htx_end_addr h \<and> ta' = htx_tail_addr h"
    and mem: "m = blit (htx_mem h) (nat (htx_ptr (htx_size h) p)) (w32_bytes (word_of_int ad))"
    and h1: "h1 = h\<lparr>htx_mem := m, htx_tail_addr := ta', htx_head_addr := ha'\<rparr>"
  shows "\<exists>h'. htx_reserve_end h1 p (htx_ptr (htx_size h) p) n = Some (h', Some (htx_ptr (htx_size h) p)) \<and>
    htx_pending h' p n \<and> htx_size h' = htx_size h \<and> length (htx_mem h') = length (htx_mem h) \<and>
    htx_part (htx_mem h') (htx_size h') (htx_head h') (p - 1) = htx_msg h \<and> htx_head h' = htx_head h"
proof -
  let ?s = "htx_size h"
  have ar: "htx_area_ok h" and r: "htx_rooms_ok h" and b: "htx_blks_ok h" and d: "0 < htx_data h" 
    using wf ne by (auto simp: htx_wf_def htx_geo_def)
  have s: "0 < ?s" "?s < 2147483648" "?s \<le> int (length (htx_mem h))" using ar by (auto simp: htx_area_ok_def)
  have hp: "0 \<le> htx_head h" "htx_head h \<le> htx_tail h" "0 \<le> p" "htx_head h \<le> p" using r p by (auto simp: htx_rooms_ok_def)
  have ad: "0 \<le> ad" "ad + n \<le> ta'" "0 \<le> ta'" using place r n by (auto simp: htx_rooms_ok_def)
  have pt: "0 \<le> htx_ptr ?s p" "htx_ptr ?s p + 8 \<le> ?s" using ad ta hp by (auto simp: htx_ptr_def)
  have len: "length m = length (htx_mem h)" unfolding mem using pt s by (intro length_blit_int) auto
  have b2: "blk_in m ?s q = (if q = p then (htx_bl h p)\<lparr>blk_addr := ad\<rparr> else htx_bl h q)" if "0 \<le> q" "q \<le> p" for q
    unfolding mem using that pt s hp ad ta n by (intro blk_in_set_addr) (auto simp: htx_ptr_def)
  define h' where "h' = (if htx_first h1 = -1 then h1\<lparr>htx_tail := p, htx_data := htx_data h + n, htx_first := p\<rparr>
    else h1\<lparr>htx_tail := p, htx_data := htx_data h + n\<rparr>)"
  have f: "htx_size h' = ?s" "htx_head h' = htx_head h" "htx_tail h' = p" "htx_data h' = htx_data h + n"
    "htx_tail_addr h' = ta'" "htx_head_addr h' = ha'" "htx_end_addr h' = htx_end_addr h" "htx_mem h' = m"
    by (simp_all add: h'_def h1)
  have ar': "htx_area_ok h'" using ar len by (simp add: htx_area_ok_def f)
  have pend: "htx_pending h' p n"
    by (rule htx_pending_place [OF wf ne p n room ta place ar' f(1-7)]) (use b2 hp in \<open>simp_all add: f\<close>)
  have chk: "htx_check h' = Some ()" using pend by (intro htx_rooms_check) (simp_all add: htx_pending_def)
  have u: "uint32 (htx_data h + n) = htx_data h + n" "to_int32 p = p"
    using room d n s hp pt by (auto intro!: uint32_small to_int32_small simp: htx_ptr_def)
  have "htx_reserve_end h1 p (htx_ptr ?s p) n = Some (h', Some (htx_ptr ?s p))"
    using chk unfolding htx_reserve_end_def Let_def u h'_def
    by (simp add: h1 u split: if_splits)
  moreover have "htx_part m ?s (htx_head h) (p - 1) = htx_msg h"
  proof -
    have "htx_part m ?s (htx_head h) (p - 1) = htx_part (htx_mem h) ?s (htx_head h) (p - 1)"
    proof (rule htx_part_cong)
      fix q assume q: "htx_head h \<le> q" "q \<le> p - 1"
      show bq: "blk_in m ?s q = htx_bl h q" using b2 [of q] q hp by simp
      assume u: "blk_used (blk_in m ?s q)"
      have "blk_placed ?s (htx_head_addr h) (htx_end_addr h) (htx_tail_addr h) q (htx_bl h q)"
        using b q p by (auto simp: htx_blks_ok_def)
      then have "blk_addr (htx_bl h q) + htx_get_blksz (htx_bl h q) \<le> htx_ptr ?s p" "0 \<le> blk_addr (htx_bl h q)"
        using u bq r ta place n by (auto simp: blk_placed_def htx_rooms_ok_def)
      then show "blk_entry m (blk_in m ?s q) = blk_entry (htx_mem h) (blk_in m ?s q)"
        unfolding bq blk_entry_def using pt s by (simp add: mem bs_blit_other)
    qed
    then show ?thesis using ne p by (simp add: htx_msg_def)
  qed
  ultimately show ?thesis using pend len by (intro exI [of _ h']) (simp add: f)
qed

lemma dsum_none: "dsum h bp 0 ps = htx_sum (htx_mem h) (htx_size h) ps"
  by (simp add: dsum_def htx_sum_def cong: map_cong)

lemma htx_wf_laid:
  assumes "htx_wf h" and "htx_head h \<noteq> -1"
  shows "htx_laid h"
proof -
  have "blk_placed (htx_size h) (htx_head_addr h) (htx_end_addr h) (htx_tail_addr h) p (htx_bl h p)"
    if "p \<in> set [htx_head h..htx_tail h]" for p
    using assms that by (auto simp: htx_wf_def htx_geo_def htx_blks_ok_def)
  then show ?thesis using assms
    by (force simp: htx_laid_def htx_wf_def htx_geo_def htx_rooms_ok_def blk_placed_def)
qed

lemma htx_wf_sum:
  assumes "htx_wf h" and "htx_head h \<noteq> -1"
  shows "htx_sum (htx_mem h) (htx_size h) (htx_live h) = htx_data h"
    and "\<And>q. q \<in> set (htx_live h) \<Longrightarrow> 0 < htx_get_blksz (htx_bl h q)"
proof -
  have pl: "blk_placed (htx_size h) (htx_head_addr h) (htx_end_addr h) (htx_tail_addr h) p (htx_bl h p)"
    if "p \<in> set [htx_head h..htx_tail h]" for p
    using assms that by (auto simp: htx_wf_def htx_geo_def htx_blks_ok_def)
  show "htx_sum (htx_mem h) (htx_size h) (htx_live h) = htx_data h"
    using assms pl by (subst htx_sum_used) (auto simp: htx_wf_def htx_geo_def blk_placed_def)
  show "0 < htx_get_blksz (htx_bl h q)" if "q \<in> set (htx_live h)" for q
    using pl [of q] that htx_get_blksz_nonneg [of "htx_bl h q"] by (auto simp: htx_used_mem blk_placed_def order_less_le)
qed

text \<open>A full defragmentation that alters no block.\<close>

lemma htx_defrag_wf:
  assumes wf: "htx_wf h" and ne: "htx_head h \<noteq> -1" and tr: "htx_size h \<le> int (length tr)" and bp: "-1 \<le> bp"
    and blk: "blk = (if bp = -1 then None else Some (htx_ptr (htx_size h) bp))"
  shows "\<exists>h'. htx_defrag tr h blk 0 = Some (h', if bp \<in> set (htx_live h) then Some (htx_ptr (htx_size h) (pos_idx bp (htx_live h))) else None) \<and>
    htx_wf h' \<and> htx_msg h' = htx_msg h \<and> htx_size h' = htx_size h \<and> length (htx_mem h') = length (htx_mem h) \<and>
    htx_data h' = htx_data h \<and> htx_head h' = 0 \<and> htx_tail h' = int (length (htx_live h)) - 1 \<and>
    htx_tail_addr h' = htx_data h \<and> htx_head_addr h' = 0 \<and> htx_end_addr h' = 0 \<and> 
    0 \<le> htx_tail h' \<and> htx_tail h' \<le> htx_tail h - htx_head h"
proof -
  have geo: "htx_geo h" and d: "0 < htx_data h" using wf ne by (auto simp: htx_wf_def)
  have ar: "htx_area_ok h" and r: "htx_rooms_ok h" using geo ne by (auto simp: htx_geo_def)
  have un: "htx_live h \<noteq> []" by (rule htx_live_pos [OF geo ne d])
  have lu: "int (length (htx_live h)) \<le> htx_tail h + 1 - htx_head h"
    using htx_live_length [of h "htx_mem h" "htx_size h" "htx_head h" "htx_tail h"] r by (simp add: htx_rooms_ok_def)
  have sum: "dsum h bp 0 (htx_live h) = htx_data h" using htx_wf_sum(1) [OF wf ne] by (simp add: dsum_none)
  have room: "dsum h bp 0 (htx_live h) + 8 * int (length (htx_live h)) \<le> htx_size h"
    using lu r by (simp add: sum htx_rooms_ok_def)
  obtain m' where m': "length m' = length (htx_mem h)" "ddone h bp 0 (htx_live h) m'"
    and df: "htx_defrag tr h blk 0 =
      Some (h\<lparr>htx_data := dsum h bp 0 (htx_live h), htx_first := pos_idx (htx_first h) (htx_live h), htx_head := 0,
              htx_tail := int (length (htx_live h)) - 1, htx_head_addr := 0, htx_end_addr := 0,
              htx_tail_addr := dsum h bp 0 (htx_live h), htx_flags := htx_flags h AND NOT HTX_FL_FRAGMENTED,
              htx_mem := m'\<rparr>,
            if bp \<in> set (htx_live h) then Some (htx_ptr (htx_size h) (pos_idx bp (htx_live h))) else None)"
    using htx_defrag_ok [OF blk htx_wf_laid [OF wf ne] bp _ room tr] by auto
  define h' where "h' = h\<lparr>htx_data := dsum h bp 0 (htx_live h), htx_first := pos_idx (htx_first h) (htx_live h), htx_head := 0,
              htx_tail := int (length (htx_live h)) - 1, htx_head_addr := 0, htx_end_addr := 0,
              htx_tail_addr := dsum h bp 0 (htx_live h), htx_flags := htx_flags h AND NOT HTX_FL_FRAGMENTED,
              htx_mem := m'\<rparr>"
  have f: "htx_size h' = htx_size h" "htx_head h' = 0" "htx_tail h' = int (length (htx_live h)) - 1"
    "htx_data h' = dsum h bp 0 (htx_live h)" "htx_tail_addr h' = dsum h bp 0 (htx_live h)" "htx_head_addr h' = 0"
    "htx_end_addr h' = 0" "htx_mem h' = m'" by (simp_all add: h'_def)
  have "htx_wf h'"
  proof (rule ddone_wf [of h bp 0 "htx_live h"])
    show "ddone h bp 0 (htx_live h) (htx_mem h')" using m'(2) by (simp add: f)
    show "blk_used \<lparr>blk_addr = 0, blk_info = dinfo h bp 0 q\<rparr>" if "q \<in> set (htx_live h)" for q
      using that by (simp add: htx_used_mem blk_used_def htx_get_blk_type_def)
    show "0 < dsize h bp 0 q" if "q \<in> set (htx_live h)" for q using htx_wf_sum(2) [OF wf ne that] by simp
  qed (use un room ar m' f in \<open>simp_all add: htx_area_ok_def\<close>)
  moreover have "htx_msg h' = htx_msg h"
    using ddone_part [OF m'(2) refl] ne by (simp add: htx_msg_def f)
  moreover have "0 < int (length (htx_live h))" using un by simp
  ultimately show ?thesis using df lu m'(1) unfolding h'_def [symmetric]
    by (intro exI [of _ h']) (simp add: f sum)
qed

section \<open>Reserving a block\<close>

lemma htx_reserve_defrag_ok:
  assumes wf: "htx_wf h" and ne: "htx_head h \<noteq> -1" and n: "0 < n" and tr: "htx_size h \<le> int (length tr)"
    and room: "htx_data h + n + 8 * (htx_tail h + 2 - htx_head h) \<le> htx_size h"
  shows "\<exists>h' p. htx_reserve_defrag tr h n = Some (h', Some (htx_ptr (htx_size h) p)) \<and>
    htx_pending h' p n \<and> htx_size h' = htx_size h \<and> length (htx_mem h') = length (htx_mem h) \<and>
    htx_part (htx_mem h') (htx_size h') (htx_head h') (p - 1) = htx_msg h \<and> p - htx_head h' \<le> htx_tail h + 1 - htx_head h"
proof -
  obtain h1 where d: "htx_defrag tr h None 0 = Some (h1, None)" and w: "htx_wf h1"
    and f: "htx_msg h1 = htx_msg h" "htx_size h1 = htx_size h" "length (htx_mem h1) = length (htx_mem h)"
    "htx_data h1 = htx_data h" "htx_head h1 = 0" "htx_tail_addr h1 = htx_data h" "htx_head_addr h1 = 0" "htx_end_addr h1 = 0" 
    "0 \<le> htx_tail h1" "htx_tail h1 \<le> htx_tail h - htx_head h"
    using htx_defrag_wf [OF wf ne tr, of "-1" None] by (auto simp: htx_used_mem dest: spec) (use ne wf in \<open>auto simp: htx_wf_def htx_geo_def htx_rooms_ok_def\<close>)
  define p where "p = htx_tail h1 + 1"
  define m where "m = blit (htx_mem h1) (nat (htx_ptr (htx_size h1) p)) (w32_bytes (word_of_int (htx_tail_addr h1)))"
  have ar: "htx_area_ok h1" and d0: "0 < htx_data h" using w f by (auto simp: htx_wf_def htx_geo_def)
  have s: "0 < htx_size h" "htx_size h < 2147483648" using ar f by (auto simp: htx_area_ok_def)
  have pp: "0 \<le> p" "8 * (p + 1) \<le> htx_size h" using f room d0 n by (simp_all add: p_def)
  have ta: "htx_data h + n \<le> htx_ptr (htx_size h1) p" using f room by (simp add: p_def htx_ptr_def)
  have u: "uint32 (htx_tail h1 + 1) = p" "uint32 (htx_tail_addr h1 + n) = htx_data h + n"
    using pp s ta d0 n f(6) by (auto simp: p_def htx_ptr_def f(2) intro!: uint32_small)
  have g: "htx_get_blk h1 p = htx_ptr (htx_size h1) p" using ar pp f by (simp add: htx_get_blk_eq)
  have sa: "blk_set_addr h1 (htx_ptr (htx_size h1) p) (htx_tail_addr h1) = Some (h1\<lparr>htx_mem := m\<rparr>)"
    using blk_set_addr_eq [OF ar pp(1), where a = "htx_tail_addr h1"] pp(2) f(2) by (simp add: m_def)
  have ne1: "htx_head h1 \<noteq> -1" using f by simp
  have rm: "htx_data h1 + n + 8 * (p + 1 - htx_head h1) \<le> htx_size h1" using room f by (simp add: p_def)
  have ta1: "htx_tail_addr h1 + n \<le> htx_ptr (htx_size h1) p" using ta f by simp
  have "\<exists>h'. htx_reserve_end (h1\<lparr>htx_mem := m, htx_tail_addr := htx_data h + n\<rparr>) p (htx_ptr (htx_size h1) p) n =
        Some (h', Some (htx_ptr (htx_size h1) p)) \<and>
      htx_pending h' p n \<and> htx_size h' = htx_size h1 \<and> length (htx_mem h') = length (htx_mem h1) \<and>
      htx_part (htx_mem h') (htx_size h') (htx_head h') (p - 1) = htx_msg h1 \<and> htx_head h' = htx_head h1"
    by (rule htx_reserve_step [OF w ne1 p_def n rm ta1, where ad = "htx_tail_addr h1" and ha' = 0, OF _ m_def])
      (use f in \<open>simp, cases h1, simp\<close>)
  then obtain h' where e: "htx_reserve_end (h1\<lparr>htx_mem := m, htx_tail_addr := htx_data h + n\<rparr>) p (htx_ptr (htx_size h1) p) n =
        Some (h', Some (htx_ptr (htx_size h1) p))"
      and h': "htx_pending h' p n" "htx_size h' = htx_size h1" "length (htx_mem h') = length (htx_mem h1)"
      "htx_part (htx_mem h') (htx_size h') (htx_head h') (p - 1) = htx_msg h1" "htx_head h' = htx_head h1" by blast
  have "htx_reserve_defrag tr h n = Some (h', Some (htx_ptr (htx_size h1) p))"
    unfolding htx_reserve_defrag_def d Let_def using sa e u g by simp
  then show ?thesis using h' f by (intro exI [of _ h'] exI [of _ p]) (simp add: p_def)
qed

lemma htx_reserve_place_ok:
  assumes wf: "htx_wf h" and ne: "htx_head h \<noteq> -1" and n: "0 < n" and tr: "htx_size h \<le> int (length tr)"
    and room: "htx_data h + n + 8 * (htx_tail h + 2 - htx_head h) \<le> htx_size h"
    and p: "p = htx_tail h + 1" and ta: "htx_tail_addr h \<le> htx_ptr (htx_size h) p"
  shows "\<exists>h' p. htx_reserve_place tr h (htx_tail h + 1) n = Some (h', Some (htx_ptr (htx_size h) p)) \<and>
    htx_pending h' p n \<and> htx_size h' = htx_size h \<and> length (htx_mem h') = length (htx_mem h) \<and>
    htx_part (htx_mem h') (htx_size h') (htx_head h') (p - 1) = htx_msg h \<and> p - htx_head h' \<le> htx_tail h + 1 - htx_head h"
proof -
  let ?s = "htx_size h"
  have ar: "htx_area_ok h" and r: "htx_rooms_ok h" and d: "0 < htx_data h" 
    using wf ne by (auto simp: htx_wf_def htx_geo_def)
  have s: "0 < ?s" "?s < 2147483648" using ar by (auto simp: htx_area_ok_def)
  have a: "0 \<le> htx_head_addr h" "htx_head_addr h \<le> htx_end_addr h" "htx_end_addr h \<le> htx_tail_addr h"
    using r by (auto simp: htx_rooms_ok_def)
  have pp: "0 \<le> p" "8 * (p + 1) \<le> ?s" using r ta a p by (auto simp: htx_rooms_ok_def htx_ptr_def)
  have hr: "uint32 (htx_end_addr h - htx_head_addr h) = htx_end_addr h - htx_head_addr h"
    "to_int32 (htx_end_addr h - htx_head_addr h) = htx_end_addr h - htx_head_addr h"
    using a s ta pp by (auto intro!: uint32_small to_int32_small simp: htx_ptr_def)
  have pa: "htx_pos_to_addr h p = htx_ptr ?s p" using ar pp by (simp add: htx_pos_to_addr_eq)
  have tr': "uint32 (htx_ptr ?s p - htx_tail_addr h) = htx_ptr ?s p - htx_tail_addr h"
    "to_int32 (htx_ptr ?s p - htx_tail_addr h) = htx_ptr ?s p - htx_tail_addr h" "to_int32 0 = 0"
    using a s ta pp by (auto intro!: uint32_small to_int32_small simp: htx_ptr_def)
  have g: "htx_get_blk h p = htx_ptr ?s p" using ar pp by (simp add: htx_get_blk_eq)
  have sa: "blk_set_addr h (htx_ptr ?s p) x =
      Some (h\<lparr>htx_mem := blit (htx_mem h) (nat (htx_ptr ?s p)) (w32_bytes (word_of_int x))\<rparr>)" for x
    by (rule blk_set_addr_eq [OF ar pp])
  define tailroom where "tailroom = (if htx_head_addr h = 0 then htx_ptr ?s p - htx_tail_addr h else 0)"
  have rm: "htx_data h + n + 8 * (p + 1 - htx_head h) \<le> ?s" using room p by simp
  have place: "htx_reserve_place tr h p n =
      (if n \<le> tailroom
       then htx_reserve_end (h\<lparr>htx_mem := blit (htx_mem h) (nat (htx_ptr ?s p)) (w32_bytes (word_of_int (htx_tail_addr h))),
              htx_tail_addr := uint32 (htx_tail_addr h + n)\<rparr>) p (htx_ptr ?s p) n
       else if n \<le> htx_end_addr h - htx_head_addr h
       then htx_reserve_end (h\<lparr>htx_mem := blit (htx_mem h) (nat (htx_ptr ?s p)) (w32_bytes (word_of_int (htx_head_addr h))),
              htx_head_addr := uint32 (htx_head_addr h + n)\<rparr>) p (htx_ptr ?s p) n
       else htx_reserve_defrag tr h n)"
    using a ta tr'(3) unfolding htx_reserve_place_def Let_def hr pa tr' tailroom_def g sa
    by (simp add: hr tr')
  consider (tail) "htx_head_addr h = 0" "n \<le> tailroom" | (head) "\<not> n \<le> tailroom" "n \<le> htx_end_addr h - htx_head_addr h"
    | (defrag) "\<not> n \<le> tailroom" "\<not> n \<le> htx_end_addr h - htx_head_addr h"
  proof -
    have "n \<le> tailroom \<Longrightarrow> htx_head_addr h = 0" using n by (auto simp: tailroom_def split: if_splits)
    then show ?thesis using that by blast
  qed
  then show ?thesis
  proof cases
    case tail
    then have t: "htx_tail_addr h + n \<le> htx_ptr ?s p" by (simp add: tailroom_def)
    then have u: "uint32 (htx_tail_addr h + n) = htx_tail_addr h + n"
      using a n s pp by (intro uint32_small) (auto simp: htx_ptr_def)
    have "\<exists>h'. htx_reserve_end (h\<lparr>htx_mem := blit (htx_mem h) (nat (htx_ptr ?s p)) (w32_bytes (word_of_int (htx_tail_addr h))),
          htx_tail_addr := htx_tail_addr h + n\<rparr>) p (htx_ptr ?s p) n = Some (h', Some (htx_ptr ?s p)) \<and>
        htx_pending h' p n \<and> htx_size h' = ?s \<and> length (htx_mem h') = length (htx_mem h) \<and>
        htx_part (htx_mem h') (htx_size h') (htx_head h') (p - 1) = htx_msg h \<and> htx_head h' = htx_head h"
      by (rule htx_reserve_step [OF wf ne p n rm t, where ad = "htx_tail_addr h" and ha' = 0, OF _ refl])
        (use tail in \<open>simp, cases h, simp\<close>)
    then obtain h' where h': "htx_reserve_place tr h p n = Some (h', Some (htx_ptr ?s p))" "htx_pending h' p n" "htx_size h' = ?s"
        "length (htx_mem h') = length (htx_mem h)" "htx_part (htx_mem h') (htx_size h') (htx_head h') (p - 1) = htx_msg h" "htx_head h' = htx_head h"
      using tail place u by auto
    show ?thesis by (intro exI [of _ h'] exI [of _ p]) (use h' p in simp)
  next
    case head
    then have u: "uint32 (htx_head_addr h + n) = htx_head_addr h + n"
      using a n s pp ta by (intro uint32_small) (auto simp: htx_ptr_def)
    have "\<exists>h'. htx_reserve_end (h\<lparr>htx_mem := blit (htx_mem h) (nat (htx_ptr ?s p)) (w32_bytes (word_of_int (htx_head_addr h))),
          htx_head_addr := htx_head_addr h + n\<rparr>) p (htx_ptr ?s p) n = Some (h', Some (htx_ptr ?s p)) \<and>
        htx_pending h' p n \<and> htx_size h' = ?s \<and> length (htx_mem h') = length (htx_mem h) \<and>
        htx_part (htx_mem h') (htx_size h') (htx_head h') (p - 1) = htx_msg h \<and> htx_head h' = htx_head h"
      by (rule htx_reserve_step [OF wf ne p n rm ta, where ad = "htx_head_addr h" and ha' = "htx_head_addr h + n", OF _ refl])
        (use head in \<open>simp, cases h, simp\<close>)
    then obtain h' where h': "htx_reserve_place tr h p n = Some (h', Some (htx_ptr ?s p))" "htx_pending h' p n" "htx_size h' = ?s"
        "length (htx_mem h') = length (htx_mem h)" "htx_part (htx_mem h') (htx_size h') (htx_head h') (p - 1) = htx_msg h" "htx_head h' = htx_head h"
      using head place u by auto
    show ?thesis by (intro exI [of _ h'] exI [of _ p]) (use h' p in simp)
  next
    case defrag
    then show ?thesis using htx_reserve_defrag_ok [OF wf ne n tr room] place p by auto
  qed
qed

lemma htx_reserve_nxblk_ok:
  assumes wf: "htx_wf h" and n: "0 < n" and tr: "htx_size h \<le> int (length tr)"
    and room: "n \<le> htx_free_data_space h"
  shows "\<exists>h' p. htx_reserve_nxblk tr h n = Some (h', Some (htx_ptr (htx_size h) p)) \<and>
    htx_pending h' p n \<and> htx_size h' = htx_size h \<and> length (htx_mem h') = length (htx_mem h) \<and>
    htx_part (htx_mem h') (htx_size h') (htx_head h') (p - 1) = htx_msg h \<and>
    p - htx_head h' \<le> (if htx_head h = -1 then 0 else htx_tail h + 1 - htx_head h)"
proof -
  let ?s = "htx_size h"
  have geo: "htx_geo h" and ar: "htx_area_ok h" using wf by (auto simp: htx_wf_def htx_geo_def)
  have s: "0 < ?s" "?s < 2147483648" "?s \<le> int (length (htx_mem h))" "?s mod 8 = 0" using ar by (auto simp: htx_area_ok_def)
  have fr: "n + 8 \<le> htx_free_space h" using room n by (auto simp: htx_free_data_space_def Let_def split: if_splits)
  show ?thesis
  proof (cases "htx_head h = -1")
    case True
    then have e: "htx_tail_addr h = 0" "htx_head_addr h = 0" "htx_end_addr h = 0" "htx_data h = 0"
      using geo by (auto simp: htx_geo_def)
    have ns: "n + 8 \<le> ?s" using fr True htx_free_space_eq [OF geo] by simp
    define h1 where "h1 = h\<lparr>htx_head := 0, htx_tail := 0, htx_first := 0\<rparr>"
    define m where "m = blit (htx_mem h) (nat (htx_ptr ?s 0)) (w32_bytes (word_of_int 0))"
    define h' where "h' = h1\<lparr>htx_mem := m, htx_data := n, htx_tail_addr := n\<rparr>"
    have len: "length m = length (htx_mem h)"
      unfolding m_def using ns s n by (intro length_blit_int) (auto simp: htx_ptr_def)
    have g: "htx_get_blk h1 0 = htx_ptr ?s 0"
      using htx_get_blk_eq [of h1 0] ar ns n by (simp add: h1_def htx_area_ok_def)
    have sa: "blk_set_addr h1 (htx_ptr ?s 0) 0 = Some (h1\<lparr>htx_mem := m\<rparr>)"
      using blk_set_addr_eq [of h1 0 0] ar ns n by (simp add: h1_def m_def htx_area_ok_def)
    have b: "blk_addr (blk_in m ?s 0) = 0"
      unfolding m_def using blk_in_set_addr [of ?s 0 "htx_mem h" 0 0] ns s n by (simp add: htx_ptr_def)
    have f: "htx_size h' = ?s" "htx_mem h' = m" "htx_head h' = 0" "htx_tail h' = 0" "htx_data h' = n"
      "htx_tail_addr h' = n" "htx_head_addr h' = 0" "htx_end_addr h' = 0" by (simp_all add: h'_def h1_def e)
    have ar': "htx_area_ok h'" using ar len by (simp add: f htx_area_ok_def)
    have rs: "htx_rooms_ok h'" using ns n by (simp add: f htx_rooms_ok_def)
    have "htx_pending h' 0 n" using n b ar' rs by (simp add: htx_pending_def f)
    moreover have "htx_reserve_nxblk tr h n = Some (h', Some (htx_ptr ?s 0))"
      using True room g sa by (simp add: htx_reserve_nxblk_def h1_def [symmetric] Let_def) (simp add: h'_def h1_def)
    ultimately show ?thesis using len True
      by (intro exI [of _ h'] exI [of _ 0]) (simp add: f htx_msg_def htx_part_def)
  next
    case ne: False
    have r: "htx_rooms_ok h" and d: "0 < htx_data h" using wf ne by (auto simp: htx_wf_def htx_geo_def)
    have rm: "htx_data h + n + 8 * (htx_tail h + 2 - htx_head h) \<le> ?s"
      using fr ne htx_free_space_eq [OF geo] by simp
    have hp: "0 \<le> htx_head h" "htx_head h \<le> htx_tail h" "8 * (htx_tail h + 1) < ?s" using r by (auto simp: htx_rooms_ok_def)
    have pp: "0 \<le> htx_tail h + 1" "8 * (htx_tail h + 1 + 1) \<le> ?s" using hp s(4) by presburger+
    have u: "uint32 (htx_tail h + 1) = htx_tail h + 1" using hp s by (intro uint32_small) auto
    have pa: "htx_pos_to_addr h (htx_tail h + 1) = htx_ptr ?s (htx_tail h + 1)" by (rule htx_pos_to_addr_eq [OF ar pp])
    have nf: "\<not> n > htx_free_data_space h" using room by simp
    show ?thesis
    proof (cases "htx_tail_addr h \<le> htx_ptr ?s (htx_tail h + 1)")
      case True
      then show ?thesis using htx_reserve_place_ok [OF wf ne n tr rm refl True] nf ne u pa
        by (simp add: htx_reserve_nxblk_def Let_def)
    next
      case np: False
      show ?thesis
      proof (cases "0 < htx_head h")
        case True
        obtain h1 where d1: "htx_defrag_blks h = Some h1" and w: "htx_wf h1" and f: "htx_msg h1 = htx_msg h" "htx_size h1 = ?s"
          "length (htx_mem h1) = length (htx_mem h)" "htx_data h1 = htx_data h" "htx_head h1 = 0" "0 \<le> htx_tail h1" "htx_tail h1 \<le> htx_tail h - htx_head h"
          "htx_tail_addr h1 = htx_tail_addr h" using htx_defrag_blks_ok [OF wf True] by auto
        have r1: "htx_rooms_ok h1" and ar1: "htx_area_ok h1" using w f by (auto simp: htx_wf_def htx_geo_def)
        have ne1: "htx_head h1 \<noteq> -1" using f by simp
        have live: "htx_tail h1 + 1 \<le> htx_tail h + 1 - htx_head h"
          using f by simp
        have rm1: "htx_data h1 + n + 8 * (htx_tail h1 + 2 - htx_head h1) \<le> htx_size h1"
          using rm live f by simp
        have ta1: "htx_tail_addr h1 \<le> htx_ptr (htx_size h1) (htx_tail h1 + 1)"
          using f r True by (simp add: htx_rooms_ok_def htx_ptr_def)
        have u1: "uint32 (htx_tail h1 + 1) = htx_tail h1 + 1" using f hp s by (intro uint32_small) auto
        have pa1: "htx_pos_to_addr h1 (htx_tail h1 + 1) = htx_ptr ?s (htx_tail h1 + 1)"
          using htx_pos_to_addr_eq [OF ar1, of "htx_tail h1 + 1"] f hp True by simp
        obtain h' q where q: "htx_reserve_place tr h1 (htx_tail h1 + 1) n = Some (h', Some (htx_ptr ?s q))" "htx_pending h' q n"
          "htx_size h' = ?s" "length (htx_mem h') = length (htx_mem h)"
          "htx_part (htx_mem h') (htx_size h') (htx_head h') (q - 1) = htx_msg h" "q - htx_head h' \<le> htx_tail h + 1 - htx_head h"
          using htx_reserve_place_ok [OF w ne1 n _ rm1 refl ta1, of tr] tr f(1-3,5) live by fastforce
        have "htx_reserve_nxblk tr h n = Some (h', Some (htx_ptr ?s q))"
          using q(1) nf ne u pa np True d1 u1 pa1 ta1 f by (simp add: htx_reserve_nxblk_def Let_def)
        then show ?thesis using q(2-6) ne by auto
      next
        case False
        then show ?thesis using htx_reserve_defrag_ok [OF wf ne n tr rm] nf ne u pa np
          by (simp add: htx_reserve_nxblk_def Let_def)
      qed
    qed
  qed
qed

section \<open>Adding a block\<close>

lemma htx_rooms_upd [simp]: "htx_rooms_ok (h\<lparr>htx_mem := m\<rparr>) = htx_rooms_ok h"
  by (simp add: htx_rooms_ok_def)

lemma htx_pendingD:
  assumes "htx_pending h p n"
  shows "htx_area_ok h" and "0 \<le> p" and "8 * (p + 1) \<le> htx_size h" and "0 \<le> blk_addr (htx_bl h p)"
    and "blk_addr (htx_bl h p) + n \<le> htx_ptr (htx_size h) p" and "0 < n" and "htx_size h \<le> int (length (htx_mem h))"
    and "htx_size h < 2147483648" and "0 < htx_size h"
  using assms by (auto simp: htx_pending_def htx_rooms_ok_def htx_ptr_def htx_area_ok_def blk_in_def)

lemma htx_pending_info:
  assumes p: "htx_pending h p n" and m: "m = blit (htx_mem h) (nat (htx_ptr (htx_size h) p + 4)) (w32_bytes i)"
  shows "blk_set_info h (htx_ptr (htx_size h) p) i = Some (h\<lparr>htx_mem := m\<rparr>)" and "length m = length (htx_mem h)"
    and "blk_in m (htx_size h) p = \<lparr>blk_addr = blk_addr (htx_bl h p), blk_info = i\<rparr>"
    and "\<And>q. 0 \<le> q \<Longrightarrow> q < p \<Longrightarrow> blk_in m (htx_size h) q = htx_bl h q"
    and "\<And>a k. 0 \<le> a \<Longrightarrow> a + k \<le> htx_ptr (htx_size h) p \<Longrightarrow> bs m a k = bs (htx_mem h) a k"
    and "htx_pending (h\<lparr>htx_mem := m\<rparr>) p n"
    and "htx_part m (htx_size h) (htx_head h) (p - 1) = htx_part (htx_mem h) (htx_size h) (htx_head h) (p - 1)"
proof -
  let ?s = "htx_size h"
  note d = htx_pendingD [OF p]
  have pt: "0 \<le> htx_ptr ?s p" "htx_ptr ?s p + 8 \<le> ?s" using d by (auto simp: htx_ptr_def)
  have hd: "0 \<le> htx_head h" using p by (simp add: htx_pending_def htx_rooms_ok_def)
  show si: "blk_set_info h (htx_ptr ?s p) i = Some (h\<lparr>htx_mem := m\<rparr>)"
    unfolding m by (rule blk_set_info_eq [OF d(1-3)])
  show len: "length m = length (htx_mem h)" unfolding m using pt d by (intro length_blit_int) auto
  have b: "blk_in m ?s q = (if q = p then (htx_bl h p)\<lparr>blk_info := i\<rparr> else htx_bl h q)" if "0 \<le> q" "q \<le> p" for q
    unfolding m using that d pt by (intro blk_in_set_info) (auto simp: htx_ptr_def)
  show bp: "blk_in m ?s p = \<lparr>blk_addr = blk_addr (htx_bl h p), blk_info = i\<rparr>"
    using b [of p] d(2) by (cases "htx_bl h p") simp
  show bq: "blk_in m ?s q = htx_bl h q" if "0 \<le> q" "q < p" for q using b [of q] that by simp
  show pay: "bs m a k = bs (htx_mem h) a k" if "0 \<le> a" "a + k \<le> htx_ptr ?s p" for a k
    unfolding m using that d pt by (intro bs_blit_other) auto
  have e: "blk_in m ?s q = htx_bl h q" if "q \<in> set [htx_head h..p - 1]" for q using that hd by (intro bq) auto
  have sm: "htx_sum m ?s [htx_head h..p - 1] = htx_sum (htx_mem h) ?s [htx_head h..p - 1]"
    by (rule htx_sum_cong) (simp only: e)
  have ap: "blk_apart (htx_bl h q) (htx_bl h r)"
    if "q \<in> set [htx_head h..p - 1]" "r \<in> set [htx_head h..p - 1]" "q \<noteq> r" for q r
    using p that unfolding htx_pending_def by blast
  have pl: "blk_placed ?s (htx_head_addr h) (htx_end_addr h) (htx_tail_addr h) q (htx_bl h q) \<and>
      (blk_used (htx_bl h q) \<longrightarrow> blk_addr (htx_bl h p) + n \<le> blk_addr (htx_bl h q) \<or>
            blk_addr (htx_bl h q) + htx_get_blksz (htx_bl h q) \<le> blk_addr (htx_bl h p))"
    if "q \<in> set [htx_head h..p - 1]" for q
    using p that unfolding htx_pending_def by blast
  have ar: "htx_area_ok (h\<lparr>htx_mem := m\<rparr>)" and rs: "htx_rooms_ok (h\<lparr>htx_mem := m\<rparr>)"
    using p len by (simp_all add: htx_pending_def)
  show "htx_pending (h\<lparr>htx_mem := m\<rparr>) p n"
    unfolding htx_pending_def htx.select_convs htx.update_convs
  proof (intro conjI ballI)
    fix q assume q: "q \<in> set [htx_head (h\<lparr>htx_mem := m\<rparr>)..p - 1]"
    then have q': "q \<in> set [htx_head h..p - 1]" by simp
    show "blk_placed (htx_size (h\<lparr>htx_mem := m\<rparr>)) (htx_head_addr (h\<lparr>htx_mem := m\<rparr>)) (htx_end_addr (h\<lparr>htx_mem := m\<rparr>))
        (htx_tail_addr (h\<lparr>htx_mem := m\<rparr>)) q (htx_bl (h\<lparr>htx_mem := m\<rparr>) q)"
      using pl [OF q'] e [OF q'] by simp
    show "blk_used (htx_bl (h\<lparr>htx_mem := m\<rparr>) q) \<longrightarrow> 
        blk_addr (htx_bl (h\<lparr>htx_mem := m\<rparr>) p) + n \<le> blk_addr (htx_bl (h\<lparr>htx_mem := m\<rparr>) q) \<or>
        blk_addr (htx_bl (h\<lparr>htx_mem := m\<rparr>) q) + htx_get_blksz (htx_bl (h\<lparr>htx_mem := m\<rparr>) q) \<le> blk_addr (htx_bl (h\<lparr>htx_mem := m\<rparr>) p)"
      using pl [OF q'] e [OF q'] bp by simp
    fix r assume "r \<in> set [htx_head (h\<lparr>htx_mem := m\<rparr>)..p - 1]"
    then have r': "r \<in> set [htx_head h..p - 1]" by simp
    show "q \<noteq> r \<longrightarrow> blk_apart (htx_bl (h\<lparr>htx_mem := m\<rparr>) q) (htx_bl (h\<lparr>htx_mem := m\<rparr>) r)"
      using ap [OF q' r'] e [OF q'] e [OF r'] by simp
  qed (use p ar rs sm bp in \<open>simp_all add: htx_pending_def\<close>)
  show "htx_part m ?s (htx_head h) (p - 1) = htx_part (htx_mem h) ?s (htx_head h) (p - 1)"
  proof (rule htx_part_cong)
    fix q assume q: "htx_head h \<le> q" "q \<le> p - 1"
    then have q': "q \<in> set [htx_head h..p - 1]" by simp
    show "blk_in m ?s q = htx_bl h q" by (rule e [OF q'])
    assume "blk_used (blk_in m ?s q)"
    have "blk_addr (htx_bl h q) + htx_get_blksz (htx_bl h q) \<le> htx_ptr ?s p"
      if "blk_used (htx_bl h q)"
      using pl [OF q'] that p by (auto simp: blk_placed_def htx_pending_def htx_rooms_ok_def htx_ptr_def)
    then show "blk_entry m (blk_in m ?s q) = blk_entry (htx_mem h) (blk_in m ?s q)"
      using pl [OF q'] \<open>blk_used (blk_in m ?s q)\<close> e [OF q'] by (simp add: blk_entry_def pay blk_placed_def)
  qed
qed

text \<open>The descriptor, then the payload.\<close>

lemma htx_pending_fill:
  assumes p: "htx_pending h p n" and xs: "int (length xs) = n"
    and i: "blk_used \<lparr>blk_addr = 0, blk_info = i\<rparr>" "htx_get_blksz \<lparr>blk_addr = 0, blk_info = i\<rparr> = n"
    and m1: "m1 = blit (htx_mem h) (nat (htx_ptr (htx_size h) p + 4)) (w32_bytes i)"
    and m2: "m2 = blit m1 (nat (blk_addr (htx_bl h p))) xs"
  shows "htx_wf (h\<lparr>htx_mem := m2\<rparr>) \<and>
    htx_msg (h\<lparr>htx_mem := m2\<rparr>) = htx_part (htx_mem h) (htx_size h) (htx_head h) (p - 1) @ [(i, xs)]"
proof -
  let ?s = "htx_size h"
  note d = htx_pendingD [OF p] and f = htx_pending_info [OF p m1]
  have hd: "0 \<le> htx_head h" using p by (simp add: htx_pending_def htx_rooms_ok_def)
  have a: "blk_addr (htx_bl h p) + int (length xs) \<le> htx_ptr ?s p" "htx_ptr ?s p + 8 \<le> ?s" using d xs by (auto simp: htx_ptr_def)
  have len: "length m2 = length (htx_mem h)" using a d f(2) by (simp add: m2)
  have b: "blk_in m2 ?s q = blk_in m1 ?s q" if "0 \<le> q" "q \<le> p" for q
    unfolding m2 using that a d f(2) by (intro blk_in_blit_below) (auto simp: htx_ptr_def)
  have c: "blk_used \<lparr>blk_addr = x, blk_info = i\<rparr>" "htx_get_blksz \<lparr>blk_addr = x, blk_info = i\<rparr> = n" for x
    using i htx_get_blksz_addr [of "\<lparr>blk_addr = x, blk_info = i\<rparr>" "\<lparr>blk_addr = 0, blk_info = i\<rparr>"]
    by (simp_all add: blk_used_def htx_get_blk_type_def)
  have y: "bs m2 (blk_addr (htx_bl h p)) n = xs"
    unfolding m2 using a d f(2) xs by (intro bs_blit_same) auto
  have "htx_wf (h\<lparr>htx_mem := m2\<rparr>) \<and>
    htx_msg (h\<lparr>htx_mem := m2\<rparr>) = htx_part (htx_mem h) ?s (htx_head h) (p - 1) @ [(i, bs m2 (blk_addr (htx_bl h p)) n)]"
  proof (rule htx_pending_done [OF p len])
    show "blk_in m2 ?s p = \<lparr>blk_addr = blk_addr (htx_bl h p), blk_info = i\<rparr>" using b [of p] d f(3) by simp
    show "blk_in m2 ?s q = htx_bl h q" if "htx_head h \<le> q" "q < p" for q
      using b [of q] f(4) [of q] that hd by simp
    show "bs m2 a k = bs (htx_mem h) a k"
      if "0 \<le> a" "a + k \<le> htx_ptr ?s p" "a + k \<le> blk_addr (htx_bl h p) \<or> blk_addr (htx_bl h p) + n \<le> a" for a k
    proof -
      have "bs m2 a k = bs m1 a k" unfolding m2 using that d f(2) a xs by (intro bs_blit_other) auto
      then show ?thesis using f(5) [of a k] that by simp
    qed
    show "blk_used (blk_in m2 ?s p)" "htx_get_blksz (blk_in m2 ?s p) = n" using b [of p] d f(3) c by simp_all
  qed
  then show ?thesis using y by simp
qed

lemma htx_add_blk_ok:
  assumes wf: "htx_wf h" and n: "0 < n" "n < 268435456" and tr: "htx_size h \<le> int (length tr)"
    and room: "n \<le> htx_free_data_space h"
  shows "\<exists>h' p. htx_add_blk tr h type n = Some (h', Some (htx_ptr (htx_size h) p)) \<and>
    htx_pending h' p n \<and> blk_info (htx_bl h' p) = push_bit 28 type \<and> htx_size h' = htx_size h \<and>
    length (htx_mem h') = length (htx_mem h) \<and>
    htx_part (htx_mem h') (htx_size h') (htx_head h') (p - 1) = htx_msg h \<and>
    p - htx_head h' \<le> (if htx_head h = -1 then 0 else htx_tail h + 1 - htx_head h)"
proof -
  obtain h1 p where r: "htx_reserve_nxblk tr h n = Some (h1, Some (htx_ptr (htx_size h) p))" and p: "htx_pending h1 p n"
    and f: "htx_size h1 = htx_size h" "length (htx_mem h1) = length (htx_mem h)"
    "htx_part (htx_mem h1) (htx_size h1) (htx_head h1) (p - 1) = htx_msg h"
    and hd: "p - htx_head h1 \<le> (if htx_head h = -1 then 0 else htx_tail h + 1 - htx_head h)"
    using htx_reserve_nxblk_ok [OF wf n(1) tr room] by blast
  note d = htx_pendingD [OF p]
  define m where "m = blit (htx_mem h1) (nat (htx_ptr (htx_size h1) p + 4)) (w32_bytes (push_bit 28 type))"
  note g = htx_pending_info [OF p m_def]
  have rdp: "blk_rd h1 (htx_ptr (htx_size h) p) = Some (htx_bl h1 p)" using blk_rd_eq [OF d(1-3)] f(1) by simp
  have le: "\<not> blk_addr (htx_bl h1 p) > htx_size h1" using d by (simp add: htx_ptr_def)
  have "htx_add_blk tr h type n = Some (h1\<lparr>htx_mem := m\<rparr>, Some (htx_ptr (htx_size h) p))"
    using n r rdp le g(1) f(1) by (simp add: htx_add_blk_def)
  then show ?thesis using g(2,3,6,7) f hd by (intro exI [of _ "h1\<lparr>htx_mem := m\<rparr>"] exI [of _ p]) simp
qed

lemma htx_add_blk_full:
  assumes "n < 268435456" and "htx_free_data_space h < n"
  shows "htx_add_blk tr h type n = Some (h, None)"
  using assms by (simp add: htx_add_blk_def htx_reserve_nxblk_def)

lemma push_type_add: "push_bit 28 t + word_of_int n = info_of t n"
  by (simp add: info_of_def)

text \<open>Every block of a type other than a name with its value.\<close>

lemma htx_add_filled:
  assumes wf: "htx_wf h" and n: "0 < n" "n < 268435456" and tr: "htx_size h \<le> int (length tr)"
    and room: "n \<le> htx_free_data_space h"
    and i: "blk_used \<lparr>blk_addr = 0, blk_info = push_bit 28 type + w\<rparr>" "htx_get_blksz \<lparr>blk_addr = 0, blk_info = push_bit 28 type + w\<rparr> = n"
  shows "\<exists>h1 p m1. htx_add_blk tr h type n = Some (h1, Some (htx_ptr (htx_size h) p)) \<and>
    blk_add_info h1 (htx_ptr (htx_size h) p) w = Some (h1\<lparr>htx_mem := m1\<rparr>) \<and>
    blk_rd (h1\<lparr>htx_mem := m1\<rparr>) (htx_ptr (htx_size h) p) =
      Some \<lparr>blk_addr = blk_addr (htx_bl h1 p), blk_info = push_bit 28 type + w\<rparr> \<and>
    htx_size h1 = htx_size h \<and> length m1 = length (htx_mem h) \<and> 0 \<le> blk_addr (htx_bl h1 p) \<and>
    blk_addr (htx_bl h1 p) + n \<le> int (length m1) \<and> htx_pending h1 p n \<and>
    (\<forall>xs. int (length xs) = n \<longrightarrow>
       htx_wf (h1\<lparr>htx_mem := blit m1 (nat (blk_addr (htx_bl h1 p))) xs\<rparr>) \<and>
       htx_msg (h1\<lparr>htx_mem := blit m1 (nat (blk_addr (htx_bl h1 p))) xs\<rparr>) = htx_msg h @ [(push_bit 28 type + w, xs)])"
proof -
  obtain h1 p where a: "htx_add_blk tr h type n = Some (h1, Some (htx_ptr (htx_size h) p))" and p: "htx_pending h1 p n"
    and ti: "blk_info (htx_bl h1 p) = push_bit 28 type" and f: "htx_size h1 = htx_size h" "length (htx_mem h1) = length (htx_mem h)"
    "htx_part (htx_mem h1) (htx_size h1) (htx_head h1) (p - 1) = htx_msg h"
    using htx_add_blk_ok [OF wf n tr room] by blast
  note d = htx_pendingD [OF p]
  define m1 where "m1 = blit (htx_mem h1) (nat (htx_ptr (htx_size h1) p + 4)) (w32_bytes (push_bit 28 type + w))"
  note g = htx_pending_info [OF p m1_def]
  have ai: "blk_add_info h1 (htx_ptr (htx_size h) p) w = Some (h1\<lparr>htx_mem := m1\<rparr>)"
    using blk_rd_eq [OF d(1-3)] g(1) by (simp add: blk_add_info_def f(1) ti [unfolded f(1)])
  have "blk_rd (h1\<lparr>htx_mem := m1\<rparr>) (htx_ptr (htx_size h) p) = Some (blk_in m1 (htx_size h1) p)"
    using blk_rd_eq [of "h1\<lparr>htx_mem := m1\<rparr>" p] htx_pendingD(1) [OF g(6)] d(2,3) f(1) by simp
  then have rb: "blk_rd (h1\<lparr>htx_mem := m1\<rparr>) (htx_ptr (htx_size h) p) =
      Some \<lparr>blk_addr = blk_addr (htx_bl h1 p), blk_info = push_bit 28 type + w\<rparr>" using g(3) by simp
  have le: "blk_addr (htx_bl h1 p) + n \<le> int (length m1)" using d g(2) by (simp add: htx_ptr_def)
  have fl: "htx_wf (h1\<lparr>htx_mem := blit m1 (nat (blk_addr (htx_bl h1 p))) xs\<rparr>) \<and>
       htx_msg (h1\<lparr>htx_mem := blit m1 (nat (blk_addr (htx_bl h1 p))) xs\<rparr>) = htx_msg h @ [(push_bit 28 type + w, xs)]"
    if "int (length xs) = n" for xs
    using htx_pending_fill [OF p that i m1_def refl] f(3) by simp
  show ?thesis
    by (intro exI [of _ h1] exI [of _ p] exI [of _ m1] conjI allI impI)
      (use a ai rb f g(2) d(4) le p fl in auto)
qed

lemma info_words:
  assumes "t < 15" and "0 \<le> n" and "n < 268435456"
  shows "blk_used \<lparr>blk_addr = 0, blk_info = push_bit 28 t + word_of_int n\<rparr>"
    and "t \<noteq> HTX_BLK_HDR \<Longrightarrow> t \<noteq> HTX_BLK_TLR \<Longrightarrow>
      htx_get_blksz \<lparr>blk_addr = 0, blk_info = push_bit 28 t + word_of_int n\<rparr> = n"
proof -
  have t: "uint t < 16" "t \<noteq> 15" using assms(1) by (auto simp: word_less_def)
  show "blk_used \<lparr>blk_addr = 0, blk_info = push_bit 28 t + word_of_int n\<rparr>"
    unfolding blk_used_def push_type_add using type_info_of [OF t(1) assms(2,3)] t(2) by simp
  show "htx_get_blksz \<lparr>blk_addr = 0, blk_info = push_bit 28 t + word_of_int n\<rparr> = n"
    if "t \<noteq> HTX_BLK_HDR" "t \<noteq> HTX_BLK_TLR"
    unfolding push_type_add using blksz_info_of [OF t(1) assms(2,3) that] by simp
qed

text \<open>A name and a value.\<close>

definition hdr_entry :: "u32 \<Rightarrow> bytes \<Rightarrow> bytes \<Rightarrow> htx_entry" where
  "hdr_entry t name val = (push_bit 28 t + word_of_nat (length val * 256 + length name), map ascii_lc name @ val)"

lemma blk_write_lc_eq:
  assumes "0 \<le> a" and "a + int (length name) \<le> int (length (htx_mem h))"
  shows "blk_write_lc h a name = Some (h\<lparr>htx_mem := blit (htx_mem h) (nat a) (map ascii_lc name)\<rparr>)"
proof -
  obtain q where q: "a = int q" using assms(1) by (metis nonneg_int_cases)
  show ?thesis
    using ist2bin_eq(2) [of name "ist2 (Some 0) (length name)" q "htx_mem h"] assms by (simp add: blk_write_lc_def q)
qed

lemma blk_write_eq: "0 \<le> a \<Longrightarrow> a + int (length xs) \<le> int (length (htx_mem h)) \<Longrightarrow>
    blk_write h a xs = Some (h\<lparr>htx_mem := blit (htx_mem h) (nat a) xs\<rparr>)"
  by (simp add: blk_write_def mwr_Some)

lemma htx_add_name_value_ok:
  assumes wf: "htx_wf h" and tr: "htx_size h \<le> int (length tr)" and t: "t = HTX_BLK_HDR \<or> t = HTX_BLK_TLR"
    and l: "length name \<le> 255" "length val \<le> 1048575" "0 < length name + length val"
    and room: "int (length name + length val) \<le> htx_free_data_space h"
  shows "\<exists>h' blk. htx_add_name_value tr h t name val = Some (h', Some blk) \<and> htx_wf h' \<and>
    htx_msg h' = htx_msg h @ [hdr_entry t name val] \<and> htx_size h' = htx_size h \<and> length (htx_mem h') = length (htx_mem h)"
proof -
  define w :: u32 where "w = word_of_nat (length val * 256 + length name)"
  have w: "w = word_of_int (int (length val) * 256 + int (length name))" by (simp add: w_def)
  have w': "word_of_nat (length val) * 256 + word_of_nat (length name) = w" by (simp add: w_def)
  have n: "0 < int (length name + length val)" "int (length name + length val) < 268435456" using l by linarith+
  have t15: "t < 15" using t by (auto simp: word_less_def)
  have u: "blk_used \<lparr>blk_addr = 0, blk_info = push_bit 28 t + w\<rparr>"
    unfolding w by (rule info_words(1) [OF t15]) (use l in auto)
  have z: "htx_get_blksz \<lparr>blk_addr = 0, blk_info = push_bit 28 t + w\<rparr> = int (length name + length val)"
    unfolding w push_type_add
    using blksz_info_of_hdr [OF t, of "int (length name)" "int (length val)"] l by simp
  obtain h1 p m1 where a: "htx_add_blk tr h t (int (length name + length val)) = Some (h1, Some (htx_ptr (htx_size h) p))"
    and ai: "blk_add_info h1 (htx_ptr (htx_size h) p) w = Some (h1\<lparr>htx_mem := m1\<rparr>)"
    and rb: "blk_rd (h1\<lparr>htx_mem := m1\<rparr>) (htx_ptr (htx_size h) p) =
      Some \<lparr>blk_addr = blk_addr (htx_bl h1 p), blk_info = push_bit 28 t + w\<rparr>"
    and f: "htx_size h1 = htx_size h" "length m1 = length (htx_mem h)" "0 \<le> blk_addr (htx_bl h1 p)"
      "blk_addr (htx_bl h1 p) + int (length name + length val) \<le> int (length m1)"
    and fl: "\<And>xs. int (length xs) = int (length name + length val) \<Longrightarrow>
       htx_wf (h1\<lparr>htx_mem := blit m1 (nat (blk_addr (htx_bl h1 p))) xs\<rparr>) \<and>
       htx_msg (h1\<lparr>htx_mem := blit m1 (nat (blk_addr (htx_bl h1 p))) xs\<rparr>) = htx_msg h @ [(push_bit 28 t + w, xs)]"
    using htx_add_filled [OF wf n tr room u z] by blast
  define ad where "ad = blk_addr (htx_bl h1 p)"
  have adj: "blit (blit m1 (nat ad) (map ascii_lc name)) (nat (ad + int (length name))) val =
      blit m1 (nat ad) (map ascii_lc name @ val)"
    using f(3,4) blit_adjacent [of "nat ad" "map ascii_lc name" val m1]
    by (simp add: ad_def nat_add_distrib nat_le_iff)
  have "htx_add_name_value tr h t name val =
      Some (h1\<lparr>htx_mem := blit m1 (nat ad) (map ascii_lc name @ val)\<rparr>, Some (htx_ptr (htx_size h) p))"
    using l a ai rb f(3,4)
    by (simp add: htx_add_name_value_def w' htx_get_blk_ptr_def ad_def [symmetric] blk_write_lc_eq blk_write_eq adj)
  then show ?thesis
    using fl [of "map ascii_lc name @ val"] f
    by (intro exI [of _ "h1\<lparr>htx_mem := blit m1 (nat ad) (map ascii_lc name @ val)\<rparr>"] exI)
      (simp add: hdr_entry_def w_def ad_def)
qed

lemma htx_add_name_value_full:
  assumes "length name \<le> 255" "length val \<le> 1048575" "htx_free_data_space h < int (length name + length val)"
  shows "htx_add_name_value tr h t name val = Some (h, None)"
  using assms htx_add_blk_full [of "int (length name + length val)" h tr t] by (simp add: htx_add_name_value_def)

lemma htx_add_endof_ok:
  assumes wf: "htx_wf h" and tr: "htx_size h \<le> int (length tr)" and t: "t = HTX_BLK_EOH \<or> t = HTX_BLK_EOT"
    and room: "1 \<le> htx_free_data_space h"
  shows "\<exists>h' blk x. htx_add_endof tr h t = Some (h', Some blk) \<and> htx_wf h' \<and>
    htx_msg h' = htx_msg h @ [(push_bit 28 t + 1, [x])] \<and> htx_size h' = htx_size h \<and> length (htx_mem h') = length (htx_mem h)"
proof -
  have t15: "t < 15" "t \<noteq> HTX_BLK_HDR" "t \<noteq> HTX_BLK_TLR" using t by (auto simp: word_less_def)
  have i: "blk_used \<lparr>blk_addr = 0, blk_info = push_bit 28 t + 1\<rparr>" "htx_get_blksz \<lparr>blk_addr = 0, blk_info = push_bit 28 t + 1\<rparr> = 1"
    using info_words [OF t15(1), of 1] t15 by simp_all
  obtain h1 p m1 where a: "htx_add_blk tr h t 1 = Some (h1, Some (htx_ptr (htx_size h) p))"
    and ai: "blk_add_info h1 (htx_ptr (htx_size h) p) 1 = Some (h1\<lparr>htx_mem := m1\<rparr>)"
    and f: "htx_size h1 = htx_size h" "length m1 = length (htx_mem h)" "0 \<le> blk_addr (htx_bl h1 p)"
      "blk_addr (htx_bl h1 p) + 1 \<le> int (length m1)"
    and fl: "\<And>xs. int (length xs) = 1 \<Longrightarrow>
       htx_wf (h1\<lparr>htx_mem := blit m1 (nat (blk_addr (htx_bl h1 p))) xs\<rparr>) \<and>
       htx_msg (h1\<lparr>htx_mem := blit m1 (nat (blk_addr (htx_bl h1 p))) xs\<rparr>) = htx_msg h @ [(push_bit 28 t + 1, xs)]"
    using htx_add_filled [OF wf _ _ tr room i] by auto
  define x where "x = m1 ! nat (blk_addr (htx_bl h1 p))"
  have "blit m1 (nat (blk_addr (htx_bl h1 p))) [x] = m1"
    using f(3,4) by (simp add: x_def blit_single nat_less_iff list_update_id)
  then show ?thesis using fl [of "[x]"] a ai f
    by (intro exI [of _ "h1\<lparr>htx_mem := m1\<rparr>"] exI [of _ "htx_ptr (htx_size h) p"] exI [of _ x]) (simp add: htx_add_endof_def)
qed

lemma htx_add_new_data_ok:
  assumes wf: "htx_wf h" and tr: "htx_size h \<le> int (length tr)"
    and l: "0 < length xs" "int (length xs) < 268435456" and room: "int (length xs) \<le> htx_free_data_space h"
  shows "\<exists>h' blk. htx_add_new_data tr h xs = Some (h', Some blk) \<and> htx_wf h' \<and>
    htx_msg h' = htx_msg h @ [(push_bit 28 HTX_BLK_DATA + word_of_nat (length xs), xs)] \<and>
    htx_size h' = htx_size h \<and> length (htx_mem h') = length (htx_mem h)"
proof -
  define w :: u32 where "w = word_of_nat (length xs)"
  have w: "w = word_of_int (int (length xs))" by (simp add: w_def)
  have n: "0 < int (length xs)" using l by simp
  have i: "blk_used \<lparr>blk_addr = 0, blk_info = push_bit 28 HTX_BLK_DATA + w\<rparr>"
    "htx_get_blksz \<lparr>blk_addr = 0, blk_info = push_bit 28 HTX_BLK_DATA + w\<rparr> = int (length xs)"
    unfolding w using info_words [of HTX_BLK_DATA "int (length xs)"] l by simp_all
  obtain h1 p m1 where a: "htx_add_blk tr h HTX_BLK_DATA (int (length xs)) = Some (h1, Some (htx_ptr (htx_size h) p))"
    and ai: "blk_add_info h1 (htx_ptr (htx_size h) p) w = Some (h1\<lparr>htx_mem := m1\<rparr>)"
    and rb: "blk_rd (h1\<lparr>htx_mem := m1\<rparr>) (htx_ptr (htx_size h) p) =
      Some \<lparr>blk_addr = blk_addr (htx_bl h1 p), blk_info = push_bit 28 HTX_BLK_DATA + w\<rparr>"
    and f: "htx_size h1 = htx_size h" "length m1 = length (htx_mem h)" "0 \<le> blk_addr (htx_bl h1 p)"
      "blk_addr (htx_bl h1 p) + int (length xs) \<le> int (length m1)"
    and fl: "htx_wf (h1\<lparr>htx_mem := blit m1 (nat (blk_addr (htx_bl h1 p))) xs\<rparr>) \<and>
       htx_msg (h1\<lparr>htx_mem := blit m1 (nat (blk_addr (htx_bl h1 p))) xs\<rparr>) = htx_msg h @ [(push_bit 28 HTX_BLK_DATA + w, xs)]"
    using htx_add_filled [OF wf n l(2) tr room i] by blast
  have u: "uint32 (int (length xs)) = int (length xs)" using l by (intro uint32_small) auto
  have "htx_add_new_data tr h xs =
      Some (h1\<lparr>htx_mem := blit m1 (nat (blk_addr (htx_bl h1 p))) xs\<rparr>, Some (htx_ptr (htx_size h) p))"
    using a ai rb f(3,4) by (simp add: htx_add_new_data_def w_def [symmetric] u htx_get_blk_ptr_def blk_write_eq)
  then show ?thesis using fl f
    by (intro exI [of _ "h1\<lparr>htx_mem := blit m1 (nat (blk_addr (htx_bl h1 p))) xs\<rparr>"] exI) (simp add: w_def)
qed

end
