(* ===== verification/HtxRemove.thy ===== *)
theory HtxRemove
  imports HtxAdd
begin

unbundle bit_operations_syntax

text \<open>
  HTX messages: removing, resizing and cutting one block. The functions built on these are in \<open>HtxData\<close>
  (\<^verbatim>\<open>htx_drain\<close>, \<^verbatim>\<open>htx_add_data\<close>) and \<open>HtxAppend\<close> (\<^verbatim>\<open>htx_truncate\<close>, \<^verbatim>\<open>htx_append_msg\<close>).
\<close>

section \<open>Removing a block\<close>

text \<open>The free areas after the removal of the payload \<open>[ad, ad + sz)\<close>.\<close>

definition htx_shrink :: "int \<Rightarrow> int \<Rightarrow> int \<Rightarrow> int \<Rightarrow> int \<Rightarrow> int \<times> int \<times> int" where
  "htx_shrink ha ea ta ad sz =
     (let ta' = (if ad + sz = ta then ad else ta);
          ha' = (if ad + sz = ta then ha else if ad + sz = ha then ad else ha)
      in if ad = ea then if ta' = ea then (0, 0, ha') else (ha', ea + sz, ta') else (ha', ea, ta'))"

lemma htx_shrink_ok:
  assumes "0 \<le> ha" "ha \<le> ea" "ea \<le> ta" and t: "ea = 0 \<or> ea < ta" and "0 \<le> ad" "0 \<le> sz"
    and "0 < sz \<longrightarrow> ad + sz \<le> ha \<or> ea \<le> ad \<and> ad + sz \<le> ta"
    and e: "htx_shrink ha ea ta ad sz = (ha', ea', ta')"
  shows "0 \<le> ha' \<and> ha' \<le> ea' \<and> ea' \<le> ta' \<and> ta' \<le> ta \<and> (ea' = 0 \<or> ea' < ta')"
    and "\<And>x k. 0 \<le> x \<Longrightarrow> 0 < k \<Longrightarrow> x + k \<le> ha \<or> ea \<le> x \<and> x + k \<le> ta \<Longrightarrow>
      sz = 0 \<or> ad + sz \<le> x \<or> x + k \<le> ad \<Longrightarrow> x + k \<le> ha' \<or> ea' \<le> x \<and> x + k \<le> ta'"
proof -
  consider "sz = 0" | "0 < sz" "ad + sz \<le> ha" | "0 < sz" "ea \<le> ad" "ad + sz \<le> ta" using assms by linarith
  then show "0 \<le> ha' \<and> ha' \<le> ea' \<and> ea' \<le> ta' \<and> ta' \<le> ta \<and> (ea' = 0 \<or> ea' < ta')"
    by cases (use assms in \<open>auto simp: htx_shrink_def Let_def split: if_splits\<close>)
  fix x k :: int
  assume x: "0 \<le> x" "0 < k" "x + k \<le> ha \<or> ea \<le> x \<and> x + k \<le> ta" "sz = 0 \<or> ad + sz \<le> x \<or> x + k \<le> ad"
  consider "sz = 0" | "0 < sz" "ad + sz \<le> ha" | "0 < sz" "ea \<le> ad" "ad + sz \<le> ta" using assms by linarith
  then show "x + k \<le> ha' \<or> ea' \<le> x \<and> x + k \<le> ta'"
    by cases (use assms x in \<open>auto simp: htx_shrink_def Let_def split: if_splits\<close>)
qed

lemma htx_reset_geo: "htx_geo h \<Longrightarrow> htx_geo ((htx_reset h)\<lparr>htx_flags := f\<rparr>)"
  by (simp add: htx_geo_def htx_reset_def htx_area_ok_def)

lemma htx_remove_blk_ok:
  assumes geo: "htx_geo h" and hp: "htx_head h \<noteq> -1" "htx_head h < htx_tail h" "htx_head h \<le> p" "p \<le> htx_tail h"
  shows "\<exists>h'. htx_remove_blk h (htx_ptr (htx_size h) p) =
      Some (h', if p = htx_head h \<or> p \<noteq> htx_tail h then Some (htx_ptr (htx_size h) (p + 1)) else None) \<and>
    htx_geo h' \<and> htx_size h' = htx_size h \<and> length (htx_mem h') = length (htx_mem h) \<and>
    htx_head h' = (if p = htx_head h then htx_head h + 1 else htx_head h) \<and>
    htx_tail h' = (if p \<noteq> htx_head h \<and> p = htx_tail h then htx_tail h - 1 else htx_tail h) \<and>
    htx_data h' = htx_data h - htx_get_blksz (htx_bl h p) \<and>
    (\<forall>q. 0 \<le> q \<longrightarrow> q \<le> htx_tail h \<longrightarrow> q \<noteq> p \<longrightarrow> htx_bl h' q = htx_bl h q) \<and>
    \<not> blk_used (htx_bl h' p) \<and>
    (\<forall>a k. 0 \<le> a \<longrightarrow> a + k \<le> htx_ptr (htx_size h) (htx_tail h) \<longrightarrow> bs (htx_mem h') a k = bs (htx_mem h) a k)"
proof -
  let ?s = "htx_size h"
  define b sz ad where "b = htx_bl h p" and "sz = htx_get_blksz b" and "ad = blk_addr b"
  have ar: "htx_area_ok h" and r: "htx_rooms_ok h" and bo: "htx_blks_ok h"
    and sum: "htx_data h = htx_sum (htx_mem h) ?s [htx_head h..htx_tail h]"
    using geo hp by (auto simp: htx_geo_def)
  have s: "0 < ?s" "?s < 2147483648" "?s \<le> int (length (htx_mem h))" using ar by (auto simp: htx_area_ok_def)
  have h0: "0 \<le> htx_head h" "8 * (htx_tail h + 1) < ?s" using r by (auto simp: htx_rooms_ok_def)
  have pp: "0 \<le> p" "8 * (p + 1) \<le> ?s" using hp h0 by auto
  have pt: "0 \<le> htx_ptr ?s p" "htx_ptr ?s p + 8 \<le> ?s" "htx_ptr ?s (htx_tail h) \<le> htx_ptr ?s p" using pp hp by (auto simp: htx_ptr_def)
  have plq: "blk_placed ?s (htx_head_addr h) (htx_end_addr h) (htx_tail_addr h) q (htx_bl h q)"
    if "htx_head h \<le> q" "q \<le> htx_tail h" for q
    using bo that by (auto simp: htx_blks_ok_def)
  have plp: "(sz = 0) = (\<not> blk_used b)" "0 \<le> ad" "ad + sz \<le> htx_ptr ?s p"
    "0 < sz \<longrightarrow> ad + sz \<le> htx_head_addr h \<or> htx_end_addr h \<le> ad \<and> ad + sz \<le> htx_tail_addr h"
    using plq [OF hp(3,4)] by (auto simp: blk_placed_def b_def sz_def ad_def htx_ptr_def)
  have sz0: "0 \<le> sz" by (simp add: sz_def)
  have ss: "htx_data h = htx_sum (htx_mem h) ?s [htx_head h..p - 1] + sz + htx_sum (htx_mem h) ?s [p + 1..htx_tail h]"
    unfolding sum sz_def b_def using hp by (intro htx_sum_split) auto
  define m' where "m' = (if blk_used b then blit (htx_mem h) (nat (htx_ptr ?s p + 4)) (w32_bytes (push_bit 28 HTX_BLK_UNUSED)) else htx_mem h)"
  have len: "length m' = length (htx_mem h)"
    unfolding m'_def using pt s by auto
  have bq: "blk_in m' ?s q = htx_bl h q" if "0 \<le> q" "q \<le> htx_tail h" "q \<noteq> p" for q
  proof -
    have "0 \<le> htx_ptr ?s q" using that h0 by (simp add: htx_ptr_def)
    then show ?thesis using blk_in_set_info [OF pt(1) pp(1) s(3) that(1), of "push_bit 28 HTX_BLK_UNUSED"] that(3)
      by (simp only: m'_def if_False split: if_split) blast
  qed
  have bp: "\<not> blk_used (blk_in m' ?s p)" 
  proof (cases "blk_used b")
    case True
    then have "blk_in m' ?s p = b\<lparr>blk_info := push_bit 28 HTX_BLK_UNUSED\<rparr>"
      unfolding m'_def b_def using pt s pp by (simp add: blk_in_set_info)
    moreover have "htx_get_blk_type \<lparr>blk_addr = x, blk_info = push_bit 28 HTX_BLK_UNUSED\<rparr> = HTX_BLK_UNUSED" for x
      by (simp add: htx_get_blk_type_def)
    ultimately show ?thesis by (cases b) (simp add: blk_used_def)
  next
    case False
    then show ?thesis by (simp add: m'_def b_def)
  qed
  have pay: "bs m' a k = bs (htx_mem h) a k" if "0 \<le> a" "a + k \<le> htx_ptr ?s (htx_tail h)" for a k
    unfolding m'_def using that pt s by (auto intro!: bs_blit_other)
  define hd' where "hd' = (if p = htx_head h then htx_head h + 1 else htx_head h)"
  define tl' where "tl' = (if p \<noteq> htx_head h \<and> p = htx_tail h then htx_tail h - 1 else htx_tail h)"
  have ht: "hd' \<le> tl'" "0 \<le> hd'" "tl' \<le> htx_tail h" "htx_head h \<le> hd'" using hp h0 by (auto simp: hd'_def tl'_def)
  have inn: "q \<noteq> p \<and> htx_head h \<le> q \<and> q \<le> htx_tail h \<or> q = p \<and> hd' < p \<and> p < tl'" if "hd' \<le> q" "q \<le> tl'" for q
    using that hp by (auto simp: hd'_def tl'_def split: if_splits)
  have sum': "htx_sum m' ?s [hd'..tl'] = htx_data h - sz"
  proof -
    have e1: "htx_sum m' ?s [x..y] = htx_sum (htx_mem h) ?s [x..y]" if "0 \<le> x" "y \<le> htx_tail h" "p < x \<or> y < p" for x y
      by (rule htx_sum_cong) (use bq that in auto)
    have z: "htx_get_blksz (blk_in m' ?s p) = 0"
    proof (cases "blk_used b")
      case True
      then have "blk_in m' ?s p = b\<lparr>blk_info := push_bit 28 HTX_BLK_UNUSED\<rparr>"
        unfolding m'_def b_def using pt s pp by (simp add: blk_in_set_info)
      moreover have "htx_get_blksz \<lparr>blk_addr = x, blk_info = push_bit 28 HTX_BLK_UNUSED\<rparr> = 0" for x
        by (simp add: htx_get_blksz_def htx_get_blk_type_def)
      ultimately show ?thesis by (cases b) simp
    next
      case False
      then show ?thesis using plp(1) by (simp add: m'_def b_def sz_def)
    qed
    consider "p = htx_head h" | "p \<noteq> htx_head h" "p = htx_tail h" | "htx_head h < p" "p < htx_tail h" using hp by linarith
    then show ?thesis
    proof cases
      case 1
      then show ?thesis using e1 [of "p + 1" "htx_tail h"] ss pp hp by (simp add: hd'_def tl'_def)
    next
      case 2
      then show ?thesis using e1 [of "htx_head h" "p - 1"] ss h0 by (simp add: hd'_def tl'_def)
    next
      case 3
      then show ?thesis using e1 [of "htx_head h" "p - 1"] e1 [of "p + 1" "htx_tail h"] ss h0 pp z
        htx_sum_split [of "htx_head h" p "htx_tail h" m' ?s] by (simp add: hd'_def tl'_def)
    qed
  qed
  have d0: "0 \<le> htx_data h - sz" using sum' htx_sum_nonneg [of m' ?s "[hd'..tl']"] by simp
  have db: "htx_data h - sz + 8 * (tl' + 1 - hd') \<le> ?s" using r ht sz0 by (auto simp: htx_rooms_ok_def)
  have ud: "uint32 (htx_data h - sz) = htx_data h - sz" using d0 db ht s by (intro uint32_small) auto
  have rdp: "blk_rd h (htx_ptr ?s p) = Some b" unfolding b_def by (rule blk_rd_eq [OF ar pp])
  have gpos: "htx_get_blk_pos h (htx_ptr ?s p) = p" by (rule htx_get_blk_pos_eq [OF ar pp])
  define h1 where "h1 = h\<lparr>htx_data := htx_data h - sz, htx_mem := m'\<rparr>"
  have w1: "(if htx_get_blk_type b \<noteq> HTX_BLK_UNUSED
      then blk_set_info (h\<lparr>htx_data := uint32 (htx_data h - sz)\<rparr>) (htx_ptr ?s p) (push_bit 28 HTX_BLK_UNUSED) else Some h) = Some h1"
  proof (cases "blk_used b")
    case True
    then have "blk_set_info (h\<lparr>htx_data := htx_data h - sz\<rparr>) (htx_ptr ?s p) (push_bit 28 HTX_BLK_UNUSED) = Some h1"
      using blk_set_info_eq [of "h\<lparr>htx_data := htx_data h - sz\<rparr>" p] ar pp by (simp add: h1_def m'_def)
    then show ?thesis using True by (simp add: ud blk_used_def)
  next
    case False
    then show ?thesis using plp(1) by (simp add: blk_used_def h1_def m'_def)
  qed
  define r' where "r' = (if p = htx_head h \<or> p \<noteq> htx_tail h then Some (htx_ptr ?s (p + 1)) else None)"
  define f' where "f' = (if p = htx_head h \<or> p = htx_tail h then htx_flags h else htx_flags h OR HTX_FL_FRAGMENTED)"
  define h2 where "h2 = h1\<lparr>htx_head := hd', htx_tail := tl', htx_flags := f'\<rparr>"
  have ar': "htx_area_ok h'" if "htx_size h' = ?s" "length (htx_mem h') = length (htx_mem h)" for h' using ar that by (simp add: htx_area_ok_def)
  have up: "uint32 (htx_head h) = htx_head h" "uint32 (htx_tail h) = htx_tail h"
    using h0 hp s by (auto intro!: uint32_small)
  have gb: "htx_get_blk h' (p + 1) = htx_ptr ?s (p + 1)"
    if "htx_size h' = ?s" "length (htx_mem h') = length (htx_mem h)" "p < htx_tail h" for h'
    using htx_get_blk_eq [OF ar' [OF that(1,2)], of "p + 1"] pp h0 that by simp
  have w2: "(if p = uint32 (htx_head h1)
           then let h = h1\<lparr>htx_head := htx_head h1 + 1\<rparr> in (h, Some (htx_get_blk h (p + 1)))
           else if p = uint32 (htx_tail h1) then (h1\<lparr>htx_tail := htx_tail h1 - 1\<rparr>, None)
           else let h = h1\<lparr>htx_flags := htx_flags h1 OR HTX_FL_FRAGMENTED\<rparr> in (h, Some (htx_get_blk h (p + 1)))) = (h2, r')"
    using hp up len gb by (auto simp: h1_def h2_def hd'_def tl'_def f'_def r'_def Let_def)
  obtain x where w3: "(if p = uint32 (htx_first h2)
      then h2\<lparr>htx_first := (case r' of Some p \<Rightarrow> to_int32 (htx_get_blk_pos h2 p) | None \<Rightarrow> -1)\<rparr> else h2) = h2\<lparr>htx_first := x\<rparr>"
  proof (cases "p = uint32 (htx_first h2)")
    case True
    then show ?thesis using that by simp
  next
    case False
    then show ?thesis using that [of "htx_first h2"] by simp
  qed
  define h3 where "h3 = h2\<lparr>htx_first := x\<rparr>"
  have f3: "htx_size h3 = ?s" "htx_mem h3 = m'" "htx_head h3 = hd'" "htx_tail h3 = tl'" "htx_data h3 = htx_data h - sz"
    "htx_head_addr h3 = htx_head_addr h" "htx_end_addr h3 = htx_end_addr h" "htx_tail_addr h3 = htx_tail_addr h"
    by (simp_all add: h3_def h2_def h1_def)
  have lt8: "8 * (tl' + 1) < ?s" using ht h0 by simp
  have adb: "0 \<le> ad + sz" "ad + sz < 4294967296" "uint32 (ad + sz) = ad + sz"
    using plp sz0 pt s by (auto intro!: uint32_small simp: htx_ptr_def)
  have rm: "0 \<le> htx_head_addr h" "htx_head_addr h \<le> htx_end_addr h" "htx_end_addr h \<le> htx_tail_addr h"
    "htx_tail_addr h \<le> htx_ptr ?s (htx_tail h)" "htx_end_addr h = 0 \<or> htx_end_addr h < htx_tail_addr h"
    using r hp by (auto simp: htx_rooms_ok_def htx_ptr_def)
  define h4 where "h4 = (if hd' = tl'
      then h3\<lparr>htx_head_addr := 0, htx_end_addr := blk_addr (htx_bl h hd'), htx_tail_addr := blk_addr (htx_bl h hd') + (htx_data h - sz)\<rparr>
      else (case htx_shrink (htx_head_addr h) (htx_end_addr h) (htx_tail_addr h) ad sz of (ha, ea, ta) \<Rightarrow>
        h3\<lparr>htx_head_addr := ha, htx_end_addr := ea, htx_tail_addr := ta\<rparr>))"
  have w4: "(if htx_head h3 = htx_tail h3 then do {
             lastblk \<leftarrow> blk_rd h3 (htx_get_blk h3 (htx_tail h3));
             Some (h3\<lparr>htx_head_addr := 0, htx_end_addr := blk_addr lastblk,
                     htx_tail_addr := uint32 (blk_addr lastblk + htx_data h3)\<rparr>) }
           else do {
             let h = (if uint32 (ad + sz) = htx_tail_addr h3 then h3\<lparr>htx_tail_addr := ad\<rparr>
                      else if uint32 (ad + sz) = htx_head_addr h3 then h3\<lparr>htx_head_addr := ad\<rparr> else h3);
             Some (if ad = htx_end_addr h
                   then if htx_tail_addr h = htx_end_addr h
                        then h\<lparr>htx_tail_addr := htx_head_addr h, htx_head_addr := 0, htx_end_addr := 0\<rparr>
                        else h\<lparr>htx_end_addr := uint32 (htx_end_addr h + sz)\<rparr>
                   else h) }) = Some h4 \<and> htx_geo h4"
  proof (cases "hd' = tl'")
    case True
    have L: "hd' \<noteq> p" "htx_head h \<le> hd'" "hd' \<le> htx_tail h" using inn [of hd'] ht True by auto
    define l where "l = htx_bl h hd'"
    have bl: "htx_bl h3 hd' = l" using bq [of hd'] L ht by (simp add: f3 l_def)
    have pll: "(htx_get_blksz l = 0) = (\<not> blk_used l)" "0 \<le> blk_addr l" "blk_addr l + htx_get_blksz l \<le> htx_ptr ?s hd'"
      using plq [OF L(2,3)] by (auto simp: blk_placed_def l_def htx_ptr_def)
    have dl: "htx_data h - sz = htx_get_blksz l"
      using sum' True bl f3 by (simp add: htx_sum_Cons)
    have ar3: "htx_area_ok h3" using ar' [of h3] f3 len by simp
    have rl: "blk_rd h3 (htx_get_blk h3 (htx_tail h3)) = Some l"
      using htx_get_blk_eq [OF ar3, of hd'] blk_rd_eq [OF ar3, of hd'] ht lt8 True bl by (simp add: f3)
    have u: "uint32 (blk_addr l + (htx_data h - sz)) = blk_addr l + (htx_data h - sz)"
      using pll s dl ht by (intro uint32_small) (auto simp: htx_ptr_def)
    have g4: "htx_geo h4"
    proof -
      have f4: "htx_size h4 = ?s" "htx_mem h4 = m'" "htx_head h4 = hd'" "htx_tail h4 = hd'" "htx_data h4 = htx_data h - sz"
        "htx_head_addr h4 = 0" "htx_end_addr h4 = blk_addr l" "htx_tail_addr h4 = blk_addr l + (htx_data h - sz)"
        using True by (simp_all add: h4_def f3 l_def)
      have bl4: "blk_in m' ?s hd' = l" using bl by (simp add: f3)
      have ar4: "htx_area_ok h4" using ar' [of h4] f4 len by simp
      have nn: "htx_get_blksz l = 0 \<or> 0 < htx_get_blksz l" by (auto simp: order_less_le)
      have r4: "htx_rooms_ok h4"
        unfolding htx_rooms_ok_def f4 using pll ht lt8 dl True nn db by (auto simp: htx_ptr_def)
      have b4: "htx_blks_ok h4"
        unfolding htx_blks_ok_def f4 using pll dl bl4 by (auto simp: blk_placed_def htx_ptr_def)
      show ?thesis using ar4 r4 b4 dl ht bl4 by (simp add: htx_geo_def f4 htx_sum_Cons)
    qed
    have "h4 = h3\<lparr>htx_head_addr := 0, htx_end_addr := blk_addr l, htx_tail_addr := blk_addr l + (htx_data h - sz)\<rparr>"
      using True by (simp add: h4_def l_def)
    then show ?thesis using True g4 rl u f3 by simp
  next
    case False
    obtain ha ea ta where sh: "htx_shrink (htx_head_addr h) (htx_end_addr h) (htx_tail_addr h) ad sz = (ha, ea, ta)"
      by (metis prod_cases3)
    note ok = htx_shrink_ok [OF rm(1-3) rm(5) plp(2) sz0 plp(4) sh]
    have h4: "h4 = h3\<lparr>htx_head_addr := ha, htx_end_addr := ea, htx_tail_addr := ta\<rparr>" using False by (simp add: h4_def sh)
    have f4: "htx_size h4 = ?s" "htx_mem h4 = m'" "htx_head h4 = hd'" "htx_tail h4 = tl'" "htx_data h4 = htx_data h - sz"
      "htx_head_addr h4 = ha" "htx_end_addr h4 = ea" "htx_tail_addr h4 = ta" by (simp_all add: h4 f3)
    have g4: "htx_geo h4"
    proof -
      have ar4: "htx_area_ok h4" using ar' [of h4] f4 len by simp
      have r4: "htx_rooms_ok h4"
        unfolding htx_rooms_ok_def f4 using ok(1) rm ht lt8 db by (auto simp: htx_ptr_def)
      have blk: "blk_in m' ?s q = htx_bl h q \<and> q \<noteq> p \<and> htx_head h \<le> q \<and> q \<le> htx_tail h \<or> \<not> blk_used (blk_in m' ?s q) \<and> q = p"
        if "hd' \<le> q" "q \<le> tl'" for q
        using inn [OF that] bq [of q] bp that ht by auto
      have pu: "blk_placed ?s ha ea ta p (blk_in m' ?s p)" 
      proof -
        have "blk_addr (blk_in m' ?s p) = ad"
          unfolding m'_def using blk_in_set_info [OF pt(1) pp(1) s(3) pp(1) pt(1), of "push_bit 28 HTX_BLK_UNUSED"]
          by (simp add: ad_def b_def)
        moreover have "htx_get_blksz (blk_in m' ?s p) = 0"
        proof (cases "blk_used b")
          case True
          then have "blk_in m' ?s p = b\<lparr>blk_info := push_bit 28 HTX_BLK_UNUSED\<rparr>"
            unfolding m'_def b_def using pt s pp by (simp add: blk_in_set_info)
          moreover have "htx_get_blksz \<lparr>blk_addr = x, blk_info = push_bit 28 HTX_BLK_UNUSED\<rparr> = 0" for x
            by (simp add: htx_get_blksz_def htx_get_blk_type_def)
          ultimately show ?thesis by (cases b) simp
        qed (use plp(1) in \<open>simp add: m'_def b_def sz_def\<close>)
        ultimately show ?thesis using bp plp(2,3) sz0 by (simp add: blk_placed_def htx_ptr_def)
      qed
      have plc: "blk_placed ?s ha ea ta q (blk_in m' ?s q)" if q: "hd' \<le> q" "q \<le> tl'" for q
      proof (cases "q = p")
        case False
        then have e: "blk_in m' ?s q = htx_bl h q" and qh: "htx_head h \<le> q" "q \<le> htx_tail h" using blk [OF q] by auto
        have ap: "blk_apart (htx_bl h q) b" using bo qh hp False unfolding htx_blks_ok_def b_def by simp
        have pq: "blk_placed ?s (htx_head_addr h) (htx_end_addr h) (htx_tail_addr h) q (htx_bl h q)" by (rule plq [OF qh])
        show ?thesis
        proof (cases "blk_used (htx_bl h q)")
          case True
          then have k: "0 < htx_get_blksz (htx_bl h q)"
            using pq htx_get_blksz_nonneg [of "htx_bl h q"] by (auto simp: blk_placed_def order_less_le)
          have "sz = 0 \<or> ad + sz \<le> blk_addr (htx_bl h q) \<or> blk_addr (htx_bl h q) + htx_get_blksz (htx_bl h q) \<le> ad"
            using ap True plp(1) by (auto simp: blk_apart_def sz_def ad_def)
          then show ?thesis using ok(2) [OF _ k, of "blk_addr (htx_bl h q)"] pq True by (simp add: e blk_placed_def)
        qed (use pq e in \<open>simp add: blk_placed_def\<close>)
      qed (use pu in simp)
      have apq: "blk_apart (blk_in m' ?s q) (blk_in m' ?s y)" if "hd' \<le> q" "q \<le> tl'" "hd' \<le> y" "y \<le> tl'" "q \<noteq> y" for q y
      proof (cases "blk_used (blk_in m' ?s q) \<and> blk_used (blk_in m' ?s y)")
        case True
        then have e: "blk_in m' ?s q = htx_bl h q" "blk_in m' ?s y = htx_bl h y"
          and m: "q \<in> set [htx_head h..htx_tail h]" "y \<in> set [htx_head h..htx_tail h]"
          using blk [OF that(1,2)] blk [OF that(3,4)] by auto
        show ?thesis using bo m that(5) unfolding htx_blks_ok_def e by blast
      qed (auto simp: blk_apart_def)
      have b4: "htx_blks_ok h4" unfolding htx_blks_ok_def f4 using plc apq by simp
      show ?thesis using ar4 r4 b4 sum' ht by (simp add: htx_geo_def f4)
    qed
    define ta1 where "ta1 = (if ad + sz = htx_tail_addr h then ad else htx_tail_addr h)"
    define ha1 where "ha1 = (if ad + sz = htx_tail_addr h then htx_head_addr h else if ad + sz = htx_head_addr h then ad else htx_head_addr h)"
    have rn: "(if uint32 (ad + sz) = htx_tail_addr h3 then h3\<lparr>htx_tail_addr := ad\<rparr>
                      else if uint32 (ad + sz) = htx_head_addr h3 then h3\<lparr>htx_head_addr := ad\<rparr> else h3) =
        h3\<lparr>htx_head_addr := ha1, htx_tail_addr := ta1\<rparr>"
      using f3 by (cases h3) (simp add: adb(3) ta1_def ha1_def)
    have sh1: "(ha, ea, ta) = (if ad = htx_end_addr h then if ta1 = htx_end_addr h then (0, 0, ha1) else (ha1, htx_end_addr h + sz, ta1)
        else (ha1, htx_end_addr h, ta1))"
      unfolding sh [symmetric] by (simp add: htx_shrink_def Let_def ta1_def ha1_def)
    have ue: "uint32 (ad + sz) = ad + sz" by (rule adb(3))
    have "(let h = (if uint32 (ad + sz) = htx_tail_addr h3 then h3\<lparr>htx_tail_addr := ad\<rparr>
                      else if uint32 (ad + sz) = htx_head_addr h3 then h3\<lparr>htx_head_addr := ad\<rparr> else h3)
           in Some (if ad = htx_end_addr h
                   then if htx_tail_addr h = htx_end_addr h
                        then h\<lparr>htx_tail_addr := htx_head_addr h, htx_head_addr := 0, htx_end_addr := 0\<rparr>
                        else h\<lparr>htx_end_addr := uint32 (htx_end_addr h + sz)\<rparr>
                   else h)) = Some h4"
    proof (cases "ad = htx_end_addr h")
      case True
      then show ?thesis
        using sh1 ue f3(6-8) unfolding rn Let_def h4
        by (cases "ta1 = htx_end_addr h") (cases h3, simp)+
    next
      case False
      then show ?thesis using sh1 f3(6-8) unfolding rn Let_def h4 by (cases h3) simp
    qed
    then show ?thesis using g4 False by (simp add: f3)
  qed
  have f4: "htx_size h4 = ?s" "htx_mem h4 = m'" "htx_head h4 = hd'" "htx_tail h4 = tl'" "htx_data h4 = htx_data h - sz"
    by (auto simp: h4_def f3 split: prod.split)
  have chk: "htx_check h4 = Some ()" using w4 ht f4 by (intro htx_rooms_check) (auto simp: htx_geo_def)
  have "htx_remove_blk h (htx_ptr ?s p) = Some (h4, r')"
  proof -
    have "htx_remove_blk h (htx_ptr ?s p) = do { h \<leftarrow> Some h4; htx_check h; Some (h, r') }"
      unfolding htx_remove_blk_def Let_def
      by (simp only: rdp gpos bind.bind_lunit sz_def [symmetric] ad_def [symmetric] w1 w2 [unfolded Let_def] w3 prod.case
        h3_def [symmetric] w4 [THEN conjunct1, unfolded Let_def] hp(1) if_False less_imp_neq [OF hp(2)])
    then show ?thesis by (simp add: chk)
  qed
  then show ?thesis
    using w4 f4 len bq bp pay
    by (intro exI [of _ h4]) (simp add: r'_def hd'_def tl'_def sz_def b_def)
qed

section \<open>Removing, writing, resizing: the message\<close>

lemma htx_part_empty [simp]: "b < a \<Longrightarrow> htx_part m s a b = []"
  by (simp add: htx_part_def)

lemma htx_geoD:
  assumes "htx_geo h" and "htx_head h \<noteq> -1"
  shows "htx_area_ok h" and "htx_rooms_ok h" and "htx_blks_ok h" and "0 \<le> htx_head h" and "htx_head h \<le> htx_tail h"
    and "8 * (htx_tail h + 1) < htx_size h" and "htx_tail_addr h \<le> htx_ptr (htx_size h) (htx_tail h)"
    and "htx_size h \<le> int (length (htx_mem h))" and "htx_size h < 2147483648"
  using assms by (auto simp: htx_geo_def htx_rooms_ok_def htx_ptr_def htx_area_ok_def)

lemma htx_used_payload:
  assumes "htx_geo h" and "htx_head h \<noteq> -1" and "htx_head h \<le> p" and "p \<le> htx_tail h" and "blk_used (htx_bl h p)"
  shows "0 \<le> blk_addr (htx_bl h p)" and "blk_addr (htx_bl h p) + htx_get_blksz (htx_bl h p) \<le> htx_tail_addr h"
    and "0 < htx_get_blksz (htx_bl h p)"
    and "blk_addr (htx_bl h p) + htx_get_blksz (htx_bl h p) \<le> htx_head_addr h \<or> htx_end_addr h \<le> blk_addr (htx_bl h p)"
proof -
  have "blk_placed (htx_size h) (htx_head_addr h) (htx_end_addr h) (htx_tail_addr h) p (htx_bl h p)"
    using assms by (auto simp: htx_geo_def htx_blks_ok_def)
  moreover have "0 \<le> htx_get_blksz (htx_bl h p)" by simp
  ultimately show "0 \<le> blk_addr (htx_bl h p)" and "blk_addr (htx_bl h p) + htx_get_blksz (htx_bl h p) \<le> htx_tail_addr h"
    and "0 < htx_get_blksz (htx_bl h p)"
    and "blk_addr (htx_bl h p) + htx_get_blksz (htx_bl h p) \<le> htx_head_addr h \<or> htx_end_addr h \<le> blk_addr (htx_bl h p)"
    using assms by (auto simp: blk_placed_def htx_geo_def htx_rooms_ok_def order_less_le)
qed

text \<open>A part whose descriptors and payloads are the same in another area.\<close>

lemma htx_part_same:
  assumes geo: "htx_geo h" "htx_head h \<noteq> -1" and ab: "htx_head h \<le> a" "b \<le> htx_tail h"
    and bq: "\<And>q. a \<le> q \<Longrightarrow> q \<le> b \<Longrightarrow> blk_in m (htx_size h) q = htx_bl h q"
    and pay: "\<And>x k. 0 \<le> x \<Longrightarrow> x + k \<le> htx_tail_addr h \<Longrightarrow> bs m x k = bs (htx_mem h) x k"
  shows "htx_part m (htx_size h) a b = htx_part (htx_mem h) (htx_size h) a b"
proof (rule htx_part_cong)
  fix q assume q: "a \<le> q" "q \<le> b"
  show e: "blk_in m (htx_size h) q = htx_bl h q" using bq q .
  assume "blk_used (blk_in m (htx_size h) q)"
  then show "blk_entry m (blk_in m (htx_size h) q) = blk_entry (htx_mem h) (blk_in m (htx_size h) q)"
    using htx_used_payload [OF geo, of q] q ab by (simp add: e blk_entry_def pay)
qed

lemma htx_remove_msg:
  assumes geo: "htx_geo h" and hp: "htx_head h \<noteq> -1" "htx_head h \<le> p" "p \<le> htx_tail h"
  shows "\<exists>h' r. htx_remove_blk h (htx_ptr (htx_size h) p) = Some (h', r) \<and> htx_geo h' \<and> htx_size h' = htx_size h \<and>
    length (htx_mem h') = length (htx_mem h) \<and> htx_data h' = htx_data h - htx_get_blksz (htx_bl h p) \<and>
    htx_msg h' = htx_part (htx_mem h) (htx_size h) (htx_head h) (p - 1) @ htx_part (htx_mem h) (htx_size h) (p + 1) (htx_tail h) \<and>
    (if htx_head h = htx_tail h then r = None \<and> htx_head h' = -1
     else htx_head h' = (if p = htx_head h then htx_head h + 1 else htx_head h) \<and> htx_head h' \<noteq> -1 \<and>
       htx_tail h' = (if p \<noteq> htx_head h \<and> p = htx_tail h then htx_tail h - 1 else htx_tail h) \<and>
       r = (if p = htx_head h \<or> p \<noteq> htx_tail h then Some (htx_ptr (htx_size h) (p + 1)) else None) \<and>
       (\<forall>x y. htx_head h' \<le> x \<longrightarrow> y \<le> htx_tail h' \<longrightarrow> p < x \<or> y < p \<longrightarrow>
          htx_part (htx_mem h') (htx_size h) x y = htx_part (htx_mem h) (htx_size h) x y) \<and>
       (\<forall>q. htx_head h' \<le> q \<longrightarrow> q \<le> htx_tail h' \<longrightarrow> q \<noteq> p \<longrightarrow> htx_bl h' q = htx_bl h q))"
proof (cases "htx_head h = htx_tail h")
  case True
  have f: "htx_sum (htx_mem h) (htx_size h) [p..p] = htx_data h"
    using geo hp True by (simp add: htx_geo_def)
  have "htx_remove_blk h (htx_ptr (htx_size h) p) = Some ((htx_reset h)\<lparr>htx_flags := htx_flags h AND NOT HTX_FL_FRAGMENTED\<rparr>, None)"
    using hp True by (simp add: htx_remove_blk_def)
  moreover have "htx_data h = htx_get_blksz (htx_bl h p)" using f by (simp add: htx_sum_Cons)
  ultimately show ?thesis
    using htx_reset_geo [OF geo] hp True
    by (intro exI [of _ "(htx_reset h)\<lparr>htx_flags := htx_flags h AND NOT HTX_FL_FRAGMENTED\<rparr>"] exI [of _ None])
      (simp add: htx_reset_def htx_msg_def)
next
  case False
  note g = htx_geoD [OF geo hp(1)]
  have lt: "htx_head h < htx_tail h" using False g by simp
  obtain h' where r: "htx_remove_blk h (htx_ptr (htx_size h) p) =
      Some (h', if p = htx_head h \<or> p \<noteq> htx_tail h then Some (htx_ptr (htx_size h) (p + 1)) else None)"
    and f: "htx_geo h'" "htx_size h' = htx_size h" "length (htx_mem h') = length (htx_mem h)"
    "htx_head h' = (if p = htx_head h then htx_head h + 1 else htx_head h)"
    "htx_tail h' = (if p \<noteq> htx_head h \<and> p = htx_tail h then htx_tail h - 1 else htx_tail h)"
    "htx_data h' = htx_data h - htx_get_blksz (htx_bl h p)"
    and bq: "\<And>q. 0 \<le> q \<Longrightarrow> q \<le> htx_tail h \<Longrightarrow> q \<noteq> p \<Longrightarrow> htx_bl h' q = htx_bl h q"
    and bp: "\<not> blk_used (htx_bl h' p)"
    and pay: "\<And>a k. 0 \<le> a \<Longrightarrow> a + k \<le> htx_ptr (htx_size h) (htx_tail h) \<Longrightarrow> bs (htx_mem h') a k = bs (htx_mem h) a k"
    using htx_remove_blk_ok [OF geo hp(1) lt hp(2,3)] by blast
  have same: "htx_part (htx_mem h') (htx_size h) x y = htx_part (htx_mem h) (htx_size h) x y"
    if "htx_head h \<le> x" "y \<le> htx_tail h" "p < x \<or> y < p" for x y
    by (rule htx_part_same [OF geo hp(1) that(1,2)]) (use bq pay that g f(2) in auto)
  have hd: "htx_head h' \<noteq> -1" using f(4) g by auto
  have msg: "htx_msg h' = htx_part (htx_mem h) (htx_size h) (htx_head h) (p - 1) @ htx_part (htx_mem h) (htx_size h) (p + 1) (htx_tail h)"
  proof -
    consider "p = htx_head h" | "p \<noteq> htx_head h" "p = htx_tail h" | "htx_head h < p" "p < htx_tail h" using hp by linarith
    then show ?thesis
    proof cases
      case 1
      then show ?thesis using same [of "p + 1" "htx_tail h"] hd by (simp add: htx_msg_def f)
    next
      case 2
      then show ?thesis using same [of "htx_head h" "p - 1"] hd by (simp add: htx_msg_def f)
    next
      case 3
      then show ?thesis using same [of "htx_head h" "p - 1"] same [of "p + 1" "htx_tail h"] hd bp f(2)
        htx_part_split [of "htx_head h" p "htx_tail h" "htx_mem h'" "htx_size h"]
        by (simp add: htx_msg_def f(4,5))
    qed
  qed
  show ?thesis
    by (intro exI [of _ h'] exI conjI, rule r) (use f msg hd False same bq g in auto)
qed

text \<open>Writing into free space.\<close>

lemma htx_write_free:
  assumes wf: "htx_geo h" "htx_head h \<noteq> -1" and x: "0 \<le> x" "x + int (length xs) \<le> htx_ptr (htx_size h) (htx_tail h)"
    and free: "\<And>q. htx_head h \<le> q \<Longrightarrow> q \<le> htx_tail h \<Longrightarrow> blk_used (htx_bl h q) \<Longrightarrow>
      x + int (length xs) \<le> blk_addr (htx_bl h q) \<or> blk_addr (htx_bl h q) + htx_get_blksz (htx_bl h q) \<le> x"
  defines "h' \<equiv> h\<lparr>htx_mem := blit (htx_mem h) (nat x) xs\<rparr>"
  shows "blk_write h x xs = Some h'" and "htx_geo h'" and "\<And>q. htx_head h \<le> q \<Longrightarrow> q \<le> htx_tail h \<Longrightarrow> htx_bl h' q = htx_bl h q"
    and "\<And>a b. htx_head h \<le> a \<Longrightarrow> b \<le> htx_tail h \<Longrightarrow> htx_part (htx_mem h') (htx_size h) a b = htx_part (htx_mem h) (htx_size h) a b"
    and "bs (htx_mem h') x (int (length xs)) = xs"
    and "\<And>a k. 0 \<le> a \<Longrightarrow> a + k \<le> x \<or> x + int (length xs) \<le> a \<Longrightarrow> bs (htx_mem h') a k = bs (htx_mem h) a k"
    and "length (htx_mem h') = length (htx_mem h)"
proof -
  note g = htx_geoD [OF wf]
  have b: "x + int (length xs) \<le> int (length (htx_mem h))" using x g by (simp add: htx_ptr_def)
  show "blk_write h x xs = Some h'" unfolding h'_def using x b by (simp add: blk_write_def mwr_Some)
  show len: "length (htx_mem h') = length (htx_mem h)" using x b by (simp add: h'_def)
  show bq: "htx_bl h' q = htx_bl h q" if "htx_head h \<le> q" "q \<le> htx_tail h" for q
  proof -
    have "blk_in (blit (htx_mem h) (nat x) xs) (htx_size h) q = htx_bl h q"
      using that g x by (intro blk_in_blit_below) (auto simp: htx_ptr_def)
    then show ?thesis by (simp add: h'_def)
  qed
  show bs: "bs (htx_mem h') a k = bs (htx_mem h) a k" if "0 \<le> a" "a + k \<le> x \<or> x + int (length xs) \<le> a" for a k
    unfolding h'_def htx.select_convs htx.update_convs using x b that by (simp, intro bs_blit_other) auto
  show "bs (htx_mem h') x (int (length xs)) = xs" using x b by (simp add: h'_def bs_blit_same)
  show "htx_part (htx_mem h') (htx_size h) a y = htx_part (htx_mem h) (htx_size h) a y" if "htx_head h \<le> a" "y \<le> htx_tail h" for a y
  proof (rule htx_part_cong)
    fix q assume q: "a \<le> q" "q \<le> y"
    then have q': "htx_head h \<le> q" "q \<le> htx_tail h" using that by auto
    show e: "blk_in (htx_mem h') (htx_size h) q = htx_bl h q" using bq [OF q'] by (simp add: h'_def)
    assume "blk_used (blk_in (htx_mem h') (htx_size h) q)"
    then have u: "blk_used (htx_bl h q)" by (simp add: e)
    then show "blk_entry (htx_mem h') (blk_in (htx_mem h') (htx_size h) q) = blk_entry (htx_mem h) (blk_in (htx_mem h') (htx_size h) q)"
      using bs [of "blk_addr (htx_bl h q)" "htx_get_blksz (htx_bl h q)"] free [OF q' u] htx_used_payload(1) [OF wf q' u]
      by (auto simp: e blk_entry_def)
  qed
  show "htx_geo h'"
  proof -
    have e: "blk_in (htx_mem h') (htx_size h) q = htx_bl h q" if "q \<in> set [htx_head h..htx_tail h]" for q
      using bq [of q] that by (simp add: h'_def)
    have "htx_sum (htx_mem h') (htx_size h) [htx_head h..htx_tail h] = htx_sum (htx_mem h) (htx_size h) [htx_head h..htx_tail h]"
      by (rule htx_sum_cong) (simp only: e)
    moreover have "htx_blks_ok h' = htx_blks_ok h"
      unfolding htx_blks_ok_def using bq by (simp add: h'_def)
    moreover have "htx_area_ok h'" using g len by (simp add: htx_area_ok_def h'_def)
    ultimately show ?thesis using wf by (simp add: htx_geo_def h'_def)
  qed
qed

section \<open>Resizing a block\<close>

lemma htx_geo_replace:
  assumes geo: "htx_geo h" "htx_head h \<noteq> -1" and p: "htx_head h \<le> p" "p \<le> htx_tail h"
    and h2: "htx_area_ok h2" "htx_size h2 = htx_size h" "htx_head h2 = htx_head h" "htx_tail h2 = htx_tail h" "htx_rooms_ok h2"
      "htx_data h2 = htx_data h - htx_get_blksz (htx_bl h p) + htx_get_blksz (htx_bl h2 p)"
    and bq: "\<And>q. htx_head h \<le> q \<Longrightarrow> q \<le> htx_tail h \<Longrightarrow> q \<noteq> p \<Longrightarrow> htx_bl h2 q = htx_bl h q"
    and pp: "blk_placed (htx_size h) (htx_head_addr h2) (htx_end_addr h2) (htx_tail_addr h2) p (htx_bl h2 p)"
    and pq: "\<And>q. htx_head h \<le> q \<Longrightarrow> q \<le> htx_tail h \<Longrightarrow> q \<noteq> p \<Longrightarrow> blk_used (htx_bl h q) \<Longrightarrow>
      (blk_addr (htx_bl h q) + htx_get_blksz (htx_bl h q) \<le> htx_head_addr h2 \<or>
       htx_end_addr h2 \<le> blk_addr (htx_bl h q) \<and> blk_addr (htx_bl h q) + htx_get_blksz (htx_bl h q) \<le> htx_tail_addr h2) \<and>
      blk_apart (htx_bl h2 p) (htx_bl h q)"
  shows "htx_geo h2"
proof -
  have b: "htx_blks_ok h" and sum: "htx_data h = htx_sum (htx_mem h) (htx_size h) [htx_head h..htx_tail h]"
    using geo by (auto simp: htx_geo_def)
  have e: "blk_in (htx_mem h2) (htx_size h) q = htx_bl h q" if "htx_head h \<le> q" "q \<le> htx_tail h" "q \<noteq> p" for q
    using bq [OF that] h2(2) by simp
  have sm: "htx_sum (htx_mem h2) (htx_size h) [htx_head h..htx_tail h] = htx_data h2"
  proof -
    have "htx_sum (htx_mem h2) (htx_size h) [htx_head h..p - 1] = htx_sum (htx_mem h) (htx_size h) [htx_head h..p - 1]"
      and "htx_sum (htx_mem h2) (htx_size h) [p + 1..htx_tail h] = htx_sum (htx_mem h) (htx_size h) [p + 1..htx_tail h]"
      by (rule htx_sum_cong; use e p in simp)+
    then show ?thesis using htx_sum_split [OF p, of "htx_mem h2" "htx_size h"] htx_sum_split [OF p, of "htx_mem h" "htx_size h"]
      h2(6) sum by (simp add: h2(2))
  qed
  have pl: "blk_placed (htx_size h) (htx_head_addr h2) (htx_end_addr h2) (htx_tail_addr h2) q (htx_bl h2 q)"
    if q: "htx_head h \<le> q" "q \<le> htx_tail h" for q
  proof (cases "q = p")
    case False
    have "blk_placed (htx_size h) (htx_head_addr h) (htx_end_addr h) (htx_tail_addr h) q (htx_bl h q)"
      using b q by (auto simp: htx_blks_ok_def)
    then show ?thesis using pq [OF q False] bq [OF q False] by (auto simp: blk_placed_def)
  qed (use pp in simp)
  have ap: "blk_apart (htx_bl h2 q) (htx_bl h2 r)"
    if q: "htx_head h \<le> q" "q \<le> htx_tail h" and r: "htx_head h \<le> r" "r \<le> htx_tail h" and ne: "q \<noteq> r" for q r
  proof -
    consider "q = p" | "r = p" | "q \<noteq> p" "r \<noteq> p" by blast
    then show ?thesis
    proof cases
      case 1
      then show ?thesis using bq [OF r] pq [OF r] ne by (cases "blk_used (htx_bl h r)") (auto simp: blk_apart_def)
    next
      case 2
      then show ?thesis using bq [OF q] pq [OF q] ne by (cases "blk_used (htx_bl h q)") (auto simp: blk_apart_def)
    next
      case 3
      have "q \<in> set [htx_head h..htx_tail h]" "r \<in> set [htx_head h..htx_tail h]" using q r by auto
      then have "blk_apart (htx_bl h q) (htx_bl h r)" using b ne unfolding htx_blks_ok_def by blast
      then show ?thesis using bq [OF q 3(1)] bq [OF r 3(2)] by simp
    qed
  qed
  have "htx_blks_ok h2" unfolding htx_blks_ok_def h2(2-4) using pl ap h2(2) by simp
  then show ?thesis using geo(2) h2 sm by (simp add: htx_geo_def)
qed

lemma uint_low_data: "htx_get_blk_type b \<noteq> HTX_BLK_HDR \<Longrightarrow> htx_get_blk_type b \<noteq> HTX_BLK_TLR \<Longrightarrow>
    uint (blk_info b AND 0xfffffff) = htx_get_blksz b"
  by (simp add: htx_get_blksz_def Let_def)

lemma htx_change_data_len:
  assumes b: "blk_rd h blk = Some b" and ty: "htx_get_blk_type b = HTX_BLK_DATA"
    and si: "blk_set_info h blk (info_of HTX_BLK_DATA n) = Some h1"
  shows "htx_change_blk_value_len h blk n =
    (let sz = htx_get_blksz b; delta = to_int32 (n - sz); h = h1\<lparr>htx_data := uint32 (htx_data h1 + delta)\<rparr> in
     Some (if uint32 (blk_addr b + sz) = htx_tail_addr h then h\<lparr>htx_tail_addr := uint32 (htx_tail_addr h + delta)\<rparr>
           else if uint32 (blk_addr b + sz) = htx_head_addr h then h\<lparr>htx_head_addr := uint32 (htx_head_addr h + delta)\<rparr>
           else h))"
proof -
  have ol: "uint (blk_info b AND 0xfffffff) = htx_get_blksz b" using ty by (simp add: uint_low_data)
  have ne: "(HTX_BLK_DATA = HTX_BLK_HDR) = False" "(HTX_BLK_DATA = HTX_BLK_TLR) = False" by simp_all
  show ?thesis
    unfolding htx_change_blk_value_len_def b bind.bind_lunit Let_def ty ne simp_thms if_False prod.case push_type_add si ol ..
qed

lemma htx_change_blk_value_len_ok:
  assumes geo: "htx_geo h" "htx_head h \<noteq> -1" and p: "htx_head h \<le> p" "p \<le> htx_tail h" and u: "blk_used (htx_bl h p)"
    and ty: "htx_get_blk_type (htx_bl h p) = HTX_BLK_DATA" and n: "0 < n" "n < 268435456"
    and d: "sz = htx_get_blksz (htx_bl h p)" "ad = blk_addr (htx_bl h p)"
    and tight: "htx_end_addr h = 0 \<or> htx_end_addr h < htx_tail_addr h"
    and fit: "n \<le> sz \<or> htx_data h + (n - sz) + 8 * (htx_tail h + 1 - htx_head h) \<le> htx_size h \<and>
       (ad + sz = htx_tail_addr h \<and> ad + n \<le> htx_ptr (htx_size h) (htx_tail h) \<or>
        ad + sz \<noteq> htx_tail_addr h \<and> ad + sz = htx_head_addr h \<and> ad + n \<le> htx_end_addr h)"
  shows "\<exists>h'. htx_change_blk_value_len h (htx_ptr (htx_size h) p) n = Some h' \<and> htx_wf h' \<and> htx_size h' = htx_size h \<and>
    length (htx_mem h') = length (htx_mem h) \<and> htx_head h' = htx_head h \<and> htx_tail h' = htx_tail h \<and>
    htx_data h' = htx_data h - sz + n \<and>
    htx_bl h' p = \<lparr>blk_addr = ad, blk_info = info_of HTX_BLK_DATA n\<rparr> \<and>
    (\<forall>q. htx_head h \<le> q \<longrightarrow> q \<le> htx_tail h \<longrightarrow> q \<noteq> p \<longrightarrow> htx_bl h' q = htx_bl h q) \<and>
    (\<forall>x y. htx_head h \<le> x \<longrightarrow> y \<le> htx_tail h \<longrightarrow> p < x \<or> y < p \<longrightarrow>
       htx_part (htx_mem h') (htx_size h) x y = htx_part (htx_mem h) (htx_size h) x y) \<and>
    htx_msg h' = htx_part (htx_mem h) (htx_size h) (htx_head h) (p - 1) @ (info_of HTX_BLK_DATA n, bs (htx_mem h) ad n) #
      htx_part (htx_mem h) (htx_size h) (p + 1) (htx_tail h)"
proof -
  let ?s = "htx_size h"
  note g = htx_geoD [OF geo] and up = htx_used_payload [OF geo p u]
  have pp: "0 \<le> p" "8 * (p + 1) \<le> ?s" using p g by auto
  have pt: "0 \<le> htx_ptr ?s p" "htx_ptr ?s p + 8 \<le> ?s" "htx_ptr ?s (htx_tail h) \<le> htx_ptr ?s p" using pp p by (auto simp: htx_ptr_def)
  have rm: "0 \<le> htx_head_addr h" "htx_head_addr h \<le> htx_end_addr h" "htx_end_addr h \<le> htx_tail_addr h"
    using g by (auto simp: htx_rooms_ok_def)
  have a: "0 \<le> ad" "ad + sz \<le> htx_tail_addr h" "0 < sz" "ad + sz \<le> htx_head_addr h \<or> htx_end_addr h \<le> ad"
    using up by (simp_all add: d)
  have d0: "0 \<le> htx_data h - sz" 
    using htx_sum_split [OF p, of "htx_mem h" ?s] geo htx_sum_nonneg [of "htx_mem h" ?s "[htx_head h..p - 1]"]
      htx_sum_nonneg [of "htx_mem h" ?s "[p + 1..htx_tail h]"] by (simp add: htx_geo_def d)
  have db: "htx_data h - sz + n + 8 * (htx_tail h + 1 - htx_head h) \<le> ?s" using fit g by (auto simp: htx_rooms_ok_def)
  define m where "m = blit (htx_mem h) (nat (htx_ptr ?s p + 4)) (w32_bytes (info_of HTX_BLK_DATA n))"
  have rdp: "blk_rd h (htx_ptr ?s p) = Some (htx_bl h p)" by (rule blk_rd_eq [OF g(1) pp])
  have si: "blk_set_info h (htx_ptr ?s p) (info_of HTX_BLK_DATA n) = Some (h\<lparr>htx_mem := m\<rparr>)"
    unfolding m_def by (rule blk_set_info_eq [OF g(1) pp])
  have len: "length m = length (htx_mem h)" unfolding m_def using pt g by (intro length_blit_int) auto
  have bm: "blk_in m ?s q = (if q = p then (htx_bl h p)\<lparr>blk_info := info_of HTX_BLK_DATA n\<rparr> else htx_bl h q)"
    if "0 \<le> q" "q \<le> htx_tail h" for q
    unfolding m_def using that pt pp g by (intro blk_in_set_info) (auto simp: htx_ptr_def)
  have bp: "blk_in m ?s p = \<lparr>blk_addr = ad, blk_info = info_of HTX_BLK_DATA n\<rparr>"
    using bm [of p] pp p d by (cases "htx_bl h p") simp
  have pay: "bs m x k = bs (htx_mem h) x k" if "0 \<le> x" "x + k \<le> htx_ptr ?s (htx_tail h)" for x k
    unfolding m_def using that pt g by (intro bs_blit_other) auto
  have ol: "uint (blk_info (htx_bl h p) AND 0xfffffff) = sz" using ty d by (simp add: uint_low_data)
  have de: "to_int32 (n - sz) = n - sz" using n a(3) htx_get_blksz_bounds [of "htx_bl h p"] by (intro to_int32_small) (auto simp: d)
  have u1: "uint32 (htx_data h + (n - sz)) = htx_data h - sz + n"
    using d0 db n g by (subst uint32_small) auto
  have u2: "uint32 (ad + sz) = ad + sz" using a g by (intro uint32_small) (auto simp: htx_ptr_def)
  define ta where "ta = (if ad + sz = htx_tail_addr h then htx_tail_addr h + (n - sz) else htx_tail_addr h)"
  define ha where "ha = (if ad + sz = htx_tail_addr h then htx_head_addr h
    else if ad + sz = htx_head_addr h then htx_head_addr h + (n - sz) else htx_head_addr h)"
  have u3: "ad + sz = htx_tail_addr h \<Longrightarrow> uint32 (htx_tail_addr h + (n - sz)) = htx_tail_addr h + (n - sz)"
    using a n fit g by (intro uint32_small) (auto simp: htx_ptr_def)
  have u4: "ad + sz = htx_head_addr h \<Longrightarrow> ad + sz \<noteq> htx_tail_addr h \<Longrightarrow> uint32 (htx_head_addr h + (n - sz)) = htx_head_addr h + (n - sz)"
    using a n fit g rm by (intro uint32_small) (auto simp: htx_ptr_def)
  define h' where "h' = h\<lparr>htx_mem := m, htx_data := htx_data h - sz + n, htx_tail_addr := ta, htx_head_addr := ha\<rparr>"
  have run: "htx_change_blk_value_len h (htx_ptr ?s p) n = Some h'"
  proof -
    have "htx_change_blk_value_len h (htx_ptr ?s p) n =
        Some (if uint32 (ad + sz) = htx_tail_addr h
              then h\<lparr>htx_mem := m, htx_data := htx_data h - sz + n, htx_tail_addr := uint32 (htx_tail_addr h + (n - sz))\<rparr>
              else if uint32 (ad + sz) = htx_head_addr h
              then h\<lparr>htx_mem := m, htx_data := htx_data h - sz + n, htx_head_addr := uint32 (htx_head_addr h + (n - sz))\<rparr>
              else h\<lparr>htx_mem := m, htx_data := htx_data h - sz + n\<rparr>)"
      unfolding htx_change_data_len [OF rdp ty si] d [symmetric] de Let_def by (simp add: u1)
    also have "\<dots> = Some h'" using u3 u4 by (cases h) (auto simp: u2 h'_def ta_def ha_def)
    finally show ?thesis .
  qed
  have f: "htx_size h' = ?s" "htx_mem h' = m" "htx_head h' = htx_head h" "htx_tail h' = htx_tail h" "htx_data h' = htx_data h - sz + n"
    "htx_tail_addr h' = ta" "htx_head_addr h' = ha" "htx_end_addr h' = htx_end_addr h" by (simp_all add: h'_def)
  have ar: "htx_area_ok h'" using g(1) len by (simp add: f htx_area_ok_def)
  have z: "htx_get_blksz \<lparr>blk_addr = ad, blk_info = info_of HTX_BLK_DATA n\<rparr> = n"
    by (rule blksz_info_of [where t = HTX_BLK_DATA]) (use n in auto)
  have us: "blk_used \<lparr>blk_addr = ad, blk_info = info_of HTX_BLK_DATA n\<rparr>"
    unfolding blk_used_def using type_info_of [of HTX_BLK_DATA n "\<lparr>blk_addr = ad, blk_info = info_of HTX_BLK_DATA n\<rparr>"] n by simp
  have rs: "htx_rooms_ok h'"
    unfolding htx_rooms_ok_def f ta_def ha_def using rm a n fit tight g db by (auto simp: htx_ptr_def)
  have geo': "htx_geo h'"
  proof (rule htx_geo_replace [OF geo p ar f(1) f(3,4) rs])
    show "htx_data h' = htx_data h - htx_get_blksz (htx_bl h p) + htx_get_blksz (htx_bl h' p)"
      unfolding f bp z d(1) ..
    show "htx_bl h' q = htx_bl h q" if "htx_head h \<le> q" "q \<le> htx_tail h" "q \<noteq> p" for q
      using bm [of q] that g by (simp add: f)
    show "blk_placed ?s (htx_head_addr h') (htx_end_addr h') (htx_tail_addr h') p (htx_bl h' p)"
      unfolding f bp blk_placed_def htx_blk.select_convs z using n us a rm fit tight g pt
      by (auto simp: ta_def ha_def htx_ptr_def)
    fix q assume q: "htx_head h \<le> q" "q \<le> htx_tail h" "q \<noteq> p" "blk_used (htx_bl h q)"
    note uq = htx_used_payload [OF geo q(1,2,4)]
    have "blk_apart (htx_bl h p) (htx_bl h q)" using g(3) p q unfolding htx_blks_ok_def by simp
    then have ap: "ad + sz \<le> blk_addr (htx_bl h q) \<or> blk_addr (htx_bl h q) + htx_get_blksz (htx_bl h q) \<le> ad"
      using u q by (auto simp: blk_apart_def d)
    show "(blk_addr (htx_bl h q) + htx_get_blksz (htx_bl h q) \<le> htx_head_addr h' \<or>
       htx_end_addr h' \<le> blk_addr (htx_bl h q) \<and> blk_addr (htx_bl h q) + htx_get_blksz (htx_bl h q) \<le> htx_tail_addr h') \<and>
      blk_apart (htx_bl h' p) (htx_bl h q)"
      unfolding f bp blk_apart_def htx_blk.select_convs z ta_def ha_def using ap uq a rm fit n by auto
  qed
  have dp: "0 < htx_data h'" using d0 n by (simp add: f)
  have same: "htx_part m ?s x y = htx_part (htx_mem h) ?s x y" if "htx_head h \<le> x" "y \<le> htx_tail h" "p < x \<or> y < p" for x y
    by (rule htx_part_same [OF geo that(1,2)]) (use bm pay that g in auto)
  have adn: "ad + n \<le> htx_ptr ?s (htx_tail h)" using fit a g rm by auto
  have "htx_msg h' = htx_part (htx_mem h) ?s (htx_head h) (p - 1) @ (info_of HTX_BLK_DATA n, bs (htx_mem h) ad n) #
      htx_part (htx_mem h) ?s (p + 1) (htx_tail h)"
    using same [of "htx_head h" "p - 1"] same [of "p + 1" "htx_tail h"] geo(2) htx_part_split [OF p, of m ?s] us bp z pay [OF a(1) adn] p
    by (simp add: htx_msg_def f blk_entry_def)
  then show ?thesis
    using run geo' dp len bp bm same g by (intro exI [of _ h']) (auto simp: htx_wf_def f)
qed

end
