(* ===== verification/HtxData.thy ===== *)
theory HtxData
  imports HtxRemove
begin

unbundle bit_operations_syntax

text \<open>
  HTX messages: cutting a block, and the operations that take data out of a message or append to it.
\<close>

section \<open>Cutting a DATA block\<close>

lemma info_of_blk: "htx_get_blk_type b \<noteq> HTX_BLK_HDR \<Longrightarrow> htx_get_blk_type b \<noteq> HTX_BLK_TLR \<Longrightarrow>
    blk_info b = info_of (htx_get_blk_type b) (htx_get_blksz b)"
proof -
  assume t: "htx_get_blk_type b \<noteq> HTX_BLK_HDR" "htx_get_blk_type b \<noteq> HTX_BLK_TLR"
  have t16: "uint (htx_get_blk_type b) < 16"
  proof -
    have "uint (blk_info b) < 4294967296" using uint_lt2p [of "blk_info b"] by simp
    then show ?thesis unfolding uint_type by simp
  qed
  have "uint (info_of (htx_get_blk_type b) (htx_get_blksz b)) = uint (htx_get_blk_type b) * 268435456 + htx_get_blksz b"
    using t16 htx_get_blksz_bounds [of b] by (intro uint_info_of) auto
  also have "\<dots> = uint (blk_info b)"
    using t by (simp add: uint_type htx_get_blksz_eq)
  finally show ?thesis by (simp add: word_uint_eq_iff)
qed

lemma htx_cut_data_blk_ok:
  assumes geo: "htx_geo h" "htx_head h \<noteq> -1" and p: "htx_head h \<le> p" "p \<le> htx_tail h"
    and ty: "htx_get_blk_type (htx_bl h p) = HTX_BLK_DATA" and n: "0 < n" "n < htx_get_blksz (htx_bl h p)"
    and d: "sz = htx_get_blksz (htx_bl h p)" "ad = blk_addr (htx_bl h p)"
  shows "\<exists>h'. htx_cut_data_blk h (htx_ptr (htx_size h) p) n = Some h' \<and> htx_wf h' \<and> htx_size h' = htx_size h \<and>
    length (htx_mem h') = length (htx_mem h) \<and> htx_head h' = htx_head h \<and> htx_tail h' = htx_tail h \<and>
    htx_data h' = htx_data h - n \<and>
    htx_msg h' = htx_part (htx_mem h) (htx_size h) (htx_head h) (p - 1) @
      (info_of HTX_BLK_DATA (sz - n), bs (htx_mem h) (ad + n) (sz - n)) # htx_part (htx_mem h) (htx_size h) (p + 1) (htx_tail h)"
proof -
  let ?s = "htx_size h"
  have u: "blk_used (htx_bl h p)" using ty by (simp add: blk_used_def)
  note g = htx_geoD [OF geo] and up = htx_used_payload [OF geo p u]
  have pp: "0 \<le> p" "8 * (p + 1) \<le> ?s" using p g by auto
  have pt: "0 \<le> htx_ptr ?s p" "htx_ptr ?s p + 8 \<le> ?s" "htx_ptr ?s (htx_tail h) \<le> htx_ptr ?s p" using pp p by (auto simp: htx_ptr_def)
  have rm: "0 \<le> htx_head_addr h" "htx_head_addr h \<le> htx_end_addr h" "htx_end_addr h \<le> htx_tail_addr h"
    using g by (auto simp: htx_rooms_ok_def)
  have a: "0 \<le> ad" "ad + sz \<le> htx_tail_addr h" "0 < sz" "ad + sz \<le> htx_head_addr h \<or> htx_end_addr h \<le> ad"
    using up by (simp_all add: d)
  have nn: "0 < n" "n < sz" "sz < 268435456" using n htx_get_blksz_bounds [of "htx_bl h p"] by (auto simp: d)
  have ds: "sz \<le> htx_data h"
    using htx_sum_split [OF p, of "htx_mem h" ?s] geo htx_sum_nonneg [of "htx_mem h" ?s "[htx_head h..p - 1]"]
      htx_sum_nonneg [of "htx_mem h" ?s "[p + 1..htx_tail h]"] by (simp add: htx_geo_def d)
  have db: "htx_data h + 8 * (htx_tail h + 1 - htx_head h) \<le> ?s" using g by (auto simp: htx_rooms_ok_def)
  define ea where "ea = (if ad = htx_end_addr h then htx_end_addr h + n else htx_end_addr h)"
  have i': "blk_info (htx_bl h p) - word_of_int n = info_of HTX_BLK_DATA (sz - n)"
    using info_of_blk [of "htx_bl h p"] ty by (simp add: info_of_def d algebra_simps)
  have u1: "ad = htx_end_addr h \<Longrightarrow> uint32 (ad + n) = ad + n" "uint32 (ad + n) = ad + n" "uint32 (htx_data h - n) = htx_data h - n"
    using a nn g ds db by (auto intro!: uint32_small simp: htx_ptr_def)
  define m1 where "m1 = blit (htx_mem h) (nat (htx_ptr ?s p)) (w32_bytes (word_of_int (ad + n)))"
  define m where "m = blit m1 (nat (htx_ptr ?s p + 4)) (w32_bytes (info_of HTX_BLK_DATA (sz - n)))"
  have l1: "length m1 = length (htx_mem h)" unfolding m1_def using pt g by (intro length_blit_int) auto
  have len: "length m = length (htx_mem h)" unfolding m_def using pt g l1 by (subst length_blit_int) auto
  have rdp: "blk_rd h (htx_ptr ?s p) = Some (htx_bl h p)" by (rule blk_rd_eq [OF g(1) pp])
  define h1 where "h1 = h\<lparr>htx_end_addr := ea\<rparr>"
  have sa: "blk_set_addr h1 (htx_ptr ?s p) (ad + n) = Some (h1\<lparr>htx_mem := m1\<rparr>)"
    using blk_set_addr_eq [of h1 p "ad + n"] g(1) pp by (simp add: m1_def h1_def)
  have si: "blk_set_info (h1\<lparr>htx_mem := m1\<rparr>) (htx_ptr ?s p) i = Some (h1\<lparr>htx_mem := blit m1 (nat (htx_ptr ?s p + 4)) (w32_bytes i)\<rparr>)" for i
    using blk_set_info_eq [of "h1\<lparr>htx_mem := m1\<rparr>" p i] g(1) pp l1 by (simp add: h1_def)
  define h' where "h' = h\<lparr>htx_end_addr := ea, htx_mem := m, htx_data := htx_data h - n\<rparr>"
  have run: "htx_cut_data_blk h (htx_ptr ?s p) n = Some h'"
  proof -
    have e: "(if ad = htx_end_addr h then h\<lparr>htx_end_addr := uint32 (htx_end_addr h + n)\<rparr> else h) = h1"
      using u1(1) by (cases h) (auto simp: h1_def ea_def d)
    show ?thesis
      unfolding htx_cut_data_blk_def rdp d(2) [symmetric] bind.bind_lunit Let_def e u1(2) sa si i'
      using u1(3) by (cases h) (simp add: h'_def h1_def m_def)
  qed
  have b1: "blk_in m1 ?s q = (if q = p then (htx_bl h p)\<lparr>blk_addr := ad + n\<rparr> else htx_bl h q)" if "0 \<le> q" "q \<le> htx_tail h" for q
    unfolding m1_def using that pt pp g a nn by (intro blk_in_set_addr) (auto simp: htx_ptr_def)
  have bm: "blk_in m ?s q = (if q = p then \<lparr>blk_addr = ad + n, blk_info = info_of HTX_BLK_DATA (sz - n)\<rparr> else htx_bl h q)"
    if "0 \<le> q" "q \<le> htx_tail h" for q
    unfolding m_def using that pt pp g l1 b1 [OF that] b1 [of p] p by (subst blk_in_set_info) (auto simp: htx_ptr_def)
  have bp: "blk_in m ?s p = \<lparr>blk_addr = ad + n, blk_info = info_of HTX_BLK_DATA (sz - n)\<rparr>" using bm [of p] pp p by simp
  have pay: "bs m x k = bs (htx_mem h) x k" if "0 \<le> x" "x + k \<le> htx_ptr ?s (htx_tail h)" for x k
  proof -
    have "bs m x k = bs m1 x k" unfolding m_def using that pt g l1 by (intro bs_blit_other) auto
    also have "\<dots> = bs (htx_mem h) x k" unfolding m1_def using that pt g by (intro bs_blit_other) auto
    finally show ?thesis .
  qed
  have f: "htx_size h' = ?s" "htx_mem h' = m" "htx_head h' = htx_head h" "htx_tail h' = htx_tail h" "htx_data h' = htx_data h - n"
    "htx_tail_addr h' = htx_tail_addr h" "htx_head_addr h' = htx_head_addr h" "htx_end_addr h' = ea" by (simp_all add: h'_def)
  have ar: "htx_area_ok h'" using g(1) len by (simp add: f htx_area_ok_def)
  have z: "htx_get_blksz \<lparr>blk_addr = ad + n, blk_info = info_of HTX_BLK_DATA (sz - n)\<rparr> = sz - n"
    by (rule blksz_info_of [where t = HTX_BLK_DATA]) (use nn in auto)
  have us: "blk_used \<lparr>blk_addr = ad + n, blk_info = info_of HTX_BLK_DATA (sz - n)\<rparr>"
    unfolding blk_used_def
    using type_info_of [of HTX_BLK_DATA "sz - n" "\<lparr>blk_addr = ad + n, blk_info = info_of HTX_BLK_DATA (sz - n)\<rparr>"] nn by simp
  have rs: "htx_rooms_ok h'"
    using g(2) a nn ds rm unfolding htx_rooms_ok_def f ea_def by auto
  have geo': "htx_geo h'"
  proof (rule htx_geo_replace [OF geo p ar f(1) f(3,4) rs])
    show "htx_data h' = htx_data h - htx_get_blksz (htx_bl h p) + htx_get_blksz (htx_bl h' p)"
      unfolding f bp z d(1) [symmetric] by simp
    show "htx_bl h' q = htx_bl h q" if "htx_head h \<le> q" "q \<le> htx_tail h" "q \<noteq> p" for q
      using bm [of q] that g by (simp add: f)
    have "ad + sz \<le> ?s - 8 * (p + 1)" using a g(7) pt(3) by (simp add: htx_ptr_def)
    then show "blk_placed ?s (htx_head_addr h') (htx_end_addr h') (htx_tail_addr h') p (htx_bl h' p)"
      unfolding f bp blk_placed_def htx_blk.select_convs z using nn us a rm by (auto simp: ea_def)
    fix q assume q: "htx_head h \<le> q" "q \<le> htx_tail h" "q \<noteq> p" "blk_used (htx_bl h q)"
    note uq = htx_used_payload [OF geo q(1,2,4)]
    have "blk_apart (htx_bl h p) (htx_bl h q)" using g(3) p q unfolding htx_blks_ok_def by simp
    then have ap: "ad + sz \<le> blk_addr (htx_bl h q) \<or> blk_addr (htx_bl h q) + htx_get_blksz (htx_bl h q) \<le> ad"
      using u q by (auto simp: blk_apart_def d)
    show "(blk_addr (htx_bl h q) + htx_get_blksz (htx_bl h q) \<le> htx_head_addr h' \<or>
       htx_end_addr h' \<le> blk_addr (htx_bl h q) \<and> blk_addr (htx_bl h q) + htx_get_blksz (htx_bl h q) \<le> htx_tail_addr h') \<and>
      blk_apart (htx_bl h' p) (htx_bl h q)"
      unfolding f bp blk_apart_def htx_blk.select_convs z ea_def using ap uq a rm nn by auto
  qed
  have same: "htx_part m ?s x y = htx_part (htx_mem h) ?s x y" if "htx_head h \<le> x" "y \<le> htx_tail h" "p < x \<or> y < p" for x y
    by (rule htx_part_same [OF geo that(1,2)]) (use bm pay that g in auto)
  have adn: "0 \<le> ad + n" "(ad + n) + (sz - n) \<le> htx_ptr ?s (htx_tail h)" using a g nn by auto
  have "htx_msg h' = htx_part (htx_mem h) ?s (htx_head h) (p - 1) @
      (info_of HTX_BLK_DATA (sz - n), bs (htx_mem h) (ad + n) (sz - n)) # htx_part (htx_mem h) ?s (p + 1) (htx_tail h)"
    using same [of "htx_head h" "p - 1"] same [of "p + 1" "htx_tail h"] geo(2) htx_part_split [OF p, of m ?s] us bp z pay [OF adn] p
    by (simp add: htx_msg_def f blk_entry_def)
  then show ?thesis
    using run geo' len nn ds by (intro exI [of _ h']) (auto simp: htx_wf_def f)
qed

section \<open>Draining\<close>

text \<open>What \<^verbatim>\<open>htx_drain\<close> leaves of a message and the number of bytes it takes: whole blocks while they fit,
  then a part of a DATA block, never a part of another block.\<close>

fun htx_drained :: "htx_entry list \<Rightarrow> int \<Rightarrow> htx_entry list \<times> int" where
  "htx_drained [] c = ([], 0)"
| "htx_drained ((i, xs) # es) c =
     (if c < int (length xs)
      then if drop_bit 28 i = HTX_BLK_DATA then ((i - word_of_int c, drop (nat c) xs) # es, c) else ((i, xs) # es, 0)
      else let (r, n) = htx_drained es (c - int (length xs)) in (r, int (length xs) + n))"

definition htx_bytes :: "htx_entry list \<Rightarrow> bytes" where
  "htx_bytes es = concat (map snd es)"

lemma htx_bytes_simps [simp]: "htx_bytes [] = []" "htx_bytes (e # es) = snd e @ htx_bytes es"
    "htx_bytes (es @ fs) = htx_bytes es @ htx_bytes fs"
  by (simp_all add: htx_bytes_def)

lemma htx_drained_prefix:
  assumes "0 \<le> c"
  shows "0 \<le> snd (htx_drained es c)" and "snd (htx_drained es c) \<le> c" and "snd (htx_drained es c) \<le> int (length (htx_bytes es))"
    and "htx_bytes (fst (htx_drained es c)) = drop (nat (snd (htx_drained es c))) (htx_bytes es)"
proof -
  have "0 \<le> snd (htx_drained es c) \<and> snd (htx_drained es c) \<le> c \<and> snd (htx_drained es c) \<le> int (length (htx_bytes es)) \<and>
    htx_bytes (fst (htx_drained es c)) = drop (nat (snd (htx_drained es c))) (htx_bytes es)"
    using assms
  proof (induction es c rule: htx_drained.induct)
    case (2 i xs es c)
    show ?case
    proof (cases "c < int (length xs)")
      case True
      then show ?thesis using 2(2) by (simp add: nat_le_iff)
    next
      case False
      obtain r n where e: "htx_drained es (c - int (length xs)) = (r, n)" by (cases "htx_drained es (c - int (length xs))")
      have "0 \<le> n \<and> n \<le> c - int (length xs) \<and> n \<le> int (length (htx_bytes es)) \<and> htx_bytes r = drop (nat n) (htx_bytes es)"
        using 2(1) [OF False] False e by simp
      then show ?thesis using False e by (simp add: nat_add_distrib)
    qed
  qed simp
  then show "0 \<le> snd (htx_drained es c)" and "snd (htx_drained es c) \<le> c" and "snd (htx_drained es c) \<le> int (length (htx_bytes es))"
    and "htx_bytes (fst (htx_drained es c)) = drop (nat (snd (htx_drained es c))) (htx_bytes es)" by auto
qed

lemma htx_drained_all: "htx_drained es (int (length (htx_bytes es))) = ([], int (length (htx_bytes es)))"
  by (induction es) auto

lemma htx_drained_0: 
  assumes "\<And>e. e \<in> set es \<Longrightarrow> snd e \<noteq> []"
  shows "htx_drained es 0 = (es, 0)"
proof (cases es)
  case (Cons e fs)
  then have "snd e \<noteq> []" using assms by simp
  then show ?thesis using Cons by (cases e) simp
qed simp

lemma htx_payload_len:
  assumes geo: "htx_geo h" "htx_head h \<noteq> -1" and p: "htx_head h \<le> p" "p \<le> htx_tail h" "blk_used (htx_bl h p)"
  shows "int (length (snd (blk_entry (htx_mem h) (htx_bl h p)))) = htx_get_blksz (htx_bl h p)"
proof -
  have "htx_tail_addr h \<le> int (length (htx_mem h))" using htx_geoD [OF geo] by (auto simp: htx_ptr_def)
  then show ?thesis using htx_used_payload [OF geo p] by (simp add: blk_entry_def length_bs)
qed

lemma htx_bytes_part:
  assumes geo: "htx_geo h" "htx_head h \<noteq> -1" and ab: "htx_head h \<le> a" "b \<le> htx_tail h"
  shows "int (length (htx_bytes (htx_part (htx_mem h) (htx_size h) a b))) = htx_sum (htx_mem h) (htx_size h) [a..b]"
    and "\<And>e. e \<in> set (htx_part (htx_mem h) (htx_size h) a b) \<Longrightarrow> snd e \<noteq> []"
proof -
  note g = htx_geoD [OF geo]
  note l = htx_payload_len [OF geo]
  have z: "htx_get_blksz (htx_bl h p) = 0" if "htx_head h \<le> p" "p \<le> htx_tail h" "\<not> blk_used (htx_bl h p)" for p
    using g(3) that by (auto simp: htx_blks_ok_def blk_placed_def)
  have "int (length (htx_bytes (map (\<lambda>p. blk_entry (htx_mem h) (htx_bl h p)) (filter (\<lambda>p. blk_used (htx_bl h p)) ps)))) =
      htx_sum (htx_mem h) (htx_size h) ps" if "\<forall>p\<in>set ps. htx_head h \<le> p \<and> p \<le> htx_tail h" for ps
    using that by (induction ps) (auto simp: htx_sum_def l z)
  then show "int (length (htx_bytes (htx_part (htx_mem h) (htx_size h) a b))) = htx_sum (htx_mem h) (htx_size h) [a..b]"
    using ab by (simp add: htx_part_def htx_used_def)
  fix e assume "e \<in> set (htx_part (htx_mem h) (htx_size h) a b)"
  then obtain p where p: "a \<le> p" "p \<le> b" "blk_used (htx_bl h p)" "e = blk_entry (htx_mem h) (htx_bl h p)"
    by (auto simp: htx_part_def htx_used_def)
  then have "int (length (snd e)) \<noteq> 0" using l [of p] htx_used_payload(3) [OF geo, of p] ab by simp
  then show "snd e \<noteq> []" by auto
qed

lemma htx_bytes_msg: "htx_geo h \<Longrightarrow> int (length (htx_bytes (htx_msg h))) = htx_data h"
  using htx_bytes_part(1) [of h "htx_head h" "htx_tail h"] by (simp add: htx_msg_def htx_geo_def)

lemma htx_msg_head:
  "htx_head h \<noteq> -1 \<Longrightarrow> htx_head h \<le> htx_tail h \<Longrightarrow>
   htx_msg h = (if blk_used (htx_bl h (htx_head h)) then [blk_entry (htx_mem h) (htx_bl h (htx_head h))] else []) @
     htx_part (htx_mem h) (htx_size h) (htx_head h + 1) (htx_tail h)"
  by (simp add: htx_msg_def htx_part_split [of "htx_head h" "htx_head h" "htx_tail h"])

lemma htx_get_head_blk_eq: "htx_geo h \<Longrightarrow>
    htx_get_head_blk h = (if htx_head h = -1 then None else Some (htx_ptr (htx_size h) (htx_head h)))"
  using htx_get_blk_eq [of h "htx_head h"] htx_geoD [of h]
  by (auto simp: htx_get_head_blk_def htx_get_head_def Let_def)

lemma htx_get_tail_blk_eq: "htx_geo h \<Longrightarrow> htx_head h \<noteq> -1 \<Longrightarrow>
    htx_get_tail_blk h = Some (htx_ptr (htx_size h) (htx_tail h))"
  using htx_get_blk_eq [of h "htx_tail h"] htx_geoD [of h]
  by (auto simp: htx_get_tail_blk_def htx_get_tail_def Let_def)

text \<open>Removing the head.\<close>

lemma htx_remove_head:
  assumes geo: "htx_geo h" "htx_head h \<noteq> -1"
  obtains h1 where "htx_remove_blk h (htx_ptr (htx_size h) (htx_head h)) = Some (h1, htx_get_head_blk h1)"
    and "htx_geo h1" and "htx_size h1 = htx_size h" and "length (htx_mem h1) = length (htx_mem h)"
    and "htx_data h1 = htx_data h - htx_get_blksz (htx_bl h (htx_head h))"
    and "htx_msg h1 = htx_part (htx_mem h) (htx_size h) (htx_head h + 1) (htx_tail h)"
    and "htx_head h1 = -1 \<or> htx_tail h1 - htx_head h1 < htx_tail h - htx_head h"
proof -
  note g = htx_geoD [OF geo]
  obtain h1 r where h1: "htx_remove_blk h (htx_ptr (htx_size h) (htx_head h)) = Some (h1, r)" "htx_geo h1" "htx_size h1 = htx_size h"
    "length (htx_mem h1) = length (htx_mem h)" "htx_data h1 = htx_data h - htx_get_blksz (htx_bl h (htx_head h))"
    "htx_msg h1 = htx_part (htx_mem h) (htx_size h) (htx_head h + 1) (htx_tail h)"
    and c: "if htx_head h = htx_tail h then r = None \<and> htx_head h1 = -1
      else htx_head h1 = htx_head h + 1 \<and> htx_head h1 \<noteq> -1 \<and> htx_tail h1 = htx_tail h \<and>
        r = Some (htx_ptr (htx_size h) (htx_head h + 1))"
    using htx_remove_msg [OF geo order_refl g(5)] g(4,5) by (auto split: if_splits)
  have "r = htx_get_head_blk h1" using c by (simp add: htx_get_head_blk_eq [OF h1(2)] h1(3) split: if_splits)
  then show ?thesis using that h1 c g(5) by (auto split: if_splits)
qed

lemma bs_drop: "0 \<le> c \<Longrightarrow> c \<le> n \<Longrightarrow> 0 \<le> p \<Longrightarrow> drop (nat c) (bs m p n) = bs m (p + c) (n - c)"
  by (simp add: bs_def drop_take nat_add_distrib nat_diff_distrib add.commute)

lemma htx_drain_loop_ok:
  assumes "htx_geo h" and "0 \<le> count" and "count < 4294967296" and "count \<noteq> htx_data h" and "0 \<le> ret" and "ret + htx_data h < 2147483648"
  shows "\<exists>h'. htx_drain_loop h (htx_get_head_blk h) count ret = Some (h', htx_get_head_blk h', ret + snd (htx_drained (htx_msg h) count)) \<and>
    htx_wf h' \<and> htx_msg h' = fst (htx_drained (htx_msg h) count) \<and> htx_size h' = htx_size h \<and> length (htx_mem h') = length (htx_mem h)"
  using assms
proof (induction "if htx_head h = -1 then 0 else nat (htx_tail h + 1 - htx_head h)" arbitrary: h count ret rule: less_induct)
  case less
  note geo = less.prems(1) and co = less.prems(2,3,4) and re = less.prems(5,6)
  show ?case
  proof (cases "htx_head h = -1")
    case True
    then have "htx_drain_loop h (htx_get_head_blk h) count ret = Some (h, None, ret)"
      by (subst htx_drain_loop.simps) (simp add: htx_get_head_blk_eq [OF geo])
    then show ?thesis using True geo by (simp add: htx_msg_def htx_wf_def htx_get_head_blk_eq [OF geo])
  next
    case False
    note g = htx_geoD [OF geo False]
    define b where "b = htx_bl h (htx_head h)"
    define sz where "sz = htx_get_blksz b"
    let ?ptr = "htx_ptr (htx_size h) (htx_head h)"
    let ?es = "htx_part (htx_mem h) (htx_size h) (htx_head h + 1) (htx_tail h)"
    have hb: "htx_get_head_blk h = Some ?ptr" using False by (simp add: htx_get_head_blk_eq [OF geo])
    have rdb: "blk_rd h ?ptr = Some b" unfolding b_def by (rule blk_rd_eq) (use g in auto)
    have m: "htx_msg h = (if blk_used b then [blk_entry (htx_mem h) b] else []) @ ?es"
      using htx_msg_head [OF False g(5)] by (simp add: b_def)
    have dn: "0 \<le> htx_data h" using htx_bytes_msg [OF geo] by linarith
    have ty: "drop_bit 28 (blk_info b) = htx_get_blk_type b" by (simp add: htx_get_blk_type_def)
    have szn: "0 \<le> sz" by (simp add: sz_def)
    have ln: "int (length (snd (blk_entry (htx_mem h) b))) = sz" if "blk_used b"
      using htx_payload_len [OF geo False order_refl g(5)] that by (simp add: sz_def b_def)
    obtain h1 where h1: "htx_remove_blk h ?ptr = Some (h1, htx_get_head_blk h1)"
      "htx_geo h1" "htx_size h1 = htx_size h" "length (htx_mem h1) = length (htx_mem h)" "htx_data h1 = htx_data h - sz"
      "htx_msg h1 = ?es" "htx_head h1 = -1 \<or> htx_tail h1 - htx_head h1 < htx_tail h - htx_head h"
      using htx_remove_head [OF geo False] unfolding sz_def b_def by blast
    have d1: "0 \<le> htx_data h1" using htx_bytes_msg [OF h1(2)] by linarith
    have dec: "(if htx_head h1 = -1 then 0 else nat (htx_tail h1 + 1 - htx_head h1)) <
        (if htx_head h = -1 then 0 else nat (htx_tail h + 1 - htx_head h))"
      using h1(7) g(5) False by auto
    show ?thesis
    proof (cases "count = 0")
      case True
      have "htx_drained (htx_msg h) 0 = (htx_msg h, 0)"
        using htx_bytes_part(2) [OF geo False order_refl order_refl] False by (intro htx_drained_0) (simp add: htx_msg_def)
      moreover have "htx_drain_loop h (htx_get_head_blk h) 0 ret = Some (h, htx_get_head_blk h, ret)"
        by (subst htx_drain_loop.simps) (simp add: hb)
      ultimately show ?thesis using True geo co dn by (simp add: htx_wf_def)
    next
      case cn: False
      consider "\<not> blk_used b" | "blk_used b" "sz \<le> count" | "blk_used b" "count < sz" by linarith
      then show ?thesis
      proof cases
        case 1
        have "sz = 0" using g(3,5) 1 by (auto simp: htx_blks_ok_def blk_placed_def sz_def b_def)
        then obtain h' where "htx_drain_loop h1 (htx_get_head_blk h1) count ret = Some (h', htx_get_head_blk h', ret + snd (htx_drained ?es count))"
          "htx_wf h'" "htx_msg h' = fst (htx_drained ?es count)" "htx_size h' = htx_size h" "length (htx_mem h') = length (htx_mem h)"
          using less.hyps [OF dec h1(2), of count ret] co re h1 by auto
        moreover have "htx_drain_loop h (htx_get_head_blk h) count ret = htx_drain_loop h1 (htx_get_head_blk h1) count ret"
          using 1 cn by (subst htx_drain_loop.simps) (simp add: hb rdb h1(1) blk_used_def)
        ultimately show ?thesis using m 1 by auto
      next
        case 2
        note sp = htx_used_payload [OF geo False order_refl g(5)]
        have ln: "int (length (snd (blk_entry (htx_mem h) b))) = sz" using ln 2(1) .
        have u: "uint32 (count - sz) = count - sz" "to_int32 (ret + sz) = ret + sz"
          using co re 2(2) d1 h1(5) szn by (auto intro!: uint32_small to_int32_small)
        obtain r n where e: "htx_drained ?es (count - sz) = (r, n)" by (cases "htx_drained ?es (count - sz)")
        obtain h' where "htx_drain_loop h1 (htx_get_head_blk h1) (count - sz) (ret + sz) = Some (h', htx_get_head_blk h', ret + sz + n)"
          "htx_wf h'" "htx_msg h' = r" "htx_size h' = htx_size h" "length (htx_mem h') = length (htx_mem h)"
          using less.hyps [OF dec h1(2), of "count - sz" "ret + sz"] co re h1 e 2 szn by auto
        moreover have "htx_drain_loop h (htx_get_head_blk h) count ret = htx_drain_loop h1 (htx_get_head_blk h1) (count - sz) (ret + sz)"
          using 2 cn u by (subst htx_drain_loop.simps) (simp add: hb rdb h1(1) blk_used_def sz_def [symmetric])
        moreover have "htx_drained (htx_msg h) count = (r, sz + n)"
          using m 2 e ln by (cases "blk_entry (htx_mem h) b") simp
        ultimately show ?thesis by simp
      next
        case 3
        have ln: "int (length (snd (blk_entry (htx_mem h) b))) = sz" using ln 3(1) .
        show ?thesis
        proof (cases "htx_get_blk_type b = HTX_BLK_DATA")
          case True
          have c0: "0 < count" using cn co by simp
          obtain h' where h': "htx_cut_data_blk h ?ptr count = Some h'" "htx_wf h'" "htx_size h' = htx_size h"
            "length (htx_mem h') = length (htx_mem h)" "htx_head h' = htx_head h"
            "htx_msg h' = htx_part (htx_mem h) (htx_size h) (htx_head h) (htx_head h - 1) @
               (info_of HTX_BLK_DATA (sz - count), bs (htx_mem h) (blk_addr b + count) (sz - count)) # ?es"
            using htx_cut_data_blk_ok [OF geo False order_refl g(5) True [unfolded b_def] c0 _ refl refl] 3(2)
            unfolding sz_def b_def by blast
          have gh: "htx_geo h'" using h'(2) by (simp add: htx_wf_def)
          have hb': "htx_get_head_blk h' = Some ?ptr" using False by (simp add: htx_get_head_blk_eq [OF gh] h'(3,5))
          have "htx_drain_loop h (htx_get_head_blk h) count ret = Some (h', Some ?ptr, to_int32 (ret + count))"
            using 3 cn True h'(1) by (subst htx_drain_loop.simps) (simp add: hb rdb sz_def [symmetric])
          moreover have "to_int32 (ret + count) = ret + count" using co re 3 d1 h1(5) by (intro to_int32_small) auto
          moreover have "htx_drained (htx_msg h) count =
              ((info_of HTX_BLK_DATA (sz - count), bs (htx_mem h) (blk_addr b + count) (sz - count)) # ?es, count)"
          proof -
            have i: "blk_info b - word_of_int count = info_of HTX_BLK_DATA (sz - count)"
              using info_of_blk [of b] True by (simp add: info_of_def sz_def algebra_simps)
            have "0 \<le> blk_addr b" using htx_used_payload(1) [OF geo False order_refl g(5)] 3 by (simp add: b_def)
            then have "drop (nat count) (bs (htx_mem h) (blk_addr b) sz) = bs (htx_mem h) (blk_addr b + count) (sz - count)"
              using 3 c0 by (intro bs_drop) auto
            then show ?thesis using m 3 ln i True ty by (simp add: blk_entry_def sz_def [symmetric])
          qed
          ultimately show ?thesis using h' hb' by simp
        next
          case nd: False
          have "htx_drain_loop h (htx_get_head_blk h) count ret = Some (h, htx_get_head_blk h, ret)"
            using 3 cn nd by (subst htx_drain_loop.simps) (simp add: hb rdb sz_def [symmetric] blk_used_def)
          moreover have "htx_drained (htx_msg h) count = (htx_msg h, 0)"
            using m 3 nd ln ty by (simp add: blk_entry_def)
          moreover have "0 < htx_data h" using 3 co d1 h1(5) by linarith
          ultimately show ?thesis using geo by (simp add: htx_wf_def)
        qed
      qed
    qed
  qed
qed

lemma htx_drain_ok:
  assumes wf: "htx_wf h" and c: "0 \<le> count" "count < 4294967296"
  shows "\<exists>h' blk. htx_drain h count = Some (h', blk, snd (htx_drained (htx_msg h) count)) \<and> htx_wf h' \<and>
    htx_msg h' = fst (htx_drained (htx_msg h) count) \<and> htx_size h' = htx_size h \<and> length (htx_mem h') = length (htx_mem h)"
proof (cases "count = htx_data h")
  case True
  have geo: "htx_geo h" using wf by (simp add: htx_wf_def)
  have d: "0 \<le> htx_data h" "htx_data h < 2147483648"
  proof -
    show "0 \<le> htx_data h" using htx_bytes_msg [OF geo] by linarith
    show "htx_data h < 2147483648" using geo by (auto simp: htx_geo_def htx_rooms_ok_def htx_area_ok_def split: if_splits)
  qed
  have "htx_drained (htx_msg h) count = ([], count)" using htx_drained_all [of "htx_msg h"] htx_bytes_msg [OF geo] True by simp
  moreover have "to_int32 count = count" using d True by (intro to_int32_small) auto
  ultimately show ?thesis using True htx_reset_geo [OF geo]
    by (simp add: htx_drain_def htx_wf_def htx_msg_def htx_reset_def)
next
  case False
  have geo: "htx_geo h" using wf by (simp add: htx_wf_def)
  have "htx_data h < 2147483648" using geo by (auto simp: htx_geo_def htx_rooms_ok_def htx_area_ok_def split: if_splits)
  then show ?thesis using htx_drain_loop_ok [OF geo c False, of 0] False by (auto simp: htx_drain_def)
qed

section \<open>Appending data\<close>

text \<open>The content with the bytes of the DATA blocks not delimited.\<close>

definition htx_stream :: "htx_entry list \<Rightarrow> (htx_entry + byte) list" where
  "htx_stream es = concat (map (\<lambda>e. if drop_bit 28 (fst e) = HTX_BLK_DATA then map Inr (snd e) else [Inl e]) es)"

lemma htx_stream_simps [simp]: "htx_stream [] = []"
    "htx_stream (e # es) = (if drop_bit 28 (fst e) = HTX_BLK_DATA then map Inr (snd e) else [Inl e]) @ htx_stream es"
    "htx_stream (es @ fs) = htx_stream es @ htx_stream fs"
  by (simp_all add: htx_stream_def)

lemma type_of_info: "uint t < 16 \<Longrightarrow> 0 \<le> n \<Longrightarrow> n < 268435456 \<Longrightarrow> drop_bit 28 (info_of t n) = t"
  using type_info_of [of t n "\<lparr>blk_addr = 0, blk_info = info_of t n\<rparr>"] by (simp add: htx_get_blk_type_def)

lemma bs_append: "0 \<le> p \<Longrightarrow> 0 \<le> n \<Longrightarrow> 0 \<le> k \<Longrightarrow> bs m p (n + k) = bs m p n @ bs m (p + n) k"
  by (simp add: bs_def nat_add_distrib take_add add.commute [of "nat p"])

lemma htx_append_data_ok:
  assumes wf: "htx_wf h" "htx_head h \<noteq> -1" and ty: "htx_get_blk_type (htx_bl h (htx_tail h)) = HTX_BLK_DATA"
    and sz: "htx_size h \<le> 268435456"
    and d: "sz = htx_get_blksz (htx_bl h (htx_tail h))" "ad = blk_addr (htx_bl h (htx_tail h))"
    and room: "htx_data h + int (length xs) + 8 * (htx_tail h + 1 - htx_head h) \<le> htx_size h"
    and fit: "ad + sz = htx_tail_addr h \<and> ad + sz + int (length xs) \<le> htx_ptr (htx_size h) (htx_tail h) \<or>
       ad + sz \<noteq> htx_tail_addr h \<and> ad + sz = htx_head_addr h \<and> ad + sz + int (length xs) \<le> htx_end_addr h"
  shows "\<exists>h'. htx_append_data h (htx_ptr (htx_size h) (htx_tail h)) xs = Some h' \<and> htx_wf h' \<and> htx_size h' = htx_size h \<and>
    length (htx_mem h') = length (htx_mem h) \<and> htx_stream (htx_msg h') = htx_stream (htx_msg h) @ map Inr xs"
proof -
  let ?s = "htx_size h"
  let ?n = "int (length xs)"
  have geo: "htx_geo h" "htx_head h \<noteq> -1" using wf by (auto simp: htx_wf_def)
  note g = htx_geoD [OF geo]
  have u: "blk_used (htx_bl h (htx_tail h))" using ty by (simp add: blk_used_def)
  note up = htx_used_payload [OF geo g(5) order_refl u, folded d]
  have rm: "0 \<le> htx_head_addr h" "htx_head_addr h \<le> htx_end_addr h" "htx_end_addr h \<le> htx_tail_addr h"
    using g(2) by (auto simp: htx_rooms_ok_def)
  have tight: "htx_end_addr h = 0 \<or> htx_end_addr h < htx_tail_addr h" using wf g(2) by (auto simp: htx_rooms_ok_def htx_wf_def)
  have x: "0 \<le> ad + sz" "ad + sz + ?n \<le> htx_ptr ?s (htx_tail h)" using fit up rm g(7) by auto
  have free: "ad + sz + ?n \<le> blk_addr (htx_bl h q) \<or> blk_addr (htx_bl h q) + htx_get_blksz (htx_bl h q) \<le> ad + sz"
    if "htx_head h \<le> q" "q \<le> htx_tail h" "blk_used (htx_bl h q)" for q
    using htx_used_payload [OF geo that] fit by auto
  define h1 where "h1 = h\<lparr>htx_mem := blit (htx_mem h) (nat (ad + sz)) xs\<rparr>"
  note w = htx_write_free [OF geo x free, folded h1_def]
  have f1: "htx_size h1 = ?s" "htx_head h1 = htx_head h" "htx_tail h1 = htx_tail h" "htx_data h1 = htx_data h"
    "htx_tail_addr h1 = htx_tail_addr h" "htx_head_addr h1 = htx_head_addr h" "htx_end_addr h1 = htx_end_addr h"
    by (simp_all add: h1_def)
  have b1: "blk_in (htx_mem h1) ?s (htx_tail h) = htx_bl h (htx_tail h)" using w(3) [of "htx_tail h"] g(5) by (simp add: f1)
  have ds: "sz \<le> htx_data h"
    using htx_sum_split [OF g(5) order_refl, of "htx_mem h" ?s] geo htx_sum_nonneg [of "htx_mem h" ?s "[htx_head h..htx_tail h - 1]"]
    by (simp add: htx_geo_def d htx_sum_def)
  have nn: "0 < sz + ?n" "sz + ?n < 268435456" using up ds room g(5) sz by auto
  obtain h' where h': "htx_change_blk_value_len h1 (htx_ptr ?s (htx_tail h)) (sz + ?n) = Some h'" "htx_wf h'" "htx_size h' = ?s"
    "length (htx_mem h') = length (htx_mem h1)"
    "htx_msg h' = htx_part (htx_mem h1) ?s (htx_head h) (htx_tail h - 1) @
      (info_of HTX_BLK_DATA (sz + ?n), bs (htx_mem h1) ad (sz + ?n)) # htx_part (htx_mem h1) ?s (htx_tail h + 1) (htx_tail h)"
  proof -
    have "htx_geo h1" "htx_head h1 \<noteq> -1" "htx_head h1 \<le> htx_tail h" "htx_tail h \<le> htx_tail h1" "blk_used (htx_bl h1 (htx_tail h))"
      "htx_get_blk_type (htx_bl h1 (htx_tail h)) = HTX_BLK_DATA" "sz = htx_get_blksz (htx_bl h1 (htx_tail h))"
      "ad = blk_addr (htx_bl h1 (htx_tail h))" "htx_end_addr h1 = 0 \<or> htx_end_addr h1 < htx_tail_addr h1"
      using w(2) geo g(5) u ty d tight by (simp_all add: f1 b1)
    moreover have "sz + ?n \<le> sz \<or> htx_data h1 + (sz + ?n - sz) + 8 * (htx_tail h1 + 1 - htx_head h1) \<le> htx_size h1 \<and>
       (ad + sz = htx_tail_addr h1 \<and> ad + (sz + ?n) \<le> htx_ptr (htx_size h1) (htx_tail h1) \<or>
        ad + sz \<noteq> htx_tail_addr h1 \<and> ad + sz = htx_head_addr h1 \<and> ad + (sz + ?n) \<le> htx_end_addr h1)"
      using room fit by (simp add: f1 algebra_simps)
    ultimately show ?thesis using htx_change_blk_value_len_ok [of h1 "htx_tail h" "sz + ?n" sz ad] nn that
      unfolding f1 by blast
  qed
  have rdb: "blk_rd h (htx_ptr ?s (htx_tail h)) = Some (htx_bl h (htx_tail h))" by (rule blk_rd_eq [OF g(1)]) (use g in auto)
  have us: "uint32 (sz + ?n) = sz + ?n" using nn by (intro uint32_small) auto
  have w1: "blk_write h (ad + sz) xs = Some h1" by (rule w(1))
  have run: "htx_append_data h (htx_ptr ?s (htx_tail h)) xs = Some h'"
    unfolding htx_append_data_def rdb bind.bind_lunit htx_get_blk_ptr_def d [symmetric] w1 us h'(1) ..
  have m: "htx_msg h = htx_part (htx_mem h) ?s (htx_head h) (htx_tail h - 1) @ [(info_of HTX_BLK_DATA sz, bs (htx_mem h) ad sz)]"
    using htx_part_snoc [OF g(5), of "htx_mem h" ?s] u geo(2) info_of_blk [of "htx_bl h (htx_tail h)"] ty
    by (simp add: htx_msg_def blk_entry_def d)
  have p1: "htx_part (htx_mem h1) ?s (htx_head h) (htx_tail h - 1) = htx_part (htx_mem h) ?s (htx_head h) (htx_tail h - 1)"
    by (rule w(4)) auto
  have "bs (htx_mem h1) ad (sz + ?n) = bs (htx_mem h) ad sz @ xs"
    using up w(5) w(6) [of ad sz] by (subst bs_append) auto
  then have "htx_stream (htx_msg h') = htx_stream (htx_msg h) @ map Inr xs"
    unfolding h'(5) m p1 using nn up by (simp add: type_of_info)
  then show ?thesis using run h' w(7) by auto
qed

lemma htx_free_data_space_eq:
  assumes "htx_geo h"
  shows "htx_free_data_space h = (let f = (if htx_head h = -1 then htx_size h else htx_size h - htx_data h - 8 * (htx_tail h + 1 - htx_head h)) in
    if f < 8 then 0 else f - 8)"
  by (simp add: htx_free_data_space_def htx_free_space_eq [OF assms])

lemma htx_free_data_space_bounds:
  assumes "htx_geo h"
  shows "0 \<le> htx_free_data_space h" and "htx_free_data_space h < htx_size h"
    and "htx_head h \<noteq> -1 \<Longrightarrow> 0 < htx_free_data_space h \<Longrightarrow>
      htx_data h + htx_free_data_space h + 8 * (htx_tail h + 1 - htx_head h) \<le> htx_size h"
proof -
  have d: "0 \<le> htx_data h" using htx_bytes_msg [OF assms] by linarith
  have s: "0 < htx_size h" using assms by (auto simp: htx_geo_def htx_area_ok_def)
  have r: "htx_head h \<noteq> -1 \<Longrightarrow> htx_head h \<le> htx_tail h" using htx_geoD(5) [OF assms] .
  show "0 \<le> htx_free_data_space h" and "htx_free_data_space h < htx_size h"
    and "htx_head h \<noteq> -1 \<Longrightarrow> 0 < htx_free_data_space h \<Longrightarrow>
      htx_data h + htx_free_data_space h + 8 * (htx_tail h + 1 - htx_head h) \<le> htx_size h"
    unfolding htx_free_data_space_eq [OF assms] using d s r by (auto simp: Let_def split: if_splits)
qed

lemma htx_add_data_ok:
  assumes wf: "htx_wf h" and tr: "htx_size h \<le> int (length tr)" and sz: "htx_size h \<le> 268435456"
    and l: "int (length xs) < 2147483648"
  shows "\<exists>h' k. htx_add_data tr h xs = Some (h', k) \<and> 0 \<le> k \<and> k \<le> min (int (length xs)) (htx_free_data_space h) \<and> htx_wf h' \<and>
    htx_stream (htx_msg h') = htx_stream (htx_msg h) @ map Inr (take (nat k) xs) \<and>
    (k = min (int (length xs)) (htx_free_data_space h) \<or>
       htx_msg h \<noteq> [] \<and> drop_bit 28 (fst (last (htx_msg h))) = HTX_BLK_DATA) \<and>
    htx_size h' = htx_size h \<and> length (htx_mem h') = length (htx_mem h)"
proof -
  let ?s = "htx_size h"
  have geo: "htx_geo h" using wf by (simp add: htx_wf_def)
  define fr where "fr = htx_free_data_space h"
  define k where "k = min (int (length xs)) fr"
  have fb: "0 \<le> fr" "fr < ?s" using htx_free_data_space_bounds [OF geo] by (simp_all add: fr_def)
  have c: "to_int32 (int (length xs)) = int (length xs)" "uint32 (int (length xs)) = int (length xs)" "to_int32 fr = fr"
    using l fb sz by (auto intro!: to_int32_small uint32_small)
  have kb: "0 \<le> k" "k \<le> int (length xs)" "k \<le> fr" "k < 268435456" using fb sz by (auto simp: k_def)
  have ck: "uint32 k = k" "to_int32 k = k" using kb by (auto intro!: to_int32_small uint32_small)
  have lk: "(if uint32 (to_int32 (int (length xs))) > htx_free_data_space h then to_int32 (htx_free_data_space h)
      else to_int32 (int (length xs))) = k"
    unfolding c fr_def [symmetric] k_def by auto
  define new where "new = (do { (h, r) \<leftarrow> htx_add_new_data tr h (take (nat k) xs); case r of None \<Rightarrow> Some (h, 0) | Some blk \<Rightarrow> Some (h, k) })"
  define tl where "tl = htx_bl h (htx_tail h)"
  define here where "here = (if htx_head_addr h = 0 then uint32 (blk_addr tl + htx_get_blksz tl) = htx_tail_addr h
    else uint32 (blk_addr tl + htx_get_blksz tl) = htx_head_addr h)"
  define room where "room = (if htx_head_addr h = 0 then uint32 (htx_pos_to_addr h (uint32 (htx_tail h)) - htx_tail_addr h)
    else uint32 (htx_end_addr h - htx_head_addr h))"
  define k' where "k' = (if room < uint32 k then to_int32 room else k)"
  have run: "htx_add_data tr h xs =
    (if k = 0 then Some (h, 0) else if htx_head h = -1 then new
     else if htx_get_blk_type tl \<noteq> HTX_BLK_DATA then new
     else if \<not> here then new else if to_int32 room < 0 then None
     else do { h \<leftarrow> htx_append_data h (htx_ptr ?s (htx_tail h)) (take (nat k') xs); htx_check h; Some (h, k') })"
  proof -
    have rdb: "htx_head h \<noteq> -1 \<Longrightarrow> blk_rd h (htx_ptr ?s (htx_tail h)) = Some tl"
      unfolding tl_def using htx_geoD [OF geo] by (intro blk_rd_eq) auto
    show ?thesis
      unfolding htx_add_data_def Let_def lk new_def [symmetric]
      by (simp add: htx_get_tail_blk_eq [OF geo] rdb here_def room_def k'_def)
  qed
  have newok: "\<exists>h' k. new = Some (h', k) \<and> 0 \<le> k \<and> k \<le> min (int (length xs)) fr \<and> htx_wf h' \<and>
    htx_stream (htx_msg h') = htx_stream (htx_msg h) @ map Inr (take (nat k) xs) \<and> k = min (int (length xs)) fr \<and>
    htx_size h' = htx_size h \<and> length (htx_mem h') = length (htx_mem h)" if "k \<noteq> 0"
  proof -
    have lt: "int (length (take (nat k) xs)) = k" using kb by simp
    have "0 < length (take (nat k) xs)" using lt that kb by linarith
    then obtain h' blk where h': "htx_add_new_data tr h (take (nat k) xs) = Some (h', Some blk)" "htx_wf h'"
      "htx_msg h' = htx_msg h @ [(push_bit 28 HTX_BLK_DATA + word_of_nat (length (take (nat k) xs)), take (nat k) xs)]"
      "htx_size h' = ?s" "length (htx_mem h') = length (htx_mem h)"
      using htx_add_new_data_ok [OF wf tr, of "take (nat k) xs"] lt kb by (auto simp: fr_def)
    have "push_bit 28 HTX_BLK_DATA + word_of_nat (length (take (nat k) xs)) = info_of HTX_BLK_DATA k"
      using lt unfolding info_of_def by (metis of_int_of_nat_eq)
    then have "htx_stream (htx_msg h') = htx_stream (htx_msg h) @ map Inr (take (nat k) xs)"
      unfolding h'(3) using kb by (simp add: type_of_info)
    then show ?thesis using h' kb by (intro exI [of _ h'] exI [of _ k]) (simp add: new_def k_def)
  qed
  consider "k = 0" | "k \<noteq> 0" "htx_head h = -1 \<or> htx_get_blk_type tl \<noteq> HTX_BLK_DATA \<or> \<not> here"
    | "k \<noteq> 0" "htx_head h \<noteq> -1" "htx_get_blk_type tl = HTX_BLK_DATA" here by blast
  then show ?thesis
  proof cases
    case 1
    then show ?thesis using run wf by (intro exI [of _ h] exI [of _ 0]) (simp add: k_def fr_def min_def split: if_splits)
  next
    case 2
    then have e: "htx_add_data tr h xs = new" by (auto simp: run)
    show ?thesis unfolding e using newok [OF 2(1), unfolded fr_def] by blast
  next
    case 3
    note g = htx_geoD [OF geo 3(2)]
    define b where "b = blk_addr tl + htx_get_blksz tl"
    have u: "blk_used tl" using 3 by (simp add: blk_used_def)
    note up = htx_used_payload [OF geo 3(2) g(5) order_refl, folded tl_def, OF u]
    have rm: "0 \<le> htx_head_addr h" "htx_head_addr h \<le> htx_end_addr h" "htx_end_addr h \<le> htx_tail_addr h"
      "htx_end_addr h = 0 \<or> htx_end_addr h < htx_tail_addr h"
      using g(2) wf 3(2) by (auto simp: htx_rooms_ok_def htx_wf_def)
    have p: "htx_ptr ?s (htx_tail h) < ?s" "htx_tail h < 2147483648" using g(4,5,6,9) by (auto simp: htx_ptr_def)
    have pe: "htx_pos_to_addr h (uint32 (htx_tail h)) = htx_ptr ?s (htx_tail h)"
      using g p by (simp add: uint32_small htx_pos_to_addr_eq)
    have ub: "uint32 b = b" using up rm g p unfolding b_def by (intro uint32_small) auto
    have re: "room = (if htx_head_addr h = 0 then htx_ptr ?s (htx_tail h) - htx_tail_addr h else htx_end_addr h - htx_head_addr h)"
      unfolding room_def pe using rm g p by (auto intro!: uint32_small)
    have rb: "0 \<le> room" "room < 2147483648" unfolding re using rm g p by auto
    have k': "k' = min room k" unfolding k'_def ck using rb to_int32_small [of room] by auto
    have kk: "0 \<le> k'" "k' \<le> k" "k' \<le> room" using rb kb by (auto simp: k')
    have lt: "int (length (take (nat k') xs)) = k'" using kk kb by simp
    have fp: "htx_data h + fr + 8 * (htx_tail h + 1 - htx_head h) \<le> ?s"
      using htx_free_data_space_bounds(3) [OF geo 3(2)] 3(1) kb by (simp add: fr_def)
    have fit: "b = htx_tail_addr h \<and> b + k' \<le> htx_ptr ?s (htx_tail h) \<or>
       b \<noteq> htx_tail_addr h \<and> b = htx_head_addr h \<and> b + k' \<le> htx_end_addr h"
      using 3(4) kk rm unfolding here_def re b_def [symmetric] ub by (auto split: if_splits)
    obtain h' where h': "htx_append_data h (htx_ptr ?s (htx_tail h)) (take (nat k') xs) = Some h'" "htx_wf h'" "htx_size h' = ?s"
      "length (htx_mem h') = length (htx_mem h)" "htx_stream (htx_msg h') = htx_stream (htx_msg h) @ map Inr (take (nat k') xs)"
      using htx_append_data_ok [OF wf 3(2) _ sz refl refl, of "take (nat k') xs", folded tl_def, OF 3(3)] fp kk kb fit
      unfolding lt b_def by auto
    have chk: "htx_check h' = Some ()"
    proof (cases "htx_head h' = -1")
      case True
      then show ?thesis using h'(2) by (intro htx_check_ok) (auto simp: htx_wf_def htx_geo_def htx_area_ok_def)
    next
      case False
      then show ?thesis using h'(2) htx_geoD [of h'] by (intro htx_rooms_check) (auto simp: htx_wf_def)
    qed
    have "to_int32 room = room" using rb by (intro to_int32_small) auto
    then have "htx_add_data tr h xs = Some (h', k')" using 3 rb h'(1) chk by (simp add: run)
    moreover have "htx_msg h \<noteq> [] \<and> drop_bit 28 (fst (last (htx_msg h))) = HTX_BLK_DATA"
      using htx_part_snoc [OF g(5), of "htx_mem h" ?s] u 3 by (simp add: htx_msg_def tl_def blk_entry_def htx_get_blk_type_def)
    ultimately show ?thesis using h' kk kb by (intro exI [of _ h'] exI [of _ k']) (simp add: fr_def [symmetric])
  qed
qed

end
