(* ===== verification/HtxAppend.thy ===== *)
theory HtxAppend
  imports HtxData
begin

unbundle bit_operations_syntax

text \<open>
  HTX messages: \<^verbatim>\<open>htx_truncate\<close>, and \<^verbatim>\<open>htx_append_msg\<close>, which uses it to take back a partial copy.
\<close>

section \<open>Truncating\<close>

lemma htx_get_next_blk_eq:
  assumes "htx_geo h" and "htx_head h \<noteq> -1" and "htx_head h \<le> p" and "p \<le> htx_tail h"
  shows "htx_get_next_blk h (htx_ptr (htx_size h) p) = (if p = htx_tail h then None else Some (htx_ptr (htx_size h) (p + 1)))"
proof -
  note g = htx_geoD [OF assms(1,2)]
  have "htx_get_blk_pos h (htx_ptr (htx_size h) p) = p" using assms g by (intro htx_get_blk_pos_eq) auto
  moreover have "htx_get_next h p = (if p = htx_tail h then -1 else p + 1)" using assms g by (intro htx_get_next_eq) auto
  moreover have "p \<noteq> htx_tail h \<Longrightarrow> htx_get_blk h (p + 1) = htx_ptr (htx_size h) (p + 1)"
    using assms g by (intro htx_get_blk_eq) auto
  ultimately show ?thesis using assms g by (auto simp: htx_get_next_blk_def Let_def)
qed

text \<open>The removal of all the blocks from position \<open>p\<close> on.\<close>

lemma htx_remove_all_ok:
  assumes "htx_geo h" and "htx_head h \<noteq> -1" and "htx_head h \<le> p" and "p \<le> htx_tail h"
  shows "\<exists>h'. htx_remove_all h (Some (htx_ptr (htx_size h) p)) = Some h' \<and> htx_geo h' \<and> htx_size h' = htx_size h \<and>
    length (htx_mem h') = length (htx_mem h) \<and>
    htx_msg h' = htx_part (htx_mem h) (htx_size h) (htx_head h) (p - 1) \<and> (p = htx_head h \<longrightarrow> htx_head h' = -1)"
  using assms
proof (induction "nat (htx_tail h - p)" arbitrary: h p rule: less_induct)
  case less
  note geo = less.prems(1,2) and p = less.prems(3,4)
  let ?s = "htx_size h"
  obtain h1 r where h1: "htx_remove_blk h (htx_ptr ?s p) = Some (h1, r)" "htx_geo h1" "htx_size h1 = ?s"
    "length (htx_mem h1) = length (htx_mem h)"
    "htx_msg h1 = htx_part (htx_mem h) ?s (htx_head h) (p - 1) @ htx_part (htx_mem h) ?s (p + 1) (htx_tail h)"
    and c: "if htx_head h = htx_tail h then r = None \<and> htx_head h1 = -1
     else htx_head h1 = (if p = htx_head h then htx_head h + 1 else htx_head h) \<and> htx_head h1 \<noteq> -1 \<and>
       htx_tail h1 = (if p \<noteq> htx_head h \<and> p = htx_tail h then htx_tail h - 1 else htx_tail h) \<and>
       r = (if p = htx_head h \<or> p \<noteq> htx_tail h then Some (htx_ptr ?s (p + 1)) else None) \<and>
       (\<forall>x y. htx_head h1 \<le> x \<longrightarrow> y \<le> htx_tail h1 \<longrightarrow> p < x \<or> y < p \<longrightarrow>
          htx_part (htx_mem h1) ?s x y = htx_part (htx_mem h) ?s x y)"
    using htx_remove_msg [OF geo p] by (auto split: if_splits)
  have step: "htx_remove_all h (Some (htx_ptr ?s p)) = htx_remove_all h1 r"
    by (subst htx_remove_all.simps) (simp add: h1(1))
  have stop: "htx_remove_all h1 None = Some h1" by (subst htx_remove_all.simps) simp
  show ?case
  proof (cases "htx_head h = htx_tail h")
    case True
    then show ?thesis using step stop h1 c p by auto
  next
    case ht: False
    show ?thesis
    proof (cases "p = htx_tail h")
      case True
      then show ?thesis using step stop h1 c ht by auto
    next
      case False
      have un: "\<not> blk_used (htx_bl h1 p)"
        using htx_remove_blk_ok [OF geo _ p] ht p h1(1) by auto
      have r: "r = Some (htx_ptr (htx_size h1) (p + 1))" using c ht False h1(3) by auto
      have n: "htx_head h1 \<noteq> -1" "htx_head h1 \<le> p + 1" "p + 1 \<le> htx_tail h1" "nat (htx_tail h1 - (p + 1)) < nat (htx_tail h - p)"
        using c ht False p by (auto split: if_splits)
      obtain h2 where h2: "htx_remove_all h1 r = Some h2" "htx_geo h2" "htx_size h2 = ?s" "length (htx_mem h2) = length (htx_mem h)"
        "htx_msg h2 = htx_part (htx_mem h1) ?s (htx_head h1) p" "p + 1 = htx_head h1 \<longrightarrow> htx_head h2 = -1"
        using less.hyps [OF n(4) h1(2) n(1-3)] h1(3,4) r by auto
      have "htx_part (htx_mem h1) ?s (htx_head h1) p = htx_part (htx_mem h) ?s (htx_head h) (p - 1)"
      proof (cases "p = htx_head h")
        case True
        then show ?thesis using c ht by simp
      next
        case nh: False
        then have hd: "htx_head h1 = htx_head h" "htx_tail h1 = htx_tail h" using c ht False by auto
        then have "htx_part (htx_mem h1) ?s (htx_head h1) p = htx_part (htx_mem h1) ?s (htx_head h) (p - 1)"
          using htx_part_snoc [of "htx_head h" p "htx_mem h1" ?s] un p h1(3) by simp
        moreover have "htx_part (htx_mem h1) ?s (htx_head h) (p - 1) = htx_part (htx_mem h) ?s (htx_head h) (p - 1)"
          using c ht hd p by auto
        ultimately show ?thesis by simp
      qed
      moreover have "p = htx_head h \<longrightarrow> htx_head h2 = -1" using h2(6) c ht by auto
      ultimately show ?thesis using step h2 by auto
    qed
  qed
qed

text \<open>What is left of a message truncated at an offset.\<close>

fun htx_truncated :: "htx_entry list \<Rightarrow> int \<Rightarrow> htx_entry list" where
  "htx_truncated [] c = []"
| "htx_truncated ((i, xs) # es) c =
     (if c = 0 then []
      else if c < int (length xs)
      then if drop_bit 28 i = HTX_BLK_DATA then [(info_of HTX_BLK_DATA c, take (nat c) xs)] else []
      else (i, xs) # htx_truncated es (c - int (length xs)))"

lemma htx_truncated_append:
  assumes "\<And>e. e \<in> set es \<Longrightarrow> snd e \<noteq> []" and "0 \<le> c"
  shows "htx_truncated (es @ fs) (int (length (htx_bytes es)) + c) = es @ htx_truncated fs c"
  using assms
proof (induction es)
  case (Cons e es)
  obtain i xs where e: "e = (i, xs)" by (cases e)
  have "0 < length xs" using Cons.prems(1) [of e] e by simp
  then have "int (length xs) + (int (length (htx_bytes es)) + c) \<noteq> 0" using Cons.prems(2) by linarith
  then show ?case using Cons e by (simp add: add.assoc)
qed simp

lemma htx_truncated_0 [simp]: "htx_truncated es 0 = []"
  by (cases es) auto

lemma htx_truncated_all:
  "(\<And>e. e \<in> set es \<Longrightarrow> snd e \<noteq> []) \<Longrightarrow> int (length (htx_bytes es)) \<le> c \<Longrightarrow> htx_truncated es c = es"
  using htx_truncated_append [of es "c - int (length (htx_bytes es))" "[]"] by simp

text \<open>The search: position \<open>q\<close> of the block that contains the offset, or that follows it.\<close>

lemma htx_find_loop_ok:
  assumes geo: "htx_geo h" "htx_head h \<noteq> -1" and p: "htx_head h \<le> p" "p \<le> htx_tail h"
    and ofs: "0 \<le> ofs" "ofs < htx_sum (htx_mem h) (htx_size h) [p..htx_tail h]"
  shows "\<exists>q c. htx_find_loop h (Some (htx_ptr (htx_size h) p)) ofs = Some (Some (htx_ptr (htx_size h) q), c) \<and>
    p \<le> q \<and> q \<le> htx_tail h \<and> 0 \<le> c \<and> (ofs = 0 \<longrightarrow> q = p) \<and> (c = 0 \<or> c < htx_get_blksz (htx_bl h q)) \<and>
    htx_sum (htx_mem h) (htx_size h) [p..q - 1] + c = ofs"
  using p ofs
proof (induction "nat (htx_tail h - p)" arbitrary: p ofs rule: less_induct)
  case less
  note g = htx_geoD [OF geo]
  let ?s = "htx_size h"
  define sz where "sz = htx_get_blksz (htx_bl h p)"
  have szn: "0 \<le> sz" by (simp add: sz_def)
  have rdp: "blk_rd h (htx_ptr ?s p) = Some (htx_bl h p)" using less.prems g by (intro blk_rd_eq) auto
  have sp: "htx_sum (htx_mem h) ?s [p..htx_tail h] = sz + htx_sum (htx_mem h) ?s [p + 1..htx_tail h]"
    using htx_sum_split [OF order_refl less.prems(2), of "htx_mem h" ?s] by (simp add: sz_def htx_sum_def)
  have run: "htx_find_loop h (Some (htx_ptr ?s p)) ofs =
      (if ofs = 0 then Some (Some (htx_ptr ?s p), 0) else if ofs < sz then Some (Some (htx_ptr ?s p), ofs)
       else htx_find_loop h (htx_get_next_blk h (htx_ptr ?s p)) (uint32 (ofs - sz)))"
    by (subst htx_find_loop.simps) (simp add: rdp sz_def)
  show ?case
  proof (cases "ofs = 0 \<or> ofs < sz")
    case True
    then show ?thesis using run less.prems by (intro exI [of _ p] exI [of _ ofs]) (auto simp: sz_def htx_sum_def)
  next
    case False
    have "htx_sum (htx_mem h) ?s [htx_head h..htx_tail h] = htx_data h" using geo by (simp add: htx_geo_def)
    moreover have "htx_sum (htx_mem h) ?s [p..htx_tail h] \<le> htx_sum (htx_mem h) ?s [htx_head h..htx_tail h]"
      using htx_sum_split [OF less.prems(1,2), of "htx_mem h" ?s] sp htx_sum_nonneg [of "htx_mem h" ?s "[htx_head h..p - 1]"]
      by (simp add: sz_def)
    moreover have "htx_data h < 2147483648" using g by (auto simp: htx_rooms_ok_def)
    ultimately have u: "uint32 (ofs - sz) = ofs - sz" using False less.prems szn by (intro uint32_small) auto
    have nt: "p \<noteq> htx_tail h" using sp False less.prems by (auto simp: htx_sum_def)
    then have nx: "htx_get_next_blk h (htx_ptr ?s p) = Some (htx_ptr ?s (p + 1))"
      using htx_get_next_blk_eq [OF geo less.prems(1,2)] by simp
    obtain q c where q: "htx_find_loop h (Some (htx_ptr ?s (p + 1))) (ofs - sz) = Some (Some (htx_ptr ?s q), c)"
      "p + 1 \<le> q" "q \<le> htx_tail h" "0 \<le> c" "c = 0 \<or> c < htx_get_blksz (htx_bl h q)"
      "htx_sum (htx_mem h) ?s [p + 1..q - 1] + c = ofs - sz"
      using less.hyps [of "p + 1" "ofs - sz"] less.prems nt sp False by auto
    have "htx_sum (htx_mem h) ?s [p..q - 1] = sz + htx_sum (htx_mem h) ?s [p + 1..q - 1]"
      using htx_sum_split [of p p "q - 1" "htx_mem h" ?s] q(2) by (simp add: sz_def htx_sum_def)
    then show ?thesis using run False u nx q by (intro exI [of _ q] exI [of _ c]) auto
  qed
qed


lemma htx_truncate_ok:
  assumes wf: "htx_wf h" and ofs: "0 \<le> ofs"
  shows "\<exists>h'. htx_truncate h ofs = Some h' \<and> htx_geo h' \<and> htx_msg h' = htx_truncated (htx_msg h) ofs \<and>
    htx_size h' = htx_size h \<and> length (htx_mem h') = length (htx_mem h) \<and> (ofs = 0 \<longrightarrow> htx_head h' = -1)"
proof (cases "htx_data h \<le> ofs")
  case True
  have geo: "htx_geo h" using wf by (simp add: htx_wf_def)
  have "htx_truncated (htx_msg h) ofs = htx_msg h"
    using htx_bytes_msg [OF geo] htx_bytes_part(2) [OF geo _ order_refl order_refl] True
    by (intro htx_truncated_all) (auto simp: htx_msg_def split: if_splits)
  moreover have "htx_truncate h ofs = Some h" using True by (simp add: htx_truncate_def htx_find_offset_def)
  ultimately show ?thesis using geo wf True by (auto simp: htx_wf_def)
next
  case False
  then have ne: "htx_head h \<noteq> -1" and geo: "htx_geo h" using wf ofs by (auto simp: htx_wf_def htx_geo_def)
  note g = htx_geoD [OF geo ne]
  let ?s = "htx_size h"
  have sum: "htx_sum (htx_mem h) ?s [htx_head h..htx_tail h] = htx_data h" using geo ne by (simp add: htx_geo_def)
  obtain q c where q: "htx_find_loop h (Some (htx_ptr ?s (htx_head h))) ofs = Some (Some (htx_ptr ?s q), c)"
    "htx_head h \<le> q" "q \<le> htx_tail h" "0 \<le> c" "ofs = 0 \<longrightarrow> q = htx_head h" "c = 0 \<or> c < htx_get_blksz (htx_bl h q)"
    "htx_sum (htx_mem h) ?s [htx_head h..q - 1] + c = ofs"
    using htx_find_loop_ok [OF geo ne order_refl g(5) ofs] False sum by auto
  let ?A = "htx_part (htx_mem h) ?s (htx_head h) (q - 1)" and ?B = "htx_part (htx_mem h) ?s (q + 1) (htx_tail h)"
  define b where "b = htx_bl h q"
  have rdq: "blk_rd h (htx_ptr ?s q) = Some b" unfolding b_def using q g by (intro blk_rd_eq) auto
  have m: "htx_msg h = ?A @ (if blk_used b then [blk_entry (htx_mem h) b] else []) @ ?B"
    using htx_part_split [OF q(2,3), of "htx_mem h" ?s] ne by (simp add: htx_msg_def b_def)
  have cb: "c < 268435456" using q(6) htx_get_blksz_bounds [of "htx_bl h q"] by auto
  have A: "int (length (htx_bytes ?A)) + c = ofs" "\<And>e. e \<in> set ?A \<Longrightarrow> snd e \<noteq> []"
    using htx_bytes_part [OF geo ne order_refl, of "q - 1"] q(3,7) by auto
  have tr: "htx_truncated (htx_msg h) ofs = ?A @ htx_truncated ((if blk_used b then [blk_entry (htx_mem h) b] else []) @ ?B) c"
    unfolding m A(1) [symmetric] by (rule htx_truncated_append [OF A(2) q(4)])
  have run: "htx_truncate h ofs = (if c \<noteq> 0 \<and> htx_get_blk_type b = HTX_BLK_DATA
         then do { h \<leftarrow> htx_change_blk_value_len h (htx_ptr ?s q) c; htx_remove_all h (htx_get_next_blk h (htx_ptr ?s q)) }
         else htx_remove_all h (Some (htx_ptr ?s q)))"
    using False q(1,4) cb rdq ne
    by (simp add: htx_truncate_def htx_find_offset_def htx_get_head_blk_eq [OF geo] to_int32_small uint32_small)
  have un: "blk_used b" if "c \<noteq> 0"
  proof (rule ccontr)
    assume "\<not> blk_used b"
    then have "htx_get_blksz b = 0" using g(3) q(2,3) by (auto simp: htx_blks_ok_def blk_placed_def b_def)
    then show False using that q(4,6) by (simp add: b_def)
  qed
  show ?thesis
  proof (cases "c \<noteq> 0 \<and> htx_get_blk_type b = HTX_BLK_DATA")
    case no: False
    then have "htx_truncated (htx_msg h) ofs = ?A"
    proof (cases "c = 0")
      case cn: False
      then have "c < int (length (snd (blk_entry (htx_mem h) b)))" "drop_bit 28 (fst (blk_entry (htx_mem h) b)) \<noteq> HTX_BLK_DATA"
        using htx_payload_len [OF geo ne q(2,3)] un q(6) no by (auto simp: b_def blk_entry_def htx_get_blk_type_def)
      then show ?thesis unfolding tr using un cn by (cases "blk_entry (htx_mem h) b") simp
    qed (simp add: tr)
    moreover have "htx_truncate h ofs = htx_remove_all h (Some (htx_ptr ?s q))" unfolding run by (rule if_not_P [OF no])
    ultimately show ?thesis using htx_remove_all_ok [OF geo ne q(2,3)] q(5) by auto
  next
    case yes: True
    have cs: "0 < c" "c < 268435456" "c \<le> htx_get_blksz b" using yes q(4,6) cb by (auto simp: b_def)
    have tight: "htx_end_addr h = 0 \<or> htx_end_addr h < htx_tail_addr h" using wf g(2) ne by (auto simp: htx_rooms_ok_def htx_wf_def)
    obtain h1 where h1: "htx_change_blk_value_len h (htx_ptr ?s q) c = Some h1" "htx_wf h1" "htx_size h1 = ?s"
      "length (htx_mem h1) = length (htx_mem h)" "htx_head h1 = htx_head h" "htx_tail h1 = htx_tail h"
      "htx_bl h1 q = \<lparr>blk_addr = blk_addr b, blk_info = info_of HTX_BLK_DATA c\<rparr>"
      "\<And>x y. htx_head h \<le> x \<Longrightarrow> y \<le> htx_tail h \<Longrightarrow> q < x \<or> y < q \<Longrightarrow> htx_part (htx_mem h1) ?s x y = htx_part (htx_mem h) ?s x y"
      "htx_msg h1 = ?A @ (info_of HTX_BLK_DATA c, bs (htx_mem h) (blk_addr b) c) # ?B"
      using htx_change_blk_value_len_ok [OF geo ne q(2,3) _ _ cs(1,2) refl refl tight] un yes cs unfolding b_def by blast
    have geo1: "htx_geo h1" "htx_head h1 \<noteq> -1" using h1(2,5) ne by (auto simp: htx_wf_def)
    have us: "blk_used (htx_bl h1 q)"
      unfolding h1(7) blk_used_def using type_info_of [of HTX_BLK_DATA c "\<lparr>blk_addr = blk_addr b, blk_info = info_of HTX_BLK_DATA c\<rparr>"] cs by simp
    have p1: "htx_part (htx_mem h1) ?s (htx_head h) (q - 1) = ?A" "htx_part (htx_mem h1) ?s (q + 1) (htx_tail h) = ?B"
      using q(2,3) by (auto intro!: h1(8))
    have s1: "htx_msg h1 = ?A @ blk_entry (htx_mem h1) (htx_bl h1 q) # ?B"
      using htx_part_split [OF q(2,3), of "htx_mem h1" ?s] us p1 geo1(2) h1(3,5,6) by (simp add: htx_msg_def)
    then have en: "blk_entry (htx_mem h1) (htx_bl h1 q) = (info_of HTX_BLK_DATA c, bs (htx_mem h) (blk_addr b) c)"
      using h1(9) by simp
    have "htx_truncated (htx_msg h) ofs = ?A @ [(info_of HTX_BLK_DATA c, bs (htx_mem h) (blk_addr b) c)]"
    proof -
      have "c \<le> int (length (bs (htx_mem h) (blk_addr b) (htx_get_blksz b)))"
        using htx_payload_len [OF geo ne q(2,3)] un yes cs by (simp add: b_def blk_entry_def)
      have "c < int (length (snd (blk_entry (htx_mem h) b)))" "drop_bit 28 (fst (blk_entry (htx_mem h) b)) = HTX_BLK_DATA"
        using htx_payload_len [OF geo ne q(2,3)] un q(6) yes by (auto simp: b_def blk_entry_def htx_get_blk_type_def)
      moreover have "take (nat c) (snd (blk_entry (htx_mem h) b)) = bs (htx_mem h) (blk_addr b) c"
        using cs by (simp add: blk_entry_def bs_def min_absorb1 nat_mono)
      ultimately show ?thesis unfolding tr using un yes by (cases "blk_entry (htx_mem h) b") simp
    qed
    moreover have pq: "htx_part (htx_mem h1) ?s (htx_head h) q = ?A @ [(info_of HTX_BLK_DATA c, bs (htx_mem h) (blk_addr b) c)]"
      using htx_part_snoc [OF q(2), of "htx_mem h1" ?s] us p1(1) en h1(3) by simp
    moreover have "ofs \<noteq> 0" using htx_sum_nonneg [of "htx_mem h" ?s "[htx_head h..q - 1]"] q(7) cs(1) by linarith
    moreover have "\<exists>h2. htx_truncate h ofs = Some h2 \<and> htx_geo h2 \<and> htx_msg h2 = htx_part (htx_mem h1) ?s (htx_head h) q \<and>
      htx_size h2 = ?s \<and> length (htx_mem h2) = length (htx_mem h)"
    proof (cases "q = htx_tail h")
      case True
      then have "htx_truncate h ofs = Some h1"
        using yes h1(1) htx_get_next_blk_eq [OF geo1, of q] q(2) h1(3,5,6) by (simp add: run htx_remove_all.simps)
      then show ?thesis using geo1 h1 pq True by (intro exI [of _ h1]) simp
    next
      case False
      then have "htx_truncate h ofs = htx_remove_all h1 (Some (htx_ptr ?s (q + 1)))"
        using yes h1(1) htx_get_next_blk_eq [OF geo1, of q] q(2,3) h1(3,5,6) by (simp add: run)
      then show ?thesis using htx_remove_all_ok [OF geo1, of "q + 1"] q(2,3) False h1(3-6) by auto
    qed
    ultimately show ?thesis by auto
  qed
qed

section \<open>Concatenating\<close>

lemma htx_free_space_grow:
  assumes wf: "htx_wf h" and w: "htx_wf h'" "htx_msg h' = htx_msg h @ [(i, xs)]" "int (length xs) = n" "htx_size h' = htx_size h"
    and t: "htx_tail h' - htx_head h' \<le> (if htx_head h = -1 then 0 else htx_tail h + 1 - htx_head h)"
  shows "htx_free_space h \<le> htx_free_space h' + (n + 8)"
proof -
  have g: "htx_geo h" "htx_geo h'" using wf w by (auto simp: htx_wf_def)
  have ne: "htx_head h' \<noteq> -1" using w(2) by (auto simp: htx_msg_def)
  have "htx_data h' = htx_data h + n" using htx_bytes_msg [OF g(1)] htx_bytes_msg [OF g(2)] w(2,3) by simp
  moreover have "htx_head h = -1 \<Longrightarrow> htx_data h = 0" using g(1) by (auto simp: htx_geo_def)
  ultimately show ?thesis using htx_free_space_eq [OF g(1)] htx_free_space_eq [OF g(2)] ne w(4) t by (auto split: if_splits)
qed

lemma htx_append_blk_ok:
  assumes wf: "htx_wf dst" and tr: "htx_size dst \<le> int (length tr)"
    and src: "htx_geo src" "htx_head src \<noteq> -1" and p: "htx_head src \<le> p" "p \<le> htx_tail src" and u: "blk_used (htx_bl src p)"
  shows "\<exists>dst'. htx_append_blk tr dst src (htx_ptr (htx_size src) p) =
      Some (dst', htx_get_blksz (htx_bl src p) \<le> htx_free_data_space dst) \<and>
    htx_wf dst' \<and> htx_size dst' = htx_size dst \<and> length (htx_mem dst') = length (htx_mem dst) \<and>
    htx_msg dst' = htx_msg dst @
      (if htx_get_blksz (htx_bl src p) \<le> htx_free_data_space dst then [blk_entry (htx_mem src) (htx_bl src p)] else []) \<and>
    htx_free_space dst \<le> htx_free_space dst' +
      (if htx_get_blksz (htx_bl src p) \<le> htx_free_data_space dst then htx_get_blksz (htx_bl src p) + 8 else 0)"
proof -
  note g = htx_geoD [OF src] and up = htx_used_payload [OF src p u]
  define b where "b = htx_bl src p"
  define n where "n = htx_get_blksz b"
  have rdb: "blk_rd src (htx_ptr (htx_size src) p) = Some b" unfolding b_def using p g by (intro blk_rd_eq) auto
  have n: "0 < n" "n < 268435456" using up(3) htx_get_blksz_bounds [of b] by (simp_all add: n_def b_def)
  have nu: "htx_get_blk_type b \<noteq> HTX_BLK_UNUSED" using u by (simp add: blk_used_def b_def)
  show ?thesis
  proof (cases "n \<le> htx_free_data_space dst")
    case False
    then have "htx_add_blk tr dst (htx_get_blk_type b) n = Some (dst, None)" using n(2) by (intro htx_add_blk_full) auto
    then show ?thesis using False wf rdb nu by (simp add: htx_append_blk_def n_def b_def [symmetric])
  next
    case True
    obtain h1 q where a: "htx_add_blk tr dst (htx_get_blk_type b) n = Some (h1, Some (htx_ptr (htx_size dst) q))"
      and q: "htx_pending h1 q n" and f: "htx_size h1 = htx_size dst" "length (htx_mem h1) = length (htx_mem dst)"
      "htx_part (htx_mem h1) (htx_size h1) (htx_head h1) (q - 1) = htx_msg dst"
      and hd: "q - htx_head h1 \<le> (if htx_head dst = -1 then 0 else htx_tail dst + 1 - htx_head dst)"
      using htx_add_blk_ok [OF wf n tr True] by blast
    note d = htx_pendingD [OF q]
    define m1 where "m1 = blit (htx_mem h1) (nat (htx_ptr (htx_size h1) q + 4)) (w32_bytes (blk_info b))"
    note gi = htx_pending_info [OF q m1_def]
    define xs where "xs = bs (htx_mem src) (blk_addr b) n"
    have lx: "int (length xs) = n"
      using htx_payload_len [OF src p u] by (simp add: xs_def n_def b_def blk_entry_def)
    have ri: "blk_used \<lparr>blk_addr = 0, blk_info = blk_info b\<rparr>" "htx_get_blksz \<lparr>blk_addr = 0, blk_info = blk_info b\<rparr> = n"
      using u htx_get_blksz_addr [of "\<lparr>blk_addr = 0, blk_info = blk_info b\<rparr>" b]
      by (simp_all add: blk_used_def htx_get_blk_type_def b_def n_def)
    have si: "blk_set_info h1 (htx_ptr (htx_size dst) q) (blk_info b) = Some (h1\<lparr>htx_mem := m1\<rparr>)" using gi(1) f(1) by simp
    have rb: "blk_rd (h1\<lparr>htx_mem := m1\<rparr>) (htx_ptr (htx_size dst) q) = Some \<lparr>blk_addr = blk_addr (htx_bl h1 q), blk_info = blk_info b\<rparr>"
      using blk_rd_eq [of "h1\<lparr>htx_mem := m1\<rparr>" q] htx_pendingD(1) [OF gi(6)] d(2,3) f(1) gi(3) by simp
    have "0 \<le> blk_addr b \<and> blk_addr b + n \<le> int (length (htx_mem src))"
      using up g by (auto simp: b_def n_def htx_ptr_def)
    then have rs: "mrd (htx_mem src) (blk_addr b) n = Some xs" using n by (simp add: mrd_Some xs_def)
    have "blk_addr (htx_bl h1 q) + n \<le> int (length m1)" using d gi(2) by (simp add: htx_ptr_def)
    then have wr: "blk_write (h1\<lparr>htx_mem := m1\<rparr>) (blk_addr (htx_bl h1 q)) xs =
        Some (h1\<lparr>htx_mem := blit m1 (nat (blk_addr (htx_bl h1 q))) xs\<rparr>)"
      using blk_write_eq [of "blk_addr (htx_bl h1 q)" xs "h1\<lparr>htx_mem := m1\<rparr>"] d(4) lx by simp
    have "htx_append_blk tr dst src (htx_ptr (htx_size src) p) = Some (h1\<lparr>htx_mem := blit m1 (nat (blk_addr (htx_bl h1 q))) xs\<rparr>, True)"
      using rdb nu a si rb rs wr by (simp add: htx_append_blk_def htx_get_blk_ptr_def n_def [symmetric])
    moreover have w: "htx_wf (h1\<lparr>htx_mem := blit m1 (nat (blk_addr (htx_bl h1 q))) xs\<rparr>) \<and>
        htx_msg (h1\<lparr>htx_mem := blit m1 (nat (blk_addr (htx_bl h1 q))) xs\<rparr>) = htx_msg dst @ [(blk_info b, xs)]"
      using htx_pending_fill [OF q lx ri m1_def refl] f(3) by simp
    moreover have "length (blit m1 (nat (blk_addr (htx_bl h1 q))) xs) = length (htx_mem dst)"
      using d gi(2) f lx by (subst length_blit_int) (auto simp: htx_ptr_def)
    moreover have "htx_free_space dst \<le> htx_free_space (h1\<lparr>htx_mem := blit m1 (nat (blk_addr (htx_bl h1 q))) xs\<rparr>) + (n + 8)"
      by (rule htx_free_space_grow [OF wf, of _ "blk_info b" xs]) (use w lx f q hd in \<open>simp_all add: htx_pending_def\<close>)
    ultimately show ?thesis using True f by (simp add: n_def b_def xs_def blk_entry_def)
  qed
qed

text \<open>The bytes that a list of entries occupies, descriptors included.\<close>

definition htx_needs :: "htx_entry list \<Rightarrow> int" where
  "htx_needs es = int (length (htx_bytes es)) + 8 * int (length es)"

lemma htx_needs_simps [simp]:
  "htx_needs [] = 0" "htx_needs (e # es) = int (length (snd e)) + 8 + htx_needs es"
  by (simp_all add: htx_needs_def)

lemma htx_needs_nonneg: "0 \<le> htx_needs es"
  by (simp add: htx_needs_def)

lemma htx_append_loop_ok:
  assumes "htx_wf dst" and "\<And>k. htx_size dst \<le> int (length (tr k))"
    and src: "htx_geo src" "htx_head src \<noteq> -1" and "htx_head src \<le> p" and "p \<le> htx_tail src"
  shows "\<exists>dst' ok es. htx_append_loop tr k dst src (Some (htx_ptr (htx_size src) p)) = Some (dst', ok) \<and> htx_wf dst' \<and>
    htx_size dst' = htx_size dst \<and> length (htx_mem dst') = length (htx_mem dst) \<and> htx_msg dst' = htx_msg dst @ es \<and>
    (if ok then es = htx_part (htx_mem src) (htx_size src) p (htx_tail src)
     else htx_free_space dst < htx_needs (htx_part (htx_mem src) (htx_size src) p (htx_tail src)))"
  using assms(1,2,5,6)
proof (induction "nat (htx_tail src - p)" arbitrary: p k dst rule: less_induct)
  case less
  let ?ptr = "htx_ptr (htx_size src) p"
  note g = htx_geoD [OF src]
  define b where "b = htx_bl src p"
  have rdb: "blk_rd src ?ptr = Some b" unfolding b_def using less.prems g by (intro blk_rd_eq) auto
  have sp: "htx_part (htx_mem src) (htx_size src) p (htx_tail src) =
      (if blk_used b then [blk_entry (htx_mem src) b] else []) @ htx_part (htx_mem src) (htx_size src) (p + 1) (htx_tail src)"
    using htx_part_split [OF order_refl less.prems(4), of "htx_mem src" "htx_size src"] by (simp add: b_def)
  obtain d1 ok where d1: "htx_append_blk (tr k) dst src ?ptr = Some (d1, ok)" "htx_wf d1" "htx_size d1 = htx_size dst"
    "length (htx_mem d1) = length (htx_mem dst)"
    "htx_msg d1 = htx_msg dst @ (if ok \<and> blk_used b then [blk_entry (htx_mem src) b] else [])"
    and fr: "if ok then htx_free_space dst \<le> htx_free_space d1 + (if blk_used b then int (length (snd (blk_entry (htx_mem src) b))) + 8 else 0)
       else blk_used b \<and> htx_free_space dst < int (length (snd (blk_entry (htx_mem src) b))) + 8"
  proof (cases "blk_used b")
    case True
    have l: "int (length (snd (blk_entry (htx_mem src) b))) = htx_get_blksz b"
      using htx_payload_len [OF src less.prems(3,4)] True by (simp add: b_def)
    have "htx_free_data_space dst < htx_get_blksz b \<Longrightarrow> htx_free_space dst < htx_get_blksz b + 8"
      by (auto simp: htx_free_data_space_def Let_def split: if_splits)
    moreover obtain d1 where "htx_append_blk (tr k) dst src ?ptr = Some (d1, htx_get_blksz b \<le> htx_free_data_space dst)" "htx_wf d1"
      "htx_size d1 = htx_size dst" "length (htx_mem d1) = length (htx_mem dst)"
      "htx_msg d1 = htx_msg dst @ (if htx_get_blksz b \<le> htx_free_data_space dst then [blk_entry (htx_mem src) b] else [])"
      "htx_free_space dst \<le> htx_free_space d1 + (if htx_get_blksz b \<le> htx_free_data_space dst then htx_get_blksz b + 8 else 0)"
      using htx_append_blk_ok [OF less.prems(1,2) src less.prems(3,4), folded b_def] True by blast
    ultimately show ?thesis by (intro that) (use True l in auto)
  next
    case False
    then have "htx_append_blk (tr k) dst src ?ptr = Some (dst, True)"
      using rdb by (simp add: htx_append_blk_def blk_used_def)
    then show ?thesis using less.prems(1) False that by auto
  qed
  have step: "htx_append_loop tr k dst src (Some ?ptr) =
      (if ok then htx_append_loop tr (Suc k) d1 src (htx_get_next_blk src ?ptr) else Some (d1, False))"
    using d1(1) by (subst htx_append_loop.simps) simp
  show ?case
  proof (cases "ok \<and> p \<noteq> htx_tail src")
    case True
    then have nx: "htx_get_next_blk src ?ptr = Some (htx_ptr (htx_size src) (p + 1))"
      using htx_get_next_blk_eq [OF src less.prems(3,4)] by simp
    have "nat (htx_tail src - (p + 1)) < nat (htx_tail src - p)" using True less.prems by simp
    then obtain d2 ok2 es where "htx_append_loop tr (Suc k) d1 src (Some (htx_ptr (htx_size src) (p + 1))) = Some (d2, ok2)"
      "htx_wf d2" "htx_size d2 = htx_size dst" "length (htx_mem d2) = length (htx_mem dst)" "htx_msg d2 = htx_msg d1 @ es"
      "if ok2 then es = htx_part (htx_mem src) (htx_size src) (p + 1) (htx_tail src)
       else htx_free_space d1 < htx_needs (htx_part (htx_mem src) (htx_size src) (p + 1) (htx_tail src))"
      using less.hyps [of "p + 1" d1 "Suc k"] d1 less.prems True by auto
    then show ?thesis using step nx True sp d1(5) fr
      by (intro exI [of _ d2] exI [of _ ok2] exI [of _ "(if blk_used b then [blk_entry (htx_mem src) b] else []) @ es"]) auto
  next
    case False
    have "htx_append_loop tr (Suc k) d1 src None = Some (d1, True)" by (subst htx_append_loop.simps) simp
    then have "htx_append_loop tr k dst src (Some ?ptr) = Some (d1, ok)"
      using step False htx_get_next_blk_eq [OF src less.prems(3,4)] by auto
    then show ?thesis using d1 False sp fr htx_needs_nonneg [of "htx_part (htx_mem src) (htx_size src) (p + 1) (htx_tail src)"]
      by (intro exI [of _ d1] exI [of _ ok] exI [of _ "if ok \<and> blk_used b then [blk_entry (htx_mem src) b] else []"]) auto
  qed
qed

lemma htx_append_msg_ok:
  assumes dst: "htx_wf dst" and tr: "\<And>k. htx_size dst \<le> int (length (tr k))" and src: "htx_geo src"
  shows "\<exists>dst' r. htx_append_msg tr dst src = Some (dst', r) \<and> htx_wf dst' \<and> htx_size dst' = htx_size dst \<and>
    length (htx_mem dst') = length (htx_mem dst) \<and>
    (r = 1 \<and> htx_msg dst' = htx_msg dst @ htx_msg src \<or>
     r = 0 \<and> htx_msg dst' = htx_msg dst \<and> htx_free_space dst < htx_needs (htx_msg src))"
proof (cases "htx_head src = -1")
  case True
  have "htx_append_loop tr 0 dst src None = Some (dst, True)" by (subst htx_append_loop.simps) simp
  then show ?thesis using True dst by (simp add: htx_append_msg_def htx_get_head_blk_eq [OF src] htx_msg_def)
next
  case False
  note g = htx_geoD [OF src False]
  have gd: "htx_geo dst" using dst by (simp add: htx_wf_def)
  obtain d1 ok es where l: "htx_append_loop tr 0 dst src (Some (htx_ptr (htx_size src) (htx_head src))) = Some (d1, ok)" "htx_wf d1"
    "htx_size d1 = htx_size dst" "length (htx_mem d1) = length (htx_mem dst)" "htx_msg d1 = htx_msg dst @ es"
    "if ok then es = htx_part (htx_mem src) (htx_size src) (htx_head src) (htx_tail src)
     else htx_free_space dst < htx_needs (htx_part (htx_mem src) (htx_size src) (htx_head src) (htx_tail src))"
    using htx_append_loop_ok [where tr = tr and k = 0, OF dst tr src False order_refl g(5)] by blast
  show ?thesis
  proof (cases ok)
    case True
    then show ?thesis using l False by (simp add: htx_append_msg_def htx_get_head_blk_eq [OF src] htx_msg_def)
  next
    case no: False
    have ne: "\<And>e. e \<in> set (htx_msg dst) \<Longrightarrow> snd e \<noteq> []"
      using htx_bytes_part(2) [OF gd _ order_refl order_refl] by (auto simp: htx_msg_def split: if_splits)
    have d: "int (length (htx_bytes (htx_msg dst))) = htx_data dst" by (rule htx_bytes_msg [OF gd])
    then have dn: "0 \<le> htx_data dst" by linarith
    obtain h' where h': "htx_truncate d1 (htx_data dst) = Some h'" "htx_geo h'" "htx_msg h' = htx_truncated (htx_msg dst @ es) (htx_data dst)"
      "htx_size h' = htx_size dst" "length (htx_mem h') = length (htx_mem dst)" "htx_data dst = 0 \<longrightarrow> htx_head h' = -1"
      using htx_truncate_ok [OF l(2) dn] l(3-5) by auto
    have m: "htx_msg h' = htx_msg dst"
      using h'(3) htx_truncated_append [of "htx_msg dst" 0 es] ne d by simp
    then have "htx_data h' = htx_data dst" using htx_bytes_msg [OF h'(2)] d by simp
    then have "htx_wf h'" using h'(2,6) dn by (auto simp: htx_wf_def)
    then show ?thesis using l(1,6) no h' m False by (simp add: htx_append_msg_def htx_get_head_blk_eq [OF src] htx_msg_def [of src])
  qed
qed

end
