(* ===== verification/HtxMsg.thy ===== *)
theory HtxMsg
  imports HtxAppend
begin

unbundle bit_operations_syntax

text \<open>
  HTX messages: the properties of the operations of \<^verbatim>\<open>src/htx.c\<close> on the content of a message, one by one
  and in sequences.
\<close>

section \<open>Messages for the examples\<close>

text \<open>The message of \<open>n\<close> bytes after \<^verbatim>\<open>htx_reset\<close>.\<close>

definition htx_fresh :: "nat \<Rightarrow> htx" where
  "htx_fresh n = \<lparr>htx_size = int n, htx_data = 0, htx_tail = -1, htx_head = -1, htx_first = -1, htx_tail_addr = 0,
     htx_head_addr = 0, htx_end_addr = 0, htx_extra = 0, htx_flags = HTX_FL_NONE, htx_mem = replicate n 0\<rparr>"

lemma htx_fresh_reset: "htx_reset (htx_fresh n) = htx_fresh n"
  by (simp add: htx_fresh_def htx_reset_def)

lemma htx_fresh_wf: "0 < n \<Longrightarrow> int n < 2147483648 \<Longrightarrow> n mod 8 = 0 \<Longrightarrow> htx_wf (htx_fresh n) \<and> htx_msg (htx_fresh n) = []"
  by (simp add: htx_fresh_def htx_wf_def htx_geo_def htx_area_ok_def htx_msg_def) presburger

text \<open>A message of 80 bytes that holds the header \<open>H: ab\<close>, then two bytes of data.\<close>

definition htx_small :: htx where
  "htx_small = \<lparr>htx_size = 80, htx_data = 5, htx_tail = 1, htx_head = 0, htx_first = -1, htx_tail_addr = 5,
     htx_head_addr = 0, htx_end_addr = 0, htx_extra = 0, htx_flags = HTX_FL_NONE,
     htx_mem = [0x68, 0x61, 0x62, 0x79, 0x7a] @ replicate 59 0 @ [3, 0, 0, 0, 2, 0, 0, 0x40] @ [0, 0, 0, 0, 1, 2, 0, 0x20]\<rparr>"

lemma htx_small_wf: "htx_wf htx_small"
  by code_simp

lemma htx_small_msg: "htx_msg htx_small = [hdr_entry HTX_BLK_HDR [0x48] [0x61, 0x62], (info_of HTX_BLK_DATA 2, [0x79, 0x7a])]"
  by code_simp

section \<open>A message that aborts\<close>

text \<open>Without the two length guards, whose bounds are large.\<close>

lemma htx_add_header_short:
  "length name \<le> 255 \<Longrightarrow> length val \<le> 1048575 \<Longrightarrow> htx_add_header tr h name val = do {
        (h, r) \<leftarrow> htx_add_blk tr h HTX_BLK_HDR (int (length name + length val));
        case r of None \<Rightarrow> Some (h, None)
        | Some blk \<Rightarrow> do {
            h \<leftarrow> blk_add_info h blk (word_of_nat (length val * 256 + length name));
            b \<leftarrow> blk_rd h blk;
            h \<leftarrow> blk_write_lc h (htx_get_blk_ptr b) name;
            h \<leftarrow> blk_write h (htx_get_blk_ptr b + int (length name)) val;
            Some (h, Some blk) } }"
  unfolding htx_add_header_def htx_add_name_value_def by (rule if_not_P) auto

text \<open>Three headers of 14, 1 and 1 bytes, the removal of the second, the first and the third, two headers of
  13 and 1 bytes, the removal of the former. The last block is at position 3.\<close>

definition htx_lone_unused :: "htx option" where
  "htx_lone_unused = do {
     (h, _) \<leftarrow> htx_add_header [] (htx_fresh 48) [0x61, 0x61, 0x61, 0x61, 0x61, 0x61, 0x61, 0x61, 0x61, 0x61, 0x61, 0x61, 0x61, 0x61] [];
     (h, _) \<leftarrow> htx_add_header [] h [0x62] [];
     (h, _) \<leftarrow> htx_add_header [] h [0x63] [];
     (h, _) \<leftarrow> htx_remove_blk h (htx_get_blk h 1);
     (h, _) \<leftarrow> htx_remove_blk h (htx_get_blk h 0);
     (h, _) \<leftarrow> htx_remove_blk h (htx_get_blk h 2);
     (h, _) \<leftarrow> htx_add_header [] h [0x64, 0x64, 0x64, 0x64, 0x64, 0x64, 0x64, 0x64, 0x64, 0x64, 0x64, 0x64, 0x64] [];
     (h, _) \<leftarrow> htx_add_header [] h [0x65] [];
     (h, _) \<leftarrow> htx_remove_blk h (htx_get_blk h 2);
     Some h }"

lemma htx_lone_unused_removal:
  "case htx_lone_unused of None \<Rightarrow> False | Some h \<Rightarrow> htx_head h = 1 \<and> htx_tail h = 3 \<and> htx_remove_blk h (htx_get_blk h 3) = None"
proof -
  have l: "length [0x61, 0x61, 0x61, 0x61, 0x61, 0x61, 0x61, 0x61, 0x61, 0x61, 0x61, 0x61, 0x61, 0x61 :: byte] \<le> 255" 
    "length [0x64, 0x64, 0x64, 0x64, 0x64, 0x64, 0x64, 0x64, 0x64, 0x64, 0x64, 0x64, 0x64 :: byte] \<le> 255"
    "length [x :: byte] \<le> 255" "length ([] :: bytes) \<le> 1048575" for x by simp_all
  show ?thesis
    unfolding htx_lone_unused_def htx_add_header_short [OF l(1,4)] htx_add_header_short [OF l(2,4)] htx_add_header_short [OF l(3,4)]
    by code_simp
qed

section \<open>Sequences of operations\<close>

datatype htx_op = OpHeader bytes bytes | OpTrailer bytes bytes | OpEoh | OpEot | OpData bytes | OpDrain int | OpDefrag

text \<open>One call; the result is dropped. \<open>tr\<close> is the content of the trash chunk.\<close>

fun htx_do :: "bytes \<Rightarrow> htx \<Rightarrow> htx_op \<Rightarrow> htx option" where
  "htx_do tr h (OpHeader name val) = do { (h, _) \<leftarrow> htx_add_header tr h name val; Some h }"
| "htx_do tr h (OpTrailer name val) = do { (h, _) \<leftarrow> htx_add_trailer tr h name val; Some h }"
| "htx_do tr h OpEoh = do { (h, _) \<leftarrow> htx_add_endof tr h HTX_BLK_EOH; Some h }"
| "htx_do tr h OpEot = do { (h, _) \<leftarrow> htx_add_endof tr h HTX_BLK_EOT; Some h }"
| "htx_do tr h (OpData xs) = do { (h, _) \<leftarrow> htx_add_data tr h xs; Some h }"
| "htx_do tr h (OpDrain n) = do { (h, _) \<leftarrow> htx_drain h n; Some h }"
| "htx_do tr h OpDefrag = do { (h, _) \<leftarrow> htx_defrag tr h None 0; Some h }"

fun htx_run :: "(nat \<Rightarrow> bytes) \<Rightarrow> htx \<Rightarrow> htx_op list \<Rightarrow> htx option" where
  "htx_run tr h [] = Some h"
| "htx_run tr h (a # as) = do { h \<leftarrow> htx_do (tr 0) h a; htx_run (\<lambda>i. tr (Suc i)) h as }"

fun htx_op_ok :: "htx_op \<Rightarrow> bool" where
  "htx_op_ok (OpHeader name val) = (0 < length name + length val)"
| "htx_op_ok (OpTrailer name val) = (0 < length name + length val)"
| "htx_op_ok (OpData xs) = (int (length xs) < 2147483648)"
| "htx_op_ok (OpDrain n) = (0 \<le> n \<and> n < 4294967296)"
| "htx_op_ok _ = True"

text \<open>What a call may do to the content: a block that is appended whole or not at all, a prefix of the data
  appended, bytes drained, nothing.\<close>

inductive htx_does :: "htx_entry list \<Rightarrow> htx_op \<Rightarrow> htx_entry list \<Rightarrow> bool" where
  header: "htx_does es (OpHeader name val) (es @ [hdr_entry HTX_BLK_HDR name val])"
| trailer: "htx_does es (OpTrailer name val) (es @ [hdr_entry HTX_BLK_TLR name val])"
| eoh: "htx_does es OpEoh (es @ [(push_bit 28 HTX_BLK_EOH + 1, [x])])"
| eot: "htx_does es OpEot (es @ [(push_bit 28 HTX_BLK_EOT + 1, [x])])"
| no_room: "a = OpHeader name val \<or> a = OpTrailer name val \<or> a = OpEoh \<or> a = OpEot \<Longrightarrow> htx_does es a es"
| data: "htx_stream es' = htx_stream es @ map Inr (take k xs) \<Longrightarrow> htx_does es (OpData xs) es'"
| drain: "htx_does es (OpDrain n) (fst (htx_drained es n))"
| defrag: "htx_does es OpDefrag es"

inductive htx_trace :: "htx_entry list \<Rightarrow> htx_op list \<Rightarrow> htx_entry list \<Rightarrow> bool" where
  stop: "htx_trace es [] es"
| call: "htx_does es a fs \<Longrightarrow> htx_trace fs as gs \<Longrightarrow> htx_trace es (a # as) gs"

inductive_simps htx_does_simps [simp]:
  "htx_does es (OpHeader name val) fs" "htx_does es (OpTrailer name val) fs" "htx_does es OpEoh fs" "htx_does es OpEot fs"
  "htx_does es (OpData xs) fs" "htx_does es (OpDrain n) fs" "htx_does es OpDefrag fs"

inductive_simps htx_trace_Cons: "htx_trace es (a # as) gs"

lemma htx_add_name_value_cases:
  assumes wf: "htx_wf h" and tr: "htx_size h \<le> int (length tr)" and t: "t = HTX_BLK_HDR \<or> t = HTX_BLK_TLR"
    and l: "0 < length name + length val"
  shows "\<exists>h' blk. htx_add_name_value tr h t name val = Some (h', blk) \<and> htx_wf h' \<and>
    htx_size h' = htx_size h \<and> length (htx_mem h') = length (htx_mem h) \<and>
    (if length name \<le> 255 \<and> length val \<le> 1048575 \<and> int (length name + length val) \<le> htx_free_data_space h
     then blk \<noteq> None \<and> htx_msg h' = htx_msg h @ [hdr_entry t name val]
     else blk = None \<and> h' = h)"
proof (cases "length name \<le> 255 \<and> length val \<le> 1048575")
  case True
  show ?thesis
  proof (cases "int (length name + length val) \<le> htx_free_data_space h")
    case fits: True
    then show ?thesis using htx_add_name_value_ok [OF wf tr t _ _ l] True by fastforce
  next
    case False
    then have "htx_add_name_value tr h t name val = Some (h, None)" using True by (intro htx_add_name_value_full) auto
    then show ?thesis using wf False by auto
  qed
next
  case False
  then have "htx_add_name_value tr h t name val = Some (h, None)"
    unfolding htx_add_name_value_def by (intro if_P) auto
  then show ?thesis using wf False by auto
qed

lemma htx_add_endof_cases:
  assumes wf: "htx_wf h" and tr: "htx_size h \<le> int (length tr)" and t: "t = HTX_BLK_EOH \<or> t = HTX_BLK_EOT"
  shows "\<exists>h' blk. htx_add_endof tr h t = Some (h', blk) \<and> htx_wf h' \<and>
    htx_size h' = htx_size h \<and> length (htx_mem h') = length (htx_mem h) \<and>
    (htx_msg h' = htx_msg h \<or> (\<exists>x. htx_msg h' = htx_msg h @ [(push_bit 28 t + 1, [x])]))"
proof (cases "1 \<le> htx_free_data_space h")
  case True
  then show ?thesis using htx_add_endof_ok [OF wf tr t True] by blast
next
  case False
  then have "htx_add_endof tr h t = Some (h, None)" using htx_add_blk_full [of 1 h tr t] by (simp add: htx_add_endof_def)
  then show ?thesis using wf by auto
qed

lemma htx_do_ok:
  assumes wf: "htx_wf h" and tr: "htx_size h \<le> int (length tr)" and sz: "htx_size h \<le> 268435456" and a: "htx_op_ok a"
  shows "\<exists>h'. htx_do tr h a = Some h' \<and> htx_wf h' \<and> htx_does (htx_msg h) a (htx_msg h') \<and> htx_size h' = htx_size h"
proof (cases a)
  case (OpHeader name val)
  then show ?thesis using htx_add_name_value_cases [OF wf tr, of HTX_BLK_HDR name val] a
    by (auto simp: htx_add_header_def split: if_splits)
next
  case (OpTrailer name val)
  then show ?thesis using htx_add_name_value_cases [OF wf tr, of HTX_BLK_TLR name val] a
    by (auto simp: htx_add_trailer_def split: if_splits)
next
  case OpEoh
  then show ?thesis using htx_add_endof_cases [OF wf tr, of HTX_BLK_EOH] by auto
next
  case OpEot
  then show ?thesis using htx_add_endof_cases [OF wf tr, of HTX_BLK_EOT] by auto
next
  case (OpData xs)
  then show ?thesis using htx_add_data_ok [OF wf tr sz, of xs] a by auto
next
  case (OpDrain n)
  then show ?thesis using htx_drain_ok [OF wf, of n] a by auto
next
  case OpDefrag
  show ?thesis
  proof (cases "htx_head h = -1")
    case True
    then show ?thesis using OpDefrag wf by (simp add: htx_defrag_def)
  next
    case False
    then show ?thesis using OpDefrag htx_defrag_wf [OF wf False tr, of "-1" None] by auto
  qed
qed

lemma htx_run_ok:
  "htx_wf h \<Longrightarrow> htx_size h \<le> 268435456 \<Longrightarrow> (\<And>i. htx_size h \<le> int (length (tr i))) \<Longrightarrow> list_all htx_op_ok as \<Longrightarrow>
   \<exists>h'. htx_run tr h as = Some h' \<and> htx_wf h' \<and> htx_trace (htx_msg h) as (htx_msg h') \<and> htx_size h' = htx_size h"
proof (induction as arbitrary: tr h)
  case Nil
  then show ?case by (auto intro: htx_trace.intros)
next
  case (Cons a as)
  obtain h1 where h1: "htx_do (tr 0) h a = Some h1" "htx_wf h1" "htx_does (htx_msg h) a (htx_msg h1)" "htx_size h1 = htx_size h"
    using htx_do_ok [OF Cons.prems(1) Cons.prems(3) Cons.prems(2), of a] Cons.prems(4) by auto
  then obtain h2 where "htx_run (\<lambda>i. tr (Suc i)) h1 as = Some h2" "htx_wf h2" "htx_trace (htx_msg h1) as (htx_msg h2)"
    "htx_size h2 = htx_size h"
    using Cons.IH [of h1 "\<lambda>i. tr (Suc i)"] Cons.prems by auto
  then show ?case using h1 by (auto intro: htx_trace.intros)
qed

section \<open>Properties\<close>

lemma htx_small_facts: "htx_size htx_small = 80" "htx_head htx_small = 0" "htx_tail htx_small = 1" "htx_data htx_small = 5"
    "htx_free_data_space htx_small = 51" "blk_used (htx_bl htx_small 0)"
    "htx_used (htx_mem htx_small) 80 0 (-1) = []"
  by (code_simp | simp)+

text \<open>C14. \<^verbatim>\<open>htx_add_header\<close> of \<^verbatim>\<open>src/htx.c\<close> on a well-formed message: when the name and the value have the
  lengths a descriptor can hold and fit in \<^verbatim>\<open>htx_free_data_space\<close>, one block is appended whose payload is the
  name in lower case and then the value, whatever moves inside the area that takes (in place, at the front, after
  a defragmentation); otherwise the call returns no block and leaves the message unchanged.\<close>

theorem htx_add_header_appends:
  assumes "htx_wf h" and "htx_size h \<le> int (length tr)" and "0 < length name + length val"
  shows "\<exists>h' blk. htx_add_header tr h name val = Some (h', blk) \<and> htx_wf h' \<and>
    (if length name \<le> 255 \<and> length val \<le> 1048575 \<and> int (length name + length val) \<le> htx_free_data_space h
     then blk \<noteq> None \<and> htx_msg h' = htx_msg h @ [hdr_entry HTX_BLK_HDR name val]
     else blk = None \<and> h' = h)"
  using htx_add_name_value_cases [OF assms(1,2) _ assms(3), of HTX_BLK_HDR] unfolding htx_add_header_def by blast

theorem htx_add_header_appends_witness:
  "\<exists>h' blk. htx_add_header (replicate 80 0) htx_small [0x41] [0x62] = Some (h', blk) \<and> htx_wf h' \<and>
     htx_msg h' = htx_msg htx_small @ [hdr_entry HTX_BLK_HDR [0x41] [0x62]]"
  using htx_add_header_appends [OF htx_small_wf, of "replicate 80 0" "[0x41]" "[0x62]"] htx_small_facts by auto

text \<open>C15. \<^verbatim>\<open>htx_add_data\<close> of \<^verbatim>\<open>src/htx.c\<close> on a well-formed message: it returns the number \<open>k\<close> of bytes it
  took, appends exactly the first \<open>k\<close> bytes to the content, in the last DATA block or a new one, and takes less than
  the free space allows only when the message ends with a DATA block.\<close>

theorem htx_add_data_appends:
  assumes "htx_wf h" and "htx_size h \<le> int (length tr)" and "htx_size h \<le> 268435456" and "int (length xs) < 2147483648"
  shows "\<exists>h' k. htx_add_data tr h xs = Some (h', k) \<and> 0 \<le> k \<and> k \<le> min (int (length xs)) (htx_free_data_space h) \<and> htx_wf h' \<and>
    htx_stream (htx_msg h') = htx_stream (htx_msg h) @ map Inr (take (nat k) xs) \<and>
    (k = min (int (length xs)) (htx_free_data_space h) \<or>
       htx_msg h \<noteq> [] \<and> drop_bit 28 (fst (last (htx_msg h))) = HTX_BLK_DATA)"
  using htx_add_data_ok [OF assms] by blast

theorem htx_add_data_appends_witness:
  "\<exists>h' k. htx_add_data (replicate 80 0) (htx_fresh 80) [1, 2, 3] = Some (h', k) \<and> htx_wf h' \<and>
     htx_stream (htx_msg h') = [Inr 1, Inr 2, Inr 3]"
proof -
  have w: "htx_wf (htx_fresh 80)" "htx_msg (htx_fresh 80) = []" using htx_fresh_wf [of 80] by simp_all
  have s: "htx_size (htx_fresh 80) = 80" by (simp add: htx_fresh_def)
  have f: "htx_free_data_space (htx_fresh 80) = 72" by code_simp
  show ?thesis using htx_add_data_appends [OF w(1), of "replicate 80 0" "[1, 2, 3]"] w(2) s f by auto
qed

text \<open>C16. \<^verbatim>\<open>htx_drain\<close> of \<^verbatim>\<open>src/htx.c\<close> on a well-formed message, for every count: the call ends, returns the
  number of bytes taken, which is at most the count, and leaves the content without exactly these bytes: whole blocks
  from the front, then the front of a DATA block; no other block is split.\<close>

theorem htx_drain_takes_front:
  assumes "htx_wf h" and "0 \<le> count" and "count < 4294967296"
  shows "\<exists>h' blk n. htx_drain h count = Some (h', blk, n) \<and> htx_wf h' \<and> (htx_msg h', n) = htx_drained (htx_msg h) count \<and>
    0 \<le> n \<and> n \<le> count \<and> htx_bytes (htx_msg h') = drop (nat n) (htx_bytes (htx_msg h))"
  using htx_drain_ok [OF assms] htx_drained_prefix [OF assms(2), of "htx_msg h"] by (metis prod.collapse)

theorem htx_drain_takes_front_witness:
  "\<exists>h' blk. htx_drain htx_small 4 = Some (h', blk, 4) \<and> htx_wf h' \<and> htx_msg h' = [(info_of HTX_BLK_DATA 1, [0x7a])]"
proof -
  have "htx_drained (htx_msg htx_small) 4 = ([(info_of HTX_BLK_DATA 1, [0x7a])], 4)" unfolding htx_small_msg by code_simp
  then show ?thesis using htx_drain_takes_front [OF htx_small_wf, of 4] by fastforce
qed

text \<open>C17. \<^verbatim>\<open>htx_defrag\<close> of \<^verbatim>\<open>src/htx.c\<close> on a well-formed message that is not empty: the content is the same, the
  descriptors are those of the blocks in use from position 0, the payloads are contiguous from the start of the area,
  and the free space is all the area that the content does not need.\<close>

theorem htx_defrag_compacts:
  assumes "htx_wf h" and "htx_head h \<noteq> -1" and "htx_size h \<le> int (length tr)"
  shows "\<exists>h'. htx_defrag tr h None 0 = Some (h', None) \<and> htx_wf h' \<and> htx_msg h' = htx_msg h \<and> htx_head h' = 0 \<and>
    htx_tail h' + 1 = int (length (htx_msg h)) \<and> htx_head_addr h' = 0 \<and> htx_end_addr h' = 0 \<and>
    htx_tail_addr h' = int (length (htx_bytes (htx_msg h))) \<and>
    htx_free_space h' = htx_size h - int (length (htx_bytes (htx_msg h))) - 8 * int (length (htx_msg h))"
proof -
  have geo: "htx_geo h" using assms by (simp add: htx_wf_def)
  have l: "length (htx_live h) = length (htx_msg h)" using assms(2) by (simp add: htx_msg_def htx_part_def)
  have no: "-1 \<notin> set (htx_live h)" using htx_geoD(4) [OF geo assms(2)] by (auto simp: htx_used_mem)
  obtain h' where h': "htx_defrag tr h None 0 = Some (h', None)" "htx_wf h'" "htx_msg h' = htx_msg h" "htx_size h' = htx_size h"
    "htx_data h' = htx_data h" "htx_head h' = 0" "htx_tail h' = int (length (htx_live h)) - 1" "htx_tail_addr h' = htx_data h"
    "htx_head_addr h' = 0" "htx_end_addr h' = 0"
    using htx_defrag_wf [OF assms, of "-1" None] no by auto
  have "htx_free_space h' = htx_size h - htx_data h - 8 * int (length (htx_msg h))"
    using htx_free_space_eq [of h'] h' l by (simp add: htx_wf_def)
  then show ?thesis using h' l htx_bytes_msg [OF geo] by auto
qed

theorem htx_defrag_compacts_witness:
  "\<exists>h'. htx_defrag (replicate 80 0) htx_small None 0 = Some (h', None) \<and> htx_msg h' = htx_msg htx_small \<and> htx_tail_addr h' = 5"
  using htx_defrag_compacts [OF htx_small_wf, of "replicate 80 0"] htx_small_facts by (auto simp: htx_small_msg hdr_entry_def)

text \<open>C18. \<^verbatim>\<open>htx_remove_blk\<close> of \<^verbatim>\<open>src/htx.c\<close> on a block in use of a well-formed message, wherever it is (front,
  middle, end, the only one): the entry of the block leaves the content and every other one stays, in order; the
  message stays well formed when it was the only block or data is left.\<close>

theorem htx_remove_blk_removes:
  assumes "htx_wf h" and "htx_head h \<noteq> -1" and "htx_head h \<le> p" and "p \<le> htx_tail h" and "blk_used (htx_bl h p)"
  shows "\<exists>h' r i. htx_remove_blk h (htx_get_blk h p) = Some (h', r) \<and> i < length (htx_msg h) \<and>
    htx_msg h ! i = blk_entry (htx_mem h) (htx_bl h p) \<and> htx_msg h' = take i (htx_msg h) @ drop (Suc i) (htx_msg h) \<and>
    (htx_head h = htx_tail h \<or> htx_msg h' \<noteq> [] \<longrightarrow> htx_wf h')"
proof -
  have geo: "htx_geo h" using assms by (simp add: htx_wf_def)
  note g = htx_geoD [OF geo assms(2)]
  let ?A = "htx_part (htx_mem h) (htx_size h) (htx_head h) (p - 1)" and ?B = "htx_part (htx_mem h) (htx_size h) (p + 1) (htx_tail h)"
  obtain h' r where h': "htx_remove_blk h (htx_ptr (htx_size h) p) = Some (h', r)" "htx_geo h'" "htx_msg h' = ?A @ ?B"
    "htx_head h = htx_tail h \<Longrightarrow> htx_head h' = -1"
    using htx_remove_msg [OF geo assms(2,3,4)] by (auto split: if_splits)
  have m: "htx_msg h = ?A @ blk_entry (htx_mem h) (htx_bl h p) # ?B"
    using htx_part_split [OF assms(3,4), of "htx_mem h" "htx_size h"] assms(2,5) by (simp add: htx_msg_def)
  have wf: "htx_wf h'" if "htx_head h = htx_tail h \<or> htx_msg h' \<noteq> []"
  proof (cases "htx_head h' = -1")
    case False
    have "htx_msg h' \<noteq> []" using that h'(4) False by blast
    then obtain e es where e: "htx_msg h' = e # es" by (cases "htx_msg h'") auto
    then have "snd e \<noteq> []" using htx_bytes_part(2) [OF h'(2) False order_refl order_refl, of e] False by (simp add: htx_msg_def)
    then have "0 < length (htx_bytes (htx_msg h'))" using e by simp
    then have "0 < htx_data h'" using htx_bytes_msg [OF h'(2)] by linarith
    then show ?thesis using h'(2) by (simp add: htx_wf_def)
  qed (use h'(2) in \<open>simp add: htx_wf_def\<close>)
  have gb: "htx_get_blk h p = htx_ptr (htx_size h) p" using g assms by (intro htx_get_blk_eq) auto
  show ?thesis
    by (intro exI [of _ h'] exI [of _ r] exI [of _ "length ?A"]) (use wf h' m gb in auto)
qed

theorem htx_remove_blk_removes_witness:
  "\<exists>h' r. htx_remove_blk htx_small (htx_get_blk htx_small 0) = Some (h', r) \<and> htx_wf h' \<and> length (htx_msg h') = 1"
proof -
  have "htx_head htx_small \<noteq> -1" "htx_head htx_small \<le> 0" "0 \<le> htx_tail htx_small" "blk_used (htx_bl htx_small 0)"
    using htx_small_facts by simp_all
  from htx_remove_blk_removes [OF htx_small_wf this]
  obtain h' r i where r: "htx_remove_blk htx_small (htx_get_blk htx_small 0) = Some (h', r)" "i < length (htx_msg htx_small)"
    "htx_msg h' = take i (htx_msg htx_small) @ drop (Suc i) (htx_msg htx_small)"
    "htx_head htx_small = htx_tail htx_small \<or> htx_msg h' \<noteq> [] \<longrightarrow> htx_wf h'" by blast
  have "length (htx_msg h') = 1" using r(2,3) by (simp add: htx_small_msg)
  then show ?thesis using r by (intro exI [of _ h'] exI [of _ r]) auto
qed

text \<open>C13. Sequences of calls of \<^verbatim>\<open>htx_add_header\<close>, \<^verbatim>\<open>htx_add_trailer\<close>, \<^verbatim>\<open>htx_add_endof\<close>,
  \<^verbatim>\<open>htx_add_data\<close>, \<^verbatim>\<open>htx_drain\<close> and \<^verbatim>\<open>htx_defrag\<close> of \<^verbatim>\<open>src/htx.c\<close> from a well-formed message, whatever the trash
  chunk holds: no \<^verbatim>\<open>BUG_ON\<close> is hit and nothing is accessed out of bounds, and the content evolves as the list of
  blocks the calls describe.\<close>

theorem htx_run_refines:
  assumes "htx_wf h" and "htx_size h \<le> 268435456" and "\<And>i. htx_size h \<le> int (length (tr i))" and "list_all htx_op_ok as"
  shows "\<exists>h'. htx_run tr h as = Some h' \<and> htx_wf h' \<and> htx_trace (htx_msg h) as (htx_msg h')"
  using htx_run_ok [of h tr as, OF assms] by blast

theorem htx_run_refines_witness:
  "\<exists>h'. htx_run (\<lambda>i. replicate 80 0) htx_small [OpData [1, 2], OpDrain 4, OpHeader [0x41] [], OpDefrag, OpEoh] = Some h' \<and>
     htx_trace (htx_msg htx_small) [OpData [1, 2], OpDrain 4, OpHeader [0x41] [], OpDefrag, OpEoh] (htx_msg h')"
proof -
  have "list_all htx_op_ok [OpData [1, 2], OpDrain 4, OpHeader [0x41] [], OpDefrag, OpEoh]" by simp
  then show ?thesis
    using htx_run_refines [OF htx_small_wf, of "\<lambda>i. replicate 80 0" "[OpData [1, 2], OpDrain 4, OpHeader [0x41] [], OpDefrag, OpEoh]"]
      htx_small_facts by fastforce
qed

text \<open>The messages that the calls build from \<^verbatim>\<open>htx_reset\<close>, with removals of any block. Nothing is added to a
  message that has descriptors but no data, and it is not defragmented: such a message, which the removal of
  the last payload can leave, is the subject of the section on aborts.\<close>

inductive htx_reach :: "htx \<Rightarrow> bool" where
  reset: "htx_area_ok h \<Longrightarrow> htx_size h \<le> 268435456 \<Longrightarrow> htx_reach (htx_reset h)"
| op: "htx_reach h \<Longrightarrow> htx_is_empty h \<or> htx_data h \<noteq> 0 \<Longrightarrow> htx_size h \<le> int (length tr) \<Longrightarrow> htx_op_ok a \<Longrightarrow>
    htx_do tr h a = Some h' \<Longrightarrow> htx_reach h'"
| append: "htx_reach h \<Longrightarrow> htx_is_empty h \<or> htx_data h \<noteq> 0 \<Longrightarrow> \<forall>k. htx_size h \<le> int (length (trs k)) \<Longrightarrow> htx_reach src \<Longrightarrow>
    htx_append_msg trs h src = Some (h', ret) \<Longrightarrow> htx_reach h'"
| drain: "htx_reach h \<Longrightarrow> 0 \<le> n \<Longrightarrow> n < 4294967296 \<Longrightarrow> htx_drain h n = Some (h', blk, ret) \<Longrightarrow> htx_reach h'"
| truncate: "htx_reach h \<Longrightarrow> 0 \<le> n \<Longrightarrow> htx_truncate h n = Some h' \<Longrightarrow> htx_reach h'"
| remove: "htx_reach h \<Longrightarrow> htx_head h \<noteq> -1 \<Longrightarrow> htx_head h \<le> p \<Longrightarrow> p \<le> htx_tail h \<Longrightarrow>
    htx_remove_blk h (htx_get_blk h p) = Some (h', blk) \<Longrightarrow> htx_reach h'"

lemma htx_wf_data: "htx_geo h \<Longrightarrow> htx_is_empty h \<or> htx_data h \<noteq> 0 \<Longrightarrow> htx_wf h"
  using htx_bytes_msg [of h] by (auto simp: htx_wf_def htx_is_empty_def)

lemma htx_drain_geo:
  assumes geo: "htx_geo h" and n: "0 \<le> n" "n < 4294967296" and r: "htx_drain h n = Some (h', blk, ret)"
  shows "htx_geo h' \<and> htx_size h' = htx_size h"
proof (cases "n = htx_data h")
  case True
  then show ?thesis using r htx_reset_geo [OF geo] by (auto simp: htx_drain_def htx_reset_def)
next
  case False
  have "htx_data h < 2147483648" using geo by (auto simp: htx_geo_def htx_rooms_ok_def htx_area_ok_def split: if_splits)
  then show ?thesis using htx_drain_loop_ok [OF geo n False, of 0] r False by (auto simp: htx_drain_def htx_wf_def)
qed

lemma htx_remove_geo:
  assumes geo: "htx_geo h" and p: "htx_head h \<noteq> -1" "htx_head h \<le> p" "p \<le> htx_tail h"
  shows "\<exists>h' r. htx_remove_blk h (htx_get_blk h p) = Some (h', r) \<and> htx_geo h' \<and> htx_size h' = htx_size h"
proof -
  have "htx_get_blk h p = htx_ptr (htx_size h) p" using htx_geoD [OF geo] p by (intro htx_get_blk_eq) auto
  then show ?thesis using htx_remove_msg [OF geo p] by auto
qed

lemma htx_reach_ok: "htx_reach h \<Longrightarrow> htx_geo h \<and> htx_size h \<le> 268435456"
proof (induction rule: htx_reach.induct)
  case (reset h)
  then show ?case by (simp add: htx_geo_def htx_reset_def htx_area_ok_def)
next
  case (op h tr a h')
  have "htx_wf h" using htx_wf_data op.IH op.hyps(2) by blast
  from htx_do_ok [OF this op.hyps(3) conjunct2 [OF op.IH] op.hyps(4)] show ?case using op.hyps(5) op.IH by (auto simp: htx_wf_def)
next
  case (append h trs src h' ret)
  have "htx_wf h" using htx_wf_data append.IH(1) append.hyps(2) by blast
  from htx_append_msg_ok [of h trs src, OF this] have "htx_wf h'" "htx_size h' = htx_size h"
    using append.hyps(3,5) append.IH by auto
  then show ?case using append.IH(1) by (simp add: htx_wf_def)
next
  case (drain h n h' blk ret)
  from htx_drain_geo [OF conjunct1 [OF drain.IH] drain.hyps(2-4)] show ?case using drain.IH by simp
next
  case (truncate h n h')
  show ?case
  proof (cases "htx_is_empty h \<or> htx_data h \<noteq> 0")
    case True
    then have "htx_wf h" using htx_wf_data truncate.IH by blast
    from htx_truncate_ok [OF this truncate.hyps(2)] show ?thesis using truncate.IH truncate.hyps(3) by auto
  next
    case False
    then have "htx_truncate h n = Some h" using truncate.hyps(2) by (simp add: htx_truncate_def htx_find_offset_def)
    then show ?thesis using truncate.IH truncate.hyps(3) by simp
  qed
next
  case (remove h p h' blk)
  from htx_remove_geo [OF conjunct1 [OF remove.IH] remove.hyps(2-4)] show ?case using remove.IH remove.hyps(5) by auto
qed

text \<open>C20. The messages of \<^verbatim>\<open>src/htx.c\<close> that calls of \<^verbatim>\<open>htx_add_header\<close>, \<^verbatim>\<open>htx_add_trailer\<close>, \<^verbatim>\<open>htx_add_endof\<close>,
  \<^verbatim>\<open>htx_add_data\<close>, \<^verbatim>\<open>htx_append_msg\<close>, \<^verbatim>\<open>htx_defrag\<close>, \<^verbatim>\<open>htx_drain\<close>, \<^verbatim>\<open>htx_truncate\<close> and \<^verbatim>\<open>htx_remove_blk\<close> (of any
  block) build from \<^verbatim>\<open>htx_reset\<close>, when nothing is added to a message that only has unused descriptors and it is
  not defragmented: each one is a valid \<^verbatim>\<open>struct htx\<close> (positions and addresses in order and in bounds, every
  payload in one of the two occupied parts and below the descriptors, payloads disjoint, \<^verbatim>\<open>data\<close> the sum of their
  sizes), and the removal of any of its blocks hits no \<^verbatim>\<open>BUG_ON\<close> and stays in bounds.\<close>

theorem htx_reach_valid:
  assumes "htx_reach h"
  shows "htx_geo h \<and> (\<forall>p. htx_head h \<noteq> -1 \<and> htx_head h \<le> p \<and> p \<le> htx_tail h \<longrightarrow> htx_remove_blk h (htx_get_blk h p) \<noteq> None)"
  using htx_reach_ok [OF assms] htx_remove_geo [of h] by fastforce

theorem htx_reach_valid_witness: "\<exists>h. htx_reach h \<and> htx_geo h \<and> htx_msg h = [hdr_entry HTX_BLK_HDR [0x41] [0x62]]"
proof -
  have w: "htx_wf (htx_fresh 80)" "htx_msg (htx_fresh 80) = []" "htx_size (htx_fresh 80) = 80" "htx_is_empty (htx_fresh 80)"
    using htx_fresh_wf [of 80] by (simp_all add: htx_fresh_def htx_is_empty_def)
  have f: "htx_free_data_space (htx_fresh 80) = 72" by code_simp
  have r: "htx_reach (htx_fresh 80)"
    using htx_reach.reset [of "htx_fresh 80"] w by (simp add: htx_fresh_reset htx_wf_def htx_geo_def)
  obtain h blk where h: "htx_add_name_value (replicate 80 0) (htx_fresh 80) HTX_BLK_HDR [0x41] [0x62] = Some (h, blk)"
    "htx_msg h = [hdr_entry HTX_BLK_HDR [0x41] [0x62]]"
    using htx_add_name_value_cases [OF w(1), of "replicate 80 0" HTX_BLK_HDR "[0x41]" "[0x62]"] w f by auto
  have "htx_reach h"
    by (rule htx_reach.op [OF r, of "replicate 80 0" "OpHeader [0x41] [0x62]"]) (use h w in \<open>simp_all add: htx_add_header_def\<close>)
  then show ?thesis using htx_reach_valid h by blast
qed

text \<open>C19. \<^verbatim>\<open>htx_append_msg\<close> of \<^verbatim>\<open>src/htx.c\<close> is all or nothing: it returns 1 and the content of \<^verbatim>\<open>dst\<close> is followed
  by that of \<^verbatim>\<open>src\<close>, or it returns 0 and the content of \<^verbatim>\<open>dst\<close> is the same as before, \<^verbatim>\<open>htx_truncate\<close> having taken
  back the blocks already copied; it returns 1 whenever the free space of \<^verbatim>\<open>dst\<close> can hold all the blocks.\<close>

theorem htx_append_msg_atomic:
  assumes "htx_wf dst" and "\<And>k. htx_size dst \<le> int (length (tr k))" and "htx_geo src"
  shows "\<exists>dst' r. htx_append_msg tr dst src = Some (dst', r) \<and> htx_wf dst' \<and>
    (r = 1 \<and> htx_msg dst' = htx_msg dst @ htx_msg src \<or>
     r = 0 \<and> htx_msg dst' = htx_msg dst \<and>
       htx_free_space dst < int (length (htx_bytes (htx_msg src))) + 8 * int (length (htx_msg src)))"
  using htx_append_msg_ok [of dst tr src, OF assms] unfolding htx_needs_def by blast

theorem htx_append_msg_atomic_witness:
  "\<exists>dst' r. htx_append_msg (\<lambda>k. replicate 80 0) (htx_fresh 80) htx_small = Some (dst', r) \<and> r = 1 \<and> htx_msg dst' = htx_msg htx_small"
proof -
  have w: "htx_wf (htx_fresh 80)" "htx_msg (htx_fresh 80) = []" "htx_size (htx_fresh 80) = 80"
    using htx_fresh_wf [of 80] by (simp_all add: htx_fresh_def)
  have f: "htx_free_space (htx_fresh 80) = 80" by code_simp
  have g: "htx_geo htx_small" using htx_small_wf by (simp add: htx_wf_def)
  have "int (length (htx_bytes (htx_msg htx_small))) + 8 * int (length (htx_msg htx_small)) = 21"
    by (simp add: htx_small_msg hdr_entry_def)
  moreover obtain dst' r where "htx_append_msg (\<lambda>k. replicate 80 0) (htx_fresh 80) htx_small = Some (dst', r)"
    "r = 1 \<and> htx_msg dst' = htx_msg (htx_fresh 80) @ htx_msg htx_small \<or>
     r = 0 \<and> htx_msg dst' = htx_msg (htx_fresh 80) \<and>
       htx_free_space (htx_fresh 80) < int (length (htx_bytes (htx_msg htx_small))) + 8 * int (length (htx_msg htx_small))"
    using htx_append_msg_atomic [OF w(1) _ g, of "\<lambda>k. replicate 80 0"] w(3) by fastforce
  ultimately show ?thesis using w(2) f by auto
qed

end
