(* ===== verification/Spec2Isabelle.thy ===== *)
theory Spec2Isabelle
  imports BufRing BufList Varint QuicEnc Fcgi HpackDec UriPath Base64 HtxMsg
begin

text \<open>
  A verification library for the data-handling core of the HAProxy load balancer that this repository
  keeps under \<^verbatim>\<open>src/soa/lab3/haproxy/source\<close> (abbreviated to \<^verbatim>\<open>.\<close> below: \<^verbatim>\<open>./src/buf.c\<close> is
  \<^verbatim>\<open>src/soa/lab3/haproxy/source/src/buf.c\<close>). The rest of the repository is course work and its build
  files; HAProxy is its one large program in C.

  \<^bold>\<open>The parts and how they interact.\<close> HAProxy receives bytes into circular buffers, decodes protocol
  elements from them (variable-length integers, FastCGI records, QUIC integers, HPACK header blocks),
  works on the decoded pieces as indirect strings (a pointer and a length), and writes the result into
  other buffers. The library follows these layers:

  \<^item> \<open>Prelude\<close>: bytes, \<^verbatim>\<open>size_t\<close> and \<^verbatim>\<open>int\<close> arithmetic with its wrap-around, memory areas with checked
    accesses, shared lemmas. \<open>Ring\<close>: what a reader sees of an area when offsets wrap. \<open>Interfaces\<close>: the
    contracts \<open>byte_queue\<close> (a bounded FIFO of bytes, with the lemmas on runs of operations proved once)
    and \<open>prefix_codec\<close> (an encoder and a decoder that stops at the end of its own encoding, with the
    lemmas on streams). They are interpreted on the buffers, varints, QUIC integers, FastCGI parameters
    and headers of the code. \<open>Uri\<close> has a third contract, \<open>percent_emitter\<close>.
  \<^item> \<open>Buf\<close> (\<^verbatim>\<open>./include/haproxy/buf-t.h\<close>, inline operations of \<^verbatim>\<open>./include/haproxy/buf.h\<close>): \<^verbatim>\<open>struct buffer\<close> is
    the record \<open>buffer\<close>, a C pointer into the area is an offset from \<^verbatim>\<open>b_orig\<close>. \<open>BufOps\<close> (\<^verbatim>\<open>./src/buf.c\<close>):
    block reads and writes, delimited reads, realignment, transfers, moves, insertion, replacement.
    The abstraction \<open>b_content\<close> is the list of bytes present, \<open>b_wf\<close> the invariant; every operation is
    characterised by what it does to the content.
  \<^item> \<open>BufRing\<close>, \<open>BufList\<close> (\<^verbatim>\<open>br_*\<close> and \<^verbatim>\<open>bl_*\<close> of the same files): bounded queues of buffers in an array, and
    lists of buffers that share one array of cells with a free list.
  \<^item> \<open>Varint\<close> (\<^verbatim>\<open>./include/haproxy/intops.h\<close>, \<^verbatim>\<open>./src/buf.c\<close>, \<^verbatim>\<open>./src/tools.c\<close>) and \<open>QuicEnc\<close>
    (\<^verbatim>\<open>./include/haproxy/quic_enc.h\<close>): the two encodings of integers, on plain memory and on buffers.
  \<^item> \<open>Fcgi\<close> (\<^verbatim>\<open>./src/fcgi.c\<close>, \<^verbatim>\<open>./include/haproxy/fcgi.h\<close>): FastCGI records, which write into an aligned
    chunk and read from a buffer that may wrap.
  \<^item> \<open>Ist\<close> (\<^verbatim>\<open>./include/import/ist.h\<close>): indirect strings over explicit memory objects; the word-at-a-time
    searches work on 64-bit words as the code does. \<open>Uri\<close>, \<open>UriPath\<close> (\<^verbatim>\<open>./src/uri_normalizer.c\<close>): the
    normalisers of request URIs, which read and write through indirect strings.
  \<^item> \<open>HpackHuff\<close>, \<open>HpackTbl\<close>, \<open>HpackEnc\<close>, \<open>HpackDec\<close> (\<^verbatim>\<open>./src/hpack-*.c\<close> and their headers): the header
    compression of HTTP/2: Huffman codes, the static and the dynamic table, the encoder (into a chunk)
    and the decoder of a frame, which uses the three others.
  \<^item> \<open>Base64\<close> (\<^verbatim>\<open>./src/base64.c\<close>): both alphabets and the 30-bit integers.
  \<^item> \<open>Htx\<close> (\<^verbatim>\<open>./src/htx.c\<close>, \<^verbatim>\<open>./include/haproxy/htx.h\<close>, \<^verbatim>\<open>./include/haproxy/htx-t.h\<close>): the version-independent
    representation of HTTP messages. \<^verbatim>\<open>struct htx\<close> is the record \<open>htx\<close>; its area is the list of bytes \<open>htx_mem\<close> in
    which payloads grow from the start and the descriptors of 8 bytes (\<open>htx_blk\<close>: address and information
    word) grow from the end, so that both share the memory as in the code; a \<^verbatim>\<open>struct htx_blk *\<close> is the offset
    of the descriptor. The content of the trash chunk that the full defragmentation borrows is an
    argument \<open>tr\<close>, since what it leaves behind depends on it. \<open>Htx\<close> holds the definitions only; \<open>HtxMem\<close> has the
    accesses to the area, the invariants and the abstraction: \<open>htx_geo\<close> (positions and addresses in order
    and in bounds, payloads placed and disjoint, \<^verbatim>\<open>data\<close> the sum of the sizes), \<open>htx_wf\<close> (\<open>htx_geo\<close>, and no
    message of unused descriptors only), \<open>htx_msg\<close> (the blocks in use, in order: information word and payload)
    and \<open>htx_stream\<close> (the same without the limits between DATA blocks). \<open>HtxDefrag\<close>, \<open>HtxAdd\<close>, \<open>HtxRemove\<close>,
    \<open>HtxData\<close> and \<open>HtxAppend\<close> prove what each function does to them, \<open>HtxMsg\<close> has the properties and the runs
    of calls. The hypotheses: a size that is a multiple of 8 below \<open>2 ^ 31\<close> (at most \<open>2 ^ 28\<close> where a DATA block can
    grow to the limit of its 28 bits), and no block without payload. The printers (\<^verbatim>\<open>htx_dump\<close>,
    \<^verbatim>\<open>htx_blk_type_str\<close>, the flags) and the selectors \<^verbatim>\<open>htx_sl_*\<close> of the parts of a start-line are left out; the
    functions without a theorem here (\<^verbatim>\<open>htx_xfer_blks\<close>, \<^verbatim>\<open>htx_replace_*\<close>, \<^verbatim>\<open>htx_move_blk_before\<close> and others) are modelled.

  \<^bold>\<open>How code is translated.\<close> A C function is a definition of the same name (prefixed by \<open>raw_\<close> where the C
  name starts with two underscores, suffixed where the name is taken by HOL). A \<^verbatim>\<open>struct\<close> is a record, an
  array a list or, for tables indexed by position, a list updated by index. Memory is explicit: an
  object is the list of its bytes, a pointer an offset, and every load, store and copy is
  bounds-checked. Functions that can go wrong return an option, and \<open>None\<close> stands for an access out
  of bounds, another undefined behaviour of C, a \<^verbatim>\<open>BUG_ON\<close> that aborts the process, or a loop that does
  not end (a C string that the code scans, such as the delimiters of \<^verbatim>\<open>b_getdelim\<close>, is the list of its bytes, and
  the end of the list its terminator); an error that the C function returns (\<^verbatim>\<open>-1\<close>, \<^verbatim>\<open>NULL\<close>, an error code) is an ordinary result.
  A theorem of the form \<open>f x = Some y\<close> is therefore a statement of memory safety and of termination
  as well as of the result. \<^verbatim>\<open>size_t\<close> is a natural number with the wrap-around written out (\<open>sz_add\<close>,
  \<open>sz_sub\<close>), an \<^verbatim>\<open>int\<close> or \<^verbatim>\<open>uint32_t\<close> that holds a size or a position is an integer narrowed by \<open>to_int32\<close> or \<open>uint32\<close>
  where the code narrows it, integers that the code masks and shifts are words of their width. The build is the default one on
  x86_64: little endian, unaligned accesses allowed, \<^verbatim>\<open>-fwrapv\<close>, \<^verbatim>\<open>BUG_ON\<close> compiled in and \<^verbatim>\<open>BUG_ON_HOT\<close>
  compiled out (so that the latter are hypotheses, in the invariants, rather than branches).

  \<^bold>\<open>Loops.\<close> A loop over a list or with a decreasing length is a \<open>fun\<close> or a \<open>function\<close> with its measure. The
  loops whose end depends on the data they read (varint readers, the searches of \<open>Ist\<close>, the
  Huffman and HPACK decoders, the URI normalisers, the Base64 decoder) are \<open>partial_function (option)\<close>
  without fuel: an infinite loop is \<open>None\<close>, and the theorems show that they return.

  \<^bold>\<open>Hypotheses.\<close> What recurs in the statements: the invariant of the structure (\<open>b_wf\<close>, \<open>dht_wf\<close>, \<open>ist_wf\<close>, \<open>htx_wf\<close>), and sizes below
  \<open>2 ^ 62\<close> or \<open>2 ^ 63\<close>, so that a sum of two sizes does not wrap; no object of an x86_64 process is
  that large. Allocation (\<^verbatim>\<open>malloc\<close>, the pool of header tables) is a parameter of the definitions that use
  it, with the result \<^verbatim>\<open>NULL\<close> among its possible values.

  \<^bold>\<open>What the groups of lemmas show.\<close> For the containers: each operation, on every branch, against the
  abstract content, then refinement of a queue, a table or a set of lists by runs of operations. For
  the codecs: the round trip in both directions, sizes, room errors that leave the destination
  unchanged, and bounds of the decoders on arbitrary input. For the optimised routines
  (searches by words, the compressed name table, the backward scan of dot segments): equality with a
  direct reference definition. For HTX messages: each call on every layout of the area, then runs of
  calls against the list of blocks, and the messages that can be built from an empty one. Statements that end in \<open>_overrun\<close>, \<open>_null\<close>, \<open>_refused\<close>,
  \<open>_underflow\<close>, \<open>_undefined\<close> and similar record inputs on which the code misbehaves.

  \<^bold>\<open>Not modelled.\<close> Non-contiguous buffers (\<^verbatim>\<open>./src/ncbuf.c\<close>): they store gap sizes inside the free bytes and
  are used for QUIC reassembly only. HTTP/1 parsing (\<^verbatim>\<open>./src/h1.c\<close>) and the multiplexers, streams and
  connections: they act through sockets, tasks, locks and the configuration, which are not data.
  Load balancing: works on servers and proxies linked in elastic binary trees, whose code is an imported
  library. Configuration, command line and statistics: text input and output. The
  debugging dumps of the modelled files only print. OpenSSL under \<^verbatim>\<open>src/soa/lab3/haproxy/openssl\<close> is a
  third-party library that is built and linked. \<^verbatim>\<open>src/csa/main.c\<close> is a timing loop around \<^verbatim>\<open>sscanf\<close>.
\<close>

end
